(* ===== verification/Prelude.thy ===== *)
theory Prelude
  imports Main "HOL-Library.Word"
begin

text \<open>
  Shared by every component: the outcome of a C function (a value, a process exit, a fault or a
  computation that never returns), programs as state transformers with such an outcome, counted
  loops, and generic lemmas on lists and maps.  The collection \<open>prog\<close> holds the equations
  that run a program symbolically; \<open>runs\<close> inverts a successful run.
\<close>

named_theorems prog \<open>equations that run a program on a state\<close>
named_theorems runs \<open>inversion of successful runs\<close>

section \<open>Outcomes and programs\<close>

text \<open>
  \<open>Ok x\<close> is a normal return of \<open>x\<close>; \<open>Exit c\<close> is \<open>exit(c)\<close>; \<open>Fault\<close> is undefined behaviour
  the process does not survive in the model (a NULL or out-of-range dereference, a failed
  \<open>assert\<close>, a division by zero); \<open>Diverge\<close> is a call that never returns (a loop that does not
  advance, a spin on a lock the caller itself holds).  The state reached is kept in every case,
  since a memory-mapped file and kernel memory outlive the caller.
\<close>

datatype 'a outcome = Ok 'a | Exit int | Fault | Diverge

type_synonym ('s, 'a) prog = "'s \<Rightarrow> 'a outcome \<times> 's"

definition ret :: "'a \<Rightarrow> ('s, 'a) prog" where
  "ret x s = (Ok x, s)"

definition bnd :: "('s, 'a) prog \<Rightarrow> ('a \<Rightarrow> ('s, 'b) prog) \<Rightarrow> ('s, 'b) prog" where
  "bnd m f s = (case m s of (r, t) \<Rightarrow>
     (case r of Ok x \<Rightarrow> f x t | Exit c \<Rightarrow> (Exit c, t) | Fault \<Rightarrow> (Fault, t) | Diverge \<Rightarrow> (Diverge, t)))"

definition thn :: "('s, unit) prog \<Rightarrow> ('s, 'b) prog \<Rightarrow> ('s, 'b) prog" where
  "thn m k = bnd m (\<lambda>_. k)"

definition peek :: "('s \<Rightarrow> 'a) \<Rightarrow> ('s, 'a) prog" where
  "peek f s = (Ok (f s), s)"

definition upd :: "('s \<Rightarrow> 's) \<Rightarrow> ('s, unit) prog" where
  "upd f s = (Ok (), f s)"

definition exitp :: "int \<Rightarrow> ('s, 'a) prog" where
  "exitp c s = (Exit c, s)"

definition faultp :: "('s, 'a) prog" where
  "faultp s = (Fault, s)"

definition divergep :: "('s, 'a) prog" where
  "divergep s = (Diverge, s)"

text \<open>\<open>need b\<close> is the check the hardware or an \<open>assert\<close> makes: it faults unless \<open>b\<close>.\<close>

definition need :: "bool \<Rightarrow> ('s, unit) prog" where
  "need b = (if b then ret () else faultp)"

primrec forM :: "'a list \<Rightarrow> ('a \<Rightarrow> ('s, unit) prog) \<Rightarrow> ('s, unit) prog" where
  "forM [] f = ret ()"
| "forM (x # xs) f = thn (f x) (forM xs f)"

text \<open>A counted loop with local variables.\<close>

primrec foldM :: "'a list \<Rightarrow> ('a \<Rightarrow> 'b \<Rightarrow> ('s, 'b) prog) \<Rightarrow> 'b \<Rightarrow> ('s, 'b) prog" where
  "foldM [] f v = ret v"
| "foldM (x # xs) f v = bnd (f x v) (foldM xs f)"

lemma ret_run [prog]: "ret x s = (Ok x, s)"
  by (simp add: ret_def)

lemma peek_run [prog]: "peek f s = (Ok (f s), s)"
  by (simp add: peek_def)

lemma upd_run [prog]: "upd f s = (Ok (), f s)"
  by (simp add: upd_def)

lemma exitp_run [prog]: "exitp c s = (Exit c, s)"
  by (simp add: exitp_def)

lemma faultp_run [prog]: "faultp s = (Fault, s)"
  by (simp add: faultp_def)

lemma divergep_run [prog]: "divergep s = (Diverge, s)"
  by (simp add: divergep_def)

lemma need_run [prog]: "need b s = (if b then (Ok (), s) else (Fault, s))"
  by (simp add: need_def ret_def faultp_def)

lemma bnd_run: "m s = (Ok x, t) \<Longrightarrow> bnd m f s = f x t"
  by (simp add: bnd_def)

lemma bnd_run_bool:
  "m s = (Ok True, t) \<Longrightarrow> bnd m f s = f True t" "m s = (Ok False, t) \<Longrightarrow> bnd m f s = f False t"
  by (simp_all add: bnd_def)

lemma bnd_stop: "m s = (r, t) \<Longrightarrow> \<forall>x. r \<noteq> Ok x \<Longrightarrow>
    \<exists>r'. bnd m f s = (r', t) \<and> (\<forall>x. r' \<noteq> Ok x)"
  by (cases r) (auto simp: bnd_def)

lemma bnd_prims [prog]:
  "bnd (ret x) f s = f x s"
  "bnd (exitp c) f s = (Exit c, s)"
  "bnd faultp f s = (Fault, s)"
  "bnd divergep f s = (Diverge, s)"
  by (simp_all add: bnd_def prog)

lemma bnd_peek [prog]: "bnd (peek g) f s = f (g s) s"
  by (simp add: bnd_def prog)

lemma bnd_upd [prog]: "bnd (upd u) f s = f () (u s)"
  by (simp add: bnd_def prog)

lemma bnd_need [prog]: "bnd (need b) f s = (if b then f () s else (Fault, s))"
  by (simp add: bnd_def prog)

lemma bnd_assoc [prog]: "bnd (bnd m g) f s = bnd m (\<lambda>x. bnd (g x) f) s"
  by (simp add: bnd_def split: prod.splits outcome.splits)

lemma bnd_if [prog]: "bnd (if c then m else n) f s = (if c then bnd m f s else bnd n f s)"
  by simp

lemma thn_run [prog]: "thn m k s = bnd m (\<lambda>_. k) s"
  by (simp add: thn_def)

lemma bnd_thn [prog]: "bnd (thn m k) f s = bnd m (\<lambda>_. bnd k f) s"
  by (simp add: thn_def bnd_assoc)

text \<open>The same laws of programs, not of their runs.\<close>

lemma bnd_fun: "bnd (bnd f g) h = bnd f (\<lambda>x. bnd (g x) h)" "bnd (ret x) h = h x" "bnd (thn m k) h = thn m (bnd k h)"
  by (rule ext, simp add: prog)+

lemma bnd_eq_Ok [runs]:
  "bnd m f s = (Ok y, u) \<longleftrightarrow> (\<exists>x t. m s = (Ok x, t) \<and> f x t = (Ok y, u))"
  by (auto simp: bnd_def split: prod.splits outcome.splits)

lemma thn_eq_Ok [runs]:
  "thn m k s = (Ok y, u) \<longleftrightarrow> (\<exists>t. m s = (Ok (), t) \<and> k t = (Ok y, u))"
  by (simp add: thn_def bnd_eq_Ok)

lemma prims_eq_Ok [runs]:
  "ret x s = (Ok y, u) \<longleftrightarrow> x = y \<and> u = s"
  "peek g s = (Ok y, u) \<longleftrightarrow> g s = y \<and> u = s"
  "upd f s = (Ok z, u) \<longleftrightarrow> u = f s"
  "need b s = (Ok z, u) \<longleftrightarrow> b \<and> u = s"
  "exitp c s = (Ok y, u) \<longleftrightarrow> False"
  "faultp s = (Ok y, u) \<longleftrightarrow> False"
  "divergep s = (Ok y, u) \<longleftrightarrow> False"
  by (auto simp: prog)

lemma bnd_cong [fundef_cong]:
  "m s = m' s' \<Longrightarrow> (\<And>x t. m' s' = (Ok x, t) \<Longrightarrow> f x t = f' x t) \<Longrightarrow> s = s' \<Longrightarrow>
   bnd m f s = bnd m' f' s'"
  by (auto simp: bnd_def split: prod.splits outcome.splits)

text \<open>A loop whose body always returns normally is the fold of its effect.\<close>

lemma forM_upd:
  "(\<And>x t. f x t = (Ok (), g x t)) \<Longrightarrow> forM xs f s = (Ok (), fold g xs s)"
  by (induction xs arbitrary: s) (simp_all add: prog bnd_run)

text \<open>Invariant rule of a counted loop.\<close>

lemma forM_inv:
  assumes "P s" and "\<And>x t. x \<in> set xs \<Longrightarrow> P t \<Longrightarrow> \<exists>u. f x t = (Ok (), u) \<and> P u"
  shows "\<exists>u. forM xs f s = (Ok (), u) \<and> P u"
  using assms
proof (induction xs arbitrary: s)
  case Nil
  then show ?case by (simp add: prog)
next
  case (Cons x xs)
  from Cons.prems obtain t where t: "f x s = (Ok (), t)" "P t"
    by fastforce
  with Cons.IH [OF t(2)] Cons.prems(2) show ?case
    by (simp add: prog bnd_run)
qed

lemma foldM_inv:
  assumes "P [] v s"
    and "\<And>ys x w t. \<exists>zs. xs = ys @ x # zs \<Longrightarrow> P ys w t \<Longrightarrow> \<exists>w' u. f x w t = (Ok w', u) \<and> P (ys @ [x]) w' u"
  shows "\<exists>w u. foldM xs f v s = (Ok w, u) \<and> P xs w u"
proof -
  have "\<exists>w u. foldM zs f v s = (Ok w, u) \<and> P xs w u"
    if "xs = ys @ zs" "P ys v s" for ys zs v s
    using that
  proof (induction zs arbitrary: ys v s)
    case Nil
    then show ?case by (simp add: prog)
  next
    case (Cons z zs)
    then obtain w u where "f z v s = (Ok w, u)" "P (ys @ [z]) w u"
      using assms(2) [of ys z v s] by blast
    with Cons.IH [of "ys @ [z]" w u] Cons.prems(1) show ?case
      by (simp add: bnd_run)
  qed
  from this [of "[]" xs] assms(1) show ?thesis by simp
qed

section \<open>Words\<close>

lemma unat_drop_bit: "unat (drop_bit n w) = unat w div 2 ^ n"
  by (metis drop_bit_eq_div unat_drop_bit_eq)

lemma bit_unat_iff: "bit w n \<longleftrightarrow> odd (unat w div 2 ^ n)"
  using bit_iff_odd [of "unat w" n] by (simp add: bit_unsigned_iff)

end
