(* ===== verification/Interceptor.thy ===== *)
theory Interceptor
  imports Prelude
begin

text \<open>
  \<^verbatim>\<open>Assignment1/interceptor.c\<close>: a kernel module that hijacks system calls and logs the calls
  of monitored processes.  The state \<open>kmod\<close> holds the kernel's system call table with the page
  table entry that protects it, the module's own metadata \<open>table\<close>, its two spin locks, the
  saved handlers and the log.  Every function of the file is a program over this state; a list
  head that was never passed to \<open>INIT_LIST_HEAD\<close> is \<open>None\<close>, and touching it faults.
\<close>

unbundle bit_operations_syntax

section \<open>Constants of the kernel and of the module\<close>

abbreviation (input) EPERM :: int where "EPERM \<equiv> 1"
abbreviation (input) ENOMEM :: int where "ENOMEM \<equiv> 12"
abbreviation (input) EBUSY :: int where "EBUSY \<equiv> 16"
abbreviation (input) EINVAL :: int where "EINVAL \<equiv> 22"

definition REQUEST_SYSCALL_INTERCEPT :: int where "REQUEST_SYSCALL_INTERCEPT = 1"
definition REQUEST_SYSCALL_RELEASE :: int where "REQUEST_SYSCALL_RELEASE = 2"
definition REQUEST_START_MONITORING :: int where "REQUEST_START_MONITORING = 3"
definition REQUEST_STOP_MONITORING :: int where "REQUEST_STOP_MONITORING = 4"
definition MY_CUSTOM_SYSCALL :: nat where "MY_CUSTOM_SYSCALL = 0"

lemmas request_defs = REQUEST_SYSCALL_INTERCEPT_def REQUEST_SYSCALL_RELEASE_def
  REQUEST_START_MONITORING_def REQUEST_STOP_MONITORING_def MY_CUSTOM_SYSCALL_def

text \<open>The page table bits \<open>_PAGE_PRESENT\<close> and \<open>_PAGE_RW\<close> of x86.\<close>

abbreviation (input) PAGE_PRESENT :: "64 word" where "PAGE_PRESENT \<equiv> 1"
abbreviation (input) PAGE_RW :: "64 word" where "PAGE_RW \<equiv> 2"

text \<open>
  The kernel the module is loaded into: \<open>NR_syscalls\<close> and \<open>__NR_exit_group\<close>, and the owner
  of every live process (\<open>pid_task(find_vpid(pid), PIDTYPE_PID)\<close> is NULL where it is \<open>None\<close>).
  A call is made by a process with a pid and an effective uid; \<open>kmalloc_ok\<close> says whether the
  kernel has memory for one more list node during the call.
\<close>

record kenv =
  NR_syscalls :: nat
  NR_exit_group :: nat
  task_uid :: "int \<Rightarrow> nat option"

record caller =
  cur_pid :: int
  cur_uid :: nat
  kmalloc_ok :: bool

text \<open>Handlers are function pointers: the kernel's own, the module's three, or NULL.\<close>

datatype handler = Kernel nat | My_syscall | My_exit_group | Interceptor_fn | NullFn

record mytable =
  orig_f :: handler
  intercepted :: int
  monitored :: int
  listcount :: int
  my_list :: "int list option"

record pt_regs =
  ax :: nat
  bx :: nat
  cx :: nat
  dx :: nat
  si :: nat
  di :: nat
  bp :: nat

record kmod =
  sys_call_table :: "nat \<Rightarrow> handler"
  sct_pte :: "64 word"
  table :: "nat \<Rightarrow> mytable"
  my_table_lock :: bool
  sys_call_table_lock :: bool
  orig_custom_syscall :: handler
  orig_exit_group :: handler
  log :: "(int \<times> nat list) list"

section \<open>The system call table and its page\<close>

text \<open>An entry outside the table is not the module's memory; a write to a read-only page oopses.\<close>

definition sct_read :: "kenv \<Rightarrow> nat \<Rightarrow> (kmod, handler) prog" where
  "sct_read K i = thn (need (i < NR_syscalls K)) (peek (\<lambda>s. sys_call_table s i))"

definition sct_write :: "kenv \<Rightarrow> nat \<Rightarrow> handler \<Rightarrow> (kmod, unit) prog" where
  "sct_write K i h = thn (need (i < NR_syscalls K))
     (bnd (peek sct_pte) (\<lambda>pte. thn (need (pte AND PAGE_RW \<noteq> 0))
        (upd (\<lambda>s. s\<lparr>sys_call_table := (sys_call_table s)(i := h)\<rparr>))))"

definition set_addr_rw :: "(kmod, unit) prog" where
  "set_addr_rw = upd (\<lambda>s. if sct_pte s AND NOT PAGE_RW \<noteq> 0
     then s\<lparr>sct_pte := sct_pte s OR PAGE_RW\<rparr> else s)"

definition set_addr_ro :: "(kmod, unit) prog" where
  "set_addr_ro = upd (\<lambda>s. s\<lparr>sct_pte := sct_pte s AND NOT PAGE_RW\<rparr>)"

section \<open>Locks\<close>

definition lock_my_table :: "(kmod, unit) prog" where
  "lock_my_table = bnd (peek my_table_lock) (\<lambda>held. if held then divergep
     else upd (\<lambda>s. s\<lparr>my_table_lock := True\<rparr>))"

definition unlock_my_table :: "(kmod, unit) prog" where
  "unlock_my_table = upd (\<lambda>s. s\<lparr>my_table_lock := False\<rparr>)"

definition lock_sys_call_table :: "(kmod, unit) prog" where
  "lock_sys_call_table = bnd (peek sys_call_table_lock) (\<lambda>held. if held then divergep
     else upd (\<lambda>s. s\<lparr>sys_call_table_lock := True\<rparr>))"

definition unlock_sys_call_table :: "(kmod, unit) prog" where
  "unlock_sys_call_table = upd (\<lambda>s. s\<lparr>sys_call_table_lock := False\<rparr>)"

section \<open>The metadata table and the pid lists\<close>

definition tab_read :: "kenv \<Rightarrow> nat \<Rightarrow> (kmod, mytable) prog" where
  "tab_read K i = thn (need (i \<le> NR_syscalls K)) (peek (\<lambda>s. table s i))"

definition tab_upd :: "kenv \<Rightarrow> nat \<Rightarrow> (mytable \<Rightarrow> mytable) \<Rightarrow> (kmod, unit) prog" where
  "tab_upd K i g = thn (need (i \<le> NR_syscalls K))
     (upd (\<lambda>s. s\<lparr>table := (table s)(i := g (table s i))\<rparr>))"

text \<open>Walking a list starts at its head node: an uninitialised head is a NULL dereference.\<close>

definition list_nodes :: "kenv \<Rightarrow> nat \<Rightarrow> (kmod, int list) prog" where
  "list_nodes K i = bnd (tab_read K i) (\<lambda>e. case my_list e of None \<Rightarrow> faultp | Some xs \<Rightarrow> ret xs)"

definition add_pid_sysc :: "kenv \<Rightarrow> caller \<Rightarrow> int \<Rightarrow> nat \<Rightarrow> (kmod, int) prog" where
  "add_pid_sysc K c pid sysc =
     (if \<not> kmalloc_ok c then ret (- ENOMEM)
      else bnd (list_nodes K sysc) (\<lambda>xs.
        thn (tab_upd K sysc (\<lambda>e. e\<lparr>my_list := Some (pid # xs)\<rparr>))
       (thn (tab_upd K sysc (\<lambda>e. e\<lparr>listcount := listcount e + 1\<rparr>))
            (ret 0))))"

text \<open>
  The body of both deletion loops: unlink the first node with this pid, decrement the count and
  stop monitoring when the list became empty and only listed pids were monitored.
\<close>

definition unlink_pid :: "int \<Rightarrow> mytable \<Rightarrow> mytable" where
  "unlink_pid pid e =
     (let e1 = e\<lparr>my_list := map_option (remove1 pid) (my_list e), listcount := listcount e - 1\<rparr>
      in if listcount e1 = 0 \<and> monitored e1 = 1 then e1\<lparr>monitored := 0\<rparr> else e1)"

primrec del_pid_sysc_loop :: "kenv \<Rightarrow> int \<Rightarrow> nat \<Rightarrow> int list \<Rightarrow> (kmod, int) prog" where
  "del_pid_sysc_loop K pid sysc [] = ret (- EINVAL)"
| "del_pid_sysc_loop K pid sysc (x # xs) =
     (if x = pid then thn (tab_upd K sysc (unlink_pid pid)) (ret 0)
      else del_pid_sysc_loop K pid sysc xs)"

definition del_pid_sysc :: "kenv \<Rightarrow> int \<Rightarrow> nat \<Rightarrow> (kmod, int) prog" where
  "del_pid_sysc K pid sysc = bnd (list_nodes K sysc) (del_pid_sysc_loop K pid sysc)"

text \<open>\<open>del_pid\<close> walks every list but the one of system call 0 and removes every node of the pid.\<close>

primrec del_pid_nodes :: "kenv \<Rightarrow> int \<Rightarrow> nat \<Rightarrow> int list \<Rightarrow> bool \<Rightarrow> (kmod, bool) prog" where
  "del_pid_nodes K pid sysc [] ispid = ret ispid"
| "del_pid_nodes K pid sysc (x # xs) ispid =
     (if x = pid then thn (tab_upd K sysc (unlink_pid pid)) (del_pid_nodes K pid sysc xs True)
      else del_pid_nodes K pid sysc xs ispid)"

primrec del_pid_tables :: "kenv \<Rightarrow> int \<Rightarrow> nat list \<Rightarrow> bool \<Rightarrow> (kmod, bool) prog" where
  "del_pid_tables K pid [] ispid = ret ispid"
| "del_pid_tables K pid (sysc # ss) ispid =
     bnd (list_nodes K sysc) (\<lambda>xs. bnd (del_pid_nodes K pid sysc xs ispid) (del_pid_tables K pid ss))"

definition del_pid :: "kenv \<Rightarrow> int \<Rightarrow> (kmod, int) prog" where
  "del_pid K pid = bnd (del_pid_tables K pid [1..<NR_syscalls K] False)
     (\<lambda>ispid. ret (if ispid then 0 else - 1))"

definition destroy_list :: "kenv \<Rightarrow> nat \<Rightarrow> (kmod, unit) prog" where
  "destroy_list K sysc = bnd (list_nodes K sysc) (\<lambda>xs.
     thn (tab_upd K sysc (\<lambda>e. e\<lparr>my_list := Some []\<rparr>))
         (tab_upd K sysc (\<lambda>e. e\<lparr>listcount := 0, monitored := 0\<rparr>)))"

definition check_pids_same_owner :: "kenv \<Rightarrow> int \<Rightarrow> int \<Rightarrow> (kmod, int) prog" where
  "check_pids_same_owner K pid1 pid2 =
     (case (task_uid K pid1, task_uid K pid2) of
        (Some u1, Some u2) \<Rightarrow> ret (if u1 \<noteq> u2 then - EPERM else 0)
      | _ \<Rightarrow> faultp)"

primrec check_pid_loop :: "int \<Rightarrow> int list \<Rightarrow> int" where
  "check_pid_loop pid [] = 0"
| "check_pid_loop pid (x # xs) = (if x = pid then 1 else check_pid_loop pid xs)"

definition check_pid_monitored :: "kenv \<Rightarrow> nat \<Rightarrow> int \<Rightarrow> (kmod, int) prog" where
  "check_pid_monitored K sysc pid = bnd (list_nodes K sysc) (\<lambda>xs. ret (check_pid_loop pid xs))"

section \<open>The replaced system calls\<close>

text \<open>
  \<open>my_exit_group\<close> and \<open>interceptor\<close> end by calling a saved handler: they return which one.
  A call through a NULL pointer faults.
\<close>

definition call_handler :: "handler \<Rightarrow> (kmod, handler) prog" where
  "call_handler h = (if h = NullFn then faultp else ret h)"

definition my_exit_group :: "kenv \<Rightarrow> caller \<Rightarrow> int \<Rightarrow> (kmod, handler) prog" where
  "my_exit_group K c status =
     bnd (del_pid K (cur_pid c)) (\<lambda>_. bnd (peek orig_exit_group) call_handler)"

definition log_message :: "caller \<Rightarrow> pt_regs \<Rightarrow> (kmod, unit) prog" where
  "log_message c r = upd (\<lambda>s. s\<lparr>log := log s @ [(cur_pid c, [ax r, bx r, cx r, dx r, si r, di r, bp r])]\<rparr>)"

definition interceptor :: "kenv \<Rightarrow> caller \<Rightarrow> pt_regs \<Rightarrow> (kmod, handler) prog" where
  "interceptor K c r =
     thn lock_my_table
    (bnd (tab_read K (ax r)) (\<lambda>e.
     thn (if monitored e = 2 then log_message c r
          else bnd (check_pid_monitored K (ax r) (cur_pid c)) (\<lambda>m.
                 if m = 1 then log_message c r else ret ()))
    (thn unlock_my_table
    (bnd (tab_read K (ax r)) (\<lambda>e'. call_handler (orig_f e'))))))"

section \<open>The module's own system call\<close>

text \<open>The \<open>switch\<close> at the end of \<open>my_syscall\<close>; it runs with \<open>my_table_lock\<close> held.\<close>

definition do_intercept :: "kenv \<Rightarrow> nat \<Rightarrow> (kmod, int) prog" where
  "do_intercept K sysc =
     thn lock_sys_call_table
    (bnd (sct_read K sysc) (\<lambda>h.
     thn (tab_upd K sysc (\<lambda>e. e\<lparr>orig_f := h\<rparr>))
    (thn (tab_upd K sysc (\<lambda>e. e\<lparr>intercepted := 1\<rparr>))
    (thn unlock_my_table
    (thn set_addr_rw
    (thn (sct_write K sysc Interceptor_fn)
    (thn set_addr_ro
    (thn unlock_sys_call_table
    (ret 0)))))))))"

definition do_release :: "kenv \<Rightarrow> nat \<Rightarrow> (kmod, int) prog" where
  "do_release K sysc =
     thn lock_sys_call_table
    (thn set_addr_rw
    (thn (tab_upd K sysc (\<lambda>e. e\<lparr>intercepted := 0\<rparr>))
    (bnd (tab_read K sysc) (\<lambda>e.
     thn (sct_write K sysc (orig_f e))
    (thn unlock_my_table
    (thn set_addr_ro
    (thn unlock_sys_call_table
    (ret 0))))))))"

definition do_start :: "kenv \<Rightarrow> caller \<Rightarrow> nat \<Rightarrow> int \<Rightarrow> (kmod, int) prog" where
  "do_start K c sysc pid =
     bnd (tab_read K sysc) (\<lambda>e.
       if pid = 0 then
         thn (destroy_list K sysc)
        (thn (tab_upd K sysc (\<lambda>e. e\<lparr>monitored := 2\<rparr>))
        (thn unlock_my_table (ret 0)))
       else if monitored e \<noteq> 2 then
         bnd (add_pid_sysc K c pid sysc) (\<lambda>r.
           if r \<noteq> 0 then thn unlock_my_table (ret (- ENOMEM))
           else thn (tab_upd K sysc (\<lambda>e. e\<lparr>monitored := 1\<rparr>))
               (thn unlock_my_table (ret 0)))
       else
         bnd (del_pid_sysc K pid sysc) (\<lambda>r.
           if r \<noteq> 0 then thn unlock_my_table (ret (- EINVAL))
           else thn unlock_my_table (ret 0)))"

definition do_stop :: "kenv \<Rightarrow> caller \<Rightarrow> nat \<Rightarrow> int \<Rightarrow> (kmod, int) prog" where
  "do_stop K c sysc pid =
     bnd (tab_read K sysc) (\<lambda>e.
       if pid = 0 then
         thn (destroy_list K sysc) (thn unlock_my_table (ret 0))
       else if monitored e = 2 then
         bnd (add_pid_sysc K c pid sysc) (\<lambda>r.
           if r \<noteq> 0 then thn unlock_my_table (ret (- ENOMEM))
           else thn unlock_my_table (ret 0))
       else
         bnd (del_pid_sysc K pid sysc) (\<lambda>r.
           if r \<noteq> 0 then thn unlock_my_table (ret (- EINVAL))
           else thn unlock_my_table (ret 0)))"

definition my_syscall_switch :: "kenv \<Rightarrow> caller \<Rightarrow> int \<Rightarrow> nat \<Rightarrow> int \<Rightarrow> (kmod, int) prog" where
  "my_syscall_switch K c cmd sysc pid =
     (if cmd = REQUEST_SYSCALL_INTERCEPT then do_intercept K sysc
      else if cmd = REQUEST_SYSCALL_RELEASE then do_release K sysc
      else if cmd = REQUEST_START_MONITORING then do_start K c sysc pid
      else if cmd = REQUEST_STOP_MONITORING then do_stop K c sysc pid
      else ret 0)"

text \<open>
  Parts C, D and E of the checks, under \<open>my_table_lock\<close>.  The condition of STOP and START is
  re-evaluated from the table and the list for each \<open>if\<close>, as in the code.
\<close>

definition context_error :: "int \<Rightarrow> (kmod, int) prog" where
  "context_error e = thn unlock_my_table (ret (- e))"

definition stop_checks :: "kenv \<Rightarrow> nat \<Rightarrow> int \<Rightarrow> (kmod, int) prog \<Rightarrow> (kmod, int) prog" where
  "stop_checks K sysc pid next =
     bnd (tab_read K sysc) (\<lambda>e.
     if pid = 0 \<and> monitored e = 0 then context_error EINVAL
     else bnd (check_pid_monitored K sysc pid) (\<lambda>m.
     if m = 0 \<and> monitored e \<noteq> 2 then context_error EINVAL
     else if m = 1 \<and> monitored e = 2 then context_error EINVAL
     else next))"

definition start_checks :: "kenv \<Rightarrow> nat \<Rightarrow> int \<Rightarrow> (kmod, int) prog \<Rightarrow> (kmod, int) prog" where
  "start_checks K sysc pid next =
     bnd (tab_read K sysc) (\<lambda>e.
     if pid = 0 \<and> monitored e = 2 \<and> listcount e = 0 then context_error EBUSY
     else bnd (check_pid_monitored K sysc pid) (\<lambda>m.
     if m = 1 \<and> monitored e = 2 then context_error EINVAL
     else if (m = 1 \<and> monitored e \<noteq> 2) \<or> (m = 0 \<and> monitored e = 2) then context_error EBUSY
     else next))"

definition my_syscall_context :: "kenv \<Rightarrow> caller \<Rightarrow> int \<Rightarrow> nat \<Rightarrow> int \<Rightarrow> (kmod, int) prog" where
  "my_syscall_context K c cmd sysc pid =
     thn lock_my_table
    (bnd (tab_read K sysc) (\<lambda>e.
     if intercepted e \<noteq> 0 \<and> cmd = REQUEST_SYSCALL_INTERCEPT then context_error EBUSY
     else if intercepted e = 0 \<and>
         (cmd = REQUEST_SYSCALL_RELEASE \<or> cmd = REQUEST_STOP_MONITORING \<or> cmd = REQUEST_START_MONITORING)
       then context_error EINVAL
     else if cmd = REQUEST_STOP_MONITORING
       then stop_checks K sysc pid (my_syscall_switch K c cmd sysc pid)
     else if cmd = REQUEST_START_MONITORING
       then start_checks K sysc pid (my_syscall_switch K c cmd sysc pid)
     else my_syscall_switch K c cmd sysc pid))"

text \<open>Parts A and B, before any lock is taken, and the whole call.\<close>

definition my_syscall :: "kenv \<Rightarrow> caller \<Rightarrow> int \<Rightarrow> int \<Rightarrow> int \<Rightarrow> (kmod, int) prog" where
  "my_syscall K c cmd sysc pid =
    (if cmd \<noteq> REQUEST_SYSCALL_INTERCEPT \<and> cmd \<noteq> REQUEST_SYSCALL_RELEASE \<and>
        cmd \<noteq> REQUEST_START_MONITORING \<and> cmd \<noteq> REQUEST_STOP_MONITORING then ret (- EINVAL)
     else if sysc < 0 \<or> sysc > int (NR_syscalls K) \<or> sysc = int MY_CUSTOM_SYSCALL then ret (- EINVAL)
     else if (cmd = REQUEST_START_MONITORING \<or> cmd = REQUEST_STOP_MONITORING) \<and>
        pid \<noteq> 0 \<and> (pid < 0 \<or> task_uid K pid = None) then ret (- EINVAL)
     else if (cmd = REQUEST_SYSCALL_INTERCEPT \<or> cmd = REQUEST_SYSCALL_RELEASE) \<and> cur_uid c \<noteq> 0
       then ret (- EPERM)
     else if (cmd = REQUEST_START_MONITORING \<or> cmd = REQUEST_STOP_MONITORING) \<and> cur_uid c \<noteq> 0
       then (if pid = 0 then ret (- EPERM)
             else bnd (check_pids_same_owner K (cur_pid c) pid) (\<lambda>r.
               if r \<noteq> 0 then ret (- EPERM)
               else my_syscall_context K c cmd (nat sysc) pid))
     else my_syscall_context K c cmd (nat sysc) pid)"

section \<open>Loading and unloading the module\<close>

definition init_entry :: "kenv \<Rightarrow> nat \<Rightarrow> (kmod, unit) prog" where
  "init_entry K x = tab_upd K x (\<lambda>e. e\<lparr>intercepted := 0, monitored := 0, listcount := 0, my_list := Some []\<rparr>)"

definition init_function :: "kenv \<Rightarrow> (kmod, int) prog" where
  "init_function K =
     thn lock_sys_call_table
    (bnd (sct_read K MY_CUSTOM_SYSCALL) (\<lambda>h0.
     thn (upd (\<lambda>s. s\<lparr>orig_custom_syscall := h0\<rparr>))
    (bnd (sct_read K (NR_exit_group K)) (\<lambda>h1.
     thn (upd (\<lambda>s. s\<lparr>orig_exit_group := h1\<rparr>))
    (thn set_addr_rw
    (thn (sct_write K MY_CUSTOM_SYSCALL My_syscall)
    (thn (sct_write K (NR_exit_group K) My_exit_group)
    (thn set_addr_ro
    (thn unlock_sys_call_table
    (thn lock_my_table
    (thn (forM [0..<NR_syscalls K] (init_entry K))
    (thn unlock_my_table
    (ret 0)))))))))))))"

text \<open>One turn of the release loop drops the lock around the call of \<open>my_syscall\<close>.\<close>

definition exit_entry :: "kenv \<Rightarrow> caller \<Rightarrow> nat \<Rightarrow> (kmod, unit) prog" where
  "exit_entry K c y = bnd (tab_read K y) (\<lambda>e.
     if intercepted e = 1
     then thn unlock_my_table
         (bnd (my_syscall K c REQUEST_SYSCALL_RELEASE (int y) (int y)) (\<lambda>_. lock_my_table))
     else ret ())"

definition exit_function :: "kenv \<Rightarrow> caller \<Rightarrow> (kmod, unit) prog" where
  "exit_function K c =
     thn lock_my_table
    (thn (forM [0..<NR_syscalls K] (exit_entry K c))
    (thn unlock_my_table
    (thn lock_sys_call_table
    (thn set_addr_rw
    (bnd (peek orig_custom_syscall) (\<lambda>h0.
     thn (sct_write K MY_CUSTOM_SYSCALL h0)
    (bnd (peek orig_exit_group) (\<lambda>h1.
     thn (sct_write K (NR_exit_group K) h1)
    (thn set_addr_ro
         unlock_sys_call_table)))))))))"

section \<open>Invariant and symbolic runs\<close>

lemmas kmod_ops = sct_read_def sct_write_def set_addr_rw_def set_addr_ro_def lock_my_table_def
  unlock_my_table_def lock_sys_call_table_def unlock_sys_call_table_def tab_read_def tab_upd_def
  list_nodes_def call_handler_def context_error_def

definition entry_ok :: "mytable \<Rightarrow> bool" where
  "entry_ok e \<longleftrightarrow> (case my_list e of None \<Rightarrow> False | Some xs \<Rightarrow>
     listcount e = int (length xs) \<and> distinct xs \<and> (\<forall>x \<in> set xs. 0 < x) \<and>
     (monitored e = 0 \<and> xs = [] \<or> monitored e = 1 \<and> xs \<noteq> [] \<or> monitored e = 2)) \<and>
     (intercepted e = 0 \<or> intercepted e = 1)"

definition kenv_ok :: "kenv \<Rightarrow> bool" where
  "kenv_ok K \<longleftrightarrow> 0 < NR_exit_group K \<and> NR_exit_group K < NR_syscalls K"

definition base_table :: "kenv \<Rightarrow> (nat \<Rightarrow> handler) \<Rightarrow> nat \<Rightarrow> handler" where
  "base_table K orig i = (if i = MY_CUSTOM_SYSCALL then My_syscall
     else if i = NR_exit_group K then My_exit_group else orig i)"

definition idle :: "kmod \<Rightarrow> bool" where
  "idle s \<longleftrightarrow> \<not> my_table_lock s \<and> \<not> sys_call_table_lock s \<and>
     sct_pte s AND PAGE_PRESENT \<noteq> 0 \<and> sct_pte s AND PAGE_RW = 0"

definition slot_ok :: "handler \<Rightarrow> handler \<Rightarrow> mytable \<Rightarrow> bool" where
  "slot_ok h b e \<longleftrightarrow> entry_ok e \<and>
     h = (if intercepted e = 1 then Interceptor_fn else b) \<and>
     (intercepted e = 1 \<longrightarrow> orig_f e = b)"

definition kmod_inv :: "kenv \<Rightarrow> (nat \<Rightarrow> handler) \<Rightarrow> kmod \<Rightarrow> bool" where
  "kmod_inv K orig s \<longleftrightarrow> idle s \<and>
     orig_custom_syscall s = orig MY_CUSTOM_SYSCALL \<and> orig_exit_group s = orig (NR_exit_group K) \<and>
     (\<forall>i < NR_syscalls K. slot_ok (sys_call_table s i) (base_table K orig i) (table s i)) \<and>
     intercepted (table s MY_CUSTOM_SYSCALL) = 0 \<and> intercepted (table s (NR_syscalls K)) = 0"

lemma pte_present_rest:
  "p AND PAGE_PRESENT \<noteq> 0 \<Longrightarrow> p AND NOT PAGE_RW \<noteq> (0 :: 64 word)"
  by (auto simp: bit_eq_iff bit_simps)

lemma pte_ro_same:
  "p AND PAGE_RW = 0 \<Longrightarrow> p AND NOT PAGE_RW = (p :: 64 word)"
  by (auto simp: bit_eq_iff bit_simps)

lemma pte_made_rw:
  "(p OR PAGE_RW) AND PAGE_RW \<noteq> (0 :: 64 word)"
  by (auto dest: arg_cong [where f = "\<lambda>w. bit w 1"] simp: bit_simps)

lemma pte_made_ro:
  "(p OR PAGE_RW) AND NOT PAGE_RW = p AND NOT (PAGE_RW :: 64 word)"
  by (auto simp: bit_eq_iff bit_simps)


lemmas pte_simps = pte_present_rest [simplified] pte_ro_same [simplified] pte_made_rw pte_made_ro [simplified]

abbreviation with_entry :: "kmod \<Rightarrow> nat \<Rightarrow> mytable \<Rightarrow> kmod" where
  "with_entry s i e \<equiv> s\<lparr>table := (table s)(i := e)\<rparr>"

abbreviation held :: "kmod \<Rightarrow> kmod" where
  "held s \<equiv> s\<lparr>my_table_lock := True\<rparr>"

lemma list_nodes_run:
  "i \<le> NR_syscalls K \<Longrightarrow> my_list (table s i) = Some xs \<Longrightarrow> list_nodes K i s = (Ok xs, s)"
  by (simp add: kmod_ops prog)

lemma do_intercept_run:
  assumes "idle s" "i < NR_syscalls K"
  shows "do_intercept K i (held s) = (Ok 0,
    (with_entry s i ((table s i)\<lparr>orig_f := sys_call_table s i, intercepted := 1\<rparr>))
      \<lparr>sys_call_table := (sys_call_table s)(i := Interceptor_fn)\<rparr>)"
  using assms by (cases s) (auto simp: do_intercept_def kmod_ops prog idle_def pte_simps)

lemma do_release_run:
  assumes "idle s" "i < NR_syscalls K"
  shows "do_release K i (held s) = (Ok 0,
    (with_entry s i ((table s i)\<lparr>intercepted := 0\<rparr>))
      \<lparr>sys_call_table := (sys_call_table s)(i := orig_f (table s i))\<rparr>)"
  using assms by (cases s) (auto simp: do_release_def kmod_ops prog idle_def pte_simps)

lemma check_pid_loop_eq: "check_pid_loop pid xs = (if pid \<in> set xs then 1 else 0)"
  by (induction xs) auto

lemma del_pid_sysc_loop_run:
  "i \<le> NR_syscalls K \<Longrightarrow> del_pid_sysc_loop K pid i xs s =
     (if pid \<in> set xs then (Ok 0, with_entry s i (unlink_pid pid (table s i)))
      else (Ok (- EINVAL), s))"
  by (induction xs) (auto simp: kmod_ops prog)

lemma del_pid_sysc_run:
  "i \<le> NR_syscalls K \<Longrightarrow> my_list (table s i) = Some xs \<Longrightarrow> del_pid_sysc K pid i s =
     (if pid \<in> set xs then (Ok 0, with_entry s i (unlink_pid pid (table s i)))
      else (Ok (- EINVAL), s))"
  by (simp add: del_pid_sysc_def bnd_run [OF list_nodes_run] del_pid_sysc_loop_run)

definition push_pid :: "int \<Rightarrow> mytable \<Rightarrow> mytable" where
  "push_pid pid e = e\<lparr>my_list := map_option ((#) pid) (my_list e), listcount := listcount e + 1\<rparr>"

lemma add_pid_sysc_run:
  "i \<le> NR_syscalls K \<Longrightarrow> my_list (table s i) = Some xs \<Longrightarrow> add_pid_sysc K c pid i s =
     (if kmalloc_ok c then (Ok 0, with_entry s i (push_pid pid (table s i))) else (Ok (- ENOMEM), s))"
  by (cases s) (simp add: add_pid_sysc_def bnd_run [OF list_nodes_run] prog kmod_ops push_pid_def)

definition emptied :: "mytable \<Rightarrow> mytable" where
  "emptied e = e\<lparr>my_list := Some [], listcount := 0, monitored := 0\<rparr>"

lemma destroy_list_run:
  "i \<le> NR_syscalls K \<Longrightarrow> my_list (table s i) = Some xs \<Longrightarrow>
     destroy_list K i s = (Ok (), with_entry s i (emptied (table s i)))"
  by (cases s) (simp add: destroy_list_def bnd_run [OF list_nodes_run] prog kmod_ops emptied_def)

lemma do_start_run:
  assumes "i \<le> NR_syscalls K" "my_list (table s i) = Some xs" "\<not> my_table_lock s"
  shows "do_start K c i pid (held s) =
    (let e = table s i in
     if pid = 0 then (Ok 0, with_entry s i ((emptied e)\<lparr>monitored := 2\<rparr>))
     else if monitored e \<noteq> 2 then
       (if kmalloc_ok c then (Ok 0, with_entry s i ((push_pid pid e)\<lparr>monitored := 1\<rparr>)) else (Ok (- ENOMEM), s))
     else if pid \<in> set xs then (Ok 0, with_entry s i (unlink_pid pid e)) else (Ok (- EINVAL), s))"
  using assms
  by (cases s) (simp add: do_start_def Let_def kmod_ops prog bnd_def
      destroy_list_run add_pid_sysc_run del_pid_sysc_run)

lemma do_stop_run:
  assumes "i \<le> NR_syscalls K" "my_list (table s i) = Some xs" "\<not> my_table_lock s"
  shows "do_stop K c i pid (held s) =
    (let e = table s i in
     if pid = 0 then (Ok 0, with_entry s i (emptied e))
     else if monitored e = 2 then
       (if kmalloc_ok c then (Ok 0, with_entry s i (push_pid pid e)) else (Ok (- ENOMEM), s))
     else if pid \<in> set xs then (Ok 0, with_entry s i (unlink_pid pid e)) else (Ok (- EINVAL), s))"
  using assms
  by (cases s) (simp add: do_stop_def Let_def kmod_ops prog bnd_def
      destroy_list_run add_pid_sysc_run del_pid_sysc_run)


lemma entry_okE:
  assumes "entry_ok e"
  obtains xs where "my_list e = Some xs" "listcount e = int (length xs)" "distinct xs"
    "\<forall>x \<in> set xs. 0 < x"
    "monitored e = 0 \<and> xs = [] \<or> monitored e = 1 \<and> xs \<noteq> [] \<or> monitored e = 2"
    "intercepted e = 0 \<or> intercepted e = 1"
  using assms by (auto simp: entry_ok_def split: option.splits)

lemma entry_ok_emptied: "entry_ok e \<Longrightarrow> entry_ok (emptied e)"
  by (auto simp: entry_ok_def emptied_def split: option.splits)

lemma entry_ok_all: "entry_ok e \<Longrightarrow> entry_ok ((emptied e)\<lparr>monitored := 2\<rparr>)"
  by (auto simp: entry_ok_def emptied_def split: option.splits)

lemma entry_ok_push:
  assumes "entry_ok e" "my_list e = Some xs" "pid \<notin> set xs" "0 < pid"
  shows "entry_ok ((push_pid pid e)\<lparr>monitored := 1\<rparr>)"
    and "monitored e = 2 \<Longrightarrow> entry_ok (push_pid pid e)"
  using assms by (auto simp: entry_ok_def push_pid_def)

lemma entry_ok_unlink:
  assumes "entry_ok e" "my_list e = Some xs" "pid \<in> set xs"
  shows "entry_ok (unlink_pid pid e)"
proof -
  define ys where "ys = remove1 pid xs"
  have "length xs = Suc (length ys)" "set ys \<subseteq> set xs"
    using assms(3) length_pos_if_in_set [OF assms(3)]
    by (auto simp: ys_def length_remove1 set_remove1_subset)
  moreover have "my_list (unlink_pid pid e) = Some ys"
    using assms(2) by (simp add: unlink_pid_def Let_def ys_def)
  moreover have "distinct xs \<Longrightarrow> distinct ys"
    by (simp add: ys_def distinct_remove1)
  ultimately show ?thesis
    using assms by (auto simp: entry_ok_def unlink_pid_def Let_def)
qed

lemma entry_frames [simp]:
  "intercepted (emptied e) = intercepted e" "orig_f (emptied e) = orig_f e"
  "intercepted (push_pid pid e) = intercepted e" "orig_f (push_pid pid e) = orig_f e"
  "intercepted (unlink_pid pid e) = intercepted e" "orig_f (unlink_pid pid e) = orig_f e"
  by (simp_all add: emptied_def push_pid_def unlink_pid_def Let_def)

lemma kmod_inv_slot: "kmod_inv K orig s \<Longrightarrow> i < NR_syscalls K \<Longrightarrow>
    slot_ok (sys_call_table s i) (base_table K orig i) (table s i)"
  by (simp add: kmod_inv_def)

lemma kmod_inv_list:
  assumes "kmod_inv K orig s" "i < NR_syscalls K"
  obtains xs where "my_list (table s i) = Some xs"
  using kmod_inv_slot [OF assms] by (auto simp: slot_ok_def elim: entry_okE)

lemma kmod_inv_entry:
  assumes "kmod_inv K orig s" "entry_ok e" "intercepted e = intercepted (table s i)"
    "orig_f e = orig_f (table s i)" "i < NR_syscalls K"
  shows "kmod_inv K orig (with_entry s i e)"
  using assms by (auto simp: kmod_inv_def slot_ok_def idle_def)

lemma entry_ok_orig_f [simp]: "entry_ok (e\<lparr>orig_f := h\<rparr>) = entry_ok e"
  by (simp add: entry_ok_def split: option.split)

lemma entry_ok_flag: "entry_ok e \<Longrightarrow> v = 0 \<or> v = 1 \<Longrightarrow> entry_ok (e\<lparr>intercepted := v\<rparr>)"
  by (auto simp: entry_ok_def split: option.splits)

lemma entry_ok_flag01: "entry_ok e \<Longrightarrow> intercepted e \<noteq> 0 \<longleftrightarrow> intercepted e = 1"
  by (auto simp: entry_ok_def)

lemma kmod_inv_intercept:
  assumes "kmod_inv K orig s" "intercepted (table s i) = 0" "0 < i" "i < NR_syscalls K"
  shows "kmod_inv K orig ((with_entry s i ((table s i)\<lparr>orig_f := sys_call_table s i, intercepted := 1\<rparr>))
      \<lparr>sys_call_table := (sys_call_table s)(i := Interceptor_fn)\<rparr>)"
  using assms by (auto simp: kmod_inv_def slot_ok_def idle_def MY_CUSTOM_SYSCALL_def intro!: entry_ok_flag)

lemma kmod_inv_release:
  assumes "kmod_inv K orig s" "intercepted (table s i) \<noteq> 0" "i < NR_syscalls K"
  shows "kmod_inv K orig ((with_entry s i ((table s i)\<lparr>intercepted := 0\<rparr>))
      \<lparr>sys_call_table := (sys_call_table s)(i := orig_f (table s i))\<rparr>)"
  using assms entry_ok_flag01 [of "table s i"] kmod_inv_slot [OF assms(1,3)]
  by (auto simp: kmod_inv_def slot_ok_def idle_def MY_CUSTOM_SYSCALL_def intro!: entry_ok_flag)

text \<open>What one call under the lock does, as a function of the entry: the result and the new entry.\<close>

definition stop_effect :: "bool \<Rightarrow> int \<Rightarrow> mytable \<Rightarrow> int \<times> mytable" where
  "stop_effect mem pid e = (case my_list e of None \<Rightarrow> (0, e) | Some xs \<Rightarrow>
     if pid = 0 \<and> monitored e = 0 then (- EINVAL, e)
     else if (pid \<in> set xs) = (monitored e = 2) then (- EINVAL, e)
     else if pid = 0 then (0, emptied e)
     else if monitored e = 2 then (if mem then (0, push_pid pid e) else (- ENOMEM, e))
     else (0, unlink_pid pid e))"

definition start_effect :: "bool \<Rightarrow> int \<Rightarrow> mytable \<Rightarrow> int \<times> mytable" where
  "start_effect mem pid e = (case my_list e of None \<Rightarrow> (0, e) | Some xs \<Rightarrow>
     if monitored e = 2 \<and> pid \<in> set xs then (- EINVAL, e)
     else if monitored e = 2 \<or> pid \<in> set xs then (- EBUSY, e)
     else if pid = 0 then (0, (emptied e)\<lparr>monitored := 2\<rparr>)
     else if mem then (0, (push_pid pid e)\<lparr>monitored := 1\<rparr>) else (- ENOMEM, e))"

lemma stop_checks_run:
  assumes inv: "kmod_inv K orig s" and i: "i < NR_syscalls K" and pos: "0 \<le> pid"
    and r: "stop_effect (kmalloc_ok c) pid (table s i) = (r, e)"
  shows "stop_checks K i pid (do_stop K c i pid) (held s) = (Ok r, with_entry s i e)"
proof -
  obtain xs where xs: "my_list (table s i) = Some xs"
    using kmod_inv_list [OF inv i] .
  have le: "i \<le> NR_syscalls K" and free: "\<not> my_table_lock s" and "(held s)\<lparr>my_table_lock := False\<rparr> = s"
    using i inv by (auto simp: kmod_inv_def idle_def)
  then show ?thesis
    using r xs
    by (auto simp: stop_checks_def stop_effect_def check_pid_monitored_def check_pid_loop_eq
        kmod_ops prog do_stop_run [OF le xs free] Let_def split: if_splits)
qed

lemma start_checks_run:
  assumes inv: "kmod_inv K orig s" and i: "i < NR_syscalls K" and pos: "0 \<le> pid"
    and r: "start_effect (kmalloc_ok c) pid (table s i) = (r, e)"
  shows "start_checks K i pid (do_start K c i pid) (held s) = (Ok r, with_entry s i e)"
proof -
  obtain xs where xs: "my_list (table s i) = Some xs"
    using kmod_inv_list [OF inv i] .
  have ok: "entry_ok (table s i)" using kmod_inv_slot [OF inv i] by (simp add: slot_ok_def)
  have le: "i \<le> NR_syscalls K" and free: "\<not> my_table_lock s" and "(held s)\<lparr>my_table_lock := False\<rparr> = s"
    using i inv by (auto simp: kmod_inv_def idle_def)
  then show ?thesis
    using r xs ok
    by (auto simp: start_checks_def start_effect_def check_pid_monitored_def check_pid_loop_eq
        kmod_ops prog do_start_run [OF le xs free] Let_def entry_ok_def split: if_splits)
qed


lemma effects_keep:
  assumes "entry_ok e" "0 \<le> pid"
  shows "stop_effect m pid e = (r, e') \<Longrightarrow> entry_ok e' \<and> intercepted e' = intercepted e \<and> orig_f e' = orig_f e"
    and "start_effect m pid e = (r, e') \<Longrightarrow> entry_ok e' \<and> intercepted e' = intercepted e \<and> orig_f e' = orig_f e"
  using assms entry_ok_push [OF assms(1)] entry_ok_unlink [OF assms(1)]
  by (fastforce simp: stop_effect_def start_effect_def entry_ok_emptied entry_ok_all
      split: option.splits if_splits)+

lemma effects_error:
  "stop_effect m pid e = (r, e') \<Longrightarrow> r \<noteq> 0 \<Longrightarrow> e' = e"
  "start_effect m pid e = (r, e') \<Longrightarrow> r \<noteq> 0 \<Longrightarrow> e' = e"
  by (auto simp: stop_effect_def start_effect_def split: option.splits if_splits)

text \<open>
  The whole locked part as one function of the state: the result, the new entry and the new
  system call table slot.
\<close>

definition locked_effect :: "caller \<Rightarrow> int \<Rightarrow> nat \<Rightarrow> int \<Rightarrow> kmod \<Rightarrow> int \<times> kmod" where
  "locked_effect c cmd i pid s = (let e = table s i in
     if intercepted e \<noteq> 0 \<and> cmd = REQUEST_SYSCALL_INTERCEPT then (- EBUSY, s)
     else if cmd = REQUEST_SYSCALL_INTERCEPT then
       (0, (with_entry s i (e\<lparr>orig_f := sys_call_table s i, intercepted := 1\<rparr>))
          \<lparr>sys_call_table := (sys_call_table s)(i := Interceptor_fn)\<rparr>)
     else if intercepted e = 0 then (- EINVAL, s)
     else if cmd = REQUEST_SYSCALL_RELEASE then
       (0, (with_entry s i (e\<lparr>intercepted := 0\<rparr>))\<lparr>sys_call_table := (sys_call_table s)(i := orig_f e)\<rparr>)
     else let (r, e') = (if cmd = REQUEST_START_MONITORING then start_effect (kmalloc_ok c) pid e
                         else stop_effect (kmalloc_ok c) pid e)
          in (r, with_entry s i e'))"

definition is_request :: "int \<Rightarrow> bool" where
  "is_request cmd \<longleftrightarrow> cmd = REQUEST_SYSCALL_INTERCEPT \<or> cmd = REQUEST_SYSCALL_RELEASE \<or>
     cmd = REQUEST_START_MONITORING \<or> cmd = REQUEST_STOP_MONITORING"

lemma context_run:
  assumes inv: "kmod_inv K orig s" and i: "i < NR_syscalls K" and req: "is_request cmd"
    and pid: "cmd = REQUEST_START_MONITORING \<or> cmd = REQUEST_STOP_MONITORING \<Longrightarrow> 0 \<le> pid"
    and r: "locked_effect c cmd i pid s = (r, t)"
  shows "my_syscall_context K c cmd i pid s = (Ok r, t)"
proof -
  have idle: "idle s" and le: "i \<le> NR_syscalls K" and free: "\<not> my_table_lock s" and
    unheld: "s\<lparr>my_table_lock := False\<rparr> = s"
    using inv i by (auto simp: kmod_inv_def idle_def)
  note stop_ = stop_checks_run [OF inv i, where pid = pid and c = c]
  note begin_ = start_checks_run [OF inv i, where pid = pid and c = c]
  show ?thesis
    using req r pid free unheld le
      do_intercept_run [OF idle i] do_release_run [OF idle i] stop_ begin_
    by (auto simp: my_syscall_context_def locked_effect_def is_request_def my_syscall_switch_def
        kmod_ops prog request_defs Let_def split: if_splits prod.splits)
qed

lemma locked_effect_inv:
  assumes inv: "kmod_inv K orig s" and i: "0 < i" "i < NR_syscalls K" and req: "is_request cmd"
    and pid: "cmd = REQUEST_START_MONITORING \<or> cmd = REQUEST_STOP_MONITORING \<Longrightarrow> 0 \<le> pid"
    and r: "locked_effect c cmd i pid s = (r, t)"
  shows "kmod_inv K orig t" and "r \<noteq> 0 \<Longrightarrow> t = s"
proof -
  have ok: "entry_ok (table s i)" using kmod_inv_slot [OF inv i(2)] by (simp add: slot_ok_def)
  show "kmod_inv K orig t"
    using r req pid inv i kmod_inv_intercept [OF inv _ i] kmod_inv_release [OF inv _ i(2)]
      kmod_inv_entry [OF inv, of _ i] effects_keep [OF ok, of pid]
    by (auto simp: locked_effect_def Let_def is_request_def split: if_splits prod.splits)
  show "t = s" if "r \<noteq> 0"
    using that r effects_error [of "kmalloc_ok c" pid "table s i" r]
    by (auto simp: locked_effect_def Let_def split: if_splits prod.splits)
qed

definition caller_ok :: "kenv \<Rightarrow> caller \<Rightarrow> bool" where
  "caller_ok K c \<longleftrightarrow> 0 < cur_pid c \<and> task_uid K (cur_pid c) \<noteq> None"

lemma do_intercept_last_faults:
  assumes "idle s"
  shows "fst (do_intercept K (NR_syscalls K) (held s)) = Fault"
  using assms by (cases s) (simp add: do_intercept_def kmod_ops prog idle_def)

lemma context_last:
  assumes inv: "kmod_inv K orig s" and req: "is_request cmd"
  shows "my_syscall_context K c cmd (NR_syscalls K) pid s =
    (if cmd = REQUEST_SYSCALL_INTERCEPT then do_intercept K (NR_syscalls K) (held s) else (Ok (- EINVAL), s))"
  using inv req by (cases s) (auto simp: kmod_inv_def idle_def my_syscall_context_def is_request_def
      my_syscall_switch_def kmod_ops prog request_defs)

text \<open>The checks of parts A and B: the error they report, if any.\<close>

definition early_error :: "kenv \<Rightarrow> caller \<Rightarrow> int \<Rightarrow> int \<Rightarrow> int \<Rightarrow> int option" where
  "early_error K c cmd sysc pid =
    (if \<not> is_request cmd \<or> sysc \<le> 0 \<or> sysc > int (NR_syscalls K) then Some (- EINVAL)
     else if cmd = REQUEST_SYSCALL_INTERCEPT \<or> cmd = REQUEST_SYSCALL_RELEASE
       then if cur_uid c \<noteq> 0 then Some (- EPERM) else None
     else if pid < 0 \<or> pid \<noteq> 0 \<and> task_uid K pid = None then Some (- EINVAL)
     else if cur_uid c \<noteq> 0 \<and> (pid = 0 \<or> task_uid K (cur_pid c) \<noteq> task_uid K pid) then Some (- EPERM)
     else None)"

lemma my_syscall_run:
  assumes "caller_ok K c"
  shows "my_syscall K c cmd sysc pid s = (case early_error K c cmd sysc pid of
     Some r \<Rightarrow> (Ok r, s) | None \<Rightarrow> my_syscall_context K c cmd (nat sysc) pid s)"
  using assms
  by (auto simp: my_syscall_def early_error_def is_request_def caller_ok_def prog request_defs
      check_pids_same_owner_def split: option.splits)

text \<open>The only faulting call: root intercepting system call number \<open>NR_syscalls\<close>.\<close>

definition past_the_end :: "kenv \<Rightarrow> caller \<Rightarrow> int \<Rightarrow> int \<Rightarrow> bool" where
  "past_the_end K c cmd sysc \<longleftrightarrow>
     cmd = REQUEST_SYSCALL_INTERCEPT \<and> sysc = int (NR_syscalls K) \<and> cur_uid c = 0"

lemma my_syscall_outcome:
  assumes inv: "kmod_inv K orig s" and c: "caller_ok K c"
  shows "if past_the_end K c cmd sysc \<and> 0 < NR_syscalls K then fst (my_syscall K c cmd sysc pid s) = Fault
    else \<exists>r t. my_syscall K c cmd sysc pid s = (Ok r, t) \<and> kmod_inv K orig t \<and> (r \<noteq> 0 \<longrightarrow> t = s)"
proof (cases "early_error K c cmd sysc pid")
  case (Some r)
  then show ?thesis
    using inv by (auto simp: my_syscall_run [OF c] past_the_end_def early_error_def is_request_def
        request_defs split: if_splits)
next
  case None
  then have req: "is_request cmd" and pos: "0 < sysc" "sysc \<le> int (NR_syscalls K)"
    and pid: "cmd = REQUEST_START_MONITORING \<or> cmd = REQUEST_STOP_MONITORING \<Longrightarrow> 0 \<le> pid"
    and root: "cmd = REQUEST_SYSCALL_INTERCEPT \<Longrightarrow> cur_uid c = 0"
    by (auto simp: early_error_def request_defs split: if_splits)
  show ?thesis
  proof (cases "sysc = int (NR_syscalls K)")
    case True
    have "idle s" using inv by (simp add: kmod_inv_def)
    then have "fst (do_intercept K (NR_syscalls K) (held s)) = Fault"
      by (rule do_intercept_last_faults)
    moreover have "my_syscall K c cmd sysc pid s = (if cmd = REQUEST_SYSCALL_INTERCEPT
        then do_intercept K (NR_syscalls K) (held s) else (Ok (- EINVAL), s))"
      using True None by (simp add: my_syscall_run [OF c] context_last [OF inv req])
    ultimately show ?thesis
      using True pos root inv by (auto simp: past_the_end_def)
  next
    case False
    obtain r t where rt: "locked_effect c cmd (nat sysc) pid s = (r, t)"
      by (cases "locked_effect c cmd (nat sysc) pid s") auto
    have i: "0 < nat sysc" "nat sysc < NR_syscalls K" using False pos by auto
    show ?thesis
      using False None locked_effect_inv [OF inv i req pid rt] context_run [OF inv i(2) req pid rt]
      by (auto simp: my_syscall_run [OF c] past_the_end_def)
  qed
qed

section \<open>Process exit\<close>

definition forget_pid :: "int \<Rightarrow> mytable \<Rightarrow> mytable" where
  "forget_pid pid e = (case my_list e of None \<Rightarrow> e | Some xs \<Rightarrow> if pid \<in> set xs then unlink_pid pid e else e)"

lemma entry_ok_forget: "entry_ok e \<Longrightarrow> entry_ok (forget_pid pid e)"
  by (auto simp: forget_pid_def entry_ok_unlink split: option.splits)

lemma forget_frames [simp]:
  "intercepted (forget_pid pid e) = intercepted e" "orig_f (forget_pid pid e) = orig_f e"
  by (simp_all add: forget_pid_def split: option.split)

lemma forget_gone:
  "entry_ok e \<Longrightarrow> \<exists>xs. my_list (forget_pid pid e) = Some xs \<and> pid \<notin> set xs"
  by (auto simp: entry_ok_def forget_pid_def unlink_pid_def Let_def split: option.splits)

lemma del_pid_nodes_run:
  "i \<le> NR_syscalls K \<Longrightarrow> distinct xs \<Longrightarrow> del_pid_nodes K pid i xs b s =
     (Ok (b \<or> pid \<in> set xs), if pid \<in> set xs then with_entry s i (unlink_pid pid (table s i)) else s)"
proof (induction xs arbitrary: b s)
  case Nil
  then show ?case by (simp add: prog)
next
  case (Cons x xs)
  then show ?case by (cases "x = pid") (auto simp: kmod_ops prog)
qed

lemma del_pid_tables_run:
  assumes "distinct ss" "\<forall>i \<in> set ss. i < NR_syscalls K" "\<forall>i \<in> set ss. entry_ok (table s i)"
  shows "\<exists>b'. del_pid_tables K pid ss b s =
     (Ok b', s\<lparr>table := \<lambda>i. if i \<in> set ss then forget_pid pid (table s i) else table s i\<rparr>)"
  using assms
proof (induction ss arbitrary: b s)
  case Nil
  then show ?case by (simp add: prog)
next
  case (Cons i ss)
  from Cons.prems(3) obtain xs where xs: "my_list (table s i) = Some xs" "distinct xs"
    by (auto elim: entry_okE)
  define t where "t = with_entry s i (forget_pid pid (table s i))"
  have nodes: "del_pid_nodes K pid i xs b s = (Ok (b \<or> pid \<in> set xs), t)"
    using Cons.prems xs by (cases s) (auto simp: del_pid_nodes_run t_def forget_pid_def fun_eq_iff)
  have "\<exists>b'. del_pid_tables K pid ss (b \<or> pid \<in> set xs) t =
     (Ok b', t\<lparr>table := \<lambda>i. if i \<in> set ss then forget_pid pid (table t i) else table t i\<rparr>)"
    by (rule Cons.IH) (use Cons.prems in \<open>auto simp: t_def\<close>)
  moreover have "(\<lambda>j. if j \<in> set ss then forget_pid pid (table t j) else table t j) =
      (\<lambda>j. if j \<in> set (i # ss) then forget_pid pid (table s j) else table s j)"
    using Cons.prems(1) by (auto simp: t_def fun_eq_iff)
  ultimately show ?case
    using nodes Cons.prems(2) xs(1) by (auto simp: prog bnd_def list_nodes_run nodes t_def)
qed

lemma del_pid_run:
  assumes "kmod_inv K orig s"
  shows "\<exists>r. del_pid K pid s = (Ok r, s\<lparr>table :=
     \<lambda>i. if 0 < i \<and> i < NR_syscalls K then forget_pid pid (table s i) else table s i\<rparr>)"
proof -
  have "\<forall>i \<in> set [1..<NR_syscalls K]. entry_ok (table s i)"
    using kmod_inv_slot [OF assms] by (auto simp: slot_ok_def)
  from del_pid_tables_run [OF _ _ this, where pid = pid and b = False and K = K]
  obtain b where "del_pid_tables K pid [1..<NR_syscalls K] False s = (Ok b, s\<lparr>table :=
     \<lambda>i. if i \<in> set [1..<NR_syscalls K] then forget_pid pid (table s i) else table s i\<rparr>)"
    by auto
  then show ?thesis
    by (auto simp: del_pid_def prog bnd_def Suc_le_eq)
qed

lemma kmod_inv_forget:
  "kmod_inv K orig s \<Longrightarrow> kmod_inv K orig (s\<lparr>table :=
     \<lambda>i. if 0 < i \<and> i < NR_syscalls K then forget_pid pid (table s i) else table s i\<rparr>)"
  by (auto simp: kmod_inv_def slot_ok_def idle_def MY_CUSTOM_SYSCALL_def entry_ok_forget)

section \<open>Loading, running and unloading the module\<close>

definition pristine :: "kenv \<Rightarrow> (nat \<Rightarrow> handler) \<Rightarrow> kmod \<Rightarrow> bool" where
  "pristine K orig s \<longleftrightarrow> idle s \<and> sys_call_table s = orig \<and> (\<forall>i. intercepted (table s i) = 0)"

definition blank :: "mytable \<Rightarrow> mytable" where
  "blank e = e\<lparr>intercepted := 0, monitored := 0, listcount := 0, my_list := Some []\<rparr>"

lemma init_entry_run:
  "x \<le> NR_syscalls K \<Longrightarrow> init_entry K x s = (Ok (), with_entry s x (blank (table s x)))"
  by (simp add: init_entry_def kmod_ops prog blank_def)

lemma init_loop_run:
  "\<forall>x \<in> set xs. x \<le> NR_syscalls K \<Longrightarrow> forM xs (init_entry K) s = (Ok (), s\<lparr>table := \<lambda>i. if i \<in> set xs
     then blank (table s i) else table s i\<rparr>)"
proof (induction xs arbitrary: s)
  case Nil
  then show ?case by (simp add: prog)
next
  case (Cons x xs)
  then show ?case by (cases s) (auto simp: prog bnd_def init_entry_run blank_def fun_eq_iff)
qed

lemma init_run:
  assumes K: "kenv_ok K" and s: "pristine K orig s"
  shows "\<exists>t. init_function K s = (Ok 0, t) \<and> kmod_inv K orig t \<and> log t = log s"
proof -
  have "idle s" using s by (simp add: pristine_def)
  then show ?thesis
    using K s by (cases s) (auto simp: init_function_def kmod_ops prog bnd_def init_loop_run blank_def idle_def pte_simps
        pristine_def kenv_ok_def kmod_inv_def slot_ok_def entry_ok_def base_table_def MY_CUSTOM_SYSCALL_def)
qed

inductive reach :: "kenv \<Rightarrow> (nat \<Rightarrow> handler) \<Rightarrow> kmod \<Rightarrow> bool" for K orig where
  loaded: "pristine K orig s \<Longrightarrow> init_function K s = (Ok r, t) \<Longrightarrow> reach K orig t"
| custom: "reach K orig s \<Longrightarrow> caller_ok K c \<Longrightarrow> my_syscall K c cmd sysc pid s = (Ok r, t) \<Longrightarrow> reach K orig t"
| exiting: "reach K orig s \<Longrightarrow> my_exit_group K c status s = (Ok h, t) \<Longrightarrow> reach K orig t"
| called: "reach K orig s \<Longrightarrow> ax r < NR_syscalls K \<Longrightarrow> interceptor K c r s = (Ok h, t) \<Longrightarrow> reach K orig t"

definition logs :: "caller \<Rightarrow> pt_regs \<Rightarrow> mytable \<Rightarrow> bool" where
  "logs c r e \<longleftrightarrow> monitored e = 2 \<or> (\<exists>xs. my_list e = Some xs \<and> cur_pid c \<in> set xs)"

definition log_line :: "caller \<Rightarrow> pt_regs \<Rightarrow> int \<times> nat list" where
  "log_line c r = (cur_pid c, [ax r, bx r, cx r, dx r, si r, di r, bp r])"

lemma interceptor_run:
  assumes "kmod_inv K orig s" "ax r < NR_syscalls K"
  shows "interceptor K c r s = call_handler (orig_f (table s (ax r)))
     (if logs c r (table s (ax r)) then s\<lparr>log := log s @ [log_line c r]\<rparr> else s)"
proof -
  obtain xs where xs: "my_list (table s (ax r)) = Some xs"
    using kmod_inv_list [OF assms] .
  show ?thesis
    using assms xs by (cases s) (auto simp: interceptor_def kmod_ops prog kmod_inv_def idle_def
        check_pid_monitored_def check_pid_loop_eq log_message_def logs_def log_line_def)
qed

lemma kmod_inv_log [simp]: "kmod_inv K orig (s\<lparr>log := l\<rparr>) = kmod_inv K orig s"
  by (simp add: kmod_inv_def idle_def)

lemma my_exit_group_run:
  assumes "kmod_inv K orig s"
  shows "my_exit_group K c status s = call_handler (orig_exit_group s)
     (s\<lparr>table := \<lambda>i. if 0 < i \<and> i < NR_syscalls K then forget_pid (cur_pid c) (table s i) else table s i\<rparr>)"
  using del_pid_run [OF assms, of "cur_pid c"] by (auto simp: my_exit_group_def bnd_def prog)

lemma call_handler_Ok [runs]: "call_handler h s = (Ok g, t) \<longleftrightarrow> h \<noteq> NullFn \<and> g = h \<and> t = s"
  by (auto simp: call_handler_def prog)

lemma reach_inv:
  assumes "kenv_ok K" "reach K orig s"
  shows "kmod_inv K orig s"
  using assms(2)
proof (induction rule: reach.induct)
  case (loaded s r t)
  then show ?case using init_run [OF assms(1) loaded(1)] by auto
next
  case (custom s c cmd sysc pid r t)
  then show ?case using my_syscall_outcome [OF custom(4) custom(2), of cmd sysc pid] by (auto split: if_splits)
next
  case (exiting s c status h t)
  then show ?case by (auto simp: my_exit_group_run runs intro: kmod_inv_forget)
next
  case (called s r c h t)
  then show ?case by (auto simp: interceptor_run runs split: if_splits)
qed

section \<open>Unloading\<close>

lemma release_run:
  assumes inv: "kmod_inv K orig s" and c: "caller_ok K c" "cur_uid c = 0"
    and i: "i < NR_syscalls K" "intercepted (table s i) = 1"
  shows "my_syscall K c REQUEST_SYSCALL_RELEASE (int i) pid s =
    (Ok 0, (with_entry s i ((table s i)\<lparr>intercepted := 0\<rparr>))
       \<lparr>sys_call_table := (sys_call_table s)(i := orig_f (table s i))\<rparr>)"
proof -
  have "i \<noteq> 0" using inv i(2) by (auto simp: kmod_inv_def MY_CUSTOM_SYSCALL_def intro: ccontr)
  then have "early_error K c REQUEST_SYSCALL_RELEASE (int i) pid = None"
    using c i by (simp add: early_error_def is_request_def request_defs)
  moreover have "locked_effect c REQUEST_SYSCALL_RELEASE i pid s = (0, (with_entry s i ((table s i)\<lparr>intercepted := 0\<rparr>))
       \<lparr>sys_call_table := (sys_call_table s)(i := orig_f (table s i))\<rparr>)"
    using i by (simp add: locked_effect_def request_defs Let_def)
  then have "my_syscall_context K c REQUEST_SYSCALL_RELEASE i pid s =
    (Ok 0, (with_entry s i ((table s i)\<lparr>intercepted := 0\<rparr>))
       \<lparr>sys_call_table := (sys_call_table s)(i := orig_f (table s i))\<rparr>)"
    by (intro context_run [OF inv i(1)]) (auto simp: is_request_def request_defs)
  ultimately show ?thesis
    by (simp add: my_syscall_run [OF c(1)])
qed

lemma exit_entry_run:
  assumes inv: "kmod_inv K orig s" and c: "caller_ok K c" "cur_uid c = 0" and i: "i < NR_syscalls K"
  shows "\<exists>t. exit_entry K c i (held s) = (Ok (), held t) \<and> kmod_inv K orig t \<and>
     (\<forall>j. intercepted (table t j) = (if j = i then 0 else intercepted (table s j)))"
proof (cases "intercepted (table s i) = 1")
  case True
  have unheld: "s\<lparr>my_table_lock := False\<rparr> = s" and free: "\<not> my_table_lock s"
    using inv by (simp_all add: kmod_inv_def idle_def)
  define t where "t = (with_entry s i ((table s i)\<lparr>intercepted := 0\<rparr>))
       \<lparr>sys_call_table := (sys_call_table s)(i := orig_f (table s i))\<rparr>"
  have "exit_entry K c i (held s) = (Ok (), held t)"
    using True i free
    by (simp add: exit_entry_def kmod_ops prog bnd_def unheld release_run [OF inv c i True] t_def)
  moreover have "kmod_inv K orig t"
    unfolding t_def by (rule kmod_inv_release [OF inv _ i]) (simp add: True)
  ultimately show ?thesis by (auto simp: t_def)
next
  case False
  then have "intercepted (table s i) = 0"
    using kmod_inv_slot [OF inv i] by (auto simp: slot_ok_def entry_ok_def)
  then show ?thesis
    using inv i by (auto simp: exit_entry_def kmod_ops prog)
qed

lemma exit_loop_run:
  assumes "kmod_inv K orig s" "caller_ok K c" "cur_uid c = 0" "\<forall>i \<in> set xs. i < NR_syscalls K"
  shows "\<exists>t. forM xs (exit_entry K c) (held s) = (Ok (), held t) \<and> kmod_inv K orig t \<and>
     (\<forall>j. intercepted (table t j) = (if j \<in> set xs then 0 else intercepted (table s j)))"
  using assms(1,4)
proof (induction xs arbitrary: s)
  case Nil
  then show ?case by (auto simp: prog)
next
  case (Cons i xs)
  obtain t where t: "exit_entry K c i (held s) = (Ok (), held t)" "kmod_inv K orig t"
    "\<forall>j. intercepted (table t j) = (if j = i then 0 else intercepted (table s j))"
    using exit_entry_run [OF Cons.prems(1) assms(2,3), of i] Cons.prems(2) by auto
  show ?case
    using Cons.IH [OF t(2)] Cons.prems(2) t by (auto simp: prog bnd_def)
qed

lemma exit_run:
  assumes K: "kenv_ok K" and inv: "kmod_inv K orig s" and c: "caller_ok K c" "cur_uid c = 0"
  shows "\<exists>t. exit_function K c s = (Ok (), t) \<and> idle t \<and> (\<forall>i < NR_syscalls K. sys_call_table t i = orig i)"
proof -
  obtain t where t: "forM [0..<NR_syscalls K] (exit_entry K c) (held s) = (Ok (), held t)"
    "kmod_inv K orig t" "\<forall>i < NR_syscalls K. intercepted (table t i) = 0"
    using exit_loop_run [OF inv c, of "[0..<NR_syscalls K]"] by auto
  have "\<not> my_table_lock s" "idle t" "\<forall>i < NR_syscalls K. sys_call_table t i = base_table K orig i"
    using inv t by (auto simp: kmod_inv_def idle_def slot_ok_def)
  then show ?thesis
    using t(1) K t(2) by (cases t) (auto simp: exit_function_def kmod_ops prog bnd_def idle_def pte_simps kenv_ok_def
        kmod_inv_def base_table_def MY_CUSTOM_SYSCALL_def)
qed

section \<open>A concrete kernel, for the witnesses\<close>

definition demo_kenv :: kenv where
  "demo_kenv = \<lparr>NR_syscalls = 4, NR_exit_group = 2,
     task_uid = (\<lambda>p. if p = 10 then Some 0 else if p = 20 \<or> p = 30 then Some 7 else None)\<rparr>"

definition demo_root :: caller where "demo_root = \<lparr>cur_pid = 10, cur_uid = 0, kmalloc_ok = True\<rparr>"
definition demo_user :: caller where "demo_user = \<lparr>cur_pid = 20, cur_uid = 7, kmalloc_ok = True\<rparr>"

definition demo_regs :: pt_regs where
  "demo_regs = \<lparr>ax = 1, bx = 0, cx = 0, dx = 0, si = 0, di = 0, bp = 0\<rparr>"

definition demo_boot :: kmod where
  "demo_boot = \<lparr>sys_call_table = Kernel, sct_pte = 1,
     table = (\<lambda>_. \<lparr>orig_f = NullFn, intercepted = 0, monitored = 0, listcount = 0, my_list = None\<rparr>),
     my_table_lock = False, sys_call_table_lock = False,
     orig_custom_syscall = NullFn, orig_exit_group = NullFn, log = []\<rparr>"

text \<open>The loaded module, with the entry \<open>e\<close> for system call 1.\<close>

definition demo_state :: "mytable \<Rightarrow> kmod" where
  "demo_state e = \<lparr>sys_call_table = (\<lambda>i. if i = 0 then My_syscall else if i = 2 then My_exit_group
       else if i = 1 \<and> intercepted e = 1 then Interceptor_fn else Kernel i), sct_pte = 1,
     table = (\<lambda>i. if i = 1 then e else \<lparr>orig_f = NullFn, intercepted = 0, monitored = 0, listcount = 0,
       my_list = (if i < 4 then Some [] else None)\<rparr>),
     my_table_lock = False, sys_call_table_lock = False,
     orig_custom_syscall = Kernel 0, orig_exit_group = Kernel 2, log = []\<rparr>"

definition demo_entry :: "int \<Rightarrow> int \<Rightarrow> int list \<Rightarrow> mytable" where
  "demo_entry i m xs = \<lparr>orig_f = (if i = 1 then Kernel 1 else NullFn), intercepted = i, monitored = m,
     listcount = int (length xs), my_list = Some xs\<rparr>"

lemmas demo_defs = demo_kenv_def demo_root_def demo_user_def demo_regs_def demo_state_def demo_entry_def

lemma demo_kenv_ok: "kenv_ok demo_kenv"
  by (simp add: kenv_ok_def demo_kenv_def)

lemma demo_inv: "entry_ok (demo_entry i m xs) \<Longrightarrow> kmod_inv demo_kenv Kernel (demo_state (demo_entry i m xs))"
  by (auto simp: kmod_inv_def idle_def slot_ok_def entry_ok_def demo_defs base_table_def MY_CUSTOM_SYSCALL_def)

lemma demo_reach: "reach demo_kenv Kernel (demo_state (demo_entry 0 0 []))"
proof (rule reach.loaded)
  show "pristine demo_kenv Kernel demo_boot"
    by (simp add: pristine_def idle_def demo_boot_def)
  show "init_function demo_kenv demo_boot = (Ok 0, demo_state (demo_entry 0 0 []))"
    by (auto simp: init_function_def kmod_ops prog bnd_def init_loop_run blank_def demo_boot_def demo_defs
        MY_CUSTOM_SYSCALL_def fun_eq_iff)
qed

lemma demo_reach_intercepted: "reach demo_kenv Kernel (demo_state (demo_entry 1 0 []))"
proof (rule reach.custom [OF demo_reach])
  show "caller_ok demo_kenv demo_root"
    by (simp add: caller_ok_def demo_defs)
  then show "my_syscall demo_kenv demo_root 1 1 0 (demo_state (demo_entry 0 0 [])) =
      (Ok 0, demo_state (demo_entry 1 0 []))"
    by (auto simp: my_syscall_run early_error_def is_request_def request_defs my_syscall_context_def
        my_syscall_switch_def do_intercept_def kmod_ops prog demo_defs fun_eq_iff)
qed

section \<open>Properties\<close>

text \<open>
  C1: in every state the module can reach after loading, whatever calls of \<open>my_syscall\<close>, process
  exits and intercepted calls happen, no lock is held, the system call table is read-only, every
  slot holds the interceptor exactly when its entry says so (and then the entry saved the handler
  it replaced), and every pid list agrees with its count and its \<open>monitored\<close> mode.
\<close>

theorem module_invariant:
  assumes "kenv_ok K" "reach K orig s"
  shows "kmod_inv K orig s"
  using assms by (rule reach_inv)

theorem module_invariant_witness: "kmod_inv demo_kenv Kernel (demo_state (demo_entry 1 0 []))"
  by (rule module_invariant [OF demo_kenv_ok demo_reach_intercepted])

text \<open>
  C2: a call of \<open>my_syscall\<close> with any arguments from any process returns, keeps the module's
  invariant (so both locks are released and the table is read-only again on every path, errors
  included) and changes nothing at all when it returns an error.  The one exception is root
  intercepting system call \<open>NR_syscalls\<close>, which the bound check lets through: it faults.
\<close>

theorem my_syscall_total:
  assumes "kmod_inv K orig s" "caller_ok K c" "0 < NR_syscalls K"
  shows "if past_the_end K c cmd sysc then fst (my_syscall K c cmd sysc pid s) = Fault
    else \<exists>r t. my_syscall K c cmd sysc pid s = (Ok r, t) \<and> kmod_inv K orig t \<and> (r \<noteq> 0 \<longrightarrow> t = s)"
  using my_syscall_outcome [OF assms(1,2), of cmd sysc pid] assms(3) by simp

theorem my_syscall_total_witness:
  "fst (my_syscall demo_kenv demo_root REQUEST_SYSCALL_INTERCEPT 4 0 (demo_state (demo_entry 0 0 []))) = Fault"
  using my_syscall_total [OF demo_inv, of 0 0 "[]" demo_root REQUEST_SYSCALL_INTERCEPT 4 0]
  by (simp add: entry_ok_def caller_ok_def past_the_end_def demo_defs)

text \<open>
  C3: whatever happened since loading, unloading by root puts every entry of the system call table
  back to the handler the kernel had before the module was loaded, and leaves the table read-only
  and both locks free.
\<close>

theorem unload_restores:
  assumes "kenv_ok K" "reach K orig s" "caller_ok K c" "cur_uid c = 0"
  shows "\<exists>t. exit_function K c s = (Ok (), t) \<and> idle t \<and> (\<forall>i < NR_syscalls K. sys_call_table t i = orig i)"
  using assms(1) reach_inv [OF assms(1,2)] assms(3,4) by (rule exit_run)

theorem unload_restores_witness:
  "\<exists>t. exit_function demo_kenv demo_root (demo_state (demo_entry 1 0 [])) = (Ok (), t) \<and>
     sys_call_table t 1 = Kernel 1"
  using unload_restores [OF demo_kenv_ok demo_reach_intercepted, of demo_root]
  by (auto simp: caller_ok_def demo_root_def demo_kenv_def)

text \<open>
  C4: an intercepted system call is transparent: the interceptor always ends in the handler that
  was in the table before (the kernel's, or \<open>my_exit_group\<close>), writes one log line exactly when the
  call is monitored for all processes or the caller's pid is in the list, and changes nothing else.
\<close>

theorem interceptor_transparent:
  assumes "kmod_inv K orig s" "ax r < NR_syscalls K" "intercepted (table s (ax r)) = 1"
    and "\<forall>i. orig i \<noteq> NullFn"
  shows "interceptor K c r s = (Ok (base_table K orig (ax r)),
     if logs c r (table s (ax r)) then s\<lparr>log := log s @ [log_line c r]\<rparr> else s)"
proof -
  have "orig_f (table s (ax r)) = base_table K orig (ax r)"
    using kmod_inv_slot [OF assms(1,2)] assms(3) by (simp add: slot_ok_def)
  then show ?thesis
    using assms(4) by (simp add: interceptor_run [OF assms(1,2)] call_handler_def base_table_def prog)
qed

theorem interceptor_transparent_witness:
  "interceptor demo_kenv demo_user demo_regs (demo_state (demo_entry 1 1 [20])) =
     (Ok (Kernel 1), (demo_state (demo_entry 1 1 [20]))\<lparr>log := [(20, [1, 0, 0, 0, 0, 0, 0])]\<rparr>)"
  using interceptor_transparent [OF demo_inv, of 1 1 "[20]" demo_regs demo_user]
  by (simp add: entry_ok_def demo_defs base_table_def logs_def log_line_def MY_CUSTOM_SYSCALL_def)

text \<open>
  C5: \<open>my_exit_group\<close> removes the exiting process from every pid list, keeps the invariant, leaves
  the table of system calls alone and ends in the kernel's own \<open>exit_group\<close>.
\<close>

theorem exit_group_forgets:
  assumes "kmod_inv K orig s" "\<forall>i. orig i \<noteq> NullFn"
  shows "\<exists>t. my_exit_group K c status s = (Ok (orig (NR_exit_group K)), t) \<and> kmod_inv K orig t \<and>
     sys_call_table t = sys_call_table s \<and>
     (\<forall>i. 0 < i \<and> i < NR_syscalls K \<longrightarrow> (\<exists>xs. my_list (table t i) = Some xs \<and> cur_pid c \<notin> set xs))"
  using assms kmod_inv_forget [OF assms(1), of "cur_pid c"] kmod_inv_slot [OF assms(1)]
  by (auto simp: my_exit_group_run [OF assms(1)] call_handler_def prog kmod_inv_def slot_ok_def
      intro!: forget_gone)

theorem exit_group_forgets_witness:
  "\<exists>t. my_exit_group demo_kenv demo_user 0 (demo_state (demo_entry 1 1 [30, 20])) = (Ok (Kernel 2), t) \<and>
     (\<exists>xs. my_list (table t 1) = Some xs \<and> 20 \<notin> set xs)"
proof -
  have "kmod_inv demo_kenv Kernel (demo_state (demo_entry 1 1 [30, 20]))"
    by (rule demo_inv) (simp add: entry_ok_def demo_entry_def)
  from exit_group_forgets [OF this, of demo_user 0] show ?thesis
    by (force simp: demo_kenv_def demo_user_def)
qed

text \<open>
  C6: permissions.  A process that is not root cannot intercept or release a system call, cannot
  start or stop monitoring of all processes, and cannot start or stop monitoring of a process with
  another owner: each of these calls (with otherwise valid arguments) returns \<open>-EPERM\<close> and changes
  nothing.
\<close>

theorem permission_denied:
  assumes "caller_ok K c" "cur_uid c \<noteq> 0" "is_request cmd" "0 < sysc" "sysc \<le> int (NR_syscalls K)"
    and "cmd = REQUEST_SYSCALL_INTERCEPT \<or> cmd = REQUEST_SYSCALL_RELEASE \<or> pid = 0 \<or>
      (0 < pid \<and> task_uid K pid \<noteq> None \<and> task_uid K pid \<noteq> task_uid K (cur_pid c))"
  shows "my_syscall K c cmd sysc pid s = (Ok (- EPERM), s)"
  using assms by (auto simp: my_syscall_run early_error_def request_defs is_request_def)

theorem permission_denied_witness:
  "my_syscall demo_kenv demo_user REQUEST_START_MONITORING 1 10 (demo_state (demo_entry 1 0 [])) =
     (Ok (- EPERM), demo_state (demo_entry 1 0 []))"
  by (rule permission_denied) (simp_all add: caller_ok_def is_request_def request_defs demo_defs)

text \<open>
  C7: on an intercepted system call that is not monitored for all processes, starting and then
  stopping the monitoring of a listed-by-nobody process brings the module back to the state it was
  in, whoever of root and the owner of the process asks.
\<close>

theorem start_stop_roundtrip:
  assumes inv: "kmod_inv K orig s" and c: "caller_ok K c" "kmalloc_ok c"
    and sysc: "0 < sysc" "sysc < NR_syscalls K" "intercepted (table s sysc) = 1"
    and pid: "0 < pid" "task_uid K pid \<noteq> None" "cur_uid c = 0 \<or> task_uid K pid = task_uid K (cur_pid c)"
    and fresh: "monitored (table s sysc) \<noteq> 2" "my_list (table s sysc) = Some xs" "pid \<notin> set xs"
  shows "\<exists>t. my_syscall K c REQUEST_START_MONITORING (int sysc) pid s = (Ok 0, t) \<and>
     my_list (table t sysc) = Some (pid # xs) \<and> monitored (table t sysc) = 1 \<and>
     my_syscall K c REQUEST_STOP_MONITORING (int sysc) pid t = (Ok 0, s)"
proof -
  let ?e = "table s sysc"
  let ?t = "with_entry s sysc ((push_pid pid ?e)\<lparr>monitored := 1\<rparr>)"
  have early: "early_error K c REQUEST_START_MONITORING (int sysc) pid = None"
    "early_error K c REQUEST_STOP_MONITORING (int sysc) pid = None"
    using sysc pid c by (auto simp: early_error_def is_request_def request_defs)
  have ok: "entry_ok ?e" using kmod_inv_slot [OF inv sysc(2)] by (simp add: slot_ok_def)
  have start: "locked_effect c REQUEST_START_MONITORING sysc pid s = (0, ?t)"
    using sysc pid fresh c by (simp add: locked_effect_def start_effect_def request_defs Let_def)
  have inv_t: "kmod_inv K orig ?t"
    using locked_effect_inv(1) [OF inv sysc(1,2) _ _ start] pid by (simp add: is_request_def)
  have "unlink_pid pid ((push_pid pid ?e)\<lparr>monitored := 1\<rparr>) = ?e"
    using ok fresh by (cases ?e) (auto simp: entry_ok_def unlink_pid_def push_pid_def Let_def)
  then have stop: "locked_effect c REQUEST_STOP_MONITORING sysc pid ?t = (0, s)"
    using sysc pid fresh by (auto simp: locked_effect_def stop_effect_def request_defs Let_def push_pid_def)
  show ?thesis
    using early context_run [OF inv sysc(2) _ _ start] context_run [OF inv_t sysc(2) _ _ stop] pid fresh
    by (auto simp: my_syscall_run [OF c(1)] is_request_def push_pid_def)
qed

theorem start_stop_roundtrip_witness:
  "\<exists>t. my_syscall demo_kenv demo_user REQUEST_START_MONITORING 1 30 (demo_state (demo_entry 1 1 [20])) = (Ok 0, t) \<and>
     my_list (table t 1) = Some [30, 20] \<and>
     my_syscall demo_kenv demo_user REQUEST_STOP_MONITORING 1 30 t = (Ok 0, demo_state (demo_entry 1 1 [20]))"
  using start_stop_roundtrip [OF demo_inv, of 1 1 "[20]" demo_user 1 30 "[20]"]
  by (auto simp: entry_ok_def caller_ok_def demo_defs)

text \<open>
  C8: intercepting a system call and releasing it again restores the system call table, but keeps
  the pid list and the \<open>monitored\<close> mode of the entry: processes monitored before a release are
  still monitored after the next interception.
\<close>

theorem intercept_release_roundtrip:
  assumes inv: "kmod_inv K orig s" and c: "caller_ok K c" "cur_uid c = 0"
    and sysc: "0 < sysc" "sysc < NR_syscalls K" "intercepted (table s sysc) = 0"
  shows "\<exists>t u. my_syscall K c REQUEST_SYSCALL_INTERCEPT (int sysc) pid s = (Ok 0, t) \<and>
     sys_call_table t sysc = Interceptor_fn \<and>
     my_syscall K c REQUEST_SYSCALL_RELEASE (int sysc) pid t = (Ok 0, u) \<and>
     sys_call_table u = sys_call_table s \<and>
     my_list (table u sysc) = my_list (table s sysc) \<and> monitored (table u sysc) = monitored (table s sysc)"
proof -
  let ?t = "(with_entry s sysc ((table s sysc)\<lparr>orig_f := sys_call_table s sysc, intercepted := 1\<rparr>))
      \<lparr>sys_call_table := (sys_call_table s)(sysc := Interceptor_fn)\<rparr>"
  have early: "early_error K c REQUEST_SYSCALL_INTERCEPT (int sysc) pid = None"
    using sysc c by (auto simp: early_error_def is_request_def request_defs)
  have lock: "locked_effect c REQUEST_SYSCALL_INTERCEPT sysc pid s = (0, ?t)"
    using sysc by (simp add: locked_effect_def Let_def)
  have run: "my_syscall K c REQUEST_SYSCALL_INTERCEPT (int sysc) pid s = (Ok 0, ?t)"
    using early context_run [OF inv sysc(2) _ _ lock] by (simp add: my_syscall_run [OF c(1)] is_request_def request_defs)
  have inv_t: "kmod_inv K orig ?t"
    using kmod_inv_intercept [OF inv sysc(3,1,2)] .
  show ?thesis
    using run release_run [OF inv_t c sysc(2)] by (auto simp: fun_upd_def)
qed

theorem intercept_release_roundtrip_witness:
  "\<exists>t u. my_syscall demo_kenv demo_root REQUEST_SYSCALL_INTERCEPT 1 0 (demo_state (demo_entry 0 1 [20])) = (Ok 0, t) \<and>
     my_syscall demo_kenv demo_root REQUEST_SYSCALL_RELEASE 1 0 t = (Ok 0, u) \<and> my_list (table u 1) = Some [20]"
  using intercept_release_roundtrip [OF demo_inv, of 0 1 "[20]" demo_root 1 0]
  by (auto simp: entry_ok_def caller_ok_def demo_defs)

text \<open>
  C9: once a system call is monitored for all processes (\<open>monitored = 2\<close>), stopping the monitoring
  of one process succeeds and records its pid, but the interceptor goes on logging that process.
  START does not take the record back: in the state reached, START by any process, for that pid or
  any other or for all, returns an error (\<open>-EINVAL\<close>, \<open>-EPERM\<close> or \<open>-EBUSY\<close>) and changes nothing, hence
  so does every sequence of such calls.
\<close>

theorem stop_one_of_all_ineffective:
  assumes inv: "kmod_inv K orig s" and c: "caller_ok K c" "kmalloc_ok c" "cur_uid c = 0"
    and r: "ax r < NR_syscalls K" "0 < ax r" "intercepted (table s (ax r)) = 1" "monitored (table s (ax r)) = 2"
    and pid: "0 < pid" "task_uid K pid \<noteq> None" "my_list (table s (ax r)) = Some xs" "pid \<notin> set xs"
  shows "\<exists>t. my_syscall K c REQUEST_STOP_MONITORING (int (ax r)) pid s = (Ok 0, t) \<and>
     my_list (table t (ax r)) = Some (pid # xs) \<and>
     (\<forall>p u t'. cur_pid p = pid \<and> interceptor K p r t = (Ok u, t') \<longrightarrow> log t' = log t @ [log_line p r]) \<and>
     (\<forall>c' q. caller_ok K c' \<longrightarrow> (\<exists>err \<in> {EINVAL, EPERM, EBUSY}.
        my_syscall K c' REQUEST_START_MONITORING (int (ax r)) q t = (Ok (- err), t)))"
proof -
  let ?e = "table s (ax r)"
  define t where "t = with_entry s (ax r) (push_pid pid ?e)"
  have early: "early_error K c REQUEST_STOP_MONITORING (int (ax r)) pid = None"
    using r pid c by (auto simp: early_error_def is_request_def request_defs)
  have stop: "locked_effect c REQUEST_STOP_MONITORING (ax r) pid s = (0, t)"
    using r pid c by (simp add: locked_effect_def stop_effect_def request_defs Let_def t_def)
  have inv_t: "kmod_inv K orig t"
    using locked_effect_inv(1) [OF inv r(2,1) _ _ stop] pid by (simp add: is_request_def)
  have mon: "monitored (table t (ax r)) = 2" "intercepted (table t (ax r)) = 1"
    using r by (simp_all add: push_pid_def t_def)
  have start: "\<exists>err \<in> {EINVAL, EPERM, EBUSY}. my_syscall K c' REQUEST_START_MONITORING (int (ax r)) q t = (Ok (- err), t)"
    if c': "caller_ok K c'" for c' q
  proof (cases "early_error K c' REQUEST_START_MONITORING (int (ax r)) q")
    case None
    then have q: "0 \<le> q"
      by (auto simp: early_error_def request_defs split: if_splits)
    have "locked_effect c' REQUEST_START_MONITORING (ax r) q t =
        (if q \<in> set (pid # xs) then - EINVAL else - EBUSY, t)"
      using r pid by (auto simp: locked_effect_def start_effect_def request_defs Let_def push_pid_def t_def)
    from context_run [OF inv_t r(1) _ _ this] q None show ?thesis
      by (auto simp: my_syscall_run [OF c'] is_request_def)
  next
    case (Some v)
    then show ?thesis
      using r by (auto simp: my_syscall_run [OF c'] early_error_def request_defs is_request_def split: if_splits)
  qed
  have logged: "log t' = log t @ [log_line p r]" if "interceptor K p r t = (Ok u, t')" for p u t'
    using that mon by (auto simp: interceptor_run [OF inv_t r(1)] logs_def runs)
  have run: "my_syscall K c REQUEST_STOP_MONITORING (int (ax r)) pid s = (Ok 0, t)"
    using early context_run [OF inv r(1) _ _ stop] pid by (simp add: my_syscall_run [OF c(1)] is_request_def)
  have lst: "my_list (table t (ax r)) = Some (pid # xs)"
    using pid by (simp add: push_pid_def t_def)
  show ?thesis
    by (intro exI [of _ t] conjI allI impI run lst start) (auto intro: logged)
qed

theorem stop_one_of_all_ineffective_witness:
  "\<exists>t. my_syscall demo_kenv demo_root REQUEST_STOP_MONITORING 1 20 (demo_state (demo_entry 1 2 [])) = (Ok 0, t) \<and>
     (\<exists>err \<in> {EINVAL, EPERM, EBUSY}. my_syscall demo_kenv demo_root REQUEST_START_MONITORING 1 20 t = (Ok (- err), t))"
proof -
  let ?s = "demo_state (demo_entry 1 2 [])"
  have h: "kmod_inv demo_kenv Kernel ?s" "caller_ok demo_kenv demo_root" "kmalloc_ok demo_root"
    "cur_uid demo_root = 0" "ax demo_regs < NR_syscalls demo_kenv" "0 < ax demo_regs"
    "intercepted (table ?s (ax demo_regs)) = 1" "monitored (table ?s (ax demo_regs)) = 2"
    "(0::int) < 20" "task_uid demo_kenv 20 \<noteq> None" "my_list (table ?s (ax demo_regs)) = Some []"
    "(20::int) \<notin> set []"
    by (auto intro!: demo_inv simp: entry_ok_def caller_ok_def) (simp_all add: demo_defs)
  have "ax demo_regs = 1" by (simp add: demo_regs_def)
  with stop_one_of_all_ineffective [OF h] show ?thesis
    using h(2) by (metis of_nat_1)
qed

text \<open>
  While only listed processes are monitored (\<open>monitored = 1\<close>), STOP for all processes
  (\<open>pid = 0\<close>) is always rejected with \<open>-EINVAL\<close>: the list can only be emptied pid by pid.
\<close>

theorem stop_all_rejected:
  assumes inv: "kmod_inv K orig s" and c: "caller_ok K c" "cur_uid c = 0"
    and sysc: "0 < sysc" "sysc < NR_syscalls K" "monitored (table s sysc) = 1"
  shows "my_syscall K c REQUEST_STOP_MONITORING (int sysc) 0 s = (Ok (- EINVAL), s)"
proof -
  have ok: "entry_ok (table s sysc)" using kmod_inv_slot [OF inv sysc(2)] by (simp add: slot_ok_def)
  have early: "early_error K c REQUEST_STOP_MONITORING (int sysc) 0 = None"
    using sysc c by (auto simp: early_error_def is_request_def request_defs)
  have "locked_effect c REQUEST_STOP_MONITORING sysc 0 s = (- EINVAL, s)"
    using sysc ok by (auto simp: locked_effect_def stop_effect_def request_defs Let_def entry_ok_def split: option.splits)
  from context_run [OF inv sysc(2) _ _ this] show ?thesis
    using early by (simp add: my_syscall_run [OF c(1)] is_request_def)
qed

theorem stop_all_rejected_witness:
  "my_syscall demo_kenv demo_root REQUEST_STOP_MONITORING 1 0 (demo_state (demo_entry 1 1 [20])) =
     (Ok (- EINVAL), demo_state (demo_entry 1 1 [20]))"
  using stop_all_rejected [OF demo_inv, of 1 1 "[20]" demo_root 1]
  by (simp add: entry_ok_def caller_ok_def demo_defs)

end
