(* ===== verification/Allocator.thy ===== *)
theory Allocator
  imports Prelude
begin

text \<open>
  The contract of a first-fit allocator over numbered slots, which two parts of the repository
  provide: \<open>bitmap_alloc\<close> of the swap file (Assignment 3) and \<open>allocate_resource\<close> of the ext2
  bitmaps (Assignment 4).  The client lemmas, proved once from the contract, are about handing out
  several slots in a row: they are distinct, were free, and the run fails exactly when fewer free
  slots remain than are asked for.
\<close>

primrec alloc_many :: "('s \<Rightarrow> (nat \<times> 's) option) \<Rightarrow> nat \<Rightarrow> 's \<Rightarrow> (nat list \<times> 's) option" where
  "alloc_many alloc 0 s = Some ([], s)"
| "alloc_many alloc (Suc n) s = (case alloc s of None \<Rightarrow> None
     | Some (i, t) \<Rightarrow> (case alloc_many alloc n t of None \<Rightarrow> None | Some (is, u) \<Rightarrow> Some (i # is, u)))"

definition free_slots :: "('s \<Rightarrow> nat \<Rightarrow> bool) \<Rightarrow> ('s \<Rightarrow> nat) \<Rightarrow> 's \<Rightarrow> nat set" where
  "free_slots used cap s = {i. i < cap s \<and> \<not> used s i}"

locale slot_allocator =
  fixes ok :: "'s \<Rightarrow> bool"
    and used :: "'s \<Rightarrow> nat \<Rightarrow> bool"
    and cap :: "'s \<Rightarrow> nat"
    and alloc :: "'s \<Rightarrow> (nat \<times> 's) option"
  assumes alloc_ok: "ok s \<Longrightarrow> alloc s = Some (i, t) \<Longrightarrow> ok t"
    and alloc_size: "ok s \<Longrightarrow> alloc s = Some (i, t) \<Longrightarrow> cap t = cap s"
    and alloc_bound: "ok s \<Longrightarrow> alloc s = Some (i, t) \<Longrightarrow> i < cap s"
    and alloc_free: "ok s \<Longrightarrow> alloc s = Some (i, t) \<Longrightarrow> \<not> used s i"
    and alloc_least: "ok s \<Longrightarrow> alloc s = Some (i, t) \<Longrightarrow> j < i \<Longrightarrow> used s j"
    and alloc_used: "ok s \<Longrightarrow> alloc s = Some (i, t) \<Longrightarrow> used t j \<longleftrightarrow> j = i \<or> used s j"
    and alloc_full: "ok s \<Longrightarrow> alloc s = None \<longleftrightarrow> (\<forall>i < cap s. used s i)"
begin

abbreviation avail :: "'s \<Rightarrow> nat set" where
  "avail \<equiv> free_slots used cap"

lemma finite_free [simp]: "finite (avail s)"
  by (simp add: free_slots_def)

lemma alloc_free_slots:
  assumes "ok s" "alloc s = Some (i, t)"
  shows "i \<in> avail s" and "avail t = avail s - {i}" and "card (avail s) = Suc (card (avail t))"
proof -
  show i: "i \<in> avail s"
    using alloc_bound [OF assms] alloc_free [OF assms] by (simp add: free_slots_def)
  show eq: "avail t = avail s - {i}"
    using alloc_used [OF assms] alloc_size [OF assms] by (auto simp: free_slots_def)
  show "card (avail s) = Suc (card (avail t))"
    unfolding eq using card_Suc_Diff1 [OF finite_free i] by simp
qed

lemma alloc_progress: "ok s \<Longrightarrow> avail s \<noteq> {} \<Longrightarrow> \<exists>i t. alloc s = Some (i, t)"
  using alloc_full [of s] by (cases "alloc s") (auto simp: free_slots_def)

lemma alloc_many_Some:
  assumes "ok s" "alloc_many alloc n s = Some (is, t)"
  shows "ok t \<and> cap t = cap s \<and> length is = n \<and> distinct is \<and> set is \<subseteq> avail s \<and>
    avail t = avail s - set is"
  using assms
proof (induction n arbitrary: s "is" t)
  case 0
  then show ?case by simp
next
  case (Suc n)
  then obtain i u js where step: "alloc s = Some (i, u)" "alloc_many alloc n u = Some (js, t)" "is = i # js"
    by (auto split: option.splits)
  have "ok u" "cap u = cap s" "i \<in> avail s" "avail u = avail s - {i}"
    using alloc_ok alloc_size alloc_free_slots Suc.prems(1) step(1) by blast+
  with Suc.IH [OF _ step(2)] step(3) show ?case by auto
qed

lemma filter_least:
  assumes "ok s" "alloc s = Some (i, t)"
  shows "filter (\<lambda>j. \<not> used s j) [0..<cap s] = i # filter (\<lambda>j. \<not> used t j) [0..<cap t]"
proof -
  have split: "[0..<cap s] = [0..<i] @ i # [Suc i..<cap s]"
    using alloc_bound [OF assms] upt_add_eq_append [of 0 i "cap s - i"] by (simp add: upt_conv_Cons)
  show ?thesis
    unfolding alloc_size [OF assms] split using alloc_least [OF assms] alloc_free [OF assms] alloc_used [OF assms]
    by (auto intro: filter_cong)
qed

text \<open>The slots handed out are the lowest free ones, in increasing order.\<close>

lemma alloc_many_least:
  assumes "ok s" "alloc_many alloc n s = Some (is, t)"
  shows "is = take n (filter (\<lambda>j. \<not> used s j) [0..<cap s])"
  using assms
proof (induction n arbitrary: s "is")
  case (Suc n)
  then obtain i u js where step: "alloc s = Some (i, u)" "alloc_many alloc n u = Some (js, t)" "is = i # js"
    by (auto split: option.splits)
  with Suc.IH [OF alloc_ok [OF Suc.prems(1) step(1)] step(2)] show ?case
    by (simp add: filter_least [OF Suc.prems(1) step(1)])
qed simp

lemma alloc_many_total:
  assumes "ok s"
  shows "(\<exists>r. alloc_many alloc n s = Some r) \<longleftrightarrow> n \<le> card (avail s)"
  using assms
proof (induction n arbitrary: s)
  case 0
  then show ?case by simp
next
  case (Suc n)
  show ?case
  proof (cases "alloc s")
    case None
    then have "avail s = {}"
      using alloc_full [OF Suc.prems] by (auto simp: free_slots_def)
    then show ?thesis using None by simp
  next
    case (Some r)
    then obtain i t where it: "alloc s = Some (i, t)" by (cases r) auto
    have "(\<exists>r. alloc_many alloc n t = Some r) \<longleftrightarrow> n \<le> card (avail t)"
      using Suc.IH alloc_ok [OF Suc.prems it] .
    moreover have "card (avail s) = Suc (card (avail t))"
      using alloc_free_slots(3) [OF Suc.prems it] .
    ultimately show ?thesis
      using it by (auto split: option.splits)
  qed
qed

end

end
