(* ===== verification/Bitmap.thy ===== *)
theory Bitmap
  imports Allocator
begin

text \<open>
  The bitmap of \<^verbatim>\<open>Assignment3/swap.c\<close> that hands out slots of the swap file: a vector of 32-bit
  words, the leftover bits of the last word marked in use at creation.  Asserts are faults.
\<close>

unbundle bit_operations_syntax

abbreviation (input) BITS_PER_WORD :: nat where "BITS_PER_WORD \<equiv> 32"
abbreviation (input) WORD_ALLBITS :: "32 word" where "WORD_ALLBITS \<equiv> 0xffffffff"

text \<open>Unsigned arithmetic of the macro, at its width of 32 bits.\<close>

definition DIVROUNDUP :: "nat \<Rightarrow> nat \<Rightarrow> nat" where
  "DIVROUNDUP a b = ((a + b - 1) mod 2 ^ 32) div b"

record bitmap =
  nbits :: nat
  vec :: "32 word list"

definition set_bit_at :: "nat \<Rightarrow> nat \<Rightarrow> 32 word list \<Rightarrow> 32 word list" where
  "set_bit_at ix offset v = v[ix := v ! ix OR push_bit offset 1]"

definition bitmap_create :: "nat \<Rightarrow> bitmap outcome" where
  "bitmap_create n =
    (let words = DIVROUNDUP n BITS_PER_WORD; v = replicate words 0
     in if words > n div BITS_PER_WORD then
          let ix = words - 1; overbits = n - ix * BITS_PER_WORD
          in if n div BITS_PER_WORD = words - 1 \<and> overbits > 0 \<and> overbits < BITS_PER_WORD
             then Ok \<lparr>nbits = n, vec = fold (set_bit_at ix) [overbits..<BITS_PER_WORD] v\<rparr>
             else Fault
        else Ok \<lparr>nbits = n, vec = v\<rparr>)"

text \<open>The two nested search loops of \<open>bitmap_alloc\<close>: over the bits of a word, over the words.\<close>

primrec alloc_offset :: "32 word \<Rightarrow> nat list \<Rightarrow> nat option" where
  "alloc_offset w [] = None"
| "alloc_offset w (offset # os) =
     (if w AND push_bit offset 1 = 0 then Some offset else alloc_offset w os)"

primrec alloc_word :: "nat list \<Rightarrow> (bitmap, nat option) prog" where
  "alloc_word [] = ret None"
| "alloc_word (ix # ixs) = bnd (peek vec) (\<lambda>v.
     if v ! ix \<noteq> WORD_ALLBITS then
       (case alloc_offset (v ! ix) [0..<BITS_PER_WORD] of
          None \<Rightarrow> faultp
        | Some offset \<Rightarrow>
            thn (upd (\<lambda>b. b\<lparr>vec := set_bit_at ix offset (vec b)\<rparr>))
           (bnd (peek nbits) (\<lambda>n. thn (need (ix * BITS_PER_WORD + offset < n))
             (ret (Some (ix * BITS_PER_WORD + offset))))))
     else alloc_word ixs)"

text \<open>\<open>None\<close> is the return value 1 (no free slot), \<open>Some i\<close> the return value 0 with \<open>*index = i\<close>.\<close>

definition bitmap_alloc :: "(bitmap, nat option) prog" where
  "bitmap_alloc = bnd (peek nbits) (\<lambda>n. alloc_word [0..<DIVROUNDUP n BITS_PER_WORD])"

definition bitmap_translate :: "nat \<Rightarrow> nat \<times> 32 word" where
  "bitmap_translate bitno = (bitno div BITS_PER_WORD, push_bit (bitno mod BITS_PER_WORD) 1)"

definition bitmap_mark :: "nat \<Rightarrow> (bitmap, unit) prog" where
  "bitmap_mark index = bnd (peek nbits) (\<lambda>n. thn (need (index < n))
     (case bitmap_translate index of (ix, msk) \<Rightarrow>
        bnd (peek vec) (\<lambda>v. thn (need (v ! ix AND msk = 0))
          (upd (\<lambda>b. b\<lparr>vec := (vec b)[ix := vec b ! ix OR msk]\<rparr>)))))"

definition bitmap_unmark :: "nat \<Rightarrow> (bitmap, unit) prog" where
  "bitmap_unmark index = bnd (peek nbits) (\<lambda>n. thn (need (index < n))
     (case bitmap_translate index of (ix, msk) \<Rightarrow>
        bnd (peek vec) (\<lambda>v. thn (need (v ! ix AND msk \<noteq> 0))
          (upd (\<lambda>b. b\<lparr>vec := (vec b)[ix := vec b ! ix AND NOT msk]\<rparr>)))))"

text \<open>An index past the vector is read out of bounds: unlike the others this one has no assert.\<close>

definition bitmap_isset :: "nat \<Rightarrow> (bitmap, 32 word) prog" where
  "bitmap_isset index = (case bitmap_translate index of (ix, msk) \<Rightarrow>
     bnd (peek vec) (\<lambda>v. thn (need (ix < length v)) (ret (v ! ix AND msk))))"

section \<open>What the bitmap represents\<close>

definition slot_used :: "bitmap \<Rightarrow> nat \<Rightarrow> bool" where
  "slot_used b i \<longleftrightarrow> i div 32 < length (vec b) \<and> bit (vec b ! (i div 32)) (i mod 32)"

definition bitmap_ok :: "bitmap \<Rightarrow> bool" where
  "bitmap_ok b \<longleftrightarrow> nbits b \<le> 2 ^ 32 - 32 \<and> length (vec b) = (nbits b + 31) div 32 \<and>
     (\<forall>i. nbits b \<le> i \<and> i < 32 * length (vec b) \<longrightarrow> slot_used b i)"

lemma DIVROUNDUP_32: "n \<le> 2 ^ 32 - 32 \<Longrightarrow> DIVROUNDUP n 32 = (n + 31) div 32"
  by (simp add: DIVROUNDUP_def)

lemma mask_zero_iff: "w AND push_bit n 1 = (0 :: 32 word) \<longleftrightarrow> (n < 32 \<longrightarrow> \<not> bit w n)"
  by (auto simp: bit_eq_iff [where ?'a = "32 word"] bit_simps)

lemma mask_zero_iff_power: "w AND 2 ^ n = (0 :: 32 word) \<longleftrightarrow> (n < 32 \<longrightarrow> \<not> bit w n)"
  using mask_zero_iff [of w n] by (simp only: push_bit_of_1)

lemma alloc_offset_Some:
  "alloc_offset w os = Some off \<Longrightarrow> off \<in> set os \<and> w AND push_bit off 1 = 0"
  by (induction os) (auto split: if_splits)

lemma alloc_offset_None: "alloc_offset w os = None \<longleftrightarrow> (\<forall>off \<in> set os. w AND push_bit off 1 \<noteq> 0)"
  by (induction os) auto

lemma alloc_offset_first:
  assumes "alloc_offset w [a..<n] = Some off" "a \<le> k" "k < off"
  shows "w AND push_bit k 1 \<noteq> 0"
  using assms
proof (induction "n - a" arbitrary: a)
  case 0
  then show ?case by simp
next
  case (Suc m)
  then have range: "[a..<n] = a # [Suc a..<n]" by (simp add: upt_conv_Cons)
  show ?case
  proof (cases "k = a")
    case True
    with Suc range show ?thesis by (auto split: if_splits)
  next
    case False
    show ?thesis
      by (rule Suc.hyps(1) [of "Suc a"]) (use Suc range False in \<open>auto split: if_splits\<close>)
  qed
qed

lemma all_bits_iff: "w = (0xffffffff :: 32 word) \<longleftrightarrow> (\<forall>n < 32. bit w n)"
proof -
  have ones: "(0xffffffff :: 32 word) = - 1" by simp
  show ?thesis
    unfolding ones by (auto simp: bit_eq_iff)
qed

lemma slot_used_set:
  assumes "ix < length v" "off < 32"
  shows "slot_used (b\<lparr>vec := set_bit_at ix off v\<rparr>) i \<longleftrightarrow>
     i = ix * 32 + off \<or> slot_used (b\<lparr>vec := v\<rparr>) i"
proof (cases "i div 32 = ix")
  case True
  then have "i = ix * 32 + off \<longleftrightarrow> i mod 32 = off"
    using div_mult_mod_eq [of i 32] by linarith
  with assms True show ?thesis
    by (auto simp: slot_used_def set_bit_at_def bit_simps)
next
  case False
  with assms show ?thesis
    by (auto simp: slot_used_def set_bit_at_def)
qed

lemma slot_in_word: "ix < length (vec b) \<Longrightarrow> off < 32 \<Longrightarrow> slot_used b (ix * 32 + off) \<longleftrightarrow> bit (vec b ! ix) off"
  by (simp add: slot_used_def)

lemma slot_index_bound: "ix < n \<Longrightarrow> off < 32 \<Longrightarrow> ix * 32 + off < 32 * (n :: nat)"
  by simp

lemma full_word:
  assumes "ix < length (vec b)" "vec b ! ix = 0xffffffff" "ix * 32 \<le> j" "j < Suc ix * 32"
  shows "slot_used b j"
proof -
  have "j div 32 = ix" using assms(3,4) by auto
  then show ?thesis
    using assms(1,2) all_bits_iff [of "vec b ! ix"] by (simp add: slot_used_def)
qed

lemma alloc_word_run:
  assumes ok: "bitmap_ok b" and le: "a \<le> length (vec b)"
  shows "(alloc_word [a..<length (vec b)] b = (Ok None, b) \<and>
      (\<forall>j. a * 32 \<le> j \<and> j < nbits b \<longrightarrow> slot_used b j)) \<or>
    (\<exists>i. alloc_word [a..<length (vec b)] b = (Ok (Some i), b\<lparr>vec := set_bit_at (i div 32) (i mod 32) (vec b)\<rparr>) \<and>
      i < nbits b \<and> i div 32 < length (vec b) \<and> \<not> slot_used b i \<and>
      (\<forall>j. a * 32 \<le> j \<and> j < i \<longrightarrow> slot_used b j))"
  using le
proof (induction "length (vec b) - a" arbitrary: a)
  case 0
  then have "a = length (vec b)" by simp
  moreover have "nbits b \<le> 32 * length (vec b)"
    using ok by (auto simp: bitmap_ok_def)
  ultimately show ?case by (auto simp: prog)
next
  case (Suc m)
  then have a: "a < length (vec b)" and range: "[a..<length (vec b)] = a # [Suc a..<length (vec b)]"
    by (auto simp: upt_conv_Cons)
  show ?case
  proof (cases "vec b ! a = 0xffffffff")
    case True
    have here: "slot_used b j" if "a * 32 \<le> j" "j < Suc a * 32" for j
      using full_word [OF a True that] .
    have run: "alloc_word [a..<length (vec b)] b = alloc_word [Suc a..<length (vec b)] b"
      by (simp only: range) (simp add: prog True)
    have split: "slot_used b j" if "a * 32 \<le> j" "Suc a * 32 \<le> j \<Longrightarrow> slot_used b j" for j
      using here that by (cases "j < Suc a * 32") auto
    have "(alloc_word [Suc a..<length (vec b)] b = (Ok None, b) \<and>
        (\<forall>j. Suc a * 32 \<le> j \<and> j < nbits b \<longrightarrow> slot_used b j)) \<or>
      (\<exists>i. alloc_word [Suc a..<length (vec b)] b = (Ok (Some i), b\<lparr>vec := set_bit_at (i div 32) (i mod 32) (vec b)\<rparr>) \<and>
        i < nbits b \<and> i div 32 < length (vec b) \<and> \<not> slot_used b i \<and>
        (\<forall>j. Suc a * 32 \<le> j \<and> j < i \<longrightarrow> slot_used b j))"
      by (rule Suc.hyps(1)) (use Suc.hyps(2) a in auto)
    then show ?thesis
      unfolding run by (elim disjE exE) (use split in blast)+
  next
    case False
    then obtain off where off: "alloc_offset (vec b ! a) [0..<32] = Some off"
      using alloc_offset_None [of "vec b ! a" "[0..<32]"] all_bits_iff [of "vec b ! a"]
      by (cases "alloc_offset (vec b ! a) [0..<32]") (auto simp: mask_zero_iff mask_zero_iff_power)
    have lt: "off < 32" and clear: "\<not> bit (vec b ! a) off"
      using alloc_offset_Some [OF off] by (auto simp: mask_zero_iff mask_zero_iff_power)
    have unused: "\<not> slot_used b (a * 32 + off)"
      using clear lt a by (simp add: slot_in_word)
    then have bound: "a * 32 + off < nbits b"
      using ok a lt unfolding bitmap_ok_def by (meson linorder_not_le add_less_le_mono mult_less_le_imp_less
        slot_index_bound)
    have before: "slot_used b j" if "a * 32 \<le> j" "j < a * 32 + off" for j
    proof -
      have "j div 32 = a" using that lt by (auto simp: div_nat_eqI)
      moreover from this have "j mod 32 = j - a * 32"
        using div_mult_mod_eq [of j 32] by linarith
      moreover have "bit (vec b ! a) (j - a * 32)"
        using alloc_offset_first [OF off, of "j - a * 32"] that lt by (auto simp: mask_zero_iff mask_zero_iff_power)
      ultimately show ?thesis using a by (simp add: slot_used_def)
    qed
    have "alloc_word [a..<length (vec b)] b =
        (Ok (Some (a * 32 + off)), b\<lparr>vec := set_bit_at a off (vec b)\<rparr>)"
      by (simp only: range) (simp add: prog False off bound)
    with bound unused before a lt show ?thesis by auto
  qed
qed

lemma bitmap_alloc_run:
  assumes "bitmap_ok b"
  shows "(bitmap_alloc b = (Ok None, b) \<and> (\<forall>j < nbits b. slot_used b j)) \<or>
    (\<exists>i. bitmap_alloc b = (Ok (Some i), b\<lparr>vec := set_bit_at (i div 32) (i mod 32) (vec b)\<rparr>) \<and>
      i < nbits b \<and> i div 32 < length (vec b) \<and> \<not> slot_used b i \<and> (\<forall>j < i. slot_used b j))"
  using alloc_word_run [OF assms, of 0] assms
  by (auto simp: bitmap_alloc_def prog bitmap_ok_def DIVROUNDUP_32)

lemma bitmap_ok_set:
  assumes "bitmap_ok b" "ix < length (vec b)" "off < 32"
  shows "bitmap_ok (b\<lparr>vec := set_bit_at ix off (vec b)\<rparr>)"
  using assms slot_used_set [OF assms(2,3), of b]
  by (simp add: bitmap_ok_def) (simp add: set_bit_at_def)

text \<open>The bitmap provides the allocator contract.\<close>

definition bitmap_take :: "bitmap \<Rightarrow> (nat \<times> bitmap) option" where
  "bitmap_take b = (case bitmap_alloc b of (Ok (Some i), t) \<Rightarrow> Some (i, t) | _ \<Rightarrow> None)"

lemma bitmap_take_Some:
  assumes "bitmap_ok b" "bitmap_take b = Some (i, t)"
  shows "bitmap_alloc b = (Ok (Some i), t)" "t = b\<lparr>vec := set_bit_at (i div 32) (i mod 32) (vec b)\<rparr>"
    "i < nbits b" "i div 32 < length (vec b)" "\<not> slot_used b i" "\<forall>j < i. slot_used b j"
  using bitmap_alloc_run [OF assms(1)] assms(2) by (auto simp: bitmap_take_def)

interpretation swap_slots: slot_allocator bitmap_ok slot_used nbits bitmap_take
proof
  fix b i t j
  assume ok: "bitmap_ok b" and take: "bitmap_take b = Some (i, t)"
  note facts = bitmap_take_Some [OF ok take]
  show "bitmap_ok t" using facts(2,4) bitmap_ok_set [OF ok] by simp
  show "nbits t = nbits b" "i < nbits b" "\<not> slot_used b i" using facts by simp_all
  show "slot_used t j = (j = i \<or> slot_used b j)"
    using facts(2) slot_used_set [OF facts(4), of "i mod 32" b j] by simp
  show "j < i \<Longrightarrow> slot_used b j" using facts(6) by simp
next
  fix b assume "bitmap_ok b"
  then show "(bitmap_take b = None) = (\<forall>i < nbits b. slot_used b i)"
    using bitmap_alloc_run [of b] by (auto simp: bitmap_take_def)
qed

section \<open>Creation\<close>

lemma fold_set_bits:
  assumes "ix < length v" "\<forall>j \<in> set js. j < 32"
  shows "length (fold (set_bit_at ix) js v) = length v"
    and "slot_used (b\<lparr>vec := fold (set_bit_at ix) js v\<rparr>) i \<longleftrightarrow>
      (\<exists>j \<in> set js. i = ix * 32 + j) \<or> slot_used (b\<lparr>vec := v\<rparr>) i"
  using assms
proof (induction js arbitrary: v)
  case Nil
  {
    case 1
    then show ?case by simp
  next
    case 2
    then show ?case by simp
  }
next
  case (Cons j js)
  {
    case 1
    then show ?case using Cons.IH(1) [of "set_bit_at ix j v"] by (simp add: set_bit_at_def)
  next
    case 2
    then show ?case
      using Cons.IH(2) [of "set_bit_at ix j v"] slot_used_set [of ix v j b i]
      by (auto simp: set_bit_at_def)
  }
qed

lemma create_run:
  assumes n: "n \<le> 2 ^ 32 - 32"
  shows "\<exists>b. bitmap_create n = Ok b \<and> bitmap_ok b \<and> nbits b = n \<and> (\<forall>i < n. \<not> slot_used b i)"
proof -
  define w where "w = (n + 31) div 32"
  have w: "DIVROUNDUP n 32 = w" using n by (simp add: DIVROUNDUP_32 w_def)
  have clear: "\<not> slot_used (b\<lparr>vec := replicate w 0\<rparr>) i" for b i
    by (simp add: slot_used_def)
  show ?thesis
  proof (cases "n mod 32 = 0")
    case True
    then have "w = n div 32" "32 * w = n" by (auto simp: w_def)
    then show ?thesis
      using n clear [of "\<lparr>nbits = n, vec = []\<rparr>"]
      by (auto simp: bitmap_create_def w Let_def bitmap_ok_def w_def [symmetric])
  next
    case False
    define ix where "ix = w - 1"
    define js where "js = [n - ix * 32..<32]"
    have ix: "ix = n div 32" "w = Suc ix" "n - ix * 32 = n mod 32"
    proof -
      have "n + 31 = 32 * (n div 32) + (n mod 32 + 31)"
        using div_mult_mod_eq [of n 32] by linarith
      then have "w = n div 32 + (n mod 32 + 31) div 32"
        unfolding w_def by (metis div_mult_self2 zero_neq_numeral add.commute)
      moreover have "(n mod 32 + 31) div 32 = 1"
        using False mod_less_divisor [of 32 n] by (intro div_nat_eqI) simp_all
      ultimately show "ix = n div 32" "w = Suc ix" by (simp_all add: ix_def)
      then show "n - ix * 32 = n mod 32" by (simp add: minus_div_mult_eq_mod)
    qed
    let ?b = "\<lparr>nbits = n, vec = fold (set_bit_at ix) js (replicate w 0)\<rparr>"
    have prems: "ix < length (replicate w (0 :: 32 word))" "\<forall>j \<in> set js. j < 32"
      using ix by (simp_all add: js_def)
    have len: "length (vec ?b) = w"
      using fold_set_bits(1) [OF prems] by simp
    have used: "slot_used ?b i \<longleftrightarrow> (\<exists>j \<in> set js. i = ix * 32 + j)" for i
      using fold_set_bits(2) [OF prems, of "\<lparr>nbits = n, vec = []\<rparr>" i]
        clear [of "\<lparr>nbits = n, vec = []\<rparr>"] by simp
    have "\<exists>j \<in> set js. i = ix * 32 + j" if "n \<le> i" "i < 32 * w" for i
      using that ix by (intro bexI [of _ "i - ix * 32"]) (auto simp: js_def)
    moreover have "\<not> slot_used ?b i" if "i < n" for i
      unfolding used using that ix by (auto simp: js_def)
    moreover have "bitmap_create n = Ok ?b"
      using ix False by (simp add: bitmap_create_def w Let_def js_def)
    ultimately show ?thesis
      using n len used by (intro exI [of _ ?b]) (simp add: bitmap_ok_def w_def)
  qed
qed

section \<open>Properties\<close>

text \<open>
  C17: a new bitmap of \<open>n\<close> slots passes its asserts, has every one of its \<open>n\<close> slots free and the
  leftover bits of its last word in use; then any number \<open>k\<close> of allocations in a row succeeds
  exactly when \<open>k \<le> n\<close>, and hands out \<open>k\<close> distinct slots below \<open>n\<close>.
\<close>

theorem bitmap_capacity:
  assumes "n \<le> 2 ^ 32 - 32"
  shows "\<exists>b. bitmap_create n = Ok b \<and> bitmap_ok b \<and>
    ((\<exists>r. alloc_many bitmap_take k b = Some r) \<longleftrightarrow> k \<le> n) \<and>
    (\<forall>is t. alloc_many bitmap_take k b = Some (is, t) \<longrightarrow>
       distinct is \<and> length is = k \<and> (\<forall>i \<in> set is. i < n) \<and> bitmap_ok t)"
proof -
  obtain b where b: "bitmap_create n = Ok b" "bitmap_ok b" "nbits b = n" "\<forall>i < n. \<not> slot_used b i"
    using create_run [OF assms] by blast
  have "free_slots slot_used nbits b = {..<n}"
    using b by (auto simp: free_slots_def)
  then have "(\<exists>r. alloc_many bitmap_take k b = Some r) \<longleftrightarrow> k \<le> n"
    using swap_slots.alloc_many_total [OF b(2), of k] by simp
  moreover have "distinct is \<and> length is = k \<and> (\<forall>i \<in> set is. i < n) \<and> bitmap_ok t"
    if "alloc_many bitmap_take k b = Some (is, t)" for "is" t
    using swap_slots.alloc_many_Some [OF b(2) that] \<open>free_slots slot_used nbits b = {..<n}\<close> by blast
  ultimately show ?thesis
    using b(1,2) by blast
qed

theorem bitmap_capacity_witness:
  "\<exists>b. bitmap_create 40 = Ok b \<and> (\<exists>r. alloc_many bitmap_take 40 b = Some r)"
proof -
  have "(40 :: nat) \<le> 2 ^ 32 - 32" by simp
  from bitmap_capacity [OF this, of 40] show ?thesis by blast
qed

text \<open>
  C18: on a well-formed bitmap \<open>bitmap_alloc\<close> passes its asserts; it returns the lowest free slot
  and marks exactly that one, or reports failure, with the bitmap unchanged, exactly when every
  slot is in use.
\<close>

theorem bitmap_alloc_first_free:
  assumes "bitmap_ok b"
  shows "\<exists>r t. bitmap_alloc b = (Ok r, t) \<and> bitmap_ok t \<and>
    (case r of None \<Rightarrow> t = b \<and> (\<forall>i < nbits b. slot_used b i)
     | Some i \<Rightarrow> i < nbits b \<and> \<not> slot_used b i \<and> (\<forall>j < i. slot_used b j) \<and>
         (\<forall>j. slot_used t j \<longleftrightarrow> j = i \<or> slot_used b j))"
proof (cases "bitmap_take b")
  case None
  then show ?thesis
    using bitmap_alloc_run [OF assms] assms by (auto simp: bitmap_take_def)
next
  case (Some r)
  then obtain i t where it: "bitmap_take b = Some (i, t)" by (cases r) auto
  then show ?thesis
    using bitmap_take_Some [OF assms it] swap_slots.alloc_ok [OF assms it] swap_slots.alloc_used [OF assms it]
    by auto
qed

theorem bitmap_alloc_first_free_witness:
  "\<exists>r t. bitmap_alloc \<lparr>nbits = 32, vec = [7]\<rparr> = (Ok r, t) \<and> bitmap_ok t"
proof -
  have "bitmap_ok \<lparr>nbits = 32, vec = [7]\<rparr>"
    by (auto simp: bitmap_ok_def)
  from bitmap_alloc_first_free [OF this] show ?thesis by blast
qed

lemma index_in_vec: "bitmap_ok b \<Longrightarrow> i < nbits b \<Longrightarrow> i div 32 < length (vec b)"
  by (auto simp: bitmap_ok_def)

lemma mask_test:
  "i div 32 < length (vec b) \<Longrightarrow> vec b ! (i div 32) AND push_bit (i mod 32) 1 = 0 \<longleftrightarrow> \<not> slot_used b i"
  by (simp add: slot_used_def mask_zero_iff_power)

lemma clear_set_bit: "\<not> bit (w :: 32 word) n \<Longrightarrow> (w OR push_bit n 1) AND NOT (push_bit n 1) = w"
  by (rule bit_word_eqI) (auto simp: bit_simps)

text \<open>
  On a slot below \<open>nbits\<close>, \<open>bitmap_mark\<close> passes its asserts exactly when the slot is free and
  \<open>bitmap_unmark\<close> exactly when it is in use; marking changes that slot only, \<open>bitmap_isset\<close> sees
  the mark, and unmarking gives the original bitmap back.
\<close>

theorem bitmap_mark_unmark:
  assumes ok: "bitmap_ok b" and i: "i < nbits b"
  shows "fst (bitmap_mark i b) = (if slot_used b i then Fault else Ok ()) \<and>
    fst (bitmap_unmark i b) = (if slot_used b i then Ok () else Fault) \<and>
    (\<exists>w. bitmap_isset i b = (Ok w, b) \<and> (w \<noteq> 0 \<longleftrightarrow> slot_used b i)) \<and>
    (\<not> slot_used b i \<longrightarrow> (\<exists>t. bitmap_mark i b = (Ok (), t) \<and>
      (\<forall>j. slot_used t j \<longleftrightarrow> j = i \<or> slot_used b j) \<and> bitmap_unmark i t = (Ok (), b)))"
proof (intro conjI impI)
  note ix = index_in_vec [OF ok i]
  note test = mask_test [OF ix]
  show "fst (bitmap_mark i b) = (if slot_used b i then Fault else Ok ())"
    "fst (bitmap_unmark i b) = (if slot_used b i then Ok () else Fault)"
    "\<exists>w. bitmap_isset i b = (Ok w, b) \<and> (w \<noteq> 0 \<longleftrightarrow> slot_used b i)"
    using test i ix
    by (simp_all add: bitmap_mark_def bitmap_unmark_def bitmap_isset_def bitmap_translate_def prog)
  assume free: "\<not> slot_used b i"
  let ?t = "b\<lparr>vec := set_bit_at (i div 32) (i mod 32) (vec b)\<rparr>"
  have used: "slot_used ?t j \<longleftrightarrow> j = i \<or> slot_used b j" for j
    using slot_used_set [OF ix, of "i mod 32" b j] by simp
  have "bitmap_mark i b = (Ok (), ?t)"
    using test i free by (simp add: bitmap_mark_def bitmap_translate_def set_bit_at_def prog)
  moreover have "bitmap_unmark i ?t = (Ok (), b)"
  proof -
    have "vec ?t ! (i div 32) AND push_bit (i mod 32) 1 \<noteq> 0"
      using mask_test [of i ?t] ix used by (simp add: set_bit_at_def)
    moreover have "\<not> bit (vec b ! (i div 32)) (i mod 32)"
      using free ix by (simp add: slot_used_def)
    ultimately show ?thesis
      using i ix clear_set_bit [of "vec b ! (i div 32)" "i mod 32"]
      by (simp add: bitmap_unmark_def bitmap_translate_def set_bit_at_def prog)
  qed
  ultimately show "\<exists>t. bitmap_mark i b = (Ok (), t) \<and>
      (\<forall>j. slot_used t j \<longleftrightarrow> j = i \<or> slot_used b j) \<and> bitmap_unmark i t = (Ok (), b)"
    using used by blast
qed

theorem bitmap_mark_unmark_witness:
  "fst (bitmap_mark 0 \<lparr>nbits = 32, vec = [6]\<rparr>) = Ok () \<and> fst (bitmap_mark 1 \<lparr>nbits = 32, vec = [6]\<rparr>) = Fault"
proof -
  have "bitmap_ok \<lparr>nbits = 32, vec = [6]\<rparr>"
    by (auto simp: bitmap_ok_def)
  then show ?thesis
    using bitmap_mark_unmark [of "\<lparr>nbits = 32, vec = [6]\<rparr>" 0] bitmap_mark_unmark [of "\<lparr>nbits = 32, vec = [6]\<rparr>" 1]
    by (simp add: slot_used_def bit_numeral_rec)
qed

end
