(* ===== verification/Bytes.thy ===== *)
theory Bytes
  imports Prelude
begin

text \<open>
  Byte-addressed memory: simulated physical memory (Assignment 3) and the memory-mapped disk image
  (Assignment 4) are functions from offsets to bytes.  Words are loaded and stored little-endian,
  as on the x86 the code is written for.  The laws: a load of what was stored gives the value, and
  loads and stores of disjoint ranges do not interfere.
\<close>

unbundle bit_operations_syntax

type_synonym byte = "8 word"
type_synonym memory = "nat \<Rightarrow> byte"

primrec get_le :: "nat \<Rightarrow> memory \<Rightarrow> nat \<Rightarrow> 'w::len word" where
  "get_le 0 m a = 0"
| "get_le (Suc n) m a = ucast (m a) OR push_bit 8 (get_le n m (Suc a))"

primrec put_le :: "nat \<Rightarrow> nat \<Rightarrow> 'w::len word \<Rightarrow> memory \<Rightarrow> memory" where
  "put_le 0 a w m = m"
| "put_le (Suc n) a w m = put_le n (Suc a) (drop_bit 8 w) (m(a := ucast w))"

text \<open>Copying bytes out of and into memory (\<open>memcpy\<close>, \<open>read\<close>, \<open>write\<close>).\<close>

definition get_bytes :: "memory \<Rightarrow> nat \<Rightarrow> nat \<Rightarrow> byte list" where
  "get_bytes m a n = map m [a..<a + n]"

primrec put_bytes :: "nat \<Rightarrow> byte list \<Rightarrow> memory \<Rightarrow> memory" where
  "put_bytes a [] m = m"
| "put_bytes a (b # bs) m = put_bytes (Suc a) bs (m(a := b))"

lemma length_get_bytes [simp]: "length (get_bytes m a n) = n"
  by (simp add: get_bytes_def)

lemma get_bytes_cong: "(\<And>x. a \<le> x \<Longrightarrow> x < a + n \<Longrightarrow> m' x = m x) \<Longrightarrow> get_bytes m' a n = get_bytes m a n"
  by (simp add: get_bytes_def)

lemma put_bytes_apply:
  "put_bytes a bs m x = (if a \<le> x \<and> x < a + length bs then bs ! (x - a) else m x)"
proof (induction bs arbitrary: a m)
  case Nil
  then show ?case by auto
next
  case (Cons b bs)
  then show ?case by (auto simp: nth_Cons' Suc_diff_Suc)
qed

lemma put_le_outside: "x < a \<or> a + n \<le> x \<Longrightarrow> put_le n a w m x = m x"
  by (induction n arbitrary: a w m) auto

lemma put_le_inside: "k < n \<Longrightarrow> put_le n a w m (a + k) = ucast (drop_bit (8 * k) w)"
proof (induction n arbitrary: a w m k)
  case 0
  then show ?case by simp
next
  case (Suc n)
  show ?case
  proof (cases k)
    case 0
    then show ?thesis by (simp add: put_le_outside)
  next
    case (Suc j)
    have "put_le n (Suc a) (drop_bit 8 w) m' (Suc a + j) = ucast (drop_bit (8 * j) (drop_bit 8 w))" for m'
      by (rule Suc.IH) (use Suc Suc.prems in simp)
    with Suc show ?thesis by (simp add: add.commute)
  qed
qed

lemma get_le_cong:
  "(\<And>x. a \<le> x \<Longrightarrow> x < a + n \<Longrightarrow> m x = m' x) \<Longrightarrow> get_le n m a = get_le n m' a"
  by (induction n arbitrary: a) auto

lemma get_le_bit:
  "bit (get_le n m a :: 'w::len word) i \<longleftrightarrow> i < LENGTH('w) \<and> i < 8 * n \<and> bit (m (a + i div 8)) (i mod 8)"
proof (induction n arbitrary: a i)
  case 0
  then show ?case by simp
next
  case (Suc n)
  show ?case
  proof (cases "i < 8")
    case True
    then show ?thesis by (auto simp: bit_simps)
  next
    case False
    then have "\<not> bit (m a) i"
      using bit_imp_le_length by fastforce
    moreover obtain j where j: "i = 8 + j"
      using False by (metis le_add_diff_inverse not_less)
    moreover have "(8 + j) div 8 = Suc (j div 8)" by simp
    ultimately show ?thesis
      using False Suc.IH [of "Suc a" j] by (auto simp: bit_simps)
  qed
qed

text \<open>Loads of stored values.\<close>

lemma get_put_le:
  fixes w :: "'w::len word"
  assumes "LENGTH('w) \<le> 8 * n"
  shows "get_le n (put_le n a w m) a = w"
proof (rule bit_word_eqI)
  fix i assume i: "i < LENGTH('w)"
  have "i div 8 < n" using i assms by auto
  then have "put_le n a w m (a + i div 8) = ucast (drop_bit (8 * (i div 8)) w)"
    by (rule put_le_inside)
  moreover have "8 * (i div 8) + i mod 8 = i" by simp
  ultimately show "bit (get_le n (put_le n a w m) a :: 'w word) i \<longleftrightarrow> bit w i"
    using i assms by (auto simp: get_le_bit bit_simps ac_simps)
qed

lemma get_put_le_other:
  "a + n \<le> b \<or> b + k \<le> a \<Longrightarrow> get_le n (put_le k b w m) a = get_le n m a"
  by (rule get_le_cong) (auto intro!: put_le_outside)

lemma get_le_put_bytes_other:
  "a + n \<le> b \<or> b + length bs \<le> a \<Longrightarrow> get_le n (put_bytes b bs m) a = get_le n m a"
  by (rule get_le_cong) (auto simp: put_bytes_apply)

lemma get_bytes_put_le_other:
  "a + n \<le> b \<or> b + k \<le> a \<Longrightarrow> get_bytes (put_le k b w m) a n = get_bytes m a n"
  by (auto simp: get_bytes_def put_le_outside)

lemma get_put_bytes [simp]: "length bs = n \<Longrightarrow> get_bytes (put_bytes a bs m) a n = bs"
  by (auto simp: get_bytes_def put_bytes_apply intro!: nth_equalityI)

lemma get_put_bytes_other:
  "a + n \<le> b \<or> b + length bs \<le> a \<Longrightarrow> get_bytes (put_bytes b bs m) a n = get_bytes m a n"
  by (auto simp: get_bytes_def put_bytes_apply)

text \<open>A word that lies inside a copied range depends on the copied bytes only.\<close>

lemma get_le_of_bytes:
  assumes "get_bytes m a n = get_bytes m' b n" "k + j \<le> n"
  shows "get_le j m (a + k) = get_le j m' (b + k)"
  using assms(2)
proof (induction j arbitrary: k)
  case 0
  then show ?case by simp
next
  case (Suc j)
  have "m (a + k) = m' (b + k)"
    using arg_cong [OF assms(1), of "\<lambda>bs. bs ! k"] Suc.prems by (simp add: get_bytes_def)
  then show ?case using Suc.IH [of "Suc k"] Suc.prems by simp
qed

end
