(* ===== verification/VmState.thy ===== *)
theory VmState
  imports Bitmap Bytes
begin

text \<open>
  The global state of the virtual memory simulator of \<^verbatim>\<open>Assignment3\<close> (\<^verbatim>\<open>sim.c\<close>, \<^verbatim>\<open>pagetable.c\<close>,
  \<^verbatim>\<open>swap.c\<close> and the five replacement algorithms): one record with the globals of all files.
  A pointer to a page table entry is the pair of its directory index and its index in the
  second-level table; a page directory entry is \<open>None\<close> while its valid bit is clear.  The two
  files \<^verbatim>\<open>clock.c\<close> and \<^verbatim>\<open>lru.c\<close> both define \<open>referenced\<close>, which the linker merges.
\<close>

unbundle bit_operations_syntax

abbreviation (input) PAGE_SHIFT :: nat where "PAGE_SHIFT \<equiv> 12"
abbreviation (input) PGDIR_SHIFT :: nat where "PGDIR_SHIFT \<equiv> 24"
abbreviation (input) PTRS_PER_PGDIR :: nat where "PTRS_PER_PGDIR \<equiv> 4096"
abbreviation (input) PTRS_PER_PGTBL :: nat where "PTRS_PER_PGTBL \<equiv> 4096"
abbreviation (input) SIMPAGESIZE :: nat where "SIMPAGESIZE \<equiv> 16"

abbreviation (input) PG_VALID :: "32 word" where "PG_VALID \<equiv> 1"
abbreviation (input) PG_DIRTY :: "32 word" where "PG_DIRTY \<equiv> 2"
abbreviation (input) PG_REF :: "32 word" where "PG_REF \<equiv> 4"
abbreviation (input) PG_ONSWAP :: "32 word" where "PG_ONSWAP \<equiv> 8"
abbreviation (input) INVALID_SWAP :: int where "INVALID_SWAP \<equiv> - 1"

type_synonym addr_t = "64 word"
type_synonym pte_ptr = "nat \<times> nat"

record pgtbl_entry =
  pframe :: "32 word"
  swap_off :: int

record frame =
  in_use :: bool
  fpte :: "pte_ptr option"
  placeholder :: int
  ceiling :: int

text \<open>A node of the LRU queue; addresses are natural numbers and NULL is \<open>None\<close>.\<close>

record lru_node =
  node_frame :: nat
  next_node :: "nat option"

text \<open>
  The lines \<open>print_pagedirectory\<close> and \<open>print_pagetbl\<close> print: a run of invalid entries, or one entry
  with what is said of it.
\<close>

datatype 'a report_line = Invalid_run nat nat | Line nat 'a

datatype pte_status = Valid_in nat bool | On_swap int

record sim =
  memsize :: nat
  coremap :: "frame list"
  physmem :: memory
  pgdir :: "nat \<Rightarrow> (nat \<Rightarrow> pgtbl_entry) option"
  pagetables_left :: nat
  hit_count :: int
  miss_count :: int
  ref_count :: int
  evict_clean_count :: int
  evict_dirty_count :: int
  err_msgs :: nat
  swapmap :: bitmap
  swapfile :: "byte list"
  swap_open :: bool
  head_of_fifo :: nat
  clockhand :: nat
  referenced :: "bool list"
  lru_heap :: "nat \<Rightarrow> lru_node option"
  lru_brk :: nat
  head_of_lru :: "nat option"
  tail_of_lru :: "nat option"
  random_seq :: "nat \<Rightarrow> nat"
  report :: "pte_status report_line list report_line list"

text \<open>
  \<open>pagetables_left\<close> is the number of second-level tables \<open>posix_memalign\<close> can still deliver;
  \<open>swap_open\<close> says whether the temporary file is open, \<open>report\<close> is the page directory as printed;
  the hit, miss, reference and eviction counters are \<open>int\<close> in C and unbounded here, which is the same
  for fewer than \<open>2 ^ 31\<close> accesses;
  \<open>err_msgs\<close> counts the messages \<open>access_mem\<close> prints on stderr;
  \<open>random_seq\<close> holds the values \<open>random()\<close> returns from here on; \<open>lru_brk\<close> is the address
  \<open>malloc\<close> gives to the next queue node (freed addresses are not used again, so that a dangling
  pointer faults).
\<close>

text \<open>The globals once the arrays for \<open>m\<close> frames are allocated: \<open>calloc\<close> clears the coremap.\<close>

definition free_frame :: frame where
  "free_frame = \<lparr>in_use = False, fpte = None, placeholder = 0, ceiling = 0\<rparr>"

definition sim_globals :: "nat \<Rightarrow> memory \<Rightarrow> nat \<Rightarrow> (nat \<Rightarrow> nat) \<Rightarrow> sim" where
  "sim_globals m ph tables rnd = \<lparr>memsize = m, coremap = replicate m free_frame, physmem = ph,
     pgdir = (\<lambda>_. None), pagetables_left = tables, hit_count = 0, miss_count = 0, ref_count = 0,
     evict_clean_count = 0, evict_dirty_count = 0, err_msgs = 0, swapmap = \<lparr>nbits = 0, vec = []\<rparr>, swapfile = [], swap_open = False,
     head_of_fifo = 0, clockhand = 0, referenced = [], lru_heap = (\<lambda>_. None), lru_brk = 0,
     head_of_lru = None, tail_of_lru = None, random_seq = rnd, report = []\<rparr>"

section \<open>Page tables\<close>

definition PGDIR_INDEX :: "addr_t \<Rightarrow> nat" where
  "PGDIR_INDEX x = unat (drop_bit PGDIR_SHIFT x) mod 2 ^ 32"

definition PGTBL_INDEX :: "addr_t \<Rightarrow> nat" where
  "PGTBL_INDEX x = unat (drop_bit PAGE_SHIFT x AND 4095)"

definition vpage :: "addr_t \<Rightarrow> pte_ptr" where
  "vpage x = (PGDIR_INDEX x, PGTBL_INDEX x)"

text \<open>Reading and writing through a pointer to a page table entry; a dangling one faults.\<close>

definition entry_at :: "sim \<Rightarrow> pte_ptr \<Rightarrow> pgtbl_entry option" where
  "entry_at s p = (case pgdir s (fst p) of None \<Rightarrow> None
     | Some tbl \<Rightarrow> if snd p < PTRS_PER_PGTBL then Some (tbl (snd p)) else None)"

definition pte_read :: "pte_ptr \<Rightarrow> (sim, pgtbl_entry) prog" where
  "pte_read p = bnd (peek (\<lambda>s. entry_at s p)) (\<lambda>e. case e of None \<Rightarrow> faultp | Some e \<Rightarrow> ret e)"

definition set_entry :: "pte_ptr \<Rightarrow> pgtbl_entry \<Rightarrow> sim \<Rightarrow> sim" where
  "set_entry p e s = s\<lparr>pgdir := (pgdir s)(fst p := map_option (\<lambda>tbl. tbl(snd p := e)) (pgdir s (fst p)))\<rparr>"

definition pte_upd :: "pte_ptr \<Rightarrow> (pgtbl_entry \<Rightarrow> pgtbl_entry) \<Rightarrow> (sim, unit) prog" where
  "pte_upd p g = bnd (pte_read p) (\<lambda>e. upd (set_entry p (g e)))"

definition frame_read :: "nat \<Rightarrow> (sim, frame) prog" where
  "frame_read i = bnd (peek coremap) (\<lambda>cm. thn (need (i < length cm)) (ret (cm ! i)))"

definition frame_upd :: "nat \<Rightarrow> (frame \<Rightarrow> frame) \<Rightarrow> (sim, unit) prog" where
  "frame_upd i g = bnd (frame_read i) (\<lambda>fr. upd (\<lambda>s. s\<lparr>coremap := (coremap s)[i := g fr]\<rparr>))"

definition frame_of :: "pgtbl_entry \<Rightarrow> nat" where
  "frame_of e = unat (drop_bit PAGE_SHIFT (pframe e))"

lemma entry_at_set [simp]:
  "entry_at s p = Some e0 \<Longrightarrow> entry_at (set_entry p e s) q = (if q = p then Some e else entry_at s q)"
  by (cases p; cases q) (auto simp: entry_at_def set_entry_def split: option.splits if_splits)

lemma set_entry_frame [simp]:
  "memsize (set_entry p e s) = memsize s" "coremap (set_entry p e s) = coremap s"
  "physmem (set_entry p e s) = physmem s" "swapmap (set_entry p e s) = swapmap s"
  "swapfile (set_entry p e s) = swapfile s" "pagetables_left (set_entry p e s) = pagetables_left s"
  "hit_count (set_entry p e s) = hit_count s" "miss_count (set_entry p e s) = miss_count s"
  "ref_count (set_entry p e s) = ref_count s" "evict_clean_count (set_entry p e s) = evict_clean_count s"
  "evict_dirty_count (set_entry p e s) = evict_dirty_count s" "err_msgs (set_entry p e s) = err_msgs s"
  by (simp_all add: set_entry_def)

lemma set_entry_policy [simp]:
  "head_of_fifo (set_entry p e s) = head_of_fifo s" "clockhand (set_entry p e s) = clockhand s"
  "referenced (set_entry p e s) = referenced s" "lru_heap (set_entry p e s) = lru_heap s"
  "head_of_lru (set_entry p e s) = head_of_lru s" "tail_of_lru (set_entry p e s) = tail_of_lru s"
  "random_seq (set_entry p e s) = random_seq s" "lru_brk (set_entry p e s) = lru_brk s"
  by (simp_all add: set_entry_def)

lemma entry_at_upd [simp]:
  "entry_at (s\<lparr>memsize := m\<rparr>) = entry_at s" "entry_at (s\<lparr>coremap := cm\<rparr>) = entry_at s"
  "entry_at (s\<lparr>physmem := ph\<rparr>) = entry_at s" "entry_at (s\<lparr>pagetables_left := n\<rparr>) = entry_at s"
  "entry_at (s\<lparr>hit_count := c\<rparr>) = entry_at s" "entry_at (s\<lparr>miss_count := c\<rparr>) = entry_at s"
  "entry_at (s\<lparr>ref_count := c\<rparr>) = entry_at s" "entry_at (s\<lparr>evict_clean_count := c\<rparr>) = entry_at s"
  "entry_at (s\<lparr>evict_dirty_count := c\<rparr>) = entry_at s" "entry_at (s\<lparr>err_msgs := n\<rparr>) = entry_at s"
  "entry_at (s\<lparr>swapmap := b\<rparr>) = entry_at s" "entry_at (s\<lparr>swapfile := f\<rparr>) = entry_at s"
  "entry_at (s\<lparr>swap_open := o1\<rparr>) = entry_at s" "entry_at (s\<lparr>report := r\<rparr>) = entry_at s"
  by (auto simp: entry_at_def fun_eq_iff)

lemma pte_read_run [prog]:
  "entry_at s p = Some e \<Longrightarrow> pte_read p s = (Ok e, s)"
  by (simp add: pte_read_def prog)

lemma bnd_pte_read [prog]: "entry_at s p = Some e \<Longrightarrow> bnd (pte_read p) f s = f e s"
  by (simp add: bnd_run pte_read_run)

lemma pte_upd_run [prog]:
  "entry_at s p = Some e \<Longrightarrow> pte_upd p g s = (Ok (), set_entry p (g e) s)"
  by (simp add: pte_upd_def prog)

lemma bnd_pte_upd [prog]: "entry_at s p = Some e \<Longrightarrow> bnd (pte_upd p g) f s = f () (set_entry p (g e) s)"
  by (simp add: bnd_run pte_upd_run)

lemma frame_read_run [prog]: "i < length (coremap s) \<Longrightarrow> frame_read i s = (Ok (coremap s ! i), s)"
  by (simp add: frame_read_def prog)

lemma bnd_frame_read [prog]: "i < length (coremap s) \<Longrightarrow> bnd (frame_read i) f s = f (coremap s ! i) s"
  by (simp add: bnd_run frame_read_run)

lemma frame_upd_run [prog]: "i < length (coremap s) \<Longrightarrow>
    frame_upd i g s = (Ok (), s\<lparr>coremap := (coremap s)[i := g (coremap s ! i)]\<rparr>)"
  by (simp add: frame_upd_def prog)

lemma bnd_frame_upd [prog]: "i < length (coremap s) \<Longrightarrow>
    bnd (frame_upd i g) f s = f () (s\<lparr>coremap := (coremap s)[i := g (coremap s ! i)]\<rparr>)"
  by (simp add: bnd_run frame_upd_run)

section \<open>What a replacement algorithm may and may not touch\<close>

definition core_frame :: "frame \<Rightarrow> bool \<times> pte_ptr option" where
  "core_frame fr = (in_use fr, fpte fr)"

text \<open>Equal but for the state of the replacement algorithms.\<close>

definition same_core :: "sim \<Rightarrow> sim \<Rightarrow> bool" where
  "same_core s t \<longleftrightarrow> memsize t = memsize s \<and> map core_frame (coremap t) = map core_frame (coremap s) \<and>
     physmem t = physmem s \<and> pgdir t = pgdir s \<and> pagetables_left t = pagetables_left s \<and>
     hit_count t = hit_count s \<and> miss_count t = miss_count s \<and> ref_count t = ref_count s \<and>
     evict_clean_count t = evict_clean_count s \<and> evict_dirty_count t = evict_dirty_count s \<and>
     err_msgs t = err_msgs s \<and>
     swapmap t = swapmap s \<and> swapfile t = swapfile s"

text \<open>Equal in the state of the replacement algorithms (the coremap fields of OPT apart).\<close>

definition same_policy :: "sim \<Rightarrow> sim \<Rightarrow> bool" where
  "same_policy s t \<longleftrightarrow> memsize t = memsize s \<and> head_of_fifo t = head_of_fifo s \<and> clockhand t = clockhand s \<and>
     referenced t = referenced s \<and> lru_heap t = lru_heap s \<and> lru_brk t = lru_brk s \<and> head_of_lru t = head_of_lru s \<and>
     tail_of_lru t = tail_of_lru s \<and> random_seq t = random_seq s"

lemma same_core_refl [simp]: "same_core s s"
  by (simp add: same_core_def)

lemma same_policy_refl [simp]: "same_policy s s"
  by (simp add: same_policy_def)

lemma same_core_entry: "same_core s t \<Longrightarrow> entry_at t p = entry_at s p"
  by (simp add: same_core_def entry_at_def)

lemma same_core_frame:
  assumes "same_core s t"
  shows "length (coremap t) = length (coremap s)"
    and "i < length (coremap s) \<Longrightarrow> in_use (coremap t ! i) = in_use (coremap s ! i)"
    and "i < length (coremap s) \<Longrightarrow> fpte (coremap t ! i) = fpte (coremap s ! i)"
proof -
  have eq: "map core_frame (coremap t) = map core_frame (coremap s)"
    using assms by (simp add: same_core_def)
  show len: "length (coremap t) = length (coremap s)"
    using arg_cong [OF eq, of length] by simp
  show "i < length (coremap s) \<Longrightarrow> in_use (coremap t ! i) = in_use (coremap s ! i)"
    "i < length (coremap s) \<Longrightarrow> fpte (coremap t ! i) = fpte (coremap s ! i)"
    using arg_cong [OF eq, of "\<lambda>xs. xs ! i"] len by (simp_all add: core_frame_def)
qed

end
