(* ===== verification/Swap.thy ===== *)
theory Swap
  imports VmState
begin

text \<open>
  The swap file of \<^verbatim>\<open>Assignment3/swap.c\<close>: page-sized slots handed out by the bitmap, pages copied
  between simulated physical memory and the file.  The file is a regular file as POSIX describes
  it: a seek to a negative position fails, a read past the end is short, a write past the end
  extends the file with zeros.  A failed assert or an access outside \<open>physmem\<close> is a fault.
\<close>

text \<open>Conversion of an unsigned value to \<open>int\<close>, and of \<open>off_t\<close> to \<open>int\<close>: two's complement.\<close>

definition to_int32 :: "int \<Rightarrow> int" where
  "to_int32 x = signed_take_bit 31 x"

abbreviation (input) EINVAL_OS :: int where "EINVAL_OS \<equiv> 22"

definition file_read :: "nat \<Rightarrow> nat \<Rightarrow> byte list \<Rightarrow> byte list" where
  "file_read pos n f = take n (drop pos f)"

definition file_write :: "nat \<Rightarrow> byte list \<Rightarrow> byte list \<Rightarrow> byte list" where
  "file_write pos bs f = (let f' = f @ replicate (pos - length f) 0
     in take pos f' @ bs @ drop (pos + length bs) f')"

text \<open>\<open>&physmem[frame * SIMPAGESIZE]\<close>, the product and the size of the array taken in unsigned arithmetic.\<close>

definition frame_addr :: "nat \<Rightarrow> (sim, nat) prog" where
  "frame_addr frame = bnd (peek memsize) (\<lambda>m.
     let a = frame * SIMPAGESIZE mod 2 ^ 32
     in thn (need (a + SIMPAGESIZE \<le> m * SIMPAGESIZE mod 2 ^ 32)) (ret a))"

definition swap_init :: "nat \<Rightarrow> (sim, int) prog" where
  "swap_init swapsize = (case bitmap_create swapsize of
      Ok b \<Rightarrow> thn (upd (\<lambda>s. s\<lparr>swapmap := b, swapfile := [], swap_open := True\<rparr>)) (ret 0)
    | _ \<Rightarrow> faultp)"

text \<open>The file is closed and unlinked, the bitmap freed; none of them is used afterwards.\<close>

definition swap_destroy :: "(sim, unit) prog" where
  "swap_destroy = upd (\<lambda>s. s\<lparr>swap_open := False\<rparr>)"

definition swap_pagein :: "nat \<Rightarrow> int \<Rightarrow> (sim, int) prog" where
  "swap_pagein frame swap_offset =
     thn (need (swap_offset \<noteq> INVALID_SWAP))
    (bnd (frame_addr frame) (\<lambda>a.
     if swap_offset < 0 then ret (- EINVAL_OS)
     else bnd (peek swapfile) (\<lambda>f. let bs = file_read (nat swap_offset) SIMPAGESIZE f in
       thn (upd (\<lambda>s. s\<lparr>physmem := put_bytes a bs (physmem s)\<rparr>))
           (if length bs \<noteq> SIMPAGESIZE then ret (int (length bs)) else ret 0))))"

text \<open>The bitmap is a component of the state: \<open>bitmap_alloc\<close> runs on it.\<close>

definition swapmap_alloc :: "(sim, nat option) prog" where
  "swapmap_alloc s = (case bitmap_alloc (swapmap s) of
      (Ok r, b) \<Rightarrow> (Ok r, s\<lparr>swapmap := b\<rparr>) | (Exit c, b) \<Rightarrow> (Exit c, s\<lparr>swapmap := b\<rparr>)
    | (Fault, b) \<Rightarrow> (Fault, s\<lparr>swapmap := b\<rparr>) | (Diverge, b) \<Rightarrow> (Diverge, s\<lparr>swapmap := b\<rparr>))"

definition swap_write :: "nat \<Rightarrow> int \<Rightarrow> (sim, int) prog" where
  "swap_write frame swap_offset =
     thn (need (swap_offset \<noteq> INVALID_SWAP))
    (bnd (frame_addr frame) (\<lambda>a.
     if swap_offset < 0 then ret INVALID_SWAP
     else thn (upd (\<lambda>s. s\<lparr>swapfile :=
            file_write (nat swap_offset) (get_bytes (physmem s) a SIMPAGESIZE) (swapfile s)\<rparr>))
         (ret swap_offset)))"

definition swap_pageout :: "nat \<Rightarrow> int \<Rightarrow> (sim, int) prog" where
  "swap_pageout frame swap_offset =
     (if swap_offset = INVALID_SWAP then
        bnd swapmap_alloc (\<lambda>r. case r of
            None \<Rightarrow> ret INVALID_SWAP
          | Some idx \<Rightarrow> swap_write frame (to_int32 (int (idx * SIMPAGESIZE))))
      else swap_write frame swap_offset)"

section \<open>Slots of the swap file\<close>

text \<open>A slot offset is a multiple of the page size that fits \<open>int\<close>.\<close>

definition slot_off :: "nat \<Rightarrow> int" where
  "slot_off i = int (i * SIMPAGESIZE)"

lemma to_int32_id: "- (2 ^ 31) \<le> x \<Longrightarrow> x < 2 ^ 31 \<Longrightarrow> to_int32 x = x"
  by (simp add: to_int32_def signed_take_bit_int_eq_self)

lemma slot_off_valid [simp]: "slot_off i \<noteq> -1" "\<not> slot_off i < 0" "nat (slot_off i) = i * 16"
  by (auto simp: slot_off_def)

lemma slot_off_int32: "i < 2 ^ 27 \<Longrightarrow> to_int32 (slot_off i) = slot_off i"
  by (rule to_int32_id) (auto simp: slot_off_def)

lemma frame_addr_run [prog]:
  "frame < memsize s \<Longrightarrow> memsize s \<le> 2 ^ 20 \<Longrightarrow> frame_addr frame s = (Ok (frame * 16), s)"
  by (simp add: frame_addr_def prog Let_def)

lemma bnd_frame_addr [prog]:
  "frame < memsize s \<Longrightarrow> memsize s \<le> 2 ^ 20 \<Longrightarrow> bnd (frame_addr frame) f s = f (frame * 16) s"
  by (simp add: bnd_run frame_addr_run)

lemma length_file_write: "length (file_write pos bs f) = max (length f) (pos + length bs)"
  by (auto simp: file_write_def Let_def)

lemma file_write_nth:
  "i < length (file_write pos bs f) \<Longrightarrow> file_write pos bs f ! i =
     (if pos \<le> i \<and> i < pos + length bs then bs ! (i - pos) else if i < length f then f ! i else 0)"
  by (auto simp: file_write_def Let_def nth_append min_def length_file_write)

definition file_page :: "byte list \<Rightarrow> nat \<Rightarrow> byte list" where
  "file_page f i = file_read (i * 16) 16 f"

lemma file_page_write:
  assumes "length bs = 16" "i = j \<or> (i + 1) * 16 \<le> length f"
  shows "file_page (file_write (j * 16) bs f) i = (if i = j then bs else file_page f i)"
proof (rule nth_equalityI)
  have len: "(i + 1) * 16 \<le> length (file_write (j * 16) bs f)"
    using assms by (auto simp: length_file_write)
  then show "length (file_page (file_write (j * 16) bs f) i) = length (if i = j then bs else file_page f i)"
    using assms by (auto simp: file_page_def file_read_def)
  fix k assume "k < length (file_page (file_write (j * 16) bs f) i)"
  then have k: "k < 16" by (simp add: file_page_def file_read_def)
  have "i = j \<longleftrightarrow> j * 16 \<le> i * 16 + k \<and> i * 16 + k < j * 16 + 16"
    using k by linarith
  with k len assms show "file_page (file_write (j * 16) bs f) i ! k = (if i = j then bs else file_page f i) ! k"
    by (auto simp: file_page_def file_read_def file_write_nth)
qed

lemma swap_pagein_run:
  assumes "frame < memsize s" "memsize s \<le> 2 ^ 20" "(i + 1) * 16 \<le> length (swapfile s)"
  shows "swap_pagein frame (slot_off i) s =
    (Ok 0, s\<lparr>physmem := put_bytes (frame * 16) (file_page (swapfile s) i) (physmem s)\<rparr>)"
  using assms by (simp add: swap_pagein_def prog Let_def file_page_def file_read_def)

lemma swap_write_run:
  assumes "frame < memsize s" "memsize s \<le> 2 ^ 20"
  shows "swap_write frame (slot_off i) s = (Ok (slot_off i), s\<lparr>swapfile :=
     file_write (i * 16) (get_bytes (physmem s) (frame * 16) 16) (swapfile s)\<rparr>)"
  using assms by (simp add: swap_write_def prog)

lemma swap_pageout_old:
  assumes "frame < memsize s" "memsize s \<le> 2 ^ 20"
  shows "swap_pageout frame (slot_off i) s = (Ok (slot_off i), s\<lparr>swapfile :=
     file_write (i * 16) (get_bytes (physmem s) (frame * 16) 16) (swapfile s)\<rparr>)"
  using assms by (simp add: swap_pageout_def swap_write_run)

lemma swap_pageout_new:
  assumes "frame < memsize s" "memsize s \<le> 2 ^ 20" "bitmap_ok (swapmap s)" "nbits (swapmap s) \<le> 2 ^ 27"
  shows "swap_pageout frame (- 1) s = (case bitmap_take (swapmap s) of
      None \<Rightarrow> (Ok (- 1), s)
    | Some (i, b) \<Rightarrow> (Ok (slot_off i), s\<lparr>swapmap := b, swapfile :=
        file_write (i * 16) (get_bytes (physmem s) (frame * 16) 16) (swapfile s)\<rparr>))"
proof (cases "bitmap_take (swapmap s)")
  case None
  then have "bitmap_alloc (swapmap s) = (Ok None, swapmap s)"
    using bitmap_alloc_run [OF assms(3)] by (auto simp: bitmap_take_def)
  then show ?thesis using None by (simp add: swap_pageout_def bnd_def swapmap_alloc_def prog)
next
  case (Some r)
  then obtain i b where ib: "bitmap_take (swapmap s) = Some (i, b)" by (cases r) auto
  note facts = bitmap_take_Some [OF assms(3) ib]
  have "to_int32 (int (i * 16)) = slot_off i"
    using slot_off_int32 [of i] facts(3) assms(4) by (simp add: slot_off_def)
  then show ?thesis
    using ib facts(1) swap_write_run [of frame "s\<lparr>swapmap := b\<rparr>" i] assms(1,2)
    by (simp add: swap_pageout_def bnd_def swapmap_alloc_def)
qed

end
