(* ===== verification/Replacement.thy ===== *)
theory Replacement
  imports VmState
begin

text \<open>
  The interface between the page table code and a replacement algorithm: \<open>struct functions\<close> of
  \<^verbatim>\<open>Assignment3/sim.h\<close>, and the contract \<open>find_physpage\<close> relies on.  The contract's predicate
  \<open>pinv F\<close> is the algorithm's own invariant when exactly the frames of \<open>F\<close> have been referenced
  since they were last evicted.
\<close>

record algorithm =
  alg_name :: string
  init_fcn :: "(sim, unit) prog"
  ref_fcn :: "pte_ptr \<Rightarrow> (sim, unit) prog"
  evict_fcn :: "(sim, nat) prog"

definition frames_ok :: "sim \<Rightarrow> bool" where
  "frames_ok s \<longleftrightarrow> length (coremap s) = memsize s \<and>
     (\<forall>i < memsize s. in_use (coremap s ! i) \<longrightarrow>
        (\<exists>p e. fpte (coremap s ! i) = Some p \<and> entry_at s p = Some e))"

definition all_in_use :: "sim \<Rightarrow> bool" where
  "all_in_use s \<longleftrightarrow> (\<forall>i < memsize s. in_use (coremap s ! i))"

locale replacement =
  fixes A :: algorithm
    and pinv :: "nat set \<Rightarrow> sim \<Rightarrow> bool"
  assumes init_run: "length (coremap s) = memsize s \<Longrightarrow> 0 < memsize s \<Longrightarrow>
      \<exists>t. init_fcn A s = (Ok (), t) \<and> same_core s t \<and> pinv {} t"
    and evict_run: "frames_ok s \<Longrightarrow> all_in_use s \<Longrightarrow> 0 < memsize s \<Longrightarrow> pinv {..<memsize s} s \<Longrightarrow>
      \<exists>f t. evict_fcn A s = (Ok f, t) \<and> f < memsize s \<and> same_core s t \<and> pinv ({..<memsize s} - {f}) t"
    and ref_run: "length (coremap s) = memsize s \<Longrightarrow> entry_at s p = Some e \<Longrightarrow> frame_of e < memsize s \<Longrightarrow>
      pinv F s \<Longrightarrow> \<exists>t. ref_fcn A p s = (Ok (), t) \<and> same_core s t \<and> pinv (insert (frame_of e) F) t"
    and pinv_policy: "same_policy s t \<Longrightarrow> pinv F s \<Longrightarrow> pinv F t"

text \<open>A state in which three frames hold the first three pages, for concrete runs.\<close>

definition mapped_demo :: sim where
  "mapped_demo = (sim_globals 3 (\<lambda>_. 0) 0 id)\<lparr>pgdir := (\<lambda>_. None)
     (0 \<mapsto> (\<lambda>j. \<lparr>pframe = [0x00D, 0x100D, 0x200D] ! j, swap_off = -1\<rparr>)),
     coremap := map (\<lambda>j. \<lparr>in_use = True, fpte = Some (0, j), placeholder = 0, ceiling = 1\<rparr>) [0, 1, 2]\<rparr>"

lemma mapped_demo_frames:
  "entry_at mapped_demo (0, 0) = Some \<lparr>pframe = 0x00D, swap_off = -1\<rparr>"
  "entry_at mapped_demo (0, 1) = Some \<lparr>pframe = 0x100D, swap_off = -1\<rparr>"
  "entry_at mapped_demo (0, 2) = Some \<lparr>pframe = 0x200D, swap_off = -1\<rparr>"
  "frame_of \<lparr>pframe = 0x00D, swap_off = -1\<rparr> = 0"
  "frame_of \<lparr>pframe = 0x100D, swap_off = -1\<rparr> = 1"
  "frame_of \<lparr>pframe = 0x200D, swap_off = -1\<rparr> = 2"
  by (simp_all add: entry_at_def mapped_demo_def frame_of_def drop_bit_eq_div)

lemma mapped_demo_size: "memsize mapped_demo = 3"
  by (simp add: mapped_demo_def sim_globals_def)

end
