(* ===== verification/PageTable.thy ===== *)
theory PageTable
  imports Swap Replacement
begin

text \<open>
  \<^verbatim>\<open>Assignment3/pagetable.c\<close>: frame allocation with eviction to swap, the two-level page table and
  the translation of a reference.  The replacement algorithm is the record the simulator selected;
  the proofs use its contract only, so they hold for every instance of the locale \<open>replacement\<close>.
\<close>

unbundle bit_operations_syntax

section \<open>The status bits of an entry\<close>

definition has_flag :: "32 word \<Rightarrow> pgtbl_entry \<Rightarrow> bool" where
  "has_flag fl e \<longleftrightarrow> pframe e AND fl \<noteq> 0"

definition set_flag :: "32 word \<Rightarrow> pgtbl_entry \<Rightarrow> pgtbl_entry" where
  "set_flag fl e = e\<lparr>pframe := pframe e OR fl\<rparr>"

definition clear_flag :: "32 word \<Rightarrow> pgtbl_entry \<Rightarrow> pgtbl_entry" where
  "clear_flag fl e = e\<lparr>pframe := pframe e AND NOT fl\<rparr>"

definition place_in :: "nat \<Rightarrow> pgtbl_entry \<Rightarrow> pgtbl_entry" where
  "place_in frame e = e\<lparr>pframe := push_bit PAGE_SHIFT (of_nat frame)\<rparr>"

section \<open>The code\<close>

text \<open>The search for a free frame, then the eviction.\<close>

definition free_frame_search :: "(sim, nat option) prog" where
  "free_frame_search = bnd (peek (\<lambda>s. (memsize s, coremap s))) (\<lambda>(m, cm).
     thn (need (m \<le> length cm)) (ret (find (\<lambda>i. \<not> in_use (cm ! i)) [0..<m])))"

definition evict_frame :: "nat \<Rightarrow> (sim, nat) prog" where
  "evict_frame frame = bnd (frame_read frame) (\<lambda>fr.
     case fpte fr of None \<Rightarrow> faultp | Some victim \<Rightarrow>
     bnd (pte_read victim) (\<lambda>v.
     thn (if \<not> has_flag PG_DIRTY v then upd (\<lambda>s. s\<lparr>evict_clean_count := evict_clean_count s + 1\<rparr>)
          else thn (pte_upd victim (set_flag PG_ONSWAP))
                   (upd (\<lambda>s. s\<lparr>evict_dirty_count := evict_dirty_count s + 1\<rparr>)))
    (bnd (pte_read victim) (\<lambda>v'.
     bnd (swap_pageout frame (to_int32 (swap_off v'))) (\<lambda>swap_off_number.
     thn (if swap_off_number \<noteq> -1 then pte_upd victim (\<lambda>v. v\<lparr>swap_off := swap_off_number\<rparr>) else exitp 1)
    (thn (pte_upd victim (clear_flag PG_VALID))
    (thn (pte_upd victim (clear_flag PG_DIRTY))
         (ret frame))))))))"

definition allocate_frame :: "algorithm \<Rightarrow> pte_ptr \<Rightarrow> (sim, nat) prog" where
  "allocate_frame A p = bnd free_frame_search (\<lambda>free.
     bnd (case free of Some i \<Rightarrow> ret i | None \<Rightarrow> bnd (evict_fcn A) evict_frame) (\<lambda>frame.
     thn (frame_upd frame (\<lambda>f. f\<lparr>in_use := True\<rparr>))
    (thn (frame_upd frame (\<lambda>f. f\<lparr>fpte := Some p\<rparr>))
         (ret frame))))"

definition init_pagetable :: "(sim, unit) prog" where
  "init_pagetable = upd (\<lambda>s. s\<lparr>pgdir := (\<lambda>_. None)\<rparr>)"

definition init_second_level :: "(sim, nat \<Rightarrow> pgtbl_entry) prog" where
  "init_second_level = bnd (peek pagetables_left) (\<lambda>n.
     if n = 0 then exitp 1
     else thn (upd (\<lambda>s. s\<lparr>pagetables_left := n - 1\<rparr>))
              (ret (\<lambda>_. \<lparr>pframe = 0, swap_off = INVALID_SWAP\<rparr>)))"

definition init_frame :: "nat \<Rightarrow> addr_t \<Rightarrow> (sim, unit) prog" where
  "init_frame frame vaddr = bnd (frame_addr frame) (\<lambda>mem_ptr.
     upd (\<lambda>s. s\<lparr>physmem := put_le 8 (mem_ptr + 4) vaddr
                 (put_bytes mem_ptr (replicate SIMPAGESIZE 0) (physmem s))\<rparr>))"

definition find_pte :: "addr_t \<Rightarrow> (sim, pte_ptr) prog" where
  "find_pte vaddr = (let idx = PGDIR_INDEX vaddr in
     thn (need (idx < PTRS_PER_PGDIR))
    (bnd (peek (\<lambda>s. pgdir s idx)) (\<lambda>entry.
     thn (if entry = None then bnd init_second_level (\<lambda>tbl. upd (\<lambda>s. s\<lparr>pgdir := (pgdir s)(idx \<mapsto> tbl)\<rparr>))
          else ret ())
         (ret (idx, PGTBL_INDEX vaddr)))))"

definition page_fault :: "algorithm \<Rightarrow> addr_t \<Rightarrow> pte_ptr \<Rightarrow> (sim, unit) prog" where
  "page_fault A vaddr p = bnd (pte_read p) (\<lambda>e.
     thn (if has_flag PG_ONSWAP e then
            bnd (allocate_frame A p) (\<lambda>frame.
            bnd (pte_read p) (\<lambda>e.
            bnd (swap_pagein frame (to_int32 (swap_off e))) (\<lambda>swap_in_page.
            thn (if swap_in_page \<noteq> 0 then exitp 1 else ret ())
           (thn (pte_upd p (place_in frame))
           (thn (pte_upd p (set_flag PG_ONSWAP))
                (pte_upd p (clear_flag PG_DIRTY)))))))
          else
            bnd (allocate_frame A p) (\<lambda>frame.
            thn (init_frame frame vaddr)
           (thn (pte_upd p (place_in frame))
           (thn (pte_upd p (set_flag PG_DIRTY))
                (pte_upd p (set_flag PG_ONSWAP))))))
         (upd (\<lambda>s. s\<lparr>miss_count := miss_count s + 1\<rparr>)))"

text \<open>The common end of a hit and a miss.\<close>

definition reference_page :: "algorithm \<Rightarrow> pte_ptr \<Rightarrow> char \<Rightarrow> (sim, nat) prog" where
  "reference_page A p type =
     thn (pte_upd p (set_flag PG_VALID))
    (thn (pte_upd p (set_flag PG_REF))
    (thn (upd (\<lambda>s. s\<lparr>ref_count := ref_count s + 1\<rparr>))
    (thn (if type = CHR ''M'' \<or> type = CHR ''S'' then pte_upd p (set_flag PG_DIRTY) else ret ())
    (thn (ref_fcn A p)
    (bnd (pte_read p) (\<lambda>e. frame_addr (frame_of e)))))))"

definition find_physpage :: "algorithm \<Rightarrow> addr_t \<Rightarrow> char \<Rightarrow> (sim, nat) prog" where
  "find_physpage A vaddr type = bnd (find_pte vaddr) (\<lambda>p.
     bnd (pte_read p) (\<lambda>e.
     thn (if has_flag PG_VALID e then upd (\<lambda>s. s\<lparr>hit_count := hit_count s + 1\<rparr>)
          else page_fault A vaddr p)
         (reference_page A p type)))"

section \<open>Reading the status bits\<close>

abbreviation is_valid :: "pgtbl_entry \<Rightarrow> bool" where "is_valid e \<equiv> bit (pframe e) 0"
abbreviation is_dirty :: "pgtbl_entry \<Rightarrow> bool" where "is_dirty e \<equiv> bit (pframe e) 1"
abbreviation on_swap :: "pgtbl_entry \<Rightarrow> bool" where "on_swap e \<equiv> bit (pframe e) 3"

lemma and_power_zero: "w AND 2 ^ n = (0 :: 32 word) \<longleftrightarrow> (n < 32 \<longrightarrow> \<not> bit w n)"
  by (auto simp: bit_eq_iff [where ?'a = "32 word"] bit_simps)

lemma has_flag_bits [simp]:
  "has_flag 1 e \<longleftrightarrow> is_valid e" "has_flag 2 e \<longleftrightarrow> is_dirty e" "has_flag 8 e \<longleftrightarrow> on_swap e"
  using and_power_zero [of "pframe e" 0] and_power_zero [of "pframe e" 1] and_power_zero [of "pframe e" 3]
  by (simp_all add: has_flag_def)

lemma set_flag_bits:
  "n < 32 \<Longrightarrow> bit (pframe (set_flag (2 ^ n) e)) i \<longleftrightarrow> i = n \<or> bit (pframe e) i"
  "bit (pframe (clear_flag (2 ^ n) e)) i \<longleftrightarrow> i \<noteq> n \<and> bit (pframe e) i"
  by (auto simp: set_flag_def clear_flag_def bit_simps dest: bit_imp_le_length)

lemmas set_flag_simps [simp] =
  set_flag_bits(1) [of 0, simplified] set_flag_bits(1) [of 1, simplified]
  set_flag_bits(1) [of 3, simplified]
  set_flag_bits(2) [of 0, simplified] set_flag_bits(2) [of 1, simplified]

lemma flag_swap_off [simp]:
  "swap_off (set_flag fl e) = swap_off e" "swap_off (clear_flag fl e) = swap_off e"
  "swap_off (place_in f e) = swap_off e"
  by (simp_all add: set_flag_def clear_flag_def place_in_def)

lemma frame_of_flag:
  assumes "n < 12"
  shows "frame_of (set_flag (2 ^ n) e) = frame_of e" "frame_of (clear_flag (2 ^ n) e) = frame_of e"
proof -
  have "drop_bit 12 (pframe (set_flag (2 ^ n) e)) = drop_bit 12 (pframe e)"
    "drop_bit 12 (pframe (clear_flag (2 ^ n) e)) = drop_bit 12 (pframe e)"
    using assms by (auto simp: bit_eq_iff [where ?'a = "32 word"] bit_drop_bit_eq set_flag_bits)
  then show "frame_of (set_flag (2 ^ n) e) = frame_of e" "frame_of (clear_flag (2 ^ n) e) = frame_of e"
    by (simp_all add: frame_of_def)
qed

lemmas frame_of_flags [simp] =
  frame_of_flag(1) [of 0, simplified] frame_of_flag(1) [of 1, simplified]
  frame_of_flag(1) [of 3, simplified]
  frame_of_flag(2) [of 0, simplified] frame_of_flag(2) [of 1, simplified]

lemma set_flag_ref [simp]:
  "bit (pframe (set_flag 4 e)) i \<longleftrightarrow> i = 2 \<or> bit (pframe e) i" "frame_of (set_flag 4 e) = frame_of e"
proof -
  have four: "(4 :: 32 word) = 2 ^ 2" by simp
  show "bit (pframe (set_flag 4 e)) i \<longleftrightarrow> i = 2 \<or> bit (pframe e) i"
    unfolding four by (rule set_flag_bits) simp
  show "frame_of (set_flag 4 e) = frame_of e"
    unfolding four by (rule frame_of_flag) simp
qed

lemma place_in_bits [simp]: "i < 12 \<Longrightarrow> \<not> bit (pframe (place_in f e)) i"
  by (simp add: place_in_def bit_simps)

lemma frame_of_place [simp]: "f < 2 ^ 20 \<Longrightarrow> frame_of (place_in f e) = f"
proof -
  assume f: "f < 2 ^ 20"
  have "unat (push_bit 12 (of_nat f) :: 32 word) = unat (of_nat (push_bit 12 f) :: 32 word)"
    by (simp only: push_bit_of_nat)
  also have "\<dots> = f * 2 ^ 12"
    using f by (subst unsigned_of_nat) (simp add: take_bit_nat_eq_self push_bit_eq_mult)
  also have "push_bit 12 (of_nat f) = pframe (place_in f e)" by (simp add: place_in_def)
  finally have "unat (pframe (place_in f e)) = f * 2 ^ 12" .
  then show ?thesis by (simp only: frame_of_def unat_drop_bit) simp
qed

end
