(* ===== verification/PageInv.thy ===== *)
theory PageInv
  imports PageTable
begin

text \<open>
  Correctness of the page table code for every replacement algorithm that keeps the contract: the
  invariant linking page table, coremap, swap file and counters; the contents of virtual pages,
  wherever they are; and what frame allocation and translation do to them.
\<close>

section \<open>The invariant\<close>

text \<open>An entry is either untouched or was given a page, whose home is a frame or a slot of the file.\<close>

definition slot_ok :: "sim \<Rightarrow> int \<Rightarrow> bool" where
  "slot_ok s off \<longleftrightarrow> (\<exists>i. off = slot_off i \<and> i < nbits (swapmap s) \<and> slot_used (swapmap s) i \<and>
     (i + 1) * 16 \<le> length (swapfile s))"

definition entry_ok :: "sim \<Rightarrow> pgtbl_entry \<Rightarrow> bool" where
  "entry_ok s e \<longleftrightarrow> (swap_off e = -1 \<or> slot_ok s (swap_off e)) \<and> (is_valid e \<longrightarrow> on_swap e) \<and>
     (on_swap e \<and> \<not> is_valid e \<longrightarrow> swap_off e \<noteq> -1) \<and> (\<not> on_swap e \<longrightarrow> swap_off e = -1)"

text \<open>
  \<open>taken X\<close> are frames handed to a page whose entry does not name them yet, which is the state
  between the allocation of a frame and the update of the entry.
\<close>

definition frames_inv :: "nat set \<Rightarrow> sim \<Rightarrow> bool" where
  "frames_inv X s \<longleftrightarrow>
     (\<forall>i < memsize s. in_use (coremap s ! i) \<and> i \<notin> X \<longrightarrow> (\<exists>p e. fpte (coremap s ! i) = Some p \<and>
        entry_at s p = Some e \<and> is_valid e \<and> frame_of e = i)) \<and>
     (\<forall>p e. entry_at s p = Some e \<and> is_valid e \<longrightarrow> frame_of e < memsize s \<and> frame_of e \<notin> X \<and>
        in_use (coremap s ! frame_of e) \<and> fpte (coremap s ! frame_of e) = Some p)"

definition slots_inv :: "sim \<Rightarrow> bool" where
  "slots_inv s \<longleftrightarrow> (\<forall>p e. entry_at s p = Some e \<longrightarrow> entry_ok s e) \<and>
     (\<forall>p q e e'. entry_at s p = Some e \<and> entry_at s q = Some e' \<and> swap_off e = swap_off e' \<and>
        swap_off e \<noteq> -1 \<longrightarrow> p = q) \<and>
     (\<forall>i < nbits (swapmap s). slot_used (swapmap s) i \<longrightarrow> (\<exists>p e. entry_at s p = Some e \<and> swap_off e = slot_off i))"

definition sizes_ok :: "sim \<Rightarrow> bool" where
  "sizes_ok s \<longleftrightarrow> length (coremap s) = memsize s \<and> 0 < memsize s \<and> memsize s \<le> 2 ^ 20 \<and>
     bitmap_ok (swapmap s) \<and> nbits (swapmap s) \<le> 2 ^ 27"

definition used_frames :: "sim \<Rightarrow> nat set" where
  "used_frames s = {i. i < memsize s \<and> in_use (coremap s ! i)}"

text \<open>Every reference is a hit or a miss; every miss brought a page into a frame that is in use or was evicted.\<close>

definition counters_ok :: "sim \<Rightarrow> bool" where
  "counters_ok s \<longleftrightarrow> hit_count s + miss_count s = ref_count s \<and>
     miss_count s = evict_clean_count s + evict_dirty_count s + int (card (used_frames s)) \<and>
     0 \<le> hit_count s \<and> 0 \<le> evict_clean_count s \<and> 0 \<le> evict_dirty_count s"

definition vm_inv :: "sim \<Rightarrow> bool" where
  "vm_inv s \<longleftrightarrow> sizes_ok s \<and> frames_inv {} s \<and> slots_inv s \<and> counters_ok s"

text \<open>The contents of a virtual page, wherever it is; \<open>None\<close> if it was never referenced.\<close>

definition page_bytes :: "sim \<Rightarrow> pte_ptr \<Rightarrow> byte list option" where
  "page_bytes s p = (case entry_at s p of None \<Rightarrow> None
     | Some e \<Rightarrow> if is_valid e then Some (get_bytes (physmem s) (frame_of e * 16) 16)
               else if on_swap e then Some (file_page (swapfile s) (nat (swap_off e) div 16)) else None)"

lemma page_bytes_simps:
  "entry_at s p = Some e \<Longrightarrow> is_valid e \<Longrightarrow> page_bytes s p = Some (get_bytes (physmem s) (frame_of e * 16) 16)"
  "entry_at s p = Some e \<Longrightarrow> \<not> is_valid e \<Longrightarrow> on_swap e \<Longrightarrow> swap_off e = slot_off i \<Longrightarrow>
     page_bytes s p = Some (file_page (swapfile s) i)"
  "entry_at s p = Some e \<Longrightarrow> \<not> is_valid e \<Longrightarrow> \<not> on_swap e \<Longrightarrow> page_bytes s p = None"
  "entry_at s p = None \<Longrightarrow> page_bytes s p = None"
  by (simp_all add: page_bytes_def)

lemma slot_off_inj: "slot_off i = slot_off j \<longleftrightarrow> i = j"
  by (simp add: slot_off_def)

text \<open>Two pages in memory are in different frames.\<close>

lemma frames_distinct:
  "frames_inv X s \<Longrightarrow> entry_at s p = Some e \<Longrightarrow> is_valid e \<Longrightarrow> entry_at s q = Some e' \<Longrightarrow> is_valid e' \<Longrightarrow>
   frame_of e = frame_of e' \<Longrightarrow> p = q"
  unfolding frames_inv_def by (metis option.inject)

lemma slots_invD:
  "slots_inv s \<Longrightarrow> entry_at s p = Some e \<Longrightarrow> entry_ok s e"
  "slots_inv s \<Longrightarrow> entry_at s p = Some e \<Longrightarrow> entry_at s q = Some e' \<Longrightarrow> swap_off e = swap_off e' \<Longrightarrow>
     swap_off e \<noteq> -1 \<Longrightarrow> p = q"
  "slots_inv s \<Longrightarrow> i < nbits (swapmap s) \<Longrightarrow> slot_used (swapmap s) i \<Longrightarrow>
     \<exists>p e. entry_at s p = Some e \<and> swap_off e = slot_off i"
  unfolding slots_inv_def by blast+

lemma slots_invI:
  assumes "\<And>p e. entry_at s p = Some e \<Longrightarrow> entry_ok s e"
    and "\<And>p q e e'. entry_at s p = Some e \<Longrightarrow> entry_at s q = Some e' \<Longrightarrow> swap_off e = swap_off e' \<Longrightarrow>
      swap_off e \<noteq> -1 \<Longrightarrow> p = q"
    and "\<And>i. i < nbits (swapmap s) \<Longrightarrow> slot_used (swapmap s) i \<Longrightarrow> \<exists>p e. entry_at s p = Some e \<and> swap_off e = slot_off i"
  shows "slots_inv s"
  unfolding slots_inv_def using assms by blast

lemma frames_invD:
  "frames_inv X s \<Longrightarrow> i < memsize s \<Longrightarrow> in_use (coremap s ! i) \<Longrightarrow> i \<notin> X \<Longrightarrow>
     \<exists>p e. fpte (coremap s ! i) = Some p \<and> entry_at s p = Some e \<and> is_valid e \<and> frame_of e = i"
  "frames_inv X s \<Longrightarrow> entry_at s p = Some e \<Longrightarrow> is_valid e \<Longrightarrow> frame_of e < memsize s \<and> frame_of e \<notin> X \<and>
     in_use (coremap s ! frame_of e) \<and> fpte (coremap s ! frame_of e) = Some p"
  unfolding frames_inv_def by blast+

lemma frames_invI:
  assumes "\<And>i. i < memsize s \<Longrightarrow> in_use (coremap s ! i) \<Longrightarrow> i \<notin> X \<Longrightarrow>
      \<exists>p e. fpte (coremap s ! i) = Some p \<and> entry_at s p = Some e \<and> is_valid e \<and> frame_of e = i"
    and "\<And>p e. entry_at s p = Some e \<Longrightarrow> is_valid e \<Longrightarrow> frame_of e < memsize s \<and> frame_of e \<notin> X \<and>
      in_use (coremap s ! frame_of e) \<and> fpte (coremap s ! frame_of e) = Some p"
  shows "frames_inv X s"
  unfolding frames_inv_def using assms by blast

section \<open>States that look the same\<close>

definition entry_view :: "pgtbl_entry \<Rightarrow> bool \<times> bool \<times> nat \<times> int" where
  "entry_view e = (is_valid e, on_swap e, frame_of e, swap_off e)"

definition same_view :: "sim \<Rightarrow> sim \<Rightarrow> bool" where
  "same_view s t \<longleftrightarrow> memsize t = memsize s \<and> map core_frame (coremap t) = map core_frame (coremap s) \<and>
     (map_option entry_view \<circ> entry_at t) = (map_option entry_view \<circ> entry_at s) \<and>
     swapmap t = swapmap s \<and> swapfile t = swapfile s \<and> physmem t = physmem s"

lemma same_view_refl [simp]: "same_view s s"
  by (simp add: same_view_def)

lemma same_view_sym: "same_view s t \<Longrightarrow> same_view t s"
  by (simp add: same_view_def)

lemma same_view_trans: "same_view s t \<Longrightarrow> same_view t u \<Longrightarrow> same_view s u"
  by (simp add: same_view_def)

lemma same_view_at: "same_view s t \<Longrightarrow> map_option entry_view (entry_at t p) = map_option entry_view (entry_at s p)"
  by (auto simp: same_view_def dest: fun_cong [where x = p])

lemma entry_view_eq: "entry_view e' = entry_view e \<longleftrightarrow> (is_valid e' \<longleftrightarrow> is_valid e) \<and>
    (on_swap e' \<longleftrightarrow> on_swap e) \<and> frame_of e' = frame_of e \<and> swap_off e' = swap_off e"
  by (simp add: entry_view_def)

lemma same_view_entry:
  assumes "same_view s t" "entry_at t p = Some e'"
  obtains e where "entry_at s p = Some e" "is_valid e \<longleftrightarrow> is_valid e'" "on_swap e \<longleftrightarrow> on_swap e'"
    "frame_of e = frame_of e'" "swap_off e = swap_off e'"
proof -
  have "map_option entry_view (entry_at s p) = Some (entry_view e')"
    using same_view_at [OF assms(1), of p] assms(2) by simp
  with that show thesis by (auto simp: entry_view_def)
qed

lemma same_view_frame:
  assumes "same_view s t"
  shows "length (coremap t) = length (coremap s)"
    and "i < length (coremap s) \<Longrightarrow> in_use (coremap t ! i) = in_use (coremap s ! i)"
    and "i < length (coremap s) \<Longrightarrow> fpte (coremap t ! i) = fpte (coremap s ! i)"
proof -
  have eq: "map core_frame (coremap t) = map core_frame (coremap s)"
    using assms by (simp add: same_view_def)
  show len: "length (coremap t) = length (coremap s)"
    using arg_cong [OF eq, of length] by simp
  show "i < length (coremap s) \<Longrightarrow> in_use (coremap t ! i) = in_use (coremap s ! i)"
    "i < length (coremap s) \<Longrightarrow> fpte (coremap t ! i) = fpte (coremap s ! i)"
    using arg_cong [OF eq, of "\<lambda>xs. xs ! i"] len by (simp_all add: core_frame_def)
qed

lemma same_view_sizes: "same_view s t \<Longrightarrow> sizes_ok s \<Longrightarrow> sizes_ok t"
  using same_view_frame(1) [of s t] by (auto simp: sizes_ok_def same_view_def)

lemma same_view_used: "same_view s t \<Longrightarrow> sizes_ok s \<Longrightarrow> used_frames t = used_frames s"
  using same_view_frame(2) [of s t] by (auto simp: used_frames_def sizes_ok_def same_view_def)

lemma same_view_slots:
  assumes "same_view s t" "slots_inv s"
  shows "slots_inv t"
proof -
  have slot: "slot_ok t = slot_ok s"
    using assms(1) by (simp add: fun_eq_iff slot_ok_def same_view_def)
  show ?thesis
  proof (rule slots_invI)
    fix p e assume "entry_at t p = Some e"
    then obtain e0 where "entry_at s p = Some e0" "is_valid e0 \<longleftrightarrow> is_valid e" "on_swap e0 \<longleftrightarrow> on_swap e"
      "swap_off e0 = swap_off e"
      using same_view_entry [OF assms(1)] by metis
    then show "entry_ok t e" using slots_invD(1) [OF assms(2), of p e0] by (simp add: entry_ok_def slot)
  next
    fix p q e e' assume "entry_at t p = Some e" "entry_at t q = Some e'" "swap_off e = swap_off e'" "swap_off e \<noteq> -1"
    moreover from this obtain e0 e1 where "entry_at s p = Some e0" "swap_off e0 = swap_off e"
      "entry_at s q = Some e1" "swap_off e1 = swap_off e'"
      using same_view_entry [OF assms(1)] by metis
    ultimately show "p = q" using slots_invD(2) [OF assms(2)] by metis
  next
    fix i assume "i < nbits (swapmap t)" "slot_used (swapmap t) i"
    then obtain p e where pe: "entry_at s p = Some e" "swap_off e = slot_off i"
      using slots_invD(3) [OF assms(2), of i] assms(1) by (auto simp: same_view_def)
    then obtain e' where "entry_at t p = Some e'" "swap_off e' = slot_off i"
      using same_view_entry [OF same_view_sym [OF assms(1)] pe(1)] by metis
    then show "\<exists>p e. entry_at t p = Some e \<and> swap_off e = slot_off i" by blast
  qed
qed

lemma same_view_frames:
  assumes "same_view s t" "sizes_ok s" "frames_inv X s"
  shows "frames_inv X t"
proof (rule frames_invI)
  have m: "memsize t = memsize s" "length (coremap s) = memsize s"
    using assms(1,2) by (auto simp: same_view_def sizes_ok_def)
  show "\<exists>p e. fpte (coremap t ! i) = Some p \<and> entry_at t p = Some e \<and> is_valid e \<and> frame_of e = i"
    if i: "i < memsize t" "in_use (coremap t ! i)" "i \<notin> X" for i
  proof -
    have "in_use (coremap s ! i)" using same_view_frame(2) [OF assms(1)] m i by auto
    then obtain p e where pe: "fpte (coremap s ! i) = Some p" "entry_at s p = Some e" "is_valid e" "frame_of e = i"
      using frames_invD(1) [OF assms(3), of i] i m by metis
    then obtain e' where "entry_at t p = Some e'" "is_valid e'" "frame_of e' = i"
      using same_view_entry [OF same_view_sym [OF assms(1)] pe(2)] by metis
    then show ?thesis using same_view_frame(3) [OF assms(1)] pe(1) m i(1) by auto
  qed
  show "frame_of e < memsize t \<and> frame_of e \<notin> X \<and> in_use (coremap t ! frame_of e) \<and>
      fpte (coremap t ! frame_of e) = Some p"
    if e: "entry_at t p = Some e" "is_valid e" for p e
  proof -
    obtain e0 where "entry_at s p = Some e0" "is_valid e0" "frame_of e0 = frame_of e"
      using same_view_entry [OF assms(1) e(1)] e(2) by metis
    with frames_invD(2) [OF assms(3)] have "frame_of e < memsize s \<and> frame_of e \<notin> X \<and>
        in_use (coremap s ! frame_of e) \<and> fpte (coremap s ! frame_of e) = Some p"
      by metis
    then show ?thesis using same_view_frame [OF assms(1)] m by auto
  qed
qed

lemma same_view_bytes:
  assumes "same_view s t"
  shows "page_bytes t p = page_bytes s p"
proof (cases "entry_at t p")
  case None
  then have "entry_at s p = None" using same_view_at [OF assms, of p] by simp
  then show ?thesis using None by (simp add: page_bytes_def)
next
  case (Some e')
  then obtain e where "entry_at s p = Some e" "is_valid e \<longleftrightarrow> is_valid e'" "on_swap e \<longleftrightarrow> on_swap e'"
    "frame_of e = frame_of e'" "swap_off e = swap_off e'"
    using same_view_entry [OF assms] by metis
  then show ?thesis using Some assms by (simp add: page_bytes_def same_view_def)
qed

lemma same_core_view: "same_core s t \<Longrightarrow> same_view s t"
  using same_core_entry [of s t] by (auto simp: same_view_def same_core_def comp_def)

lemma set_entry_view:
  "entry_at s p = Some e \<Longrightarrow> entry_view e' = entry_view e \<Longrightarrow> same_view s (set_entry p e' s)"
  by (simp add: same_view_def comp_def fun_eq_iff)

lemma vm_inv_upd [simp]:
  "vm_inv (s\<lparr>physmem := ph\<rparr>) = vm_inv s" "vm_inv (s\<lparr>err_msgs := n\<rparr>) = vm_inv s"
proof -
  have "frames_inv {} (s\<lparr>physmem := ph\<rparr>) = frames_inv {} s" "frames_inv {} (s\<lparr>err_msgs := n\<rparr>) = frames_inv {} s"
    by (simp_all add: frames_inv_def)
  moreover have "slots_inv (s\<lparr>physmem := ph\<rparr>) = slots_inv s" "slots_inv (s\<lparr>err_msgs := n\<rparr>) = slots_inv s"
    by (simp_all add: slots_inv_def entry_ok_def slot_ok_def)
  ultimately show "vm_inv (s\<lparr>physmem := ph\<rparr>) = vm_inv s" "vm_inv (s\<lparr>err_msgs := n\<rparr>) = vm_inv s"
    by (simp_all add: vm_inv_def sizes_ok_def counters_ok_def used_frames_def)
qed

section \<open>Writing a victim to its slot\<close>

text \<open>The effect of \<open>evict_frame\<close> on a frame \<open>f\<close> that holds the page of entry \<open>e\<close> at \<open>v\<close>.\<close>

definition out_entry :: "pgtbl_entry \<Rightarrow> nat \<Rightarrow> pgtbl_entry" where
  "out_entry e i = clear_flag 2 (clear_flag 1 (e\<lparr>swap_off := slot_off i\<rparr>))"

definition paged_out :: "sim \<Rightarrow> nat \<Rightarrow> pte_ptr \<Rightarrow> pgtbl_entry \<Rightarrow> nat \<Rightarrow> sim \<Rightarrow> bool" where
  "paged_out s f v e i t \<longleftrightarrow> fpte (coremap s ! f) = Some v \<and> entry_at s v = Some e \<and> is_valid e \<and> frame_of e = f \<and>
     (\<forall>p. entry_at t p = (if p = v then Some (out_entry e i) else entry_at s p)) \<and>
     (swap_off e = slot_off i \<and> swapmap t = swapmap s \<or>
      swap_off e = -1 \<and> bitmap_take (swapmap s) = Some (i, swapmap t)) \<and>
     swapfile t = file_write (i * 16) (get_bytes (physmem s) (f * 16) 16) (swapfile s) \<and>
     coremap t = coremap s \<and> physmem t = physmem s \<and> same_policy s t \<and>
     dom (pgdir t) = dom (pgdir s) \<and> pagetables_left t = pagetables_left s \<and>
     hit_count t = hit_count s \<and> miss_count t = miss_count s \<and> ref_count t = ref_count s \<and> err_msgs t = err_msgs s \<and>
     evict_clean_count t = evict_clean_count s + (if is_dirty e then 0 else 1) \<and>
     evict_dirty_count t = evict_dirty_count s + (if is_dirty e then 1 else 0)"

lemma out_entry_simps [simp]:
  "swap_off (out_entry e i) = slot_off i" "\<not> is_valid (out_entry e i)" "on_swap (out_entry e i) \<longleftrightarrow> on_swap e"
  "frame_of (out_entry e i) = frame_of e"
proof -
  show "frame_of (out_entry e i) = frame_of e"
    unfolding out_entry_def frame_of_flags by (simp add: frame_of_def)
qed (simp_all add: out_entry_def)

lemma set_flag_same: "on_swap e \<Longrightarrow> set_flag 8 e = e"
proof -
  assume "on_swap e"
  then have "pframe e OR 8 = pframe e"
    using set_flag_bits(1) [of 3 e] by (auto simp: bit_eq_iff [where ?'a = "32 word"] set_flag_def)
  then show ?thesis by (simp add: set_flag_def)
qed

text \<open>
  Out of swap: more pages have contents than the swap file has slots.  The slots and the bytes of
  page table memory are accounted for in a ledger no operation but the two allocations changes.
\<close>

definition swap_full :: "sim \<Rightarrow> bool" where
  "swap_full s \<longleftrightarrow> bitmap_take (swapmap s) = None \<and>
     (\<exists>P. finite P \<and> P \<subseteq> dom (page_bytes s) \<and> card P = Suc (nbits (swapmap s)))"

definition same_ledger :: "sim \<Rightarrow> sim \<Rightarrow> bool" where
  "same_ledger s t \<longleftrightarrow> memsize t = memsize s \<and> nbits (swapmap t) = nbits (swapmap s) \<and> dom (pgdir t) = dom (pgdir s) \<and>
     pagetables_left t = pagetables_left s"

lemma dom_set_entry [simp]: "dom (pgdir (set_entry p e s)) = dom (pgdir s)"
  by (auto simp: set_entry_def)

lemma swap_full_cong: "swapmap t = swapmap s \<Longrightarrow> page_bytes t = page_bytes s \<Longrightarrow> swap_full t = swap_full s"
  by (simp add: swap_full_def)

lemma swap_fullI:
  assumes "sizes_ok s" "slots_inv s" "bitmap_take (swapmap s) = None"
    and v: "entry_at s v = Some e" "is_valid e" "swap_off e = -1"
  shows "swap_full s"
proof -
  have "\<forall>i < nbits (swapmap s). slot_used (swapmap s) i"
    using swap_slots.alloc_full assms(1,3) by (auto simp: sizes_ok_def)
  then have "\<forall>i < nbits (swapmap s). \<exists>p. \<exists>e. entry_at s p = Some e \<and> swap_off e = slot_off i"
    using slots_invD(3) [OF assms(2)] by blast
  then obtain g where g: "\<forall>i < nbits (swapmap s). \<exists>e. entry_at s (g i) = Some e \<and> swap_off e = slot_off i"
    by metis
  have "inj_on g {..<nbits (swapmap s)}"
    using g by (intro inj_onI) (metis lessThan_iff option.inject slot_off_inj)
  moreover have "v \<notin> g ` {..<nbits (swapmap s)}"
  proof
    assume "v \<in> g ` {..<nbits (swapmap s)}"
    then obtain i where "i < nbits (swapmap s)" "v = g i" by auto
    then obtain e' where "entry_at s v = Some e'" "swap_off e' = slot_off i" using g by auto
    then show False using v(1,3) by simp
  qed
  ultimately have "card (insert v (g ` {..<nbits (swapmap s)})) = Suc (nbits (swapmap s))"
    by (simp add: card_image)
  moreover have "g i \<in> dom (page_bytes s)" if "i < nbits (swapmap s)" for i
  proof -
    obtain e' where e': "entry_at s (g i) = Some e'" "swap_off e' = slot_off i" using g \<open>i < nbits (swapmap s)\<close> by blast
    then have "on_swap e'" using slots_invD(1) [OF assms(2) e'(1)] by (auto simp: entry_ok_def)
    then show ?thesis using e'(1) by (simp add: page_bytes_def domIff)
  qed
  moreover have "v \<in> dom (page_bytes s)" using v(1,2) by (simp add: page_bytes_def domIff)
  ultimately have "card (insert v (g ` {..<nbits (swapmap s)})) = Suc (nbits (swapmap s)) \<and>
      insert v (g ` {..<nbits (swapmap s)}) \<subseteq> dom (page_bytes s) \<and> finite (insert v (g ` {..<nbits (swapmap s)}))"
    by blast
  then show ?thesis unfolding swap_full_def using assms(3) by blast
qed

lemma evict_frame_run:
  assumes "sizes_ok s" "frames_inv {} s" "slots_inv s" "f < memsize s" "in_use (coremap s ! f)"
  shows "(\<exists>t. evict_frame f s = (Exit 1, t) \<and> swap_full s) \<or>
    (\<exists>v e i t. evict_frame f s = (Ok f, t) \<and> paged_out s f v e i t)"
proof -
  have sz: "f < length (coremap s)" "memsize s \<le> 2 ^ 20" "bitmap_ok (swapmap s)" "nbits (swapmap s) \<le> 2 ^ 27"
    using assms(1,4) by (auto simp: sizes_ok_def)
  obtain v e where v: "fpte (coremap s ! f) = Some v" "entry_at s v = Some e" "is_valid e" "frame_of e = f"
    using frames_invD(1) [OF assms(2,4,5)] by auto
  have e: "on_swap e" "swap_off e = -1 \<or> slot_ok s (swap_off e)"
    using slots_invD(1) [OF assms(3) v(2)] v(3) by (auto simp: entry_ok_def)
  let ?s1 = "if is_dirty e then (set_entry v e s)\<lparr>evict_dirty_count := evict_dirty_count s + 1\<rparr>
    else s\<lparr>evict_clean_count := evict_clean_count s + 1\<rparr>"
  have s1: "entry_at ?s1 p = entry_at s p" for p using v(2) by simp
  have run: "evict_frame f s = (bnd (swap_pageout f (to_int32 (swap_off e))) (\<lambda>off.
     thn (if off \<noteq> -1 then pte_upd v (\<lambda>v. v\<lparr>swap_off := off\<rparr>) else exitp 1)
    (thn (pte_upd v (clear_flag 1)) (thn (pte_upd v (clear_flag 2)) (ret f))))) ?s1"
    using v sz(1) e(1) by (simp add: evict_frame_def prog Let_def set_flag_same)
  let ?tail = "\<lambda>off. thn (if off \<noteq> -1 then pte_upd v (\<lambda>v. v\<lparr>swap_off := off\<rparr>) else exitp 1)
     (thn (pte_upd v (clear_flag 1)) (thn (pte_upd v (clear_flag 2)) (ret f)))"
  let ?t = "\<lambda>i s2. set_entry v (out_entry e i) (set_entry v (clear_flag 1 (e\<lparr>swap_off := slot_off i\<rparr>))
     (set_entry v (e\<lparr>swap_off := slot_off i\<rparr>) s2))"
  have tail: "?tail (slot_off i) s2 = (Ok f, ?t i s2)" if "entry_at s2 v = Some e" for i s2
    using that by (simp add: prog out_entry_def)
  have s1': "memsize ?s1 = memsize s" "swapmap ?s1 = swapmap s" "swapfile ?s1 = swapfile s"
    "physmem ?s1 = physmem s" "coremap ?s1 = coremap s" "pagetables_left ?s1 = pagetables_left s"
    "hit_count ?s1 = hit_count s" "miss_count ?s1 = miss_count s" "ref_count ?s1 = ref_count s"
    "err_msgs ?s1 = err_msgs s" "same_policy s ?s1" "dom (pgdir ?s1) = dom (pgdir s)"
    "evict_clean_count ?s1 = evict_clean_count s + (if is_dirty e then 0 else 1)"
    "evict_dirty_count ?s1 = evict_dirty_count s + (if is_dirty e then 1 else 0)"
    by (simp_all add: same_policy_def)
  define s1 where "s1 = ?s1"
  note run = run [folded s1_def] and s1' = s1' [folded s1_def] and s1 = s1 [folded s1_def]
  have out: "paged_out s f v e i (?t i s2)"
    if "s2 = s1\<lparr>swapmap := b, swapfile := file_write (i * 16) (get_bytes (physmem s1) (f * 16) 16) (swapfile s1)\<rparr>"
      "swap_off e = slot_off i \<and> b = swapmap s \<or> swap_off e = -1 \<and> bitmap_take (swapmap s) = Some (i, b)" for i b s2
    using v s1 s1' that by (auto simp: paged_out_def same_policy_def)
  show ?thesis
  proof (cases "swap_off e = -1")
    case True
    then have "to_int32 (swap_off e) = -1" by (simp add: to_int32_def)
    note pageout = swap_pageout_new [of f s1, unfolded s1', OF assms(4) sz(2-4)]
    show ?thesis
    proof (cases "bitmap_take (swapmap s)")
      case None
      then show ?thesis using run pageout \<open>to_int32 (swap_off e) = -1\<close> swap_fullI [OF assms(1,3) None v(2,3) True]
        by (simp add: bnd_run prog)
    next
      case (Some r)
      then obtain i b where r: "bitmap_take (swapmap s) = Some (i, b)" by (cases r) auto
      let ?s2 = "s1\<lparr>swapmap := b, swapfile := file_write (i * 16) (get_bytes (physmem s1) (f * 16) 16) (swapfile s1)\<rparr>"
      have "evict_frame f s = ?tail (slot_off i) ?s2"
        using run pageout \<open>to_int32 (swap_off e) = -1\<close> r s1' by (simp add: bnd_run)
      also have "\<dots> = (Ok f, ?t i ?s2)"
        by (rule tail) (simp add: s1 v)
      finally show ?thesis using out [OF refl, of i b] r True by blast
    qed
  next
    case False
    then obtain i where i: "swap_off e = slot_off i" "i < nbits (swapmap s)"
      using e(2) by (auto simp: slot_ok_def)
    let ?s2 = "s1\<lparr>swapmap := swapmap s, swapfile := file_write (i * 16) (get_bytes (physmem s1) (f * 16) 16) (swapfile s1)\<rparr>"
    have "s1\<lparr>swapmap := swapmap s\<rparr> = s1" using s1'(2) by simp
    then have "swap_pageout f (to_int32 (swap_off e)) s1 = (Ok (slot_off i), ?s2)"
      using swap_pageout_old [of f s1 i] assms(4) sz slot_off_int32 [of i] i s1' by simp
    then have "evict_frame f s = ?tail (slot_off i) ?s2" using run by (simp add: bnd_run)
    also have "\<dots> = (Ok f, ?t i ?s2)"
      by (rule tail) (simp add: s1 v)
    finally show ?thesis using out [OF refl, of i "swapmap s"] i by blast
  qed
qed

lemma paged_out_map:
  assumes inv: "sizes_ok s" "frames_inv {} s" "slots_inv s" and out: "paged_out s f v e i t"
  shows "bitmap_ok (swapmap t)" "nbits (swapmap t) = nbits (swapmap s)" "i < nbits (swapmap t)"
    "slot_used (swapmap t) i" "slot_used (swapmap s) j \<Longrightarrow> slot_used (swapmap t) j"
    "slot_used (swapmap t) j \<Longrightarrow> j = i \<or> slot_used (swapmap s) j"
proof -
  have "slot_ok s (swap_off e) \<or> swap_off e = -1"
    using slots_invD(1) [OF inv(3), of v e] out by (auto simp: entry_ok_def paged_out_def)
  moreover have ok: "bitmap_ok (swapmap s)" using inv(1) by (simp add: sizes_ok_def)
  ultimately have c: "i < nbits (swapmap s) \<and> slot_used (swapmap s) i \<and> swapmap t = swapmap s \<or>
      bitmap_take (swapmap s) = Some (i, swapmap t)"
    using out by (auto simp: paged_out_def slot_ok_def slot_off_inj)
  from c have "bitmap_ok (swapmap t) \<and> nbits (swapmap t) = nbits (swapmap s) \<and> i < nbits (swapmap t) \<and>
      slot_used (swapmap t) i \<and> (slot_used (swapmap s) j \<longrightarrow> slot_used (swapmap t) j) \<and>
      (slot_used (swapmap t) j \<longrightarrow> j = i \<or> slot_used (swapmap s) j)"
  proof
    assume take: "bitmap_take (swapmap s) = Some (i, swapmap t)"
    show ?thesis
      using swap_slots.alloc_ok [OF ok take] swap_slots.alloc_size [OF ok take] swap_slots.alloc_bound [OF ok take]
        swap_slots.alloc_used [OF ok take] by simp
  qed (use ok in simp)
  then show "bitmap_ok (swapmap t)" "nbits (swapmap t) = nbits (swapmap s)" "i < nbits (swapmap t)"
    "slot_used (swapmap t) i" "slot_used (swapmap s) j \<Longrightarrow> slot_used (swapmap t) j"
    "slot_used (swapmap t) j \<Longrightarrow> j = i \<or> slot_used (swapmap s) j"
    by simp_all
qed

lemma paged_out_slots:
  assumes inv: "sizes_ok s" "frames_inv {} s" "slots_inv s" and out: "paged_out s f v e i t"
  shows "slot_ok s off \<Longrightarrow> slot_ok t off" "slot_ok t (slot_off i)"
    "entry_at s q = Some e' \<Longrightarrow> q \<noteq> v \<Longrightarrow> swap_off e' \<noteq> slot_off i"
proof -
  have len: "length (swapfile t) = max (length (swapfile s)) (i * 16 + 16)"
    using out by (simp add: paged_out_def length_file_write)
  show "slot_ok s off \<Longrightarrow> slot_ok t off" "slot_ok t (slot_off i)"
    using paged_out_map [OF inv out] len by (auto simp: slot_ok_def slot_off_inj)
  show "swap_off e' \<noteq> slot_off i" if q: "entry_at s q = Some e'" "q \<noteq> v"
  proof
    assume eq: "swap_off e' = slot_off i"
    have v: "entry_at s v = Some e" using out by (simp add: paged_out_def)
    then have "swap_off e \<noteq> slot_off i"
      using slots_invD(2) [OF inv(3) q(1) v] eq q(2) by auto
    then have "bitmap_take (swapmap s) = Some (i, swapmap t)"
      using out by (auto simp: paged_out_def)
    then have "\<not> slot_used (swapmap s) i"
      using inv(1) by (intro swap_slots.alloc_free [of _ i]) (auto simp: sizes_ok_def)
    moreover have "slot_ok s (swap_off e')"
      using slots_invD(1) [OF inv(3) q(1)] eq by (auto simp: entry_ok_def)
    ultimately show False using eq by (auto simp: slot_ok_def slot_off_inj)
  qed
qed

lemma paged_out_entry:
  "paged_out s f v e i t \<Longrightarrow> entry_at t p = (if p = v then Some (out_entry e i) else entry_at s p)"
  unfolding paged_out_def by blast

lemma paged_out_inv:
  assumes inv: "sizes_ok s" "frames_inv {} s" "slots_inv s" and out: "paged_out s f v e i t"
  shows "sizes_ok t" "frames_inv {f} t" "slots_inv t"
proof -
  have same: "memsize t = memsize s" "coremap t = coremap s"
    using out by (simp_all add: paged_out_def same_policy_def)
  show "sizes_ok t"
    using inv(1) paged_out_map(1,2) [OF inv out] same by (simp add: sizes_ok_def)
  have v: "entry_at s v = Some e" "is_valid e" "frame_of e = f" "fpte (coremap s ! f) = Some v"
    using out by (simp_all add: paged_out_def)
  show "slots_inv t"
  proof (rule slots_invI)
    have on: "on_swap e" using slots_invD(1) [OF inv(3) v(1)] v(2) by (simp add: entry_ok_def)
    show "entry_ok t e'" if "entry_at t p = Some e'" for p e'
      using that slots_invD(1) [OF inv(3), of p e'] paged_out_slots(1,2) [OF inv out] on
      by (auto simp: paged_out_entry [OF out] entry_ok_def split: if_splits)
    show "p = q" if "entry_at t p = Some e1" "entry_at t q = Some e2" "swap_off e1 = swap_off e2" "swap_off e1 \<noteq> -1"
      for p q e1 e2
      using that paged_out_slots(3) [OF inv out, of p e1] paged_out_slots(3) [OF inv out, of q e2] slots_invD(2) [OF inv(3), of p e1 q e2]
      by (auto simp: paged_out_entry [OF out] split: if_splits)
    show "\<exists>p e. entry_at t p = Some e \<and> swap_off e = slot_off k"
      if k: "k < nbits (swapmap t)" "slot_used (swapmap t) k" for k
    proof (cases "k = i")
      case True
      then show ?thesis by (intro exI [of _ v] exI [of _ "out_entry e i"]) (simp add: paged_out_entry [OF out])
    next
      case False
      then have "slot_used (swapmap s) k" "k < nbits (swapmap s)"
        using paged_out_map(2,6) [OF inv out] k by auto
      then obtain p e' where p: "entry_at s p = Some e'" "swap_off e' = slot_off k"
        using slots_invD(3) [OF inv(3)] by metis
      have "p \<noteq> v"
      proof
        assume "p = v"
        then have "swap_off e = slot_off k" using p v(1) by simp
        then show False using out False by (auto simp: paged_out_def slot_off_inj)
      qed
      then show ?thesis using p by (intro exI [of _ p] exI [of _ e']) (simp add: paged_out_entry [OF out])
    qed
  qed
  show "frames_inv {f} t"
  proof (rule frames_invI)
    show "\<exists>p e. fpte (coremap t ! k) = Some p \<and> entry_at t p = Some e \<and> is_valid e \<and> frame_of e = k"
      if k: "k < memsize t" "in_use (coremap t ! k)" "k \<notin> {f}" for k
    proof -
      obtain p e' where p: "fpte (coremap s ! k) = Some p" "entry_at s p = Some e'" "is_valid e'" "frame_of e' = k"
        using frames_invD(1) [OF inv(2), of k] k same by auto
      then have "p \<noteq> v" using v k by auto
      then show ?thesis using p same by (auto simp: paged_out_entry [OF out])
    qed
    show "frame_of e' < memsize t \<and> frame_of e' \<notin> {f} \<and> in_use (coremap t ! frame_of e') \<and>
        fpte (coremap t ! frame_of e') = Some p" if e': "entry_at t p = Some e'" "is_valid e'" for p e'
    proof -
      have p: "p \<noteq> v" "entry_at s p = Some e'" using e' by (auto simp: paged_out_entry [OF out] split: if_splits)
      then show ?thesis using frames_invD(2) [OF inv(2) p(2) e'(2)] v(4) same by auto
    qed
  qed
qed

lemma paged_out_bytes:
  assumes inv: "sizes_ok s" "frames_inv {} s" "slots_inv s" and out: "paged_out s f v e i t"
  shows "page_bytes t p = page_bytes s p"
proof (cases "p = v")
  case True
  have v: "entry_at s v = Some e" "is_valid e" "frame_of e = f" "on_swap e"
    using out slots_invD(1) [OF inv(3), of v e] by (auto simp: paged_out_def entry_ok_def)
  have "page_bytes t v = Some (file_page (swapfile t) i)"
    by (rule page_bytes_simps(2) [where e = "out_entry e i"]) (simp_all add: paged_out_entry [OF out] v)
  also have "\<dots> = Some (get_bytes (physmem s) (f * 16) 16)"
    using out by (simp add: paged_out_def file_page_write)
  finally show ?thesis using v True by (simp add: page_bytes_simps(1))
next
  case False
  then have same: "entry_at t p = entry_at s p" "physmem t = physmem s" "swapfile t =
      file_write (i * 16) (get_bytes (physmem s) (f * 16) 16) (swapfile s)"
    using out by (simp_all add: paged_out_entry [OF out] paged_out_def)
  show ?thesis
  proof (cases "entry_at s p")
    case None
    then show ?thesis using same by (simp add: page_bytes_def)
  next
    case (Some e')
    show ?thesis
    proof (cases "on_swap e' \<and> \<not> is_valid e'")
      case True
      then obtain j where j: "swap_off e' = slot_off j" "(j + 1) * 16 \<le> length (swapfile s)"
        using slots_invD(1) [OF inv(3) Some] by (auto simp: entry_ok_def slot_ok_def)
      then have "i \<noteq> j" using paged_out_slots(3) [OF inv out Some False] by auto
      then show ?thesis
        using Some True same j by (simp add: page_bytes_def file_page_write)
    next
      case False
      then show ?thesis using Some same by (auto simp: page_bytes_def)
    qed
  qed
qed

section \<open>Frame allocation\<close>

text \<open>
  What \<open>allocate_frame\<close> hands out for the entry \<open>p\<close>: a frame \<open>f\<close> that no page in memory is in,
  with every page's contents unchanged.
\<close>

definition frame_given :: "sim \<Rightarrow> pte_ptr \<Rightarrow> nat \<Rightarrow> sim \<Rightarrow> bool" where
  "frame_given s p f t \<longleftrightarrow> f < memsize s \<and> sizes_ok t \<and> frames_inv {f} t \<and> slots_inv t \<and>
     page_bytes t = page_bytes s \<and> in_use (coremap t ! f) \<and> fpte (coremap t ! f) = Some p \<and>
     entry_at t p = entry_at s p \<and> memsize t = memsize s \<and>
     same_ledger s t \<and>
     hit_count t = hit_count s \<and> miss_count t = miss_count s \<and> ref_count t = ref_count s \<and> err_msgs t = err_msgs s \<and>
     evict_clean_count s \<le> evict_clean_count t \<and> evict_dirty_count s \<le> evict_dirty_count t \<and>
     evict_clean_count t + evict_dirty_count t + int (card (used_frames t)) =
       evict_clean_count s + evict_dirty_count s + int (card (used_frames s)) + 1"

text \<open>Claiming a frame in which no page is.\<close>

definition claim_frame :: "nat \<Rightarrow> pte_ptr \<Rightarrow> sim \<Rightarrow> sim" where
  "claim_frame f p s = s\<lparr>coremap := (coremap s)[f := (coremap s ! f)\<lparr>in_use := True, fpte := Some p\<rparr>]\<rparr>"

lemma claim_frames:
  assumes "frames_inv X s" "length (coremap s) = memsize s" "f < memsize s" "X \<subseteq> {f}"
    "f \<in> X \<or> \<not> in_use (coremap s ! f)"
  shows "frames_inv {f} (claim_frame f p s)"
proof (rule frames_invI)
  show "\<exists>q e. fpte (coremap (claim_frame f p s) ! k) = Some q \<and> entry_at (claim_frame f p s) q = Some e \<and>
      is_valid e \<and> frame_of e = k"
    if "k < memsize (claim_frame f p s)" "in_use (coremap (claim_frame f p s) ! k)" "k \<notin> {f}" for k
    using that frames_invD(1) [OF assms(1), of k] assms(2-4) by (auto simp: claim_frame_def)
  show "frame_of e < memsize (claim_frame f p s) \<and> frame_of e \<notin> {f} \<and>
      in_use (coremap (claim_frame f p s) ! frame_of e) \<and> fpte (coremap (claim_frame f p s) ! frame_of e) = Some q"
    if e: "entry_at (claim_frame f p s) q = Some e" "is_valid e" for q e
  proof -
    have f: "frame_of e < memsize s \<and> frame_of e \<notin> X \<and> in_use (coremap s ! frame_of e) \<and>
        fpte (coremap s ! frame_of e) = Some q"
      using frames_invD(2) [OF assms(1), of q e] e by (simp add: claim_frame_def)
    then have "frame_of e \<noteq> f" using assms(5) by auto
    then show ?thesis using f by (simp add: claim_frame_def)
  qed
qed

lemma claim_rest:
  "entry_at (claim_frame f p s) = entry_at s" "memsize (claim_frame f p s) = memsize s"
  "slots_inv (claim_frame f p s) = slots_inv s" "page_bytes (claim_frame f p s) = page_bytes s"
  "sizes_ok (claim_frame f p s) = sizes_ok s"
  by (simp_all add: claim_frame_def slots_inv_def entry_ok_def slot_ok_def page_bytes_def sizes_ok_def fun_eq_iff
      split: option.splits)

lemma claim_used:
  "length (coremap s) = memsize s \<Longrightarrow> f < memsize s \<Longrightarrow> used_frames (claim_frame f p s) = insert f (used_frames s)"
  by (auto simp: claim_frame_def used_frames_def nth_list_update)

lemma finite_used [simp]: "finite (used_frames s)"
  by (simp add: used_frames_def)

lemma free_frame_search_run:
  assumes "length (coremap s) = memsize s"
  obtains (free) i where "free_frame_search s = (Ok (Some i), s)" "i < memsize s" "\<not> in_use (coremap s ! i)"
  | (full) "free_frame_search s = (Ok None, s)" "used_frames s = {..<memsize s}"
proof (cases "find (\<lambda>i. \<not> in_use (coremap s ! i)) [0..<memsize s]")
  case None
  then have "\<forall>i < memsize s. in_use (coremap s ! i)" by (auto simp: find_None_iff)
  then show thesis using None assms by (intro full) (auto simp: free_frame_search_def prog used_frames_def)
next
  case (Some i)
  then have "i < memsize s" "\<not> in_use (coremap s ! i)" by (auto simp: find_Some_iff)
  then show thesis using Some assms by (intro free) (auto simp: free_frame_search_def prog)
qed

lemma frames_inv_ok: "sizes_ok s \<Longrightarrow> frames_inv {} s \<Longrightarrow> frames_ok s"
  unfolding frames_ok_def using frames_invD(1) [of "{}" s] by (auto simp: sizes_ok_def) (metis surj_pair)+

lemma paged_out_given:
  assumes inv: "sizes_ok s" "frames_inv {} s" "slots_inv s" and out: "paged_out s f v e i t"
    and p: "entry_at s p = Some e0" "\<not> is_valid e0" and f: "f < memsize s" "in_use (coremap s ! f)"
  shows "frame_given s p f (claim_frame f p t)"
proof -
  note new = paged_out_inv [OF inv out]
  have v: "entry_at s v = Some e" "is_valid e" using out by (simp_all add: paged_out_def)
  have same: "memsize t = memsize s" "coremap t = coremap s" "length (coremap t) = memsize t"
    using out inv(1) by (auto simp: paged_out_def same_policy_def sizes_ok_def)
  have ent: "entry_at t p = entry_at s p" "page_bytes t = page_bytes s"
    using p v paged_out_bytes [OF inv out] by (auto simp: paged_out_entry [OF out] fun_eq_iff)
  have used: "used_frames (claim_frame f p t) = used_frames s"
    using claim_used [of t f p] same f by (auto simp: used_frames_def)
  have "frames_inv {f} (claim_frame f p t)"
    using claim_frames [OF new(2) same(3)] f same(1) by auto
  moreover have "in_use (coremap (claim_frame f p t) ! f)" "fpte (coremap (claim_frame f p t) ! f) = Some p"
    using f same by (simp_all add: claim_frame_def)
  moreover have "same_ledger s (claim_frame f p t)"
    using out paged_out_map(2) [OF inv out] by (simp add: same_ledger_def claim_frame_def paged_out_def same_policy_def)
  moreover have "hit_count (claim_frame f p t) = hit_count s \<and>
      miss_count (claim_frame f p t) = miss_count s \<and> ref_count (claim_frame f p t) = ref_count s \<and>
      err_msgs (claim_frame f p t) = err_msgs s \<and>
      evict_clean_count s \<le> evict_clean_count (claim_frame f p t) \<and>
      evict_dirty_count s \<le> evict_dirty_count (claim_frame f p t) \<and>
      evict_clean_count (claim_frame f p t) + evict_dirty_count (claim_frame f p t) =
        evict_clean_count s + evict_dirty_count s + 1"
    using out by (simp add: claim_frame_def paged_out_def)
  ultimately show ?thesis
    unfolding frame_given_def claim_rest used using f(1) new ent same(1) by simp
qed

lemma frame_given_core:
  assumes "same_core s s1" "sizes_ok s" "frame_given s1 p f t"
  shows "frame_given s p f t"
proof -
  have "used_frames s1 = used_frames s" "page_bytes s1 = page_bytes s" "entry_at s1 = entry_at s"
    unfolding fun_eq_iff using same_view_used [OF same_core_view [OF assms(1)] assms(2)] same_view_bytes [OF same_core_view [OF assms(1)]]
      same_core_entry [OF assms(1)] by auto
  then show ?thesis
    using assms(1,3) unfolding frame_given_def same_core_def same_ledger_def by simp
qed

context replacement
begin

lemma allocate_frame_run:
  assumes inv: "vm_inv s" and pol: "pinv (used_frames s) s"
    and p: "entry_at s p = Some e" "\<not> is_valid e"
  shows "(\<exists>t. allocate_frame A p s = (Exit 1, t) \<and> swap_full s) \<or>
    (\<exists>f t. allocate_frame A p s = (Ok f, t) \<and> frame_given s p f t \<and> pinv (used_frames t - {f}) t)"
proof -
  have I: "sizes_ok s" "frames_inv {} s" "slots_inv s" and len: "length (coremap s) = memsize s"
    using inv by (auto simp: vm_inv_def sizes_ok_def)
  show ?thesis
  using len
  proof (cases rule: free_frame_search_run)
    case (free i)
    let ?t = "claim_frame i p s"
    have "allocate_frame A p s = (Ok i, ?t)"
      using free len by (simp add: allocate_frame_def prog bnd_run claim_frame_def)
    moreover have "used_frames ?t - {i} = used_frames s" "i \<notin> used_frames s" "used_frames ?t = insert i (used_frames s)"
      using free(3) claim_used [OF len free(2)] by (auto simp: used_frames_def)
    moreover have "pinv (used_frames s) ?t"
      by (rule pinv_policy [OF _ pol]) (simp add: same_policy_def claim_frame_def)
    moreover have "frame_given s p i ?t"
      using claim_frames [OF I(2) len free(2) _ disjI2 [OF free(3)], of p] I free(2) len calculation(3,4)
      by (simp add: frame_given_def claim_rest) (simp add: claim_frame_def same_ledger_def)
    ultimately show ?thesis by metis
  next
    case full
    have m: "0 < memsize s" using I(1) by (simp add: sizes_ok_def)
    have "all_in_use s" using full(2) by (auto simp: all_in_use_def used_frames_def)
    then obtain f s1 where s1: "evict_fcn A s = (Ok f, s1)" "f < memsize s" "same_core s s1" "pinv ({..<memsize s} - {f}) s1"
      using evict_run [OF frames_inv_ok [OF I(1,2)] _ m] pol full(2) by auto
    note view = same_core_view [OF s1(3)]
    have I1: "sizes_ok s1" "frames_inv {} s1" "slots_inv s1"
      using same_view_sizes [OF view I(1)] same_view_frames [OF view I(1,2)] same_view_slots [OF view I(3)] .
    have f1: "f < memsize s1" "in_use (coremap s1 ! f)" "memsize s1 = memsize s" "swapmap s1 = swapmap s"
      using s1(2,3) full(2) same_core_frame(2) [OF s1(3), of f] len
      by (auto simp: same_core_def used_frames_def)
    have run: "allocate_frame A p s = bnd (evict_frame f) (\<lambda>frame.
        thn (frame_upd frame (\<lambda>f. f\<lparr>in_use := True\<rparr>)) (thn (frame_upd frame (\<lambda>f. f\<lparr>fpte := Some p\<rparr>)) (ret frame))) s1"
      using full(1) s1(1) by (simp add: allocate_frame_def prog bnd_run)
    from evict_frame_run [OF I1 f1(1,2)] show ?thesis
    proof (elim disjE exE conjE)
      fix t assume "evict_frame f s1 = (Exit 1, t)" "swap_full s1"
      moreover have "page_bytes s1 = page_bytes s" using same_view_bytes [OF view] by (simp add: fun_eq_iff)
      ultimately have "swap_full s" using swap_full_cong [OF f1(4)] by simp
      then show ?thesis using run \<open>evict_frame f s1 = (Exit 1, t)\<close> by (simp add: bnd_def)
    next
      fix v e' i t assume t: "evict_frame f s1 = (Ok f, t)" "paged_out s1 f v e' i t"
      let ?t = "claim_frame f p t"
      have "f < length (coremap t)"
        using t(2) f1(1) I1(1) by (simp add: paged_out_def sizes_ok_def)
      then have "allocate_frame A p s = (Ok f, ?t)"
        using run t(1) by (simp add: bnd_run prog claim_frame_def)
      moreover have given: "frame_given s p f ?t"
        using paged_out_given [OF I1 t(2), of p e] p f1(1,2) same_core_entry [OF s1(3)]
        by (intro frame_given_core [OF s1(3) I(1)]) auto
      moreover have "pinv (used_frames ?t - {f}) ?t"
      proof -
        have "used_frames ?t = {..<memsize s}"
          using claim_used [of t f p] t(2) f1 I1(1) full(2) same_view_used [OF view I(1)]
          by (auto simp: paged_out_def same_policy_def sizes_ok_def used_frames_def)
        moreover have "same_policy s1 ?t"
          using t(2) by (simp add: paged_out_def same_policy_def claim_frame_def)
        ultimately show ?thesis using pinv_policy [OF _ s1(4)] by simp
      qed
      ultimately show ?thesis by blast
    qed
  qed
qed

end

section \<open>Bringing a page into its frame\<close>

definition fresh_page :: "addr_t \<Rightarrow> byte list" where
  "fresh_page vaddr = get_bytes (put_le 8 4 vaddr (\<lambda>_. 0)) 0 16"

text \<open>In \<open>t\<close>, page \<open>p\<close> is in frame \<open>f\<close> with contents \<open>c\<close>; every other page has the contents it has in \<open>s\<close>.\<close>

definition in_frame :: "sim \<Rightarrow> pte_ptr \<Rightarrow> nat \<Rightarrow> byte list \<Rightarrow> sim \<Rightarrow> bool" where
  "in_frame s p f c t \<longleftrightarrow> sizes_ok t \<and> frames_inv {} t \<and> slots_inv t \<and> memsize t = memsize s \<and>
     (\<exists>e. entry_at t p = Some e \<and> is_valid e \<and> frame_of e = f) \<and> page_bytes t = (page_bytes s)(p \<mapsto> c)"

lemma install_page:
  assumes given: "frame_given s p f t" and p: "entry_at t p = Some e" "\<not> is_valid e"
    and e2: "is_valid e2" "frame_of e2 = f" "on_swap e2" "swap_off e2 = swap_off e"
    and u: "\<And>q. entry_at u q = (if q = p then Some e2 else entry_at t q)" "memsize u = memsize t" "coremap u = coremap t"
      "swapmap u = swapmap t" "swapfile u = swapfile t"
    and ph: "get_bytes (physmem u) (f * 16) 16 = c"
      "\<And>a. a + 16 \<le> f * 16 \<or> f * 16 + 16 \<le> a \<Longrightarrow> get_bytes (physmem u) a 16 = get_bytes (physmem t) a 16"
  shows "in_frame s p f c u"
proof -
  have t: "f < memsize t" "sizes_ok t" "frames_inv {f} t" "slots_inv t" "in_use (coremap t ! f)"
    "fpte (coremap t ! f) = Some p" "memsize t = memsize s"
    using given by (simp_all add: frame_given_def)
  have slot: "slot_ok u = slot_ok t" using u(4,5) by (simp add: slot_ok_def fun_eq_iff)
  have "slots_inv u"
  proof (rule slots_invI)
    show "entry_ok u e'" if "entry_at u q = Some e'" for q e'
      using that slots_invD(1) [OF t(4), of q e'] slots_invD(1) [OF t(4) p(1)] e2
      by (auto simp: u(1) entry_ok_def slot split: if_splits)
    show "q = r" if h: "entry_at u q = Some e1" "entry_at u r = Some e3" "swap_off e1 = swap_off e3" "swap_off e1 \<noteq> -1"
      for q r e1 e3
    proof -
      let ?old = "\<lambda>q e'. if q = p then e else e'"
      have "entry_at t q = Some (?old q e1)" "entry_at t r = Some (?old r e3)"
        "swap_off (?old q e1) = swap_off e1" "swap_off (?old r e3) = swap_off e3"
        using h(1,2) p(1) e2(4) by (simp_all add: u(1) split: if_splits)
      then show ?thesis using slots_invD(2) [OF t(4), of q "?old q e1" r "?old r e3"] h(3,4) by metis
    qed
    show "\<exists>q e'. entry_at u q = Some e' \<and> swap_off e' = slot_off k"
      if k: "k < nbits (swapmap u)" "slot_used (swapmap u) k" for k
    proof -
      obtain q e' where q: "entry_at t q = Some e'" "swap_off e' = slot_off k"
        using slots_invD(3) [OF t(4), of k] k u(4) by auto
      have "entry_at u q = Some (if q = p then e2 else e')" "swap_off (if q = p then e2 else e') = slot_off k"
        using q p(1) e2(4) u(1) by auto
      then show ?thesis by blast
    qed
  qed
  moreover have "frames_inv {} u"
  proof (rule frames_invI)
    show "\<exists>q e. fpte (coremap u ! k) = Some q \<and> entry_at u q = Some e \<and> is_valid e \<and> frame_of e = k"
      if k: "k < memsize u" "in_use (coremap u ! k)" "k \<notin> {}" for k
    proof (cases "k = f")
      case True
      then show ?thesis using t(6) e2 u(1,3) by simp
    next
      case False
      then obtain q e' where "fpte (coremap t ! k) = Some q" "entry_at t q = Some e'" "is_valid e'" "frame_of e' = k"
        using frames_invD(1) [OF t(3), of k] k u(2,3) by auto
      then show ?thesis using p u(1,3) by (metis option.inject)
    qed
    show "frame_of e' < memsize u \<and> frame_of e' \<notin> {} \<and> in_use (coremap u ! frame_of e') \<and>
        fpte (coremap u ! frame_of e') = Some q" if "entry_at u q = Some e'" "is_valid e'" for q e'
      using that frames_invD(2) [OF t(3), of q e'] t(1,5,6) e2(2) u by (auto split: if_splits)
  qed
  moreover have "page_bytes u q = page_bytes s q" if "q \<noteq> p" for q
  proof -
    have "get_bytes (physmem u) (frame_of e' * 16) 16 = get_bytes (physmem t) (frame_of e' * 16) 16"
      if "entry_at t q = Some e'" "is_valid e'" for e'
    proof (rule ph(2))
      have "frame_of e' \<noteq> f" using frames_invD(2) [OF t(3) that] by auto
      then show "frame_of e' * 16 + 16 \<le> f * 16 \<or> f * 16 + 16 \<le> frame_of e' * 16" by linarith
    qed
    then have "page_bytes u q = page_bytes t q"
      using that u(1,5) by (auto simp: page_bytes_def split: option.splits)
    then show ?thesis using given by (simp add: frame_given_def)
  qed
  moreover have "sizes_ok u" using t(2) u by (simp add: sizes_ok_def)
  moreover have "page_bytes u p = Some c" using page_bytes_simps(1) [of u p e2] u(1) e2 ph(1) by simp
  ultimately show ?thesis using e2(1,2) u(1,2) t(7) by (simp add: in_frame_def fun_eq_iff)
qed

lemma fresh_frame:
  "get_bytes (put_le 8 (a + 4) vaddr (put_bytes a (replicate 16 0) m)) a 16 = fresh_page vaddr"
proof (rule nth_equalityI)
  fix k assume "k < length (get_bytes (put_le 8 (a + 4) vaddr (put_bytes a (replicate 16 0) m)) a 16)"
  then have k: "k < 16" by simp
  show "get_bytes (put_le 8 (a + 4) vaddr (put_bytes a (replicate 16 0) m)) a 16 ! k = fresh_page vaddr ! k"
  proof (cases "4 \<le> k \<and> k < 12")
    case True
    define j where "j = k - 4"
    have j: "k = 4 + j" "j < 8" using True by (auto simp: j_def)
    show ?thesis
      using k put_le_inside [OF j(2), of "a + 4" vaddr] put_le_inside [OF j(2), of 4 vaddr]
      by (simp add: fresh_page_def get_bytes_def j add.assoc)
  next
    case False
    then show ?thesis using k
      by (auto simp: fresh_page_def get_bytes_def put_le_outside put_bytes_apply)
  qed
qed (simp add: fresh_page_def)

lemma fresh_frame_other: "a + 16 \<le> b \<or> b + 16 \<le> a \<Longrightarrow>
    get_bytes (put_le 8 (b + 4) vaddr (put_bytes b (replicate 16 0) m)) a 16 = get_bytes m a 16"
  by (auto simp: get_bytes_def put_le_outside put_bytes_apply)

context replacement
begin

lemma page_fault_run:
  assumes inv: "vm_inv s" and pol: "pinv (used_frames s) s"
    and p: "entry_at s p = Some e" "\<not> is_valid e"
  shows "(\<exists>t. page_fault A vaddr p s = (Exit 1, t) \<and> swap_full s) \<or>
    (\<exists>f e1 t. page_fault A vaddr p s = (Ok (), t) \<and> entry_at t p = Some e1 \<and>
      in_frame s p f (case page_bytes s p of None \<Rightarrow> fresh_page vaddr | Some c \<Rightarrow> c) (set_entry p (set_flag 1 e1) t) \<and>
      pinv (used_frames t - {f}) t \<and> same_ledger s t \<and>
      hit_count t = hit_count s \<and> miss_count t = miss_count s + 1 \<and> ref_count t = ref_count s \<and> err_msgs t = err_msgs s \<and>
      evict_clean_count s \<le> evict_clean_count t \<and> evict_dirty_count s \<le> evict_dirty_count t \<and>
      evict_clean_count t + evict_dirty_count t + int (card (used_frames t)) =
        evict_clean_count s + evict_dirty_count s + int (card (used_frames s)) + 1)"
proof -
  from allocate_frame_run [OF assms] show ?thesis
  proof (elim disjE exE conjE)
    fix t assume "allocate_frame A p s = (Exit 1, t)" "swap_full s"
    then show ?thesis using p by (auto simp: page_fault_def prog bnd_def)
  next
    fix f t assume run: "allocate_frame A p s = (Ok f, t)" and given: "frame_given s p f t" and pt: "pinv (used_frames t - {f}) t"
    have t: "entry_at t p = Some e" "sizes_ok t" "f < memsize t" "f < 2 ^ 20" "memsize t \<le> 2 ^ 20" "slots_inv t"
      "page_bytes t p = page_bytes s p"
      using given p(1) unfolding frame_given_def sizes_ok_def by simp_all
    note counts = given [unfolded frame_given_def]
    show ?thesis
    proof (cases "on_swap e")
      case True
      then obtain i where i: "swap_off e = slot_off i" "i < nbits (swapmap t)" "(i + 1) * 16 \<le> length (swapfile t)"
        using slots_invD(1) [OF t(6,1)] p(2) by (auto simp: entry_ok_def slot_ok_def)
      let ?c = "file_page (swapfile t) i" and ?e1 = "clear_flag 2 (set_flag 8 (place_in f e))"
      let ?t1 = "t\<lparr>physmem := put_bytes (f * 16) ?c (physmem t)\<rparr>"
      let ?t2 = "(set_entry p ?e1 (set_entry p (set_flag 8 (place_in f e)) (set_entry p (place_in f e) ?t1)))
        \<lparr>miss_count := miss_count t + 1\<rparr>"
      have off: "to_int32 (slot_off i) = slot_off i"
        using i(2) t(2) by (intro slot_off_int32) (simp add: sizes_ok_def)
      have len: "length ?c = 16" using i(3) by (simp add: file_page_def file_read_def)
      have "page_fault A vaddr p s = (Ok (), ?t2)"
        using p True run t(1) i(1) off swap_pagein_run [OF t(3,5) i(3)]
        by (simp add: page_fault_def prog bnd_run)
      moreover have "in_frame s p f ?c (set_entry p (set_flag 1 ?e1) ?t2)"
        by (rule install_page [OF given t(1) p(2), of "set_flag 1 ?e1"])
           (use t len in \<open>simp_all add: get_put_bytes_other\<close>)
      moreover have "page_bytes s p = Some ?c"
        using page_bytes_simps(2) [OF t(1) p(2) True i(1)] t(7) by simp
      moreover have "entry_at ?t2 p = Some ?e1" using t(1) by simp
      moreover have "same_policy t ?t2" by (simp add: same_policy_def)
      moreover have "same_ledger s ?t2" using given by (simp add: frame_given_def same_ledger_def)
      moreover have "used_frames ?t2 = used_frames t" by (simp add: used_frames_def)
      ultimately show ?thesis
        using pinv_policy [of t ?t2 "used_frames t - {f}"] pt counts
        by (intro disjI2 exI [of _ f] exI [of _ ?e1] exI [of _ ?t2]) simp
    next
      case False
      let ?e1 = "set_flag 8 (set_flag 2 (place_in f e))"
      let ?t1 = "t\<lparr>physmem := put_le 8 (f * 16 + 4) vaddr (put_bytes (f * 16) (replicate 16 0) (physmem t))\<rparr>"
      let ?t2 = "(set_entry p ?e1 (set_entry p (set_flag 2 (place_in f e)) (set_entry p (place_in f e) ?t1)))
        \<lparr>miss_count := miss_count t + 1\<rparr>"
      have off: "swap_off e = -1" using slots_invD(1) [OF t(6,1)] False by (auto simp: entry_ok_def)
      have "page_fault A vaddr p s = (Ok (), ?t2)"
        using p False run t(1,3,5) by (simp add: page_fault_def init_frame_def prog bnd_run)
      moreover have "in_frame s p f (fresh_page vaddr) (set_entry p (set_flag 1 ?e1) ?t2)"
        by (rule install_page [OF given t(1) p(2), of "set_flag 1 ?e1"])
           (use t off in \<open>simp_all add: fresh_frame fresh_frame_other\<close>)
      moreover have "page_bytes s p = None"
        using page_bytes_simps(3) [OF t(1) p(2) False] t(7) by simp
      moreover have "entry_at ?t2 p = Some ?e1" using t(1) by simp
      moreover have "same_policy t ?t2" by (simp add: same_policy_def)
      moreover have "same_ledger s ?t2" using given by (simp add: frame_given_def same_ledger_def)
      moreover have "used_frames ?t2 = used_frames t" by (simp add: used_frames_def)
      ultimately show ?thesis
        using pinv_policy [of t ?t2 "used_frames t - {f}"] pt counts
        by (intro disjI2 exI [of _ f] exI [of _ ?e1] exI [of _ ?t2]) simp
    qed
  qed
qed

lemma reference_page_run:
  assumes e1: "entry_at s0 p = Some e1" and u: "u = set_entry p (set_flag 1 e1) s0"
    and loaded: "in_frame s p f c u" and pol: "pinv G u" "insert f G = used_frames u"
  shows "\<exists>t. reference_page A p type s0 = (Ok (f * 16), t) \<and> in_frame s p f c t \<and> pinv (used_frames t) t \<and>
    used_frames t = used_frames u \<and> same_ledger u t \<and> hit_count t = hit_count u \<and>
    miss_count t = miss_count u \<and> ref_count t = ref_count u + 1 \<and> err_msgs t = err_msgs u \<and>
    evict_clean_count t = evict_clean_count u \<and> evict_dirty_count t = evict_dirty_count u"
proof -
  let ?e2 = "set_flag 4 (set_flag 1 e1)"
  let ?e3 = "if type = CHR ''M'' \<or> type = CHR ''S'' then set_flag 2 ?e2 else ?e2"
  let ?u2 = "(set_entry p ?e2 u)\<lparr>ref_count := ref_count u + 1\<rparr>"
  let ?u3 = "if type = CHR ''M'' \<or> type = CHR ''S'' then set_entry p ?e3 ?u2 else ?u2"
  have e: "entry_at u p = Some (set_flag 1 e1)" using e1 u by simp
  have f: "frame_of e1 = f" "f < memsize u" "memsize u \<le> 2 ^ 20" "length (coremap u) = memsize u" "sizes_ok u"
    using loaded e frames_invD(2) [of "{}" u p "set_flag 1 e1"] by (auto simp: in_frame_def sizes_ok_def)
  have ent: "entry_at ?u3 p = Some ?e3" using e by simp
  have pol3: "same_policy u ?u3" by (simp add: same_policy_def)
  have "same_view u (set_entry p ?e2 u)"
    by (rule set_entry_view [OF e]) (simp add: entry_view_def)
  then have "same_view u ?u2" by (simp add: same_view_def)
  moreover have "same_view ?u2 (set_entry p (set_flag 2 ?e2) ?u2)"
    by (rule set_entry_view [of _ _ ?e2]) (use e in \<open>simp_all add: entry_view_def\<close>)
  ultimately have view3: "same_view u ?u3" using same_view_trans by auto
  have m3: "memsize ?u3 = memsize u" "length (coremap ?u3) = memsize ?u3" using f(4) by simp_all
  have frame3: "frame_of ?e3 = f" using f(1) by simp
  obtain t where t: "ref_fcn A p ?u3 = (Ok (), t)" "same_core ?u3 t" "pinv (insert f G) t"
    using ref_run [OF m3(2) ent _ pinv_policy [OF pol3 pol(1)]] f(2) unfolding frame3 m3(1) by blast
  have view: "same_view u t" using same_view_trans [OF view3 same_core_view [OF t(2)]] .
  have "entry_at t p = Some ?e3" "memsize t = memsize u"
    using same_core_entry [OF t(2)] ent t(2) m3(1) by (simp_all add: same_core_def)
  then have "reference_page A p type s0 = (Ok (f * 16), t)"
    using t(1) e1 f(1-3) u by (cases "type = CHR ''M'' \<or> type = CHR ''S''")
      (auto simp: reference_page_def prog bnd_run)
  moreover have "in_frame s p f c t"
  proof -
    obtain e' where "entry_at t p = Some e'" "is_valid e'" "frame_of e' = f"
      using \<open>entry_at t p = Some ?e3\<close> frame3 by fastforce
    moreover have "page_bytes t = page_bytes u" using same_view_bytes [OF view] by (simp add: fun_eq_iff)
    ultimately show ?thesis
      using loaded same_view_sizes [OF view f(5)] same_view_frames [OF view f(5)] same_view_slots [OF view] view
      by (auto simp: in_frame_def same_view_def)
  qed
  moreover have "used_frames t = used_frames u" by (rule same_view_used [OF view f(5)])
  moreover have "same_ledger u t" using t(2) by (simp add: same_core_def same_ledger_def)
  ultimately show ?thesis using t(2,3) pol(2) by (auto simp: same_core_def)
qed

end

lemma vaddr_index:
  "unat vaddr < 2 ^ 36 \<Longrightarrow> PGDIR_INDEX vaddr < 4096" "PGTBL_INDEX vaddr < 4096"
proof -
  assume "unat vaddr < 2 ^ 36"
  then have "unat vaddr div 2 ^ 24 < 2 ^ 12" by (simp add: less_mult_imp_div_less)
  then show "PGDIR_INDEX vaddr < 4096" by (simp only: PGDIR_INDEX_def unat_drop_bit) simp
next
  have "drop_bit 12 vaddr AND 4095 = take_bit 12 (drop_bit 12 vaddr)"
    by (simp add: take_bit_eq_mask mask_eq_exp_minus_1)
  then show "PGTBL_INDEX vaddr < 4096"
    using take_bit_nat_less_exp [of 12 "unat (drop_bit 12 vaddr)"] by (simp add: PGTBL_INDEX_def unsigned_take_bit_eq)
qed

text \<open>A fresh second-level table changes no page.\<close>

definition no_table :: "addr_t \<Rightarrow> sim \<Rightarrow> bool" where
  "no_table vaddr s \<longleftrightarrow> pgdir s (PGDIR_INDEX vaddr) = None \<and> pagetables_left s = 0"

text \<open>\<open>T\<close> second-level tables in all, those in the directory included.\<close>

definition tables_ok :: "nat \<Rightarrow> sim \<Rightarrow> bool" where
  "tables_ok T s \<longleftrightarrow> dom (pgdir s) \<subseteq> {..<4096} \<and> pagetables_left s + card (dom (pgdir s)) = T"

definition stock :: "sim \<Rightarrow> sim \<Rightarrow> bool" where
  "stock s t \<longleftrightarrow> memsize t = memsize s \<and> nbits (swapmap t) = nbits (swapmap s) \<and> (\<forall>T. tables_ok T s \<longrightarrow> tables_ok T t)"

lemma stock_refl [simp]: "stock s s"
  by (simp add: stock_def)

lemma stock_trans: "stock s t \<Longrightarrow> stock t u \<Longrightarrow> stock s u"
  by (simp add: stock_def)

lemma ledger_stock: "same_ledger s t \<Longrightarrow> stock s t"
  by (simp add: same_ledger_def stock_def tables_ok_def)

text \<open>With a table for every directory entry, none is ever missing.\<close>

lemma tables_suffice: "tables_ok T s \<Longrightarrow> 4096 \<le> T \<Longrightarrow> unat vaddr < 2 ^ 36 \<Longrightarrow> \<not> no_table vaddr s"
proof
  assume T: "tables_ok T s" "4096 \<le> T" and v: "unat vaddr < 2 ^ 36" and no: "no_table vaddr s"
  then have "4096 \<le> card (dom (pgdir s))" by (simp add: tables_ok_def no_table_def)
  moreover have "card (dom (pgdir s)) \<le> card ({..<4096} - {PGDIR_INDEX vaddr})"
    using T(1) no by (intro card_mono) (auto simp: tables_ok_def no_table_def)
  moreover have "card ({..<4096 :: nat} - {PGDIR_INDEX vaddr}) = 4095"
    using vaddr_index(1) [OF v] by simp
  ultimately show False by simp
qed

lemma find_pte_run:
  assumes inv: "vm_inv s" and v: "unat vaddr < 2 ^ 36"
  shows "find_pte vaddr s = (Exit 1, s) \<and> no_table vaddr s \<or>
    (\<exists>t e. find_pte vaddr s = (Ok (vpage vaddr), t) \<and> vm_inv t \<and> page_bytes t = page_bytes s \<and>
       entry_at t (vpage vaddr) = Some e \<and> same_policy s t \<and> coremap t = coremap s \<and> memsize t = memsize s \<and>
       swapmap t = swapmap s \<and> stock s t \<and> hit_count t = hit_count s \<and> miss_count t = miss_count s \<and>
       ref_count t = ref_count s \<and> err_msgs t = err_msgs s \<and>
       evict_clean_count t = evict_clean_count s \<and> evict_dirty_count t = evict_dirty_count s)"
proof -
  let ?i = "PGDIR_INDEX vaddr"
  note idx = vaddr_index(1) [OF v] vaddr_index(2) [of vaddr]
  show ?thesis
  proof (cases "pgdir s ?i")
    case (Some tbl)
    then have "find_pte vaddr s = (Ok (vpage vaddr), s)"
      using idx by (simp add: find_pte_def prog vpage_def Let_def)
    moreover have "entry_at s (vpage vaddr) = Some (tbl (PGTBL_INDEX vaddr))"
      using Some idx by (simp add: entry_at_def vpage_def)
    ultimately show ?thesis using inv by simp
  next
    case None
    show ?thesis
    proof (cases "pagetables_left s = 0")
      case True
      then show ?thesis using None idx by (simp add: find_pte_def prog no_table_def init_second_level_def Let_def)
    next
      case False
      let ?fresh = "\<lparr>pframe = 0, swap_off = -1\<rparr>"
      define t where "t = s\<lparr>pagetables_left := pagetables_left s - 1, pgdir := (pgdir s)(?i \<mapsto> (\<lambda>_. ?fresh))\<rparr>"
      have run: "find_pte vaddr s = (Ok (vpage vaddr), t)"
        using None False idx by (simp add: find_pte_def prog init_second_level_def vpage_def t_def Let_def)
      have same: "memsize t = memsize s" "coremap t = coremap s" "swapmap t = swapmap s" "swapfile t = swapfile s"
        "physmem t = physmem s" "hit_count t = hit_count s" "miss_count t = miss_count s" "ref_count t = ref_count s"
        "err_msgs t = err_msgs s" "evict_clean_count t = evict_clean_count s"
        "evict_dirty_count t = evict_dirty_count s" "same_policy s t"
        by (simp_all add: t_def same_policy_def)
      have ent: "entry_at t q = (if fst q = ?i \<and> snd q < 4096 then Some ?fresh else entry_at s q)" for q
        using None by (cases q) (simp add: entry_at_def t_def)
      have old: "fst q = ?i \<Longrightarrow> entry_at s q = None" for q
        using None by (simp add: entry_at_def)
      have "sizes_ok t" "counters_ok t"
        using inv by (simp_all add: vm_inv_def sizes_ok_def counters_ok_def used_frames_def same)
      moreover have "slots_inv t"
      proof (rule slots_invI)
        have slot: "slot_ok t = slot_ok s" by (simp add: slot_ok_def fun_eq_iff same)
        show "entry_ok t e" if "entry_at t q = Some e" for q e
          using that slots_invD(1) [of s q e] inv by (auto simp: ent vm_inv_def entry_ok_def slot split: if_splits)
        show "q = r" if h: "entry_at t q = Some e" "entry_at t r = Some e'" "swap_off e = swap_off e'" "swap_off e \<noteq> -1"
          for q r e e'
        proof -
          have "entry_at s q = Some e" "entry_at s r = Some e'"
            using h by (auto simp: ent split: if_splits)
          then show ?thesis using slots_invD(2) [of s q e r e'] inv h(3,4) by (simp add: vm_inv_def)
        qed
        show "\<exists>q e. entry_at t q = Some e \<and> swap_off e = slot_off k"
          if k: "k < nbits (swapmap t)" "slot_used (swapmap t) k" for k
        proof -
          obtain q e where q: "entry_at s q = Some e" "swap_off e = slot_off k"
            using slots_invD(3) [of s k] inv k same(3) by (auto simp: vm_inv_def)
          then have "entry_at t q = Some e" using old [of q] ent [of q] by auto
          then show ?thesis using q(2) by blast
        qed
      qed
      moreover have "frames_inv {} t"
      proof (rule frames_invI)
        have I: "frames_inv {} s" using inv by (simp add: vm_inv_def)
        show "\<exists>q e. fpte (coremap t ! k) = Some q \<and> entry_at t q = Some e \<and> is_valid e \<and> frame_of e = k"
          if k: "k < memsize t" "in_use (coremap t ! k)" "k \<notin> {}" for k
        proof -
          obtain q e where q: "fpte (coremap s ! k) = Some q" "entry_at s q = Some e" "is_valid e" "frame_of e = k"
            using frames_invD(1) [OF I, of k] k same by auto
          then have "entry_at t q = Some e" using old [of q] ent [of q] by auto
          then show ?thesis using q same by auto
        qed
        show "frame_of e < memsize t \<and> frame_of e \<notin> {} \<and> in_use (coremap t ! frame_of e) \<and>
            fpte (coremap t ! frame_of e) = Some q" if "entry_at t q = Some e" "is_valid e" for q e
        proof -
          have "entry_at s q = Some e" using that by (auto simp: ent split: if_splits)
          then show ?thesis using frames_invD(2) [OF I _ that(2)] same by simp
        qed
      qed
      moreover have "page_bytes t = page_bytes s"
        using old by (auto simp: page_bytes_def ent fun_eq_iff same split: option.splits)
      moreover have "stock s t"
      proof -
        have "dom (pgdir t) = insert ?i (dom (pgdir s))" "?i \<notin> dom (pgdir s)"
          "pagetables_left t = pagetables_left s - 1"
          using None by (auto simp: t_def)
        then show ?thesis
          using False idx(1) same(1,3) finite_subset [OF _ finite_lessThan [of 4096], of "dom (pgdir s)"]
          by (auto simp: stock_def tables_ok_def)
      qed
      ultimately show ?thesis
        using run idx same by (auto simp: vm_inv_def ent vpage_def)
    qed
  qed
qed

section \<open>Translation of a reference\<close>

text \<open>The page is the one it was, or a new one holding only its address.\<close>

definition page_content :: "sim \<Rightarrow> addr_t \<Rightarrow> byte list" where
  "page_content s vaddr = (case page_bytes s (vpage vaddr) of None \<Rightarrow> fresh_page vaddr | Some c \<Rightarrow> c)"

definition resident :: "sim \<Rightarrow> pte_ptr \<Rightarrow> bool" where
  "resident s p \<longleftrightarrow> (\<exists>e. entry_at s p = Some e \<and> is_valid e)"

text \<open>What a successful \<open>find_physpage\<close> does, whatever the replacement algorithm.\<close>

definition translated :: "sim \<Rightarrow> addr_t \<Rightarrow> nat \<Rightarrow> sim \<Rightarrow> bool" where
  "translated s vaddr f t \<longleftrightarrow> vm_inv t \<and> in_frame s (vpage vaddr) f (page_content s vaddr) t \<and>
     err_msgs t = err_msgs s \<and> ref_count t = ref_count s + 1 \<and> stock s t"

context replacement
begin

lemma vm_inv_finish:
  assumes "counters_ok s" and "in_frame s p f c t"
    and "0 \<le> hit_count t" "hit_count t + miss_count t = ref_count t"
    and "miss_count t = evict_clean_count t + evict_dirty_count t + int (card (used_frames t))"
    and "evict_clean_count s \<le> evict_clean_count t" "evict_dirty_count s \<le> evict_dirty_count t"
  shows "vm_inv t"
  using assms by (simp add: vm_inv_def in_frame_def counters_ok_def)

lemma find_physpage_run:
  assumes inv: "vm_inv s" and pol: "pinv (used_frames s) s" and v: "unat vaddr < 2 ^ 36"
  shows "(\<exists>t. find_physpage A vaddr type s = (Exit 1, t) \<and> (swap_full s \<or> no_table vaddr s)) \<or>
    (\<exists>f t. find_physpage A vaddr type s = (Ok (f * 16), t) \<and> translated s vaddr f t \<and> pinv (used_frames t) t)"
proof -
  let ?p = "vpage vaddr"
  from find_pte_run [OF inv v] show ?thesis
  proof (elim disjE exE conjE)
    assume "find_pte vaddr s = (Exit 1, s)" "no_table vaddr s"
    then show ?thesis by (simp add: find_physpage_def bnd_def)
  next
    fix s1 e
    assume 1: "find_pte vaddr s = (Ok ?p, s1)" "vm_inv s1" "page_bytes s1 = page_bytes s" "entry_at s1 ?p = Some e"
      "same_policy s s1" "coremap s1 = coremap s" "memsize s1 = memsize s" "swapmap s1 = swapmap s" "stock s s1"
      "hit_count s1 = hit_count s" "miss_count s1 = miss_count s" "ref_count s1 = ref_count s" "err_msgs s1 = err_msgs s"
      "evict_clean_count s1 = evict_clean_count s" "evict_dirty_count s1 = evict_dirty_count s"
    have used: "used_frames s1 = used_frames s" using 1(6,7) by (simp add: used_frames_def)
    have pol1: "pinv (used_frames s1) s1" using pinv_policy [OF 1(5) pol] used by simp
    have cnt: "counters_ok s" "counters_ok s1" using inv 1(2) by (simp_all add: vm_inv_def)
    have lift: "in_frame s ?p f c t" if "in_frame s1 ?p f c t" for f c t
      using that 1(3,7) by (simp add: in_frame_def)
    have content: "page_content s vaddr = (case page_bytes s1 ?p of None \<Rightarrow> fresh_page vaddr | Some c \<Rightarrow> c)"
      by (simp add: page_content_def 1(3))
    show ?thesis
    proof (cases "is_valid e")
      case True
      let ?u = "s1\<lparr>hit_count := hit_count s1 + 1\<rparr>"
      have run: "find_physpage A vaddr type s = reference_page A ?p type ?u"
        using 1(1,4) True by (simp add: find_physpage_def prog bnd_run)
      have same: "set_entry ?p (set_flag 1 e) ?u = ?u"
      proof -
        have "pframe e OR 1 = pframe e"
          using True by (auto simp: bit_eq_iff [where ?'a = "32 word"] bit_simps)
        then have "set_flag 1 e = e" by (simp add: set_flag_def)
        then show ?thesis using 1(4) by (auto simp: set_entry_def entry_at_def fun_eq_iff split: option.splits if_splits)
      qed
      have bytes: "page_bytes s1 ?p = Some (page_content s vaddr)"
        using page_bytes_simps(1) [OF 1(4) True] content by simp
      have view: "same_view s1 ?u" by (simp add: same_view_def)
      have "in_frame s1 ?p (frame_of e) (page_content s vaddr) ?u"
        using 1(2,4) True bytes same_view_sizes [OF view] same_view_frames [OF view] same_view_slots [OF view]
          same_view_bytes [OF view] by (simp add: in_frame_def vm_inv_def fun_eq_iff)
      moreover have "pinv (used_frames s1) ?u"
        by (rule pinv_policy [OF _ pol1]) (simp add: same_policy_def)
      moreover have "insert (frame_of e) (used_frames s1) = used_frames ?u"
        using frames_invD(2) [of "{}" s1 ?p e] 1(2,4) True by (auto simp: vm_inv_def used_frames_def)
      ultimately obtain t where t: "reference_page A ?p type ?u = (Ok (frame_of e * 16), t)"
        "in_frame s1 ?p (frame_of e) (page_content s vaddr) t" "pinv (used_frames t) t" "used_frames t = used_frames ?u" "same_ledger ?u t"
        "hit_count t = hit_count ?u" "miss_count t = miss_count ?u" "ref_count t = ref_count ?u + 1"
        "err_msgs t = err_msgs ?u" "evict_clean_count t = evict_clean_count ?u" "evict_dirty_count t = evict_dirty_count ?u"
        using reference_page_run [of ?u ?p e ?u] 1(4) same by (metis entry_at_upd(5))
      have "used_frames ?u = used_frames s1" by (simp add: used_frames_def)
      then have "vm_inv t"
        using vm_inv_finish [OF cnt(2) t(2)] t(4,6-11) cnt(2) by (simp add: counters_ok_def)
      then have "translated s vaddr (frame_of e) t"
        using lift [OF t(2)] t(8,9) 1(12,13) stock_trans [OF 1(9), of t] ledger_stock [of s1 t] t(5)
        by (simp add: translated_def same_ledger_def)
      then show ?thesis using run t(1,3) by auto
    next
      case False
      from page_fault_run [OF 1(2) pol1 1(4) False, of vaddr, folded content] show ?thesis
      proof (elim disjE exE conjE)
        fix t assume "page_fault A vaddr ?p s1 = (Exit 1, t)" "swap_full s1"
        then have "swap_full s" using swap_full_cong [OF 1(8,3)] by simp
        then show ?thesis
          using \<open>page_fault A vaddr ?p s1 = (Exit 1, t)\<close> 1(1,4) False by (simp add: find_physpage_def prog bnd_def)
      next
        fix f e1 t0
        assume 2: "page_fault A vaddr ?p s1 = (Ok (), t0)" "entry_at t0 ?p = Some e1"
          "in_frame s1 ?p f (page_content s vaddr) (set_entry ?p (set_flag 1 e1) t0)" "pinv (used_frames t0 - {f}) t0" "same_ledger s1 t0"
          "hit_count t0 = hit_count s1" "miss_count t0 = miss_count s1 + 1" "ref_count t0 = ref_count s1"
          "err_msgs t0 = err_msgs s1" "evict_clean_count s1 \<le> evict_clean_count t0"
          "evict_dirty_count s1 \<le> evict_dirty_count t0"
          "evict_clean_count t0 + evict_dirty_count t0 + int (card (used_frames t0)) =
           evict_clean_count s1 + evict_dirty_count s1 + int (card (used_frames s1)) + 1"
        let ?u = "set_entry ?p (set_flag 1 e1) t0"
        have run: "find_physpage A vaddr type s = reference_page A ?p type t0"
          using 1(1,4) 2(1) False by (simp add: find_physpage_def prog bnd_run)
        have eu: "entry_at ?u ?p = Some (set_flag 1 e1)" using 2(2) by simp
        have fu: "f < memsize ?u \<and> in_use (coremap ?u ! f)"
          using frames_invD(2) [of "{}" ?u ?p "set_flag 1 e1"] 2(3) eu by (auto simp: in_frame_def)
        have uu: "used_frames ?u = used_frames t0" by (simp add: used_frames_def)
        have "insert f (used_frames t0 - {f}) = used_frames ?u"
          unfolding uu using fu by (auto simp: used_frames_def)
        moreover have "pinv (used_frames t0 - {f}) ?u"
          by (rule pinv_policy [OF _ 2(4)]) (simp add: same_policy_def)
        ultimately obtain t where t: "reference_page A ?p type t0 = (Ok (f * 16), t)"
          "in_frame s1 ?p f (page_content s vaddr) t" "pinv (used_frames t) t" "used_frames t = used_frames ?u" "same_ledger ?u t"
          "hit_count t = hit_count ?u" "miss_count t = miss_count ?u" "ref_count t = ref_count ?u + 1"
          "err_msgs t = err_msgs ?u" "evict_clean_count t = evict_clean_count ?u" "evict_dirty_count t = evict_dirty_count ?u"
          using reference_page_run [OF 2(2) refl 2(3)] by metis
        have "vm_inv t"
          using vm_inv_finish [OF cnt(2) t(2)] t(4,6-11) cnt(2) 2(6-12) uu by (simp add: counters_ok_def)
        then have "translated s vaddr f t"
          using lift [OF t(2)] t(8,9) 2(8,9) 1(12,13) stock_trans [OF 1(9), of t] ledger_stock [of s1 t] t(5) 2(5)
          by (simp add: translated_def same_ledger_def)
        then show ?thesis using run t(1,3) by auto
      qed
    qed
  qed
qed

end

end
