(* ===== verification/Report.thy ===== *)
theory Report
  imports PageTable
begin

text \<open>
  \<open>print_pagetbl\<close> and \<open>print_pagedirectory\<close> of \<^verbatim>\<open>Assignment3/pagetable.c\<close>: runs of invalid entries
  are printed as one line.  Reading the report of a table back gives the status of every entry, in
  order; that of the directory ends with the last entry in use.
\<close>

section \<open>The code\<close>

text \<open>
  The two functions share the shape of their loop: \<open>first_invalid\<close> and \<open>last_invalid\<close> are -1 while
  no run is open (here \<open>None\<close>), a printed entry closes the open run.  \<open>show i = None\<close> says that
  entry \<open>i\<close> is invalid.
\<close>

definition close_run :: "(nat \<times> nat) option \<Rightarrow> 'a report_line list" where
  "close_run run = (case run of None \<Rightarrow> [] | Some (first_invalid, last_invalid) \<Rightarrow> [Invalid_run first_invalid last_invalid])"

definition print_step :: "(nat \<Rightarrow> 'a option) \<Rightarrow> nat \<Rightarrow> (nat \<times> nat) option \<times> 'a report_line list \<Rightarrow>
    (nat \<times> nat) option \<times> 'a report_line list" where
  "print_step show i st = (case st of (run, out) \<Rightarrow> (case show i of
       None \<Rightarrow> (Some (case run of None \<Rightarrow> i | Some (first_invalid, _) \<Rightarrow> first_invalid, i), out)
     | Some x \<Rightarrow> (None, out @ close_run run @ [Line i x])))"

definition print_loop :: "(nat \<Rightarrow> 'a option) \<Rightarrow> nat \<Rightarrow> (nat \<times> nat) option \<times> 'a report_line list" where
  "print_loop show n = fold (print_step show) [0..<n] (None, [])"

definition pte_shown :: "pgtbl_entry \<Rightarrow> pte_status option" where
  "pte_shown e = (if \<not> has_flag PG_VALID e \<and> \<not> has_flag PG_ONSWAP e then None
     else if has_flag PG_VALID e then Some (Valid_in (frame_of e) (has_flag PG_DIRTY e))
     else Some (On_swap (swap_off e)))"

definition print_pagetbl :: "(nat \<Rightarrow> pgtbl_entry) \<Rightarrow> pte_status report_line list" where
  "print_pagetbl pgtbl = (case print_loop (\<lambda>i. pte_shown (pgtbl i)) PTRS_PER_PGTBL of (run, out) \<Rightarrow> out @ close_run run)"

text \<open>After its loop \<open>print_pagetbl\<close> closes the open run; \<open>print_pagedirectory\<close> prints nothing more.\<close>

definition print_pagedirectory :: "(sim, unit) prog" where
  "print_pagedirectory = upd (\<lambda>s. s\<lparr>report :=
     (case print_loop (\<lambda>i. map_option print_pagetbl (pgdir s i)) PTRS_PER_PGDIR of (run, out) \<Rightarrow> out)\<rparr>)"

section \<open>Reading a report\<close>

primrec read_line :: "'a report_line \<Rightarrow> (nat \<times> 'a option) list" where
  "read_line (Invalid_run a b) = map (\<lambda>i. (i, None)) [a..<Suc b]"
| "read_line (Line i x) = [(i, Some x)]"

definition read_report :: "'a report_line list \<Rightarrow> (nat \<times> 'a option) list" where
  "read_report ls = concat (map read_line ls)"

lemma read_report_append [simp]: "read_report (xs @ ys) = read_report xs @ read_report ys"
  by (simp add: read_report_def)

lemma print_loop_Suc: "print_loop show (Suc n) = print_step show n (print_loop show n)"
  by (simp add: print_loop_def)

lemma read_close_run:
  "read_report (close_run None) = []"
  "a \<le> b \<Longrightarrow> read_report (close_run (Some (a, b))) = map (\<lambda>i. (i, None)) [a..<Suc b]"
  by (simp_all add: close_run_def read_report_def)

text \<open>
  The output so far stands for the entries below \<open>m\<close>, the end of the last run of entries in use; from
  \<open>m\<close> on all are invalid and make up the open run.
\<close>

lemma print_loop_inv:
  "\<exists>m \<le> n. (\<forall>i. m \<le> i \<longrightarrow> i < n \<longrightarrow> show i = None) \<and> (0 < m \<longrightarrow> show (m - 1) \<noteq> None) \<and>
     fst (print_loop show n) = (if m < n then Some (m, n - 1) else None) \<and>
     read_report (snd (print_loop show n)) = map (\<lambda>i. (i, show i)) [0..<m]"
proof (induction n)
  case 0
  show ?case by (simp add: print_loop_def read_report_def)
next
  case (Suc n)
  then obtain m where m: "m \<le> n" "\<forall>i. m \<le> i \<longrightarrow> i < n \<longrightarrow> show i = None" "0 < m \<longrightarrow> show (m - 1) \<noteq> None"
    "fst (print_loop show n) = (if m < n then Some (m, n - 1) else None)"
    "read_report (snd (print_loop show n)) = map (\<lambda>i. (i, show i)) [0..<m]"
    by blast
  obtain run out where st: "print_loop show n = (run, out)" by fastforce
  show ?case
  proof (cases "show n")
    case None
    then show ?thesis
      using m st by (intro exI [of _ m]) (auto simp: print_loop_Suc print_step_def less_Suc_eq)
  next
    case (Some x)
    have "map (\<lambda>i. (i, show i)) [m..<n] = map (\<lambda>i. (i, None)) [m..<n]"
      using m(2) by simp
    then have "read_report (close_run run) = map (\<lambda>i. (i, show i)) [m..<n]"
      using m(1,4) st by (auto simp: read_close_run)
    moreover have "[0..<m] @ [m..<n] = [0..<n]"
      using m(1) upt_add_eq_append [of 0 m "n - m"] by simp
    ultimately have "read_report (out @ close_run run) = map (\<lambda>i. (i, show i)) [0..<n]"
      using m(5) st by (metis map_append read_report_append snd_conv)
    then have "read_report (out @ close_run run @ [Line n x]) = map (\<lambda>i. (i, show i)) [0..<Suc n]"
      using Some by (simp add: read_report_def)
    then show ?thesis
      using Some st by (intro exI [of _ "Suc n"]) (auto simp: print_loop_Suc print_step_def)
  qed
qed

lemma read_closed: "read_report (case print_loop show n of (run, out) \<Rightarrow> out @ close_run run) = map (\<lambda>i. (i, show i)) [0..<n]"
proof -
  obtain m where m: "m \<le> n" "\<forall>i. m \<le> i \<longrightarrow> i < n \<longrightarrow> show i = None"
    "fst (print_loop show n) = (if m < n then Some (m, n - 1) else None)"
    "read_report (snd (print_loop show n)) = map (\<lambda>i. (i, show i)) [0..<m]"
    using print_loop_inv by blast
  have "map (\<lambda>i. (i, show i)) [m..<n] = map (\<lambda>i. (i, None)) [m..<n]"
    using m(2) by simp
  then have "read_report (close_run (fst (print_loop show n))) = map (\<lambda>i. (i, show i)) [m..<n]"
    using m(1,3) by (auto simp: read_close_run)
  moreover have "[0..<m] @ [m..<n] = [0..<n]"
    using m(1) upt_add_eq_append [of 0 m "n - m"] by simp
  ultimately show ?thesis
    using m(4) by (metis (no_types, lifting) case_prod_beta' map_append read_report_append)
qed

text \<open>
  C20: The printed report is exact.  A table report, read back, gives for each of its 4096 entries in
  order whether it is invalid, in which frame it is and whether it is dirty, or at which swap offset
  it is.  The report of the directory, read back, gives the entries in order up to the last one in
  use, each either invalid or with its table report; the invalid entries behind the last one in use
  are not printed.
\<close>

theorem report_exact:
  "(\<exists>m \<le> 4096. (\<forall>i. m \<le> i \<longrightarrow> i < 4096 \<longrightarrow> pgdir s i = None) \<and> (0 < m \<longrightarrow> pgdir s (m - 1) \<noteq> None) \<and>
     read_report (report (snd (print_pagedirectory s))) = map (\<lambda>i. (i, map_option print_pagetbl (pgdir s i))) [0..<m]) \<and>
   read_report (print_pagetbl tbl) = map (\<lambda>j. (j, pte_shown (tbl j))) [0..<4096]"
  using print_loop_inv [of 4096 "\<lambda>i. map_option print_pagetbl (pgdir s i)"]
  by (auto simp: print_pagedirectory_def print_pagetbl_def read_closed upd_run split: prod.splits)

lemma report_exact_witness:
  "\<exists>m. read_report (report (snd (print_pagedirectory mapped_demo))) =
      map (\<lambda>i. (i, map_option print_pagetbl (pgdir mapped_demo i))) [0..<m] \<and> m = 1"
proof -
  obtain m where m: "m \<le> 4096" "\<forall>i. m \<le> i \<longrightarrow> i < 4096 \<longrightarrow> pgdir mapped_demo i = None"
    "0 < m \<longrightarrow> pgdir mapped_demo (m - 1) \<noteq> None"
    "read_report (report (snd (print_pagedirectory mapped_demo))) = map (\<lambda>i. (i, map_option print_pagetbl (pgdir mapped_demo i))) [0..<m]"
    using report_exact [of mapped_demo "\<lambda>_. undefined"] by blast
  have "pgdir mapped_demo i = None \<longleftrightarrow> i \<noteq> 0" for i
    by (simp add: mapped_demo_def)
  with m(1-3) spec [OF m(2), of 0] have "m = 1"
    by (cases m) auto
  with m(4) show ?thesis by blast
qed

end
