(* ===== verification/Fifo_Rand.thy ===== *)
theory Fifo_Rand
  imports Replacement
begin

text \<open>\<^verbatim>\<open>Assignment3/fifo.c\<close> and \<^verbatim>\<open>Assignment3/rand.c\<close>.  With no frame at all both divide by zero.\<close>

section \<open>FIFO\<close>

definition fifo_evict :: "(sim, nat) prog" where
  "fifo_evict = bnd (peek (\<lambda>s. (head_of_fifo s, memsize s))) (\<lambda>(evicted_page, m).
     thn (need (m \<noteq> 0))
    (thn (upd (\<lambda>s. s\<lparr>head_of_fifo := (evicted_page + 1) mod m\<rparr>))
         (ret evicted_page)))"

definition fifo_ref :: "pte_ptr \<Rightarrow> (sim, unit) prog" where
  "fifo_ref p = ret ()"

definition fifo_init :: "(sim, unit) prog" where
  "fifo_init = upd (\<lambda>s. s\<lparr>head_of_fifo := 0\<rparr>)"

definition fifo :: algorithm where
  "fifo = \<lparr>alg_name = ''fifo'', init_fcn = fifo_init, ref_fcn = fifo_ref, evict_fcn = fifo_evict\<rparr>"

definition fifo_inv :: "nat set \<Rightarrow> sim \<Rightarrow> bool" where
  "fifo_inv F s \<longleftrightarrow> head_of_fifo s < memsize s"

interpretation fifo_alg: replacement fifo fifo_inv
  by unfold_locales (auto simp: fifo_def fifo_init_def fifo_ref_def fifo_evict_def fifo_inv_def prog
      same_core_def same_policy_def)

section \<open>Random\<close>

definition rand_evict :: "(sim, nat) prog" where
  "rand_evict = bnd (peek (\<lambda>s. (random_seq s 0, memsize s))) (\<lambda>(r, m).
     thn (need (m \<noteq> 0))
    (thn (upd (\<lambda>s. s\<lparr>random_seq := (\<lambda>n. random_seq s (Suc n))\<rparr>))
         (ret (r mod m))))"

definition rand_ref :: "pte_ptr \<Rightarrow> (sim, unit) prog" where
  "rand_ref p = ret ()"

definition rand_init :: "(sim, unit) prog" where
  "rand_init = ret ()"

definition rand :: algorithm where
  "rand = \<lparr>alg_name = ''rand'', init_fcn = rand_init, ref_fcn = rand_ref, evict_fcn = rand_evict\<rparr>"

definition rand_inv :: "nat set \<Rightarrow> sim \<Rightarrow> bool" where
  "rand_inv F s \<longleftrightarrow> True"

interpretation rand_alg: replacement rand rand_inv
  by unfold_locales (auto simp: rand_def rand_init_def rand_ref_def rand_evict_def rand_inv_def prog
      same_core_def)

section \<open>FIFO evicts the frames in rotation\<close>

primrec evictions :: "algorithm \<Rightarrow> nat \<Rightarrow> (sim, nat list) prog" where
  "evictions A 0 = ret []"
| "evictions A (Suc n) = bnd (evict_fcn A) (\<lambda>f. bnd (evictions A n) (\<lambda>fs. ret (f # fs)))"

lemma fifo_evictions:
  "head_of_fifo s < memsize s \<Longrightarrow> \<exists>t. evictions fifo n s = (Ok (map (\<lambda>k. (head_of_fifo s + k) mod memsize s) [0..<n]), t)"
proof (induction n arbitrary: s)
  case 0
  then show ?case by (simp add: prog)
next
  case (Suc n)
  let ?t = "s\<lparr>head_of_fifo := (head_of_fifo s + 1) mod memsize s\<rparr>"
  have m: "memsize s \<noteq> 0" using Suc.prems by auto
  then obtain u where u: "evictions fifo n ?t =
      (Ok (map (\<lambda>k. ((head_of_fifo s + 1) mod memsize s + k) mod memsize s) [0..<n]), u)"
    using Suc.IH [of ?t] by auto
  have "map (\<lambda>k. (head_of_fifo s + k) mod memsize s) [0..<Suc n] =
      head_of_fifo s # map (\<lambda>k. ((head_of_fifo s + 1) mod memsize s + k) mod memsize s) [0..<n]"
    using Suc.prems by (simp add: upt_conv_Cons map_Suc_upt [symmetric] mod_simps comp_def del: upt_Suc)
  moreover have "evict_fcn fifo s = (Ok (head_of_fifo s), ?t)"
    using m by (simp add: fifo_def fifo_evict_def prog)
  ultimately show ?case
    using u by (simp add: bnd_def ret_def del: upt_Suc)
qed

end
