(* ===== verification/Clock.thy ===== *)
theory Clock
  imports Replacement
begin

text \<open>
  \<^verbatim>\<open>Assignment3/clock.c\<close>: the scan of the clock hand, its specification (the first unreferenced
  frame in circular order from the hand, or the frame under the hand when all are referenced) and
  the instance of the replacement contract.  The loop of \<open>clock_evict\<close> never leaves by its own
  condition: it returns, or the hand is out of range and \<open>assert(0)\<close> fails.
\<close>

section \<open>The code\<close>

text \<open>The loop of \<open>clock_evict\<close>: an index outside the allocated array is a fault.\<close>

function clock_loop :: "nat \<Rightarrow> nat \<Rightarrow> bool list \<Rightarrow> (nat \<times> bool list) option" where
  "clock_loop m i rs =
     (if i < m \<and> i < length rs then
        if rs ! i then clock_loop m ((i + 1) mod m) (rs[i := False])
        else Some (i, rs[i := True])
      else None)"
  by pat_completeness auto

lemma filter_id_update: "i < length rs \<Longrightarrow> rs ! i \<Longrightarrow>
    length (filter id (rs[i := False])) < length (filter id rs)"
  by (induction rs arbitrary: i) (auto simp: nth_Cons' split: nat.splits)

termination clock_loop
  by (relation "measure (\<lambda>(m, i, rs). length (filter id rs))") (auto intro: filter_id_update)

declare clock_loop.simps [simp del]

definition clock_evict :: "(sim, nat) prog" where
  "clock_evict = bnd (peek (\<lambda>s. clock_loop (memsize s) (clockhand s) (referenced s))) (\<lambda>r. case r of
       None \<Rightarrow> faultp
     | Some (i, rs) \<Rightarrow> thn (upd (\<lambda>s. s\<lparr>clockhand := i, referenced := rs\<rparr>)) (ret i))"

definition clock_ref :: "pte_ptr \<Rightarrow> (sim, unit) prog" where
  "clock_ref p = bnd (pte_read p) (\<lambda>e. let frame = frame_of e in
     bnd (peek referenced) (\<lambda>rs. thn (need (frame < length rs))
       (upd (\<lambda>s. s\<lparr>referenced := (referenced s)[frame := True]\<rparr>))))"

definition clock_init :: "(sim, unit) prog" where
  "clock_init = upd (\<lambda>s. s\<lparr>clockhand := 0, referenced := replicate (memsize s) False\<rparr>)"

definition clock :: algorithm where
  "clock = \<lparr>alg_name = ''clock'', init_fcn = clock_init, ref_fcn = clock_ref, evict_fcn = clock_evict\<rparr>"

section \<open>The scan, specified\<close>

text \<open>
  The frames in the order the hand passes them, and the specification: evict the first one that is
  not referenced, the one under the hand if all are, and clear the bits of those passed.
\<close>

definition clock_order :: "nat \<Rightarrow> nat \<Rightarrow> nat list" where
  "clock_order m h = map (\<lambda>k. (h + k) mod m) [0..<m]"

definition clock_victim :: "bool list \<Rightarrow> nat \<Rightarrow> nat" where
  "clock_victim rs h = (case find (\<lambda>i. \<not> rs ! i) (clock_order (length rs) h) of None \<Rightarrow> h | Some i \<Rightarrow> i)"

definition clock_passed :: "bool list \<Rightarrow> nat \<Rightarrow> nat set" where
  "clock_passed rs h = set (takeWhile (\<lambda>i. rs ! i) (clock_order (length rs) h))"

text \<open>
  One induction covers both cases: after \<open>j\<close> steps the bits of the frames passed are clear, and
  the rest of the scan is the scan of the original array.
\<close>

definition clear_passed :: "bool list \<Rightarrow> nat \<Rightarrow> nat \<Rightarrow> bool list" where
  "clear_passed rs h j = map (\<lambda>i. rs ! i \<and> (\<forall>k < j. i \<noteq> (h + k) mod length rs)) [0..<length rs]"

lemma clear_passed_simps [simp]:
  "length (clear_passed rs h j) = length rs"
  "i < length rs \<Longrightarrow> clear_passed rs h j ! i \<longleftrightarrow> rs ! i \<and> (\<forall>k < j. i \<noteq> (h + k) mod length rs)"
  by (simp_all add: clear_passed_def)

lemma mod_add_inj: "h < (m :: nat) \<Longrightarrow> j < m \<Longrightarrow> k < m \<Longrightarrow> (h + j) mod m = (h + k) mod m \<longleftrightarrow> j = k"
  by (auto simp: mod_if split: if_splits)

lemma clear_passed_0 [simp]: "clear_passed rs h 0 = rs"
  by (rule nth_equalityI) auto

lemma clear_passed_step:
  assumes "h < length rs"
  shows "(clear_passed rs h j)[(h + j) mod length rs := False] = clear_passed rs h (Suc j)"
proof (rule nth_equalityI)
  fix i assume "i < length ((clear_passed rs h j)[(h + j) mod length rs := False])"
  then have i: "i < length rs" by simp
  show "(clear_passed rs h j)[(h + j) mod length rs := False] ! i = clear_passed rs h (Suc j) ! i"
  proof (cases "i = (h + j) mod length rs")
    case True
    with i show ?thesis by auto
  next
    case False
    with i show ?thesis by (auto simp: less_Suc_eq)
  qed
qed simp

lemma clear_passed_ahead:
  assumes "h < length rs" "j < length rs"
  shows "clear_passed rs h j ! ((h + j) mod length rs) = rs ! ((h + j) mod length rs)"
proof -
  have "(h + j) mod length rs < length rs" using assms(1) by (intro mod_less_divisor) auto
  moreover have "(h + j) mod length rs \<noteq> (h + k) mod length rs" if "k < j" for k
    using mod_add_inj [of h "length rs" j k] assms that by auto
  ultimately show ?thesis by simp
qed

lemma clock_loop_scan:
  assumes h: "h < length rs" and n: "n \<le> length rs" "\<forall>k < n. rs ! ((h + k) mod length rs)"
    and stop: "n = length rs \<or> \<not> rs ! ((h + n) mod length rs)" and "j \<le> n"
  shows "clock_loop (length rs) ((h + j) mod length rs) (clear_passed rs h j) =
    Some ((h + n) mod length rs, (clear_passed rs h n)[(h + n) mod length rs := True])"
  using \<open>j \<le> n\<close>
proof (induction "n - j" arbitrary: j)
  case 0
  then have j: "j = n" by simp
  have lt: "(h + n) mod length rs < length rs" using h by (intro mod_less_divisor) auto
  have "\<not> clear_passed rs h n ! ((h + n) mod length rs)"
    using stop
  proof
    assume "n = length rs"
    then have "(h + n) mod length rs = (h + 0) mod length rs" "0 < n" using h by auto
    then show ?thesis using lt by (metis clear_passed_simps(2))
  qed (use lt in simp)
  then show ?case unfolding j using lt
    by (subst clock_loop.simps) (simp del: clear_passed_simps(2))
next
  case (Suc d)
  then have j: "j < n" "j < length rs" using n by auto
  have lt: "(h + j) mod length rs < length rs" using h by (intro mod_less_divisor) auto
  have "clear_passed rs h j ! ((h + j) mod length rs)"
    using clear_passed_ahead [OF h j(2)] n(2) j by simp
  then have "clock_loop (length rs) ((h + j) mod length rs) (clear_passed rs h j) =
      clock_loop (length rs) ((h + Suc j) mod length rs) (clear_passed rs h (Suc j))"
    using lt clear_passed_step [OF h, of j] by (subst clock_loop.simps) (simp add: mod_Suc_eq)
  then show ?case
    using Suc.hyps(1) [of "Suc j"] Suc.hyps(2) j by simp
qed

text \<open>The number of frames the hand passes, and what the scan returns.\<close>

definition clock_run :: "bool list \<Rightarrow> nat \<Rightarrow> nat" where
  "clock_run rs h = length (takeWhile (\<lambda>i. rs ! i) (clock_order (length rs) h))"

lemma length_clock_order [simp]: "length (clock_order m h) = m"
  by (simp add: clock_order_def)

lemma clock_order_nth: "k < m \<Longrightarrow> clock_order m h ! k = (h + k) mod m"
  by (simp add: clock_order_def)

lemma clock_run_props:
  shows "clock_run rs h \<le> length rs"
    and "\<forall>k < clock_run rs h. rs ! ((h + k) mod length rs)"
    and "clock_run rs h = length rs \<or> \<not> rs ! ((h + clock_run rs h) mod length rs)"
proof -
  let ?o = "clock_order (length rs) h"
  have len: "length ?o = length rs" by (rule length_clock_order)
  show le: "clock_run rs h \<le> length rs"
    using length_takeWhile_le [of "\<lambda>i. rs ! i" ?o] len by (simp add: clock_run_def)
  show "\<forall>k < clock_run rs h. rs ! ((h + k) mod length rs)"
  proof (intro allI impI)
    fix k assume k: "k < clock_run rs h"
    then have "takeWhile (\<lambda>i. rs ! i) ?o ! k \<in> set (takeWhile (\<lambda>i. rs ! i) ?o)"
      by (simp add: clock_run_def)
    then have "rs ! (takeWhile (\<lambda>i. rs ! i) ?o ! k)" by (rule set_takeWhileD [THEN conjunct2])
    then show "rs ! ((h + k) mod length rs)"
      using k le by (simp add: clock_run_def takeWhile_nth clock_order_nth)
  qed
  show "clock_run rs h = length rs \<or> \<not> rs ! ((h + clock_run rs h) mod length rs)"
    using nth_length_takeWhile [of "\<lambda>i. rs ! i" ?o] le len clock_order_nth [of "clock_run rs h" "length rs" h]
    by (auto simp: clock_run_def)
qed

lemma clock_loop_run:
  assumes "h < length rs"
  shows "clock_loop (length rs) h rs = Some ((h + clock_run rs h) mod length rs,
    (clear_passed rs h (clock_run rs h))[(h + clock_run rs h) mod length rs := True])"
  using clock_loop_scan [OF assms clock_run_props, of 0] assms by simp

lemma find_takeWhile: "find (\<lambda>x. \<not> P x) xs =
    (let n = length (takeWhile P xs) in if n < length xs then Some (xs ! n) else None)"
  by (induction xs) (auto simp: Let_def)

lemma clock_victim_run:
  assumes "h < length rs"
  shows "clock_victim rs h = (h + clock_run rs h) mod length rs"
proof (cases "clock_run rs h < length rs")
  case True
  then show ?thesis
    by (simp add: clock_victim_def find_takeWhile Let_def clock_run_def [symmetric] clock_order_nth)
next
  case False
  then have "clock_run rs h = length rs" using clock_run_props(1) [of rs h] by simp
  then show ?thesis using assms
    by (simp add: clock_victim_def find_takeWhile Let_def clock_run_def [symmetric])
qed

lemma set_take_nth: "n \<le> length xs \<Longrightarrow> set (take n xs) = {xs ! k | k. k < n}"
  by (auto simp: set_conv_nth) (metis nth_take)

lemma clock_passed_run: "clock_passed rs h = {(h + k) mod length rs | k. k < clock_run rs h}"
proof -
  have "takeWhile (\<lambda>i. rs ! i) (clock_order (length rs) h) = take (clock_run rs h) (clock_order (length rs) h)"
    unfolding clock_run_def by (rule takeWhile_eq_take)
  then have "clock_passed rs h = {clock_order (length rs) h ! k | k. k < clock_run rs h}"
    using clock_run_props(1) [of rs h] unfolding clock_passed_def by (simp only: set_take_nth length_clock_order)
  moreover have "clock_order (length rs) h ! k = (h + k) mod length rs" if "k < clock_run rs h" for k
    using that clock_run_props(1) [of rs h] by (intro clock_order_nth) simp
  ultimately show ?thesis by (simp cong: rev_conj_cong)
qed

text \<open>
  C16: With the hand inside the array, \<open>clock_evict\<close> always returns (its \<open>assert(0)\<close> is never
  reached).  The victim is the first frame not referenced in circular order from the hand, or the
  frame under the hand when all are referenced; the frames passed lose their reference bit, the
  victim's is set for the page that is loaded next, and the hand stops on the victim.
\<close>

theorem clock_evict_spec:
  assumes "length (referenced s) = memsize s" and "clockhand s < memsize s"
  shows "clock_evict s = (let rs = referenced s; v = clock_victim rs (clockhand s) in
    (Ok v, s\<lparr>clockhand := v, referenced :=
       map (\<lambda>i. i = v \<or> rs ! i \<and> i \<notin> clock_passed rs (clockhand s)) [0..<memsize s]\<rparr>))"
proof -
  let ?rs = "referenced s" and ?h = "clockhand s"
  have h: "?h < length ?rs" using assms by simp
  let ?v = "clock_victim ?rs ?h"
  have lt: "?v < length ?rs"
    unfolding clock_victim_run [OF h] using h by (intro mod_less_divisor) auto
  have "(clear_passed ?rs ?h (clock_run ?rs ?h))[?v := True] =
      map (\<lambda>i. i = ?v \<or> ?rs ! i \<and> i \<notin> clock_passed ?rs ?h) [0..<length ?rs]"
    unfolding clock_passed_run using lt by (intro nth_equalityI) (auto simp: nth_list_update)
  then show ?thesis
    using clock_loop_run [OF h] clock_victim_run [OF h] assms
    by (simp add: clock_evict_def prog Let_def)
qed

lemma clock_evict_spec_witness:
  "let s = (sim_globals 3 (\<lambda>_. 0) 0 id)\<lparr>clockhand := 2, referenced := [True, False, True]\<rparr>
   in clock_evict s = (Ok 1, s\<lparr>clockhand := 1, referenced := [False, True, False]\<rparr>)"
proof -
  let ?s = "(sim_globals 3 (\<lambda>_. 0) 0 id)\<lparr>clockhand := 2, referenced := [True, False, True]\<rparr>"
  have "clock_victim [True, False, True] 2 = 1" "clock_passed [True, False, True] 2 = {0, 2}"
    by code_simp+
  moreover have "[0..<3] = [0, 1, 2 :: nat]" by code_simp
  ultimately show ?thesis
    using clock_evict_spec [of ?s] by (simp add: sim_globals_def Let_def)
qed

section \<open>The instance of the contract\<close>

definition clock_inv :: "nat set \<Rightarrow> sim \<Rightarrow> bool" where
  "clock_inv F s \<longleftrightarrow> length (referenced s) = memsize s \<and> clockhand s < memsize s"

lemma clock_victim_bound: "h < length rs \<Longrightarrow> clock_victim rs h < length rs"
  unfolding clock_victim_run by (intro mod_less_divisor) auto

lemma clock_evict_run:
  assumes "clock_inv F s"
  shows "\<exists>f t. clock_evict s = (Ok f, t) \<and> f < memsize s \<and> same_core s t \<and> (\<forall>F'. clock_inv F' t)"
proof -
  have "clock_victim (referenced s) (clockhand s) < memsize s"
    using assms clock_victim_bound [of "clockhand s" "referenced s"] by (simp add: clock_inv_def)
  then show ?thesis
    using assms clock_loop_run [of "clockhand s" "referenced s"]
      clock_victim_run [of "clockhand s" "referenced s"]
    by (simp add: clock_evict_def clock_inv_def prog same_core_def)
qed

interpretation clock_alg: replacement clock clock_inv
proof
  show "\<exists>f t. evict_fcn clock s = (Ok f, t) \<and> f < memsize s \<and> same_core s t \<and>
      clock_inv ({..<memsize s} - {f}) t" if "clock_inv {..<memsize s} s" for s
    using clock_evict_run [OF that] by (auto simp: clock_def)
qed (auto simp: clock_def clock_init_def clock_ref_def clock_inv_def prog Let_def same_core_def same_policy_def)

end
