(* ===== verification/Lru.thy ===== *)
theory Lru
  imports Replacement
begin

text \<open>
  \<^verbatim>\<open>Assignment3/lru.c\<close> at the level of its pointers: the queue is a singly linked list in a heap of
  nodes, \<open>malloc\<close> hands out addresses never used before, \<open>free\<close> makes an address dangling and a
  NULL or dangling dereference faults.  The list refines the plain list of frames from the least
  to the most recently used.
\<close>

section \<open>The code\<close>

definition node_at :: "nat option \<Rightarrow> (sim, lru_node) prog" where
  "node_at p = bnd (peek (\<lambda>s. Option.bind p (lru_heap s))) (\<lambda>n. case n of None \<Rightarrow> faultp | Some n \<Rightarrow> ret n)"

definition set_next_node :: "nat option \<Rightarrow> nat option \<Rightarrow> (sim, unit) prog" where
  "set_next_node p q = bnd (node_at p) (\<lambda>n.
     upd (\<lambda>s. s\<lparr>lru_heap := (lru_heap s)(the p \<mapsto> n\<lparr>next_node := q\<rparr>)\<rparr>))"

definition lru_free :: "nat option \<Rightarrow> (sim, unit) prog" where
  "lru_free p = upd (\<lambda>s. case p of None \<Rightarrow> s | Some a \<Rightarrow> s\<lparr>lru_heap := (lru_heap s)(a := None)\<rparr>)"

definition lru_malloc :: "nat \<Rightarrow> (sim, nat) prog" where
  "lru_malloc frame = bnd (peek lru_brk) (\<lambda>a.
     thn (upd (\<lambda>s. s\<lparr>lru_brk := a + 1, lru_heap := (lru_heap s)(a \<mapsto> \<lparr>node_frame = frame, next_node = None\<rparr>)\<rparr>))
         (ret a))"

definition referenced_at :: "nat \<Rightarrow> (sim, bool) prog" where
  "referenced_at frame = bnd (peek referenced) (\<lambda>rs. thn (need (frame < length rs)) (ret (rs ! frame)))"

definition set_referenced :: "nat \<Rightarrow> bool \<Rightarrow> (sim, unit) prog" where
  "set_referenced frame b = bnd (peek referenced) (\<lambda>rs. thn (need (frame < length rs))
     (upd (\<lambda>s. s\<lparr>referenced := (referenced s)[frame := b]\<rparr>)))"

definition lru_evict :: "(sim, nat) prog" where
  "lru_evict = bnd (peek (\<lambda>s. (head_of_lru s, tail_of_lru s))) (\<lambda>(h, t).
     thn (need (h \<noteq> None))
    (bnd (node_at h) (\<lambda>nd. let frame = node_frame nd in
     thn (if h = t then upd (\<lambda>s. s\<lparr>tail_of_lru := None\<rparr>) else ret ())
    (bnd (referenced_at frame) (\<lambda>r.
     thn (need r)
    (thn (set_referenced frame False)
    (bnd (node_at h) (\<lambda>nd'.
     thn (lru_free h)
    (thn (upd (\<lambda>s. s\<lparr>head_of_lru := next_node nd'\<rparr>))
         (ret frame))))))))))"

text \<open>
  The loop \<open>while (p->frame != frame)\<close>.  A walk of more steps than there are addresses has come
  back to a node it has seen and never ends.
\<close>

primrec lru_walk :: "nat \<Rightarrow> nat \<Rightarrow> nat option \<Rightarrow> nat option \<Rightarrow> (sim, nat option \<times> nat option) prog" where
  "lru_walk 0 frame p previous_node = divergep"
| "lru_walk (Suc n) frame p previous_node = bnd (node_at p) (\<lambda>nd.
     if node_frame nd \<noteq> frame then lru_walk n frame (next_node nd) p
     else ret (p, previous_node))"

definition lru_ref :: "pte_ptr \<Rightarrow> (sim, unit) prog" where
  "lru_ref pt = bnd (pte_read pt) (\<lambda>e. let frame = frame_of e in
     bnd (referenced_at frame) (\<lambda>r.
     if r then
       bnd (lru_malloc frame) (\<lambda>new_node.
       bnd (peek tail_of_lru) (\<lambda>t.
       thn (set_next_node t (Some new_node))
      (thn (upd (\<lambda>s. s\<lparr>tail_of_lru := Some new_node\<rparr>))
      (bnd (peek (\<lambda>s. (head_of_lru s, lru_brk s))) (\<lambda>(h, n).
       bnd (lru_walk (Suc n) frame h None) (\<lambda>(p, previous_node).
       bnd (node_at p) (\<lambda>nd.
       if previous_node \<noteq> None then
         thn (set_next_node previous_node (next_node nd)) (lru_free p)
       else
         thn (upd (\<lambda>s. s\<lparr>head_of_lru := next_node nd\<rparr>))
        (thn (lru_free p)
             (upd (\<lambda>s. if head_of_lru s = None then s\<lparr>tail_of_lru := None\<rparr> else s))))))))))
     else
       thn (set_referenced frame True)
      (bnd (lru_malloc frame) (\<lambda>new_node.
       bnd (peek tail_of_lru) (\<lambda>t.
       if t = None then
         upd (\<lambda>s. s\<lparr>tail_of_lru := Some new_node, head_of_lru := Some new_node\<rparr>)
       else
         thn (set_next_node t (Some new_node))
             (upd (\<lambda>s. s\<lparr>tail_of_lru := Some new_node\<rparr>))))))) "

definition lru_init :: "(sim, unit) prog" where
  "lru_init = upd (\<lambda>s. s\<lparr>head_of_lru := None, tail_of_lru := None, referenced := replicate (memsize s) False\<rparr>)"

definition lru :: algorithm where
  "lru = \<lparr>alg_name = ''lru'', init_fcn = lru_init, ref_fcn = lru_ref, evict_fcn = lru_evict\<rparr>"

section \<open>Lists in the heap\<close>

text \<open>A segment: nodes at the given addresses with the given frames, linked from \<open>p\<close> up to \<open>r\<close>.\<close>

fun seg :: "(nat \<Rightarrow> lru_node option) \<Rightarrow> nat option \<Rightarrow> (nat \<times> nat) list \<Rightarrow> nat option \<Rightarrow> bool" where
  "seg h p [] r \<longleftrightarrow> p = r"
| "seg h p ((a, f) # q) r \<longleftrightarrow> p = Some a \<and> (\<exists>n. h a = Some \<lparr>node_frame = f, next_node = n\<rparr> \<and> seg h n q r)"

lemma seg_append: "seg h p (xs @ ys) r \<longleftrightarrow> (\<exists>m. seg h p xs m \<and> seg h m ys r)"
  by (induction h p xs r rule: seg.induct) auto

lemma seg_other [simp]: "a \<notin> fst ` set q \<Longrightarrow> seg (h(a := x)) p q r = seg h p q r"
  by (induction h p q r rule: seg.induct) auto

lemma seg_snoc: "seg h p (q @ [(a, f)]) r \<longleftrightarrow> seg h p q (Some a) \<and> h a = Some \<lparr>node_frame = f, next_node = r\<rparr>"
  by (auto simp: seg_append)

text \<open>The state holds the queue \<open>q\<close> of addresses and frames.\<close>

definition lru_list :: "sim \<Rightarrow> (nat \<times> nat) list \<Rightarrow> bool" where
  "lru_list s q \<longleftrightarrow> seg (lru_heap s) (head_of_lru s) q None \<and> distinct (map fst q) \<and>
     (\<forall>a \<in> set (map fst q). a < lru_brk s) \<and>
     tail_of_lru s = (if q = [] then None else Some (fst (last q)))"

definition lru_repr :: "nat list \<Rightarrow> sim \<Rightarrow> bool" where
  "lru_repr fs s \<longleftrightarrow> (\<exists>q. lru_list s q \<and> map snd q = fs) \<and> distinct fs \<and>
     length (referenced s) = memsize s \<and> (\<forall>i < memsize s. referenced s ! i \<longleftrightarrow> i \<in> set fs)"

lemma node_at_run [prog]: "lru_heap s a = Some n \<Longrightarrow> node_at (Some a) s = (Ok n, s)"
  by (simp add: node_at_def prog)

lemma bnd_node_at [prog]: "lru_heap s a = Some n \<Longrightarrow> bnd (node_at (Some a)) f s = f n s"
  by (simp add: bnd_run node_at_run)

lemma set_next_node_run [prog]: "lru_heap s a = Some n \<Longrightarrow> set_next_node (Some a) q s =
    (Ok (), s\<lparr>lru_heap := (lru_heap s)(a \<mapsto> n\<lparr>next_node := q\<rparr>)\<rparr>)"
  by (simp add: set_next_node_def prog)

lemma bnd_set_next_node [prog]: "lru_heap s a = Some n \<Longrightarrow> bnd (set_next_node (Some a) q) f s =
    f () (s\<lparr>lru_heap := (lru_heap s)(a \<mapsto> n\<lparr>next_node := q\<rparr>)\<rparr>)"
  by (simp add: bnd_run set_next_node_run)

text \<open>The walk finds the first node of the frame, and its predecessor.\<close>

definition last_addr :: "nat option \<Rightarrow> (nat \<times> nat) list \<Rightarrow> nat option" where
  "last_addr d q = (if q = [] then d else Some (fst (last q)))"

lemma lru_walk_run:
  assumes "seg (lru_heap s) p (xs @ (a, f) # ys) r" "f \<notin> snd ` set xs" "length xs < n"
  shows "lru_walk n f p prev s = (Ok (Some a, last_addr prev xs), s)"
  using assms
proof (induction xs arbitrary: n p prev)
  case Nil
  then obtain k where "n = Suc k" by (cases n) auto
  with Nil show ?case by (auto simp: prog last_addr_def)
next
  case (Cons x xs)
  obtain b g where x: "x = (b, g)" by (cases x)
  obtain k where n: "n = Suc k" "length xs < k" using Cons.prems(3) by (cases n) auto
  from Cons.prems(1) x obtain m where m: "p = Some b" "lru_heap s b = Some \<lparr>node_frame = g, next_node = m\<rparr>"
    "seg (lru_heap s) m (xs @ (a, f) # ys) r" by auto
  have "lru_walk k f m (Some b) s = (Ok (Some a, last_addr (Some b) xs), s)"
    using Cons.IH [OF m(3) _ n(2)] Cons.prems(2) by simp
  moreover have "last_addr (Some b) xs = last_addr prev (x # xs)"
    using x by (simp add: last_addr_def)
  ultimately show ?case
    using n m(1,2) Cons.prems(2) x by (auto simp: prog)
qed

declare lru_walk.simps [simp del]

section \<open>Refinement of the queue operations\<close>

text \<open>Appending a node behind the tail.\<close>

lemma seg_enqueue:
  assumes "seg h p (q @ [(a, f)]) None" "b \<notin> fst ` set (q @ [(a, f)])" "a \<notin> fst ` set q"
  shows "seg (h(b \<mapsto> \<lparr>node_frame = g, next_node = None\<rparr>, a \<mapsto> \<lparr>node_frame = f, next_node = Some b\<rparr>))
    p (q @ [(a, f), (b, g)]) None"
  using assms by (auto simp: seg_append)

text \<open>Unlinking the node \<open>a\<close> behind its predecessor, or at the head.\<close>

lemma seg_unlink_behind:
  assumes "seg h p (xs @ (c, g) # (a, f) # ys) None" "distinct (map fst (xs @ (c, g) # (a, f) # ys))"
    "h a = Some \<lparr>node_frame = f, next_node = m\<rparr>"
  shows "seg ((h(c \<mapsto> \<lparr>node_frame = g, next_node = m\<rparr>))(a := None)) p (xs @ (c, g) # ys) None"
proof -
  from assms obtain l where "seg h p xs l" "l = Some c" "seg h m ys None"
    by (auto simp: seg_append)
  moreover have "a \<notin> fst ` set xs" "c \<notin> fst ` set xs" "a \<notin> fst ` set ys" "c \<notin> fst ` set ys" "a \<noteq> c"
    using assms(2) by (auto simp: image_iff)
  ultimately show ?thesis by (auto simp: seg_append)
qed

lemma seg_unlink_head:
  assumes "seg h p ((a, f) # ys) None" "a \<notin> fst ` set ys" "h a = Some \<lparr>node_frame = f, next_node = m\<rparr>"
  shows "seg (h(a := None)) m ys None"
  using assms by auto

definition lru_moved :: "nat \<Rightarrow> nat list \<Rightarrow> nat list" where
  "lru_moved f fs = filter (\<lambda>g. g \<noteq> f) fs @ [f]"

lemma filter_neq: "f \<notin> set fs \<Longrightarrow> filter (\<lambda>g. g \<noteq> f) fs = fs"
  by (induction fs) auto

lemma lru_evict_list:
  assumes q: "lru_list s ((a, f) # q)" and r: "f < length (referenced s)" "referenced s ! f"
  shows "\<exists>t. lru_evict s = (Ok f, t) \<and> same_core s t \<and> lru_list t q \<and>
    referenced t = (referenced s)[f := False] \<and> memsize t = memsize s"
proof -
  from q obtain m where m: "lru_heap s a = Some \<lparr>node_frame = f, next_node = m\<rparr>" "head_of_lru s = Some a"
    "seg (lru_heap s) m q None"
    by (auto simp: lru_list_def)
  have tl: "q = [] \<longleftrightarrow> Some a = tail_of_lru s"
    using q by (auto simp: lru_list_def)
  have a: "a \<notin> fst ` set q" "a < lru_brk s" using q by (auto simp: lru_list_def)
  let ?t = "s\<lparr>tail_of_lru := (if Some a = tail_of_lru s then None else tail_of_lru s),
      referenced := (referenced s)[f := False], lru_heap := (lru_heap s)(a := None), head_of_lru := m\<rparr>"
  have "lru_evict s = (Ok f, ?t)"
    using m r by (cases "tail_of_lru s = Some a")
      (simp_all add: lru_evict_def prog referenced_at_def set_referenced_def lru_free_def Let_def)
  moreover have "lru_list ?t q"
    using q m(3) a tl by (auto simp: lru_list_def)
  ultimately show ?thesis by (auto simp: same_core_def)
qed

lemma lru_ref_new:
  assumes q: "lru_list s q" and e: "entry_at s p = Some e" "frame_of e < length (referenced s)"
    and r: "\<not> referenced s ! frame_of e"
  shows "\<exists>t. lru_ref p s = (Ok (), t) \<and> same_core s t \<and> lru_list t (q @ [(lru_brk s, frame_of e)]) \<and>
    referenced t = (referenced s)[frame_of e := True] \<and> memsize t = memsize s"
proof (cases q rule: rev_cases)
  case Nil
  then show ?thesis
    using assms by (simp add: lru_ref_def prog referenced_at_def set_referenced_def lru_malloc_def
        lru_list_def same_core_def Let_def)
next
  case (snoc q' z)
  obtain a g where z: "z = (a, g)" by (cases z)
  let ?b = "lru_brk s"
  have a: "lru_heap s a = Some \<lparr>node_frame = g, next_node = None\<rparr>" "tail_of_lru s = Some a" "a < ?b"
    "a \<notin> fst ` set q'"
    using q snoc z by (auto simp: lru_list_def seg_snoc)
  let ?h = "(lru_heap s)(?b \<mapsto> \<lparr>node_frame = frame_of e, next_node = None\<rparr>,
      a \<mapsto> \<lparr>node_frame = g, next_node = Some ?b\<rparr>)"
  let ?t = "s\<lparr>referenced := (referenced s)[frame_of e := True], lru_brk := ?b + 1,
      lru_heap := ?h, tail_of_lru := Some ?b\<rparr>"
  have "lru_ref p s = (Ok (), ?t)"
    using a e r by (simp add: lru_ref_def prog referenced_at_def set_referenced_def lru_malloc_def Let_def)
  moreover have fresh: "?b \<notin> fst ` set q" using q by (auto simp: lru_list_def)
  have "seg ?h (head_of_lru s) (q @ [(?b, frame_of e)]) None"
    using seg_enqueue [of "lru_heap s" "head_of_lru s" q' a g ?b "frame_of e"] q fresh a(4) snoc z
    by (simp add: lru_list_def)
  then have "lru_list ?t (q @ [(?b, frame_of e)])"
    using q fresh by (auto simp: lru_list_def less_Suc_eq)
  ultimately show ?thesis by (auto simp: same_core_def)
qed

lemma lru_ref_again:
  assumes q: "lru_list s (xs @ (a, f) # ys)" and f: "f \<notin> snd ` set xs"
    and e: "entry_at s p = Some e" "frame_of e = f" "f < length (referenced s)" "referenced s ! f"
  shows "\<exists>t. lru_ref p s = (Ok (), t) \<and> same_core s t \<and> lru_list t (xs @ ys @ [(lru_brk s, f)]) \<and>
    referenced t = referenced s \<and> memsize t = memsize s"
proof -
  let ?q = "xs @ (a, f) # ys" and ?b = "lru_brk s"
  obtain z g q' where z: "?q = q' @ [(z, g)]"
    by (cases ?q rule: rev_cases) auto
  have zb: "lru_heap s z = Some \<lparr>node_frame = g, next_node = None\<rparr>" "tail_of_lru s = Some z" "z < ?b"
    "z \<notin> fst ` set q'"
    using q unfolding z by (auto simp: lru_list_def seg_snoc)
  let ?h = "(lru_heap s)(?b \<mapsto> \<lparr>node_frame = f, next_node = None\<rparr>, z \<mapsto> \<lparr>node_frame = g, next_node = Some ?b\<rparr>)"
  let ?s1 = "s\<lparr>lru_brk := ?b + 1, lru_heap := ?h, tail_of_lru := Some ?b\<rparr>"
  have fresh: "?b \<notin> fst ` set ?q" using q by (auto simp: lru_list_def)
  have dist: "distinct (map fst (?q @ [(?b, f)]))" and low: "\<forall>c \<in> set (map fst ?q). c < ?b"
    using q fresh by (auto simp: lru_list_def)
  have seg1: "seg ?h (head_of_lru s) (?q @ [(?b, f)]) None"
    using seg_enqueue [of "lru_heap s" "head_of_lru s" q' z g ?b f] q fresh zb(4) unfolding z
    by (simp add: lru_list_def)
  have "length xs < Suc (?b + 1)"
  proof -
    have "set (map fst ?q) \<subseteq> {..<?b}" using low by auto
    then have "card (set (map fst ?q)) \<le> ?b" using card_mono [OF finite_lessThan] by fastforce
    moreover have "card (set (map fst ?q)) = length (map fst ?q)"
      using dist by (intro distinct_card) auto
    ultimately show ?thesis by simp
  qed
  then have walk: "lru_walk (Suc (?b + 1)) f (head_of_lru s) None ?s1 = (Ok (Some a, last_addr None xs), ?s1)"
    using seg1 f by (intro lru_walk_run [where ys = "ys @ [(?b, f)]" and r = None]) simp_all
  obtain m where m: "?h a = Some \<lparr>node_frame = f, next_node = m\<rparr>"
    using seg1 by (auto simp: seg_append)
  show ?thesis
  proof (cases xs rule: rev_cases)
    case Nil
    have seg2: "seg (?h(a := None)) m (ys @ [(?b, f)]) None"
      using seg_unlink_head [of ?h "head_of_lru s" a f "ys @ [(?b, f)]" m] seg1 dist m Nil by simp
    then obtain m' where m': "m = Some m'" by (cases ys) auto
    note at = m [unfolded m'] and seg2 = seg2 [unfolded m']
    let ?t = "?s1\<lparr>head_of_lru := Some m', lru_heap := ?h(a := None)\<rparr>"
    have "lru_ref p s = (Ok (), ?t)"
      using walk zb at e Nil by (simp add: lru_ref_def prog referenced_at_def lru_malloc_def Let_def bnd_run
          last_addr_def lru_free_def split del: if_split)
    moreover have "lru_list ?t (xs @ ys @ [(?b, f)])"
      using seg2 dist low Nil by (auto simp: lru_list_def less_Suc_eq)
    ultimately show ?thesis by (auto simp: same_core_def)
  next
    case (snoc xs' y)
    obtain c k where y: "y = (c, k)" by (cases y)
    let ?h2 = "(?h(c \<mapsto> \<lparr>node_frame = k, next_node = m\<rparr>))(a := None)"
    let ?t = "?s1\<lparr>lru_heap := ?h2\<rparr>"
    obtain n where n: "?h c = Some \<lparr>node_frame = k, next_node = n\<rparr>"
      using seg1 snoc y by (auto simp: seg_append)
    have seg2: "seg ?h2 (head_of_lru s) (xs @ ys @ [(?b, f)]) None"
      using seg_unlink_behind [of ?h "head_of_lru s" xs' c k a f "ys @ [(?b, f)]" m] seg1 dist m snoc y by simp
    have "lru_ref p s = (Ok (), ?t)"
      using walk zb m n e snoc y by (simp add: lru_ref_def prog referenced_at_def lru_malloc_def Let_def bnd_run
          last_addr_def lru_free_def split del: if_split)
    moreover have "lru_list ?t (xs @ ys @ [(?b, f)])"
      using seg2 dist low by (auto simp: lru_list_def less_Suc_eq)
    ultimately show ?thesis by (auto simp: same_core_def)
  qed
qed

lemma lru_evict_repr:
  assumes "lru_repr (f # fs) s" "set (f # fs) \<subseteq> {..<memsize s}"
  shows "\<exists>t. lru_evict s = (Ok f, t) \<and> same_core s t \<and> lru_repr fs t"
proof -
  from assms(1) obtain a q where q: "lru_list s ((a, f) # q)" "map snd q = fs"
    by (auto simp: lru_repr_def)
  have r: "f < length (referenced s)" "referenced s ! f" using assms by (auto simp: lru_repr_def)
  from lru_evict_list [OF q(1) r] obtain t where t: "lru_evict s = (Ok f, t)" "same_core s t" "lru_list t q"
    "referenced t = (referenced s)[f := False]" "memsize t = memsize s" by blast
  have "lru_repr fs t"
    using assms(1) q(2) t(3-5) r(1) by (auto simp: lru_repr_def nth_list_update)
  with t(1,2) show ?thesis by blast
qed

lemma split_at_frame:
  assumes "f \<in> snd ` set q" "distinct (map snd q)"
  obtains xs a ys where "q = xs @ (a, f) # ys" "f \<notin> snd ` set xs" "f \<notin> snd ` set ys"
proof -
  from assms(1) obtain a where "(a, f) \<in> set q" by auto
  then obtain xs ys where "q = xs @ (a, f) # ys" by (auto dest: split_list)
  with assms(2) that show thesis by auto
qed

lemma lru_ref_repr:
  assumes rep: "lru_repr fs s" and e: "entry_at s p = Some e" "frame_of e < memsize s"
  shows "\<exists>t. lru_ref p s = (Ok (), t) \<and> same_core s t \<and> lru_repr (lru_moved (frame_of e) fs) t"
proof -
  let ?f = "frame_of e"
  from rep obtain q where q: "lru_list s q" "map snd q = fs" by (auto simp: lru_repr_def)
  have r: "?f < length (referenced s)" "referenced s ! ?f \<longleftrightarrow> ?f \<in> set fs"
    using rep e by (auto simp: lru_repr_def)
  show ?thesis
  proof (cases "?f \<in> set fs")
    case True
    have "?f \<in> snd ` set q" "distinct (map snd q)" using True q(2) rep by (auto simp: lru_repr_def)
    then obtain xs a ys where s: "q = xs @ (a, ?f) # ys" "?f \<notin> snd ` set xs" "?f \<notin> snd ` set ys"
      by (rule split_at_frame)
    from lru_ref_again [OF q(1) [unfolded s(1)] s(2) e(1) refl r(1)] r(2) True
    obtain t where t: "lru_ref p s = (Ok (), t)" "same_core s t" "lru_list t (xs @ ys @ [(lru_brk s, ?f)])"
      "referenced t = referenced s" "memsize t = memsize s" by blast
    have moved: "lru_moved ?f fs = map snd (xs @ ys @ [(lru_brk s, ?f)])"
    proof -
      have "filter (\<lambda>g. g \<noteq> ?f) (map snd xs) = map snd xs" "filter (\<lambda>g. g \<noteq> ?f) (map snd ys) = map snd ys"
        using s by (intro filter_neq; simp)+
      then show ?thesis using s(1) q(2) by (auto simp: lru_moved_def)
    qed
    have "distinct (lru_moved ?f fs)" "set (lru_moved ?f fs) = set fs"
      using rep True by (auto simp: lru_repr_def lru_moved_def)
    with rep t(3-5) moved have "lru_repr (lru_moved ?f fs) t"
      unfolding lru_repr_def by metis
    with t(1,2) show ?thesis by blast
  next
    case False
    from lru_ref_new [OF q(1) e(1) r(1)] r(2) False
    obtain t where t: "lru_ref p s = (Ok (), t)" "same_core s t" "lru_list t (q @ [(lru_brk s, ?f)])"
      "referenced t = (referenced s)[?f := True]" "memsize t = memsize s" by blast
    have moved: "lru_moved ?f fs = map snd (q @ [(lru_brk s, ?f)])"
      using False q(2) by (simp add: lru_moved_def filter_neq)
    have "distinct (lru_moved ?f fs)"
      using rep False by (auto simp: lru_repr_def lru_moved_def)
    moreover have "\<forall>i < memsize s. (referenced s)[?f := True] ! i \<longleftrightarrow> i \<in> insert ?f (set fs)"
      using rep r(1) by (auto simp: lru_repr_def nth_list_update)
    moreover have "set (lru_moved ?f fs) = insert ?f (set fs)" by (auto simp: lru_moved_def)
    ultimately have "lru_repr (lru_moved ?f fs) t"
      using rep t(3-5) moved unfolding lru_repr_def by (metis length_list_update)
    with t(1,2) show ?thesis by blast
  qed
qed

lemma lru_init_repr: "\<exists>t. lru_init s = (Ok (), t) \<and> same_core s t \<and> lru_repr [] t"
  by (auto simp: lru_init_def prog same_core_def lru_repr_def lru_list_def)

definition lru_inv :: "nat set \<Rightarrow> sim \<Rightarrow> bool" where
  "lru_inv F s \<longleftrightarrow> (\<exists>fs. lru_repr fs s \<and> set fs = F \<and> F \<subseteq> {..<memsize s})"

lemma set_lru_moved [simp]: "set (lru_moved f fs) = insert f (set fs)"
  by (auto simp: lru_moved_def)

lemma same_core_memsize: "same_core s t \<Longrightarrow> memsize t = memsize s"
  by (simp add: same_core_def)

interpretation lru_alg: replacement lru lru_inv
proof
  fix s :: sim and p e F
  show "\<exists>t. init_fcn lru s = (Ok (), t) \<and> same_core s t \<and> lru_inv {} t"
    using lru_init_repr [of s] by (auto simp: lru_def lru_inv_def)
  show "\<exists>f t. evict_fcn lru s = (Ok f, t) \<and> f < memsize s \<and> same_core s t \<and> lru_inv ({..<memsize s} - {f}) t"
    if m: "0 < memsize s" and inv: "lru_inv {..<memsize s} s"
  proof -
    from inv obtain fs where fs: "lru_repr fs s" "set fs = {..<memsize s}" by (auto simp: lru_inv_def)
    with m obtain f gs where c: "fs = f # gs" by (cases fs) auto
    then have d: "f \<notin> set gs" using fs(1) by (simp add: lru_repr_def)
    from lru_evict_repr [of f gs s] fs c obtain t where t: "lru_evict s = (Ok f, t)" "same_core s t" "lru_repr gs t"
      by auto
    have "set gs = {..<memsize s} - {f}" using fs(2) c d by auto
    then show ?thesis using t fs(2) c same_core_memsize [OF t(2)] by (auto simp: lru_def lru_inv_def)
  qed
  show "\<exists>t. ref_fcn lru p s = (Ok (), t) \<and> same_core s t \<and> lru_inv (insert (frame_of e) F) t"
    if e: "entry_at s p = Some e" "frame_of e < memsize s" and inv: "lru_inv F s"
  proof -
    from inv obtain fs where fs: "lru_repr fs s" "set fs = F" "F \<subseteq> {..<memsize s}" by (auto simp: lru_inv_def)
    from lru_ref_repr [OF fs(1) e] obtain t where
      t: "lru_ref p s = (Ok (), t)" "same_core s t" "lru_repr (lru_moved (frame_of e) fs) t" by blast
    have "lru_inv (insert (frame_of e) F) t"
      unfolding lru_inv_def using t(3) fs(2,3) e(2) same_core_memsize [OF t(2)]
      by (intro exI [of _ "lru_moved (frame_of e) fs"]) simp
    then show ?thesis using t(1,2) by (simp add: lru_def)
  qed
next
  show "lru_inv F t" if "same_policy s t" "lru_inv F s" for s t F
    using that by (simp add: lru_inv_def lru_repr_def lru_list_def same_policy_def)
qed

section \<open>Every victim is the least recently used frame\<close>

text \<open>References to frames \<open>fs\<close> from \<open>[]\<close> leave the queue \<open>remdups fs\<close>: the frames by last use.\<close>

lemma fold_lru_moved: "fold lru_moved fs [] = remdups fs"
proof (induction fs rule: rev_induct)
  case (snoc f fs)
  have "remdups (fs @ [f]) = filter (\<lambda>g. g \<noteq> f) (remdups fs) @ [f]"
    by (induction fs) auto
  with snoc show ?case by (simp add: lru_moved_def)
qed simp

text \<open>
  Calls of the algorithm: a reference to a page, with the page table as it is at that moment, or a
  request for a victim.
\<close>

datatype lru_call = Reference "nat \<Rightarrow> (nat \<Rightarrow> pgtbl_entry) option" pte_ptr | Evict

definition frame_in :: "(nat \<Rightarrow> (nat \<Rightarrow> pgtbl_entry) option) \<Rightarrow> pte_ptr \<Rightarrow> nat option" where
  "frame_in pt p = (case pt (fst p) of None \<Rightarrow> None
     | Some t \<Rightarrow> if snd p < PTRS_PER_PGTBL then Some (frame_of (t (snd p))) else None)"

primrec lru_calls :: "lru_call list \<Rightarrow> (sim, nat list) prog" where
  "lru_calls [] = ret []"
| "lru_calls (c # cs) = (case c of
       Reference pt p \<Rightarrow> thn (upd (\<lambda>s. s\<lparr>pgdir := pt\<rparr>)) (thn (lru_ref p) (lru_calls cs))
     | Evict \<Rightarrow> bnd lru_evict (\<lambda>f. bnd (lru_calls cs) (\<lambda>fs. ret (f # fs))))"

text \<open>
  What they promise, over the history \<open>h\<close> of the frames referenced since the start (or since they
  were last evicted), in the order of time.  The least recently used frame is the head of
  \<open>remdups h\<close>, which keeps the last occurrence of each.
\<close>

primrec lru_victims :: "nat list \<Rightarrow> lru_call list \<Rightarrow> nat list" where
  "lru_victims h [] = []"
| "lru_victims h (c # cs) = (case c of
       Reference pt p \<Rightarrow> lru_victims (h @ [the (frame_in pt p)]) cs
     | Evict \<Rightarrow> hd (remdups h) # lru_victims (removeAll (hd (remdups h)) h) cs)"

text \<open>Every page referenced is in one of the \<open>n\<close> frames, and there is a frame whenever one is evicted.\<close>

primrec lru_legal :: "nat \<Rightarrow> nat list \<Rightarrow> lru_call list \<Rightarrow> bool" where
  "lru_legal n h [] \<longleftrightarrow> True"
| "lru_legal n h (c # cs) \<longleftrightarrow> (case c of
       Reference pt p \<Rightarrow> (case frame_in pt p of None \<Rightarrow> False | Some f \<Rightarrow> f < n \<and> lru_legal n (h @ [f]) cs)
     | Evict \<Rightarrow> h \<noteq> [] \<and> lru_legal n (removeAll (hd (remdups h)) h) cs)"

lemma remdups_snoc: "remdups (h @ [f]) = lru_moved f (remdups h)"
  using fold_lru_moved [of "h @ [f]"] by (simp add: fold_lru_moved)

lemma remdups_removeAll: "remdups (removeAll f h) = removeAll f (remdups h)"
  by (induction h) auto

lemma lru_repr_pgdir: "lru_repr fs (s\<lparr>pgdir := pt\<rparr>) = lru_repr fs s"
  by (simp add: lru_repr_def lru_list_def)

lemma lru_calls_run:
  assumes "lru_repr (remdups h) s" "set h \<subseteq> {..<memsize s}" "lru_legal (memsize s) h cs"
  shows "\<exists>t. lru_calls cs s = (Ok (lru_victims h cs), t)"
  using assms
proof (induction cs arbitrary: s h)
  case (Cons c cs)
  show ?case
  proof (cases c)
    case (Reference pt p)
    with Cons.prems(3) obtain f where f: "frame_in pt p = Some f" "f < memsize s" "lru_legal (memsize s) (h @ [f]) cs"
      by (auto split: option.splits)
    let ?s = "s\<lparr>pgdir := pt\<rparr>"
    from f(1) obtain e where e: "entry_at ?s p = Some e" "frame_of e = f"
      by (auto simp: frame_in_def entry_at_def split: option.splits if_splits)
    obtain t where t: "lru_ref p ?s = (Ok (), t)" "same_core ?s t" "lru_repr (lru_moved f (remdups h)) t"
      using lru_ref_repr [of "remdups h" ?s p e] Cons.prems(1) e f(2) by (auto simp: lru_repr_pgdir)
    have m: "memsize t = memsize s" using same_core_memsize [OF t(2)] by simp
    obtain u where "lru_calls cs t = (Ok (lru_victims (h @ [f]) cs), u)"
      using Cons.IH [of "h @ [f]" t] t(3) Cons.prems(2) f(2,3) m by (auto simp: remdups_snoc)
    then show ?thesis
      using Reference t(1) f(1) by (simp add: prog bnd_run)
  next
    case Evict
    then have h: "h \<noteq> []" "lru_legal (memsize s) (removeAll (hd (remdups h)) h) cs"
      using Cons.prems(3) by auto
    then obtain f fs where c: "remdups h = f # fs" by (cases "remdups h") auto
    then have d: "f \<notin> set fs" using distinct_remdups [of h] by simp
    have "set (remdups h) \<subseteq> {..<memsize s}" using Cons.prems(2) by simp
    with lru_evict_repr [of f fs s] Cons.prems(1) c obtain t where
      t: "lru_evict s = (Ok f, t)" "same_core s t" "lru_repr fs t" by auto
    have m: "memsize t = memsize s" using same_core_memsize [OF t(2)] .
    have "remdups (removeAll f h) = fs" using c d by (simp add: remdups_removeAll)
    then obtain u where "lru_calls cs t = (Ok (lru_victims (removeAll f h) cs), u)"
      using Cons.IH [of "removeAll f h" t] t(3) Cons.prems(2) h(2) c m by auto
    then show ?thesis
      using Evict t(1) c by (simp add: prog bnd_run)
  qed
qed (simp add: prog)

text \<open>
  C15: After \<open>lru_init\<close>, for any sequence of references and evictions in any order, with a page table
  that changes from call to call, the pointer code of \<open>lru_ref\<close> and \<open>lru_evict\<close> returns every time,
  without a failed assert or a dangling access, and every victim is the frame least recently used
  among those referenced and not evicted since (\<open>lru_victims\<close>).  The pages referenced have to be in
  frames that exist, and a victim may only be asked for when some frame is in use.
\<close>

theorem lru_exact:
  assumes "lru_legal (memsize s) [] cs"
  shows "\<exists>t. (thn lru_init (lru_calls cs)) s = (Ok (lru_victims [] cs), t)"
proof -
  obtain s1 where s1: "lru_init s = (Ok (), s1)" "same_core s s1" "lru_repr [] s1"
    using lru_init_repr by blast
  with lru_calls_run [of "[]" s1 cs] assms same_core_memsize [OF s1(2)] show ?thesis
    by (auto simp: prog bnd_run)
qed

definition demo_use :: "nat \<Rightarrow> lru_call" where
  "demo_use j = Reference (pgdir mapped_demo) (0, j)"

lemma demo_frames:
  "frame_in (pgdir mapped_demo) (0, 0) = Some 0" "frame_in (pgdir mapped_demo) (0, Suc 0) = Some 1"
  "frame_in (pgdir mapped_demo) (0, 2) = Some 2"
  by (simp_all add: frame_in_def mapped_demo_def frame_of_def drop_bit_eq_div)

lemma lru_call_steps:
  "lru_victims h (demo_use j # cs) = lru_victims (h @ [the (frame_in (pgdir mapped_demo) (0, j))]) cs"
  "remdups h = f # fs \<Longrightarrow> lru_victims h (Evict # cs) = f # lru_victims (removeAll f h) cs"
  "frame_in (pgdir mapped_demo) (0, j) = Some g \<Longrightarrow> lru_legal n h (demo_use j # cs) = (g < n \<and> lru_legal n (h @ [g]) cs)"
  "remdups h = f # fs \<Longrightarrow> lru_legal n h (Evict # cs) = lru_legal n (removeAll f h) cs"
  by (auto simp: demo_use_def)

lemma lru_exact_witness:
  "\<exists>t. (thn lru_init (lru_calls [demo_use 0, demo_use 1, demo_use 2, demo_use 0, Evict, Evict,
     demo_use 1, Evict, Evict, demo_use 2, Evict])) mapped_demo = (Ok [1, 2, 0, 1, 2], t)"
proof -
  let ?cs = "[demo_use 0, demo_use 1, demo_use 2, demo_use 0, Evict, Evict,
        demo_use 1, Evict, Evict, demo_use 2, Evict]"
  have "lru_legal 3 [] ?cs"
    by (simp add: lru_call_steps demo_frames del: lru_legal.simps(2))
  moreover have "lru_victims [] ?cs = [1, 2, 0, 1, 2]"
    by (simp add: lru_call_steps demo_frames del: lru_victims.simps(2))
  ultimately show ?thesis
    using lru_exact [of mapped_demo ?cs] by (simp only: mapped_demo_size)
qed

end
