(* ===== verification/Opt.thy ===== *)
theory Opt
  imports Replacement
begin

text \<open>
  \<^verbatim>\<open>Assignment3/opt.c\<close>, statement by statement.  \<open>current\<close> is initialised to -1 and never assigned
  again, so the branch \<open>current == -1\<close> is always taken; it is kept in the model.  An eviction that
  returns without a candidate returns an indeterminate value: a fault.  \<open>opt_ref\<close> reads bit 29 of
  the frame word and \<open>opt_evict\<close> its bits 30 and 31.
\<close>

record opt_locals =
  page_to_be_evicted :: "nat option"
  outdated :: int
  current :: int
  switch_class :: bool
  klass :: nat

definition pte_class :: "pgtbl_entry \<Rightarrow> nat" where
  "pte_class e = unat (drop_bit 30 (pframe e))"

text \<open>The body shared by the two scans: frame \<open>x\<close> becomes the candidate if its class is the one sought.\<close>

definition opt_candidate :: "nat \<Rightarrow> opt_locals \<Rightarrow> (sim, opt_locals) prog" where
  "opt_candidate x l = bnd (frame_read x) (\<lambda>fr.
     thn (need (fpte fr \<noteq> None))
    (bnd (pte_read (the (fpte fr))) (\<lambda>e.
     if pte_class e = klass l then
       if current l = -1 then
         thn (frame_upd x (\<lambda>f. f\<lparr>placeholder := 0\<rparr>))
             (ret (l\<lparr>page_to_be_evicted := Some x, outdated := placeholder fr, switch_class := True\<rparr>))
       else
         thn (need (page_to_be_evicted l \<noteq> None))
        (thn (frame_upd (the (page_to_be_evicted l)) (\<lambda>f. f\<lparr>placeholder := outdated l - 1\<rparr>))
        (bnd (frame_read x) (\<lambda>fr'.
         thn (frame_upd x (\<lambda>f. f\<lparr>placeholder := 0\<rparr>))
             (ret (l\<lparr>page_to_be_evicted := Some x, outdated := placeholder fr'\<rparr>)))))
     else ret l)))"

definition opt_scan1 :: "nat \<Rightarrow> opt_locals \<Rightarrow> (sim, opt_locals) prog" where
  "opt_scan1 x l = bnd (opt_candidate x l) (\<lambda>l'.
     thn (frame_upd x (\<lambda>f. if placeholder f > 1 then f\<lparr>placeholder := placeholder f - 1\<rparr> else f))
    (thn (frame_upd x (\<lambda>f. f\<lparr>ceiling := ceiling f - 1\<rparr>))
         (ret l')))"

definition opt_round :: "nat \<Rightarrow> opt_locals \<Rightarrow> (sim, opt_locals) prog" where
  "opt_round i l = (if \<not> switch_class l then
     bnd (peek memsize) (\<lambda>m.
     bnd (foldM [0..<m] opt_candidate l) (\<lambda>l'.
     ret (l'\<lparr>klass := (if klass l' = 2 then 1 else 3)\<rparr>)))
   else ret l)"

definition opt_evict :: "(sim, nat) prog" where
  "opt_evict = bnd (peek memsize) (\<lambda>m.
     bnd (foldM [0..<m] opt_scan1
       \<lparr>page_to_be_evicted = None, outdated = 0, current = -1, switch_class = False, klass = 0\<rparr>) (\<lambda>l.
     bnd (foldM [0..<3] opt_round (l\<lparr>klass := 2\<rparr>)) (\<lambda>l'.
     case page_to_be_evicted l' of None \<Rightarrow> faultp | Some f \<Rightarrow> ret f)))"

definition opt_ref :: "pte_ptr \<Rightarrow> (sim, unit) prog" where
  "opt_ref p = bnd (pte_read p) (\<lambda>e.
     if bit (pframe e) 29 then
       bnd (peek memsize) (\<lambda>m. forM [0..<m] (\<lambda>i. frame_upd i (\<lambda>f.
         let f' = (if fpte f = Some p \<and> placeholder f = 0 then f\<lparr>placeholder := ceiling f\<rparr> else f)
         in f'\<lparr>ceiling := ceiling f' + 1\<rparr>)))
     else ret ())"

definition opt_init :: "(sim, unit) prog" where
  "opt_init = bnd (peek memsize) (\<lambda>m. forM [0..<m] (\<lambda>i. frame_upd i (\<lambda>f. f\<lparr>placeholder := 0, ceiling := 1\<rparr>)))"

definition opt :: algorithm where
  "opt = \<lparr>alg_name = ''opt'', init_fcn = opt_init, ref_fcn = opt_ref, evict_fcn = opt_evict\<rparr>"

section \<open>What the scans compute\<close>

lemma same_core_frame_upd:
  assumes "same_core s t" "i < length (coremap t)" "core_frame (g (coremap t ! i)) = core_frame (coremap t ! i)"
  shows "\<exists>u. frame_upd i g t = (Ok (), u) \<and> same_core s u"
proof -
  have "map core_frame ((coremap t)[i := g (coremap t ! i)]) = map core_frame (coremap t)"
    using assms(2,3) list_update_id [of "map core_frame (coremap t)" i] by (simp add: map_update)
  then show ?thesis using assms(1,2) by (simp add: frame_upd_run same_core_def)
qed

definition frame_class :: "sim \<Rightarrow> nat \<Rightarrow> nat" where
  "frame_class s x = pte_class (the (entry_at s (the (fpte (coremap s ! x)))))"

text \<open>The effect of one step of a scan on its local variables.\<close>

definition opt_found :: "sim \<Rightarrow> nat \<Rightarrow> opt_locals \<Rightarrow> opt_locals \<Rightarrow> bool" where
  "opt_found s x l l' \<longleftrightarrow> current l' = -1 \<and> klass l' = klass l \<and>
     (if frame_class s x = klass l then page_to_be_evicted l' = Some x \<and> switch_class l'
      else page_to_be_evicted l' = page_to_be_evicted l \<and> switch_class l' = switch_class l)"

definition full_frames :: "sim \<Rightarrow> bool" where
  "full_frames s \<longleftrightarrow> frames_ok s \<and> all_in_use s"

lemma full_frame:
  assumes "full_frames s" "same_core s t" "x < memsize s"
  obtains p e where "x < length (coremap t)" "fpte (coremap t ! x) = Some p" "entry_at t p = Some e"
    "pte_class e = frame_class s x"
proof -
  have x: "x < length (coremap s)" "in_use (coremap s ! x)"
    using assms by (auto simp: full_frames_def frames_ok_def all_in_use_def)
  then obtain p e where "fpte (coremap s ! x) = Some p" "entry_at s p = Some e"
    using assms by (auto simp: full_frames_def frames_ok_def)
  with that [of p e] same_core_frame [OF assms(2)] x same_core_entry [OF assms(2)] show thesis
    by (simp add: frame_class_def)
qed

lemma opt_candidate_step:
  assumes s: "full_frames s" "same_core s t" "x < memsize s" and l: "current l = -1"
  shows "\<exists>l' u. opt_candidate x l t = (Ok l', u) \<and> same_core s u \<and> opt_found s x l l'"
proof -
  obtain p e where pe: "x < length (coremap t)" "fpte (coremap t ! x) = Some p" "entry_at t p = Some e"
    "pte_class e = frame_class s x"
    using full_frame [OF s] .
  show ?thesis
  proof (cases "frame_class s x = klass l")
    case True
    obtain u where "frame_upd x (\<lambda>f. f\<lparr>placeholder := 0\<rparr>) t = (Ok (), u)" "same_core s u"
      using same_core_frame_upd [OF s(2) pe(1), of "\<lambda>f. f\<lparr>placeholder := 0\<rparr>"] by (auto simp: core_frame_def)
    then show ?thesis
      using True pe l by (simp add: opt_candidate_def prog bnd_run opt_found_def)
  next
    case False
    then show ?thesis
      using pe l s(2) by (simp add: opt_candidate_def prog opt_found_def)
  qed
qed

lemma opt_scan1_step:
  assumes s: "full_frames s" "same_core s t" "x < memsize s" and l: "current l = -1"
  shows "\<exists>l' u. opt_scan1 x l t = (Ok l', u) \<and> same_core s u \<and> opt_found s x l l'"
proof -
  obtain l' u where 1: "opt_candidate x l t = (Ok l', u)" "same_core s u" "opt_found s x l l'"
    using opt_candidate_step [OF assms] by blast
  have len: "x < length (coremap w)" if "same_core s w" for w
    using s(1,3) same_core_frame(1) [OF that] by (simp add: full_frames_def frames_ok_def)
  have core: "core_frame (if placeholder f > 1 then f\<lparr>placeholder := placeholder f - 1\<rparr> else f) = core_frame f" for f
    by (simp add: core_frame_def)
  obtain v where 2: "frame_upd x (\<lambda>f. if placeholder f > 1 then f\<lparr>placeholder := placeholder f - 1\<rparr> else f) u
      = (Ok (), v)" "same_core s v"
    using same_core_frame_upd [OF 1(2) len [OF 1(2)], of
        "\<lambda>f. if placeholder f > 1 then f\<lparr>placeholder := placeholder f - 1\<rparr> else f"] core by blast
  obtain w where 3: "frame_upd x (\<lambda>f. f\<lparr>ceiling := ceiling f - 1\<rparr>) v = (Ok (), w)" "same_core s w"
    using same_core_frame_upd [OF 2(2) len [OF 2(2)], of "\<lambda>f. f\<lparr>ceiling := ceiling f - 1\<rparr>"]
    by (auto simp: core_frame_def)
  show ?thesis
    using 1 2 3 by (simp add: opt_scan1_def prog bnd_run)
qed

text \<open>A whole scan leaves the last frame of its class as the candidate.\<close>

definition last_of_class :: "sim \<Rightarrow> nat \<Rightarrow> nat \<Rightarrow> nat option" where
  "last_of_class s k n = (case rev (filter (\<lambda>x. frame_class s x = k) [0..<n]) of [] \<Rightarrow> None | x # _ \<Rightarrow> Some x)"

lemma last_of_class_Suc: "last_of_class s k (Suc n) =
    (if frame_class s n = k then Some n else last_of_class s k n)"
  by (simp add: last_of_class_def)

definition opt_after :: "sim \<Rightarrow> nat \<Rightarrow> nat \<Rightarrow> opt_locals \<Rightarrow> bool" where
  "opt_after s k n l \<longleftrightarrow> current l = -1 \<and> klass l = k \<and> page_to_be_evicted l = last_of_class s k n \<and>
     (switch_class l \<longleftrightarrow> last_of_class s k n \<noteq> None)"

lemma opt_scan:
  assumes "full_frames s" "same_core s t"
    and l: "current l = -1" "klass l = k" "page_to_be_evicted l = None" "\<not> switch_class l"
    and f: "\<And>t x l. same_core s t \<Longrightarrow> x < memsize s \<Longrightarrow> current l = -1 \<Longrightarrow>
      \<exists>l' u. f x l t = (Ok l', u) \<and> same_core s u \<and> opt_found s x l l'"
  shows "\<exists>l' u. foldM [0..<memsize s] f l t = (Ok l', u) \<and> same_core s u \<and> opt_after s k (memsize s) l'"
proof -
  have "\<exists>l' u. foldM [0..<memsize s] f l t = (Ok l', u) \<and>
      (same_core s u \<and> opt_after s k (length [0..<memsize s]) l')"
  proof (rule foldM_inv [where P = "\<lambda>ys l u. same_core s u \<and> opt_after s k (length ys) l"])
    show "same_core s t \<and> opt_after s k (length []) l"
      using assms(2) l by (simp add: opt_after_def last_of_class_def)
    fix ys x l1 t1 assume split: "\<exists>zs. [0..<memsize s] = ys @ x # zs"
      and P: "same_core s t1 \<and> opt_after s k (length ys) l1"
    obtain zs where zs: "[0..<memsize s] = ys @ x # zs" using split by blast
    have x: "x = length ys" "x < memsize s"
      using arg_cong [OF zs, of length] arg_cong [OF zs, of "\<lambda>l. l ! length ys"]
      by (auto simp del: upt_Suc)
    from f [OF _ x(2), of t1 l1] P obtain l' u where
      "f x l1 t1 = (Ok l', u)" "same_core s u" "opt_found s x l1 l'"
      by (auto simp: opt_after_def)
    then show "\<exists>l' u. f x l1 t1 = (Ok l', u) \<and> same_core s u \<and> opt_after s k (length (ys @ [x])) l'"
      using P x(1) by (auto simp: opt_after_def opt_found_def last_of_class_Suc)
  qed
  then show ?thesis by simp
qed

text \<open>The victim: the last frame of the first class that occurs, in the order 0, 2, 1, 3.\<close>

definition opt_victim :: "sim \<Rightarrow> nat option" where
  "opt_victim s = (let try = (\<lambda>k r. case last_of_class s k (memsize s) of None \<Rightarrow> r | Some x \<Rightarrow> Some x)
     in try 0 (try 2 (try 1 (try 3 None))))"

lemma opt_round_run:
  assumes "full_frames s" "same_core s t" "current l = -1"
    "page_to_be_evicted l = r" "switch_class l \<longleftrightarrow> r \<noteq> None"
  shows "\<exists>l' u. opt_round i l t = (Ok l', u) \<and> same_core s u \<and> current l' = -1 \<and>
    page_to_be_evicted l' = (if r = None then last_of_class s (klass l) (memsize s) else r) \<and>
    (switch_class l' \<longleftrightarrow> page_to_be_evicted l' \<noteq> None) \<and>
    (r = None \<longrightarrow> klass l' = (if klass l = 2 then 1 else 3))"
proof (cases "r = None")
  case True
  have "memsize t = memsize s" using assms(2) by (simp add: same_core_def)
  moreover obtain l' u where "foldM [0..<memsize s] opt_candidate l t = (Ok l', u)" "same_core s u"
    "opt_after s (klass l) (memsize s) l'"
    using opt_scan [where f = opt_candidate, OF assms(1,2,3) refl _ _ opt_candidate_step [OF assms(1)]]
      assms(4,5) True by auto
  ultimately show ?thesis
    using assms True by (auto simp: opt_round_def prog bnd_run opt_after_def)
next
  case False
  then show ?thesis using assms by (auto simp: opt_round_def prog)
qed

lemma opt_evict_run:
  assumes "full_frames s"
  shows "\<exists>t. opt_evict s = (case opt_victim s of None \<Rightarrow> Fault | Some f \<Rightarrow> Ok f, t) \<and> same_core s t"
proof -
  let ?l = "\<lparr>page_to_be_evicted = None, outdated = 0, current = -1, switch_class = False, klass = 0\<rparr>"
  let ?last = "\<lambda>k. last_of_class s k (memsize s)"
  obtain l t where 1: "foldM [0..<memsize s] opt_scan1 ?l s = (Ok l, t)" "same_core s t" "opt_after s 0 (memsize s) l"
    using opt_scan [where f = opt_scan1, OF assms same_core_refl _ _ _ _ opt_scan1_step [OF assms], of ?l 0] by auto
  let ?l2 = "l\<lparr>klass := 2\<rparr>"
  have l: "current ?l2 = -1" "page_to_be_evicted ?l2 = ?last 0" "switch_class ?l2 \<longleftrightarrow> ?last 0 \<noteq> None"
    using 1(3) by (simp_all add: opt_after_def)
  obtain l1 t1 where 2: "opt_round 0 ?l2 t = (Ok l1, t1)" "same_core s t1" "current l1 = -1"
    "page_to_be_evicted l1 = (if ?last 0 = None then ?last (klass ?l2) else ?last 0)"
    "switch_class l1 \<longleftrightarrow> page_to_be_evicted l1 \<noteq> None"
    "?last 0 = None \<longrightarrow> klass l1 = (if klass ?l2 = 2 then 1 else 3)"
    using opt_round_run [OF assms 1(2) l, of 0]
    by (elim exE conjE) (rule that; assumption)
  obtain l2 t2 where 3: "opt_round 1 l1 t1 = (Ok l2, t2)" "same_core s t2" "current l2 = -1"
    "page_to_be_evicted l2 = (if page_to_be_evicted l1 = None then ?last (klass l1) else page_to_be_evicted l1)"
    "switch_class l2 \<longleftrightarrow> page_to_be_evicted l2 \<noteq> None"
    "page_to_be_evicted l1 = None \<longrightarrow> klass l2 = (if klass l1 = 2 then 1 else 3)"
    using opt_round_run [OF assms 2(2,3) refl 2(5), of 1]
    by (elim exE conjE) (rule that; assumption)
  obtain l3 t3 where 4: "opt_round 2 l2 t2 = (Ok l3, t3)" "same_core s t3"
    "page_to_be_evicted l3 = (if page_to_be_evicted l2 = None then ?last (klass l2) else page_to_be_evicted l2)"
    using opt_round_run [OF assms 3(2,3) refl 3(5), of 2] by blast
  have "page_to_be_evicted l3 = opt_victim s"
    using 2 3 4 by (auto simp: opt_victim_def Let_def split: option.splits if_splits)
  moreover have "[0..<3] = [0, 1, 2 :: nat]" by code_simp
  ultimately show ?thesis
    using 1 2 3 4 by (auto simp: opt_evict_def prog bnd_run split: option.splits)
qed

lemma last_of_class_bound: "last_of_class s k n = Some x \<Longrightarrow> x < n"
  by (induction n) (auto simp: last_of_class_def less_Suc_eq split: if_splits)

lemma last_of_class_ex: "x < n \<Longrightarrow> last_of_class s (frame_class s x) n \<noteq> None"
  by (induction n) (auto simp: last_of_class_Suc less_Suc_eq)

lemma frame_class_less: "frame_class s x < 4"
proof -
  have "unat (drop_bit 30 w) < 4" for w :: "32 word"
  proof -
    have "unat w < 2 ^ 32" using unsigned_less [of w] by simp
    then show ?thesis by (simp only: unat_drop_bit) (simp add: less_mult_imp_div_less)
  qed
  then show ?thesis by (simp add: frame_class_def pte_class_def)
qed

lemma opt_victim_Some: "0 < memsize s \<Longrightarrow> \<exists>f. opt_victim s = Some f \<and> f < memsize s"
proof -
  assume m: "0 < memsize s"
  have "frame_class s 0 \<in> {0, 1, 2, 3}" using frame_class_less [of s 0] by auto
  with last_of_class_ex [OF m, of s]
  have "last_of_class s 0 (memsize s) \<noteq> None \<or> last_of_class s 1 (memsize s) \<noteq> None \<or>
      last_of_class s 2 (memsize s) \<noteq> None \<or> last_of_class s 3 (memsize s) \<noteq> None"
    by (auto simp del: not_None_eq)
  then show ?thesis
    by (auto simp: opt_victim_def Let_def split: option.splits dest: last_of_class_bound)
qed

section \<open>The instance of the contract\<close>

lemma frame_loop:
  assumes len: "length (coremap s) = memsize s" and core: "\<And>f. core_frame (g f) = core_frame f"
  shows "\<exists>u. forM [0..<memsize s] (\<lambda>i. frame_upd i g) s = (Ok (), u) \<and> same_core s u"
proof (rule forM_inv)
  fix x t assume "x \<in> set [0..<memsize s]" "same_core s t"
  then show "\<exists>u. frame_upd x g t = (Ok (), u) \<and> same_core s u"
    using same_core_frame_upd [of s t x g] core len same_core_frame(1) [of s t] by auto
qed simp

definition opt_inv :: "nat set \<Rightarrow> sim \<Rightarrow> bool" where
  "opt_inv F s \<longleftrightarrow> True"

interpretation opt_alg: replacement opt opt_inv
proof
  fix s :: sim and p e F
  show "\<exists>t. init_fcn opt s = (Ok (), t) \<and> same_core s t \<and> opt_inv {} t" if "length (coremap s) = memsize s"
    using frame_loop [OF that, of "\<lambda>f. f\<lparr>placeholder := 0, ceiling := 1\<rparr>"]
    by (simp add: opt_def opt_init_def prog opt_inv_def core_frame_def)
  show "\<exists>f t. evict_fcn opt s = (Ok f, t) \<and> f < memsize s \<and> same_core s t \<and> opt_inv ({..<memsize s} - {f}) t"
    if "frames_ok s" "all_in_use s" "0 < memsize s"
    using opt_evict_run [of s] opt_victim_Some [of s] that by (auto simp: opt_def full_frames_def opt_inv_def)
  show "\<exists>t. ref_fcn opt p s = (Ok (), t) \<and> same_core s t \<and> opt_inv (insert (frame_of e) F) t"
    if "length (coremap s) = memsize s" "entry_at s p = Some e"
    using frame_loop [OF that(1), of "\<lambda>f. let f' = (if fpte f = Some p \<and> placeholder f = 0
         then f\<lparr>placeholder := ceiling f\<rparr> else f) in f'\<lparr>ceiling := ceiling f' + 1\<rparr>"] that(2)
    by (simp add: opt_def opt_ref_def prog opt_inv_def core_frame_def Let_def)
qed (simp_all add: opt_inv_def)

section \<open>OPT is not optimal\<close>

text \<open>Every frame holds a page whose entry names that frame, as the page table code leaves it.\<close>

definition frames_named :: "sim \<Rightarrow> bool" where
  "frames_named s \<longleftrightarrow> (\<forall>i < memsize s. frame_of (the (entry_at s (the (fpte (coremap s ! i))))) = i)"

text \<open>
  C19: With at most \<open>2 ^ 17\<close> frames the status bits the algorithm looks at (29 to 31) are never set:
  \<open>opt_evict\<close> always picks the last frame, whatever the references were, and \<open>opt_ref\<close> changes
  nothing.  The algorithm is not optimal (nor does it read the trace).
\<close>

theorem opt_picks_last:
  assumes "full_frames s" "frames_named s" "0 < memsize s" "memsize s \<le> 2 ^ 17"
  shows "(\<exists>t. opt_evict s = (Ok (memsize s - 1), t) \<and> same_core s t) \<and>
    (\<forall>p e. entry_at s p = Some e \<and> frame_of e < memsize s \<longrightarrow> opt_ref p s = (Ok (), s))"
proof -
  have class0: "frame_class s i = 0" if "i < memsize s" for i
  proof -
    let ?e = "the (entry_at s (the (fpte (coremap s ! i))))"
    have "frame_of ?e < 2 ^ 17" using assms(2,4) that by (auto simp: frames_named_def)
    then show ?thesis by (simp only: frame_class_def pte_class_def frame_of_def unat_drop_bit) simp
  qed
  have "last_of_class s 0 (memsize s) = Some (memsize s - 1)"
    using class0 [of "memsize s - 1"] assms(3) last_of_class_Suc [of s 0 "memsize s - 1"] by simp
  then have "opt_victim s = Some (memsize s - 1)" by (simp add: opt_victim_def Let_def)
  then have "\<exists>t. opt_evict s = (Ok (memsize s - 1), t) \<and> same_core s t"
    using opt_evict_run [OF assms(1)] by simp
  moreover have "opt_ref p s = (Ok (), s)" if "entry_at s p = Some e" "frame_of e < memsize s" for p e
  proof -
    have "frame_of e < 2 ^ 17" using that(2) assms(4) by simp
    then have "unat (pframe e) < 2 ^ 29" by (simp only: frame_of_def unat_drop_bit) simp
    then have "\<not> bit (pframe e) 29" by (simp only: bit_unat_iff not_less div_less) simp
    then show ?thesis using that(1) by (simp add: opt_ref_def prog)
  qed
  ultimately show ?thesis by blast
qed

lemma opt_picks_last_witness: "\<exists>t. opt_evict mapped_demo = (Ok 2, t)"
proof -
  have full: "(\<forall>i < memsize mapped_demo. P i) \<longleftrightarrow> P 0 \<and> P 1 \<and> P 2" for P
    by (auto simp: mapped_demo_size less_Suc_eq numeral_eq_Suc)
  have cm: "coremap mapped_demo =
      map (\<lambda>j. \<lparr>in_use = True, fpte = Some (0, j), placeholder = 0, ceiling = 1\<rparr>) [0, 1, 2]"
    by (simp add: mapped_demo_def)
  have "full_frames mapped_demo"
    unfolding full_frames_def frames_ok_def all_in_use_def full using mapped_demo_frames
    by (simp add: cm mapped_demo_size)
  moreover have "frames_named mapped_demo"
    unfolding frames_named_def full using mapped_demo_frames by (simp add: cm)
  ultimately show ?thesis
    using opt_picks_last [of mapped_demo] by (auto simp: mapped_demo_size)
qed

end
