(* ===== verification/Sim.thy ===== *)
theory Sim
  imports PageInv Report Fifo_Rand Clock Lru Opt
begin

text \<open>
  \<^verbatim>\<open>Assignment3/sim.c\<close>: memory accesses, the replay of a trace, the table of algorithms and
  \<open>main\<close>.  The end-to-end property is that paging is transparent: whatever the algorithm and the
  number of frames, the pages hold what they would hold in a memory without frames and swap.
\<close>

section \<open>Accesses\<close>

definition access_mem :: "algorithm \<Rightarrow> char \<Rightarrow> addr_t \<Rightarrow> (sim, unit) prog" where
  "access_mem A type vaddr = bnd (find_physpage A vaddr type) (\<lambda>memptr.
     bnd (peek (\<lambda>s. get_le 8 (physmem s) (memptr + 4))) (\<lambda>checkaddr :: addr_t.
     thn (if checkaddr \<noteq> vaddr then upd (\<lambda>s. s\<lparr>err_msgs := err_msgs s + 1\<rparr>) else ret ())
         (if type = CHR ''S'' \<or> type = CHR ''M''
          then upd (\<lambda>s. s\<lparr>physmem := put_le 4 memptr (get_le 4 (physmem s) memptr + 1 :: 32 word) (physmem s)\<rparr>)
          else ret ())))"

section \<open>The trace file\<close>

text \<open>\<open>fgets(buf, MAXLINE, infp)\<close> until the end of the file: pieces of at most 255 characters, cut after a newline.\<close>

definition MAXLINE :: nat where "MAXLINE = 256"

definition fgets_len :: "string \<Rightarrow> nat" where
  "fgets_len s = (let l = take (MAXLINE - 1) s; n = length (takeWhile (\<lambda>c. c \<noteq> CHR 0x0A) l)
     in if n < length l then n + 1 else n)"

function fgets_all :: "string \<Rightarrow> string list" where
  "fgets_all [] = []"
| "fgets_all (c # cs) = take (fgets_len (c # cs)) (c # cs) # fgets_all (drop (fgets_len (c # cs)) (c # cs))"
  by pat_completeness auto

lemma fgets_len_pos: "0 < fgets_len (c # cs)"
  by (simp add: fgets_len_def MAXLINE_def Let_def)

termination fgets_all
  by (relation "measure length") (use fgets_len_pos in auto)

text \<open>\<open>strtoul\<close> and the conversion \<open>%lx\<close>; \<open>None\<close> if no digit is found.\<close>

definition is_space :: "char \<Rightarrow> bool" where
  "is_space c \<longleftrightarrow> (let n = of_char c :: nat in n = 32 \<or> 9 \<le> n \<and> n \<le> 13)"

definition digit_value :: "char \<Rightarrow> nat option" where
  "digit_value c = (let n = of_char c :: nat in
     if 48 \<le> n \<and> n \<le> 57 then Some (n - 48)
     else if 97 \<le> n \<and> n \<le> 122 then Some (n - 87)
     else if 65 \<le> n \<and> n \<le> 90 then Some (n - 55) else None)"

primrec scan_digits :: "nat \<Rightarrow> string \<Rightarrow> nat option \<Rightarrow> nat option" where
  "scan_digits base [] acc = acc"
| "scan_digits base (c # cs) acc = (case digit_value c of
      Some d \<Rightarrow> if d < base then scan_digits base cs (Some (case acc of None \<Rightarrow> d | Some n \<Rightarrow> n * base + d)) else acc
    | None \<Rightarrow> acc)"

definition scan_ulong :: "nat \<Rightarrow> string \<Rightarrow> addr_t option" where
  "scan_ulong base s = (let s1 = dropWhile is_space s;
      neg = (s1 \<noteq> [] \<and> hd s1 = CHR ''-'');
      s2 = (if s1 \<noteq> [] \<and> hd s1 \<in> {CHR ''-'', CHR ''+''} then tl s1 else s1);
      s3 = (if base = 16 \<and> take 2 s2 \<in> {''0x'', ''0X''} then drop 2 s2 else s2)
    in case scan_digits base s3 None of None \<Rightarrow> None
       | Some n \<Rightarrow> Some (if 2 ^ 64 \<le> n then - 1 else if neg then - of_nat n else of_nat n))"

text \<open>\<open>sscanf(buf, "%c %lx", &type, &vaddr)\<close> leaves \<open>vaddr\<close> as it was if there is no number.\<close>

definition replay_line :: "algorithm \<Rightarrow> string \<Rightarrow> addr_t \<Rightarrow> (sim, addr_t) prog" where
  "replay_line A buf vaddr = (case buf of
      [] \<Rightarrow> ret vaddr
    | type # rest \<Rightarrow>
        if type \<noteq> CHR ''='' then
          (let vaddr' = (case scan_ulong 16 rest of None \<Rightarrow> vaddr | Some v \<Rightarrow> v)
           in thn (access_mem A type vaddr') (ret vaddr'))
        else ret vaddr)"

definition replay_trace :: "algorithm \<Rightarrow> string \<Rightarrow> (sim, unit) prog" where
  "replay_trace A infp = bnd (foldM (fgets_all infp) (replay_line A) 0) (\<lambda>_. ret ())"

section \<open>The program\<close>

definition algs :: "algorithm list" where
  "algs = [rand, lru, fifo, clock, opt]"

record options =
  tracefile :: "string option"
  opt_memsize :: "32 word"
  opt_swapsize :: "32 word"
  replacement_alg :: "string option"

definition strtoul10 :: "string \<Rightarrow> 32 word" where
  "strtoul10 s = (case scan_ulong 10 s of None \<Rightarrow> 0 | Some v \<Rightarrow> ucast v)"

text \<open>The options in the order \<open>getopt\<close> returns them, an unknown one as \<open>'?'\<close>.\<close>

fun parse_options :: "(char \<times> string) list \<Rightarrow> options \<Rightarrow> options option" where
  "parse_options [] os = Some os"
| "parse_options ((c, optarg) # cs) os =
     (if c = CHR ''f'' then parse_options cs (os\<lparr>tracefile := Some optarg\<rparr>)
      else if c = CHR ''m'' then parse_options cs (os\<lparr>opt_memsize := strtoul10 optarg\<rparr>)
      else if c = CHR ''a'' then parse_options cs (os\<lparr>replacement_alg := Some optarg\<rparr>)
      else if c = CHR ''s'' then parse_options cs (os\<lparr>opt_swapsize := strtoul10 optarg\<rparr>)
      else None)"

text \<open>Initialisation up to the call of \<open>init_fcn\<close>, with the algorithm selected.\<close>

definition sim_alloc :: "nat \<Rightarrow> (sim, unit) prog" where
  "sim_alloc m = upd (\<lambda>s. s\<lparr>memsize := m, coremap := replicate m free_frame\<rparr>)"

definition sim_boot :: "nat \<Rightarrow> nat \<Rightarrow> (sim, unit) prog" where
  "sim_boot m swapsize = thn (sim_alloc m) (bnd (swap_init swapsize) (\<lambda>_. init_pagetable))"

text \<open>
  \<open>fopen\<close> is the parameter \<open>files\<close> (\<open>None\<close> is NULL), \<open>std_in\<close> what can be read from stdin.  The
  counters printed at the end are those of the final state.
\<close>

definition sim_main :: "(string \<Rightarrow> string option) \<Rightarrow> string \<Rightarrow> (char \<times> string) list \<Rightarrow> (sim, int) prog" where
  "sim_main files std_in args = (case parse_options args
       \<lparr>tracefile = None, opt_memsize = 0, opt_swapsize = 4096, replacement_alg = None\<rparr> of
     None \<Rightarrow> exitp 1
   | Some os \<Rightarrow>
       (case (case tracefile os of None \<Rightarrow> Some std_in | Some f \<Rightarrow> files f) of
          None \<Rightarrow> exitp 1
        | Some infp \<Rightarrow>
            thn (sim_boot (unat (opt_memsize os)) (unat (opt_swapsize os)))
           (case replacement_alg os of
              None \<Rightarrow> exitp 1
            | Some name \<Rightarrow>
                (case find (\<lambda>a. alg_name a = name) algs of
                   None \<Rightarrow> exitp 1
                 | Some A \<Rightarrow> thn (init_fcn A) (thn (replay_trace A infp)
                    (thn print_pagedirectory (thn swap_destroy (ret 0))))))))"

section \<open>The memory the simulator promises\<close>

definition mem_of :: "byte list \<Rightarrow> memory" where
  "mem_of c = (\<lambda>i. if i < length c then c ! i else 0)"

definition is_write :: "char \<Rightarrow> bool" where
  "is_write type \<longleftrightarrow> type = CHR ''S'' \<or> type = CHR ''M''"

definition page_version :: "byte list \<Rightarrow> 32 word" where
  "page_version c = get_le 4 (mem_of c) 0"

definition page_addr :: "byte list \<Rightarrow> addr_t" where
  "page_addr c = get_le 8 (mem_of c) 4"

definition bump_page :: "byte list \<Rightarrow> byte list" where
  "bump_page c = get_bytes (put_le 4 0 (page_version c + 1) (mem_of c)) 0 16"

text \<open>Pages without frames and swap: a page is created at its first use and counts its writes.\<close>

definition flat_content :: "(pte_ptr \<Rightarrow> byte list option) \<Rightarrow> addr_t \<Rightarrow> byte list" where
  "flat_content M vaddr = (case M (vpage vaddr) of None \<Rightarrow> fresh_page vaddr | Some c \<Rightarrow> c)"

definition flat_access :: "char \<times> addr_t \<Rightarrow> (pte_ptr \<Rightarrow> byte list option) \<Rightarrow> (pte_ptr \<Rightarrow> byte list option)" where
  "flat_access a M = (case a of (type, vaddr) \<Rightarrow> M(vpage vaddr \<mapsto>
     (if is_write type then bump_page (flat_content M vaddr) else flat_content M vaddr)))"

definition accesses :: "algorithm \<Rightarrow> (char \<times> addr_t) list \<Rightarrow> (sim, unit) prog" where
  "accesses A acc = forM acc (\<lambda>(type, vaddr). access_mem A type vaddr)"

text \<open>The swap file is full, or no memory is left for a second-level table.\<close>

definition exhausted :: "addr_t \<Rightarrow> sim \<Rightarrow> bool" where
  "exhausted vaddr s \<longleftrightarrow> swap_full s \<or> no_table vaddr s"

text \<open>Words read from a copy of a page are words of the page.\<close>

lemma get_bytes_mem_of: "length c = n \<Longrightarrow> get_bytes (mem_of c) 0 n = c"
  by (auto simp: get_bytes_def mem_of_def intro!: nth_equalityI)

lemma page_words:
  assumes "get_bytes m a 16 = c"
  shows "get_le 4 m a = page_version c" "get_le 8 m (a + 4) = page_addr c"
proof -
  have "length c = 16" using assms by auto
  then have eq: "get_bytes m a 16 = get_bytes (mem_of c) 0 16"
    using assms get_bytes_mem_of [of c 16] by simp
  show "get_le 4 m a = page_version c" "get_le 8 m (a + 4) = page_addr c"
    using get_le_of_bytes [OF eq, of 0 4] get_le_of_bytes [OF eq, of 4 8]
    by (simp_all add: page_version_def page_addr_def)
qed

lemma page_bump:
  assumes "get_bytes m a 16 = c"
  shows "get_bytes (put_le 4 a (get_le 4 m a + 1 :: 32 word) m) a 16 = bump_page c"
proof (rule nth_equalityI)
  have len: "length c = 16" using assms by auto
  have at: "m (a + k) = mem_of c k" if "k < 16" for k
    using arg_cong [OF assms, of "\<lambda>l. l ! k"] that len by (simp add: get_bytes_def mem_of_def)
  fix k assume "k < length (get_bytes (put_le 4 a (get_le 4 m a + 1 :: 32 word) m) a 16)"
  then have k: "k < 16" by simp
  show "get_bytes (put_le 4 a (get_le 4 m a + 1 :: 32 word) m) a 16 ! k = bump_page c ! k"
  proof (cases "k < 4")
    case True
    then show ?thesis
      using k put_le_inside [OF True, of a "page_version c + 1" m] put_le_inside [OF True, of 0 "page_version c + 1"]
      by (simp add: bump_page_def get_bytes_def page_words(1) [OF assms])
  next
    case False
    then show ?thesis using k at by (simp add: bump_page_def get_bytes_def put_le_outside)
  qed
qed (simp add: bump_page_def)

lemma phys_write:
  assumes inv: "vm_inv s" and p: "entry_at s p = Some e" "is_valid e"
    and ph: "\<And>a. a + 16 \<le> frame_of e * 16 \<or> frame_of e * 16 + 16 \<le> a \<Longrightarrow> get_bytes ph a 16 = get_bytes (physmem s) a 16"
  shows "vm_inv (s\<lparr>physmem := ph\<rparr>)"
    and "page_bytes (s\<lparr>physmem := ph\<rparr>) = (page_bytes s)(p \<mapsto> get_bytes ph (frame_of e * 16) 16)"
proof -
  let ?t = "s\<lparr>physmem := ph\<rparr>"
  show "vm_inv ?t" using inv by simp
  have "get_bytes ph (frame_of e' * 16) 16 = get_bytes (physmem s) (frame_of e' * 16) 16"
    if "entry_at s q = Some e'" "is_valid e'" "q \<noteq> p" for q e'
  proof (rule ph)
    have "frame_of e' \<noteq> frame_of e"
      using frames_distinct [of "{}" s q e' p e] inv that p by (auto simp: vm_inv_def)
    then show "frame_of e' * 16 + 16 \<le> frame_of e * 16 \<or> frame_of e * 16 + 16 \<le> frame_of e' * 16" by linarith
  qed
  then show "page_bytes ?t = (page_bytes s)(p \<mapsto> get_bytes ph (frame_of e * 16) 16)"
    using p by (auto simp: page_bytes_def fun_eq_iff split: option.splits)
qed

context replacement
begin

definition ready :: "sim \<Rightarrow> bool" where
  "ready s \<longleftrightarrow> vm_inv s \<and> pinv (used_frames s) s"

lemma access_mem_run:
  assumes "ready s" and v: "unat vaddr < 2 ^ 36"
  shows "(\<exists>t. access_mem A type vaddr s = (Exit 1, t) \<and> exhausted vaddr s) \<or>
    (\<exists>t. access_mem A type vaddr s = (Ok (), t) \<and> ready t \<and> page_bytes t = flat_access (type, vaddr) (page_bytes s) \<and>
      ref_count t = ref_count s + 1 \<and> stock s t \<and>
      err_msgs t = err_msgs s + (if page_addr (flat_content (page_bytes s) vaddr) \<noteq> vaddr then 1 else 0))"
proof -
  let ?c = "flat_content (page_bytes s) vaddr"
  have inv: "vm_inv s" "pinv (used_frames s) s" using assms(1) by (simp_all add: ready_def)
  from find_physpage_run [OF inv v, of type] show ?thesis
  proof (elim disjE exE conjE)
    fix t assume "find_physpage A vaddr type s = (Exit 1, t)" "swap_full s"
    then show ?thesis by (auto simp: access_mem_def bnd_def exhausted_def)
  next
    fix t assume "find_physpage A vaddr type s = (Exit 1, t)" "no_table vaddr s"
    then show ?thesis by (auto simp: access_mem_def bnd_def exhausted_def)
  next
    fix f t
    assume run: "find_physpage A vaddr type s = (Ok (f * 16), t)" and tr: "translated s vaddr f t"
      and pol: "pinv (used_frames t) t"
    then obtain e where e: "entry_at t (vpage vaddr) = Some e" "is_valid e" "frame_of e = f"
      by (auto simp: translated_def in_frame_def)
    have t: "vm_inv t" "page_bytes t = (page_bytes s)(vpage vaddr \<mapsto> ?c)" "err_msgs t = err_msgs s"
      "ref_count t = ref_count s + 1" "stock s t"
      using tr by (simp_all add: translated_def in_frame_def page_content_def flat_content_def)
    have c: "get_bytes (physmem t) (f * 16) 16 = ?c"
      using page_bytes_simps(1) [OF e(1,2)] t(2) e(3) by simp
    let ?t1 = "if page_addr ?c \<noteq> vaddr then t\<lparr>err_msgs := err_msgs t + 1\<rparr> else t"
    let ?ph = "put_le 4 (f * 16) (get_le 4 (physmem t) (f * 16) + 1 :: 32 word) (physmem t)"
    let ?t2 = "if is_write type then ?t1\<lparr>physmem := ?ph\<rparr> else ?t1"
    have ent1: "entry_at ?t1 (vpage vaddr) = Some e" "physmem ?t1 = physmem t" "same_view t ?t1"
      using e(1) by (simp_all add: same_view_def)
    have "vm_inv ?t1" using t(1) by simp
    moreover have "page_bytes ?t1 = page_bytes t"
      using same_view_bytes [OF ent1(3)] by (simp add: fun_eq_iff)
    moreover have ph: "get_bytes ?ph a 16 = get_bytes (physmem t) a 16" if "a + 16 \<le> f * 16 \<or> f * 16 + 16 \<le> a" for a
      using that by (intro get_bytes_put_le_other) auto
    ultimately have t2: "vm_inv ?t2" "page_bytes ?t2 = flat_access (type, vaddr) (page_bytes s)"
      using phys_write [of ?t1 "vpage vaddr" e ?ph] ent1 e t(2) page_bump [OF c]
      by (simp_all add: flat_access_def)
    have "access_mem A type vaddr s = (Ok (), ?t2)"
      using run by (simp add: access_mem_def prog bnd_run page_words(2) [OF c] is_write_def)
    moreover have "same_policy t ?t2" "used_frames ?t2 = used_frames t"
      by (simp_all add: same_policy_def used_frames_def)
    ultimately show ?thesis
      using t2 pinv_policy [of t ?t2 "used_frames t"] pol t(3-5) unfolding ready_def
      by (auto simp: stock_def tables_ok_def)
  qed
qed

end

text \<open>The messages \<open>access_mem\<close> prints: a page used under two addresses is reported.\<close>

primrec flat_errors :: "(char \<times> addr_t) list \<Rightarrow> (pte_ptr \<Rightarrow> byte list option) \<Rightarrow> nat" where
  "flat_errors [] M = 0"
| "flat_errors (a # acc) M = (if page_addr (flat_content M (snd a)) \<noteq> snd a then 1 else 0) +
     flat_errors acc (flat_access a M)"

text \<open>Why an access sequence started in \<open>s\<close> ends with \<open>exit(1)\<close>.\<close>

definition gives_up :: "algorithm \<Rightarrow> (char \<times> addr_t) list \<Rightarrow> sim \<Rightarrow> bool" where
  "gives_up A acc s \<longleftrightarrow> (\<exists>pre a post u. acc = pre @ a # post \<and> accesses A pre s = (Ok (), u) \<and> exhausted (snd a) u)"

definition sim_start :: "algorithm \<Rightarrow> nat \<Rightarrow> nat \<Rightarrow> (sim, unit) prog" where
  "sim_start A m swapsize = thn (sim_boot m swapsize) (init_fcn A)"

definition addresses_ok :: "(char \<times> addr_t) list \<Rightarrow> bool" where
  "addresses_ok acc \<longleftrightarrow> (\<forall>a \<in> set acc. unat (snd a) < 2 ^ 36)"

lemma accesses_Cons: "accesses A ((type, vaddr) # acc) s = bnd (access_mem A type vaddr) (\<lambda>_. accesses A acc) s"
  by (simp add: accesses_def prog)

lemma gives_up_Cons:
  "access_mem A type vaddr s = (Ok (), t) \<Longrightarrow> gives_up A acc t \<Longrightarrow> gives_up A ((type, vaddr) # acc) s"
proof -
  assume t: "access_mem A type vaddr s = (Ok (), t)" and "gives_up A acc t"
  then obtain pre a post u where u: "acc = pre @ a # post" "accesses A pre t = (Ok (), u)" "exhausted (snd a) u"
    by (auto simp: gives_up_def)
  then have "accesses A ((type, vaddr) # pre) s = (Ok (), u)" using t by (simp add: accesses_Cons bnd_run)
  then show ?thesis
    unfolding gives_up_def using u(1,3) by (intro exI [of _ "(type, vaddr) # pre"] exI [of _ a] exI [of _ post] exI [of _ u]) simp
qed

lemma gives_up_now: "exhausted vaddr s \<Longrightarrow> gives_up A ((type, vaddr) # acc) s"
  unfolding gives_up_def by (rule exI [of _ "[]"]) (simp add: accesses_def ret_run)

lemma same_core_vm_inv: "same_core s t \<Longrightarrow> vm_inv s \<Longrightarrow> vm_inv t"
proof -
  assume c: "same_core s t" and inv: "vm_inv s"
  note view = same_core_view [OF c]
  have "sizes_ok s" "frames_inv {} s" "slots_inv s" "counters_ok s" using inv by (simp_all add: vm_inv_def)
  then show "vm_inv t"
    using same_view_sizes [OF view] same_view_frames [OF view] same_view_slots [OF view] same_view_used [OF view] c
    by (simp add: vm_inv_def counters_ok_def same_core_def)
qed

lemma boot_run:
  assumes "0 < m" "m \<le> 2 ^ 20" "n \<le> 2 ^ 27"
  shows "\<exists>t. sim_boot m n (sim_globals 0 ph tables rnd) = (Ok (), t) \<and> vm_inv t \<and> used_frames t = {} \<and>
    page_bytes t = Map.empty \<and> memsize t = m \<and> ref_count t = 0 \<and> err_msgs t = 0 \<and>
    nbits (swapmap t) = n \<and> tables_ok tables t"
proof -
  obtain b where b: "bitmap_create n = Ok b" "bitmap_ok b" "nbits b = n" "\<forall>i < n. \<not> slot_used b i"
    using create_run [of n] assms(3) by auto
  define t where "t = (sim_globals m ph tables rnd)\<lparr>swapmap := b, swap_open := True\<rparr>"
  have t: "memsize t = m" "coremap t = replicate m free_frame" "swapmap t = b" "nbits (swapmap t) = n" "tables_ok tables t"
    "hit_count t = 0" "miss_count t = 0"
    "ref_count t = 0" "evict_clean_count t = 0" "evict_dirty_count t = 0" "err_msgs t = 0"
    and none: "entry_at t p = None" for p
    by (simp_all add: t_def sim_globals_def entry_at_def tables_ok_def b(3))
  have "sim_boot m n (sim_globals 0 ph tables rnd) = (Ok (), t)"
    by (simp add: t_def sim_boot_def sim_alloc_def swap_init_def b(1) init_pagetable_def prog sim_globals_def)
  moreover have used: "used_frames t = {}" by (auto simp: used_frames_def t free_frame_def)
  moreover have "vm_inv t"
  proof -
    have "sizes_ok t" using assms b by (simp add: sizes_ok_def t)
    moreover have "frames_inv {} t"
      by (rule frames_invI) (simp_all add: none t free_frame_def)
    moreover have "slots_inv t"
      by (rule slots_invI) (use b in \<open>simp_all add: none t\<close>)
    moreover have "counters_ok t" using used by (simp add: counters_ok_def t)
    ultimately show ?thesis by (simp add: vm_inv_def)
  qed
  moreover have "page_bytes t = Map.empty" by (simp add: page_bytes_def none fun_eq_iff)
  ultimately show ?thesis using t by blast
qed

lemma dom_flat: "dom (fold flat_access acc Map.empty) = vpage ` snd ` set acc"
proof -
  have "dom (fold flat_access acc M) = dom M \<union> vpage ` snd ` set acc" for M
    by (induction acc arbitrary: M) (auto simp: flat_access_def split: prod.splits)
  then show ?thesis by simp
qed

context replacement
begin

lemma start_run:
  assumes "0 < m" "m \<le> 2 ^ 20" "n \<le> 2 ^ 27"
  shows "\<exists>t. sim_start A m n (sim_globals 0 ph tables rnd) = (Ok (), t) \<and> ready t \<and>
    page_bytes t = Map.empty \<and> ref_count t = 0 \<and> err_msgs t = 0 \<and> nbits (swapmap t) = n \<and> tables_ok tables t \<and> memsize t = m"
proof -
  obtain s where s: "sim_boot m n (sim_globals 0 ph tables rnd) = (Ok (), s)" "vm_inv s" "used_frames s = {}"
    "page_bytes s = Map.empty" "memsize s = m" "ref_count s = 0" "err_msgs s = 0"
    "nbits (swapmap s) = n" "tables_ok tables s"
    using boot_run [OF assms] by metis
  then obtain t where t: "init_fcn A s = (Ok (), t)" "same_core s t" "pinv {} t"
    using init_run [of s] assms(1) by (auto simp: vm_inv_def sizes_ok_def)
  have "vm_inv t" "used_frames t = {}" "page_bytes t = Map.empty"
    using same_core_vm_inv [OF t(2) s(2)] same_view_used [OF same_core_view [OF t(2)]] s(2-4)
      same_view_bytes [OF same_core_view [OF t(2)]] by (auto simp: vm_inv_def fun_eq_iff)
  then show ?thesis
    using s t by (auto simp: sim_start_def prog bnd_run ready_def same_core_def tables_ok_def)
qed

lemma accesses_run:
  assumes "ready s" "addresses_ok acc"
  shows "(\<exists>t. accesses A acc s = (Exit 1, t) \<and> gives_up A acc s) \<or>
    (\<exists>t. accesses A acc s = (Ok (), t) \<and> ready t \<and> page_bytes t = fold flat_access acc (page_bytes s) \<and>
      ref_count t = ref_count s + int (length acc) \<and> stock s t \<and> err_msgs t = err_msgs s + flat_errors acc (page_bytes s))"
  using assms
proof (induction acc arbitrary: s)
  case Nil
  then show ?case by (simp add: accesses_def prog)
next
  case (Cons a acc)
  obtain type vaddr where a: "a = (type, vaddr)" by (cases a)
  have v: "unat vaddr < 2 ^ 36" "addresses_ok acc" using Cons.prems(2) a by (auto simp: addresses_ok_def)
  from access_mem_run [OF Cons.prems(1) v(1), of type] show ?case
  proof (elim disjE exE conjE)
    fix t assume "access_mem A type vaddr s = (Exit 1, t)" "exhausted vaddr s"
    then show ?thesis unfolding a using gives_up_now by (auto simp: accesses_Cons bnd_def)
  next
    fix t
    assume t: "access_mem A type vaddr s = (Ok (), t)" "ready t" "page_bytes t = flat_access (type, vaddr) (page_bytes s)"
      "ref_count t = ref_count s + 1" "stock s t"
      "err_msgs t = err_msgs s + (if page_addr (flat_content (page_bytes s) vaddr) \<noteq> vaddr then 1 else 0)"
    then show ?thesis
      using Cons.IH [OF t(2) v(2)] gives_up_Cons [OF t(1)] stock_trans [OF t(5)]
      unfolding a by (auto simp: accesses_Cons bnd_run)
  qed
qed

lemma gives_up_short:
  assumes "ready s" "addresses_ok acc" "gives_up A acc s" "page_bytes s = Map.empty" "tables_ok T s"
  shows "nbits (swapmap s) < card (vpage ` snd ` set acc) \<or> T < 4096"
proof -
  obtain pre a post u where u: "acc = pre @ a # post" "accesses A pre s = (Ok (), u)" "exhausted (snd a) u"
    using assms(3) by (auto simp: gives_up_def)
  have pre: "addresses_ok pre" "unat (snd a) < 2 ^ 36" using assms(2) u(1) by (auto simp: addresses_ok_def)
  have now: "page_bytes u = fold flat_access pre Map.empty" "stock s u"
    using accesses_run [OF assms(1) pre(1)] u(2) assms(4) by auto
  show ?thesis
  proof (cases "no_table (snd a) u")
    case True
    moreover have "tables_ok T u" using now(2) assms(5) by (simp add: stock_def)
    ultimately show ?thesis using tables_suffice [OF _ _ pre(2), of T u] by force
  next
    case False
    then have "swap_full u" using u(3) by (simp add: exhausted_def)
    then obtain P where P: "finite P" "P \<subseteq> dom (page_bytes u)" "card P = Suc (nbits (swapmap s))"
      using now(2) by (auto simp: swap_full_def stock_def)
    have "dom (page_bytes u) \<subseteq> vpage ` snd ` set acc"
      using dom_flat [of pre] u(1) by (auto simp: now(1))
    then have "card P \<le> card (vpage ` snd ` set acc)"
      using P(2) by (intro card_mono) auto
    then show ?thesis using P(3) by simp
  qed
qed

lemma simulation_run:
  assumes "0 < m" "m \<le> 2 ^ 20" "n \<le> 2 ^ 27" "addresses_ok acc"
  shows "(\<exists>s t. sim_start A m n (sim_globals 0 ph tables rnd) = (Ok (), s) \<and> accesses A acc s = (Exit 1, t) \<and> gives_up A acc s \<and>
      (n < card (vpage ` snd ` set acc) \<or> tables < 4096)) \<or>
    (\<exists>s t. sim_start A m n (sim_globals 0 ph tables rnd) = (Ok (), s) \<and> accesses A acc s = (Ok (), t) \<and> vm_inv t \<and>
      page_bytes t = fold flat_access acc Map.empty \<and> ref_count t = int (length acc) \<and> err_msgs t = flat_errors acc Map.empty \<and> memsize t = m)"
proof -
  obtain s where s: "sim_start A m n (sim_globals 0 ph tables rnd) = (Ok (), s)" "ready s"
    "page_bytes s = Map.empty" "ref_count s = 0" "err_msgs s = 0" "nbits (swapmap s) = n" "tables_ok tables s" "memsize s = m"
    using start_run [OF assms(1-3)] by metis
  show ?thesis
    using accesses_run [OF s(2) assms(4)] s gives_up_short [OF s(2) assms(4) _ s(3,7)] unfolding ready_def by (auto simp: stock_def)
qed

end

text \<open>The five algorithms of the simulator meet the contract.\<close>

lemma simulation_algs:
  assumes "A \<in> set algs" "0 < m" "m \<le> 2 ^ 20" "n \<le> 2 ^ 27" "addresses_ok acc"
  shows "(\<exists>s t. sim_start A m n (sim_globals 0 ph tables rnd) = (Ok (), s) \<and> accesses A acc s = (Exit 1, t) \<and> gives_up A acc s \<and>
      (n < card (vpage ` snd ` set acc) \<or> tables < 4096)) \<or>
    (\<exists>s t. sim_start A m n (sim_globals 0 ph tables rnd) = (Ok (), s) \<and> accesses A acc s = (Ok (), t) \<and> vm_inv t \<and>
      page_bytes t = fold flat_access acc Map.empty \<and> ref_count t = int (length acc) \<and> err_msgs t = flat_errors acc Map.empty \<and> memsize t = m)"
proof -
  consider "A = rand" | "A = lru" | "A = fifo" | "A = clock" | "A = opt"
    using assms(1) by (auto simp: algs_def)
  then show ?thesis
  proof cases
    case 1
    show ?thesis unfolding 1 by (rule rand_alg.simulation_run [OF assms(2-5)])
  next
    case 2
    show ?thesis unfolding 2 by (rule lru_alg.simulation_run [OF assms(2-5)])
  next
    case 3
    show ?thesis unfolding 3 by (rule fifo_alg.simulation_run [OF assms(2-5)])
  next
    case 4
    show ?thesis unfolding 4 by (rule clock_alg.simulation_run [OF assms(2-5)])
  next
    case 5
    show ?thesis unfolding 5 by (rule opt_alg.simulation_run [OF assms(2-5)])
  qed
qed

lemma simulation_ok:
  assumes "A \<in> set algs" "0 < m" "m \<le> 2 ^ 20" "n \<le> 2 ^ 27" "addresses_ok acc"
    and "card (vpage ` snd ` set acc) \<le> n" "4096 \<le> tables"
  shows "\<exists>t. thn (sim_start A m n) (accesses A acc) (sim_globals 0 ph tables rnd) = (Ok (), t)"
  using simulation_algs [OF assms(1-5), of ph tables rnd] assms(6,7) by (auto simp: prog bnd_run)

section \<open>Properties of the simulation\<close>

text \<open>
  C10: For every algorithm of the table, every number of frames up to \<open>2 ^ 20\<close> and every sequence of
  accesses to 36-bit addresses, the simulation never faults and never loops: it ends normally with
  the contents of every virtual page those of a flat memory without frames and swap, or with
  \<open>exit(1)\<close> at an access for which the swap file is full or no page table can be allocated.
\<close>

theorem paging_transparent:
  assumes "A \<in> set algs" "0 < m" "m \<le> 2 ^ 20" "n \<le> 2 ^ 27" "addresses_ok acc"
  shows "\<exists>s r t. sim_start A m n (sim_globals 0 ph tables rnd) = (Ok (), s) \<and> accesses A acc s = (r, t) \<and>
    (r = Ok () \<and> page_bytes t = fold flat_access acc Map.empty \<or> r = Exit 1 \<and> gives_up A acc s)"
  using simulation_algs [OF assms, of ph tables rnd] by auto

text \<open>
  C11: A swap file with a slot for every page used, and memory for the second-level tables, is
  always enough: then the simulation ends normally, with any of the algorithms and any number of
  frames, one included.
\<close>

theorem resources_suffice:
  assumes "A \<in> set algs" "0 < m" "m \<le> 2 ^ 20" "n \<le> 2 ^ 27" "addresses_ok acc"
    and "card (vpage ` snd ` set acc) \<le> n" "4096 \<le> tables"
  shows "\<exists>t. thn (sim_start A m n) (accesses A acc) (sim_globals 0 ph tables rnd) = (Ok (), t)"
  using assms by (rule simulation_ok)

definition trace_demo :: "(char \<times> addr_t) list" where
  "trace_demo = [(CHR ''S'', 0x1000), (CHR ''L'', 0x2000), (CHR ''S'', 0x1000)]"

lemma trace_demo_facts:
  "addresses_ok trace_demo" "card (vpage ` snd ` set trace_demo) \<le> 2" "0x1000 \<in> snd ` set trace_demo"
proof -
  have "vpage ` snd ` set trace_demo = {vpage 0x1000, vpage 0x2000}" by (auto simp: trace_demo_def)
  then show "card (vpage ` snd ` set trace_demo) \<le> 2" by (simp add: card_insert_if)
qed (simp_all add: trace_demo_def addresses_ok_def)

lemma paging_transparent_witness:
  "\<exists>s r t. sim_start clock 1 8 (sim_globals 0 (\<lambda>_. 0) 2 id) = (Ok (), s) \<and> accesses clock trace_demo s = (r, t) \<and>
    (r = Ok () \<and> page_bytes t = fold flat_access trace_demo Map.empty \<or> r = Exit 1 \<and> gives_up clock trace_demo s)"
  by (rule paging_transparent) (simp_all add: algs_def trace_demo_facts)

lemma resources_suffice_witness:
  "\<exists>t. thn (sim_start clock 1 2) (accesses clock trace_demo) (sim_globals 0 (\<lambda>_. 0) 4096 id) = (Ok (), t)"
  by (rule resources_suffice) (simp_all add: algs_def trace_demo_facts)

section \<open>Version counters\<close>

lemma fresh_words: "page_addr (fresh_page vaddr) = vaddr" "page_version (fresh_page vaddr) = 0"
proof -
  have eq: "get_bytes (put_le 8 4 vaddr (\<lambda>_. 0)) 0 16 = fresh_page vaddr" by (simp add: fresh_page_def)
  have "get_le 8 (put_le 8 4 vaddr (\<lambda>_. 0)) 4 = vaddr" by (rule get_put_le) simp
  then show "page_addr (fresh_page vaddr) = vaddr" using page_words(2) [OF eq] by simp
  have "get_le 4 (put_le 8 4 vaddr (\<lambda>_. 0)) 0 = (get_le 4 (\<lambda>_. 0) 0 :: 32 word)"
    by (rule get_put_le_other) simp
  also have "\<dots> = 0" by (simp add: eval_nat_numeral)
  finally show "page_version (fresh_page vaddr) = 0" using page_words(1) [OF eq] by simp
qed

lemma bump_words: "page_addr (bump_page c) = page_addr c" "page_version (bump_page c) = page_version c + 1"
proof -
  let ?m = "put_le 4 0 (page_version c + 1) (mem_of c)"
  have eq: "get_bytes ?m 0 16 = bump_page c" by (simp add: bump_page_def)
  have "get_le 8 ?m 4 = (get_le 8 (mem_of c) 4 :: addr_t)" by (rule get_put_le_other) simp
  then show "page_addr (bump_page c) = page_addr c" using page_words(2) [OF eq] by (simp add: page_addr_def)
  have "get_le 4 ?m 0 = page_version c + 1" by (rule get_put_le) simp
  then show "page_version (bump_page c) = page_version c + 1" using page_words(1) [OF eq] by simp
qed

definition one_address :: "(char \<times> addr_t) list \<Rightarrow> bool" where
  "one_address acc \<longleftrightarrow> (\<forall>a \<in> set acc. \<forall>b \<in> set acc. vpage (snd a) = vpage (snd b) \<longrightarrow> snd a = snd b)"

definition writes :: "addr_t \<Rightarrow> (char \<times> addr_t) list \<Rightarrow> nat" where
  "writes vaddr acc = length (filter (\<lambda>(type, v). is_write type \<and> v = vaddr) acc)"

lemma flat_errors_snoc: "flat_errors (acc @ [a]) M = flat_errors acc M +
    (if page_addr (flat_content (fold flat_access acc M) (snd a)) \<noteq> snd a then 1 else 0)"
  by (induction acc arbitrary: M) auto

lemma flat_pages:
  assumes "one_address acc"
  shows "(\<forall>v \<in> snd ` set acc. \<exists>c. fold flat_access acc Map.empty (vpage v) = Some c \<and> page_addr c = v \<and>
      page_version c = of_nat (writes v acc)) \<and>
    (\<forall>v. vpage v \<notin> vpage ` snd ` set acc \<longrightarrow> fold flat_access acc Map.empty (vpage v) = None) \<and>
    flat_errors acc Map.empty = 0"
  using assms
proof (induction acc rule: rev_induct)
  case Nil
  then show ?case by simp
next
  case (snoc a acc)
  obtain type vaddr where a: "a = (type, vaddr)" by (cases a)
  have one: "one_address acc" "\<And>v. v \<in> snd ` set acc \<Longrightarrow> vpage v = vpage vaddr \<Longrightarrow> v = vaddr"
    using snoc.prems a by (auto simp: one_address_def)
  let ?M = "fold flat_access acc Map.empty"
  note IH = snoc.IH [OF one(1)]
  have w: "writes v (acc @ [a]) = writes v acc + (if is_write type \<and> vaddr = v then 1 else 0)" for v
    by (simp add: writes_def a)
  have cur: "page_addr (flat_content ?M vaddr) = vaddr \<and> page_version (flat_content ?M vaddr) = of_nat (writes vaddr acc)"
  proof (cases "vpage vaddr \<in> vpage ` snd ` set acc")
    case True
    then have "vaddr \<in> snd ` set acc" using one(2) by (metis imageE)
    then show ?thesis using IH by (auto simp: flat_content_def)
  next
    case False
    then have "?M (vpage vaddr) = None" using IH by blast
    moreover have "writes vaddr acc = 0" using False by (force simp: writes_def filter_empty_conv)
    ultimately show ?thesis by (simp add: flat_content_def fresh_words)
  qed
  have new: "fold flat_access (acc @ [a]) Map.empty = ?M(vpage vaddr \<mapsto>
      (if is_write type then bump_page (flat_content ?M vaddr) else flat_content ?M vaddr))"
    by (simp add: a flat_access_def)
  have "\<exists>c. fold flat_access (acc @ [a]) Map.empty (vpage v) = Some c \<and> page_addr c = v \<and>
      page_version c = of_nat (writes v (acc @ [a]))" if "v \<in> snd ` set (acc @ [a])" for v
  proof (cases "v = vaddr")
    case True
    then show ?thesis using cur unfolding new w by (simp add: bump_words)
  next
    case False
    then have "v \<in> snd ` set acc" "vpage v \<noteq> vpage vaddr" using that one(2) a by auto
    then show ?thesis using IH False unfolding new w by auto
  qed
  moreover have "fold flat_access (acc @ [a]) Map.empty (vpage v) = None"
    if "vpage v \<notin> vpage ` snd ` set (acc @ [a])" for v
    using that IH unfolding new by (auto simp: a)
  moreover have "flat_errors (acc @ [a]) Map.empty = 0"
    using IH cur by (simp add: flat_errors_snoc a)
  ultimately show ?case by blast
qed

text \<open>
  C12: If the trace uses one address per page, then at the end of the simulation every page used
  holds, in its frame or in the swap file, the address it was used under and a version counter
  equal to the number of writes to it (modulo \<open>2 ^ 32\<close>), and the check of \<open>access_mem\<close> never failed.
\<close>

theorem versions_counted:
  assumes "A \<in> set algs" "0 < m" "m \<le> 2 ^ 20" "n \<le> 2 ^ 27" "addresses_ok acc" "one_address acc"
    and "thn (sim_start A m n) (accesses A acc) (sim_globals 0 ph tables rnd) = (Ok (), t)" and "vaddr \<in> snd ` set acc"
  shows "\<exists>c. page_bytes t (vpage vaddr) = Some c \<and> page_addr c = vaddr \<and>
    page_version c = of_nat (writes vaddr acc) \<and> err_msgs t = 0"
proof -
  have "page_bytes t = fold flat_access acc Map.empty" "err_msgs t = flat_errors acc Map.empty"
    using simulation_algs [OF assms(1-5), of ph tables rnd] assms(7) by (auto simp: prog bnd_run)
  moreover have "\<exists>c. fold flat_access acc Map.empty (vpage vaddr) = Some c \<and> page_addr c = vaddr \<and>
      page_version c = of_nat (writes vaddr acc)" "flat_errors acc Map.empty = 0"
    using flat_pages [OF assms(6)] assms(8) by blast+
  ultimately show ?thesis by simp
qed

lemma trace_demo_one: "one_address trace_demo" "writes 0x1000 trace_demo = 2"
proof -
  have "vpage 0x1000 = (0, 1)" "vpage 0x2000 = (0, 2)"
    by (simp_all add: vpage_def PGDIR_INDEX_def PGTBL_INDEX_def drop_bit_eq_div)
  then show "one_address trace_demo" by (simp add: one_address_def trace_demo_def)
qed (simp add: writes_def trace_demo_def is_write_def)

lemma versions_counted_witness:
  "\<exists>t c. thn (sim_start lru 1 2) (accesses lru trace_demo) (sim_globals 0 (\<lambda>_. 0) 4096 id) = (Ok (), t) \<and>
     page_bytes t (vpage 0x1000) = Some c \<and> page_version c = 2"
proof -
  have A: "lru \<in> set algs" by (simp add: algs_def)
  obtain t where t: "thn (sim_start lru 1 2) (accesses lru trace_demo) (sim_globals 0 (\<lambda>_. 0) 4096 id) = (Ok (), t)"
    using simulation_ok [OF A, of 1 2 trace_demo 4096] trace_demo_facts by auto
  then show ?thesis
    using versions_counted [OF A _ _ _ trace_demo_facts(1) trace_demo_one(1) t trace_demo_facts(3)] trace_demo_one(2) by auto
qed

text \<open>
  C13: After any simulated accesses the bookkeeping agrees: every frame in use is named by the valid
  entry of exactly the page its coremap slot points back to, no two pages share a frame or a swap
  slot, pages out of memory have a slot that is marked and lies inside the swap file; every
  reference was counted once, as a hit or a miss, and every miss either took a free frame or evicted,
  so that misses and evictions differ by the frames in use, at most all of them.  The counters are
  integers here and of type \<open>int\<close> in C: none exceeds the number of accesses, so none overflows in a
  run of less than \<open>2 ^ 31\<close> accesses.
\<close>

theorem tables_agree:
  assumes "A \<in> set algs" "0 < m" "m \<le> 2 ^ 20" "n \<le> 2 ^ 27" "addresses_ok acc"
    and "thn (sim_start A m n) (accesses A acc) (sim_globals 0 ph tables rnd) = (Ok (), t)"
  shows "frames_inv {} t \<and> slots_inv t \<and> ref_count t = int (length acc) \<and>
    hit_count t + miss_count t = ref_count t \<and>
    miss_count t = evict_clean_count t + evict_dirty_count t + int (card (used_frames t)) \<and> card (used_frames t) \<le> m \<and>
    (\<forall>c \<in> {hit_count t, miss_count t, evict_clean_count t, evict_dirty_count t}. 0 \<le> c \<and> c \<le> int (length acc))"
proof -
  have t: "vm_inv t" "ref_count t = int (length acc)" "memsize t = m"
    using simulation_algs [OF assms(1-5), of ph tables rnd] assms(6) by (auto simp: prog bnd_run)
  have "card (used_frames t) \<le> m"
    using card_mono [of "{..<m}" "used_frames t"] t(3) by (auto simp: used_frames_def)
  then show ?thesis
    using t(1,2) by (simp add: vm_inv_def counters_ok_def)
qed

lemma tables_agree_witness:
  "\<exists>t. thn (sim_start fifo 1 2) (accesses fifo trace_demo) (sim_globals 0 (\<lambda>_. 0) 4096 id) = (Ok (), t) \<and>
     ref_count t = 3 \<and> frames_inv {} t"
proof -
  have A: "fifo \<in> set algs" by (simp add: algs_def)
  obtain t where t: "thn (sim_start fifo 1 2) (accesses fifo trace_demo) (sim_globals 0 (\<lambda>_. 0) 4096 id) = (Ok (), t)"
    using simulation_ok [OF A, of 1 2 trace_demo 4096] trace_demo_facts by auto
  then show ?thesis
    using tables_agree [OF A _ _ _ trace_demo_facts(1) t] by (auto simp: trace_demo_def)
qed

section \<open>The whole program\<close>

text \<open>The accesses a trace file makes.\<close>

primrec trace_accesses :: "string list \<Rightarrow> addr_t \<Rightarrow> (char \<times> addr_t) list" where
  "trace_accesses [] vaddr = []"
| "trace_accesses (buf # bufs) vaddr = (case buf of
      [] \<Rightarrow> trace_accesses bufs vaddr
    | type # rest \<Rightarrow>
        if type \<noteq> CHR ''='' then
          (let v = (case scan_ulong 16 rest of None \<Rightarrow> vaddr | Some v \<Rightarrow> v) in (type, v) # trace_accesses bufs v)
        else trace_accesses bufs vaddr)"

lemma replay_lines: "bnd (foldM bufs (replay_line A) vaddr) (\<lambda>_. ret ()) s = accesses A (trace_accesses bufs vaddr) s"
proof (induction bufs arbitrary: vaddr s)
  case Nil
  then show ?case by (simp add: accesses_def bnd_prims(1))
next
  case (Cons buf bufs)
  show ?case
  proof (cases buf)
    case Nil
    then show ?thesis using Cons.IH by (simp add: replay_line_def prog)
  next
    case c: (Cons type rest)
    let ?v = "case scan_ulong 16 rest of None \<Rightarrow> vaddr | Some v \<Rightarrow> v"
    show ?thesis
    proof (cases "type = CHR ''=''")
      case True
      then show ?thesis using c Cons.IH by (simp add: replay_line_def prog)
    next
      case False
      then have line: "replay_line A buf vaddr = thn (access_mem A type ?v) (ret ?v)"
        using c by (simp add: replay_line_def Let_def)
      have "bnd (foldM (buf # bufs) (replay_line A) vaddr) (\<lambda>_. ret ()) s =
          bnd (access_mem A type ?v) (\<lambda>_. bnd (foldM bufs (replay_line A) ?v) (\<lambda>_. ret ())) s"
        by (simp add: line thn_def bnd_def ret_run split: prod.splits outcome.splits)
      also have "\<dots> = bnd (access_mem A type ?v) (\<lambda>_. accesses A (trace_accesses bufs ?v)) s"
        by (rule bnd_cong) (simp_all only: Cons.IH)
      finally show ?thesis using c False by (simp add: accesses_Cons Let_def)
    qed
  qed
qed

lemma replay_trace_accesses: "replay_trace A infp s = accesses A (trace_accesses (fgets_all infp) 0) s"
  by (simp add: replay_trace_def replay_lines)

text \<open>
  C14: The whole program, on any options, trace file and input: if the number of frames is between
  1 and \<open>2 ^ 20\<close>, the swap size at most \<open>2 ^ 27\<close> and the addresses of the trace have 36 bits, it
  returns 0 or exits with 1; when it returns 0, the name given is that of one of the five
  algorithms, the temporary swap file has been removed, and the final pages are those of the flat
  memory after the accesses of the trace.
\<close>

theorem sim_main_total:
  assumes "parse_options args \<lparr>tracefile = None, opt_memsize = 0, opt_swapsize = 4096, replacement_alg = None\<rparr> = Some os"
    and "(case tracefile os of None \<Rightarrow> Some std_in | Some f \<Rightarrow> files f) = Some infp"
    and "0 < opt_memsize os" "unat (opt_memsize os) \<le> 2 ^ 20" "unat (opt_swapsize os) \<le> 2 ^ 27"
    and "addresses_ok (trace_accesses (fgets_all infp) 0)"
  shows "\<exists>r t. sim_main files std_in args (sim_globals 0 ph tables rnd) = (r, t) \<and>
    (r = Exit 1 \<or> r = Ok 0 \<and> replacement_alg os \<in> Some ` alg_name ` set algs \<and> \<not> swap_open t \<and>
       page_bytes t = fold flat_access (trace_accesses (fgets_all infp) 0) Map.empty)"
proof -
  let ?m = "unat (opt_memsize os)" and ?n = "unat (opt_swapsize os)" and ?s0 = "sim_globals 0 ph tables rnd"
  let ?acc = "trace_accesses (fgets_all infp) 0"
  have m: "0 < ?m" using assms(3) by (simp add: word_less_nat_alt)
  obtain s1 where s1: "sim_boot ?m ?n ?s0 = (Ok (), s1)" using boot_run [OF m assms(4,5)] by metis
  define rest :: "(sim, int) prog" where "rest = (case replacement_alg os of None \<Rightarrow> exitp 1 | Some name \<Rightarrow>
      (case find (\<lambda>a. alg_name a = name) algs of None \<Rightarrow> exitp 1
       | Some A \<Rightarrow> thn (init_fcn A) (thn (replay_trace A infp) (thn print_pagedirectory (thn swap_destroy (ret 0))))))"
  have run: "sim_main files std_in args ?s0 = rest s1"
    using assms(1,2) s1 by (simp add: sim_main_def rest_def prog bnd_run)
  show ?thesis
  proof (cases "replacement_alg os")
    case None
    then show ?thesis using run by (simp add: rest_def prog)
  next
    case (Some name)
    show ?thesis
    proof (cases "find (\<lambda>a. alg_name a = name) algs")
      case None
      then show ?thesis using run Some by (simp add: rest_def prog)
    next
      case found: (Some A)
      then have A: "A \<in> set algs" "alg_name A = name" by (auto simp: find_Some_iff)
      obtain s r t where st: "sim_start A ?m ?n ?s0 = (Ok (), s)" "accesses A ?acc s = (r, t)"
        "r = Exit 1 \<or> r = Ok () \<and> page_bytes t = fold flat_access ?acc Map.empty"
        using simulation_algs [OF A(1) m assms(4,5,6), of ph tables rnd] by blast
      then have init: "init_fcn A s1 = (Ok (), s)" using s1 by (simp add: sim_start_def prog bnd_run)
      have "rest s1 = bnd (accesses A ?acc) (\<lambda>_. thn print_pagedirectory (thn swap_destroy (ret 0))) s"
        using Some found init by (simp add: rest_def prog bnd_run) (simp add: bnd_def replay_trace_accesses)
      have "\<exists>t'. thn print_pagedirectory (thn swap_destroy (ret (0 :: int))) t = (Ok 0, t') \<and>
          page_bytes t' = page_bytes t \<and> \<not> swap_open t'"
      proof -
        let ?t' = "t\<lparr>report := snd (print_loop (\<lambda>i. map_option print_pagetbl (pgdir t i)) 4096), swap_open := False\<rparr>"
        have "thn print_pagedirectory (thn swap_destroy (ret (0 :: int))) t = (Ok 0, ?t')"
          by (simp add: print_pagedirectory_def swap_destroy_def prog case_prod_beta')
        moreover have "page_bytes ?t' = page_bytes t" "\<not> swap_open ?t'"
          by (simp_all add: page_bytes_def fun_eq_iff split: option.splits)
        ultimately show ?thesis by blast
      qed
      then obtain t' where t': "thn print_pagedirectory (thn swap_destroy (ret (0 :: int))) t = (Ok 0, t')"
        "page_bytes t' = page_bytes t" "\<not> swap_open t'" by blast
      from st(3) show ?thesis
      proof
        assume "r = Exit 1"
        then show ?thesis using run st(2) \<open>rest s1 = _\<close> by (simp add: bnd_def)
      next
        assume ok: "r = Ok () \<and> page_bytes t = fold flat_access ?acc Map.empty"
        then have "sim_main files std_in args ?s0 = (Ok 0, t')"
          using run st(2) \<open>rest s1 = _\<close> t'(1) by (simp add: bnd_run)
        then show ?thesis using ok t'(2,3) A Some by auto
      qed
    qed
  qed
qed

lemma sim_main_total_witness:
  "\<exists>r t. sim_main (\<lambda>_. None) ''L 1000'' [(CHR ''m'', ''4''), (CHR ''a'', ''lru'')] (sim_globals 0 (\<lambda>_. 0) 4096 id) = (r, t) \<and>
    (r = Exit 1 \<or> r = Ok 0 \<and> page_bytes t = fold flat_access [(CHR ''L'', 0x1000)] Map.empty)"
proof -
  let ?os = "\<lparr>tracefile = None, opt_memsize = 4, opt_swapsize = 4096, replacement_alg = Some ''lru''\<rparr>"
  have "parse_options [(CHR ''m'', ''4''), (CHR ''a'', ''lru'')]
      \<lparr>tracefile = None, opt_memsize = 0, opt_swapsize = 4096, replacement_alg = None\<rparr> = Some ?os"
    by (simp add: strtoul10_def scan_ulong_def digit_value_def is_space_def Let_def)
  moreover have "fgets_all ''L 1000'' = [''L 1000'']"
    by (simp add: fgets_len_def MAXLINE_def Let_def)
  moreover have "scan_ulong 16 '' 1000'' = Some 0x1000"
    by (simp add: scan_ulong_def digit_value_def is_space_def Let_def)
  ultimately have parsed: "parse_options [(CHR ''m'', ''4''), (CHR ''a'', ''lru'')]
      \<lparr>tracefile = None, opt_memsize = 0, opt_swapsize = 4096, replacement_alg = None\<rparr> = Some ?os" and "trace_accesses (fgets_all ''L 1000'') 0 = [(CHR ''L'', 0x1000)]" by simp_all
  moreover have "addresses_ok [(CHR ''L'', 0x1000)]" by (simp add: addresses_ok_def)
  ultimately show ?thesis
    using sim_main_total [of "[(CHR ''m'', ''4''), (CHR ''a'', ''lru'')]" ?os "''L 1000''" "\<lambda>_. None" "''L 1000''"
        "\<lambda>_. 0" 4096 id] by auto
qed

end
