(* ===== verification/Route.thy ===== *)
theory Route
  imports Prelude
begin

text \<open>
  Directions and \<open>compute_path\<close> of Assignment2/cars.c.  A direction is the C integer that
  \<open>parse_schedule\<close> reads into an \<open>enum direction\<close>, so it may lie outside the enumeration.  A route
  is the array of four integers \<open>compute_path\<close> allocates; \<open>None\<close> is an entry never written, whose
  value is indeterminate.  A C \<open>switch\<close> without \<open>break\<close> runs every body from the matching label on.
\<close>

type_synonym direction = int

definition NORTH :: direction where "NORTH = 0"
definition WEST :: direction where "WEST = 1"
definition SOUTH :: direction where "SOUTH = 2"
definition EAST :: direction where "EAST = 3"

lemmas compass = NORTH_def WEST_def SOUTH_def EAST_def

type_synonym route = "nat option list"

definition assign :: "nat list \<Rightarrow> route \<Rightarrow> route" where
  "assign qs r = map Some qs @ drop (length qs) r"

definition switch :: "('k \<times> ('s \<Rightarrow> 's)) list \<Rightarrow> 'k \<Rightarrow> 's \<Rightarrow> 's" where
  "switch cs k = fold snd (dropWhile (\<lambda>c. fst c \<noteq> k) cs)"

definition from_north :: "(direction \<times> (route \<Rightarrow> route)) list" where
  "from_north =
    [(NORTH, assign [0, 1, 2, 3]),
     (EAST, assign [1, 2, 3]),
     (SOUTH, assign [1, 2]),
     (WEST, assign [1])]"

definition from_east :: "(direction \<times> (route \<Rightarrow> route)) list" where
  "from_east =
    [(EAST, assign [0, 1, 2, 3]),
     (SOUTH, assign [0, 1, 2]),
     (WEST, assign [0, 1]),
     (NORTH, assign [0])]"

definition from_south :: "(direction \<times> (route \<Rightarrow> route)) list" where
  "from_south =
    [(SOUTH, assign [0, 1, 2, 3]),
     (WEST, assign [0, 1, 3]),
     (NORTH, assign [0, 3]),
     (EAST, assign [3])]"

definition from_west :: "(direction \<times> (route \<Rightarrow> route)) list" where
  "from_west =
    [(WEST, assign [0, 1, 2, 3]),
     (NORTH, assign [0, 2, 3]),
     (EAST, assign [2, 3]),
     (SOUTH, assign [2])]"

definition valid_direction :: "direction \<Rightarrow> bool" where
  "valid_direction d \<longleftrightarrow> d = NORTH \<or> d = SOUTH \<or> d = EAST \<or> d = WEST"

definition compute_path :: "direction \<Rightarrow> direction \<Rightarrow> route outcome" where
  "compute_path in_dir out_dir =
    (if \<not> (valid_direction in_dir \<and> valid_direction out_dir) then Exit 1
     else Ok (switch
       [(NORTH, switch from_north out_dir),
        (EAST, switch from_east out_dir),
        (SOUTH, switch from_south out_dir),
        (WEST, switch from_west out_dir)] in_dir (replicate 4 None)))"

text \<open>
  \<open>sizeof(path)/sizeof(int)\<close> in \<open>car_cross\<close>: \<open>path\<close> is a pointer, of eight bytes on the LP64
  platform, and an \<open>int\<close> has four.
\<close>

definition path_bound :: nat where
  "path_bound = 8 div 4"

lemma path_bound [simp]: "path_bound = 2"
  by (simp add: path_bound_def)

lemma valid_direction_iff: "valid_direction d \<longleftrightarrow> 0 \<le> d \<and> d < 4"
  by (auto simp: valid_direction_def compass)

lemma valid_cases:
  assumes "valid_direction d"
  obtains "d = NORTH" | "d = EAST" | "d = SOUTH" | "d = WEST"
  using assms by (auto simp: valid_direction_def)

lemma directions_distinct [simp]:
  "NORTH \<noteq> EAST" "NORTH \<noteq> SOUTH" "NORTH \<noteq> WEST" "EAST \<noteq> SOUTH" "EAST \<noteq> WEST" "SOUTH \<noteq> WEST"
  "EAST \<noteq> NORTH" "SOUTH \<noteq> NORTH" "WEST \<noteq> NORTH" "SOUTH \<noteq> EAST" "WEST \<noteq> EAST" "WEST \<noteq> SOUTH"
  by (simp_all add: compass)

lemma directions_valid [simp]:
  "valid_direction NORTH" "valid_direction EAST" "valid_direction SOUTH" "valid_direction WEST"
  by (simp_all add: valid_direction_def)

lemmas path_simps = compute_path_def switch_def from_north_def from_east_def from_south_def
  from_west_def assign_def

section \<open>The quadrants that are locked\<close>

text \<open>
  The bodies of the outer cases run into one another, so the case WEST has the last word for every
  incoming direction, and within it the case of the outgoing direction runs on to SOUTH.
\<close>

definition reads_garbage :: "direction \<Rightarrow> direction \<Rightarrow> bool" where
  "reads_garbage in_dir out_dir \<longleftrightarrow> in_dir = WEST \<and> out_dir = SOUTH"

lemma compute_path_valid:
  assumes "valid_direction i" "valid_direction d"
  obtains r where "compute_path i d = Ok r" "length r = 4" "r ! 0 = Some 2"
    "r ! 1 = (if reads_garbage i d then None else Some 3)"
proof -
  from assms(1) show thesis
  proof (cases rule: valid_cases)
    case 1
    from assms(2) show ?thesis
      by (cases rule: valid_cases)
        (rule that, simp add: path_simps 1 assms, simp_all add: reads_garbage_def 1)+
  next
    case 2
    from assms(2) show ?thesis
      by (cases rule: valid_cases)
        (rule that, simp add: path_simps 2 assms, simp_all add: reads_garbage_def 2)+
  next
    case 3
    from assms(2) show ?thesis
      by (cases rule: valid_cases)
        (rule that, simp add: path_simps 3 assms, simp_all add: reads_garbage_def 3)+
  next
    case 4
    from assms(2) show ?thesis
      by (cases rule: valid_cases)
        (rule that, simp add: path_simps 4 assms, simp_all add: reads_garbage_def 4)+
  qed
qed

text \<open>
  C26: \<open>compute_path\<close> ends the process with exit code 1 on a direction outside the enumeration.
  Otherwise the two entries of the route that \<open>car_cross\<close> looks at are quadrants 2 and 3 whatever
  the directions, because the cases fall through, except that for a car from the west to the south
  the second one was never written.
\<close>

theorem compute_path_locks:
  "(case compute_path i d of
      Ok r \<Rightarrow> valid_direction i \<and> valid_direction d \<and>
        take path_bound r = [Some 2, if i = WEST \<and> d = SOUTH then None else Some 3]
    | Exit c \<Rightarrow> c = 1 \<and> \<not> (valid_direction i \<and> valid_direction d)
    | _ \<Rightarrow> False)"
proof (cases "valid_direction i \<and> valid_direction d")
  case True
  then obtain r where r: "compute_path i d = Ok r" "length r = 4" "r ! 0 = Some 2"
    "r ! 1 = (if reads_garbage i d then None else Some 3)"
    using compute_path_valid by blast
  then obtain a b c e where "r = [a, b, c, e]"
    by (auto simp: length_Suc_conv numeral_eq_Suc)
  with r True show ?thesis
    by (simp add: reads_garbage_def)
next
  case False
  then show ?thesis by (simp add: compute_path_def)
qed

text \<open>
  The quadrants each inner case assigns on its own, which is what a \<open>break\<close> after each case would
  return.
\<close>

definition own_case :: "direction \<Rightarrow> direction \<Rightarrow> route" where
  "own_case i d =
    (case map_of (if i = NORTH then from_north else if i = EAST then from_east
        else if i = SOUTH then from_south else from_west) d of
      Some body \<Rightarrow> takeWhile (\<lambda>x. x \<noteq> None) (body (replicate 4 None))
    | None \<Rightarrow> [])"

text \<open>
  The route begins with the quadrants that the case of its own pair of directions lists only
  for cars from the west to the east or to the south; the other fourteen pairs of directions get a
  different route.
\<close>

theorem compute_path_own_case:
  assumes "valid_direction i" "valid_direction d"
  shows "(\<exists>r. compute_path i d = Ok (own_case i d @ r)) \<longleftrightarrow> i = WEST \<and> (d = EAST \<or> d = SOUTH)"
  using assms
  by (elim valid_cases) (simp_all add: path_simps own_case_def)

lemma compute_path_own_case_witness:
  "\<not> (\<exists>r. compute_path NORTH WEST = Ok (own_case NORTH WEST @ r)) \<and>
   (\<exists>r. compute_path WEST EAST = Ok (own_case WEST EAST @ r))"
  using compute_path_own_case [of NORTH WEST] compute_path_own_case [of WEST EAST] by simp

end
