(* ===== verification/Lane.thy ===== *)
theory Lane
  imports Route
begin

text \<open>
  Cars, lanes and the circular buffer of a lane (Assignment2/traffic.h, cars.c).  The linked lists
  \<open>in_cars\<close> and \<open>out_cars\<close> are lists of cars, newest first; a \<open>next\<close> pointer is written only when
  its car is pushed on one of them.  The array \<open>buffer\<close> holds \<open>None\<close> where it was never written.
  The locale \<open>bounded_queue\<close> is the contract of the buffer; it is interpreted on the operations of
  a lane.
\<close>

definition LANE_LENGTH :: nat where
  "LANE_LENGTH = 10"

record car =
  car_id :: int
  in_dir :: direction
  out_dir :: direction

datatype thread = Cross direction | Arrive direction

record lane =
  lock :: "thread option"
  in_cars :: "car list"
  out_cars :: "car list"
  inc :: int
  passed :: int
  buffer :: "car option list"
  head :: nat
  tail :: nat
  capacity :: nat
  in_buf :: int

definition fresh_lane :: lane where
  "fresh_lane = \<lparr>lock = None, in_cars = [], out_cars = [], inc = 0, passed = 0,
    buffer = replicate LANE_LENGTH None, head = 0, tail = 0, capacity = LANE_LENGTH, in_buf = 0\<rparr>"

section \<open>The circular buffer\<close>

definition next_index :: "nat \<Rightarrow> nat \<Rightarrow> nat" where
  "next_index n i = (if Suc i \<ge> n then 0 else Suc i)"

definition buf_put :: "car \<Rightarrow> (lane, unit) prog" where
  "buf_put c = bnd (peek tail) (\<lambda>i. bnd (peek (length \<circ> buffer)) (\<lambda>n.
     thn (need (i < n))
    (thn (upd (\<lambda>l. l\<lparr>buffer := (buffer l)[i := Some c]\<rparr>))
    (thn (upd (\<lambda>l. l\<lparr>tail := next_index (capacity l) (tail l)\<rparr>))
         (upd (\<lambda>l. l\<lparr>in_buf := in_buf l + 1\<rparr>))))))"

definition buf_take :: "(lane, car) prog" where
  "buf_take = bnd (peek head) (\<lambda>i. bnd (peek buffer) (\<lambda>b.
     thn (need (i < length b))
     (case b ! i of
        None \<Rightarrow> faultp
      | Some c \<Rightarrow>
         thn (upd (\<lambda>l. l\<lparr>head := next_index (capacity l) (head l)\<rparr>))
        (thn (upd (\<lambda>l. l\<lparr>in_buf := in_buf l - 1\<rparr>))
             (ret c)))))"

text \<open>The cars in the buffer, oldest first.\<close>

definition queued :: "lane \<Rightarrow> car list" where
  "queued l = map (\<lambda>k. the (buffer l ! ((head l + k) mod capacity l))) [0..<nat (in_buf l)]"

definition ring_ok :: "lane \<Rightarrow> bool" where
  "ring_ok l \<longleftrightarrow> 0 < capacity l \<and> length (buffer l) = capacity l \<and> head l < capacity l \<and>
     0 \<le> in_buf l \<and> in_buf l \<le> int (capacity l) \<and>
     tail l = (head l + nat (in_buf l)) mod capacity l \<and>
     (\<forall>k < nat (in_buf l). buffer l ! ((head l + k) mod capacity l) \<noteq> None)"

text \<open>The contract of a queue of bounded length.\<close>

locale bounded_queue =
  fixes put :: "'e \<Rightarrow> ('s, unit) prog"
    and get :: "('s, 'e) prog"
    and ok :: "'s \<Rightarrow> bool"
    and contents :: "'s \<Rightarrow> 'e list"
    and room :: "'s \<Rightarrow> nat"
  assumes put_law: "ok s \<Longrightarrow> length (contents s) < room s \<Longrightarrow>
      \<exists>t. put x s = (Ok (), t) \<and> ok t \<and> contents t = contents s @ [x] \<and> room t = room s"
    and get_law: "ok s \<Longrightarrow> contents s = x # q \<Longrightarrow>
      \<exists>t. get s = (Ok x, t) \<and> ok t \<and> contents t = q \<and> room t = room s"
begin

text \<open>
  A script of operations (\<open>Some x\<close> puts, \<open>None\<close> gets) run on the queue, with the elements taken;
  \<open>fits\<close> says that no operation meets a full or an empty queue.
\<close>

primrec script :: "'e option list \<Rightarrow> ('s, 'e list) prog" where
  "script [] = ret []"
| "script (c # cs) =
    (case c of
       Some x \<Rightarrow> thn (put x) (script cs)
     | None \<Rightarrow> bnd get (\<lambda>x. bnd (script cs) (\<lambda>ys. ret (x # ys))))"

primrec fits :: "'e option list \<Rightarrow> nat \<Rightarrow> nat \<Rightarrow> bool" where
  "fits [] n m \<longleftrightarrow> True"
| "fits (c # cs) n m \<longleftrightarrow>
    (case c of Some x \<Rightarrow> n < m \<and> fits cs (Suc n) m | None \<Rightarrow> 0 < n \<and> fits cs (n - 1) m)"

lemma script_fifo:
  assumes "ok s" "fits cs (length (contents s)) (room s)"
  shows "\<exists>ys t. script cs s = (Ok ys, t) \<and> ok t \<and> room t = room s \<and>
    ys @ contents t = contents s @ map the (filter (\<lambda>c. c \<noteq> None) cs)"
  using assms
proof (induction cs arbitrary: s)
  case Nil
  then show ?case by (simp add: prog)
next
  case (Cons c cs)
  show ?case
  proof (cases c)
    case (Some x)
    with Cons.prems put_law [of s x] obtain t where t: "put x s = (Ok (), t)" "ok t"
      "contents t = contents s @ [x]" "room t = room s"
      by auto
    with Cons.IH [of t] Cons.prems Some show ?thesis
      by (simp add: prog bnd_run)
  next
    case None
    with Cons.prems obtain x q where q: "contents s = x # q"
      by (cases "contents s") auto
    with Cons.prems get_law obtain t where t: "get s = (Ok x, t)" "ok t" "contents t = q"
      "room t = room s"
      by blast
    with Cons.IH [of t] Cons.prems None q obtain ys u where "script cs t = (Ok ys, u)" "ok u"
      "room u = room s" "ys @ contents u = q @ map the (filter (\<lambda>c. c \<noteq> None) cs)"
      by auto
    with t None q show ?thesis
      by (auto simp: prog bnd_run)
  qed
qed

end

lemma next_index_mod: "i < n \<Longrightarrow> next_index n i = Suc i mod n"
  by (cases "Suc i = n") (auto simp: next_index_def)

lemma ring_mod: "(h::nat) < n \<Longrightarrow> k \<le> n \<Longrightarrow> (h + k) mod n = (if h + k < n then h + k else h + k - n)"
  by (auto simp: mod_if)

lemma ring_index_inj:
  "(h::nat) < n \<Longrightarrow> j < n \<Longrightarrow> k < n \<Longrightarrow> (h + j) mod n = (h + k) mod n \<Longrightarrow> j = k"
  by (auto simp: ring_mod split: if_splits)

lemma length_queued [simp]: "length (queued l) = nat (in_buf l)"
  by (simp add: queued_def)

lemma nth_queued: "k < nat (in_buf l) \<Longrightarrow>
    queued l ! k = the (buffer l ! ((head l + k) mod capacity l))"
  by (simp add: queued_def)

lemma in_buf_queued: "ring_ok l \<Longrightarrow> in_buf l = int (length (queued l))"
  by (simp add: ring_ok_def)

definition after_put :: "car \<Rightarrow> lane \<Rightarrow> lane" where
  "after_put c l = l\<lparr>buffer := (buffer l)[tail l := Some c],
     tail := next_index (capacity l) (tail l), in_buf := in_buf l + 1\<rparr>"

definition after_take :: "lane \<Rightarrow> lane" where
  "after_take l = l\<lparr>head := next_index (capacity l) (head l), in_buf := in_buf l - 1\<rparr>"

lemma ring_tail: "ring_ok l \<Longrightarrow> tail l < capacity l"
  by (simp add: ring_ok_def)

lemma buf_put_run:
  "ring_ok l \<Longrightarrow> buf_put c l = (Ok (), after_put c l)"
  by (auto simp: buf_put_def after_put_def prog ring_ok_def)

lemma slot_put:
  assumes "ring_ok l" "nat (in_buf l) < capacity l" "k \<le> nat (in_buf l)"
  shows "(buffer l)[tail l := Some c] ! ((head l + k) mod capacity l) =
    (if k = nat (in_buf l) then Some c else buffer l ! ((head l + k) mod capacity l))"
proof -
  have len: "length (buffer l) = capacity l" and h: "head l < capacity l" and pos: "0 < capacity l"
    and t: "tail l = (head l + nat (in_buf l)) mod capacity l"
    using assms(1) by (auto simp: ring_ok_def)
  have "(head l + k) mod capacity l = tail l \<longleftrightarrow> k = nat (in_buf l)"
    using ring_index_inj [OF h _ assms(2), of k] assms(2,3) t by auto
  moreover have "tail l < length (buffer l)"
    using ring_tail [OF assms(1)] len by simp
  ultimately show ?thesis
    by (cases "k = nat (in_buf l)") (simp_all add: t)
qed

lemma after_put_queue:
  assumes ok: "ring_ok l" and room: "nat (in_buf l) < capacity l"
  shows "ring_ok (after_put c l)" and "queued (after_put c l) = queued l @ [c]"
proof -
  let ?l = "after_put c l"
  have sel [simp]: "capacity ?l = capacity l" "head ?l = head l" "in_buf ?l = in_buf l + 1"
    "buffer ?l = (buffer l)[tail l := Some c]" "tail ?l = next_index (capacity l) (tail l)"
    by (simp_all add: after_put_def)
  have n: "nat (in_buf l + 1) = Suc (nat (in_buf l))"
    using ok by (simp add: ring_ok_def nat_add_distrib)
  have old: "buffer l ! ((head l + k) mod capacity l) \<noteq> None" if "k < nat (in_buf l)" for k
    using ok that by (simp add: ring_ok_def)
  have tl: "next_index (capacity l) (tail l) = (head l + Suc (nat (in_buf l))) mod capacity l"
    using next_index_mod [OF ring_tail [OF ok]] ok by (simp add: ring_ok_def mod_Suc_eq)
  show "ring_ok ?l"
  proof -
    have "(buffer l)[tail l := Some c] ! ((head l + k) mod capacity l) \<noteq> None"
      if "k < Suc (nat (in_buf l))" for k
      using that old slot_put [OF ok room, of k c] by (auto simp: less_Suc_eq_le)
    with ok room show ?thesis
      unfolding ring_ok_def n sel tl by auto
  qed
  show "queued ?l = queued l @ [c]"
  proof (rule nth_equalityI)
    fix k assume "k < length (queued ?l)"
    then have "k \<le> nat (in_buf l)"
      by (simp add: n)
    then show "queued ?l ! k = (queued l @ [c]) ! k"
      using n by (auto simp: nth_queued nth_append slot_put [OF ok room])
  qed (simp add: n)
qed

lemma after_take_queue:
  assumes ok: "ring_ok l" and ne: "0 < in_buf l"
  shows "buf_take l = (Ok (hd (queued l)), after_take l)" and "ring_ok (after_take l)"
    and "queued (after_take l) = tl (queued l)"
proof -
  let ?l = "after_take l" and ?h = "next_index (capacity l) (head l)"
  have h: "head l < capacity l" and full: "buffer l ! ((head l + k) mod capacity l) \<noteq> None"
    if "k < nat (in_buf l)" for k
    using ok that by (auto simp: ring_ok_def)
  have h: "head l < capacity l"
    using ok by (simp add: ring_ok_def)
  have sh: "(?h + k) mod capacity l = (head l + Suc k) mod capacity l" for k
    by (simp add: next_index_mod [OF h] mod_add_left_eq)
  have n: "nat (in_buf l) = Suc (nat (in_buf l - 1))"
    using ne by simp
  have q: "queued l \<noteq> []"
    using ne by (metis length_queued length_0_conv zero_less_nat_eq less_nat_zero_code)
  have hd: "hd (queued l) = the (buffer l ! head l)"
    using q ne h nth_queued [of 0 l] by (simp add: hd_conv_nth)
  have "buffer l ! head l \<noteq> None"
    using full [of 0] ne h by simp
  then show "buf_take l = (Ok (hd (queued l)), after_take l)"
    using ok by (auto simp: buf_take_def after_take_def prog ring_ok_def hd)
  show "ring_ok ?l"
  proof -
    have "buffer l ! ((head l + Suc k) mod capacity l) \<noteq> None" if "k < nat (in_buf l - 1)" for k
      using that n full [of "Suc k"] by simp
    moreover have "?h < capacity l"
      using h by (simp add: next_index_def)
    ultimately show ?thesis
      using ok n sh [of "nat (in_buf l - 1)"] ne
      by (simp add: ring_ok_def after_take_def sh del: add_Suc_right)
  qed
  show "queued ?l = tl (queued l)"
    using n by (intro nth_equalityI) (auto simp: after_take_def nth_queued nth_tl sh)
qed

interpretation lane_queue: bounded_queue buf_put buf_take ring_ok queued capacity
proof
  fix l x
  assume "ring_ok l" "length (queued l) < capacity l"
  with after_put_queue [of l x] buf_put_run [of l x]
  show "\<exists>t. buf_put x l = (Ok (), t) \<and> ring_ok t \<and> queued t = queued l @ [x] \<and> capacity t = capacity l"
    by (auto simp: after_put_def)
next
  fix l x q
  assume "ring_ok l" "queued l = x # q"
  moreover from this have "0 < in_buf l"
    by (metis length_queued length_Cons zero_less_Suc zero_less_nat_eq)
  ultimately show "\<exists>t. buf_take l = (Ok x, t) \<and> ring_ok t \<and> queued t = q \<and> capacity t = capacity l"
    using after_take_queue [of l] by (auto simp: after_take_def)
qed

lemma fresh_lane_ok [simp]: "ring_ok fresh_lane" "queued fresh_lane = []"
  by (simp_all add: ring_ok_def fresh_lane_def LANE_LENGTH_def queued_def)

text \<open>
  C27: The circular buffer of a lane is a first-in first-out queue: from the state
  \<open>init_intersection\<close> leaves, any sequence of insertions and removals that meets neither a full nor
  an empty buffer runs without touching an index outside the array or an entry never written, and
  the cars taken are the first of the cars put, in their order; the rest are still queued.
\<close>

theorem buffer_fifo:
  assumes "lane_queue.fits cs 0 LANE_LENGTH"
  shows "\<exists>taken l. lane_queue.script cs fresh_lane = (Ok taken, l) \<and>
    taken @ queued l = map the (filter (\<lambda>c. c \<noteq> None) cs)"
proof -
  have "capacity fresh_lane = LANE_LENGTH"
    by (simp add: fresh_lane_def)
  with lane_queue.script_fifo [of fresh_lane cs] assms show ?thesis
    by auto
qed

lemma buffer_fifo_witness:
  "let c = (\<lambda>n. \<lparr>car_id = n, in_dir = NORTH, out_dir = WEST\<rparr>);
       cs = [Some (c 1), Some (c 2), None, Some (c 3), None] in
   \<exists>taken l. lane_queue.script cs fresh_lane = (Ok taken, l) \<and> taken @ queued l = [c 1, c 2, c 3]"
  using buffer_fifo [of "let c = (\<lambda>n. \<lparr>car_id = n, in_dir = NORTH, out_dir = WEST\<rparr>) in
    [Some (c 1), Some (c 2), None, Some (c 3), None]"]
  by (simp add: Let_def LANE_LENGTH_def)

end
