(* ===== verification/Schedule.thy ===== *)
theory Schedule
  imports Lane "HOL-Library.Char_ord"
begin

text \<open>
  The intersection before any thread runs: \<open>init_intersection\<close>, and \<open>parse_schedule\<close> with the
  conversion \<open>%d\<close> of \<open>fscanf\<close> on the text of the schedule file (Assignment2/cars.c).  A file that
  cannot be opened is \<open>None\<close>.  Numerals outside the range of \<open>int\<close>, on which \<open>%d\<close> has no defined
  result, are read as the integers they denote.
\<close>

section \<open>Numbers in text\<close>

definition is_space :: "char \<Rightarrow> bool" where
  "is_space c \<longleftrightarrow> (let n = of_char c :: nat in n = 32 \<or> 9 \<le> n \<and> n \<le> 13)"

definition is_digit :: "char \<Rightarrow> bool" where
  "is_digit c \<longleftrightarrow> (let n = of_char c :: nat in 48 \<le> n \<and> n \<le> 57)"

definition digit_value :: "char \<Rightarrow> int" where
  "digit_value c = of_char c - 48"

definition numeral_value :: "string \<Rightarrow> int" where
  "numeral_value ds = foldl (\<lambda>n c. 10 * n + digit_value c) 0 ds"

definition scan_digits :: "string \<Rightarrow> (int \<times> string) option" where
  "scan_digits s =
    (let ds = takeWhile is_digit s in
     if ds = [] then None else Some (numeral_value ds, dropWhile is_digit s))"

definition scan_int :: "string \<Rightarrow> (int \<times> string) option" where
  "scan_int s =
    (case dropWhile is_space s of
       [] \<Rightarrow> None
     | c # t \<Rightarrow>
         if c = CHR ''-'' then map_option (\<lambda>(n, r). (- n, r)) (scan_digits t)
         else if c = CHR ''+'' then scan_digits t
         else scan_digits (c # t))"

definition scan_car :: "string \<Rightarrow> (car \<times> string) option" where
  "scan_car f =
    (case scan_int f of None \<Rightarrow> None
     | Some (n, f) \<Rightarrow> (case scan_int f of None \<Rightarrow> None
     | Some (i, f) \<Rightarrow> (case scan_int f of None \<Rightarrow> None
     | Some (d, f) \<Rightarrow> Some (\<lparr>car_id = n, in_dir = i, out_dir = d\<rparr>, f))))"

lemma scan_digits_shorter: "scan_digits s = Some (n, r) \<Longrightarrow> length r < length s"
proof -
  assume "scan_digits s = Some (n, r)"
  then have "takeWhile is_digit s \<noteq> []" "r = dropWhile is_digit s"
    by (auto simp: scan_digits_def Let_def split: if_splits)
  moreover have "length s = length (takeWhile is_digit s) + length (dropWhile is_digit s)"
    by (metis length_append takeWhile_dropWhile_id)
  ultimately show ?thesis by simp
qed

lemma scan_int_shorter: "scan_int s = Some (n, r) \<Longrightarrow> length r < length s"
proof -
  assume a: "scan_int s = Some (n, r)"
  then obtain c t where ct: "dropWhile is_space s = c # t"
    by (auto simp: scan_int_def split: list.splits)
  have "length (dropWhile is_space s) \<le> length s"
    by (simp add: length_dropWhile_le)
  moreover from a ct have "length r < length (c # t)"
    by (auto simp: scan_int_def split: if_splits dest!: scan_digits_shorter)
  ultimately show ?thesis using ct by simp
qed

lemma scan_car_shorter: "scan_car f = Some (c, r) \<Longrightarrow> length r < length f"
  by (auto simp: scan_car_def split: option.splits dest!: scan_int_shorter)

section \<open>Preparing the intersection\<close>

record intersection =
  quad :: "nat \<Rightarrow> thread option"
  lanes :: "direction \<Rightarrow> lane"

definition init_intersection :: "(intersection, unit) prog" where
  "init_intersection =
     thn (forM [0..<4] (\<lambda>x. upd (\<lambda>s. s\<lparr>quad := (quad s)(x := None)\<rparr>)))
         (forM [0, 1, 2, 3] (\<lambda>y. upd (\<lambda>s. s\<lparr>lanes := (lanes s)(y := fresh_lane)\<rparr>)))"

text \<open>The body of the loop of \<open>parse_schedule\<close>; \<open>lanes\<close> has four elements.\<close>

definition add_car :: "car \<Rightarrow> (intersection, unit) prog" where
  "add_car c =
     thn (need (0 \<le> in_dir c \<and> in_dir c < 4))
         (upd (\<lambda>s. let l = lanes s (in_dir c) in
            s\<lparr>lanes := (lanes s)(in_dir c := l\<lparr>in_cars := c # in_cars l, inc := inc l + 1\<rparr>)\<rparr>))"

function parse_loop :: "string \<Rightarrow> (intersection, unit) prog" where
  "parse_loop f =
    (case scan_car f of
       None \<Rightarrow> ret ()
     | Some (c, f') \<Rightarrow> thn (add_car c) (parse_loop f'))"
  by auto
termination
  by (relation "measure length") (auto dest: scan_car_shorter)

declare parse_loop.simps [simp del]

definition parse_schedule :: "string option \<Rightarrow> (intersection, unit) prog" where
  "parse_schedule file = (case file of None \<Rightarrow> faultp | Some f \<Rightarrow> parse_loop f)"

text \<open>The globals before \<open>main\<close>: all zero, and so no array behind the null \<open>buffer\<close>.\<close>

definition isection :: intersection where
  "isection = \<lparr>quad = (\<lambda>_. None),
     lanes = (\<lambda>_. \<lparr>lock = None, in_cars = [], out_cars = [], inc = 0, passed = 0, buffer = [],
       head = 0, tail = 0, capacity = 0, in_buf = 0\<rparr>)\<rparr>"

text \<open>\<open>main\<close> up to the creation of the threads; \<open>fs\<close> is what \<open>fopen\<close> finds under a name.\<close>

definition main_setup :: "(string \<Rightarrow> string option) \<Rightarrow> string list \<Rightarrow> (intersection, unit) prog" where
  "main_setup fs argv =
    (if length argv \<noteq> 2 then exitp 1
     else thn init_intersection (parse_schedule (fs (argv ! 1))))"

section \<open>The schedule that is loaded\<close>

function show_nat :: "nat \<Rightarrow> string" where
  "show_nat n = (if n < 10 then [char_of (48 + n)] else show_nat (n div 10) @ [char_of (48 + n mod 10)])"
  by auto
termination
  by (relation "measure id") auto

declare show_nat.simps [simp del]

definition show_int :: "int \<Rightarrow> string" where
  "show_int n = (if n < 0 then CHR ''-'' # show_nat (nat (- n)) else show_nat (nat n))"

definition schedule_line :: "car \<Rightarrow> string" where
  "schedule_line c = show_int (car_id c) @ '' '' @ show_int (in_dir c) @ '' '' @
     show_int (out_dir c) @ [CHR 0x0A]"

lemma digit_char:
  assumes "k < 10"
  shows "is_digit (char_of (48 + k :: nat))" and "digit_value (char_of (48 + k :: nat)) = int k"
    and "\<not> is_space (char_of (48 + k :: nat))"
proof -
  have n: "of_char (char_of (48 + k :: nat) :: char) = 48 + k" using assms
    by (simp add: of_char_of)
  then have "of_char (char_of (48 + k :: nat) :: char) = (48 + int k)"
    by (metis of_nat_of_char of_nat_add of_nat_numeral)
  with n assms show "is_digit (char_of (48 + k :: nat))" "\<not> is_space (char_of (48 + k :: nat))"
    "digit_value (char_of (48 + k :: nat)) = int k"
    by (simp_all add: is_digit_def is_space_def digit_value_def)
qed

lemma show_nat_digits: "set (show_nat n) \<subseteq> Collect is_digit" "show_nat n \<noteq> []"
proof (induction n rule: show_nat.induct)
  case (1 n)
  { case 1 then show ?case using "1.IH" digit_char(1) [of n] digit_char(1) [of "n mod 10"]
      by (subst show_nat.simps) auto }
  { case 2 then show ?case by (subst show_nat.simps) auto }
qed

lemma show_nat_value: "numeral_value (show_nat n) = int n"
proof (induction n rule: show_nat.induct)
  case (1 n)
  then show ?case
    using digit_char(2) [of n] digit_char(2) [of "n mod 10"]
    by (subst show_nat.simps) (auto simp: numeral_value_def zmod_int zdiv_int)
qed

lemma scan_digits_show:
  "(r = [] \<or> \<not> is_digit (hd r)) \<Longrightarrow> scan_digits (show_nat n @ r) = Some (int n, r)"
proof -
  assume r: "r = [] \<or> \<not> is_digit (hd r)"
  have all: "\<forall>c \<in> set (show_nat n). is_digit c"
    using show_nat_digits(1) by auto
  from r all have "takeWhile is_digit (show_nat n @ r) = show_nat n" "dropWhile is_digit (show_nat n @ r) = r"
    by (cases r; simp)+
  with show_nat_digits(2) [of n] show ?thesis
    by (simp add: scan_digits_def show_nat_value)
qed

lemma digit_not_space: "is_digit c \<Longrightarrow> \<not> is_space c"
  by (auto simp: is_digit_def is_space_def Let_def)

lemma digit_not_sign: "is_digit c \<Longrightarrow> c \<noteq> CHR ''-'' \<and> c \<noteq> CHR ''+''"
  by (auto simp: is_digit_def Let_def)

lemma scan_int_space: "is_space c \<Longrightarrow> scan_int (c # s) = scan_int s"
  by (simp add: scan_int_def)

lemma scan_car_space: "is_space c \<Longrightarrow> scan_car (c # s) = scan_car s"
  by (simp add: scan_car_def scan_int_space)

lemma parse_loop_space: "is_space c \<Longrightarrow> parse_loop (c # s) = parse_loop s"
  by (subst (1 2) parse_loop.simps) (simp add: scan_car_space)

lemma scan_int_show:
  assumes "r = [] \<or> \<not> is_digit (hd r)"
  shows "scan_int (show_int n @ r) = Some (n, r)"
proof (cases "n < 0")
  case True
  moreover have "\<not> is_space (CHR ''-'')"
    by (simp add: is_space_def)
  ultimately show ?thesis
    using scan_digits_show [OF assms, of "nat (- n)"] by (simp add: scan_int_def show_int_def)
next
  case False
  obtain c t where ct: "show_nat (nat n) = c # t"
    using show_nat_digits(2) by (cases "show_nat (nat n)") auto
  then have "is_digit c"
    using show_nat_digits(1) [of "nat n"] by auto
  with ct False digit_not_space digit_not_sign scan_digits_show [OF assms, of "nat n"] show ?thesis
    by (simp add: scan_int_def show_int_def)
qed

lemma separators: "is_space (CHR '' '')" "is_space (CHR 0x0A)" "\<not> is_digit (CHR '' '')" "\<not> is_digit (CHR 0x0A)"
  by (simp_all add: is_space_def is_digit_def)

lemma scan_schedule_line: "scan_car (schedule_line c @ r) = Some (c, CHR 0x0A # r)"
  by (simp add: scan_car_def schedule_line_def scan_int_show scan_int_space separators)

lemma parse_loop_lines:
  "parse_loop (concat (map schedule_line cs)) = forM cs add_car"
proof (induction cs)
  case Nil
  show ?case by (subst parse_loop.simps) (simp add: scan_car_def scan_int_def)
next
  case (Cons c cs)
  then show ?case
    by (subst parse_loop.simps) (simp add: scan_schedule_line parse_loop_space separators)
qed

text \<open>The lanes a schedule fills: each car waits in the lane of its incoming direction, last line first.\<close>

definition waiting :: "car list \<Rightarrow> direction \<Rightarrow> car list" where
  "waiting cs d = rev (filter (\<lambda>c. in_dir c = d) cs)"

definition loaded :: "car list \<Rightarrow> intersection" where
  "loaded cs = isection\<lparr>lanes := (\<lambda>d. if valid_direction d
     then fresh_lane\<lparr>in_cars := waiting cs d, inc := int (length (waiting cs d))\<rparr>
     else lanes isection d)\<rparr>"

lemma add_car_loaded:
  "add_car c (loaded cs) =
    (if valid_direction (in_dir c) then (Ok (), loaded (cs @ [c])) else (Fault, loaded cs))"
proof (cases "valid_direction (in_dir c)")
  case True
  then show ?thesis
    by (auto simp: add_car_def prog loaded_def waiting_def valid_direction_iff fresh_lane_def fun_eq_iff)
next
  case False
  then have "\<not> (0 \<le> in_dir c \<and> in_dir c < 4)"
    by (simp add: valid_direction_iff)
  with False show ?thesis
    by (simp only: add_car_def prog if_False)
qed

lemma add_cars_loaded:
  "forM cs add_car (loaded ds) =
    (if \<forall>c \<in> set cs. valid_direction (in_dir c) then (Ok (), loaded (ds @ cs))
     else (Fault, loaded (ds @ takeWhile (\<lambda>c. valid_direction (in_dir c)) cs)))"
proof (induction cs arbitrary: ds)
  case Nil
  then show ?case by (simp add: prog)
next
  case (Cons c cs)
  show ?case
  proof (cases "valid_direction (in_dir c)")
    case True
    then have "add_car c (loaded ds) = (Ok (), loaded (ds @ [c]))"
      by (simp add: add_car_loaded)
    with Cons.IH [of "ds @ [c]"] True show ?thesis
      by (simp add: prog bnd_run)
  next
    case False
    then have "add_car c (loaded ds) = (Fault, loaded ds)"
      by (simp add: add_car_loaded)
    with False show ?thesis
      by (simp add: prog bnd_def)
  qed
qed

lemma init_intersection_run: "init_intersection s =
    (Ok (), s\<lparr>quad := (\<lambda>q. if q < 4 then None else quad s q),
       lanes := (\<lambda>d. if valid_direction d then fresh_lane else lanes s d)\<rparr>)"
  by (auto simp: init_intersection_def upt_rec prog numeral_eq_Suc less_Suc_eq fun_eq_iff
      valid_direction_iff)

lemma init_loaded: "init_intersection isection = (Ok (), loaded [])"
  by (auto simp: init_intersection_run loaded_def isection_def waiting_def fresh_lane_def fun_eq_iff)

text \<open>
  C28: Initialising the intersection and parsing a schedule file puts every car on the lane of its
  incoming direction, the last line of the file at the front, with \<open>inc\<close> counting the lane's cars,
  \<open>passed\<close> zero, an empty buffer of ten slots and all mutexes free.  If some line names an incoming
  direction outside 0..3, the program indexes past the four lanes.
\<close>

theorem schedule_loaded:
  assumes "fs f = Some (concat (map schedule_line cs))"
  shows "main_setup fs [a, f] isection =
    (if \<forall>c \<in> set cs. valid_direction (in_dir c) then (Ok (), loaded cs)
     else (Fault, loaded (takeWhile (\<lambda>c. valid_direction (in_dir c)) cs)))"
  using assms add_cars_loaded [of cs "[]"]
  by (simp add: main_setup_def prog bnd_run [where m = init_intersection, OF init_loaded]
      parse_schedule_def parse_loop_lines)

lemma schedule_loaded_witness:
  "let c = \<lparr>car_id = 7, in_dir = NORTH, out_dir = EAST\<rparr>; d = c\<lparr>in_dir := 4\<rparr> in
   main_setup (\<lambda>f. Some (schedule_line c)) [[], []] isection = (Ok (), loaded [c]) \<and>
   main_setup (\<lambda>f. Some (schedule_line c @ schedule_line d)) [[], []] isection = (Fault, loaded [c])"
  using schedule_loaded [of "\<lambda>f. Some (schedule_line \<lparr>car_id = 7, in_dir = NORTH, out_dir = EAST\<rparr>)"
      "[]" "[\<lparr>car_id = 7, in_dir = NORTH, out_dir = EAST\<rparr>]"]
    schedule_loaded [of "\<lambda>f. Some (schedule_line \<lparr>car_id = 7, in_dir = NORTH, out_dir = EAST\<rparr> @
        schedule_line \<lparr>car_id = 7, in_dir = 4, out_dir = EAST\<rparr>)" "[]"
      "[\<lparr>car_id = 7, in_dir = NORTH, out_dir = EAST\<rparr>, \<lparr>car_id = 7, in_dir = 4, out_dir = EAST\<rparr>]"]
  by (simp add: valid_direction_iff compass)

end
