(* ===== verification/Traffic.thy ===== *)
theory Traffic
  imports Schedule
begin

text \<open>
  The nine threads of the intersection as a transition system (Assignment2/cars.c, traffic.c): for
  every lane a thread in \<open>car_arrive\<close> and one in \<open>car_cross\<close>, and the main thread that creates and
  joins them.  A program counter stands at each operation that can block or that another thread
  can see; everything between a lock and the matching unlock touches only the data the mutex
  protects and is one step.  A step of a thread is a partial function, \<open>None\<close> where the thread is
  blocked; \<open>result\<close> is set when the process ends.
\<close>

datatype arrive_pc =
  A_Idle | A_Lock | A_Check | A_Full | A_Wait | A_Relock | A_Done

datatype cross_pc =
  C_Idle | C_Lock | C_Check | C_Empty | C_Wait | C_Relock
| C_Print car | C_Path car | C_Quad car route nat | C_Exit car route | C_Push car route
| C_Unquad car route nat | C_Done

datatype main_pc =
  M_Create_Cross int | M_Create_Arrive int | M_Join_Cross int | M_Join_Arrive int | M_Verify

datatype line = Crossing car | Dashes | Passed car | Equals

record world = intersection +
  arr :: "direction \<Rightarrow> arrive_pc"
  crs :: "direction \<Rightarrow> cross_pc"
  main_at :: main_pc
  stdout :: "line list"
  result :: "int outcome option"

text \<open>The text of a line, in the format of the \<open>printf\<close> that writes it.\<close>

primrec render :: "line \<Rightarrow> string" where
  "render (Crossing c) = ''in_dir: '' @ show_int (in_dir c) @ '' || out_dir: '' @
     show_int (out_dir c) @ '' || ID: '' @ show_int (car_id c) @ [CHR 0x0A]"
| "render Dashes = ''---'' @ [CHR 0x0A]"
| "render (Passed c) = show_int (in_dir c) @ '' '' @ show_int (out_dir c) @ '' '' @
     show_int (car_id c) @ [CHR 0x0A]"
| "render Equals = ''==='' @ [CHR 0x0A]"

section \<open>Mutexes and condition variables\<close>

definition upd_lane :: "direction \<Rightarrow> (lane \<Rightarrow> lane) \<Rightarrow> world \<Rightarrow> world" where
  "upd_lane i f w = w\<lparr>lanes := (lanes w)(i := f (lanes w i))\<rparr>"

definition lock_lane :: "thread \<Rightarrow> direction \<Rightarrow> world \<Rightarrow> world option" where
  "lock_lane t i w =
    (if lock (lanes w i) = None then Some (upd_lane i (\<lambda>l. l\<lparr>lock := Some t\<rparr>) w) else None)"

definition unlock_lane :: "direction \<Rightarrow> world \<Rightarrow> world" where
  "unlock_lane i = upd_lane i (\<lambda>l. l\<lparr>lock := None\<rparr>)"

definition goto_arr :: "direction \<Rightarrow> arrive_pc \<Rightarrow> world \<Rightarrow> world" where
  "goto_arr i pc w = w\<lparr>arr := (arr w)(i := pc)\<rparr>"

definition goto_crs :: "direction \<Rightarrow> cross_pc \<Rightarrow> world \<Rightarrow> world" where
  "goto_crs i pc w = w\<lparr>crs := (crs w)(i := pc)\<rparr>"

text \<open>
  Only \<open>car_arrive\<close> waits on \<open>consumer_cv\<close> of a lane and only \<open>car_cross\<close> on its \<open>producer_cv\<close>, so
  a signal wakes that thread if it waits and is lost otherwise.
\<close>

definition signal_consumer :: "direction \<Rightarrow> world \<Rightarrow> world" where
  "signal_consumer i w = (if arr w i = A_Wait then goto_arr i A_Relock w else w)"

definition signal_producer :: "direction \<Rightarrow> world \<Rightarrow> world" where
  "signal_producer i w = (if crs w i = C_Wait then goto_crs i C_Relock w else w)"

definition stop :: "int outcome \<Rightarrow> world \<Rightarrow> world" where
  "stop r w = w\<lparr>result := Some r\<rparr>"

text \<open>A sequential piece of code on the lane \<open>i\<close>, followed by \<open>k\<close>.\<close>

definition on_lane :: "direction \<Rightarrow> (lane, 'a) prog \<Rightarrow> ('a \<Rightarrow> world \<Rightarrow> world) \<Rightarrow> world \<Rightarrow> world" where
  "on_lane i m k w =
    (case m (lanes w i) of (r, l) \<Rightarrow>
      (let w' = upd_lane i (\<lambda>_. l) w in
       case r of Ok x \<Rightarrow> k x w' | Exit c \<Rightarrow> stop (Exit c) w' | Fault \<Rightarrow> stop Fault w' | Diverge \<Rightarrow> stop Diverge w'))"

section \<open>The arrival thread\<close>

definition put_car :: "(lane, unit) prog" where
  "put_car = bnd (peek in_cars) (\<lambda>cs. case cs of
       [] \<Rightarrow> faultp
     | c # rest \<Rightarrow> thn (buf_put c) (upd (\<lambda>l. l\<lparr>in_cars := rest\<rparr>)))"

definition car_arrive :: "direction \<Rightarrow> world \<Rightarrow> world option" where
  "car_arrive i w =
    (case arr w i of
       A_Lock \<Rightarrow> map_option (goto_arr i A_Check) (lock_lane (Arrive i) i w)
     | A_Check \<Rightarrow>
         if inc (lanes w i) \<le> 0 \<or> in_cars (lanes w i) = []
         then Some (goto_arr i A_Done (unlock_lane i (signal_consumer i w)))
         else Some (goto_arr i A_Full w)
     | A_Full \<Rightarrow>
         if in_buf (lanes w i) = int (capacity (lanes w i))
         then Some (goto_arr i A_Wait (unlock_lane i w))
         else Some (on_lane i put_car
           (\<lambda>_ w. goto_arr i A_Lock (unlock_lane i (signal_producer i w))) w)
     | A_Relock \<Rightarrow> map_option (goto_arr i A_Full) (lock_lane (Arrive i) i w)
     | _ \<Rightarrow> None)"

section \<open>The crossing thread\<close>

definition take_car :: "(lane, car) prog" where
  "take_car = bnd buf_take (\<lambda>c. thn (upd (\<lambda>l. l\<lparr>inc := inc l - 1\<rparr>)) (ret c))"

definition push_out :: "car \<Rightarrow> lane \<Rightarrow> lane" where
  "push_out c l = l\<lparr>out_cars := c # out_cars l, passed := passed l + 1\<rparr>"

definition lock_quad :: "direction \<Rightarrow> car \<Rightarrow> route \<Rightarrow> nat \<Rightarrow> world \<Rightarrow> world option" where
  "lock_quad i c r x w =
    (case r ! x of
       None \<Rightarrow> Some (stop Fault w)
     | Some q \<Rightarrow>
         if \<not> q < 4 then Some (stop Fault w)
         else if quad w q \<noteq> None then None
         else Some (goto_crs i (C_Quad c r (Suc x)) (w\<lparr>quad := (quad w)(q := Some (Cross i))\<rparr>)))"

definition unlock_quad :: "direction \<Rightarrow> car \<Rightarrow> route \<Rightarrow> nat \<Rightarrow> world \<Rightarrow> world" where
  "unlock_quad i c r y w =
    (case r ! y of
       None \<Rightarrow> stop Fault w
     | Some q \<Rightarrow> goto_crs i (C_Unquad c r (Suc y)) (w\<lparr>quad := (quad w)(q := None)\<rparr>))"

definition car_cross :: "direction \<Rightarrow> world \<Rightarrow> world option" where
  "car_cross i w =
    (case crs w i of
       C_Lock \<Rightarrow> map_option (goto_crs i C_Check) (lock_lane (Cross i) i w)
     | C_Check \<Rightarrow>
         if inc (lanes w i) \<le> 0 then Some (goto_crs i C_Done (unlock_lane i w))
         else Some (goto_crs i C_Empty w)
     | C_Empty \<Rightarrow>
         if in_buf (lanes w i) = 0 then Some (goto_crs i C_Wait (unlock_lane i w))
         else Some (on_lane i take_car
           (\<lambda>c w. goto_crs i (C_Print c) (unlock_lane i (signal_consumer i w))) w)
     | C_Relock \<Rightarrow> map_option (goto_crs i C_Empty) (lock_lane (Cross i) i w)
     | C_Print c \<Rightarrow> Some (goto_crs i (C_Path c) (w\<lparr>stdout := stdout w @ [Crossing c]\<rparr>))
     | C_Path c \<Rightarrow>
         (case compute_path (in_dir c) (out_dir c) of
            Ok r \<Rightarrow> Some (goto_crs i (C_Quad c r 0) w)
          | Exit n \<Rightarrow> Some (stop (Exit n) w)
          | _ \<Rightarrow> Some (stop Fault w))
     | C_Quad c r x \<Rightarrow>
         if x < path_bound then lock_quad i c r x w else Some (goto_crs i (C_Exit c r) w)
     | C_Exit c r \<Rightarrow> map_option (goto_crs i (C_Push c r)) (lock_lane (Cross i) (out_dir c) w)
     | C_Push c r \<Rightarrow>
         Some (goto_crs i (C_Unquad c r 0) (unlock_lane (out_dir c) (upd_lane (out_dir c) (push_out c) w)))
     | C_Unquad c r y \<Rightarrow>
         if y < path_bound then Some (unlock_quad i c r y w) else Some (goto_crs i C_Lock w)
     | _ \<Rightarrow> None)"

section \<open>The main thread\<close>

definition verify :: "world \<Rightarrow> line list" where
  "verify w = Dashes # concat (map (\<lambda>i. map Passed (out_cars (lanes w i))) [0, 1, 2, 3]) @ [Equals]"

definition main_step :: "world \<Rightarrow> world option" where
  "main_step w =
    (case main_at w of
       M_Create_Cross i \<Rightarrow> Some ((goto_crs i C_Lock w)\<lparr>main_at := M_Create_Arrive i\<rparr>)
     | M_Create_Arrive i \<Rightarrow>
         Some ((goto_arr i A_Lock w)\<lparr>main_at := if i + 1 < 4 then M_Create_Cross (i + 1) else M_Join_Cross 0\<rparr>)
     | M_Join_Cross i \<Rightarrow>
         if crs w i = C_Done
         then Some (w\<lparr>main_at := if i + 1 < 4 then M_Join_Cross (i + 1) else M_Join_Arrive 0\<rparr>) else None
     | M_Join_Arrive i \<Rightarrow>
         if arr w i = A_Done
         then Some (w\<lparr>main_at := if i + 1 < 4 then M_Join_Arrive (i + 1) else M_Verify\<rparr>) else None
     | M_Verify \<Rightarrow> Some (stop (Ok 0) (w\<lparr>stdout := stdout w @ verify w\<rparr>)))"

definition launch :: "intersection \<Rightarrow> world" where
  "launch s = \<lparr>quad = quad s, lanes = lanes s, arr = (\<lambda>_. A_Idle), crs = (\<lambda>_. C_Idle),
     main_at = M_Create_Cross 0, stdout = [], result = None\<rparr>"

section \<open>Runs\<close>

text \<open>
  \<open>moves\<close> are the steps the code makes; a wait may also end without a signal (POSIX allows spurious
  wakeups), which \<open>steps\<close> adds.
\<close>

inductive moves :: "world \<Rightarrow> world \<Rightarrow> bool" where
  arrive: "result w = None \<Longrightarrow> car_arrive i w = Some w' \<Longrightarrow> moves w w'"
| cross: "result w = None \<Longrightarrow> car_cross i w = Some w' \<Longrightarrow> moves w w'"
| main: "result w = None \<Longrightarrow> main_step w = Some w' \<Longrightarrow> moves w w'"

inductive steps :: "world \<Rightarrow> world \<Rightarrow> bool" where
  move: "moves w w' \<Longrightarrow> steps w w'"
| wake_arrive: "result w = None \<Longrightarrow> arr w i = A_Wait \<Longrightarrow> steps w (goto_arr i A_Relock w)"
| wake_cross: "result w = None \<Longrightarrow> crs w i = C_Wait \<Longrightarrow> steps w (goto_crs i C_Relock w)"

inductive_cases movesE: "moves w w'"
inductive_cases stepsE: "steps w w'"

text \<open>The states of the program on a schedule, up to any moment.\<close>

inductive reach :: "car list \<Rightarrow> world \<Rightarrow> bool" for cs where
  start: "reach cs (launch (loaded cs))"
| more: "reach cs w \<Longrightarrow> steps w w' \<Longrightarrow> reach cs w'"

end
