(* ===== verification/TrafficInv.thy ===== *)
theory TrafficInv
  imports Traffic
begin

text \<open>
  The invariant of the intersection's threads.  Clauses: the protocol of each lane (\<open>lane_inv\<close>:
  buffer, counters, and what each program counter knows), the owners of the mutexes of the lanes
  and of the quadrants (\<open>lane_locks\<close>, \<open>quad_locks\<close>), the paths held (\<open>path_ok\<close>), the whereabouts of
  every car (\<open>ledger\<close>), the creation and joining of the threads (\<open>main_ok\<close>) and the ways the
  process ends (\<open>end_ok\<close>).  One lemma per thread gives the explicit effect of each of its steps,
  and one lemma per clause shows that the steps keep it.
\<close>

section \<open>The clauses\<close>

definition counts_ok :: "lane \<Rightarrow> bool" where
  "counts_ok l \<longleftrightarrow> ring_ok l \<and> capacity l = LANE_LENGTH \<and>
     inc l = int (length (in_cars l)) + in_buf l \<and> passed l = int (length (out_cars l))"

definition lane_inv :: "lane \<Rightarrow> arrive_pc \<Rightarrow> cross_pc \<Rightarrow> bool" where
  "lane_inv l a c \<longleftrightarrow> counts_ok l \<and>
     (a = A_Full \<or> a = A_Wait \<or> a = A_Relock \<longrightarrow> in_cars l \<noteq> []) \<and>
     (a = A_Wait \<longrightarrow> in_buf l = int (capacity l)) \<and>
     (a = A_Done \<longrightarrow> in_cars l = []) \<and>
     (c = C_Empty \<or> c = C_Wait \<or> c = C_Relock \<longrightarrow> 0 < inc l) \<and>
     (c = C_Wait \<longrightarrow> in_buf l = 0) \<and>
     (c = C_Done \<longrightarrow> inc l = 0)"

definition holds_lane :: "world \<Rightarrow> thread \<Rightarrow> direction \<Rightarrow> bool" where
  "holds_lane w t j \<longleftrightarrow>
    (case t of
       Arrive i \<Rightarrow> i = j \<and> (arr w i = A_Check \<or> arr w i = A_Full)
     | Cross i \<Rightarrow> i = j \<and> (crs w i = C_Check \<or> crs w i = C_Empty) \<or>
         (\<exists>c r. crs w i = C_Push c r \<and> out_dir c = j))"

definition lane_locks :: "world \<Rightarrow> bool" where
  "lane_locks w \<longleftrightarrow> (\<forall>t j. lock (lanes w j) = Some t \<longleftrightarrow> holds_lane w t j)"

definition holds_quad :: "cross_pc \<Rightarrow> nat \<Rightarrow> bool" where
  "holds_quad pc q \<longleftrightarrow>
    (case pc of
       C_Quad c r x \<Rightarrow> q = 2 \<and> 1 \<le> x \<or> q = 3 \<and> 2 \<le> x
     | C_Exit c r \<Rightarrow> q = 2 \<or> q = 3
     | C_Push c r \<Rightarrow> q = 2 \<or> q = 3
     | C_Unquad c r y \<Rightarrow> q = 2 \<and> y < 1 \<or> q = 3 \<and> y < 2
     | _ \<Rightarrow> False)"

definition quad_locks :: "world \<Rightarrow> bool" where
  "quad_locks w \<longleftrightarrow> (\<forall>t q. quad w q = Some t \<longleftrightarrow> (\<exists>i. t = Cross i \<and> holds_quad (crs w i) q))"

definition path_ok :: "cross_pc \<Rightarrow> bool" where
  "path_ok pc \<longleftrightarrow>
    (case pc of
       C_Quad c r x \<Rightarrow> compute_path (in_dir c) (out_dir c) = Ok r \<and> x \<le> 2 \<and>
         (x = 2 \<longrightarrow> \<not> reads_garbage (in_dir c) (out_dir c))
     | C_Exit c r \<Rightarrow> compute_path (in_dir c) (out_dir c) = Ok r \<and> \<not> reads_garbage (in_dir c) (out_dir c)
     | C_Push c r \<Rightarrow> compute_path (in_dir c) (out_dir c) = Ok r \<and> \<not> reads_garbage (in_dir c) (out_dir c)
     | C_Unquad c r y \<Rightarrow> compute_path (in_dir c) (out_dir c) = Ok r \<and> y \<le> 2 \<and>
         \<not> reads_garbage (in_dir c) (out_dir c)
     | _ \<Rightarrow> True)"

text \<open>The car a crossing thread has taken and not yet pushed, and the one it has printed.\<close>

definition hand :: "cross_pc \<Rightarrow> car list" where
  "hand pc = (case pc of C_Print c \<Rightarrow> [c] | C_Path c \<Rightarrow> [c] | C_Quad c r x \<Rightarrow> [c]
     | C_Exit c r \<Rightarrow> [c] | C_Push c r \<Rightarrow> [c] | _ \<Rightarrow> [])"

definition shown :: "cross_pc \<Rightarrow> car list" where
  "shown pc = (case pc of C_Path c \<Rightarrow> [c] | C_Quad c r x \<Rightarrow> [c]
     | C_Exit c r \<Rightarrow> [c] | C_Push c r \<Rightarrow> [c] | _ \<Rightarrow> [])"

definition crossings :: "line list \<Rightarrow> car list" where
  "crossings ls = concat (map (\<lambda>x. case x of Crossing c \<Rightarrow> [c] | _ \<Rightarrow> []) ls)"

definition only_crossings :: "line list \<Rightarrow> bool" where
  "only_crossings ls \<longleftrightarrow> map Crossing (crossings ls) = ls"

definition from_lane :: "direction \<Rightarrow> car list \<Rightarrow> car list" where
  "from_lane i = filter (\<lambda>c. in_dir c = i)"

definition to_lane :: "direction \<Rightarrow> car list \<Rightarrow> car list" where
  "to_lane d = filter (\<lambda>c. out_dir c = d)"

text \<open>A car \<open>car_cross\<close> brings to the other side.\<close>

definition passable :: "car \<Rightarrow> bool" where
  "passable c \<longleftrightarrow> valid_direction (out_dir c) \<and> \<not> reads_garbage (in_dir c) (out_dir c)"

text \<open>\<open>p\<close> are the cars of lane \<open>i\<close> that have crossed, in their order.\<close>

definition ledger :: "car list \<Rightarrow> world \<Rightarrow> direction \<Rightarrow> car list \<Rightarrow> bool" where
  "ledger cs w i p \<longleftrightarrow>
     waiting cs i = p @ hand (crs w i) @ queued (lanes w i) @ in_cars (lanes w i) \<and>
     from_lane i (crossings (stdout w)) = p @ shown (crs w i) \<and>
     (\<forall>d. from_lane i (rev (out_cars (lanes w d))) = to_lane d p) \<and> (\<forall>c \<in> set p. passable c)"

text \<open>Every car that has crossed came from one of the four lanes.\<close>

definition origins_ok :: "world \<Rightarrow> bool" where
  "origins_ok w \<longleftrightarrow> (\<forall>d. \<forall>c \<in> set (out_cars (lanes w d)). valid_direction (in_dir c))"

definition main_ok :: "world \<Rightarrow> bool" where
  "main_ok w \<longleftrightarrow>
    (case main_at w of
       M_Create_Cross k \<Rightarrow> 0 \<le> k \<and> k < 4 \<and>
         (\<forall>i. crs w i \<noteq> C_Idle \<longleftrightarrow> 0 \<le> i \<and> i < k) \<and> (\<forall>i. arr w i \<noteq> A_Idle \<longleftrightarrow> 0 \<le> i \<and> i < k)
     | M_Create_Arrive k \<Rightarrow> 0 \<le> k \<and> k < 4 \<and>
         (\<forall>i. crs w i \<noteq> C_Idle \<longleftrightarrow> 0 \<le> i \<and> i \<le> k) \<and> (\<forall>i. arr w i \<noteq> A_Idle \<longleftrightarrow> 0 \<le> i \<and> i < k)
     | M_Join_Cross k \<Rightarrow> 0 \<le> k \<and> k < 4 \<and>
         (\<forall>i. crs w i \<noteq> C_Idle \<longleftrightarrow> valid_direction i) \<and> (\<forall>i. arr w i \<noteq> A_Idle \<longleftrightarrow> valid_direction i) \<and>
         (\<forall>i. 0 \<le> i \<and> i < k \<longrightarrow> crs w i = C_Done)
     | M_Join_Arrive k \<Rightarrow> 0 \<le> k \<and> k < 4 \<and>
         (\<forall>i. crs w i \<noteq> C_Idle \<longleftrightarrow> valid_direction i) \<and> (\<forall>i. arr w i \<noteq> A_Idle \<longleftrightarrow> valid_direction i) \<and>
         (\<forall>i. valid_direction i \<longrightarrow> crs w i = C_Done) \<and> (\<forall>i. 0 \<le> i \<and> i < k \<longrightarrow> arr w i = A_Done)
     | M_Verify \<Rightarrow>
         (\<forall>i. crs w i \<noteq> C_Idle \<longleftrightarrow> valid_direction i) \<and> (\<forall>i. arr w i \<noteq> A_Idle \<longleftrightarrow> valid_direction i) \<and>
         (\<forall>i. valid_direction i \<longrightarrow> crs w i = C_Done \<and> arr w i = A_Done))"

definition end_ok :: "car list \<Rightarrow> world \<Rightarrow> bool" where
  "end_ok cs w \<longleftrightarrow>
    (case result w of
       None \<Rightarrow> only_crossings (stdout w)
     | Some r \<Rightarrow>
         r = Ok 0 \<and> main_at w = M_Verify \<and>
           (\<exists>ls. only_crossings ls \<and> stdout w = ls @ verify w) \<or>
         r = Exit 1 \<and> (\<exists>c \<in> set cs. \<not> valid_direction (out_dir c)) \<or>
         r = Fault \<and> (\<exists>c \<in> set cs. reads_garbage (in_dir c) (out_dir c)))"

section \<open>The effect of each step\<close>

lemmas world_ops = lock_lane_def unlock_lane_def upd_lane_def goto_arr_def goto_crs_def
  signal_consumer_def signal_producer_def stop_def

lemma ring_bounds: "ring_ok l \<Longrightarrow> 0 \<le> in_buf l \<and> in_buf l \<le> int (capacity l)"
  by (simp add: ring_ok_def)

lemma lane_inv_counts:
  assumes "lane_inv l a c"
  shows "ring_ok l" "capacity l = LANE_LENGTH" "inc l = int (length (in_cars l)) + in_buf l"
    "0 \<le> in_buf l" "in_buf l \<le> int (capacity l)" "passed l = int (length (out_cars l))"
  using assms ring_bounds [of l] by (simp_all add: lane_inv_def counts_ok_def)

lemma put_car_run:
  assumes "ring_ok l" "in_cars l = c # rest"
  shows "put_car l = (Ok (), (after_put c l)\<lparr>in_cars := rest\<rparr>)"
  using assms by (simp add: put_car_def prog bnd_run buf_put_run)

lemma take_car_run:
  assumes "ring_ok l" "0 < in_buf l"
  shows "take_car l = (Ok (hd (queued l)), (after_take l)\<lparr>inc := inc l - 1\<rparr>)"
  using after_take_queue(1) [OF assms]
  by (simp add: take_car_def prog bnd_run) (simp add: after_take_def)

lemma car_arrive_cases:
  assumes step: "car_arrive i w = Some w'" and inv: "lane_inv (lanes w i) (arr w i) (crs w i)"
  obtains
    (lock) "arr w i = A_Lock" "lock (lanes w i) = None"
      "w' = w\<lparr>lanes := (lanes w)(i := (lanes w i)\<lparr>lock := Some (Arrive i)\<rparr>), arr := (arr w)(i := A_Check)\<rparr>"
  | (finish) "arr w i = A_Check" "in_cars (lanes w i) = []"
      "w' = w\<lparr>lanes := (lanes w)(i := (lanes w i)\<lparr>lock := None\<rparr>), arr := (arr w)(i := A_Done)\<rparr>"
  | (go) "arr w i = A_Check" "in_cars (lanes w i) \<noteq> []"
      "w' = w\<lparr>arr := (arr w)(i := A_Full)\<rparr>"
  | (wait) "arr w i = A_Full" "in_buf (lanes w i) = int (capacity (lanes w i))"
      "w' = w\<lparr>lanes := (lanes w)(i := (lanes w i)\<lparr>lock := None\<rparr>), arr := (arr w)(i := A_Wait)\<rparr>"
  | (put) c rest where "arr w i = A_Full" "in_buf (lanes w i) < int (capacity (lanes w i))"
      "in_cars (lanes w i) = c # rest"
      "w' = w\<lparr>lanes := (lanes w)(i := (after_put c (lanes w i))\<lparr>in_cars := rest, lock := None\<rparr>),
         arr := (arr w)(i := A_Lock),
         crs := (crs w)(i := if crs w i = C_Wait then C_Relock else crs w i)\<rparr>"
  | (relock) "arr w i = A_Relock" "lock (lanes w i) = None"
      "w' = w\<lparr>lanes := (lanes w)(i := (lanes w i)\<lparr>lock := Some (Arrive i)\<rparr>), arr := (arr w)(i := A_Full)\<rparr>"
proof (cases "arr w i")
  case A_Idle
  with step show ?thesis by (simp add: car_arrive_def)
next
  case A_Lock
  show ?thesis
    by (rule lock; use A_Lock step in \<open>simp add: car_arrive_def world_ops split: if_splits\<close>)
next
  case A_Check
  have "in_cars (lanes w i) = []" if "inc (lanes w i) \<le> 0"
    using lane_inv_counts(3,4) [OF inv] that by (cases "in_cars (lanes w i)") auto
  with A_Check step show ?thesis
    by (cases "in_cars (lanes w i) = []")
      (rule finish go; force simp: car_arrive_def world_ops split: if_splits)+
next
  case A_Full
  from A_Full inv obtain c rest where c: "in_cars (lanes w i) = c # rest"
    by (cases "in_cars (lanes w i)") (auto simp: lane_inv_def)
  have ring: "ring_ok (lanes w i)" and le: "in_buf (lanes w i) \<le> int (capacity (lanes w i))"
    using lane_inv_counts [OF inv] by simp_all
  show ?thesis
  proof (cases "in_buf (lanes w i) = int (capacity (lanes w i))")
    case True
    show ?thesis
      by (rule wait; use A_Full True step in \<open>simp add: car_arrive_def world_ops\<close>)
  next
    case False
    with A_Full step c have "w' = w\<lparr>lanes := (lanes w)(i := (after_put c (lanes w i))\<lparr>in_cars := rest, lock := None\<rparr>),
         arr := (arr w)(i := A_Lock),
         crs := (crs w)(i := if crs w i = C_Wait then C_Relock else crs w i)\<rparr>"
      by (auto simp: car_arrive_def on_lane_def put_car_run [OF ring c] world_ops)
    with A_Full False le c show ?thesis by (intro put) auto
  qed
next
  case A_Wait
  with step show ?thesis by (simp add: car_arrive_def)
next
  case A_Relock
  show ?thesis
    by (rule relock; use A_Relock step in \<open>simp add: car_arrive_def world_ops split: if_splits\<close>)
next
  case A_Done
  with step show ?thesis by (simp add: car_arrive_def)
qed

lemma path_entries:
  assumes "compute_path i d = Ok r"
  shows "valid_direction d" "r ! 0 = Some 2" "r ! 1 = (if reads_garbage i d then None else Some 3)"
proof -
  have v: "valid_direction i \<and> valid_direction d"
    using assms by (auto simp: compute_path_def split: if_splits)
  then obtain s where "compute_path i d = Ok s" "s ! 0 = Some 2"
    "s ! 1 = (if reads_garbage i d then None else Some 3)"
    using compute_path_valid by blast
  with assms v show "valid_direction d" "r ! 0 = Some 2"
    "r ! 1 = (if reads_garbage i d then None else Some 3)" by auto
qed

lemma car_cross_cases:
  assumes step: "car_cross i w = Some w'" and inv: "lane_inv (lanes w i) (arr w i) (crs w i)"
    and pok: "path_ok (crs w i)"
  obtains
    (lock) "crs w i = C_Lock" "lock (lanes w i) = None"
      "w' = w\<lparr>lanes := (lanes w)(i := (lanes w i)\<lparr>lock := Some (Cross i)\<rparr>), crs := (crs w)(i := C_Check)\<rparr>"
  | (finish) "crs w i = C_Check" "inc (lanes w i) = 0"
      "w' = w\<lparr>lanes := (lanes w)(i := (lanes w i)\<lparr>lock := None\<rparr>), crs := (crs w)(i := C_Done)\<rparr>"
  | (go) "crs w i = C_Check" "0 < inc (lanes w i)" "w' = w\<lparr>crs := (crs w)(i := C_Empty)\<rparr>"
  | (wait) "crs w i = C_Empty" "in_buf (lanes w i) = 0"
      "w' = w\<lparr>lanes := (lanes w)(i := (lanes w i)\<lparr>lock := None\<rparr>), crs := (crs w)(i := C_Wait)\<rparr>"
  | (take) c where "crs w i = C_Empty" "0 < in_buf (lanes w i)" "c = hd (queued (lanes w i))"
      "w' = w\<lparr>lanes := (lanes w)(i := (after_take (lanes w i))\<lparr>inc := inc (lanes w i) - 1, lock := None\<rparr>),
         crs := (crs w)(i := C_Print c),
         arr := (arr w)(i := if arr w i = A_Wait then A_Relock else arr w i)\<rparr>"
  | (relock) "crs w i = C_Relock" "lock (lanes w i) = None"
      "w' = w\<lparr>lanes := (lanes w)(i := (lanes w i)\<lparr>lock := Some (Cross i)\<rparr>), crs := (crs w)(i := C_Empty)\<rparr>"
  | (print) c where "crs w i = C_Print c"
      "w' = w\<lparr>crs := (crs w)(i := C_Path c), stdout := stdout w @ [Crossing c]\<rparr>"
  | (path) c r where "crs w i = C_Path c" "compute_path (in_dir c) (out_dir c) = Ok r"
      "w' = w\<lparr>crs := (crs w)(i := C_Quad c r 0)\<rparr>"
  | (invalid) c where "crs w i = C_Path c" "\<not> (valid_direction (in_dir c) \<and> valid_direction (out_dir c))"
      "w' = w\<lparr>result := Some (Exit 1)\<rparr>"
  | (quad1) c r where "crs w i = C_Quad c r 0" "quad w 2 = None"
      "w' = w\<lparr>crs := (crs w)(i := C_Quad c r 1), quad := (quad w)(2 := Some (Cross i))\<rparr>"
  | (quad2) c r where "crs w i = C_Quad c r 1" "quad w 3 = None" "\<not> reads_garbage (in_dir c) (out_dir c)"
      "w' = w\<lparr>crs := (crs w)(i := C_Quad c r 2), quad := (quad w)(3 := Some (Cross i))\<rparr>"
  | (garbage) c r where "crs w i = C_Quad c r 1" "reads_garbage (in_dir c) (out_dir c)"
      "w' = w\<lparr>result := Some Fault\<rparr>"
  | (through) c r where "crs w i = C_Quad c r 2" "w' = w\<lparr>crs := (crs w)(i := C_Exit c r)\<rparr>"
  | (exit) c r where "crs w i = C_Exit c r" "lock (lanes w (out_dir c)) = None"
      "w' = w\<lparr>lanes := (lanes w)(out_dir c := (lanes w (out_dir c))\<lparr>lock := Some (Cross i)\<rparr>),
         crs := (crs w)(i := C_Push c r)\<rparr>"
  | (push) c r where "crs w i = C_Push c r"
      "w' = w\<lparr>lanes := (lanes w)(out_dir c := (push_out c (lanes w (out_dir c)))\<lparr>lock := None\<rparr>),
         crs := (crs w)(i := C_Unquad c r 0)\<rparr>"
  | (unquad1) c r where "crs w i = C_Unquad c r 0"
      "w' = w\<lparr>crs := (crs w)(i := C_Unquad c r 1), quad := (quad w)(2 := None)\<rparr>"
  | (unquad2) c r where "crs w i = C_Unquad c r 1"
      "w' = w\<lparr>crs := (crs w)(i := C_Unquad c r 2), quad := (quad w)(3 := None)\<rparr>"
  | (again) c r where "crs w i = C_Unquad c r 2" "w' = w\<lparr>crs := (crs w)(i := C_Lock)\<rparr>"
proof (cases "crs w i")
  case C_Idle
  with step show ?thesis by (simp add: car_cross_def)
next
  case C_Lock
  show ?thesis
    by (rule lock; use C_Lock step in \<open>simp add: car_cross_def world_ops split: if_splits\<close>)
next
  case C_Check
  have nonneg: "0 \<le> inc (lanes w i)"
    using lane_inv_counts(3,4) [OF inv] by simp
  show ?thesis
  proof (cases "inc (lanes w i) \<le> 0")
    case True
    show ?thesis
      by (rule finish; use C_Check True nonneg step in \<open>simp add: car_cross_def world_ops\<close>)
  next
    case False
    show ?thesis
      by (rule go; use C_Check False step in \<open>simp add: car_cross_def world_ops\<close>)
  qed
next
  case C_Empty
  show ?thesis
  proof (cases "in_buf (lanes w i) = 0")
    case True
    show ?thesis
      by (rule wait; use C_Empty True step in \<open>simp add: car_cross_def world_ops\<close>)
  next
    case False
    then have pos: "0 < in_buf (lanes w i)"
      using lane_inv_counts(4) [OF inv] by simp
    show ?thesis
      by (rule take [OF C_Empty pos refl]; use C_Empty False step in
        \<open>auto simp: car_cross_def on_lane_def take_car_run [OF lane_inv_counts(1) [OF inv] pos] world_ops\<close>)
  qed
next
  case C_Wait
  with step show ?thesis by (simp add: car_cross_def)
next
  case C_Relock
  show ?thesis
    by (rule relock; use C_Relock step in \<open>simp add: car_cross_def world_ops split: if_splits\<close>)
next
  case (C_Print c)
  show ?thesis
    by (rule print [OF C_Print]; use C_Print step in \<open>auto simp: car_cross_def world_ops\<close>)
next
  case (C_Path c)
  show ?thesis
  proof (cases "valid_direction (in_dir c) \<and> valid_direction (out_dir c)")
    case True
    then obtain r where r: "compute_path (in_dir c) (out_dir c) = Ok r"
      using compute_path_valid by blast
    show ?thesis
      by (rule that(8) [OF C_Path r]; use C_Path r step in \<open>simp add: car_cross_def world_ops\<close>)
  next
    case False
    then have "compute_path (in_dir c) (out_dir c) = Exit 1"
      by (simp add: compute_path_def)
    with C_Path step show ?thesis
      by (intro invalid [OF C_Path False]) (simp add: car_cross_def world_ops)
  qed
next
  case (C_Quad c r x)
  with pok have r: "compute_path (in_dir c) (out_dir c) = Ok r" and x: "x \<le> 2"
    by (simp_all add: path_ok_def)
  note entries = path_entries(2,3) [OF r]
  from x consider "x = 0" | "x = 1" | "x = 2" by linarith
  then show ?thesis
  proof cases
    case 1
    note pc = C_Quad [unfolded 1]
    show ?thesis
      by (rule quad1 [OF pc]; use pc entries(1) step in
        \<open>auto simp: car_cross_def lock_quad_def world_ops split: if_splits\<close>)
  next
    case 2
    note pc = C_Quad [unfolded 2]
    show ?thesis
    proof (cases "reads_garbage (in_dir c) (out_dir c)")
      case True
      show ?thesis
        by (rule garbage [OF pc True]; use pc entries True step in
          \<open>simp add: car_cross_def lock_quad_def world_ops\<close>)
    next
      case False
      show ?thesis
        by (rule quad2 [OF pc]; use pc entries(2) False step in
          \<open>auto simp: car_cross_def lock_quad_def world_ops numeral_2_eq_2 split: if_splits\<close>)
    qed
  next
    case 3
    note pc = C_Quad [unfolded 3]
    show ?thesis
      by (rule through [OF pc]; use pc step in \<open>simp add: car_cross_def world_ops\<close>)
  qed
next
  case (C_Exit c r)
  show ?thesis
    by (rule exit [OF C_Exit]; use C_Exit step in \<open>simp add: car_cross_def world_ops split: if_splits\<close>)
next
  case (C_Push c r)
  show ?thesis
    by (rule push [OF C_Push]; use C_Push step in \<open>simp add: car_cross_def world_ops\<close>)
next
  case (C_Unquad c r y)
  with pok have r: "compute_path (in_dir c) (out_dir c) = Ok r" and y: "y \<le> 2"
    and ok: "\<not> reads_garbage (in_dir c) (out_dir c)"
    by (simp_all add: path_ok_def)
  note entries = path_entries(2,3) [OF r]
  from y consider "y = 0" | "y = 1" | "y = 2" by linarith
  then show ?thesis
  proof cases
    case 1
    note pc = C_Unquad [unfolded 1]
    show ?thesis
      by (rule unquad1 [OF pc]; use pc entries(1) step in
        \<open>auto simp: car_cross_def unlock_quad_def world_ops\<close>)
  next
    case 2
    note pc = C_Unquad [unfolded 2]
    show ?thesis
      by (rule unquad2 [OF pc]; use pc entries(2) ok step in
        \<open>auto simp: car_cross_def unlock_quad_def world_ops numeral_2_eq_2\<close>)
  next
    case 3
    note pc = C_Unquad [unfolded 3]
    show ?thesis
      by (rule again [OF pc]; use pc step in \<open>simp add: car_cross_def world_ops\<close>)
  qed
next
  case C_Done
  with step show ?thesis by (simp add: car_cross_def)
qed

section \<open>Each clause is kept\<close>

definition lanes_inv :: "world \<Rightarrow> bool" where
  "lanes_inv w \<longleftrightarrow> (\<forall>i. valid_direction i \<longrightarrow> lane_inv (lanes w i) (arr w i) (crs w i))"

definition paths_ok :: "world \<Rightarrow> bool" where
  "paths_ok w \<longleftrightarrow> (\<forall>i. path_ok (crs w i))"

definition threads_ok :: "world \<Rightarrow> bool" where
  "threads_ok w \<longleftrightarrow> (\<forall>i. crs w i \<noteq> C_Idle \<or> arr w i \<noteq> A_Idle \<longrightarrow> valid_direction i)"

lemma moving_started:
  "car_arrive i w = Some w' \<Longrightarrow> arr w i \<noteq> A_Idle"
  "car_cross i w = Some w' \<Longrightarrow> crs w i \<noteq> C_Idle"
  by (cases "arr w i"; simp add: car_arrive_def) (cases "crs w i"; simp add: car_cross_def)

lemma moving_valid:
  assumes "threads_ok w"
  shows "car_arrive i w = Some w' \<Longrightarrow> valid_direction i"
    and "car_cross i w = Some w' \<Longrightarrow> valid_direction i"
  using assms moving_started by (simp_all add: threads_ok_def)

lemma after_put_fields [simp]:
  "in_cars (after_put c l) = in_cars l" "out_cars (after_put c l) = out_cars l"
  "inc (after_put c l) = inc l" "passed (after_put c l) = passed l" "lock (after_put c l) = lock l"
  "capacity (after_put c l) = capacity l" "in_buf (after_put c l) = in_buf l + 1"
  by (simp_all add: after_put_def)

lemma after_take_fields [simp]:
  "in_cars (after_take l) = in_cars l" "out_cars (after_take l) = out_cars l"
  "inc (after_take l) = inc l" "passed (after_take l) = passed l" "lock (after_take l) = lock l"
  "capacity (after_take l) = capacity l" "in_buf (after_take l) = in_buf l - 1"
  by (simp_all add: after_take_def)

lemma push_out_fields [simp]:
  "in_cars (push_out c l) = in_cars l" "out_cars (push_out c l) = c # out_cars l"
  "inc (push_out c l) = inc l" "passed (push_out c l) = passed l + 1" "lock (push_out c l) = lock l"
  "capacity (push_out c l) = capacity l" "in_buf (push_out c l) = in_buf l"
  by (simp_all add: push_out_def)

lemma ring_ok_other [simp]:
  "ring_ok (l\<lparr>lock := t\<rparr>) = ring_ok l" "ring_ok (l\<lparr>in_cars := cs\<rparr>) = ring_ok l"
  "ring_ok (l\<lparr>inc := n\<rparr>) = ring_ok l" "ring_ok (push_out c l) = ring_ok l"
  by (simp_all add: ring_ok_def push_out_def)

lemma queued_other [simp]:
  "queued (l\<lparr>lock := t\<rparr>) = queued l" "queued (l\<lparr>in_cars := cs\<rparr>) = queued l"
  "queued (l\<lparr>inc := n\<rparr>) = queued l" "queued (push_out c l) = queued l"
  by (simp_all add: queued_def push_out_def)

lemma counts_ok_lock [simp]: "counts_ok (l\<lparr>lock := t\<rparr>) = counts_ok l"
  by (simp add: counts_ok_def)

lemma counts_ok_put:
  assumes "counts_ok l" "in_cars l = c # rest" "in_buf l < int (capacity l)"
  shows "counts_ok ((after_put c l)\<lparr>in_cars := rest, lock := t\<rparr>)"
  using assms ring_bounds [of l] after_put_queue(1) [of l c] by (simp add: counts_ok_def)

lemma counts_ok_take:
  assumes "counts_ok l" "0 < in_buf l"
  shows "counts_ok ((after_take l)\<lparr>inc := inc l - 1, lock := t\<rparr>)"
  using assms after_take_queue(2) [of l] by (simp add: counts_ok_def)

lemma counts_ok_push: "counts_ok l \<Longrightarrow> counts_ok (push_out c l)"
  by (simp add: counts_ok_def)

lemma lane_inv_arrive:
  assumes step: "car_arrive i w = Some w'" and inv: "lanes_inv w" "threads_ok w"
  shows "lanes_inv w'"
proof -
  have i: "lane_inv (lanes w i) (arr w i) (crs w i)"
    using inv moving_valid(1) [OF inv(2) step] by (simp add: lanes_inv_def)
  from step i have "lane_inv (lanes w' i) (arr w' i) (crs w' i)"
  proof (cases rule: car_arrive_cases)
    case (put c rest)
    with i counts_ok_put [of "lanes w i" c rest] show ?thesis
      by (simp add: lane_inv_def)
  qed (use i in \<open>auto simp: lane_inv_def\<close>)
  moreover from step i have "lanes w' j = lanes w j \<and> arr w' j = arr w j \<and> crs w' j = crs w j"
    if "j \<noteq> i" for j
    using that by (cases rule: car_arrive_cases) auto
  ultimately show ?thesis
    using inv(1) unfolding lanes_inv_def by metis
qed

lemma lane_inv_cross:
  assumes step: "car_cross i w = Some w'" and inv: "lanes_inv w" "threads_ok w" "paths_ok w"
  shows "lanes_inv w'"
proof -
  have i: "lane_inv (lanes w i) (arr w i) (crs w i)"
    using inv moving_valid(2) [OF inv(2) step] by (simp add: lanes_inv_def)
  have p: "path_ok (crs w i)"
    using inv(3) by (simp add: paths_ok_def)
  show ?thesis
    unfolding lanes_inv_def
  proof (intro allI impI)
    fix j assume "valid_direction j"
    then have j: "lane_inv (lanes w j) (arr w j) (crs w j)"
      using inv(1) by (simp add: lanes_inv_def)
    from step i p show "lane_inv (lanes w' j) (arr w' j) (crs w' j)"
    proof (cases rule: car_cross_cases)
      case (take c)
      with i j counts_ok_take [of "lanes w i"] show ?thesis
        by (cases "j = i") (auto simp: lane_inv_def)
    next
      case (push c r)
      with i j counts_ok_push [of "lanes w (out_dir c)" c] show ?thesis
        by (cases "j = i"; cases "j = out_dir c") (auto simp: lane_inv_def)
    next
      case (exit c r)
      with i j show ?thesis by (cases "j = i"; cases "j = out_dir c") (auto simp: lane_inv_def)
    qed (use i j in \<open>cases "j = i"; auto simp: lane_inv_def\<close>)+
  qed
qed

lemma paths_arrive:
  assumes "car_arrive i w = Some w'" "lane_inv (lanes w i) (arr w i) (crs w i)" "paths_ok w"
  shows "paths_ok w'"
  using assms(1,2)
  by (cases rule: car_arrive_cases) (use assms(3) in \<open>auto simp: paths_ok_def path_ok_def\<close>)

lemma paths_cross:
  assumes step: "car_cross i w = Some w'" and inv: "lane_inv (lanes w i) (arr w i) (crs w i)"
    and p: "paths_ok w"
  shows "paths_ok w'"
proof -
  have pi: "path_ok (crs w i)"
    using p by (simp add: paths_ok_def)
  from step inv pi show ?thesis
    by (cases rule: car_cross_cases)
      (use p pi in \<open>auto simp: paths_ok_def path_ok_def reads_garbage_def\<close>)
qed

text \<open>A family of mutexes whose owner is the thread that holds them.\<close>

lemma lane_locks_acquire:
  assumes "lane_locks w" "lock (lanes w j) = None" "lock \<circ> lanes w' = (lock \<circ> lanes w)(j := Some t)"
    and "\<And>u k. holds_lane w' u k \<longleftrightarrow> holds_lane w u k \<or> u = t \<and> k = j"
  shows "lane_locks w'"
proof -
  have "lock (lanes w' k) = (if k = j then Some t else lock (lanes w k))" for k
    using fun_cong [OF assms(3), of k] by simp
  with assms(1,2) show ?thesis
    unfolding lane_locks_def assms(4) by (metis option.distinct(1) option.inject)
qed

lemma lane_locks_release:
  assumes "lane_locks w" "holds_lane w t j" "lock \<circ> lanes w' = (lock \<circ> lanes w)(j := None)"
    and "\<And>u k. holds_lane w' u k \<longleftrightarrow> holds_lane w u k \<and> \<not> (u = t \<and> k = j)"
  shows "lane_locks w'"
proof -
  have "lock (lanes w' k) = (if k = j then None else lock (lanes w k))" for k
    using fun_cong [OF assms(3), of k] by simp
  with assms(1,2) show ?thesis
    unfolding lane_locks_def assms(4) by (metis option.distinct(1) option.inject)
qed

lemma lane_locks_same:
  assumes "lane_locks w" "lock \<circ> lanes w' = lock \<circ> lanes w"
    and "\<And>u k. holds_lane w' u k \<longleftrightarrow> holds_lane w u k"
  shows "lane_locks w'"
proof -
  have "lock (lanes w' k) = lock (lanes w k)" for k
    using fun_cong [OF assms(2), of k] by simp
  with assms(1) show ?thesis
    unfolding lane_locks_def assms(3) by simp
qed

lemma lane_locks_arrive:
  assumes "car_arrive i w = Some w'" "lane_inv (lanes w i) (arr w i) (crs w i)" "lane_locks w"
  shows "lane_locks w'"
  using assms(1,2)
proof (cases rule: car_arrive_cases)
  case lock
  show ?thesis
    by (rule lane_locks_acquire [OF assms(3) lock(2), where t = "Arrive i"])
      (use lock in \<open>auto simp: holds_lane_def fun_eq_iff split: thread.splits\<close>)
next
  case finish
  show ?thesis
    by (rule lane_locks_release [OF assms(3), of "Arrive i" i])
      (use finish in \<open>auto simp: holds_lane_def fun_eq_iff split: thread.splits\<close>)
next
  case go
  show ?thesis
    by (rule lane_locks_same [OF assms(3)])
      (use go in \<open>auto simp: holds_lane_def split: thread.splits\<close>)
next
  case wait
  show ?thesis
    by (rule lane_locks_release [OF assms(3), of "Arrive i" i])
      (use wait in \<open>auto simp: holds_lane_def fun_eq_iff split: thread.splits\<close>)
next
  case (put c rest)
  show ?thesis
    by (rule lane_locks_release [OF assms(3), of "Arrive i" i])
      (use put in \<open>auto simp: holds_lane_def fun_eq_iff split: thread.splits\<close>)
next
  case relock
  show ?thesis
    by (rule lane_locks_acquire [OF assms(3) relock(2), where t = "Arrive i"])
      (use relock in \<open>auto simp: holds_lane_def fun_eq_iff split: thread.splits\<close>)
qed

lemma lane_locks_cross:
  assumes step: "car_cross i w = Some w'" and inv: "lane_inv (lanes w i) (arr w i) (crs w i)"
    and p: "path_ok (crs w i)" and l: "lane_locks w"
  shows "lane_locks w'"
  using step inv p
proof (cases rule: car_cross_cases)
  case lock
  show ?thesis
    by (rule lane_locks_acquire [OF l lock(2), where t = "Cross i"])
      (use lock in \<open>auto simp: holds_lane_def fun_eq_iff split: thread.splits\<close>)
next
  case relock
  show ?thesis
    by (rule lane_locks_acquire [OF l relock(2), where t = "Cross i"])
      (use relock in \<open>auto simp: holds_lane_def fun_eq_iff split: thread.splits\<close>)
next
  case (exit c r)
  show ?thesis
    by (rule lane_locks_acquire [OF l exit(2), where t = "Cross i"])
      (use exit in \<open>auto simp: holds_lane_def fun_eq_iff split: thread.splits\<close>)
next
  case finish
  show ?thesis
    by (rule lane_locks_release [OF l, of "Cross i" i])
      (use finish in \<open>auto simp: holds_lane_def fun_eq_iff split: thread.splits\<close>)
next
  case wait
  show ?thesis
    by (rule lane_locks_release [OF l, of "Cross i" i])
      (use wait in \<open>auto simp: holds_lane_def fun_eq_iff split: thread.splits\<close>)
next
  case (take c)
  show ?thesis
    by (rule lane_locks_release [OF l, of "Cross i" i])
      (use take in \<open>auto simp: holds_lane_def fun_eq_iff split: thread.splits\<close>)
next
  case (push c r)
  show ?thesis
    by (rule lane_locks_release [OF l, of "Cross i" "out_dir c"])
      (use push in \<open>auto simp: holds_lane_def fun_eq_iff split: thread.splits\<close>)
qed (rule lane_locks_same [OF l]; force simp: holds_lane_def split: thread.splits)+

lemma quad_locks_acquire:
  assumes "quad_locks w" "quad w q = None" "quad w' = (quad w)(q := Some (Cross i))"
    and "\<And>j k. holds_quad (crs w' j) k \<longleftrightarrow> holds_quad (crs w j) k \<or> j = i \<and> k = q"
  shows "quad_locks w'"
  using assms(1,2) unfolding quad_locks_def assms(3,4) by auto (metis option.distinct(1))+

lemma quad_locks_release:
  assumes "quad_locks w" "holds_quad (crs w i) q" "quad w' = (quad w)(q := None)"
    and "\<And>j k. holds_quad (crs w' j) k \<longleftrightarrow> holds_quad (crs w j) k \<and> \<not> (j = i \<and> k = q)"
  shows "quad_locks w'"
  using assms(1,2) unfolding quad_locks_def assms(3,4) by auto (metis option.inject thread.inject(1))+

lemma quad_locks_same:
  assumes "quad_locks w" "quad w' = quad w" "\<And>j k. holds_quad (crs w' j) k \<longleftrightarrow> holds_quad (crs w j) k"
  shows "quad_locks w'"
  using assms by (simp add: quad_locks_def)

lemma quad_locks_arrive:
  assumes "car_arrive i w = Some w'" "lane_inv (lanes w i) (arr w i) (crs w i)" "quad_locks w"
  shows "quad_locks w'"
  using assms(1,2)
  by (cases rule: car_arrive_cases; intro quad_locks_same [OF assms(3)]; simp add: holds_quad_def)

lemma quad_locks_cross:
  assumes step: "car_cross i w = Some w'" and inv: "lane_inv (lanes w i) (arr w i) (crs w i)"
    and p: "path_ok (crs w i)" and q: "quad_locks w"
  shows "quad_locks w'"
  using step inv p
proof (cases rule: car_cross_cases)
  case (quad1 c r)
  show ?thesis
    by (rule quad_locks_acquire [OF q quad1(2), of _ i]) (use quad1 in \<open>auto simp: holds_quad_def\<close>)
next
  case (quad2 c r)
  show ?thesis
    by (rule quad_locks_acquire [OF q quad2(2), of _ i]) (use quad2 in \<open>auto simp: holds_quad_def\<close>)
next
  case (unquad1 c r)
  show ?thesis
    by (rule quad_locks_release [OF q, of i 2]) (use unquad1 in \<open>auto simp: holds_quad_def\<close>)
next
  case (unquad2 c r)
  show ?thesis
    by (rule quad_locks_release [OF q, of i 3]) (use unquad2 in \<open>auto simp: holds_quad_def\<close>)
qed (rule quad_locks_same [OF q]; auto simp: holds_quad_def)+

lemma crossings_append [simp]: "crossings (xs @ ys) = crossings xs @ crossings ys"
  by (simp add: crossings_def)

lemma crossings_Crossing [simp]: "crossings [Crossing c] = [c]"
  by (simp add: crossings_def)

lemma only_crossings_simps [simp]:
  "only_crossings []" "only_crossings ls \<Longrightarrow> only_crossings (ls @ [Crossing c])"
  by (simp_all add: only_crossings_def) (simp add: crossings_def)

lemma crossings_verify [simp]: "crossings (verify w) = []"
  by (simp add: crossings_def verify_def comp_def)

definition ledgers :: "car list \<Rightarrow> world \<Rightarrow> bool" where
  "ledgers cs w \<longleftrightarrow> (\<forall>i. valid_direction i \<longrightarrow> (\<exists>p. ledger cs w i p))"

lemma ledger_hand:
  assumes "ledgers cs w" "valid_direction i" "c \<in> set (hand (crs w i))"
  shows "in_dir c = i" "c \<in> set cs"
proof -
  from assms obtain p where "waiting cs i = p @ hand (crs w i) @ queued (lanes w i) @ in_cars (lanes w i)"
    unfolding ledgers_def ledger_def by blast
  with assms(3) have "c \<in> set (waiting cs i)"
    by simp
  then show "in_dir c = i" "c \<in> set cs"
    by (simp_all add: waiting_def)
qed

lemma ledger_arrive:
  assumes step: "car_arrive i w = Some w'" and inv: "lane_inv (lanes w i) (arr w i) (crs w i)"
    and l: "ledger cs w j p"
  shows "ledger cs w' j p"
  using step inv
proof (cases rule: car_arrive_cases)
  case (put c rest)
  have "queued (after_put c (lanes w i)) = queued (lanes w i) @ [c]"
    using put(2) lane_inv_counts(1,4) [OF inv] by (intro after_put_queue(2)) auto
  with put l show ?thesis
    by (cases "j = i") (auto simp: ledger_def hand_def shown_def split: cross_pc.splits)
qed (use l in \<open>auto simp: ledger_def hand_def shown_def\<close>)

lemma ledger_cross:
  assumes step: "car_cross i w = Some w'" and inv: "lane_inv (lanes w i) (arr w i) (crs w i)"
    and p: "path_ok (crs w i)" and l: "ledgers cs w" and i: "valid_direction i" and j: "valid_direction j"
  shows "\<exists>p. ledger cs w' j p"
proof -
  from l j obtain p where q: "ledger cs w j p"
    by (auto simp: ledgers_def)
  note own = ledger_hand(1) [OF l i]
  from step inv p show ?thesis
  proof (cases rule: car_cross_cases)
    case (take c)
    have "queued (lanes w i) \<noteq> []"
      using take(2) by (metis length_queued less_numeral_extra(3) list.size(3) zero_less_nat_eq)
    with take(3) have "queued (lanes w i) = c # queued (after_take (lanes w i))"
      using take(2) lane_inv_counts(1) [OF inv] by (simp add: after_take_queue(3))
    with take q show ?thesis
      by (intro exI [of _ p]) (cases "j = i"; simp add: ledger_def hand_def shown_def)
  next
    case (print c)
    with own [of c] q show ?thesis
      by (intro exI [of _ p]) (cases "j = i"; simp add: ledger_def hand_def shown_def from_lane_def)
  next
    case (push c r)
    with own [of c] have "in_dir c = i"
      by (simp add: hand_def)
    moreover have "passable c"
      using p push(1) path_entries(1) by (auto simp: path_ok_def passable_def)
    ultimately show ?thesis using push q
      by (intro exI [of _ "if j = i then p @ [c] else p"])
        (cases "j = i"; auto simp: ledger_def hand_def shown_def from_lane_def to_lane_def)
  next
    case (exit c r)
    with q show ?thesis
      by (intro exI [of _ p]) (cases "j = i"; auto simp: ledger_def hand_def shown_def)
  qed (use q in \<open>intro exI [of _ p]; cases "j = i"; simp add: ledger_def hand_def shown_def\<close>)+
qed

section \<open>The invariant holds in every reachable state\<close>

definition traffic_inv :: "car list \<Rightarrow> world \<Rightarrow> bool" where
  "traffic_inv cs w \<longleftrightarrow> lanes_inv w \<and> paths_ok w \<and> lane_locks w \<and> quad_locks w \<and> ledgers cs w \<and>
     origins_ok w \<and> threads_ok w \<and> main_ok w \<and> end_ok cs w"

lemma launch_inv: "traffic_inv cs (launch (loaded cs))"
proof -
  have "lane_inv (lanes (launch (loaded cs)) i) A_Idle C_Idle" if "valid_direction i" for i
    using that fresh_lane_ok
    by (simp add: launch_def loaded_def lane_inv_def counts_ok_def ring_ok_def fresh_lane_def)
  moreover have "ledger cs (launch (loaded cs)) i []" if "valid_direction i" for i
    using that fresh_lane_ok
    by (simp add: launch_def loaded_def ledger_def hand_def shown_def crossings_def queued_def
        fresh_lane_def from_lane_def to_lane_def isection_def)
  moreover have "lock (lanes (loaded cs) j) = None" "quad (loaded cs) q = None" for j q
    by (simp_all add: loaded_def fresh_lane_def isection_def)
  ultimately show ?thesis
    by (auto simp: traffic_inv_def lanes_inv_def paths_ok_def path_ok_def lane_locks_def quad_locks_def
        holds_lane_def holds_quad_def ledgers_def main_ok_def end_ok_def threads_ok_def launch_def
        crossings_def origins_ok_def loaded_def fresh_lane_def isection_def split: thread.splits)
qed

text \<open>What the steps of the lane threads leave alone for the main thread.\<close>

definition pcs_kept :: "world \<Rightarrow> world \<Rightarrow> bool" where
  "pcs_kept w w' \<longleftrightarrow> main_at w' = main_at w \<and>
     (\<forall>j. (crs w' j = C_Idle \<longleftrightarrow> crs w j = C_Idle) \<and> (arr w' j = A_Idle \<longleftrightarrow> arr w j = A_Idle) \<and>
       (crs w j = C_Done \<longrightarrow> crs w' j = C_Done) \<and> (arr w j = A_Done \<longrightarrow> arr w' j = A_Done))"

lemma main_ok_kept: "pcs_kept w w' \<Longrightarrow> main_ok w \<Longrightarrow> main_ok w'"
  by (cases "main_at w") (simp_all add: main_ok_def pcs_kept_def)

lemma threads_ok_kept: "pcs_kept w w' \<Longrightarrow> threads_ok w \<Longrightarrow> threads_ok w'"
  by (simp add: threads_ok_def pcs_kept_def)

lemma pcs_kept_arrive:
  assumes "car_arrive i w = Some w'" "lane_inv (lanes w i) (arr w i) (crs w i)"
  shows "pcs_kept w w'"
  using assms by (cases rule: car_arrive_cases) (auto simp: pcs_kept_def)

lemma pcs_kept_cross:
  assumes "car_cross i w = Some w'" "lane_inv (lanes w i) (arr w i) (crs w i)" "path_ok (crs w i)"
  shows "pcs_kept w w'"
  using assms by (cases rule: car_cross_cases) (auto simp: pcs_kept_def)

lemma end_ok_arrive:
  assumes "car_arrive i w = Some w'" "lane_inv (lanes w i) (arr w i) (crs w i)"
    and "result w = None" "end_ok cs w"
  shows "end_ok cs w'"
  using assms(1,2) by (cases rule: car_arrive_cases) (use assms(3,4) in \<open>simp_all add: end_ok_def\<close>)

lemma end_ok_cross:
  assumes step: "car_cross i w = Some w'" and inv: "lane_inv (lanes w i) (arr w i) (crs w i)"
    and p: "path_ok (crs w i)" and l: "ledgers cs w" and i: "valid_direction i"
    and e: "result w = None" "end_ok cs w"
  shows "end_ok cs w'"
  using step inv p
proof (cases rule: car_cross_cases)
  case (invalid c)
  with ledger_hand [OF l i, of c] i have "c \<in> set cs" "\<not> valid_direction (out_dir c)"
    by (auto simp: hand_def)
  with invalid show ?thesis
    by (auto simp: end_ok_def)
next
  case (garbage c r)
  with ledger_hand [OF l i, of c] have "c \<in> set cs"
    by (auto simp: hand_def)
  with garbage show ?thesis
    by (auto simp: end_ok_def)
qed (use e in \<open>simp_all add: end_ok_def\<close>)

lemma origins_arrive:
  assumes "car_arrive i w = Some w'" "lane_inv (lanes w i) (arr w i) (crs w i)" "origins_ok w"
  shows "origins_ok w'"
  using assms(1,2) by (cases rule: car_arrive_cases) (use assms(3) in \<open>auto simp: origins_ok_def\<close>)

lemma origins_cross:
  assumes step: "car_cross i w = Some w'" and inv: "lane_inv (lanes w i) (arr w i) (crs w i)"
    and p: "path_ok (crs w i)" and l: "ledgers cs w" and i: "valid_direction i" and o: "origins_ok w"
  shows "origins_ok w'"
  using step inv p
proof (cases rule: car_cross_cases)
  case (push c r)
  with ledger_hand(1) [OF l i, of c] i have "valid_direction (in_dir c)"
    by (auto simp: hand_def)
  with push o show ?thesis
    by (auto simp: origins_ok_def)
qed (use o in \<open>auto simp: origins_ok_def\<close>)

lemma inv_arrive:
  assumes step: "car_arrive i w = Some w'" and run: "result w = None" and inv: "traffic_inv cs w"
  shows "traffic_inv cs w'"
proof -
  have i: "valid_direction i" and l: "lane_inv (lanes w i) (arr w i) (crs w i)"
    using inv moving_valid(1) [OF _ step] by (auto simp: traffic_inv_def lanes_inv_def)
  from inv show ?thesis
    unfolding traffic_inv_def ledgers_def
    using lane_inv_arrive [OF step] paths_arrive [OF step l] lane_locks_arrive [OF step l]
      quad_locks_arrive [OF step l] ledger_arrive [OF step l] pcs_kept_arrive [OF step l]
      main_ok_kept threads_ok_kept end_ok_arrive [OF step l run] origins_arrive [OF step l]
    by metis
qed

lemma inv_cross:
  assumes step: "car_cross i w = Some w'" and run: "result w = None" and inv: "traffic_inv cs w"
  shows "traffic_inv cs w'"
proof -
  have i: "valid_direction i" and l: "lane_inv (lanes w i) (arr w i) (crs w i)"
    and p: "path_ok (crs w i)" "ledgers cs w"
    using inv moving_valid(2) [OF _ step] by (auto simp: traffic_inv_def lanes_inv_def paths_ok_def)
  have "ledgers cs w'"
    using ledger_cross [OF step l p i] by (simp add: ledgers_def)
  with inv show ?thesis
    unfolding traffic_inv_def
    using lane_inv_cross [OF step] paths_cross [OF step l] lane_locks_cross [OF step l p(1)]
      quad_locks_cross [OF step l p(1)] pcs_kept_cross [OF step l p(1)]
      main_ok_kept threads_ok_kept end_ok_cross [OF step l p i run] origins_cross [OF step l p i]
    by metis
qed

text \<open>Steps that leave lanes, quadrants and output alone.\<close>

lemma same_data_inv:
  assumes inv: "traffic_inv cs w"
    and same: "lanes w' = lanes w" "quad w' = quad w" "crossings (stdout w') = crossings (stdout w)"
    and pcs: "\<And>i. hand (crs w' i) = hand (crs w i) \<and> shown (crs w' i) = shown (crs w i) \<and>
      (path_ok (crs w i) \<longrightarrow> path_ok (crs w' i)) \<and> holds_quad (crs w' i) = holds_quad (crs w i)"
      "\<And>i. lane_inv (lanes w i) (arr w i) (crs w i) \<Longrightarrow> lane_inv (lanes w i) (arr w' i) (crs w' i)"
      "holds_lane w' = holds_lane w"
    and ends: "threads_ok w'" "main_ok w'" "end_ok cs w'"
  shows "traffic_inv cs w'"
  using inv pcs(1,2) ends
  by (simp add: traffic_inv_def lanes_inv_def paths_ok_def lane_locks_def quad_locks_def ledgers_def
      ledger_def origins_ok_def same pcs(3))

lemma inv_wake_arrive:
  assumes "arr w i = A_Wait" "result w = None" "traffic_inv cs w"
  shows "traffic_inv cs (goto_arr i A_Relock w)"
proof -
  have "pcs_kept w (goto_arr i A_Relock w)"
    using assms(1) by (auto simp: pcs_kept_def goto_arr_def)
  with assms(3) have "main_ok (goto_arr i A_Relock w)" "threads_ok (goto_arr i A_Relock w)"
    using main_ok_kept threads_ok_kept by (auto simp: traffic_inv_def)
  then show ?thesis
    by (intro same_data_inv [OF assms(3)])
      (use assms in \<open>auto simp: goto_arr_def lane_inv_def holds_lane_def fun_eq_iff traffic_inv_def
         end_ok_def split: thread.splits\<close>)
qed

lemma inv_wake_cross:
  assumes "crs w i = C_Wait" "result w = None" "traffic_inv cs w"
  shows "traffic_inv cs (goto_crs i C_Relock w)"
proof -
  have "pcs_kept w (goto_crs i C_Relock w)"
    using assms(1) by (auto simp: pcs_kept_def goto_crs_def)
  with assms(3) have "main_ok (goto_crs i C_Relock w)" "threads_ok (goto_crs i C_Relock w)"
    using main_ok_kept threads_ok_kept by (auto simp: traffic_inv_def)
  then show ?thesis
    by (intro same_data_inv [OF assms(3)])
      (use assms in \<open>auto simp: goto_crs_def lane_inv_def holds_lane_def fun_eq_iff traffic_inv_def
         end_ok_def hand_def shown_def path_ok_def holds_quad_def split: thread.splits\<close>)
qed

lemma holds_lane_start_cross:
  "crs w k = C_Idle \<Longrightarrow> holds_lane (w\<lparr>crs := (crs w)(k := C_Lock), main_at := m\<rparr>) = holds_lane w"
  by (intro ext) (auto simp: holds_lane_def split: thread.splits)

lemma holds_lane_start_arrive:
  "arr w k = A_Idle \<Longrightarrow> holds_lane (w\<lparr>arr := (arr w)(k := A_Lock), main_at := m\<rparr>) = holds_lane w"
  by (intro ext) (auto simp: holds_lane_def split: thread.splits)

lemma holds_lane_pcs: "arr w' = arr w \<Longrightarrow> crs w' = crs w \<Longrightarrow> holds_lane w' = holds_lane w"
  by (intro ext) (simp add: holds_lane_def split: thread.splits)

lemma inv_main:
  assumes step: "main_step w = Some w'" and run: "result w = None" and inv: "traffic_inv cs w"
  shows "traffic_inv cs w'"
proof -
  have m: "main_ok w" and t: "threads_ok w" and e: "end_ok cs w"
    using inv by (auto simp: traffic_inv_def)
  show ?thesis
  proof (cases "main_at w")
    case (M_Create_Cross k)
    with m have k: "0 \<le> k" "k < 4" "crs w k = C_Idle"
      by (auto simp: main_ok_def)
    from M_Create_Cross step have w': "w' = (goto_crs k C_Lock w)\<lparr>main_at := M_Create_Arrive k\<rparr>"
      by (simp add: main_step_def)
    have idle: "crs w i = C_Idle \<longleftrightarrow> \<not> (0 \<le> i \<and> i < k)" "arr w i = A_Idle \<longleftrightarrow> \<not> (0 \<le> i \<and> i < k)" for i
      using m M_Create_Cross by (auto simp: main_ok_def)
    have idle': "crs w' i \<noteq> C_Idle \<longleftrightarrow> 0 \<le> i \<and> i \<le> k" "arr w' i \<noteq> A_Idle \<longleftrightarrow> 0 \<le> i \<and> i < k" for i
      using idle [of i] k(1,2) by (cases "i = k"; auto simp: w' goto_crs_def)+
    then have "main_ok w'"
      using k(1,2) by (simp add: main_ok_def) (simp add: w')
    moreover have "threads_ok w'"
      using idle' k(2) by (simp add: threads_ok_def valid_direction_iff)
    moreover have "end_ok cs w'"
      using e run by (simp add: w' end_ok_def goto_crs_def)
    ultimately show ?thesis
      by (intro same_data_inv [OF inv])
        (use k(3) in \<open>simp_all add: w' goto_crs_def lane_inv_def hand_def shown_def path_ok_def
           holds_quad_def [abs_def] holds_lane_start_cross\<close>)
  next
    case (M_Create_Arrive k)
    with m have k: "0 \<le> k" "k < 4" "arr w k = A_Idle"
      by (auto simp: main_ok_def)
    from M_Create_Arrive step have w': "w' = (goto_arr k A_Lock w)\<lparr>main_at :=
        if k + 1 < 4 then M_Create_Cross (k + 1) else M_Join_Cross 0\<rparr>"
      by (simp add: main_step_def)
    have idle: "crs w i = C_Idle \<longleftrightarrow> \<not> (0 \<le> i \<and> i \<le> k)" "arr w i = A_Idle \<longleftrightarrow> \<not> (0 \<le> i \<and> i < k)" for i
      using m M_Create_Arrive by (auto simp: main_ok_def)
    have idle': "crs w' i \<noteq> C_Idle \<longleftrightarrow> 0 \<le> i \<and> i < k + 1" "arr w' i \<noteq> A_Idle \<longleftrightarrow> 0 \<le> i \<and> i < k + 1" for i
      using idle [of i] k(1,2) by (cases "i = k"; auto simp: w' goto_arr_def)+
    have "main_ok w'"
    proof (cases "k + 1 < 4")
      case True
      with idle' k show ?thesis by (simp add: main_ok_def w' goto_arr_def)
    next
      case False
      with k have "k = 3" by simp
      with idle' show ?thesis by (simp add: main_ok_def w' goto_arr_def valid_direction_iff) linarith
    qed
    moreover have "threads_ok w'"
      using idle' k(2) by (simp add: threads_ok_def valid_direction_iff)
    moreover have "end_ok cs w'"
      using e run by (simp add: w' end_ok_def goto_arr_def)
    ultimately show ?thesis
      by (intro same_data_inv [OF inv])
        (use k(3) in \<open>simp_all add: w' goto_arr_def lane_inv_def hand_def shown_def path_ok_def
           holds_quad_def [abs_def] holds_lane_start_arrive\<close>)
  next
    case (M_Join_Cross k)
    with m have k: "0 \<le> k" "k < 4" "\<And>i. 0 \<le> i \<Longrightarrow> i < k \<Longrightarrow> crs w i = C_Done"
      by (auto simp: main_ok_def)
    from M_Join_Cross step have fin: "crs w k = C_Done" and w': "w' = w\<lparr>main_at :=
        if k + 1 < 4 then M_Join_Cross (k + 1) else M_Join_Arrive 0\<rparr>"
      by (auto simp: main_step_def split: if_splits)
    have "crs w i = C_Done" if "0 \<le> i" "i < k + 1" for i
      using k(3) [of i] fin that by (cases "i = k") auto
    with m M_Join_Cross k(1,2) have "main_ok w'"
      by (auto simp: w' main_ok_def valid_direction_iff)
    moreover have "threads_ok w'" "end_ok cs w'"
      using t e run by (auto simp: w' threads_ok_def end_ok_def)
    ultimately show ?thesis
      by (intro same_data_inv [OF inv]) (auto simp: w' intro: holds_lane_pcs)
  next
    case (M_Join_Arrive k)
    with m have k: "0 \<le> k" "k < 4" "\<And>i. 0 \<le> i \<Longrightarrow> i < k \<Longrightarrow> arr w i = A_Done"
      by (auto simp: main_ok_def)
    from M_Join_Arrive step have fin: "arr w k = A_Done" and w': "w' = w\<lparr>main_at :=
        if k + 1 < 4 then M_Join_Arrive (k + 1) else M_Verify\<rparr>"
      by (auto simp: main_step_def split: if_splits)
    have "arr w i = A_Done" if "0 \<le> i" "i < k + 1" for i
      using k(3) [of i] fin that by (cases "i = k") auto
    with m M_Join_Arrive k(1,2) have "main_ok w'"
      by (auto simp: w' main_ok_def valid_direction_iff)
    moreover have "threads_ok w'" "end_ok cs w'"
      using t e run by (auto simp: w' threads_ok_def end_ok_def)
    ultimately show ?thesis
      by (intro same_data_inv [OF inv]) (auto simp: w' intro: holds_lane_pcs)
  next
    case M_Verify
    with step have w': "w' = stop (Ok 0) (w\<lparr>stdout := stdout w @ verify w\<rparr>)"
      by (simp add: main_step_def)
    have "verify w' = verify w"
      by (simp add: verify_def w' stop_def)
    then have "end_ok cs w'"
      using e run M_Verify by (simp add: end_ok_def w' stop_def)
    moreover have "main_ok w'" "threads_ok w'"
      using m t M_Verify by (simp_all add: main_ok_def threads_ok_def w' stop_def)
    ultimately show ?thesis
      by (intro same_data_inv [OF inv]) (auto simp: w' stop_def intro: holds_lane_pcs)
  qed
qed

lemma moves_inv: "moves w w' \<Longrightarrow> traffic_inv cs w \<Longrightarrow> traffic_inv cs w'"
  by (elim movesE) (auto intro: inv_arrive inv_cross inv_main)

lemma traffic_reach_inv: "reach cs w \<Longrightarrow> traffic_inv cs w"
proof (induction rule: reach.induct)
  case start
  show ?case by (rule launch_inv)
next
  case (more w w')
  from more(2) more(3) show ?case
    by (elim stepsE) (auto intro: moves_inv inv_wake_arrive inv_wake_cross)
qed

end
