(* ===== verification/Crossroads.thy ===== *)
theory Crossroads
  imports TrafficInv "HOL-Library.Multiset"
begin

text \<open>
  What the threads of the intersection achieve: the mutexes exclude, the cars stay in order, every
  execution ends within a bound, and how it ends.
\<close>

section \<open>No deadlock\<close>

text \<open>Any state of a running process whose threads are all blocked would contradict the invariant.\<close>

lemma lane_lock_free:
  assumes inv: "traffic_inv cs w" and run: "result w = None" and stuck: "\<And>w'. \<not> moves w w'"
  shows "lock (lanes w j) = None"
proof (rule ccontr)
  assume "lock (lanes w j) \<noteq> None"
  then obtain t where t: "holds_lane w t j"
    using inv by (auto simp: traffic_inv_def lane_locks_def)
  show False
  proof (cases t)
    case (Cross i)
    with t have "car_cross i w \<noteq> None"
      by (auto simp: holds_lane_def car_cross_def)
    with stuck run show False
      by (auto intro: moves.cross)
  next
    case (Arrive i)
    with t have "car_arrive i w \<noteq> None"
      by (auto simp: holds_lane_def car_arrive_def)
    with stuck run show False
      by (auto intro: moves.arrive)
  qed
qed

lemma quad_free:
  assumes inv: "traffic_inv cs w" and run: "result w = None" and stuck: "\<And>w'. \<not> moves w w'"
  shows "quad w q = None"
proof -
  note free = lane_lock_free [OF assms]
  have cross: "car_cross i w = None" for i
    using stuck run by (metis moves.cross not_None_eq)
  have past: "crs w i \<noteq> C_Exit c r" "crs w i \<noteq> C_Push c r" "crs w i \<noteq> C_Unquad c r y" for i c r y
    using cross [of i] free [of "out_dir c"]
    by (auto simp: car_cross_def lock_lane_def split: if_splits)
  have path: "path_ok (crs w i)" for i
    using inv by (simp add: traffic_inv_def paths_ok_def)
  have owner: "quad w q = Some t \<Longrightarrow> \<exists>i. t = Cross i \<and> holds_quad (crs w i) q" for q t
    using inv by (simp add: traffic_inv_def quad_locks_def)
  have all: "\<exists>c r. crs w i = C_Quad c r 1 \<and> q = 2" if h: "holds_quad (crs w i) q" for i q
  proof (cases "crs w i")
    case (C_Quad c r x)
    with path [of i] have "x \<le> 2" by (simp add: path_ok_def)
    moreover from C_Quad cross [of i] have "x < 2"
      by (auto simp: car_cross_def split: if_splits)
    ultimately show ?thesis
      using h C_Quad by (cases "x = 1") (auto simp: holds_quad_def)
  qed (use h past in \<open>auto simp: holds_quad_def\<close>)
  have three: "quad w 3 = None"
    using owner [of 3] all by (cases "quad w 3") fastforce+
  show ?thesis
  proof (rule ccontr)
    assume "quad w q \<noteq> None"
    then obtain i c r where i: "crs w i = C_Quad c r 1"
      using owner all by blast
    with path [of i] have "compute_path (in_dir c) (out_dir c) = Ok r"
      by (simp add: path_ok_def)
    then have "r ! 1 = None \<or> r ! 1 = Some 3"
      using path_entries(3) by metis
    with cross [of i] i three show False
      by (auto simp: car_cross_def lock_quad_def)
  qed
qed

lemma progress:
  assumes inv: "traffic_inv cs w" and run: "result w = None"
  shows "\<exists>w'. moves w w'"
proof (rule ccontr)
  assume "\<nexists>w'. moves w w'"
  then have stuck: "\<And>w'. \<not> moves w w'" by blast
  note free = lane_lock_free [OF inv run stuck] and quads = quad_free [OF inv run stuck]
  have cross: "car_cross i w = None" and arrive: "car_arrive i w = None" and main: "main_step w = None" for i
    using stuck run by (metis moves.cross moves.arrive moves.main not_None_eq)+
  have path: "path_ok (crs w i)" for i
    using inv by (simp add: traffic_inv_def paths_ok_def)
  have arr: "arr w i = A_Idle \<or> arr w i = A_Wait \<or> arr w i = A_Done" for i
    using arrive [of i] free [of i]
    by (cases "arr w i") (auto simp: car_arrive_def lock_lane_def split: if_splits)
  have crs: "crs w i = C_Idle \<or> crs w i = C_Wait \<or> crs w i = C_Done" for i
  proof (cases "crs w i")
    case (C_Quad c r x)
    with path [of i] have r: "compute_path (in_dir c) (out_dir c) = Ok r" and "x \<le> 2"
      by (simp_all add: path_ok_def)
    then have "x = 0 \<or> x = 1 \<or> x = 2" by linarith
    moreover have "r ! 0 = Some 2" "r ! 1 = None \<or> r ! 1 = Some 3"
      using path_entries [OF r] by (auto split: if_splits)
    ultimately show ?thesis
      using cross [of i] C_Quad quads by (auto simp: car_cross_def lock_quad_def)
  next
    case (C_Path c)
    with cross [of i] show ?thesis
      by (auto simp: car_cross_def split: outcome.splits)
  qed (use cross [of i] free in \<open>auto simp: car_cross_def lock_lane_def split: if_splits\<close>)
  have lane: "crs w i = C_Done \<and> arr w i = A_Done"
    if v: "valid_direction i" and started: "crs w i \<noteq> C_Idle" "arr w i \<noteq> A_Idle" for i
  proof -
    have l: "lane_inv (lanes w i) (arr w i) (crs w i)"
      using inv v by (simp add: traffic_inv_def lanes_inv_def)
    have "LANE_LENGTH = 10" by (simp add: LANE_LENGTH_def)
    with l arr [of i] crs [of i] started lane_inv_counts(2,3) [OF l] show ?thesis
      by (auto simp: lane_inv_def)
  qed
  show False
  proof (cases "main_at w")
    case (M_Join_Cross k)
    with inv main lane [of k] show False
      by (auto simp: traffic_inv_def main_ok_def main_step_def valid_direction_iff split: if_splits)
  next
    case (M_Join_Arrive k)
    with inv main lane [of k] show False
      by (auto simp: traffic_inv_def main_ok_def main_step_def valid_direction_iff split: if_splits)
  qed (use main in \<open>auto simp: main_step_def\<close>)
qed

section \<open>Every execution ends\<close>

definition arrive_rank :: "arrive_pc \<Rightarrow> nat" where
  "arrive_rank pc = (case pc of A_Idle \<Rightarrow> 6 | A_Lock \<Rightarrow> 5 | A_Check \<Rightarrow> 4 | A_Relock \<Rightarrow> 3 | A_Full \<Rightarrow> 2
     | A_Wait \<Rightarrow> 1 | A_Done \<Rightarrow> 0)"

definition cross_rank :: "cross_pc \<Rightarrow> nat" where
  "cross_rank pc = (case pc of C_Idle \<Rightarrow> 30 | C_Print c \<Rightarrow> 27 | C_Path c \<Rightarrow> 26 | C_Quad c r x \<Rightarrow> 25 - x
     | C_Exit c r \<Rightarrow> 22 | C_Push c r \<Rightarrow> 21 | C_Unquad c r y \<Rightarrow> 20 - y | C_Lock \<Rightarrow> 13 | C_Check \<Rightarrow> 12
     | C_Relock \<Rightarrow> 11 | C_Empty \<Rightarrow> 10 | C_Wait \<Rightarrow> 9 | C_Done \<Rightarrow> 0)"

definition main_rank :: "main_pc \<Rightarrow> nat" where
  "main_rank pc = (case pc of M_Create_Cross k \<Rightarrow> nat (20 - 2 * k) | M_Create_Arrive k \<Rightarrow> nat (19 - 2 * k)
     | M_Join_Cross k \<Rightarrow> nat (12 - k) | M_Join_Arrive k \<Rightarrow> nat (8 - k) | M_Verify \<Rightarrow> 4)"

text \<open>
  A car pays 26 when it is put in the buffer and 20 when it leaves it, more than the steps its
  threads and the one it wakes can take until the next one.
\<close>

definition lane_work :: "world \<Rightarrow> direction \<Rightarrow> nat" where
  "lane_work w i = 26 * length (in_cars (lanes w i)) + 20 * nat (in_buf (lanes w i)) +
     arrive_rank (arr w i) + cross_rank (crs w i)"

definition work :: "world \<Rightarrow> nat" where
  "work w = (\<Sum>i \<in> {0..<4}. lane_work w i) + main_rank (main_at w) + (if result w = None then 1 else 0)"

lemmas work_simps = lane_work_def arrive_rank_def cross_rank_def

lemma work_less:
  assumes "valid_direction i" "lane_work w' i < lane_work w i" "\<And>j. j \<noteq> i \<Longrightarrow> lane_work w' j = lane_work w j"
    and "main_at w' = main_at w" "result w = None"
  shows "work w' < work w"
proof -
  have "(\<Sum>i \<in> {0..<4}. lane_work w' i) < (\<Sum>i \<in> {0..<4}. lane_work w i)"
  proof (rule sum_strict_mono_ex1)
    show "\<forall>j \<in> {0..<4}. lane_work w' j \<le> lane_work w j"
      using assms(2,3) by (metis less_imp_le order.refl)
    show "\<exists>j \<in> {0..<4}. lane_work w' j < lane_work w j"
      using assms(1,2) by (auto simp: valid_direction_iff intro: bexI [of _ i])
  qed simp
  with assms(4,5) show ?thesis by (simp add: work_def)
qed

lemma work_less_main:
  assumes "\<And>j. lane_work w' j \<le> lane_work w j" "main_rank (main_at w') < main_rank (main_at w)"
    and "result w = None" "result w' = None"
  shows "work w' < work w"
  using sum_mono [of "{0..<4}" "lane_work w'" "lane_work w"] assms by (simp add: work_def)

lemma work_arrive:
  assumes step: "car_arrive i w = Some w'" and run: "result w = None" and inv: "traffic_inv cs w"
  shows "work w' < work w"
proof -
  have i: "valid_direction i" and l: "lane_inv (lanes w i) (arr w i) (crs w i)"
    using inv moving_valid(1) [OF _ step] by (auto simp: traffic_inv_def lanes_inv_def)
  from step l show ?thesis
  proof (cases rule: car_arrive_cases)
    case (put c rest)
    have "nat (in_buf (lanes w i) + 1) = Suc (nat (in_buf (lanes w i)))"
      using lane_inv_counts(4) [OF l] by simp
    with put show ?thesis
      by (intro work_less [OF i]) (simp_all add: work_simps run split: cross_pc.splits)
  qed (intro work_less [OF i]; simp add: work_simps run)+
qed

lemma work_stop: "work (w\<lparr>result := Some r\<rparr>) < work w" if "result w = None"
  using that by (simp add: work_def lane_work_def)

lemma work_cross:
  assumes step: "car_cross i w = Some w'" and run: "result w = None" and inv: "traffic_inv cs w"
  shows "work w' < work w"
proof -
  have i: "valid_direction i" and l: "lane_inv (lanes w i) (arr w i) (crs w i)" and p: "path_ok (crs w i)"
    using inv moving_valid(2) [OF _ step] by (auto simp: traffic_inv_def lanes_inv_def paths_ok_def)
  from step l p show ?thesis
  proof (cases rule: car_cross_cases)
    case (take c)
    have "nat (in_buf (lanes w i)) = Suc (nat (in_buf (lanes w i) - 1))"
      using take(2) by simp
    with take show ?thesis
      by (intro work_less [OF i]) (simp_all add: work_simps run split: arrive_pc.splits)
  next
    case (exit c r)
    then show ?thesis
      by (intro work_less [OF i]) (auto simp add: work_simps run)
  next
    case (push c r)
    then show ?thesis
      by (intro work_less [OF i]) (auto simp add: work_simps run)
  next
    case (invalid c)
    then show ?thesis using work_stop [OF run] by simp
  next
    case (garbage c r)
    then show ?thesis using work_stop [OF run] by simp
  qed (intro work_less [OF i]; simp add: work_simps run)+
qed

lemma work_main:
  assumes step: "main_step w = Some w'" and run: "result w = None" and inv: "traffic_inv cs w"
  shows "work w' < work w"
proof -
  have m: "main_ok w" using inv by (simp add: traffic_inv_def)
  show ?thesis
  proof (cases "main_at w")
    case (M_Create_Cross k)
    with m have k: "0 \<le> k" "k < 4" "crs w k = C_Idle"
      by (auto simp: main_ok_def)
    from M_Create_Cross step have w': "w' = (goto_crs k C_Lock w)\<lparr>main_at := M_Create_Arrive k\<rparr>"
      by (simp add: main_step_def)
    show ?thesis
      by (rule work_less_main)
        (use k M_Create_Cross run in \<open>auto simp: w' goto_crs_def work_simps main_rank_def\<close>)
  next
    case (M_Create_Arrive k)
    with m have k: "0 \<le> k" "k < 4" "arr w k = A_Idle"
      by (auto simp: main_ok_def)
    from M_Create_Arrive step have w': "w' = (goto_arr k A_Lock w)\<lparr>main_at :=
        if k + 1 < 4 then M_Create_Cross (k + 1) else M_Join_Cross 0\<rparr>"
      by (simp add: main_step_def)
    show ?thesis
      by (rule work_less_main)
        (use k M_Create_Arrive run in \<open>auto simp: w' goto_arr_def work_simps main_rank_def\<close>)
  next
    case (M_Join_Cross k)
    with m have k: "0 \<le> k" "k < 4"
      by (auto simp: main_ok_def)
    from M_Join_Cross step have w': "w' = w\<lparr>main_at :=
        if k + 1 < 4 then M_Join_Cross (k + 1) else M_Join_Arrive 0\<rparr>"
      by (simp add: main_step_def split: if_splits)
    show ?thesis
      by (rule work_less_main) (use k M_Join_Cross run in \<open>auto simp: w' work_simps main_rank_def\<close>)
  next
    case (M_Join_Arrive k)
    with m have k: "0 \<le> k" "k < 4"
      by (auto simp: main_ok_def)
    from M_Join_Arrive step have w': "w' = w\<lparr>main_at :=
        if k + 1 < 4 then M_Join_Arrive (k + 1) else M_Verify\<rparr>"
      by (simp add: main_step_def split: if_splits)
    show ?thesis
      by (rule work_less_main) (use k M_Join_Arrive run in \<open>auto simp: w' work_simps main_rank_def\<close>)
  next
    case M_Verify
    with step have w': "w' = w\<lparr>stdout := stdout w @ verify w, result := Some (Ok 0)\<rparr>"
      by (simp add: main_step_def stop_def)
    show ?thesis
      using run by (simp add: w' work_def lane_work_def)
  qed
qed

lemma work_moves: "moves w w' \<Longrightarrow> traffic_inv cs w \<Longrightarrow> work w' < work w"
  by (elim movesE) (auto intro: work_arrive work_cross work_main)

lemma run_completes: "traffic_inv cs w \<Longrightarrow> \<exists>w'. moves\<^sup>*\<^sup>* w w' \<and> result w' \<noteq> None"
proof (induction "work w" arbitrary: w rule: less_induct)
  case less
  show ?case
  proof (cases "result w = None")
    case True
    then obtain u where u: "moves w u"
      using progress less.prems by blast
    with less.hyps [OF work_moves [OF u less.prems] moves_inv [OF u less.prems]] show ?thesis
      by (meson converse_rtranclp_into_rtranclp)
  qed auto
qed

lemma moves_reach: "moves\<^sup>*\<^sup>* (launch (loaded cs)) w \<Longrightarrow> reach cs w"
  by (induction rule: rtranclp_induct) (auto intro: reach.intros steps.intros)

lemma waiting_total: "(\<Sum>i \<in> {0..<4}. length (waiting cs i)) \<le> length cs"
proof (induction cs)
  case Nil
  then show ?case by (simp add: waiting_def)
next
  case (Cons c cs)
  have "length (waiting (c # cs) i) = length (waiting cs i) + (if i = in_dir c then 1 else 0)" for i
    by (simp add: waiting_def)
  then have "(\<Sum>i \<in> {0..<4}. length (waiting (c # cs) i)) =
      (\<Sum>i \<in> {0..<4}. length (waiting cs i)) + (\<Sum>i \<in> {0..<4::int}. if i = in_dir c then 1 else 0)"
    by (simp add: sum.distrib)
  with Cons show ?case
    by (simp add: sum.delta)
qed

lemma launch_work: "work (launch (loaded cs)) \<le> 26 * length cs + 165"
proof -
  have "(\<Sum>i \<in> {0..<4}. lane_work (launch (loaded cs)) i) = (\<Sum>i \<in> {0..<4}. 26 * length (waiting cs i) + 36)"
    by (intro sum.cong) (auto simp: lane_work_def launch_def loaded_def valid_direction_iff
      fresh_lane_def arrive_rank_def cross_rank_def)
  also have "\<dots> = 26 * (\<Sum>i \<in> {0..<4}. length (waiting cs i)) + 144"
    by (simp add: sum.distrib sum_distrib_left)
  finally show ?thesis
    using waiting_total [of cs] by (simp add: work_def) (simp add: launch_def main_rank_def)
qed

section \<open>The properties of the intersection\<close>

text \<open>
  C22: At every moment of every execution, whatever the interleaving and the spurious wakeups, the
  state satisfies the invariant of the program: for each lane the buffer is a well-formed ring of
  ten slots, \<open>inc\<close> counts the cars that have not left the buffer yet, \<open>passed\<close> counts \<open>out_cars\<close>,
  a thread that waits for room (for a car) does so only while the buffer is full (empty); each
  mutex is owned by exactly the thread whose program counter lies in its critical section; and
  every car of the schedule is in exactly one place.
\<close>

theorem traffic_invariant:
  assumes "reach cs w"
  shows "traffic_inv cs w"
  using assms by (rule traffic_reach_inv)

lemma traffic_invariant_witness:
  "let cs = [\<lparr>car_id = 1, in_dir = NORTH, out_dir = WEST\<rparr>] in traffic_inv cs (launch (loaded cs))"
  using traffic_invariant [OF reach.start] by (simp add: Let_def)

text \<open>
  C24: No two cars are in the intersection at once, although the locked quadrants are not those of
  the cars' paths: whatever the schedule, at most one crossing thread is between its last lock and
  its first unlock, and at most one thread is in a critical section of a lane.
\<close>

theorem crossing_exclusive:
  assumes "reach cs w"
  shows "(\<exists>i. {j. \<exists>c r. crs w j = C_Exit c r \<or> crs w j = C_Push c r} \<subseteq> {i}) \<and>
    (\<exists>t. {u. holds_lane w u k} \<subseteq> {t})"
proof
  have quads: "quad w 3 = Some t \<longleftrightarrow> (\<exists>i. t = Cross i \<and> holds_quad (crs w i) 3)"
    and lane: "lock (lanes w k) = Some t \<longleftrightarrow> holds_lane w t k" for t
    using traffic_reach_inv [OF assms] by (simp_all add: traffic_inv_def quad_locks_def lane_locks_def)
  have "quad w 3 = Some (Cross j)" if "crs w j = C_Exit c r \<or> crs w j = C_Push c r" for j c r
    using that by (auto simp: quads holds_quad_def)
  then have "(case quad w 3 of Some (Cross i) \<Rightarrow> i | _ \<Rightarrow> 0) = j"
    if "crs w j = C_Exit c r \<or> crs w j = C_Push c r" for j c r
    using that by fastforce
  then show "\<exists>i. {j. \<exists>c r. crs w j = C_Exit c r \<or> crs w j = C_Push c r} \<subseteq> {i}"
    by (intro exI [of _ "case quad w 3 of Some (Cross i) \<Rightarrow> i | _ \<Rightarrow> 0"]) blast
  from lane show "\<exists>t. {u. holds_lane w u k} \<subseteq> {t}"
    by (intro exI [of _ "the (lock (lanes w k))"]) (auto simp flip: lane)
qed

lemma crossing_exclusive_witness:
  "let w = launch (loaded [\<lparr>car_id = 1, in_dir = NORTH, out_dir = WEST\<rparr>]) in
   (\<exists>i. {j. \<exists>c r. crs w j = C_Exit c r \<or> crs w j = C_Push c r} \<subseteq> {i}) \<and>
   (\<exists>t. {u. holds_lane w u WEST} \<subseteq> {t})"
  unfolding Let_def by (rule crossing_exclusive [OF reach.start])

text \<open>
  Executions with \<open>m\<close> steps of the code and \<open>k\<close> spurious wakeups; they lead to exactly the states of
  \<open>reach\<close>.
\<close>

inductive wakes :: "world \<Rightarrow> world \<Rightarrow> bool" where
  arrive: "result w = None \<Longrightarrow> arr w i = A_Wait \<Longrightarrow> wakes w (goto_arr i A_Relock w)"
| cross: "result w = None \<Longrightarrow> crs w i = C_Wait \<Longrightarrow> wakes w (goto_crs i C_Relock w)"

inductive execution :: "world \<Rightarrow> nat \<Rightarrow> nat \<Rightarrow> world \<Rightarrow> bool" for s where
  none: "execution s 0 0 s"
| move: "execution s m k w \<Longrightarrow> moves w w' \<Longrightarrow> execution s (Suc m) k w'"
| wake: "execution s m k w \<Longrightarrow> wakes w w' \<Longrightarrow> execution s m (Suc k) w'"

lemma steps_split: "steps w w' \<longleftrightarrow> moves w w' \<or> wakes w w'"
  by (auto elim!: stepsE wakes.cases intro: steps.intros wakes.intros)

lemma reach_execution: "reach cs w \<longleftrightarrow> (\<exists>m k. execution (launch (loaded cs)) m k w)"
proof
  show "reach cs w \<Longrightarrow> \<exists>m k. execution (launch (loaded cs)) m k w"
    by (induction rule: reach.induct) (auto simp: steps_split intro: execution.intros)
  show "\<exists>m k. execution (launch (loaded cs)) m k w \<Longrightarrow> reach cs w"
  proof (elim exE)
    fix m k assume "execution (launch (loaded cs)) m k w"
    then show "reach cs w"
      by (induction rule: execution.induct) (auto simp: steps_split intro: reach.intros)
  qed
qed

text \<open>A spurious wakeup sends one thread back by two steps.\<close>

lemma work_goto:
  "lane_work w' i \<le> lane_work w i + 2 \<Longrightarrow> (\<And>j. j \<noteq> i \<Longrightarrow> lane_work w' j = lane_work w j) \<Longrightarrow> main_at w' = main_at w \<Longrightarrow>
     result w' = result w \<Longrightarrow> work w' \<le> work w + 2"
proof -
  assume lane: "lane_work w' i \<le> lane_work w i + 2" and other: "\<And>j. j \<noteq> i \<Longrightarrow> lane_work w' j = lane_work w j"
    and same: "main_at w' = main_at w" "result w' = result w"
  have "(\<Sum>j \<in> {0..<4}. lane_work w' j) \<le> (\<Sum>j \<in> {0..<4}. lane_work w j + (if j = i then 2 else 0))"
    using lane other by (intro sum_mono) auto
  also have "\<dots> = (\<Sum>j \<in> {0..<4}. lane_work w j) + (\<Sum>j \<in> {0..<4}. if j = i then 2 else 0)"
    by (rule sum.distrib)
  also have "(\<Sum>j \<in> {0..<4}. if j = i then 2 else 0) \<le> (2 :: nat)"
    by (simp add: sum.delta)
  finally show "work w' \<le> work w + 2"
    using same by (simp add: work_def)
qed

lemma work_wakes:
  assumes "wakes w w'"
  shows "work w' \<le> work w + 2"
  using assms
proof cases
  case (arrive i)
  then show ?thesis
    by (intro work_goto [where i = i]) (auto simp: goto_arr_def work_simps)
next
  case (cross i)
  then show ?thesis
    by (intro work_goto [where i = i]) (auto simp: goto_crs_def work_simps)
qed

lemma execution_bounded:
  assumes "execution (launch (loaded cs)) m k w"
  shows "m + work w \<le> work (launch (loaded cs)) + 2 * k"
  using assms
proof (induction rule: execution.induct)
  case (move m k w w')
  have "reach cs w" using move.hyps(1) reach_execution by blast
  then have "work w' < work w"
    using work_moves [OF move.hyps(2)] traffic_reach_inv by blast
  with move.IH show ?case by linarith
next
  case (wake m k w w')
  have "2 * Suc k = 2 * k + 2" by simp
  with wake.IH work_wakes [OF wake.hyps(2)] show ?case by linarith
qed simp

text \<open>
  C21: There is neither deadlock nor endless running.  In every reachable state, whatever the
  interleaving and the spurious wakeups before it, some thread can make a step of the code unless
  the process has ended; and an execution on a schedule of n cars with k spurious wakeups makes at
  most 26 n + 165 + 2 k steps of the code.
\<close>

theorem every_run_ends:
  "(\<forall>w. reach cs w \<longrightarrow> ((\<exists>w'. moves w w') \<longleftrightarrow> result w = None) \<and> (\<exists>m k. execution (launch (loaded cs)) m k w)) \<and>
   (\<forall>m k w. execution (launch (loaded cs)) m k w \<longrightarrow> m \<le> 26 * length cs + 165 + 2 * k)"
proof (intro conjI allI impI)
  fix w assume w: "reach cs w"
  have "\<not> moves w w'" if "result w \<noteq> None" for w'
    using that by (auto elim: movesE)
  then show "(\<exists>w'. moves w w') \<longleftrightarrow> result w = None"
    using progress [OF traffic_reach_inv [OF w]] by blast
  show "\<exists>m k. execution (launch (loaded cs)) m k w"
    using w reach_execution by blast
next
  fix m k w assume "execution (launch (loaded cs)) m k w"
  then show "m \<le> 26 * length cs + 165 + 2 * k"
    using execution_bounded launch_work [of cs] by fastforce
qed

lemma every_run_ends_witness:
  "\<exists>w'. moves (launch (loaded [\<lparr>car_id = 1, in_dir = NORTH, out_dir = WEST\<rparr>])) w'"
  using every_run_ends [of "[\<lparr>car_id = 1, in_dir = NORTH, out_dir = WEST\<rparr>]"] reach.start
  by (simp add: launch_def)

lemma mset_from_lanes:
  "\<forall>c \<in> set xs. valid_direction (in_dir c) \<Longrightarrow> mset xs = (\<Sum>i \<in> {0..<4}. mset (from_lane i xs))"
proof (induction xs)
  case Nil
  then show ?case by (simp add: from_lane_def)
next
  case (Cons c xs)
  have "mset (from_lane i (c # xs)) = (if i = in_dir c then {#c#} else {#}) + mset (from_lane i xs)" for i
    by (simp add: from_lane_def)
  with Cons show ?case
    by (simp add: sum.distrib valid_direction_iff)
qed

lemma from_to_lane: "to_lane d (waiting cs i) = rev (from_lane i (to_lane d cs))"
  by (simp add: to_lane_def waiting_def from_lane_def rev_filter conj_commute)

lemma run_ok_ledger:
  assumes "reach cs w" "result w = Some (Ok 0)" "valid_direction i"
  shows "ledger cs w i (waiting cs i)" "in_cars (lanes w i) = []" "crs w i = C_Done"
    "in_buf (lanes w i) = 0" "counts_ok (lanes w i)"
proof -
  have inv: "traffic_inv cs w"
    by (rule traffic_reach_inv [OF assms(1)])
  then have pcs: "crs w i = C_Done" "arr w i = A_Done" and l: "lane_inv (lanes w i) (arr w i) (crs w i)"
    using assms(2,3) by (auto simp: traffic_inv_def end_ok_def main_ok_def lanes_inv_def)
  from inv assms(3) obtain p where p: "ledger cs w i p"
    by (auto simp: traffic_inv_def ledgers_def)
  from l pcs lane_inv_counts(3) [OF l] show empty: "in_cars (lanes w i) = []" "in_buf (lanes w i) = 0"
    by (auto simp: lane_inv_def)
  with p pcs have "p = waiting cs i"
    by (simp add: ledger_def hand_def queued_def)
  with p show "ledger cs w i (waiting cs i)" by simp
  show "crs w i = C_Done" "counts_ok (lanes w i)"
    using pcs l by (simp_all add: lane_inv_def)
qed

text \<open>
  C23: When \<open>main\<close> returns, every car of the schedule is on the \<open>out_cars\<close> list of the lane of its
  outgoing direction, \<open>passed\<close> counts them, no lane holds a waiting car, \<open>out_cars\<close> lists the cars
  that share both directions in the order of the schedule file, and the cars of each lane were
  printed in the order in which they waited, last line of the file first.
\<close>

theorem cars_delivered:
  assumes "reach cs w" "result w = Some (Ok 0)" "\<forall>c \<in> set cs. valid_direction (in_dir c)"
    and "valid_direction d" "valid_direction i"
  shows "mset (out_cars (lanes w d)) = mset (to_lane d cs) \<and>
    passed (lanes w d) = int (length (to_lane d cs)) \<and>
    in_cars (lanes w d) = [] \<and> queued (lanes w d) = [] \<and> inc (lanes w d) = 0 \<and>
    from_lane i (out_cars (lanes w d)) = from_lane i (to_lane d cs) \<and>
    from_lane i (crossings (stdout w)) = waiting cs i"
proof -
  have same: "from_lane j (out_cars (lanes w d)) = from_lane j (to_lane d cs)"
    if "valid_direction j" for j
  proof -
    have "from_lane j (rev (out_cars (lanes w d))) = rev (from_lane j (to_lane d cs))"
      using run_ok_ledger(1) [OF assms(1,2) that] by (simp add: ledger_def from_to_lane)
    then show ?thesis
      by (simp add: from_lane_def rev_filter flip: rev_filter)
  qed
  have "\<forall>c \<in> set (out_cars (lanes w d)). valid_direction (in_dir c)"
    using traffic_reach_inv [OF assms(1)] by (simp add: traffic_inv_def origins_ok_def)
  moreover have "\<forall>c \<in> set (to_lane d cs). valid_direction (in_dir c)"
    using assms(3) by (simp add: to_lane_def)
  ultimately have m: "mset (out_cars (lanes w d)) = mset (to_lane d cs)"
    using mset_from_lanes same by (simp add: valid_direction_iff)
  note fin = run_ok_ledger [OF assms(1,2,4)]
  have "from_lane i (crossings (stdout w)) = waiting cs i"
    using run_ok_ledger(1,3) [OF assms(1,2,5)] by (simp add: ledger_def shown_def)
  then show ?thesis
    using fin m same [OF assms(5)] mset_eq_length [OF m] by (simp add: counts_ok_def queued_def)
qed

text \<open>
  C25: How the program ends: with every outgoing direction in 0..3 and no car from the west to the
  south, it returns 0.  Otherwise it never returns normally: it exits with 1 at a car whose outgoing
  direction is invalid, or reads the route entry that was never written for a car from the west to
  the south.
\<close>

theorem run_outcome:
  assumes "reach cs w" "result w = Some r" "\<forall>c \<in> set cs. valid_direction (in_dir c)"
  shows "if \<forall>c \<in> set cs. passable c then r = Ok 0
    else r = Exit 1 \<and> (\<exists>c \<in> set cs. \<not> valid_direction (out_dir c)) \<or>
      r = Fault \<and> (\<exists>c \<in> set cs. reads_garbage (in_dir c) (out_dir c))"
proof -
  have "end_ok cs w"
    using traffic_reach_inv [OF assms(1)] by (simp add: traffic_inv_def)
  then have e: "r = Ok 0 \<or> r = Exit 1 \<and> (\<exists>c \<in> set cs. \<not> valid_direction (out_dir c)) \<or>
      r = Fault \<and> (\<exists>c \<in> set cs. reads_garbage (in_dir c) (out_dir c))"
    using assms(2) by (auto simp: end_ok_def)
  have "passable c" if "r = Ok 0" "c \<in> set cs" for c
  proof -
    have "valid_direction (in_dir c)" "c \<in> set (waiting cs (in_dir c))"
      using that(2) assms(3) by (simp_all add: waiting_def)
    with run_ok_ledger(1) [OF assms(1), of "in_dir c"] that assms(2) show ?thesis
      by (simp add: ledger_def)
  qed
  with e show ?thesis
    by (auto simp: passable_def)
qed

lemma some_run_ends: "\<exists>w. reach cs w \<and> result w \<noteq> None"
  using run_completes [OF launch_inv] moves_reach by blast

lemma run_outcome_witness:
  "let c = \<lparr>car_id = 1, in_dir = WEST, out_dir = EAST\<rparr> in
   (\<exists>w. reach [c] w \<and> result w = Some (Ok 0)) \<and>
   (\<exists>w. reach [c, c\<lparr>out_dir := 4\<rparr>] w \<and> result w = Some (Exit 1)) \<and>
   (\<exists>w. reach [c\<lparr>out_dir := SOUTH\<rparr>] w \<and> result w = Some Fault)"
proof -
  define c where "c = \<lparr>car_id = 1, in_dir = WEST, out_dir = EAST\<rparr>"
  have good: "result w = Some (Ok 0)" if "reach [c] w" "result w = Some r" for w r
    using run_outcome [OF that] that(2) by (simp add: c_def passable_def reads_garbage_def)
  have bad: "result w = Some (Exit 1)" if "reach [c, c\<lparr>out_dir := 4\<rparr>] w" "result w = Some r" for w r
    using run_outcome [OF that] that(2)
    by (simp add: c_def passable_def reads_garbage_def valid_direction_iff compass)
  have worse: "result w = Some Fault" if "reach [c\<lparr>out_dir := SOUTH\<rparr>] w" "result w = Some r" for w r
    using run_outcome [OF that] that(2)
    by (simp add: c_def passable_def reads_garbage_def)
  show ?thesis
    unfolding Let_def c_def [symmetric] using good bad worse some_run_ends by (metis option.exhaust)
qed

lemma good_run:
  "\<exists>w. reach [\<lparr>car_id = 1, in_dir = WEST, out_dir = EAST\<rparr>] w \<and> result w = Some (Ok 0)"
proof -
  let ?c = "\<lparr>car_id = 1, in_dir = WEST, out_dir = EAST\<rparr>"
  obtain w r where w: "reach [?c] w" "result w = Some r"
    using some_run_ends by blast
  from traffic_reach_inv [OF this(1)] this(2) have "r = Ok 0"
    by (auto simp: traffic_inv_def end_ok_def reads_garbage_def)
  with w show ?thesis by blast
qed

lemma cars_delivered_witness:
  "\<exists>w. reach [\<lparr>car_id = 1, in_dir = WEST, out_dir = EAST\<rparr>] w \<and>
     mset (out_cars (lanes w EAST)) = {#\<lparr>car_id = 1, in_dir = WEST, out_dir = EAST\<rparr>#} \<and>
     passed (lanes w EAST) = 1"
proof -
  obtain w where w: "reach [\<lparr>car_id = 1, in_dir = WEST, out_dir = EAST\<rparr>] w" "result w = Some (Ok 0)"
    using good_run by blast
  have "\<forall>c \<in> set [\<lparr>car_id = 1, in_dir = WEST, out_dir = EAST\<rparr>]. valid_direction (in_dir c)"
    by simp
  from cars_delivered [OF w this, of EAST WEST] w(1) show ?thesis
    by (auto simp: to_lane_def)
qed

end
