(* ===== verification/Disk.thy ===== *)
theory Disk
  imports Bytes
begin

text \<open>
  The disk image of Assignment 4: 128 blocks of 1024 bytes mapped into memory, addressed by their
  offset from \<open>disk\<close>.  Every load and store faults outside the mapping.  The structures of ext2.h
  are offsets: the super block in block 1, the group descriptor in block 2, the inode table, the
  two bitmaps and the directory entries where the descriptor and the inodes say.  The state also
  holds the time the kernel returns and what is left to read of the source file of \<open>ext2_cp\<close>.
\<close>

abbreviation (input) ENOENT :: int where "ENOENT \<equiv> 2"
abbreviation (input) ENOMEM :: int where "ENOMEM \<equiv> 12"
abbreviation (input) EEXIST :: int where "EEXIST \<equiv> 17"
abbreviation (input) EISDIR :: int where "EISDIR \<equiv> 21"

definition EXT2_BLOCK_SIZE :: nat where "EXT2_BLOCK_SIZE = 1024"
definition NUM_BLOCKS :: nat where "NUM_BLOCKS = 128"
definition EXT2_S_IFLNK :: "16 word" where "EXT2_S_IFLNK = 0xA000"
definition EXT2_S_IFREG :: "16 word" where "EXT2_S_IFREG = 0x8000"
definition EXT2_S_IFDIR :: "16 word" where "EXT2_S_IFDIR = 0x4000"
definition EXT2_ROOT_INO_IDX :: nat where "EXT2_ROOT_INO_IDX = 1"
definition EXT2_NAME_LEN :: nat where "EXT2_NAME_LEN = 255"
definition EXT2_FT_UNKNOWN :: byte where "EXT2_FT_UNKNOWN = 0"
definition EXT2_FT_REG_FILE :: byte where "EXT2_FT_REG_FILE = 1"
definition EXT2_FT_DIR :: byte where "EXT2_FT_DIR = 2"
definition EXT2_FT_SYMLINK :: byte where "EXT2_FT_SYMLINK = 7"

lemmas ext2_consts = EXT2_BLOCK_SIZE_def NUM_BLOCKS_def EXT2_S_IFLNK_def EXT2_S_IFREG_def
  EXT2_S_IFDIR_def EXT2_ROOT_INO_IDX_def EXT2_NAME_LEN_def EXT2_FT_UNKNOWN_def
  EXT2_FT_REG_FILE_def EXT2_FT_DIR_def EXT2_FT_SYMLINK_def

record ext2 =
  disk :: memory
  now :: "32 word"
  src :: "byte list"

section \<open>Loads and stores\<close>

definition disk_size :: nat where
  "disk_size = NUM_BLOCKS * EXT2_BLOCK_SIZE"

definition ld8 :: "nat \<Rightarrow> (ext2, byte) prog" where
  "ld8 a = thn (need (a < disk_size)) (peek (\<lambda>s. disk s a))"

definition ld16 :: "nat \<Rightarrow> (ext2, 16 word) prog" where
  "ld16 a = thn (need (a + 2 \<le> disk_size)) (peek (\<lambda>s. get_le 2 (disk s) a))"

definition ld32 :: "nat \<Rightarrow> (ext2, 32 word) prog" where
  "ld32 a = thn (need (a + 4 \<le> disk_size)) (peek (\<lambda>s. get_le 4 (disk s) a))"

definition st8 :: "nat \<Rightarrow> byte \<Rightarrow> (ext2, unit) prog" where
  "st8 a w = thn (need (a < disk_size)) (upd (\<lambda>s. s\<lparr>disk := (disk s)(a := w)\<rparr>))"

definition st16 :: "nat \<Rightarrow> 16 word \<Rightarrow> (ext2, unit) prog" where
  "st16 a w = thn (need (a + 2 \<le> disk_size)) (upd (\<lambda>s. s\<lparr>disk := put_le 2 a w (disk s)\<rparr>))"

definition st32 :: "nat \<Rightarrow> 32 word \<Rightarrow> (ext2, unit) prog" where
  "st32 a w = thn (need (a + 4 \<le> disk_size)) (upd (\<lambda>s. s\<lparr>disk := put_le 4 a w (disk s)\<rparr>))"

text \<open>\<open>memcpy\<close> and \<open>memset\<close> to the disk.\<close>

definition st_bytes :: "nat \<Rightarrow> byte list \<Rightarrow> (ext2, unit) prog" where
  "st_bytes a bs = thn (need (a + length bs \<le> disk_size)) (upd (\<lambda>s. s\<lparr>disk := put_bytes a bs (disk s)\<rparr>))"

text \<open>Read-modify-write of a field, as in \<open>x->field--\<close>.\<close>

definition rmw16 :: "nat \<Rightarrow> (16 word \<Rightarrow> 16 word) \<Rightarrow> (ext2, unit) prog" where
  "rmw16 a f = bnd (ld16 a) (\<lambda>w. st16 a (f w))"

definition rmw32 :: "nat \<Rightarrow> (32 word \<Rightarrow> 32 word) \<Rightarrow> (ext2, unit) prog" where
  "rmw32 a f = bnd (ld32 a) (\<lambda>w. st32 a (f w))"

lemma ld_run [prog]:
  "ld8 a s = (if a < disk_size then (Ok (disk s a), s) else (Fault, s))"
  "ld16 a s = (if a + 2 \<le> disk_size then (Ok (get_le 2 (disk s) a), s) else (Fault, s))"
  "ld32 a s = (if a + 4 \<le> disk_size then (Ok (get_le 4 (disk s) a), s) else (Fault, s))"
  by (simp_all add: ld8_def ld16_def ld32_def prog)

lemma st_run [prog]:
  "st8 a b s = (if a < disk_size then (Ok (), s\<lparr>disk := (disk s)(a := b)\<rparr>) else (Fault, s))"
  "st16 a w s = (if a + 2 \<le> disk_size then (Ok (), s\<lparr>disk := put_le 2 a w (disk s)\<rparr>) else (Fault, s))"
  "st32 a v s = (if a + 4 \<le> disk_size then (Ok (), s\<lparr>disk := put_le 4 a v (disk s)\<rparr>) else (Fault, s))"
  "st_bytes a bs s = (if a + length bs \<le> disk_size then (Ok (), s\<lparr>disk := put_bytes a bs (disk s)\<rparr>)
     else (Fault, s))"
  by (simp_all add: st8_def st16_def st32_def st_bytes_def prog)

lemma rmw_run [prog]:
  "rmw16 a f s = (if a + 2 \<le> disk_size
     then (Ok (), s\<lparr>disk := put_le 2 a (f (get_le 2 (disk s) a)) (disk s)\<rparr>) else (Fault, s))"
  "rmw32 a g s = (if a + 4 \<le> disk_size
     then (Ok (), s\<lparr>disk := put_le 4 a (g (get_le 4 (disk s) a)) (disk s)\<rparr>) else (Fault, s))"
  by (simp_all add: rmw16_def rmw32_def bnd_def prog)

text \<open>The same behind a continuation.\<close>

lemma bnd_ld [prog]:
  "bnd (ld8 a) f s = (if a < disk_size then f (disk s a) s else (Fault, s))"
  "bnd (ld16 a) g s = (if a + 2 \<le> disk_size then g (get_le 2 (disk s) a) s else (Fault, s))"
  "bnd (ld32 a) h s = (if a + 4 \<le> disk_size then h (get_le 4 (disk s) a) s else (Fault, s))"
  by (simp_all add: bnd_def prog)

lemma bnd_st [prog]:
  "bnd (st8 a b) k s = (if a < disk_size then k () (s\<lparr>disk := (disk s)(a := b)\<rparr>) else (Fault, s))"
  "bnd (st16 a w) k s = (if a + 2 \<le> disk_size then k () (s\<lparr>disk := put_le 2 a w (disk s)\<rparr>) else (Fault, s))"
  "bnd (st32 a v) k s = (if a + 4 \<le> disk_size then k () (s\<lparr>disk := put_le 4 a v (disk s)\<rparr>) else (Fault, s))"
  "bnd (st_bytes a bs) k s = (if a + length bs \<le> disk_size
     then k () (s\<lparr>disk := put_bytes a bs (disk s)\<rparr>) else (Fault, s))"
  "bnd (rmw16 a f) k s = (if a + 2 \<le> disk_size
     then k () (s\<lparr>disk := put_le 2 a (f (get_le 2 (disk s) a)) (disk s)\<rparr>) else (Fault, s))"
  "bnd (rmw32 a g) k s = (if a + 4 \<le> disk_size
     then k () (s\<lparr>disk := put_le 4 a (g (get_le 4 (disk s) a)) (disk s)\<rparr>) else (Fault, s))"
  by (simp_all add: bnd_def prog)

section \<open>Structures on the disk\<close>

text \<open>\<open>BLOCK_START\<close>: the product is one of unsigned 32-bit integers.\<close>

definition block_start :: "32 word \<Rightarrow> nat" where
  "block_start n = unat (n * of_nat EXT2_BLOCK_SIZE)"

definition block_end :: "nat \<Rightarrow> nat" where
  "block_end p = p + EXT2_BLOCK_SIZE"

definition INDEX :: "32 word \<Rightarrow> 32 word" where
  "INDEX n = n - 1"

definition super_block :: nat where
  "super_block = EXT2_BLOCK_SIZE"

definition s_inodes_count :: nat where "s_inodes_count = super_block"
definition s_blocks_count :: nat where "s_blocks_count = super_block + 4"
definition s_free_blocks_count :: nat where "s_free_blocks_count = super_block + 12"
definition s_free_inodes_count :: nat where "s_free_inodes_count = super_block + 16"

definition get_group_desc :: nat where
  "get_group_desc = block_start 2"

definition bg_block_bitmap :: nat where "bg_block_bitmap = get_group_desc"
definition bg_inode_bitmap :: nat where "bg_inode_bitmap = get_group_desc + 4"
definition bg_inode_table :: nat where "bg_inode_table = get_group_desc + 8"
definition bg_free_blocks_count :: nat where "bg_free_blocks_count = get_group_desc + 12"
definition bg_free_inodes_count :: nat where "bg_free_inodes_count = get_group_desc + 14"
definition bg_used_dirs_count :: nat where "bg_used_dirs_count = get_group_desc + 16"

lemma get_group_desc [simp]: "get_group_desc = 2048"
  by (simp add: get_group_desc_def block_start_def EXT2_BLOCK_SIZE_def)

lemma super_block [simp]: "super_block = 1024"
  by (simp add: super_block_def EXT2_BLOCK_SIZE_def)

lemma disk_size [simp]: "disk_size = 131072"
  by (simp add: disk_size_def ext2_consts)

lemmas ext2_fields = s_inodes_count_def s_blocks_count_def s_free_blocks_count_def
  s_free_inodes_count_def bg_block_bitmap_def bg_inode_bitmap_def bg_inode_table_def
  bg_free_blocks_count_def bg_free_inodes_count_def bg_used_dirs_count_def

definition get_inode_table :: "(ext2, nat) prog" where
  "get_inode_table = bnd (ld32 bg_inode_table) (\<lambda>n. ret (block_start n))"

definition get_block_bitmap :: "(ext2, nat) prog" where
  "get_block_bitmap = bnd (ld32 bg_block_bitmap) (\<lambda>n. ret (block_start n))"

definition get_inode_bitmap :: "(ext2, nat) prog" where
  "get_inode_bitmap = bnd (ld32 bg_inode_bitmap) (\<lambda>n. ret (block_start n))"

text \<open>The counts are returned as \<open>int\<close>.\<close>

definition get_blocks_count :: "(ext2, int) prog" where
  "get_blocks_count = bnd (ld32 s_blocks_count) (\<lambda>n. ret (sint n))"

definition get_inodes_count :: "(ext2, int) prog" where
  "get_inodes_count = bnd (ld32 s_inodes_count) (\<lambda>n. ret (sint n))"

definition get_timestamp :: "(ext2, 32 word) prog" where
  "get_timestamp = bnd (peek now) (\<lambda>t. if (ucast t :: 64 word) = - 1 then exitp 1 else ret t)"

text \<open>\<open>get_inode_table() + INDEX(n)\<close>; \<open>struct ext2_inode\<close> has 128 bytes.\<close>

definition inode_size :: nat where "inode_size = 128"

definition inode_at :: "nat \<Rightarrow> 32 word \<Rightarrow> nat" where
  "inode_at i_table n = i_table + unat (INDEX n) * inode_size"

definition get_inode :: "32 word \<Rightarrow> (ext2, nat) prog" where
  "get_inode n = bnd get_inode_table (\<lambda>t. ret (inode_at t n))"

definition i_mode :: "nat \<Rightarrow> nat" where "i_mode p = p"
definition i_size :: "nat \<Rightarrow> nat" where "i_size p = p + 4"
definition i_atime :: "nat \<Rightarrow> nat" where "i_atime p = p + 8"
definition i_ctime :: "nat \<Rightarrow> nat" where "i_ctime p = p + 12"
definition i_mtime :: "nat \<Rightarrow> nat" where "i_mtime p = p + 16"
definition i_dtime :: "nat \<Rightarrow> nat" where "i_dtime p = p + 20"
definition i_links_count :: "nat \<Rightarrow> nat" where "i_links_count p = p + 26"
definition i_blocks :: "nat \<Rightarrow> nat" where "i_blocks p = p + 28"
definition i_block :: "nat \<Rightarrow> nat \<Rightarrow> nat" where "i_block p n = p + 40 + 4 * n"

lemmas inode_fields = i_mode_def i_size_def i_atime_def i_ctime_def i_mtime_def i_dtime_def
  i_links_count_def i_blocks_def i_block_def

text \<open>\<open>struct ext2_dir_entry\<close>: eight bytes followed by the name.\<close>

definition dir_entry_size :: nat where "dir_entry_size = 8"
definition de_inode :: "nat \<Rightarrow> nat" where "de_inode p = p"
definition de_rec_len :: "nat \<Rightarrow> nat" where "de_rec_len p = p + 4"
definition de_name_len :: "nat \<Rightarrow> nat" where "de_name_len p = p + 6"
definition de_file_type :: "nat \<Rightarrow> nat" where "de_file_type p = p + 7"
definition de_name :: "nat \<Rightarrow> nat" where "de_name p = p + 8"

lemmas entry_fields = dir_entry_size_def de_inode_def de_rec_len_def de_name_len_def
  de_file_type_def de_name_def

text \<open>\<open>NUM_DISK_BLKS\<close>, in unsigned arithmetic.\<close>

definition NUM_DISK_BLKS :: "32 word \<Rightarrow> 32 word \<Rightarrow> 32 word" where
  "NUM_DISK_BLKS cur delta = (cur * 512 + delta) div 512"

section \<open>Loops over the blocks of an inode and the records of a block\<close>

text \<open>
  \<open>for (n = 0; n < 12 && inode->i_block[n] != 0; n++)\<close>: the body may return from the function
  (\<open>Some\<close>); otherwise the result is the \<open>n\<close> at which the loop ended.
\<close>

primrec block_loop :: "nat \<Rightarrow> (32 word \<Rightarrow> (ext2, 'a option) prog) \<Rightarrow> nat list \<Rightarrow> (ext2, nat + 'a) prog" where
  "block_loop p body [] = ret (Inl 12)"
| "block_loop p body (n # ns) = bnd (ld32 (i_block p n)) (\<lambda>b.
     if b = 0 then ret (Inl n)
     else bnd (body b) (\<lambda>r. case r of Some x \<Rightarrow> ret (Inr x) | None \<Rightarrow> block_loop p body ns))"

text \<open>
  A \<open>while\<close> loop over the positions of a block with a further local variable \<open>v\<close>: the body returns
  from the function (\<open>Inr\<close>) or gives the next position and \<open>v\<close>; the loop ends with \<open>v\<close>.  A body dereferences its position
  before anything else.  A loop that does not advance goes on for ever, since the bodies store
  nothing when they go on.
\<close>

function walk :: "(nat \<Rightarrow> bool) \<Rightarrow> (nat \<Rightarrow> 'v \<Rightarrow> (ext2, (nat \<times> 'v) + 'a) prog) \<Rightarrow> nat \<Rightarrow> 'v \<Rightarrow>
    (ext2, 'v + 'a) prog" where
  "walk go body pos v s =
    (if \<not> go pos then (Ok (Inl v), s)
     else if \<not> pos < disk_size then (Fault, s)
     else (case body pos v s of (r, t) \<Rightarrow>
       (case r of
          Ok (Inr x) \<Rightarrow> (Ok (Inr x), t)
        | Ok (Inl (pos', v')) \<Rightarrow> if pos' \<le> pos then (Diverge, t) else walk go body pos' v' t
        | Exit c \<Rightarrow> (Exit c, t)
        | Fault \<Rightarrow> (Fault, t)
        | Diverge \<Rightarrow> (Diverge, t))))"
  by pat_completeness auto
termination
  by (relation "measure (\<lambda>(go, body, pos, v, s). disk_size - pos)") auto

declare walk.simps [simp del]

text \<open>What a walk returned from the function, if it did.\<close>

definition returned :: "('v + 'a) \<Rightarrow> 'a option" where
  "returned r = (case r of Inl _ \<Rightarrow> None | Inr x \<Rightarrow> Some x)"

definition walk_block :: "(nat \<Rightarrow> nat \<Rightarrow> bool) \<Rightarrow> (nat \<Rightarrow> nat \<Rightarrow> 'v \<Rightarrow> (ext2, (nat \<times> 'v) + 'a) prog) \<Rightarrow>
    (nat \<Rightarrow> 'v) \<Rightarrow> 32 word \<Rightarrow> (ext2, 'a option) prog" where
  "walk_block go body v b =
    (let start = block_start b; blk_end = block_end start
     in bnd (walk (\<lambda>pos. go pos blk_end) (body blk_end) start (v start)) (\<lambda>r. ret (returned r)))"

end
