(* ===== verification/Resource.thy ===== *)
theory Resource
  imports Disk Allocator "HOL-Library.Signed_Division"
begin

text \<open>
  The bitmaps of the disk (Assignment4/ext2_utils.c): allocation of the first free resource, and
  setting, clearing and testing the bit of a resource number.  Resource numbers start at 1.  A
  bitmap is the address of its first byte.
\<close>

section \<open>Operations\<close>

definition IS_IN_USE :: "byte \<Rightarrow> nat \<Rightarrow> bool" where
  "IS_IN_USE b i \<longleftrightarrow> b AND push_bit i 1 \<noteq> 0"

text \<open>The inner loop over the bits of a byte, and the outer one over the bytes.\<close>

primrec first_low_bit :: "byte \<Rightarrow> nat list \<Rightarrow> nat option" where
  "first_low_bit b [] = None"
| "first_low_bit b (i # is) = (if \<not> IS_IN_USE b i then Some i else first_low_bit b is)"

primrec alloc_byte :: "nat \<Rightarrow> nat list \<Rightarrow> (ext2, 32 word) prog" where
  "alloc_byte bitmap [] = exitp ENOMEM"
| "alloc_byte bitmap (i # is) = bnd (ld8 (bitmap + i)) (\<lambda>b.
     case first_low_bit b [0..<8] of
       Some k \<Rightarrow> thn (st8 (bitmap + i) (b OR push_bit k 1)) (ret (of_nat (i * 8 + k + 1)))
     | None \<Rightarrow> alloc_byte bitmap is)"

definition allocate_resource :: "nat \<Rightarrow> int \<Rightarrow> (ext2, 32 word) prog" where
  "allocate_resource bitmap bitmap_size = alloc_byte bitmap [0..<nat bitmap_size]"

text \<open>
  The signed index of a resource number, its byte and its bit; C rounds the quotient towards zero,
  so a number below 1 gives a negative bit offset, for which \<open>1 << bit_offset\<close> is undefined, or an
  address before the bitmap.
\<close>

definition on_bit :: "nat \<Rightarrow> 32 word \<Rightarrow> (nat \<Rightarrow> nat \<Rightarrow> (ext2, 'a) prog) \<Rightarrow> (ext2, 'a) prog" where
  "on_bit bitmap n f =
    (let index = sint n - 1; byte_index = index sdiv 8; bit_offset = index smod 8
     in thn (need (0 \<le> int bitmap + byte_index \<and> 0 \<le> bit_offset))
            (f (nat (int bitmap + byte_index)) (nat bit_offset)))"

definition is_resource_in_use :: "nat \<Rightarrow> 32 word \<Rightarrow> (ext2, bool) prog" where
  "is_resource_in_use bitmap n = on_bit bitmap n (\<lambda>a i. bnd (ld8 a) (\<lambda>b. ret (IS_IN_USE b i)))"

definition set_resource_in_use :: "nat \<Rightarrow> 32 word \<Rightarrow> (ext2, unit) prog" where
  "set_resource_in_use bitmap n = on_bit bitmap n (\<lambda>a i. bnd (ld8 a) (\<lambda>b. st8 a (b OR push_bit i 1)))"

definition free_resource :: "nat \<Rightarrow> 32 word \<Rightarrow> (ext2, unit) prog" where
  "free_resource bitmap n = on_bit bitmap n (\<lambda>a i. bnd (ld8 a) (\<lambda>b. st8 a (b AND NOT (push_bit i 1))))"

section \<open>The bits of a bitmap\<close>

definition bit_used :: "memory \<Rightarrow> nat \<Rightarrow> nat \<Rightarrow> bool" where
  "bit_used m bitmap k \<longleftrightarrow> bit (m (bitmap + k div 8)) (k mod 8)"

text \<open>Writing one bit of a bitmap.\<close>

definition put_bit :: "nat \<Rightarrow> nat \<Rightarrow> bool \<Rightarrow> memory \<Rightarrow> memory" where
  "put_bit bitmap k v m = (let a = bitmap + k div 8 in
     m(a := (if v then m a OR push_bit (k mod 8) 1 else m a AND NOT (push_bit (k mod 8) 1))))"

lemma byte_bit_iff: "bit (push_bit i 1 :: byte) j \<longleftrightarrow> i = j \<and> i < 8"
  by (auto simp: bit_simps)

lemma in_use_bit: "i < 8 \<Longrightarrow> IS_IN_USE b i \<longleftrightarrow> bit b i"
proof -
  assume i: "i < 8"
  have "b AND push_bit i 1 = (if bit b i then push_bit i 1 else 0)"
    by (rule bit_word_eqI) (auto simp: bit_simps)
  moreover have "(push_bit i 1 :: byte) \<noteq> 0"
    using i byte_bit_iff [of i i] by auto
  ultimately show ?thesis by (simp add: IS_IN_USE_def)
qed

lemma bit_used_put: "bit_used (put_bit bitmap k v m) bitmap j \<longleftrightarrow> (if j = k then v else bit_used m bitmap j)"
proof (cases "j div 8 = k div 8")
  case True
  have "j mod 8 = k mod 8 \<longleftrightarrow> j = k"
    using True by (metis div_mod_decomp)
  with True show ?thesis
    by (auto simp: bit_used_def put_bit_def Let_def bit_simps)
next
  case False
  then show ?thesis by (auto simp: bit_used_def put_bit_def Let_def)
qed

lemma put_bit_outside: "a < bitmap \<or> bitmap + k div 8 < a \<Longrightarrow> put_bit bitmap k v m a = m a"
  by (auto simp: put_bit_def Let_def)

lemma put_bit_other: "a \<noteq> bitmap + k div 8 \<Longrightarrow> put_bit bitmap k v m a = m a"
  by (simp add: put_bit_def Let_def)

lemma put_bit_undo:
  assumes "bit_used m bitmap k \<longleftrightarrow> v"
  shows "put_bit bitmap k v (put_bit bitmap k u m) = m"
proof -
  have "(if v then w OR push_bit i 1 else w AND NOT (push_bit i 1)) = m a"
    if "w = (if u then m a OR push_bit i 1 else m a AND NOT (push_bit i 1))" "bit (m a) i \<longleftrightarrow> v" for w i a
    using that by (intro bit_word_eqI) (auto simp: bit_simps)
  with assms show ?thesis
    by (auto simp: put_bit_def Let_def bit_used_def)
qed

text \<open>Valid resource numbers.\<close>

definition slot_of :: "32 word \<Rightarrow> nat" where
  "slot_of n = nat (sint n - 1)"

lemma on_bit_run:
  assumes "1 \<le> sint n"
  shows "on_bit bitmap n f = f (bitmap + slot_of n div 8) (slot_of n mod 8)"
proof -
  have "sint n - 1 = int (slot_of n)"
    using assms by (simp add: slot_of_def)
  moreover have "int k sdiv 8 = int (k div 8)" "int k smod 8 = int (k mod 8)" for k
    by (cases k; simp add: signed_divide_int_def signed_modulo_int_def zdiv_int zmod_int)+
  ultimately show ?thesis
    by (simp add: on_bit_def Let_def fun_eq_iff prog nat_add_distrib)
qed

section \<open>Allocation takes the first free resource\<close>

lemma first_low_bit_find: "set is \<subseteq> {..<8} \<Longrightarrow> first_low_bit b is = find (\<lambda>i. \<not> bit b i) is"
  by (induction "is") (auto simp: in_use_bit)

text \<open>The first free slot of a bitmap of \<open>n\<close> bytes.\<close>

definition resource_take :: "nat \<Rightarrow> nat \<Rightarrow> memory \<Rightarrow> (nat \<times> memory) option" where
  "resource_take bitmap n m = (case find (\<lambda>k. \<not> bit_used m bitmap k) [0..<8 * n] of
     None \<Rightarrow> None | Some k \<Rightarrow> Some (k, put_bit bitmap k True m))"

lemma find_append:
  "find P (xs @ ys) = (case find P xs of None \<Rightarrow> find P ys | Some x \<Rightarrow> Some x)"
  by (induction xs) auto

lemma find_skip:
  assumes "\<forall>k < j. bit_used m bitmap k" "j \<le> n"
  shows "find (\<lambda>k. \<not> bit_used m bitmap k) [0..<n] = find (\<lambda>k. \<not> bit_used m bitmap k) [j..<n]"
proof -
  have "[0..<n] = [0..<j] @ [j..<n]"
    using assms(2) upt_add_eq_append [of 0 j "n - j"] by simp
  moreover have "find (\<lambda>k. \<not> bit_used m bitmap k) [0..<j] = None"
    using assms(1) by (auto simp: find_None_iff)
  ultimately show ?thesis
    by (metis find_append option.simps(4))
qed

lemma find_byte:
  "find (\<lambda>k. \<not> bit_used m bitmap k) [8 * i..<8 * i + 8] =
    map_option (\<lambda>k. 8 * i + k) (find (\<lambda>k. \<not> bit (m (bitmap + i)) k) [0..<8])"
proof -
  have "find (\<lambda>k. \<not> bit_used m bitmap k) (map (\<lambda>k. 8 * i + k) ks) =
      map_option (\<lambda>k. 8 * i + k) (find (\<lambda>k. \<not> bit (m (bitmap + i)) k) ks)" if "set ks \<subseteq> {..<8}" for ks
    using that by (induction ks) (auto simp: bit_used_def)
  moreover have "map (\<lambda>k. 8 * i + k) [0..<8] = [8 * i..<8 * i + 8]"
    by (simp add: map_add_upt add.commute [of "8 * i"])
  moreover have "set [0..<8] \<subseteq> {..<8::nat}"
    by auto
  ultimately show ?thesis by metis
qed

lemma alloc_byte_run:
  assumes "bitmap + n \<le> disk_size" "i \<le> n" "\<forall>k < 8 * i. bit_used (disk s) bitmap k"
  shows "alloc_byte bitmap [i..<n] s = (case resource_take bitmap n (disk s) of
    None \<Rightarrow> (Exit ENOMEM, s) | Some (k, m) \<Rightarrow> (Ok (of_nat (k + 1)), s\<lparr>disk := m\<rparr>))"
  using assms(2,3)
proof (induction "n - i" arbitrary: i)
  case 0
  then have "find (\<lambda>k. \<not> bit_used (disk s) bitmap k) [0..<8 * n] = None"
    by (auto simp: find_None_iff)
  with 0 show ?case
    by (simp add: resource_take_def prog)
next
  case (Suc d)
  then have i: "i < n" by simp
  then have upt: "[i..<n] = i # [Suc i..<n]"
    by (simp add: upt_conv_Cons)
  have a: "bitmap + i < disk_size"
    using i assms(1) by simp
  let ?P = "\<lambda>k. \<not> bit_used (disk s) bitmap k"
  have low: "first_low_bit (disk s (bitmap + i)) [0..<8] = find (\<lambda>k. \<not> bit (disk s (bitmap + i)) k) [0..<8]"
    by (rule first_low_bit_find) auto
  have split: "[8 * i..<8 * n] = [8 * i..<8 * i + 8] @ [8 * i + 8..<8 * n]"
    using i upt_add_eq_append [of "8 * i" "8 * i + 8" "8 * n - (8 * i + 8)"] by simp
  have found: "find ?P [0..<8 * n] = (case find (\<lambda>k. \<not> bit (disk s (bitmap + i)) k) [0..<8] of
      Some k \<Rightarrow> Some (8 * i + k) | None \<Rightarrow> find ?P [8 * i + 8..<8 * n])"
    using find_skip [of "8 * i" "disk s" bitmap "8 * n"] Suc.prems
    by (simp add: split find_append find_byte split: option.splits)
  show ?case
  proof (cases "find (\<lambda>k. \<not> bit (disk s (bitmap + i)) k) [0..<8]")
    case None
    then have byte: "bit (disk s (bitmap + i)) r" if "r < 8" for r
      using that by (auto simp: find_None_iff)
    have "bit_used (disk s) bitmap k" if "k < 8 * Suc i" for k
    proof (cases "k < 8 * i")
      case False
      with that obtain r where "k = 8 * i + r" "r < 8"
        by (metis add_less_cancel_left le_Suc_ex mult_Suc_right not_less add.commute)
      with byte show ?thesis by (simp add: bit_used_def)
    qed (use Suc.prems in simp)
    with Suc.hyps(1) [of "Suc i"] Suc.hyps(2) i a None low show ?thesis
      by (simp add: upt prog)
  next
    case (Some k)
    then have k: "k < 8"
      by (metis atLeast0LessThan atLeastLessThan_upt find_Some_iff lessThan_iff length_upt nth_upt
          plus_nat.add_0 diff_zero)
    then have "disk s (bitmap + i) OR push_bit k 1 = (if True then disk s (bitmap + i) OR push_bit ((8 * i + k) mod 8) 1 else 0)"
      by simp
    with Some found low a k show ?thesis
      by (simp add: upt prog resource_take_def put_bit_def Let_def mult.commute)
  qed
qed

lemma allocate_resource_run:
  assumes "bitmap + nat n \<le> disk_size"
  shows "allocate_resource bitmap n s = (case resource_take bitmap (nat n) (disk s) of
    None \<Rightarrow> (Exit ENOMEM, s) | Some (k, m) \<Rightarrow> (Ok (of_nat (k + 1)), s\<lparr>disk := m\<rparr>))"
  using alloc_byte_run [OF assms, of 0 s] by (simp add: allocate_resource_def)

lemma resource_take_Some:
  assumes "resource_take bitmap n m = Some (k, m')"
  shows "k < 8 * n" "\<not> bit_used m bitmap k" "\<forall>j < k. bit_used m bitmap j" "m' = put_bit bitmap k True m"
  using assms by (auto simp: resource_take_def find_Some_iff split: option.splits)

lemma resource_take_None: "resource_take bitmap n m = None \<longleftrightarrow> (\<forall>k < 8 * n. bit_used m bitmap k)"
proof -
  have "resource_take bitmap n m = None \<longleftrightarrow> find (\<lambda>k. \<not> bit_used m bitmap k) [0..<8 * n] = None"
    by (simp add: resource_take_def split: option.splits)
  then show ?thesis
    by (auto simp: find_None_iff)
qed

text \<open>The bitmaps provide the contract of a first-fit allocator, on a bitmap of \<open>n\<close> bytes at \<open>b\<close>.\<close>

type_synonym bits = "nat \<times> nat \<times> memory"

definition bits_used :: "bits \<Rightarrow> nat \<Rightarrow> bool" where
  "bits_used = (\<lambda>(b, n, m) k. bit_used m b k)"

definition bits_take :: "bits \<Rightarrow> (nat \<times> bits) option" where
  "bits_take = (\<lambda>(b, n, m). map_option (\<lambda>(k, m'). (k, (b, n, m'))) (resource_take b n m))"

interpretation ext2_bits: slot_allocator "\<lambda>_. True" bits_used "\<lambda>(b, n, m). 8 * n" bits_take
proof
  fix s t :: bits and i j :: nat
  assume "bits_take s = Some (i, t)"
  moreover obtain b n m where s: "s = (b, n, m)" by (cases s)
  ultimately obtain m' where take: "resource_take b n m = Some (i, m')" and t: "t = (b, n, m')"
    by (auto simp: bits_take_def)
  note facts = resource_take_Some [OF take]
  show "(case t of (b, n, m) \<Rightarrow> 8 * n) = (case s of (b, n, m) \<Rightarrow> 8 * n)"
    "i < (case s of (b, n, m) \<Rightarrow> 8 * n)" "\<not> bits_used s i" "j < i \<Longrightarrow> bits_used s j"
    "bits_used t j \<longleftrightarrow> j = i \<or> bits_used s j"
    using facts by (auto simp: s t bits_used_def bit_used_put)
next
  fix s :: bits
  show "bits_take s = None \<longleftrightarrow> (\<forall>i < (case s of (b, n, m) \<Rightarrow> 8 * n). bits_used s i)"
    by (cases s) (simp add: bits_take_def bits_used_def resource_take_None)
qed simp_all

lemma alloc_many_bitmap:
  "alloc_many bits_take c (b, n, m) = Some (ks, (b', n', m')) \<Longrightarrow> b' = b \<and> (\<forall>x. x < b \<or> b + n \<le> x \<longrightarrow> m' x = m x)"
proof (induction c arbitrary: ks m)
  case (Suc c)
  from Suc.prems obtain k js m1 where step: "resource_take b n m = Some (k, m1)" "alloc_many bits_take c (b, n, m1) = Some (js, (b', n', m'))"
    by (auto simp: bits_take_def split: option.splits)
  have k: "k div 8 < n" using resource_take_Some(1) [OF step(1)] by simp
  have "m1 x = m x" if "x < b \<or> b + n \<le> x" for x
    unfolding resource_take_Some(4) [OF step(1)] by (rule put_bit_other) (use that k in linarith)
  with Suc.IH [OF step(2)] show ?case by simp
qed simp

text \<open>Several allocations in a row.\<close>

primrec allocate_times :: "nat \<Rightarrow> nat \<Rightarrow> int \<Rightarrow> (ext2, 32 word list) prog" where
  "allocate_times 0 bitmap n = ret []"
| "allocate_times (Suc c) bitmap n = bnd (allocate_resource bitmap n) (\<lambda>x.
     bnd (allocate_times c bitmap n) (\<lambda>xs. ret (x # xs)))"

lemma allocate_times_run:
  assumes "bitmap + nat n \<le> disk_size"
  shows "(case alloc_many bits_take c (bitmap, nat n, disk s) of
      Some (ks, (b, k, m)) \<Rightarrow> allocate_times c bitmap n s = (Ok (map (\<lambda>k. of_nat (k + 1)) ks), s\<lparr>disk := m\<rparr>)
    | None \<Rightarrow> fst (allocate_times c bitmap n s) = Exit ENOMEM)"
proof (induction c arbitrary: s)
  case 0
  show ?case by (simp add: prog)
next
  case (Suc c)
  show ?case
  proof (cases "resource_take bitmap (nat n) (disk s)")
    case None
    with assms show ?thesis
      by (simp add: bits_take_def allocate_resource_run bnd_def)
  next
    case (Some r)
    then obtain k m where km: "resource_take bitmap (nat n) (disk s) = Some (k, m)" by (cases r) auto
    let ?t = "s\<lparr>disk := m\<rparr>"
    have run: "allocate_times (Suc c) bitmap n s = bnd (allocate_times c bitmap n) (\<lambda>xs. ret (of_nat (k + 1) # xs)) ?t"
      using assms km by (simp add: allocate_resource_run bnd_run)
    have IH: "(case alloc_many bits_take c (bitmap, nat n, m) of
        Some (ks, (b, k, m)) \<Rightarrow> allocate_times c bitmap n ?t = (Ok (map (\<lambda>k. of_nat (k + 1)) ks), ?t\<lparr>disk := m\<rparr>)
      | None \<Rightarrow> fst (allocate_times c bitmap n ?t) = Exit ENOMEM)"
      using Suc.IH [of ?t] by simp
    show ?thesis
    proof (cases "alloc_many bits_take c (bitmap, nat n, m)")
      case None
      with IH have "fst (allocate_times c bitmap n ?t) = Exit ENOMEM" by simp
      with None km run show ?thesis
        by (cases "allocate_times c bitmap n ?t") (simp add: bits_take_def bnd_def)
    next
      case (Some q)
      with IH km run show ?thesis
        by (cases q) (auto simp: bits_take_def bnd_run prog)
    qed
  qed
qed

text \<open>
  C29: Allocating \<open>c\<close> resources from a bitmap hands out the \<open>c\<close> lowest numbers whose bits are zero, in
  increasing order, sets exactly their bits and changes no byte outside the bitmap; the process
  exits with \<open>ENOMEM\<close> if and only if fewer bits are zero than are asked for.  The bits searched are
  eight times \<open>bitmap_size\<close>: the callers pass the number of resources, and the loop takes it for a
  number of bytes.
\<close>

theorem allocate_resource_capacity:
  assumes "bitmap + nat n \<le> disk_size"
  defines "free \<equiv> \<lambda>m. filter (\<lambda>k. \<not> bit_used m bitmap k) [0..<8 * nat n]"
  shows "case allocate_times c bitmap n s of
      (Ok xs, t) \<Rightarrow> c \<le> length (free (disk s)) \<and> xs = map (\<lambda>k. of_nat (k + 1)) (take c (free (disk s))) \<and>
        free (disk t) = drop c (free (disk s)) \<and> (\<forall>x. x < bitmap \<or> bitmap + nat n \<le> x \<longrightarrow> disk t x = disk s x)
    | (Exit e, t) \<Rightarrow> e = ENOMEM \<and> length (free (disk s)) < c
    | _ \<Rightarrow> False"
proof -
  let ?b = "(bitmap, nat n, disk s)"
  have avail: "ext2_bits.avail (bitmap, nat n, m) = set (free m)" "distinct (free m)"
      "filter (\<lambda>k. \<not> bits_used (bitmap, nat n, m) k) [0..<8 * nat n] = free m" for m
    by (auto simp: free_def free_slots_def bits_used_def)
  then have card: "card (ext2_bits.avail ?b) = length (free (disk s))"
    by (simp add: distinct_card)
  show ?thesis
  proof (cases "alloc_many bits_take c ?b")
    case None
    then have "length (free (disk s)) < c"
      using ext2_bits.alloc_many_total [where s = ?b and n = c] card by simp
    moreover have "fst (allocate_times c bitmap n s) = Exit ENOMEM"
      using allocate_times_run [OF assms(1), of c s] None by simp
    ultimately show ?thesis
      by (cases "allocate_times c bitmap n s") simp
  next
    case (Some q)
    obtain ks b k m where q: "q = (ks, (b, k, m))" by (cases q)
    with Some have ks: "k = nat n" "ext2_bits.avail (b, k, m) = ext2_bits.avail ?b - set ks" "ks = take c (free (disk s))"
      using ext2_bits.alloc_many_Some [where s = ?b and n = c] ext2_bits.alloc_many_least [where s = ?b and n = c]
      by (auto simp: avail(3))
    have kept: "b = bitmap" "\<And>x. x < bitmap \<or> bitmap + nat n \<le> x \<Longrightarrow> m x = disk s x"
      using Some q alloc_many_bitmap by blast+
    have "set (free m) = set (drop c (free (disk s)))"
      using ks kept(1) avail(1) avail(2) [of "disk s"] set_take_disj_set_drop_if_distinct [of "free (disk s)" c c]
        set_append [of "take c (free (disk s))" "drop c (free (disk s))"] by auto
    moreover have "sorted (free m)" "sorted (drop c (free (disk s)))"
      by (simp_all add: free_def sorted_wrt_filter sorted_wrt_drop)
    ultimately have "free m = drop c (free (disk s))"
      using avail(2) by (intro sorted_distinct_set_unique) simp_all
    moreover have "allocate_times c bitmap n s = (Ok (map (\<lambda>k. of_nat (k + 1)) ks), s\<lparr>disk := m\<rparr>)"
      using allocate_times_run [OF assms(1), of c s] Some q by simp
    moreover have "c \<le> length (free (disk s))"
      using ext2_bits.alloc_many_total [OF TrueI, where s = ?b and n = c] Some unfolding card by blast
    ultimately show ?thesis
      using ks(3) kept(2) by auto
  qed
qed

lemma allocate_resource_capacity_witness:
  "\<exists>t. allocate_times 1 3072 1 \<lparr>disk = (\<lambda>_. 0xFD), now = 0, src = []\<rparr> = (Ok [2], t)"
proof -
  let ?s = "\<lparr>disk = (\<lambda>_. 0xFD), now = 0, src = []\<rparr> :: ext2"
  have free: "filter (\<lambda>k. \<not> bit_used (\<lambda>_. 0xFD) 3072 k) [0..<8] = [1]"
    by (simp add: bit_used_def upt_conv_Cons)
  then show ?thesis
    using allocate_resource_capacity [of 3072 1 1 ?s]
    by (cases "allocate_times 1 3072 1 ?s") (auto split: outcome.splits)
qed

end
