(* ===== verification/Inodes.thy ===== *)
theory Inodes
  imports Resource
begin

text \<open>
  Inodes and data blocks (Assignment4/ext2_utils.c): allocation and release with the counters of
  the super block and of the group descriptor, the data blocks of an inode, and its link count.
  Where the source writes \<open>(struct ext2_super_block *)(disk + EXT2_BLOCK_SIZE)->field--\<close>, which C
  parses as a member of an \<open>unsigned char *\<close>, the model takes the member of the super block.
\<close>

definition is_inode_in_use :: "32 word \<Rightarrow> (ext2, bool) prog" where
  "is_inode_in_use n = bnd get_inode_bitmap (\<lambda>b. is_resource_in_use b n)"

definition is_block_in_use :: "32 word \<Rightarrow> (ext2, bool) prog" where
  "is_block_in_use n = bnd get_block_bitmap (\<lambda>b. is_resource_in_use b n)"

definition get_inode_mode :: "byte \<Rightarrow> 16 word" where
  "get_inode_mode file_type =
    (if file_type = EXT2_FT_DIR then EXT2_S_IFDIR
     else if file_type = EXT2_FT_REG_FILE then EXT2_S_IFREG
     else EXT2_S_IFLNK)"

definition allocate_inode :: "byte \<Rightarrow> (ext2, 32 word) prog" where
  "allocate_inode file_type =
     bnd get_inode_bitmap (\<lambda>inode_bitmap.
     bnd get_inodes_count (\<lambda>bitmap_size.
     bnd (allocate_resource inode_bitmap bitmap_size) (\<lambda>inode_num.
     thn (rmw16 bg_free_inodes_count (\<lambda>n. n - 1))
    (thn (rmw32 s_free_inodes_count (\<lambda>n. n - 1))
    (bnd (get_inode inode_num) (\<lambda>inode.
     thn (st_bytes inode (replicate inode_size 0))
    (bnd get_timestamp (\<lambda>current_time.
     thn (rmw16 (i_mode inode) (\<lambda>m. m OR get_inode_mode file_type))
    (thn (st32 (i_ctime inode) current_time)
    (thn (st32 (i_atime inode) current_time)
    (thn (st32 (i_mtime inode) current_time)
         (ret inode_num))))))))))))"

definition free_inode :: "32 word \<Rightarrow> (ext2, unit) prog" where
  "free_inode inode_num =
     bnd get_inode_bitmap (\<lambda>inode_bitmap.
     thn (free_resource inode_bitmap inode_num)
    (thn (rmw16 bg_free_inodes_count (\<lambda>n. n + 1))
         (rmw32 s_free_inodes_count (\<lambda>n. n + 1))))"

definition free_block :: "32 word \<Rightarrow> (ext2, unit) prog" where
  "free_block block_num =
     bnd get_block_bitmap (\<lambda>block_bitmap.
     thn (free_resource block_bitmap block_num)
    (thn (rmw16 bg_free_blocks_count (\<lambda>n. n + 1))
         (rmw32 s_free_blocks_count (\<lambda>n. n + 1))))"

text \<open>
  \<open>while (count < max && direct_block_num != 0)\<close> over the words of an indirect block, whose next
  word is read at the end of the body; \<open>EXT2_BLOCK_SIZE / sizeof(unsigned int)\<close> is 256.  The same
  loop frees, reclaims or checks blocks: the body returns whether to leave the function.
\<close>

definition max_indirect_blocks :: nat where
  "max_indirect_blocks = EXT2_BLOCK_SIZE div 4"

primrec indirect_loop :: "nat \<Rightarrow> nat \<Rightarrow> 32 word \<Rightarrow> (32 word \<Rightarrow> (ext2, bool) prog) \<Rightarrow> (ext2, bool) prog" where
  "indirect_loop 0 pos direct_block_num body = ret False"
| "indirect_loop (Suc left) pos direct_block_num body =
    (if direct_block_num = 0 then ret False
     else bnd (body direct_block_num) (\<lambda>leave.
       if leave then ret True
       else bnd (ld32 pos) (\<lambda>d. indirect_loop left (pos + 4) d body)))"

definition for_indirect :: "32 word \<Rightarrow> (32 word \<Rightarrow> (ext2, bool) prog) \<Rightarrow> (ext2, bool) prog" where
  "for_indirect indirect_block_num body =
    (let pos = block_start indirect_block_num
     in bnd (ld32 pos) (\<lambda>d. indirect_loop max_indirect_blocks (pos + 4) d body))"

text \<open>
  \<open>n\<close> is where the loop over the direct blocks stopped: at a zero pointer, or at 12.
\<close>

definition free_data_blocks :: "nat \<Rightarrow> (ext2, unit) prog" where
  "free_data_blocks inode =
     bnd (block_loop inode (\<lambda>b. bnd (free_block b) (\<lambda>_. ret (None :: unit option))) [0..<12]) (\<lambda>r.
     let n = (case r of Inl n \<Rightarrow> n | Inr _ \<Rightarrow> 12) in
     bnd (ld32 (i_block inode n)) (\<lambda>indirect_block_num.
     if indirect_block_num \<noteq> 0 then
       bnd (for_indirect indirect_block_num (\<lambda>d. thn (free_block d) (ret False))) (\<lambda>_.
       free_block indirect_block_num)
     else ret ()))"

definition unlink_inode :: "32 word \<Rightarrow> (ext2, unit) prog" where
  "unlink_inode inode_num =
     bnd (get_inode inode_num) (\<lambda>inode.
     bnd (ld16 (i_links_count inode)) (\<lambda>links.
     if links = 0 then exitp 1
     else thn (st16 (i_links_count inode) (links - 1))
         (bnd (ld16 (i_links_count inode)) (\<lambda>links'.
          if links' = 0 then
            bnd get_timestamp (\<lambda>t.
            thn (st32 (i_dtime inode) t)
           (thn (free_data_blocks inode)
                (free_inode inode_num)))
          else ret ()))))"

definition set_inode_in_use :: "32 word \<Rightarrow> (ext2, unit) prog" where
  "set_inode_in_use inode_num =
     bnd (is_inode_in_use inode_num) (\<lambda>used.
     if used then exitp 1
     else bnd get_inode_bitmap (\<lambda>inode_bitmap.
       thn (set_resource_in_use inode_bitmap inode_num)
      (thn (rmw16 bg_free_inodes_count (\<lambda>n. n - 1))
           (rmw32 s_free_inodes_count (\<lambda>n. n - 1)))))"

definition set_block_in_use :: "32 word \<Rightarrow> (ext2, unit) prog" where
  "set_block_in_use block_num =
     bnd (is_block_in_use block_num) (\<lambda>used.
     if used then exitp 1
     else bnd get_block_bitmap (\<lambda>block_bitmap.
       thn (set_resource_in_use block_bitmap block_num)
      (thn (rmw16 bg_free_blocks_count (\<lambda>n. n - 1))
           (rmw32 s_free_blocks_count (\<lambda>n. n - 1)))))"

definition allocate_block :: "(ext2, 32 word) prog" where
  "allocate_block =
     bnd get_block_bitmap (\<lambda>block_bitmap.
     bnd get_blocks_count (\<lambda>bitmap_size.
     bnd (allocate_resource block_bitmap bitmap_size) (\<lambda>block_num.
     thn (rmw16 bg_free_blocks_count (\<lambda>n. n - 1))
    (thn (rmw32 s_free_blocks_count (\<lambda>n. n - 1))
    (thn (st_bytes (block_start block_num) (replicate EXT2_BLOCK_SIZE 0))
         (ret block_num))))))"

end
