(* ===== verification/Directory.thy ===== *)
theory Directory
  imports Inodes
begin

text \<open>
  Directory entries (Assignment4/ext2_utils.c): record lengths and names, the search for an entry
  and the creation of one.  A C string is the list of its bytes before the terminating zero; a null
  pointer is \<open>None\<close>.  An entry is the address of its record.
\<close>

type_synonym cstring = "byte list"

definition str :: "string \<Rightarrow> cstring" where
  "str = map of_char"

section \<open>Operations\<close>

text \<open>Rounds up to a multiple of 4, as \<open>get_padded_rec_len\<close>.\<close>

definition get_padded_rec_len :: "int \<Rightarrow> int" where
  "get_padded_rec_len rec_len =
    (if rec_len smod 4 \<noteq> 0 then (let factor = (rec_len sdiv 4) + 1 in 4 * factor) else rec_len)"

definition get_actual_dir_entry_len :: "nat \<Rightarrow> (ext2, int) prog" where
  "get_actual_dir_entry_len entry = bnd (ld8 (de_name_len entry)) (\<lambda>n.
     ret (get_padded_rec_len (int dir_entry_size + uint n)))"

definition get_name_len :: "cstring \<Rightarrow> (ext2, nat) prog" where
  "get_name_len name = (if length name > EXT2_NAME_LEN then exitp 1 else ret (length name))"

text \<open>
  \<open>strncmp(name, entry->name, n) == 0\<close> for \<open>n\<close> the length of \<open>name\<close>: the bytes on the disk are read up
  to the first difference.
\<close>

primrec strncmp_eq :: "cstring \<Rightarrow> nat \<Rightarrow> (ext2, bool) prog" where
  "strncmp_eq [] a = ret True"
| "strncmp_eq (c # cs) a = bnd (ld8 a) (\<lambda>b. if b \<noteq> c then ret False else strncmp_eq cs (Suc a))"

text \<open>\<open>strncpy(entry->name, name, name_len)\<close> copies exactly the bytes of \<open>name\<close>.\<close>

definition init_dir_entry :: "nat \<Rightarrow> 32 word \<Rightarrow> 16 word \<Rightarrow> nat \<Rightarrow> byte \<Rightarrow> cstring \<Rightarrow> (ext2, unit) prog" where
  "init_dir_entry entry inode rec_len name_len file_type name =
     bnd (if inode = 0 then allocate_inode file_type else ret inode) (\<lambda>inode.
     bnd (get_inode inode) (\<lambda>p.
     thn (rmw16 (i_links_count p) (\<lambda>n. n + 1))
    (thn (st32 (de_inode entry) inode)
    (thn (st16 (de_rec_len entry) rec_len)
    (thn (st8 (de_name_len entry) (of_nat name_len))
    (thn (st8 (de_file_type entry) file_type)
         (st_bytes (de_name entry) (take name_len name))))))))"

text \<open>Whether the record at \<open>entry\<close> has the given name; only asked of a record in use.\<close>

definition entry_named :: "cstring \<Rightarrow> nat \<Rightarrow> (ext2, bool) prog" where
  "entry_named name entry = bnd (ld8 (de_name_len entry)) (\<lambda>n.
     if length name = unat n then strncmp_eq name (de_name entry) else ret False)"

definition find_entry_body :: "cstring \<Rightarrow> nat \<Rightarrow> unit \<Rightarrow> (ext2, (nat \<times> unit) + nat) prog" where
  "find_entry_body name pos _ =
     bnd (ld32 (de_inode pos)) (\<lambda>i.
     bnd (if i \<noteq> 0 then entry_named name pos else ret False) (\<lambda>found.
     if found then ret (Inr pos)
     else bnd (ld16 (de_rec_len pos)) (\<lambda>rec_len. ret (Inl (pos + unat rec_len, ())))))"

definition find_entry :: "nat \<Rightarrow> cstring option \<Rightarrow> (ext2, nat option) prog" where
  "find_entry dir_inode name =
    (case name of
       None \<Rightarrow> ret None
     | Some name \<Rightarrow>
         bnd (get_name_len name) (\<lambda>_.
         bnd (block_loop dir_inode (walk_block (\<noteq>) (\<lambda>_. find_entry_body name) (\<lambda>_. ())) [0..<12]) (\<lambda>r.
         ret (case r of Inl _ \<Rightarrow> None | Inr e \<Rightarrow> Some e))))"

definition find_entry_in_inode :: "32 word \<Rightarrow> cstring option \<Rightarrow> (ext2, nat option) prog" where
  "find_entry_in_inode inode_num name = bnd (get_inode inode_num) (\<lambda>p. find_entry p name)"

text \<open>
  The body of the loop of \<open>create_dir_entry\<close>: an unused record that is long enough is taken over, a
  used one with enough room behind its name is split.
\<close>

definition create_body :: "32 word \<Rightarrow> cstring \<Rightarrow> byte \<Rightarrow> nat \<Rightarrow> unit \<Rightarrow> (ext2, (nat \<times> unit) + nat) prog" where
  "create_body link_inode name file_type pos _ =
    (let name_len = length name;
         rec_len = get_padded_rec_len (int dir_entry_size + int name_len);
         advance = bnd (ld16 (de_rec_len pos)) (\<lambda>l. ret (Inl (pos + unat l, ())))
     in bnd (ld32 (de_inode pos)) (\<lambda>i.
        bnd (ld16 (de_rec_len pos)) (\<lambda>l.
        if i = 0 then
          if rec_len \<le> uint l
          then thn (init_dir_entry pos link_inode l name_len file_type name) (ret (Inr pos))
          else advance
        else bnd (get_actual_dir_entry_len pos) (\<lambda>actual_len.
          if rec_len \<le> uint l - actual_len then
            let next_entry = pos + unat l; pos' = pos + nat actual_len
            in thn (st16 (de_rec_len pos) (of_int actual_len))
              (thn (init_dir_entry pos' link_inode (of_int (int next_entry - int pos')) name_len file_type name)
                   (ret (Inr pos')))
          else advance))))"

definition create_dir_entry :: "nat \<Rightarrow> 32 word \<Rightarrow> cstring \<Rightarrow> byte \<Rightarrow> (ext2, nat) prog" where
  "create_dir_entry dir_inode link_inode name file_type =
     bnd (find_entry dir_inode (Some name)) (\<lambda>found.
     if found \<noteq> None then exitp EEXIST
     else bnd (get_name_len name) (\<lambda>name_len.
     bnd (block_loop dir_inode
       (walk_block (\<noteq>) (\<lambda>_. create_body link_inode name file_type) (\<lambda>_. ())) [0..<12]) (\<lambda>r.
     case r of
       Inr e \<Rightarrow> ret e
     | Inl n \<Rightarrow>
         if n < 12 then
           bnd allocate_block (\<lambda>block_num.
           thn (st32 (i_block dir_inode n) block_num)
          (thn (rmw32 (i_size dir_inode) (\<lambda>x. x + of_nat EXT2_BLOCK_SIZE))
          (thn (rmw32 (i_blocks dir_inode) (\<lambda>x. NUM_DISK_BLKS x (of_nat EXT2_BLOCK_SIZE)))
          (let entry = block_start block_num; rec_len = EXT2_BLOCK_SIZE
           in thn (init_dir_entry entry link_inode (of_nat rec_len) name_len file_type name)
                  (ret entry)))))
         else exitp ENOMEM)))"

end
