(* ===== verification/Checker.thy ===== *)
theory Checker
  imports Directory
begin

text \<open>
  \<open>ext2_checker\<close> of Assignment 4: the counters of free inodes and blocks, and the recursive check of
  the directory tree.  Each function repairs the image and returns the number of repairs.
\<close>

section \<open>The free counters\<close>

primrec count_byte :: "byte \<Rightarrow> nat list \<Rightarrow> int \<Rightarrow> int" where
  "count_byte b [] num = num"
| "count_byte b (i # is) num = count_byte b is (if \<not> IS_IN_USE b i then num + 1 else num)"

primrec count_low_bits :: "nat \<Rightarrow> nat list \<Rightarrow> int \<Rightarrow> (ext2, int) prog" where
  "count_low_bits bitmap [] num = ret num"
| "count_low_bits bitmap (i # is) num = bnd (ld8 (bitmap + i)) (\<lambda>b.
     count_low_bits bitmap is (count_byte b [0..<8] num))"

text \<open>
  The common end of the two functions: \<open>sb\<close> and \<open>gd\<close> are the counters in the super block (32 bits,
  read as a signed number) and in the group descriptor (16 bits).
\<close>

definition fix_counters :: "nat \<Rightarrow> nat \<Rightarrow> int \<Rightarrow> (ext2, int) prog" where
  "fix_counters sb gd num_free =
     bnd (ld32 sb) (\<lambda>sb_count.
     let delta_with_super_blk = \<bar>num_free - sint sb_count\<bar>
     in bnd (ld16 gd) (\<lambda>gd_count.
        let delta_with_grp_desc = \<bar>num_free - uint gd_count\<bar>
        in thn (if delta_with_super_blk \<noteq> 0 then st32 sb (of_int num_free) else ret ())
          (thn (if delta_with_grp_desc \<noteq> 0 then st16 gd (of_int num_free) else ret ())
               (ret (delta_with_super_blk + delta_with_grp_desc)))))"

definition fix_free_inodes_count :: "(ext2, int) prog" where
  "fix_free_inodes_count =
     bnd get_inode_bitmap (\<lambda>inode_bitmap.
     bnd get_inodes_count (\<lambda>bitmap_size.
     bnd (count_low_bits inode_bitmap [0..<nat bitmap_size] 0) (\<lambda>num_free.
     fix_counters s_free_inodes_count bg_free_inodes_count num_free)))"

definition fix_free_blocks_count :: "(ext2, int) prog" where
  "fix_free_blocks_count =
     bnd get_block_bitmap (\<lambda>block_bitmap.
     bnd get_blocks_count (\<lambda>bitmap_size.
     bnd (count_low_bits block_bitmap [0..<nat bitmap_size] 0) (\<lambda>num_free.
     fix_counters s_free_blocks_count bg_free_blocks_count num_free)))"

section \<open>Entries and their inodes\<close>

definition FILE_TYPE :: "16 word \<Rightarrow> 16 word" where
  "FILE_TYPE m = drop_bit 12 m"

definition dir_entry_file_type :: "16 word \<Rightarrow> byte" where
  "dir_entry_file_type mode =
    (if FILE_TYPE mode = FILE_TYPE EXT2_S_IFDIR then EXT2_FT_DIR
     else if FILE_TYPE mode = FILE_TYPE EXT2_S_IFREG then EXT2_FT_REG_FILE
     else if FILE_TYPE mode = FILE_TYPE EXT2_S_IFLNK then EXT2_FT_SYMLINK
     else EXT2_FT_UNKNOWN)"

definition fix_file_type_mismatch :: "nat \<Rightarrow> (ext2, int) prog" where
  "fix_file_type_mismatch entry =
     bnd (ld32 (de_inode entry)) (\<lambda>i. bnd (get_inode i) (\<lambda>inode.
     bnd (ld16 (i_mode inode)) (\<lambda>m.
     let expected = dir_entry_file_type m
     in bnd (ld8 (de_file_type entry)) (\<lambda>ft.
        if ft \<noteq> expected then thn (st8 (de_file_type entry) expected) (ret 1) else ret 0))))"

definition fix_inode_allocation_inconsistency :: "32 word \<Rightarrow> (ext2, int) prog" where
  "fix_inode_allocation_inconsistency inode_num =
     bnd (is_inode_in_use inode_num) (\<lambda>used.
     if \<not> used then thn (set_inode_in_use inode_num) (ret 1) else ret 0)"

definition fix_inode_deletion_time :: "32 word \<Rightarrow> (ext2, int) prog" where
  "fix_inode_deletion_time inode_num =
     bnd (get_inode inode_num) (\<lambda>inode.
     bnd (ld32 (i_dtime inode)) (\<lambda>t.
     if t \<noteq> 0 then thn (st32 (i_dtime inode) 0) (ret 1) else ret 0))"

text \<open>Marks a block in use unless it is; the number of blocks marked.\<close>

definition fix_block :: "32 word \<Rightarrow> int \<Rightarrow> (ext2, int) prog" where
  "fix_block block_num num_fixed =
     bnd (is_block_in_use block_num) (\<lambda>used.
     if \<not> used then thn (set_block_in_use block_num) (ret (num_fixed + 1)) else ret num_fixed)"

text \<open>The loop over the indirect block tests the position before the word it has already read.\<close>

primrec fix_indirect :: "nat \<Rightarrow> nat \<Rightarrow> 32 word \<Rightarrow> int \<Rightarrow> (ext2, int) prog" where
  "fix_indirect 0 pos direct_block_num num_fixed = ret num_fixed"
| "fix_indirect (Suc left) pos direct_block_num num_fixed =
     bnd (if direct_block_num \<noteq> 0 then fix_block direct_block_num num_fixed else ret num_fixed) (\<lambda>k.
     bnd (ld32 pos) (\<lambda>d. fix_indirect left (pos + 4) d k))"

definition fix_data_block_allocation :: "32 word \<Rightarrow> (ext2, int) prog" where
  "fix_data_block_allocation inode_num =
     bnd (get_inode inode_num) (\<lambda>inode.
     bnd (foldM [0..<12] (\<lambda>n k. bnd (ld32 (i_block inode n)) (\<lambda>b.
       if b \<noteq> 0 then fix_block b k else ret k)) 0) (\<lambda>k.
     bnd (ld32 (i_block inode 12)) (\<lambda>indirect_block_num.
     if indirect_block_num \<noteq> 0 then
       bnd (fix_block indirect_block_num k) (\<lambda>k.
       let pos = block_start indirect_block_num
       in bnd (ld32 pos) (\<lambda>d. fix_indirect (max_indirect_blocks - 1) (pos + 4) d k))
     else ret k)))"

section \<open>The directory tree\<close>

text \<open>
  \<open>strncmp(entry->name, s, strlen(s)) == 0\<close>: the name on the disk begins with \<open>s\<close>.
\<close>

definition names_self_or_parent :: "nat \<Rightarrow> (ext2, bool) prog" where
  "names_self_or_parent entry = bnd (strncmp_eq (str ''.'') (de_name entry)) (\<lambda>dot.
     if dot then ret True else strncmp_eq (str ''..'') (de_name entry))"

text \<open>The loop over the blocks of a directory, with \<open>num_fixed\<close>.\<close>

primrec sum_blocks :: "nat \<Rightarrow> (32 word \<Rightarrow> int \<Rightarrow> (ext2, int) prog) \<Rightarrow> nat list \<Rightarrow> int \<Rightarrow> (ext2, int) prog" where
  "sum_blocks inode body [] k = ret k"
| "sum_blocks inode body (n # ns) k = bnd (ld32 (i_block inode n)) (\<lambda>b.
     if b = 0 then ret k else bnd (body b k) (\<lambda>k. sum_blocks inode body ns k))"

definition sum_entries :: "(nat \<Rightarrow> (ext2, int) prog) \<Rightarrow> 32 word \<Rightarrow> int \<Rightarrow> (ext2, int) prog" where
  "sum_entries fix_entry b k =
    (let start = block_start b
     in bnd (walk (\<lambda>pos. pos \<noteq> block_end start)
          (\<lambda>pos k. bnd (ld32 (de_inode pos)) (\<lambda>j.
             bnd (if j \<noteq> 0 then bnd (fix_entry pos) (\<lambda>m. ret (k + m)) else ret k) (\<lambda>k.
             bnd (ld16 (de_rec_len pos)) (\<lambda>l. ret (Inl (pos + unat l, k)))))) start k)
        (\<lambda>r :: int + unit. ret (case r of Inl k \<Rightarrow> k | Inr _ \<Rightarrow> 0)))"

text \<open>
  The depth of the recursion is bounded by \<open>depth\<close>; a directory that contains itself under another
  name exceeds every bound.
\<close>

primrec fix_dir_entries_recursively :: "nat \<Rightarrow> nat \<Rightarrow> bool \<Rightarrow> (ext2, int) prog" where
  "fix_dir_entries_recursively 0 entry is_root = divergep"
| "fix_dir_entries_recursively (Suc depth) entry is_root =
     bnd (ld32 (de_inode entry)) (\<lambda>i. bnd (get_inode i) (\<lambda>inode.
     bnd (fix_file_type_mismatch entry) (\<lambda>k1.
     bnd (fix_inode_allocation_inconsistency i) (\<lambda>k2.
     bnd (fix_inode_deletion_time i) (\<lambda>k3.
     bnd (fix_data_block_allocation i) (\<lambda>k4.
     bnd (ld8 (de_file_type entry)) (\<lambda>ft.
     let num_fixed = k1 + k2 + k3 + k4
     in if ft \<noteq> EXT2_FT_DIR then ret num_fixed
        else bnd (if is_root then ret False else names_self_or_parent entry) (\<lambda>special.
          if special then ret num_fixed
          else sum_blocks inode (sum_entries (\<lambda>e. fix_dir_entries_recursively depth e False))
                 [0..<12] num_fixed))))))))"

text \<open>The repairs of \<open>main\<close>, with their number, and the program.\<close>

definition check_image :: "nat \<Rightarrow> (ext2, int) prog" where
  "check_image depth =
     bnd get_inode_table (\<lambda>i_table.
     let root = i_table + EXT2_ROOT_INO_IDX * inode_size
     in bnd (ld16 (i_mode root)) (\<lambda>m.
        bnd (if FILE_TYPE m \<noteq> FILE_TYPE EXT2_S_IFDIR
             then thn (st16 (i_mode root) (m OR EXT2_S_IFDIR)) (ret 1) else ret 0) (\<lambda>k.
        bnd (ld32 (i_block root 0)) (\<lambda>b.
        bnd fix_free_inodes_count (\<lambda>k1.
        bnd fix_free_blocks_count (\<lambda>k2.
        bnd (fix_dir_entries_recursively depth (block_start b) True) (\<lambda>k3.
        ret (k + k1 + k2 + k3))))))))"

definition checker_main :: "nat \<Rightarrow> bool \<Rightarrow> cstring list \<Rightarrow> (ext2, int) prog" where
  "checker_main depth mmap_ok argv =
    (if length argv \<noteq> 2 then exitp 1
     else thn (if mmap_ok then ret () else exitp 1)
       (bnd (check_image depth) (\<lambda>fixed_inconsistencies. ret 0)))"

end
