(* ===== verification/Counters.thy ===== *)
theory Counters
  imports Inodes Checker
begin

text \<open>
  The counters of free inodes and blocks.  \<open>fs_ok\<close> is the layout of a sound image: the two bitmaps
  and the inode table lie behind the group descriptor and do not overlap, a free inode bit belongs
  to the table, and a free block bit to a block of the disk that holds none of these.
  \<open>counters_ok\<close>: both copies of each counter are the number of zero bits of the bitmap.
\<close>

section \<open>The layout\<close>

definition blk_map :: "memory \<Rightarrow> nat" where "blk_map m = block_start (get_le 4 m bg_block_bitmap)"
definition ino_map :: "memory \<Rightarrow> nat" where "ino_map m = block_start (get_le 4 m bg_inode_bitmap)"
definition ino_tab :: "memory \<Rightarrow> nat" where "ino_tab m = block_start (get_le 4 m bg_inode_table)"
definition n_blocks :: "memory \<Rightarrow> nat" where "n_blocks m = nat (sint (get_le 4 m s_blocks_count :: 32 word))"
definition n_inodes :: "memory \<Rightarrow> nat" where "n_inodes m = nat (sint (get_le 4 m s_inodes_count :: 32 word))"

definition apart :: "nat \<Rightarrow> nat \<Rightarrow> nat \<Rightarrow> nat \<Rightarrow> bool" where
  "apart a n b k \<longleftrightarrow> a + n \<le> b \<or> b + k \<le> a"

definition free_bits :: "memory \<Rightarrow> nat \<Rightarrow> nat \<Rightarrow> nat set" where
  "free_bits m b n = {k. k < 8 * n \<and> \<not> bit_used m b k}"

text \<open>Block number \<open>k + 1\<close> holds neither of the bitmaps and no part of the inode table.\<close>

definition data_block :: "memory \<Rightarrow> nat \<Rightarrow> bool" where
  "data_block m k \<longleftrightarrow> 2 \<le> k \<and> k < 127 \<and> apart (1024 * (k + 1)) 1024 (blk_map m) (n_blocks m) \<and>
     apart (1024 * (k + 1)) 1024 (ino_map m) (n_inodes m) \<and>
     apart (1024 * (k + 1)) 1024 (ino_tab m) (128 * n_inodes m)"

definition fs_ok :: "memory \<Rightarrow> bool" where
  "fs_ok m \<longleftrightarrow> 3072 \<le> blk_map m \<and> blk_map m + n_blocks m \<le> disk_size \<and>
     3072 \<le> ino_map m \<and> ino_map m + n_inodes m \<le> disk_size \<and>
     3072 \<le> ino_tab m \<and> ino_tab m + 128 * n_inodes m \<le> disk_size \<and>
     apart (blk_map m) (n_blocks m) (ino_map m) (n_inodes m) \<and>
     apart (blk_map m) (n_blocks m) (ino_tab m) (128 * n_inodes m) \<and>
     apart (ino_map m) (n_inodes m) (ino_tab m) (128 * n_inodes m) \<and>
     (\<forall>k \<in> free_bits m (blk_map m) (n_blocks m). data_block m k) \<and>
     (\<forall>k \<in> free_bits m (ino_map m) (n_inodes m). k < n_inodes m)"

definition counters_ok :: "memory \<Rightarrow> bool" where
  "counters_ok m \<longleftrightarrow>
     get_le 2 m bg_free_blocks_count = (of_nat (card (free_bits m (blk_map m) (n_blocks m))) :: 16 word) \<and>
     get_le 4 m s_free_blocks_count = (of_nat (card (free_bits m (blk_map m) (n_blocks m))) :: 32 word) \<and>
     get_le 2 m bg_free_inodes_count = (of_nat (card (free_bits m (ino_map m) (n_inodes m))) :: 16 word) \<and>
     get_le 4 m s_free_inodes_count = (of_nat (card (free_bits m (ino_map m) (n_inodes m))) :: 32 word)"

lemma finite_free_bits [simp]: "finite (free_bits m b n)"
  by (simp add: free_bits_def)

text \<open>Writes that leave the description of the layout alone.\<close>

definition same_layout :: "memory \<Rightarrow> memory \<Rightarrow> bool" where
  "same_layout m m' \<longleftrightarrow> blk_map m' = blk_map m \<and> ino_map m' = ino_map m \<and> ino_tab m' = ino_tab m \<and>
     n_blocks m' = n_blocks m \<and> n_inodes m' = n_inodes m"

lemma same_layout_refl [simp]: "same_layout m m"
  by (simp add: same_layout_def)

lemma same_layout_trans: "same_layout m m' \<Longrightarrow> same_layout m' m'' \<Longrightarrow> same_layout m m''"
  by (simp add: same_layout_def)

lemmas layout_defs = blk_map_def ino_map_def ino_tab_def n_blocks_def n_inodes_def

text \<open>The fields before offset 1032 and from 2048 to 2060 determine the layout.\<close>

lemma same_layoutI:
  assumes "\<And>a. 1024 \<le> a \<Longrightarrow> a < 1032 \<Longrightarrow> m' a = m a" "\<And>a. 2048 \<le> a \<Longrightarrow> a < 2060 \<Longrightarrow> m' a = m a"
  shows "same_layout m m'"
proof -
  have "get_le 4 m' a = (get_le 4 m a :: 32 word)" if "a = 1024 \<or> a = 1028 \<or> a = 2048 \<or> a = 2052 \<or> a = 2056" for a
    using that assms by (intro get_le_cong) auto
  then show ?thesis
    by (simp add: same_layout_def layout_defs ext2_fields)
qed

lemma fs_ok_shrink:
  assumes "fs_ok m" "same_layout m m'"
    and "free_bits m' (blk_map m) (n_blocks m) \<subseteq> Collect (data_block m)"
    and "free_bits m' (ino_map m) (n_inodes m) \<subseteq> {..<n_inodes m}"
  shows "fs_ok m'"
proof -
  have "data_block m' = data_block m"
    using assms(2) by (simp add: data_block_def same_layout_def fun_eq_iff)
  with assms show ?thesis
    by (auto simp: fs_ok_def same_layout_def)
qed

lemma fs_okD:
  assumes "fs_ok m"
  shows "3072 \<le> blk_map m" "blk_map m + n_blocks m \<le> 131072"
    "3072 \<le> ino_map m" "ino_map m + n_inodes m \<le> 131072"
    "3072 \<le> ino_tab m" "ino_tab m + 128 * n_inodes m \<le> 131072"
    "apart (blk_map m) (n_blocks m) (ino_map m) (n_inodes m)"
    "apart (blk_map m) (n_blocks m) (ino_tab m) (128 * n_inodes m)"
    "apart (ino_map m) (n_inodes m) (ino_tab m) (128 * n_inodes m)"
    "free_bits m (blk_map m) (n_blocks m) \<subseteq> Collect (data_block m)"
    "free_bits m (ino_map m) (n_inodes m) \<subseteq> {..<n_inodes m}"
  using assms by (auto simp: fs_ok_def)

section \<open>Reading and writing the parts\<close>

lemma bit_used_cong: "m' (b + k div 8) = m (b + k div 8) \<Longrightarrow> bit_used m' b k = bit_used m b k"
  by (simp add: bit_used_def)

lemma free_bits_cong:
  assumes "\<And>a. b \<le> a \<Longrightarrow> a < b + n \<Longrightarrow> m' a = m a"
  shows "free_bits m' b n = free_bits m b n"
proof -
  have "bit_used m' b k = bit_used m b k" if "k < 8 * n" for k
    using that by (intro bit_used_cong assms) auto
  then show ?thesis by (auto simp: free_bits_def)
qed

lemma free_bits_put:
  "free_bits (put_bit b k v m) b n = (if v then free_bits m b n - {k}
     else if k < 8 * n then insert k (free_bits m b n) else free_bits m b n)"
  by (auto simp: free_bits_def bit_used_put)

lemma get_le_put_bit:
  "a + n \<le> b + k div 8 \<or> b + k div 8 < a \<Longrightarrow> get_le n (put_bit b k v m) a = get_le n m a"
  by (rule get_le_cong) (auto intro!: put_bit_other)

text \<open>A change behind the group descriptor that spares the two bitmaps.\<close>

lemma kept_outside:
  assumes "fs_ok m" "\<And>x. x < a \<or> a + n \<le> x \<Longrightarrow> m' x = m x" "3072 \<le> a"
    and "apart a n (blk_map m) (n_blocks m)" "apart a n (ino_map m) (n_inodes m)"
  shows "fs_ok m' \<and> same_layout m m' \<and> counters_ok m' = counters_ok m \<and>
    free_bits m' (blk_map m) (n_blocks m) = free_bits m (blk_map m) (n_blocks m) \<and>
    free_bits m' (ino_map m) (n_inodes m) = free_bits m (ino_map m) (n_inodes m)"
proof -
  have layout: "same_layout m m'"
    by (rule same_layoutI) (use assms(2,3) in auto)
  have bits: "free_bits m' (blk_map m) (n_blocks m) = free_bits m (blk_map m) (n_blocks m)"
      "free_bits m' (ino_map m) (n_inodes m) = free_bits m (ino_map m) (n_inodes m)"
    using assms(2,4,5) by (auto simp: apart_def intro!: free_bits_cong)
  have "get_le j m' x = (get_le j m x :: 16 word)" "get_le j m' x = (get_le j m x :: 32 word)"
    if "x + j \<le> 3072" for x j
    by (rule get_le_cong; use that assms(2,3) in auto)+
  then have "counters_ok m' = counters_ok m"
    using bits layout by (simp add: counters_ok_def same_layout_def ext2_fields)
  moreover have "fs_ok m'"
    by (rule fs_ok_shrink [OF assms(1) layout]) (use bits fs_okD(10,11) [OF assms(1)] in simp_all)
  ultimately show ?thesis
    using bits layout by simp
qed

section \<open>One bit and its counters\<close>

definition step16 :: "bool \<Rightarrow> 16 word \<Rightarrow> 16 word" where "step16 v n = (if v then n - 1 else n + 1)"
definition step32 :: "bool \<Rightarrow> 32 word \<Rightarrow> 32 word" where "step32 v n = (if v then n - 1 else n + 1)"

text \<open>Bit \<open>k\<close> of the bitmap at \<open>b\<close> becomes \<open>v\<close>, and the counters at \<open>gd\<close> and \<open>sb\<close> follow.\<close>

definition put_counted :: "nat \<Rightarrow> nat \<Rightarrow> nat \<Rightarrow> nat \<Rightarrow> bool \<Rightarrow> memory \<Rightarrow> memory" where
  "put_counted gd sb b k v m = (let m1 = put_bit b k v m;
     m2 = put_le 2 gd (step16 v (get_le 2 m1 gd)) m1 in put_le 4 sb (step32 v (get_le 4 m2 sb)) m2)"

abbreviation block_put :: "memory \<Rightarrow> nat \<Rightarrow> bool \<Rightarrow> memory" where
  "block_put m k v \<equiv> put_counted bg_free_blocks_count s_free_blocks_count (blk_map m) k v m"

abbreviation inode_put :: "memory \<Rightarrow> nat \<Rightarrow> bool \<Rightarrow> memory" where
  "inode_put m k v \<equiv> put_counted bg_free_inodes_count s_free_inodes_count (ino_map m) k v m"

lemma put_counted_read:
  assumes "3072 \<le> b" "gd + 2 \<le> 3072" "sb + 4 \<le> gd"
  shows "get_le 2 (put_counted gd sb b k v m) gd = step16 v (get_le 2 m gd)"
    "get_le 4 (put_counted gd sb b k v m) sb = step32 v (get_le 4 m sb)"
    "x + n \<le> 3072 \<Longrightarrow> apart x n gd 2 \<Longrightarrow> apart x n sb 4 \<Longrightarrow> get_le n (put_counted gd sb b k v m) x = get_le n m x"
    "3072 \<le> x \<Longrightarrow> put_counted gd sb b k v m x = put_bit b k v m x"
  using assms
  by (simp_all add: put_counted_def Let_def get_put_le get_put_le_other get_le_put_bit apart_def put_le_outside)

text \<open>The free blocks and inodes, as sets of bits.\<close>

type_synonym free_space = "nat set \<times> nat set"

definition free_space :: "memory \<Rightarrow> free_space" where
  "free_space m = (free_bits m (blk_map m) (n_blocks m), free_bits m (ino_map m) (n_inodes m))"

definition flip :: "nat \<Rightarrow> bool \<Rightarrow> nat set \<Rightarrow> nat set" where
  "flip k v A = (if v then A - {k} else insert k A)"

lemma step_card:
  assumes "finite A" "k \<in> A \<longleftrightarrow> v"
  shows "step16 v (of_nat (card A)) = of_nat (card (flip k v A))"
    "step32 v (of_nat (card A)) = of_nat (card (flip k v A))"
proof -
  obtain c where "card A = (if v then Suc c else c)" "card (flip k v A) = (if v then c else Suc c)"
  proof (cases v)
    case True
    then have "card A = Suc (card (A - {k}))"
      using assms by (intro card.remove) auto
    with True that [of "card (A - {k})"] show ?thesis by (simp only: flip_def if_True)
  next
    case False
    with assms that [of "card A"] show ?thesis by (simp add: flip_def)
  qed
  then show "step16 v (of_nat (card A)) = of_nat (card (flip k v A))"
      "step32 v (of_nat (card A)) = of_nat (card (flip k v A))"
    by (simp_all add: step16_def step32_def)
qed

definition sound :: "memory \<Rightarrow> bool" where
  "sound m \<longleftrightarrow> fs_ok m \<and> counters_ok m"

lemma block_put:
  assumes "sound m" "k \<in> fst (free_space m) \<longleftrightarrow> v" "data_block m k" "k < 8 * n_blocks m"
  shows "sound (block_put m k v)" "same_layout m (block_put m k v)"
    "free_space (block_put m k v) = (flip k v (fst (free_space m)), snd (free_space m))"
proof -
  let ?m = "block_put m k v"
  have fs: "fs_ok m" and counters: "counters_ok m"
    using assms(1) by (simp_all add: sound_def)
  note D = fs_okD [OF fs]
  note read = put_counted_read [of "blk_map m" 2060 1036, OF D(1), simplified]
  show layout: "same_layout m ?m"
    using D by (auto intro!: same_layoutI simp: put_counted_def Let_def ext2_fields put_le_outside put_bit_other)
  have high: "?m x = put_bit (blk_map m) k v m x" if "3072 \<le> x" for x
    using that by (simp add: read ext2_fields)
  have "free_bits ?m (blk_map m) (n_blocks m) = free_bits (put_bit (blk_map m) k v m) (blk_map m) (n_blocks m)"
    by (rule free_bits_cong) (use D(1) high in simp)
  then have B: "free_bits ?m (blk_map m) (n_blocks m) = flip k v (free_bits m (blk_map m) (n_blocks m))"
    using assms(4) by (simp add: free_bits_put flip_def)
  have I: "free_bits ?m (ino_map m) (n_inodes m) = free_bits m (ino_map m) (n_inodes m)"
    by (rule free_bits_cong, subst high) (use D(3,7) assms(4) in \<open>auto simp: apart_def intro!: put_bit_other\<close>)
  show space: "free_space ?m = (flip k v (fst (free_space m)), snd (free_space m))"
    using B I layout by (simp add: free_space_def same_layout_def)
  have "fs_ok ?m"
    by (rule fs_ok_shrink [OF fs layout])
      (use B I D(10,11) assms(3) in \<open>auto simp: flip_def\<close>)
  moreover have "counters_ok ?m"
    using counters B I layout assms(2)
    by (simp add: counters_ok_def read ext2_fields apart_def same_layout_def free_space_def step_card)
  ultimately show "sound ?m"
    by (simp add: sound_def)
qed

lemma inode_put:
  assumes "sound m" "k \<in> snd (free_space m) \<longleftrightarrow> v" "k < n_inodes m"
  shows "sound (inode_put m k v)" "same_layout m (inode_put m k v)"
    "free_space (inode_put m k v) = (fst (free_space m), flip k v (snd (free_space m)))"
proof -
  let ?m = "inode_put m k v"
  have fs: "fs_ok m" and counters: "counters_ok m"
    using assms(1) by (simp_all add: sound_def)
  note D = fs_okD [OF fs]
  note read = put_counted_read [of "ino_map m" 2062 1040, OF D(3), simplified]
  show layout: "same_layout m ?m"
    using D by (auto intro!: same_layoutI simp: put_counted_def Let_def ext2_fields put_le_outside put_bit_other)
  have high: "?m x = put_bit (ino_map m) k v m x" if "3072 \<le> x" for x
    using that by (simp add: read ext2_fields)
  have "free_bits ?m (ino_map m) (n_inodes m) = free_bits (put_bit (ino_map m) k v m) (ino_map m) (n_inodes m)"
    by (rule free_bits_cong) (use D(3) high in simp)
  then have I: "free_bits ?m (ino_map m) (n_inodes m) = flip k v (free_bits m (ino_map m) (n_inodes m))"
    using assms(3) by (simp add: free_bits_put flip_def)
  have B: "free_bits ?m (blk_map m) (n_blocks m) = free_bits m (blk_map m) (n_blocks m)"
    by (rule free_bits_cong, subst high) (use D(1,7) assms(3) in \<open>auto simp: apart_def intro!: put_bit_other\<close>)
  show space: "free_space ?m = (fst (free_space m), flip k v (snd (free_space m)))"
    using B I layout by (simp add: free_space_def same_layout_def)
  have "fs_ok ?m"
    by (rule fs_ok_shrink [OF fs layout])
      (use B I D(10,11) assms(3) in \<open>auto simp: flip_def\<close>)
  moreover have "counters_ok ?m"
    using counters B I layout assms(2)
    by (simp add: counters_ok_def read ext2_fields apart_def same_layout_def free_space_def step_card)
  ultimately show "sound ?m"
    by (simp add: sound_def)
qed

section \<open>The operations\<close>

lemma get_start_run [prog]:
  "get_block_bitmap s = (Ok (blk_map (disk s)), s)" "bnd get_block_bitmap f s = f (blk_map (disk s)) s"
  "get_inode_bitmap s = (Ok (ino_map (disk s)), s)" "bnd get_inode_bitmap f s = f (ino_map (disk s)) s"
  "get_inode_table s = (Ok (ino_tab (disk s)), s)" "bnd get_inode_table f s = f (ino_tab (disk s)) s"
  by (simp_all add: get_block_bitmap_def get_inode_bitmap_def get_inode_table_def bnd_def prog layout_defs
      ext2_fields)

lemma get_inode_run [prog]:
  "get_inode n s = (Ok (inode_at (ino_tab (disk s)) n), s)"
  "bnd (get_inode n) f s = f (inode_at (ino_tab (disk s)) n) s"
  by (simp_all add: get_inode_def bnd_def prog)

text \<open>The check of the time is vacuous: a 32-bit number is not \<open>(time_t)-1\<close>.\<close>

lemma get_timestamp_run [prog]:
  "get_timestamp s = (Ok (now s), s)" "bnd get_timestamp f s = f (now s) s"
proof -
  have "\<not> bit (ucast (now s) :: 64 word) 40"
    using bit_imp_le_length [of "now s" 40] by (auto simp: bit_simps)
  moreover have "bit (- 1 :: 64 word) 40"
    by simp
  ultimately have "(ucast (now s) :: 64 word) \<noteq> - 1"
    by metis
  then show "get_timestamp s = (Ok (now s), s)" "bnd get_timestamp f s = f (now s) s"
    by (simp_all add: get_timestamp_def prog)
qed

lemma resource_take_free:
  "resource_take b n m = (let F = free_bits m b n in
     if F = {} then None else Some (Min F, put_bit b (Min F) True m))"
proof (cases "resource_take b n m")
  case None
  then show ?thesis by (auto simp: resource_take_None free_bits_def)
next
  case (Some p)
  then obtain k m' where p: "resource_take b n m = Some (k, m')" by (cases p) auto
  note facts = resource_take_Some [OF p]
  have "Min (free_bits m b n) = k"
    by (rule Min_eqI) (use facts in \<open>auto simp: free_bits_def not_less [symmetric]\<close>)
  with facts p show ?thesis by (auto simp: free_bits_def Let_def)
qed

lemma slot_of_num: "k < 2 ^ 31 - 1 \<Longrightarrow> slot_of (of_nat (k + 1)) = k \<and> 1 \<le> sint (of_nat (k + 1) :: 32 word)"
proof -
  assume "k < 2 ^ 31 - 1"
  then have "sint (of_nat (k + 1) :: 32 word) = int (k + 1)"
    by (subst signed_of_nat) (simp add: signed_take_bit_int_eq_self)
  then show ?thesis by (simp add: slot_of_def)
qed

definition block_ok :: "memory \<Rightarrow> 32 word \<Rightarrow> bool" where
  "block_ok m n \<longleftrightarrow> 1 \<le> sint n \<and> slot_of n < 8 * n_blocks m \<and> data_block m (slot_of n)"

definition inode_ok :: "memory \<Rightarrow> 32 word \<Rightarrow> bool" where
  "inode_ok m n \<longleftrightarrow> 1 \<le> sint n \<and> slot_of n < n_inodes m"

lemma soundD: "sound m \<Longrightarrow> fs_ok m" "sound m \<Longrightarrow> counters_ok m"
  by (simp_all add: sound_def)

lemma free_block_bound: "fs_ok m \<Longrightarrow> k \<in> fst (free_space m) \<Longrightarrow> data_block m k \<and> k < 127 \<and> k < 8 * n_blocks m"
  using fs_okD(10) [of m] by (auto simp: free_space_def free_bits_def data_block_def)

lemma free_inode_bound: "fs_ok m \<Longrightarrow> k \<in> snd (free_space m) \<Longrightarrow> k < n_inodes m \<and> k < 1024"
  using fs_okD(11) [of m] fs_okD(5,6) [of m] by (auto simp: free_space_def)

lemma bits_of_space:
  "k < 8 * n_blocks m \<Longrightarrow> bit_used m (blk_map m) k = (k \<notin> fst (free_space m))"
  "i < n_inodes m \<Longrightarrow> bit_used m (ino_map m) i = (i \<notin> snd (free_space m))"
  by (auto simp: free_space_def free_bits_def)

text \<open>Setting or clearing a bit, and a step of the counters, on a sound image.\<close>

lemma resource_run:
  assumes "1 \<le> sint n" "b + slot_of n div 8 < disk_size"
  shows "free_resource b n s = (Ok (), s\<lparr>disk := put_bit b (slot_of n) False (disk s)\<rparr>)"
    "set_resource_in_use b n s = (Ok (), s\<lparr>disk := put_bit b (slot_of n) True (disk s)\<rparr>)"
    "is_resource_in_use b n s = (Ok (bit_used (disk s) b (slot_of n)), s)"
  using assms
  by (simp_all add: free_resource_def set_resource_in_use_def is_resource_in_use_def on_bit_run prog put_bit_def
      Let_def bit_used_def in_use_bit)

lemma block_okD:
  assumes "fs_ok m" "block_ok m n"
  shows "1 \<le> sint n" "slot_of n < 8 * n_blocks m" "data_block m (slot_of n)"
    "blk_map m + slot_of n div 8 < 131072"
  using assms fs_okD(2) [of m] by (auto simp: block_ok_def)

lemma inode_okD:
  assumes "fs_ok m" "inode_ok m n"
  shows "1 \<le> sint n" "slot_of n < n_inodes m" "ino_map m + slot_of n div 8 < 131072"
  using assms fs_okD(4) [of m] by (auto simp: inode_ok_def)

lemma free_block_run:
  assumes "fs_ok (disk s)" "block_ok (disk s) n"
  shows "free_block n s = (Ok (), s\<lparr>disk := block_put (disk s) (slot_of n) False\<rparr>)"
  using block_okD [OF assms]
  by (simp add: free_block_def prog resource_run bnd_run put_counted_def Let_def
      step16_def step32_def ext2_fields)

lemma free_inode_run:
  assumes "fs_ok (disk s)" "inode_ok (disk s) n"
  shows "free_inode n s = (Ok (), s\<lparr>disk := inode_put (disk s) (slot_of n) False\<rparr>)"
  using inode_okD [OF assms]
  by (simp add: free_inode_def prog resource_run bnd_run put_counted_def Let_def
      step16_def step32_def ext2_fields)

lemma in_use_run:
  assumes "fs_ok (disk s)"
  shows "block_ok (disk s) n \<Longrightarrow> is_block_in_use n s = (Ok (slot_of n \<notin> fst (free_space (disk s))), s)"
    "inode_ok (disk s) i \<Longrightarrow> is_inode_in_use i s = (Ok (slot_of i \<notin> snd (free_space (disk s))), s)"
  using block_okD [OF assms, of n] inode_okD [OF assms, of i]
  by (simp_all add: is_block_in_use_def is_inode_in_use_def prog resource_run bits_of_space)

lemma set_block_in_use_run:
  assumes "fs_ok (disk s)" "block_ok (disk s) n"
  shows "set_block_in_use n s = (if slot_of n \<in> fst (free_space (disk s))
    then (Ok (), s\<lparr>disk := block_put (disk s) (slot_of n) True\<rparr>) else (Exit 1, s))"
  using block_okD [OF assms] in_use_run(1) [OF assms]
  by (simp add: set_block_in_use_def bnd_run prog resource_run put_counted_def Let_def step16_def step32_def ext2_fields)

lemma set_inode_in_use_run:
  assumes "fs_ok (disk s)" "inode_ok (disk s) n"
  shows "set_inode_in_use n s = (if slot_of n \<in> snd (free_space (disk s))
    then (Ok (), s\<lparr>disk := inode_put (disk s) (slot_of n) True\<rparr>) else (Exit 1, s))"
  using inode_okD [OF assms] in_use_run(2) [OF assms]
  by (simp add: set_inode_in_use_def bnd_run prog resource_run put_counted_def Let_def step16_def step32_def ext2_fields)

text \<open>The image after a block has been allocated and zeroed.\<close>

definition block_taken :: "memory \<Rightarrow> nat \<Rightarrow> memory" where
  "block_taken m k = put_bytes (1024 * (k + 1)) (replicate 1024 0) (block_put m k True)"

lemma block_start_num: "k < 127 \<Longrightarrow> block_start (of_nat (k + 1)) = 1024 * (k + 1)"
  by (simp add: block_start_def EXT2_BLOCK_SIZE_def unat_word_ariths unat_of_nat take_bit_nat_eq_self)

lemma get_count_run [prog]:
  "get_blocks_count s = (Ok (sint (get_le 4 (disk s) s_blocks_count :: 32 word)), s)"
  "bnd get_blocks_count f s = f (sint (get_le 4 (disk s) s_blocks_count :: 32 word)) s"
  "get_inodes_count s = (Ok (sint (get_le 4 (disk s) s_inodes_count :: 32 word)), s)"
  "bnd get_inodes_count f s = f (sint (get_le 4 (disk s) s_inodes_count :: 32 word)) s"
  by (simp_all add: get_blocks_count_def get_inodes_count_def bnd_def prog ext2_fields)

lemma allocate_bit_run:
  assumes "fs_ok (disk s)"
  shows "allocate_resource (blk_map (disk s)) (sint (get_le 4 (disk s) s_blocks_count :: 32 word)) s =
      (let B = fst (free_space (disk s)); k = Min B in if B = {} then (Exit ENOMEM, s)
       else (Ok (of_nat (k + 1)), s\<lparr>disk := put_bit (blk_map (disk s)) k True (disk s)\<rparr>))"
    "allocate_resource (ino_map (disk s)) (sint (get_le 4 (disk s) s_inodes_count :: 32 word)) s =
      (let I = snd (free_space (disk s)); k = Min I in if I = {} then (Exit ENOMEM, s)
       else (Ok (of_nat (k + 1)), s\<lparr>disk := put_bit (ino_map (disk s)) k True (disk s)\<rparr>))"
  using fs_okD [OF assms]
  by (simp_all add: allocate_resource_run resource_take_free free_space_def Let_def flip: n_blocks_def n_inodes_def)

lemma allocate_block_run:
  assumes "fs_ok (disk s)"
  shows "allocate_block s = (let B = fst (free_space (disk s)); k = Min B in
    if B = {} then (Exit ENOMEM, s) else (Ok (of_nat (k + 1)), s\<lparr>disk := block_taken (disk s) k\<rparr>))"
proof -
  let ?B = "fst (free_space (disk s))"
  have "Min ?B < 127" if "?B \<noteq> {}"
    using that free_block_bound [OF assms, of "Min ?B"] Min_in [of ?B] by (simp add: free_space_def)
  then show ?thesis
    using block_start_num [of "Min ?B"]
    by (cases "?B = {}")
      (simp_all add: allocate_block_def prog bnd_def allocate_bit_run [OF assms, unfolded ext2_fields, simplified]
        Let_def block_taken_def put_counted_def step16_def step32_def ext2_fields EXT2_BLOCK_SIZE_def)
qed

text \<open>The new inode, its times and its mode.\<close>

definition inode_taken :: "byte \<Rightarrow> 32 word \<Rightarrow> memory \<Rightarrow> nat \<Rightarrow> memory" where
  "inode_taken ft time m k =
    (let p = ino_tab m + 128 * k; m1 = put_bytes p (replicate 128 0) (inode_put m k True);
         m2 = put_le 2 p (get_le 2 m1 p OR get_inode_mode ft) m1
     in put_le 4 (p + 16) time (put_le 4 (p + 8) time (put_le 4 (p + 12) time m2)))"

lemma inode_at_num: "k < 2 ^ 31 \<Longrightarrow> inode_at t (of_nat (k + 1)) = t + 128 * k"
  by (simp add: inode_at_def INDEX_def inode_size_def unat_of_nat take_bit_nat_eq_self)

lemma allocate_inode_run:
  assumes "fs_ok (disk s)"
  shows "allocate_inode ft s = (let I = snd (free_space (disk s)); k = Min I in
    if I = {} then (Exit ENOMEM, s) else (Ok (of_nat (k + 1)), s\<lparr>disk := inode_taken ft (now s) (disk s) k\<rparr>))"
proof (cases "snd (free_space (disk s)) = {}")
  case True
  then show ?thesis
    by (simp add: allocate_inode_def prog bnd_def allocate_bit_run [OF assms, unfolded ext2_fields, simplified]
        ext2_fields)
next
  case False
  let ?k = "Min (snd (free_space (disk s)))"
  have k: "?k < n_inodes (disk s)" "?k < 1024"
    using False free_inode_bound [OF assms, of ?k] Min_in [of "snd (free_space (disk s))"]
    by (auto simp: free_space_def)
  have tab: "ino_tab (put_counted gd sb (ino_map (disk s)) ?k v (disk s)) = ino_tab (disk s)"
      if "gd = 2062" "sb = 1040" for gd sb v
    using that fs_okD(3) [OF assms]
    by (simp add: layout_defs ext2_fields put_counted_read(3) apart_def)
  have "inode_at (ino_tab (disk s)) (of_nat (?k + 1)) = ino_tab (disk s) + 128 * ?k"
    using k by (intro inode_at_num) simp
  with False k fs_okD(6) [OF assms] show ?thesis
    using tab [of 2062 1040 True]
    by (simp add: allocate_inode_def prog bnd_run allocate_bit_run [OF assms, unfolded ext2_fields, simplified]
        Let_def inode_taken_def put_counted_def step16_def step32_def ext2_fields inode_fields inode_size_def)
qed

section \<open>Requests\<close>

lemma kept_sound:
  assumes "sound m" "\<And>x. x < a \<or> a + n \<le> x \<Longrightarrow> m' x = m x" "3072 \<le> a"
    and "apart a n (blk_map m) (n_blocks m)" "apart a n (ino_map m) (n_inodes m)"
  shows "sound m'" "same_layout m m'" "free_space m' = free_space m"
proof -
  have kept: "fs_ok m' \<and> same_layout m m' \<and> counters_ok m' = counters_ok m \<and>
    free_bits m' (blk_map m) (n_blocks m) = free_bits m (blk_map m) (n_blocks m) \<and>
    free_bits m' (ino_map m) (n_inodes m) = free_bits m (ino_map m) (n_inodes m)"
    by (rule kept_outside [OF soundD(1) [OF assms(1)] assms(2-)])
  then show "sound m'" "same_layout m m'" "free_space m' = free_space m"
    using assms(1) by (simp_all add: sound_def free_space_def same_layout_def)
qed

lemma block_taken:
  assumes "sound m" "k \<in> fst (free_space m)"
  shows "sound (block_taken m k)" "same_layout m (block_taken m k)"
    "free_space (block_taken m k) = (fst (free_space m) - {k}, snd (free_space m))"
proof -
  have data: "data_block m k" "k < 8 * n_blocks m"
    using free_block_bound [OF soundD(1) [OF assms(1)] assms(2)] by auto
  note put = block_put [OF assms(1), of k True, simplified assms(2), OF refl data]
  have "data_block (block_put m k True) k"
    using put(2) data(1) by (simp add: data_block_def same_layout_def)
  then have data': "3072 \<le> 1024 * (k + 1)"
      "apart (1024 * (k + 1)) 1024 (blk_map (block_put m k True)) (n_blocks (block_put m k True))"
      "apart (1024 * (k + 1)) 1024 (ino_map (block_put m k True)) (n_inodes (block_put m k True))"
    by (simp_all add: data_block_def)
  note kept = kept_sound [OF put(1) _ data', of "block_taken m k"]
  have "block_taken m k x = block_put m k True x" if "x < 1024 * (k + 1) \<or> 1024 * (k + 1) + 1024 \<le> x" for x
    using that by (auto simp: block_taken_def put_bytes_apply)
  note kept [OF this] put
  then show "sound (block_taken m k)" "same_layout m (block_taken m k)"
    "free_space (block_taken m k) = (fst (free_space m) - {k}, snd (free_space m))"
    by (auto simp: flip_def intro: same_layout_trans)
qed

lemma inode_taken:
  assumes "sound m" "k \<in> snd (free_space m)"
  shows "sound (inode_taken ft time m k)" "same_layout m (inode_taken ft time m k)"
    "free_space (inode_taken ft time m k) = (fst (free_space m), snd (free_space m) - {k})"
proof -
  have fs: "fs_ok m" by (rule soundD(1) [OF assms(1)])
  have k: "k < n_inodes m"
    using free_inode_bound [OF fs assms(2)] by auto
  note put = inode_put [OF assms(1), of k True, simplified assms(2), OF refl k]
  have near: "128 * k + 128 \<le> 128 * n_inodes m"
    using k by simp
  have region: "3072 \<le> ino_tab m + 128 * k"
      "apart (ino_tab m + 128 * k) 128 (blk_map (inode_put m k True)) (n_blocks (inode_put m k True))"
      "apart (ino_tab m + 128 * k) 128 (ino_map (inode_put m k True)) (n_inodes (inode_put m k True))"
    using fs_okD(5,8,9) [OF fs] near put(2) by (auto simp: apart_def same_layout_def)
  note kept = kept_sound [OF put(1) _ region, of "inode_taken ft time m k"]
  have "inode_taken ft time m k x = inode_put m k True x"
    if "x < ino_tab m + 128 * k \<or> ino_tab m + 128 * k + 128 \<le> x" for x
    using that by (auto simp: inode_taken_def Let_def put_bytes_apply put_le_outside)
  note kept [OF this] put
  then show "sound (inode_taken ft time m k)" "same_layout m (inode_taken ft time m k)"
    "free_space (inode_taken ft time m k) = (fst (free_space m), snd (free_space m) - {k})"
    by (auto simp: flip_def intro: same_layout_trans)
qed

text \<open>The requests the tools make, and what they do to the sets of free blocks and inodes.\<close>

datatype request = Alloc_block | Alloc_inode byte | Free_block "32 word" | Free_inode "32 word"
  | Use_block "32 word" | Use_inode "32 word"

primrec perform :: "request \<Rightarrow> (ext2, 32 word) prog" where
  "perform Alloc_block = allocate_block"
| "perform (Alloc_inode ft) = allocate_inode ft"
| "perform (Free_block n) = thn (free_block n) (ret n)"
| "perform (Free_inode n) = thn (free_inode n) (ret n)"
| "perform (Use_block n) = thn (set_block_in_use n) (ret n)"
| "perform (Use_inode n) = thn (set_inode_in_use n) (ret n)"

fun serve :: "request \<Rightarrow> free_space \<Rightarrow> int + 32 word \<times> free_space" where
  "serve Alloc_block (B, I) = (if B = {} then Inl ENOMEM else Inr (of_nat (Min B + 1), (B - {Min B}, I)))"
| "serve (Alloc_inode ft) (B, I) = (if I = {} then Inl ENOMEM else Inr (of_nat (Min I + 1), (B, I - {Min I})))"
| "serve (Free_block n) (B, I) = Inr (n, (insert (slot_of n) B, I))"
| "serve (Free_inode n) (B, I) = Inr (n, (B, insert (slot_of n) I))"
| "serve (Use_block n) (B, I) = (if slot_of n \<in> B then Inr (n, (B - {slot_of n}, I)) else Inl 1)"
| "serve (Use_inode n) (B, I) = (if slot_of n \<in> I then Inr (n, (B, I - {slot_of n})) else Inl 1)"

text \<open>Only what is in use is freed, and only numbers of the disk are passed.\<close>

fun legal :: "memory \<Rightarrow> request \<Rightarrow> free_space \<Rightarrow> bool" where
  "legal m (Free_block n) (B, I) \<longleftrightarrow> block_ok m n \<and> slot_of n \<notin> B"
| "legal m (Free_inode n) (B, I) \<longleftrightarrow> inode_ok m n \<and> slot_of n \<notin> I"
| "legal m (Use_block n) (B, I) \<longleftrightarrow> block_ok m n"
| "legal m (Use_inode n) (B, I) \<longleftrightarrow> inode_ok m n"
| "legal m r (B, I) \<longleftrightarrow> True"

primrec perform_all :: "request list \<Rightarrow> (ext2, 32 word list) prog" where
  "perform_all [] = ret []"
| "perform_all (r # rs) = bnd (perform r) (\<lambda>n. bnd (perform_all rs) (\<lambda>ns. ret (n # ns)))"

primrec serve_all :: "request list \<Rightarrow> free_space \<Rightarrow> int + 32 word list \<times> free_space" where
  "serve_all [] F = Inr ([], F)"
| "serve_all (r # rs) F = (case serve r F of Inl c \<Rightarrow> Inl c
     | Inr (n, F') \<Rightarrow> (case serve_all rs F' of Inl c \<Rightarrow> Inl c | Inr (ns, F'') \<Rightarrow> Inr (n # ns, F'')))"

primrec legal_all :: "memory \<Rightarrow> request list \<Rightarrow> free_space \<Rightarrow> bool" where
  "legal_all m [] F \<longleftrightarrow> True"
| "legal_all m (r # rs) F \<longleftrightarrow> legal m r F \<and> (case serve r F of Inl c \<Rightarrow> True | Inr (n, F') \<Rightarrow> legal_all m rs F')"

lemma perform_serve:
  assumes "sound (disk s)" "legal (disk s) r (free_space (disk s))"
  shows "case serve r (free_space (disk s)) of
      Inl c \<Rightarrow> perform r s = (Exit c, s)
    | Inr (n, F) \<Rightarrow> \<exists>t. perform r s = (Ok n, t) \<and> sound (disk t) \<and> same_layout (disk s) (disk t) \<and>
        free_space (disk t) = F"
proof -
  obtain B I where F: "free_space (disk s) = (B, I)" by (cases "free_space (disk s)")
  note fs = soundD(1) [OF assms(1)]
  have fin: "finite B" "finite I"
    using F by (auto simp: free_space_def)
  show ?thesis
  proof (cases r)
    case Alloc_block
    then show ?thesis
      using allocate_block_run [OF fs] block_taken [OF assms(1), of "Min B"] Min_in [OF fin(1)] F
      by (simp add: Let_def)
  next
    case (Alloc_inode ft)
    then show ?thesis
      using allocate_inode_run [OF fs, of ft] inode_taken [OF assms(1), of "Min I" ft "now s"] Min_in [OF fin(2)] F
      by (simp add: Let_def)
  next
    case (Free_block n)
    then show ?thesis
      using assms F free_block_run [OF fs, of n] block_put [OF assms(1), of "slot_of n" False]
      by (simp add: prog bnd_run block_ok_def flip_def)
  next
    case (Free_inode n)
    then show ?thesis
      using assms F free_inode_run [OF fs, of n] inode_put [OF assms(1), of "slot_of n" False]
      by (simp add: prog bnd_run inode_ok_def flip_def)
  next
    case (Use_block n)
    then show ?thesis
      using assms F set_block_in_use_run [OF fs, of n] block_put [OF assms(1), of "slot_of n" True]
      by (simp add: prog bnd_run block_ok_def flip_def bnd_def)
  next
    case (Use_inode n)
    then show ?thesis
      using assms F set_inode_in_use_run [OF fs, of n] inode_put [OF assms(1), of "slot_of n" True]
      by (simp add: prog bnd_run inode_ok_def flip_def bnd_def)
  qed
qed

lemma legal_same_layout: "same_layout m m' \<Longrightarrow> legal m' r F = legal m r F"
  by (cases "(m, r, F)" rule: legal.cases) (simp_all add: same_layout_def block_ok_def inode_ok_def data_block_def)

lemma legal_all_same_layout: "same_layout m m' \<Longrightarrow> legal_all m' rs F = legal_all m rs F"
  by (induction rs arbitrary: F) (auto simp: legal_same_layout split: sum.splits prod.splits)

text \<open>
  C30: On a sound image, whatever sequence of allocations, releases and reservations of blocks and
  inodes the tools make (releasing only what is in use), the code on the bitmaps and the four
  counters does what the same requests do to two sets of free numbers: it hands out the least free
  number, exits with \<open>ENOMEM\<close> when the set is empty and with 1 when it is asked to reserve what is
  in use; and at every point, also when it exits, both copies of each counter are the number of
  zero bits of the bitmap.
\<close>

theorem requests_refine_sets:
  assumes "sound (disk s)" "legal_all (disk s) rs (free_space (disk s))"
  shows "case serve_all rs (free_space (disk s)) of
      Inl c \<Rightarrow> \<exists>t. perform_all rs s = (Exit c, t) \<and> sound (disk t)
    | Inr (ns, F) \<Rightarrow> \<exists>t. perform_all rs s = (Ok ns, t) \<and> sound (disk t) \<and> free_space (disk t) = F"
  using assms
proof (induction rs arbitrary: s)
  case Nil
  then show ?case by (simp add: prog)
next
  case (Cons r rs)
  note step = perform_serve [OF Cons.prems(1), of r]
  show ?case
  proof (cases "serve r (free_space (disk s))")
    case (Inl c)
    with step Cons.prems show ?thesis by (simp add: bnd_def)
  next
    case (Inr p)
    then obtain n F t where F: "serve r (free_space (disk s)) = Inr (n, F)"
        and t: "perform r s = (Ok n, t)" "sound (disk t)" "same_layout (disk s) (disk t)" "free_space (disk t) = F"
      using step Cons.prems by (cases p) auto
    with Cons.prems have "legal_all (disk t) rs (free_space (disk t))"
      by (simp add: legal_all_same_layout)
    from Cons.IH [OF t(2) this] F t show ?thesis
      by (auto simp: bnd_def prog split: sum.splits prod.splits)
  qed
qed

text \<open>
  An image with one free block, number 10, and one free inode, number 1; inode 2 is the root
  directory, with the entries \<open>.\<close> and \<open>..\<close> in block 9.
\<close>

definition small_image :: memory where
  "small_image a = (case map_of [(1024, 2), (1028, 2), (1036, 1), (1040, 1), (2048, 3), (2052, 4), (2056, 5),
     (2060, 1), (2062, 1), (3072, 0xFF), (3073, 0xFD), (4096, 0xFE), (4097, 0xFF),
     (5249, 0x40), (5253, 4), (5274, 2), (5276, 2), (5288, 9),
     (9216, 2), (9220, 12), (9222, 1), (9223, 2), (9224, 0x2E),
     (9228, 2), (9232, 0xF4), (9233, 3), (9234, 2), (9235, 2), (9236, 0x2E), (9237, 0x2E)] a of
     None \<Rightarrow> 0 | Some b \<Rightarrow> b)"

lemma get_le_small: "(\<And>i. a < i \<Longrightarrow> i < a + n \<Longrightarrow> m i = 0) \<Longrightarrow> 0 < n \<Longrightarrow> get_le n m a = (ucast (m a) :: 'w::len word)"
proof (cases n)
  case (Suc j)
  assume "\<And>i. a < i \<Longrightarrow> i < a + n \<Longrightarrow> m i = 0"
  then have "get_le j m (Suc a) = (get_le j (\<lambda>_. 0) (Suc a) :: 'w word)"
    using Suc by (intro get_le_cong) auto
  moreover have "get_le j (\<lambda>_. 0) b = (0 :: 'w word)" for b
    by (induction j arbitrary: b) auto
  ultimately show ?thesis using Suc by simp
qed simp

lemma small_layout:
  "blk_map small_image = 3072" "ino_map small_image = 4096" "ino_tab small_image = 5120"
  "n_blocks small_image = 2" "n_inodes small_image = 2"
  by (simp_all add: layout_defs ext2_fields get_le_small small_image_def block_start_def EXT2_BLOCK_SIZE_def)

lemma small_space: "free_space small_image = ({9}, {0})"
proof -
  have upt: "[0..<16] = [0,1,2,3,4,5,6,7,8,9,10,11,12,13,14,15]" 
    by code_simp+
  have "list_all (\<lambda>k. bit_used small_image 3072 k \<longleftrightarrow> k \<noteq> 9) [0..<16]"
      "list_all (\<lambda>k. bit_used small_image 4096 k \<longleftrightarrow> k \<noteq> 0) [0..<16]"
    by (simp_all add: upt bit_used_def small_image_def)
  then have "free_bits small_image 3072 2 = {9}" "free_bits small_image 4096 2 = {0}"
    by (auto simp: free_bits_def list_all_iff simp del: upt_rec_numeral)
  then show ?thesis
    by (simp add: free_space_def small_layout)
qed

lemma small_sound: "sound small_image"
proof -
  have "get_le 2 small_image bg_free_blocks_count = (1 :: 16 word) \<and>
      get_le 4 small_image s_free_blocks_count = (1 :: 32 word) \<and>
      get_le 2 small_image bg_free_inodes_count = (1 :: 16 word) \<and>
      get_le 4 small_image s_free_inodes_count = (1 :: 32 word)"
    by (simp add: ext2_fields get_le_small small_image_def)
  then show ?thesis
    using small_space
    by (simp add: sound_def fs_ok_def counters_ok_def free_space_def small_layout apart_def data_block_def)
qed

lemma requests_refine_sets_witness:
  "\<exists>t. perform_all [Alloc_block, Free_block 10, Use_block 10, Alloc_inode 1] \<lparr>disk = small_image, now = 0, src = []\<rparr> =
     (Ok [10, 10, 10, 1], t) \<and> free_space (disk t) = ({}, {})"
proof -
  let ?s = "\<lparr>disk = small_image, now = 0, src = []\<rparr>" and ?rs = "[Alloc_block, Free_block 10, Use_block 10, Alloc_inode 1]"
  have "slot_of 10 = 9" "1 \<le> sint (10 :: 32 word)"
    by code_simp+
  moreover from this have "block_ok small_image 10"
    by (simp add: block_ok_def data_block_def small_layout apart_def)
  ultimately show ?thesis
    using requests_refine_sets [of ?s ?rs] small_sound
    by (auto simp: small_space simp del: perform_all.simps)
qed

end
