(* ===== verification/Recount.thy ===== *)
theory Recount
  imports Counters
begin

text \<open>
  The first half of \<open>ext2_checker\<close>: recounting the zero bits of the bitmaps.  The count is the size of
  the set of free numbers, and the repair makes the image sound.
\<close>

section \<open>Counting\<close>

lemma count_byte: "set is \<subseteq> {..<8} \<Longrightarrow> count_byte b is num = num + int (length (filter (\<lambda>i. \<not> bit b i) is))"
  by (induction "is" arbitrary: num) (simp_all add: in_use_bit)

lemma bits_of_bytes: "concat (map (\<lambda>i. map (\<lambda>k. 8 * i + k) [0..<8]) [0..<n]) = [0..<8 * n]"
proof (induction n)
  case (Suc n)
  have "[0..<8 * Suc n] = [0..<8 * n] @ map (\<lambda>k. 8 * n + k) [0..<8]"
    using upt_add_eq_append [of 0 "8 * n" 8] by (simp add: map_add_upt add.commute)
  with Suc show ?case by (simp only: upt_Suc_append map_append concat_append) simp
qed simp

lemma count_low_bits:
  assumes "\<forall>i \<in> set is. b + i < disk_size"
  shows "count_low_bits b is num s = (Ok (num + int (length (filter (\<lambda>k. \<not> bit_used (disk s) b k)
    (concat (map (\<lambda>i. map (\<lambda>k. 8 * i + k) [0..<8]) is))))), s)"
  using assms
proof (induction "is" arbitrary: num)
  case (Cons i "is")
  have "filter (\<lambda>k. \<not> bit_used (disk s) b k) (map (\<lambda>k. 8 * i + k) ks) =
      map (\<lambda>k. 8 * i + k) (filter (\<lambda>k. \<not> bit (disk s (b + i)) k) ks)" if "set ks \<subseteq> {..<8}" for ks
    using that by (induction ks) (auto simp: bit_used_def)
  then have "length (filter (\<lambda>k. \<not> bit_used (disk s) b k) (map (\<lambda>k. 8 * i + k) [0..<8])) =
      length (filter (\<lambda>k. \<not> bit (disk s (b + i)) k) [0..<8])"
    using length_map by (metis atLeastLessThan_upt atLeast0LessThan order_refl)
  moreover have "count_byte w [0..<8] num = num + int (length (filter (\<lambda>k. \<not> bit w k) [0..<8]))" for w
    by (rule count_byte) auto
  ultimately show ?case
    using Cons by (simp add: prog del: upt.simps upt_rec_numeral)
qed (simp add: prog)

lemma count_free:
  assumes "b + n \<le> disk_size"
  shows "count_low_bits b [0..<n] 0 s = (Ok (int (card (free_bits (disk s) b n))), s)"
proof -
  let ?ks = "filter (\<lambda>k. \<not> bit_used (disk s) b k) [0..<8 * n]"
  have "free_bits (disk s) b n = set ?ks"
    by (auto simp: free_bits_def)
  then have "card (free_bits (disk s) b n) = length ?ks"
    by (simp only: distinct_card distinct_filter distinct_upt)
  with assms count_low_bits [of "[0..<n]" b 0 s] show ?thesis
    by (simp only: bits_of_bytes) simp
qed

section \<open>Repairing the counters\<close>

lemma put_le_same:
  fixes w :: "'w::len word"
  assumes "w = get_le n m a" "8 * n \<le> LENGTH('w)"
  shows "put_le n a w m = m"
proof
  fix x
  show "put_le n a w m x = m x"
  proof (cases "x < a \<or> a + n \<le> x")
    case False
    then obtain k where k: "x = a + k" "k < n"
      by (metis le_Suc_ex nat_add_left_cancel_less not_le)
    have "ucast (drop_bit (8 * k) w) = m (a + k)"
    proof (rule bit_word_eqI)
      fix i assume i: "i < LENGTH(8)"
      then have "8 * k + i < 8 * n" "(8 * k + i) div 8 = k" "(8 * k + i) mod 8 = i"
        using k(2) by auto
      with i assms show "bit (ucast (drop_bit (8 * k) w) :: byte) i = bit (m (a + k)) i"
        by (auto simp: bit_simps get_le_bit)
    qed
    with k show ?thesis by (simp add: put_le_inside)
  qed (simp add: put_le_outside)
qed

definition recounted :: "nat \<Rightarrow> nat \<Rightarrow> nat \<Rightarrow> memory \<Rightarrow> memory" where
  "recounted sb gd c m = put_le 2 gd (of_nat c :: 16 word) (put_le 4 sb (of_nat c :: 32 word) m)"

definition counted :: "nat \<Rightarrow> nat \<Rightarrow> nat \<Rightarrow> memory \<Rightarrow> bool" where
  "counted sb gd c m \<longleftrightarrow> get_le 4 m sb = (of_nat c :: 32 word) \<and> get_le 2 m gd = (of_nat c :: 16 word)"

lemma small_words:
  assumes "c < 2048"
  shows "int c = sint (w :: 32 word) \<longleftrightarrow> w = of_nat c" "int c = uint (v :: 16 word) \<longleftrightarrow> v = of_nat c"
proof -
  have "sint (of_nat c :: 32 word) = int c" "uint (of_nat c :: 16 word) = int c"
    using assms by (simp_all add: signed_of_nat unsigned_of_nat signed_take_bit_int_eq_self take_bit_int_eq_self
        take_bit_nat_eq_self flip: of_nat_take_bit)
  moreover have "w = of_nat c" if "int c = sint w"
    using arg_cong [OF that, of "of_int :: int \<Rightarrow> 32 word"] by simp
  moreover have "v = of_nat c" if "int c = uint v"
    using arg_cong [OF that, of "of_int :: int \<Rightarrow> 16 word"] by simp
  ultimately show "int c = sint w \<longleftrightarrow> w = of_nat c" "int c = uint v \<longleftrightarrow> v = of_nat c"
    by auto
qed

text \<open>What the repair adds to the number of inconsistencies: by how much the two counters are off.\<close>

definition counter_error :: "nat \<Rightarrow> nat \<Rightarrow> nat \<Rightarrow> memory \<Rightarrow> int" where
  "counter_error sb gd c m =
     \<bar>int c - sint (get_le 4 m sb :: 32 word)\<bar> + \<bar>int c - uint (get_le 2 m gd :: 16 word)\<bar>"

lemma counter_error:
  "0 \<le> counter_error sb gd c m"
  "c < 2048 \<Longrightarrow> counter_error sb gd c m = 0 \<longleftrightarrow> counted sb gd c m"
proof -
  show "counter_error sb gd c m = 0 \<longleftrightarrow> counted sb gd c m" if "c < 2048"
    unfolding counter_error_def counted_def small_words [OF that, symmetric] by linarith
qed (simp add: counter_error_def)

lemma fix_counters_run:
  assumes "c < 2048" "sb + 4 \<le> gd" "gd + 2 \<le> disk_size"
  shows "fix_counters sb gd (int c) s = (Ok (counter_error sb gd c (disk s)), s\<lparr>disk := recounted sb gd c (disk s)\<rparr>)"
proof -
  let ?m = "disk s"
  note words = small_words [OF assms(1)]
  have "put_le 4 sb (of_nat c :: 32 word) ?m = ?m" if "get_le 4 ?m sb = (of_nat c :: 32 word)"
    by (rule put_le_same) (use that in simp_all)
  moreover have "put_le 2 gd (of_nat c :: 16 word) m = m" if "get_le 2 m gd = (of_nat c :: 16 word)" for m
    by (rule put_le_same) (use that in simp_all)
  ultimately show ?thesis
    using assms by (auto simp: fix_counters_def Let_def prog recounted_def counter_error_def get_put_le_other words)
qed

text \<open>The fields the repair may change.\<close>

definition counter_byte :: "nat \<Rightarrow> bool" where
  "counter_byte x \<longleftrightarrow> 1036 \<le> x \<and> x < 1044 \<or> 2060 \<le> x \<and> x < 2064"

lemma recounted_other: "x < sb \<or> sb + 4 \<le> x \<Longrightarrow> x < gd \<or> gd + 2 \<le> x \<Longrightarrow> recounted sb gd c m x = m x"
  unfolding recounted_def by (simp only: put_le_outside)

lemma recounted_same: "counted sb gd c m \<Longrightarrow> recounted sb gd c m = m"
  by (simp add: counted_def recounted_def put_le_same)

lemma recounted_le:
  "sb + 4 \<le> gd \<Longrightarrow> get_le 4 (recounted sb gd c m) sb = (of_nat c :: 32 word)"
  "get_le 2 (recounted sb gd c m) gd = (of_nat c :: 16 word)"
  "apart x n gd 2 \<Longrightarrow> apart x n sb 4 \<Longrightarrow> get_le n (recounted sb gd c m) x = get_le n m x"
  by (simp_all add: recounted_def get_put_le get_put_le_other apart_def)

lemma counter_change:
  assumes "fs_ok m" "\<And>x. \<not> counter_byte x \<Longrightarrow> m' x = m x"
  shows "fs_ok m'" "same_layout m m'" "free_space m' = free_space m"
proof -
  note D = fs_okD [OF assms(1)]
  show layout: "same_layout m m'"
    by (rule same_layoutI) (simp_all add: assms(2) counter_byte_def)
  have bits: "free_bits m' (blk_map m) (n_blocks m) = free_bits m (blk_map m) (n_blocks m)"
      "free_bits m' (ino_map m) (n_inodes m) = free_bits m (ino_map m) (n_inodes m)"
    using D(1,3) by (auto intro!: free_bits_cong assms(2) simp: counter_byte_def)
  then show "free_space m' = free_space m"
    using layout by (simp add: free_space_def same_layout_def)
  show "fs_ok m'"
    by (rule fs_ok_shrink [OF assms(1) layout]) (use bits D(10,11) in simp_all)
qed

lemma counters_counted:
  "counters_ok m \<longleftrightarrow> counted s_free_blocks_count bg_free_blocks_count (card (fst (free_space m))) m \<and>
     counted s_free_inodes_count bg_free_inodes_count (card (snd (free_space m))) m"
  by (auto simp: counters_ok_def counted_def free_space_def)

lemma free_space_small:
  assumes "fs_ok m"
  shows "card (fst (free_space m)) < 2048" "card (snd (free_space m)) < 2048"
proof -
  note D = fs_okD [OF assms]
  have "fst (free_space m) \<subseteq> {..<127}"
    using D(10) by (auto simp: free_space_def data_block_def)
  from card_mono [OF _ this] show "card (fst (free_space m)) < 2048"
    by simp
  have "snd (free_space m) \<subseteq> {..<1024}"
    using D(5,6,11) by (auto simp: free_space_def)
  from card_mono [OF _ this] show "card (snd (free_space m)) < 2048"
    by simp
qed

lemma fix_free_inodes_run:
  assumes "fs_ok (disk s)" "c = card (snd (free_space (disk s)))"
  shows "fix_free_inodes_count s = (Ok (counter_error s_free_inodes_count bg_free_inodes_count c (disk s)),
    s\<lparr>disk := recounted s_free_inodes_count bg_free_inodes_count c (disk s)\<rparr>)"
proof -
  have "count_low_bits (ino_map (disk s)) [0..<n_inodes (disk s)] 0 s = (Ok (int c), s)"
    unfolding assms(2) free_space_def snd_conv by (rule count_free) (use fs_okD(4) [OF assms(1)] in simp)
  then have "fix_free_inodes_count s = fix_counters s_free_inodes_count bg_free_inodes_count (int c) s"
    by (simp add: fix_free_inodes_count_def prog bnd_run flip: n_inodes_def)
  then show ?thesis
    using fix_counters_run [of c s_free_inodes_count bg_free_inodes_count s] free_space_small(2) [OF assms(1)] assms(2)
    by (simp add: ext2_fields)
qed

lemma fix_free_blocks_run:
  assumes "fs_ok (disk s)" "c = card (fst (free_space (disk s)))"
  shows "fix_free_blocks_count s = (Ok (counter_error s_free_blocks_count bg_free_blocks_count c (disk s)),
    s\<lparr>disk := recounted s_free_blocks_count bg_free_blocks_count c (disk s)\<rparr>)"
proof -
  have "count_low_bits (blk_map (disk s)) [0..<n_blocks (disk s)] 0 s = (Ok (int c), s)"
    unfolding assms(2) free_space_def fst_conv by (rule count_free) (use fs_okD(2) [OF assms(1)] in simp)
  then have "fix_free_blocks_count s = fix_counters s_free_blocks_count bg_free_blocks_count (int c) s"
    by (simp add: fix_free_blocks_count_def prog bnd_run flip: n_blocks_def)
  then show ?thesis
    using fix_counters_run [of c s_free_blocks_count bg_free_blocks_count s] free_space_small(1) [OF assms(1)] assms(2)
    by (simp add: ext2_fields)
qed

text \<open>The two repairs, in the order of \<open>main\<close>, and the errors they count.\<close>

definition recount :: "(ext2, int) prog" where
  "recount = bnd fix_free_inodes_count (\<lambda>k1. bnd fix_free_blocks_count (\<lambda>k2. ret (k1 + k2)))"

abbreviation inode_errors :: "memory \<Rightarrow> int" where
  "inode_errors m \<equiv> counter_error s_free_inodes_count bg_free_inodes_count (card (snd (free_space m))) m"

abbreviation block_errors :: "memory \<Rightarrow> int" where
  "block_errors m \<equiv> counter_error s_free_blocks_count bg_free_blocks_count (card (fst (free_space m))) m"

lemma counter_errors:
  assumes "fs_ok m"
  shows "inode_errors m + block_errors m = 0 \<longleftrightarrow> counters_ok m"
  using counter_error(1) [of s_free_inodes_count] counter_error(1) [of s_free_blocks_count]
  unfolding counters_counted counter_error(2) [OF free_space_small(1) [OF assms], symmetric]
    counter_error(2) [OF free_space_small(2) [OF assms], symmetric]
  by (metis add.commute add_nonneg_eq_0_iff)

lemma both_counts_run:
  assumes "fs_ok (disk s)"
  shows "\<exists>u t. fix_free_inodes_count s = (Ok (inode_errors (disk s)), u) \<and>
    fix_free_blocks_count u = (Ok (block_errors (disk s)), t) \<and> counters_ok (disk t) \<and>
    (counters_ok (disk s) \<longrightarrow> u = s \<and> t = s) \<and> (\<forall>x. \<not> counter_byte x \<longrightarrow> disk t x = disk s x)"
proof -
  let ?m = "disk s"
  let ?I = "card (snd (free_space ?m))" and ?B = "card (fst (free_space ?m))"
  let ?m1 = "recounted s_free_inodes_count bg_free_inodes_count ?I ?m"
  let ?m2 = "recounted s_free_blocks_count bg_free_blocks_count ?B ?m1"
  have same: "?m1 x = ?m x" "?m2 x = ?m x" if "\<not> counter_byte x" for x
    using that by (auto simp: recounted_other counter_byte_def ext2_fields)
  note step = counter_change [OF assms, of ?m1, OF same(1)]
  have "counter_error s_free_blocks_count bg_free_blocks_count ?B ?m1 = block_errors ?m"
    by (simp add: counter_error_def recounted_le apart_def ext2_fields)
  then have "fix_free_blocks_count (s\<lparr>disk := ?m1\<rparr>) = (Ok (block_errors ?m), s\<lparr>disk := ?m2\<rparr>)"
    using fix_free_blocks_run [of "s\<lparr>disk := ?m1\<rparr>" ?B] step by simp
  moreover have "counters_ok ?m2"
    using counter_change(3) [OF assms, of ?m2, OF same(2)]
    by (simp add: counters_counted counted_def recounted_le apart_def ext2_fields)
  moreover have "?m1 = ?m \<and> ?m2 = ?m" if "counters_ok ?m"
    using that by (simp add: counters_counted recounted_same)
  ultimately show ?thesis
    using fix_free_inodes_run [OF assms refl] same(2)
    by (intro exI [of _ "s\<lparr>disk := ?m1\<rparr>"] exI [of _ "s\<lparr>disk := ?m2\<rparr>"]) auto
qed

lemma recount_run:
  assumes "fs_ok (disk s)"
  shows "\<exists>k t. 0 \<le> k \<and> recount s = (Ok k, t) \<and> (k = 0 \<longleftrightarrow> counters_ok (disk s)) \<and>
    (k = 0 \<longrightarrow> t = s) \<and> counters_ok (disk t) \<and> (\<forall>x. \<not> counter_byte x \<longrightarrow> disk t x = disk s x)"
proof -
  obtain u t where run: "fix_free_inodes_count s = (Ok (inode_errors (disk s)), u)"
      "fix_free_blocks_count u = (Ok (block_errors (disk s)), t)" "counters_ok (disk t)"
      "counters_ok (disk s) \<Longrightarrow> t = s" "\<forall>x. \<not> counter_byte x \<longrightarrow> disk t x = disk s x"
    using both_counts_run [OF assms] by blast
  then show ?thesis
    using counter_errors [OF assms] counter_error(1) [of s_free_inodes_count] counter_error(1) [of s_free_blocks_count]
    by (intro exI [of _ "inode_errors (disk s) + block_errors (disk s)"] exI [of _ t])
      (simp add: recount_def prog bnd_run)
qed

text \<open>
  C40: The two counter repairs of the checker, the first step of its \<open>main\<close>, on an image whose layout
  is sound: each returns, and reports by how much the counter of the super block and the counter of
  the group differ from the number of zero bits of its bitmap.  Afterwards all four counters are these
  numbers and no other byte has changed, with the same free blocks and inodes; a second run of both
  reports 0 and changes nothing, just as the first one does when the counters were right.
\<close>

theorem checker_recounts:
  fixes s :: ext2
  defines "m \<equiv> disk s"
  defines "B \<equiv> card (fst (free_space m))" and "I \<equiv> card (snd (free_space m))"
  assumes "fs_ok m"
  shows "\<exists>u t. fix_free_inodes_count s = (Ok (\<bar>int I - sint (get_le 4 m s_free_inodes_count :: 32 word)\<bar> +
      \<bar>int I - uint (get_le 2 m bg_free_inodes_count :: 16 word)\<bar>), u) \<and>
    fix_free_blocks_count u = (Ok (\<bar>int B - sint (get_le 4 m s_free_blocks_count :: 32 word)\<bar> +
      \<bar>int B - uint (get_le 2 m bg_free_blocks_count :: 16 word)\<bar>), t) \<and>
    (counters_ok m \<longrightarrow> t = s) \<and> counters_ok (disk t) \<and> fs_ok (disk t) \<and> free_space (disk t) = free_space m \<and>
    (\<forall>x. \<not> counter_byte x \<longrightarrow> disk t x = m x) \<and>
    fix_free_inodes_count t = (Ok 0, t) \<and> fix_free_blocks_count t = (Ok 0, t)"
proof -
  obtain u t where run: "fix_free_inodes_count s = (Ok (inode_errors m), u)"
      "fix_free_blocks_count u = (Ok (block_errors m), t)" "counters_ok (disk t)"
      "counters_ok m \<longrightarrow> t = s" "\<And>x. \<not> counter_byte x \<Longrightarrow> disk t x = m x"
    using both_counts_run assms(4) unfolding m_def by blast
  note kept = counter_change [OF assms(4) run(5)]
  have "fix_free_inodes_count t = (Ok 0, t)" "fix_free_blocks_count t = (Ok 0, t)"
    using both_counts_run [OF kept(1)] counter_errors [OF kept(1)] run(3)
      counter_error(1) [of s_free_inodes_count] counter_error(1) [of s_free_blocks_count]
    by (auto simp: add_nonneg_eq_0_iff)
  with run kept show ?thesis
    unfolding B_def I_def counter_error_def by (intro exI [of _ u] exI [of _ t]) simp
qed

lemma checker_recounts_witness:
  "\<exists>u t. fix_free_inodes_count \<lparr>disk = small_image(1036 := 7), now = 0, src = []\<rparr> = (Ok 0, u) \<and>
     fix_free_blocks_count u = (Ok 6, t) \<and> free_space (disk t) = ({9}, {0}) \<and> counters_ok (disk t)"
proof -
  let ?m = "small_image(1036 := 7)"
  have kept: "fs_ok ?m" "free_space ?m = ({9}, {0})"
    by (rule counter_change [OF soundD(1) [OF small_sound], of ?m, unfolded small_space];
        auto simp: counter_byte_def)+
  have le2: "get_le 2 m a = ucast (m a) OR push_bit 8 (ucast (m (Suc a)))" for m a
    by (simp add: numeral_2_eq_2)
  have "get_le 4 ?m s_free_blocks_count = (7 :: 32 word)" "get_le 2 ?m bg_free_blocks_count = (1 :: 16 word)"
      "get_le 4 ?m s_free_inodes_count = (1 :: 32 word)" "get_le 2 ?m bg_free_inodes_count = (1 :: 16 word)"
    by (simp_all add: ext2_fields get_le_small le2 small_image_def)
  then show ?thesis
    using checker_recounts [of "\<lparr>disk = ?m, now = 0, src = []\<rparr>"] kept by auto
qed

end
