(* ===== verification/Paths.thy ===== *)
theory Paths
  imports Directory
begin

text \<open>
  Paths (Assignment4/ext2_utils.c): the tokens \<open>strtok\<close> yields, the walk from the root directory to
  an entry, the creation of the target of a copy or a link, and the data that goes into them.
\<close>

definition SLASH :: byte where "SLASH = 0x2F"

definition IS_PATH_ABSOLUTE :: "cstring \<Rightarrow> bool" where
  "IS_PATH_ABSOLUTE path \<longleftrightarrow> path \<noteq> [] \<and> hd path = SLASH"

text \<open>The tokens that \<open>strtok(path, "/")\<close> and then \<open>strtok(NULL, "/")\<close> return, up to the first null.\<close>

function tokens :: "cstring \<Rightarrow> cstring list" where
  "tokens s =
    (let t = dropWhile (\<lambda>c. c = SLASH) s
     in if t = [] then []
        else takeWhile (\<lambda>c. c \<noteq> SLASH) t # tokens (dropWhile (\<lambda>c. c \<noteq> SLASH) t))"
  by auto
termination
proof (relation "measure length")
  fix s t :: cstring
  assume t: "t = dropWhile (\<lambda>c. c = SLASH) s" "t \<noteq> []"
  then have "hd t \<noteq> SLASH"
    using hd_dropWhile by force
  then have "length (dropWhile (\<lambda>c. c \<noteq> SLASH) t) < length t"
    using t(2) by (cases t) (auto simp: length_dropWhile_le le_imp_less_Suc)
  also have "\<dots> \<le> length s"
    by (simp add: t length_dropWhile_le)
  finally show "(dropWhile (\<lambda>c. c \<noteq> SLASH) t, s) \<in> measure length" by simp
qed simp

declare tokens.simps [simp del]

text \<open>The next token, null at the end.\<close>

definition next_token :: "cstring list \<Rightarrow> cstring option" where
  "next_token ts = (case ts of [] \<Rightarrow> None | t # _ \<Rightarrow> Some t)"

definition get_file_name :: "cstring \<Rightarrow> cstring option" where
  "get_file_name path = (case tokens path of [] \<Rightarrow> None | ts \<Rightarrow> Some (last ts))"

section \<open>Looking up a path\<close>

definition path_terminator_valid :: "cstring \<Rightarrow> nat option \<Rightarrow> (ext2, bool) prog" where
  "path_terminator_valid path entry =
    (case entry of
       None \<Rightarrow> ret True
     | Some e \<Rightarrow> bnd (ld8 (de_file_type e)) (\<lambda>ft.
         ret (\<not> (ft \<noteq> EXT2_FT_DIR \<and> path \<noteq> [] \<and> last path = SLASH))))"

text \<open>
  The \<open>while\<close> loop of \<open>find_dir_entry\<close>, with \<open>token\<close> followed by the tokens \<open>ts\<close>; \<open>cur\<close> is the
  entry of the directory to search.
\<close>

primrec find_path_loop :: "nat \<Rightarrow> cstring \<Rightarrow> cstring list \<Rightarrow> nat option \<Rightarrow> cstring \<Rightarrow> (ext2, nat option) prog" where
  "find_path_loop i_table path [] cur token =
    (case cur of
       None \<Rightarrow> faultp
     | Some e \<Rightarrow> bnd (ld32 (de_inode e)) (\<lambda>i.
         bnd (find_entry (inode_at i_table i) (Some token)) (\<lambda>entry.
         if entry = None then exitp ENOENT
         else bnd (path_terminator_valid path entry) (\<lambda>valid.
           if \<not> valid then exitp ENOENT else ret entry))))"
| "find_path_loop i_table path (next # ts) cur token =
    (case cur of
       None \<Rightarrow> faultp
     | Some e \<Rightarrow> bnd (ld32 (de_inode e)) (\<lambda>i.
         bnd (find_entry (inode_at i_table i) (Some token)) (\<lambda>entry.
         case entry of
           None \<Rightarrow> exitp ENOENT
         | Some e' \<Rightarrow> bnd (ld8 (de_file_type e')) (\<lambda>ft.
             if ft = EXT2_FT_SYMLINK then exitp ENOENT
             else if ft \<noteq> EXT2_FT_DIR then exitp ENOENT
             else find_path_loop i_table path ts entry next))))"

definition root_inode :: "nat \<Rightarrow> nat" where
  "root_inode i_table = i_table + EXT2_ROOT_INO_IDX * inode_size"

definition find_dir_entry :: "cstring \<Rightarrow> (ext2, nat option) prog" where
  "find_dir_entry path =
    (if \<not> IS_PATH_ABSOLUTE path then exitp ENOENT
     else bnd get_inode_table (\<lambda>i_table.
       bnd (find_entry (root_inode i_table) (Some (str ''.''))) (\<lambda>cur.
       case tokens path of
         [] \<Rightarrow> bnd (path_terminator_valid path cur) (\<lambda>valid.
           if \<not> valid then exitp ENOENT else ret cur)
       | token # ts \<Rightarrow> find_path_loop i_table path ts cur token)))"

section \<open>Creating the target of a copy or a link\<close>

text \<open>
  The loops of \<open>cp_create_target_file\<close> and \<open>ln_create_target_file\<close> go on while the entry of the last
  token exists; \<open>rem\<close> is the rest of the path behind the tokens consumed so far, a slash behind a
  directory included.  The result is the directory reached, the token that was not found (or null)
  and \<open>rem\<close>.
\<close>

definition skip_slash :: "byte \<Rightarrow> cstring \<Rightarrow> cstring" where
  "skip_slash ft rem = (if ft = EXT2_FT_DIR \<and> rem \<noteq> [] \<and> hd rem = SLASH then tl rem else rem)"

primrec cp_loop :: "nat \<Rightarrow> cstring list \<Rightarrow> nat \<Rightarrow> nat option \<Rightarrow> cstring option \<Rightarrow> cstring \<Rightarrow>
    (ext2, nat \<times> cstring option \<times> cstring) prog" where
  "cp_loop i_table [] cur entry token rem =
    (case entry of
       None \<Rightarrow> ret (cur, token, rem)
     | Some e \<Rightarrow> bnd (ld8 (de_file_type e)) (\<lambda>ft.
         let rem = skip_slash ft rem
         in if ft \<noteq> EXT2_FT_DIR then (if rem \<noteq> [] then exitp ENOENT else exitp EEXIST)
            else bnd (ld32 (de_inode e)) (\<lambda>i. ret (inode_at i_table i, None, rem))))"
| "cp_loop i_table (t # ts) cur entry token rem =
    (case entry of
       None \<Rightarrow> ret (cur, token, rem)
     | Some e \<Rightarrow> bnd (ld8 (de_file_type e)) (\<lambda>ft.
         let rem = skip_slash ft rem
         in if ft \<noteq> EXT2_FT_DIR then (if rem \<noteq> [] then exitp ENOENT else exitp EEXIST)
            else bnd (ld32 (de_inode e)) (\<lambda>i.
              let cur = inode_at i_table i
              in bnd (find_entry cur (Some t)) (\<lambda>entry.
                 cp_loop i_table ts cur entry (Some t) (drop (length t) rem)))))"

primrec ln_loop :: "nat \<Rightarrow> cstring list \<Rightarrow> nat \<Rightarrow> nat option \<Rightarrow> cstring option \<Rightarrow> cstring \<Rightarrow>
    (ext2, nat \<times> cstring option \<times> cstring) prog" where
  "ln_loop i_table [] cur entry token rem =
    (case entry of
       None \<Rightarrow> ret (cur, token, rem)
     | Some e \<Rightarrow> bnd (ld8 (de_file_type e)) (\<lambda>ft.
         let rem = skip_slash ft rem
         in if ft = EXT2_FT_SYMLINK then (if rem \<noteq> [] then exitp ENOENT else exitp EEXIST)
            else if ft \<noteq> EXT2_FT_DIR then (if rem \<noteq> [] then exitp ENOENT else exitp EEXIST)
            else bnd (ld32 (de_inode e)) (\<lambda>i. ret (inode_at i_table i, None, rem))))"
| "ln_loop i_table (t # ts) cur entry token rem =
    (case entry of
       None \<Rightarrow> ret (cur, token, rem)
     | Some e \<Rightarrow> bnd (ld8 (de_file_type e)) (\<lambda>ft.
         let rem = skip_slash ft rem
         in if ft = EXT2_FT_SYMLINK then (if rem \<noteq> [] then exitp ENOENT else exitp EEXIST)
            else if ft \<noteq> EXT2_FT_DIR then (if rem \<noteq> [] then exitp ENOENT else exitp EEXIST)
            else bnd (ld32 (de_inode e)) (\<lambda>i.
              let cur = inode_at i_table i
              in bnd (find_entry cur (Some t)) (\<lambda>entry.
                 ln_loop i_table ts cur entry (Some t) (drop (length t) rem)))))"

text \<open>The code before the loops: the first token is looked up in the root directory.\<close>

definition cp_create_target_file :: "cstring \<Rightarrow> cstring option \<Rightarrow> (ext2, nat) prog" where
  "cp_create_target_file path name =
    (if \<not> IS_PATH_ABSOLUTE path then exitp ENOENT
     else bnd get_inode_table (\<lambda>i_table.
       let cur = root_inode i_table; token = next_token (tokens path);
           rem = drop (case token of None \<Rightarrow> 0 | Some t \<Rightarrow> length t) (tl path)
       in bnd (find_entry cur token) (\<lambda>entry.
          bnd (cp_loop i_table (tl (tokens path)) cur entry token rem) (\<lambda>(cur, token, rem).
          if rem \<noteq> [] then exitp ENOENT
          else case (if token \<noteq> None then token else name) of
                 None \<Rightarrow> faultp
               | Some name \<Rightarrow> create_dir_entry cur 0 name EXT2_FT_REG_FILE))))"

definition ln_create_target_file :: "cstring \<Rightarrow> cstring option \<Rightarrow> 32 word \<Rightarrow> byte \<Rightarrow> (ext2, nat) prog" where
  "ln_create_target_file path name link_inode file_type =
    (if \<not> IS_PATH_ABSOLUTE path then exitp ENOENT
     else bnd get_inode_table (\<lambda>i_table.
       let cur = root_inode i_table; token = next_token (tokens path);
           rem = drop (case token of None \<Rightarrow> 0 | Some t \<Rightarrow> length t) (tl path)
       in bnd (find_entry cur token) (\<lambda>entry.
          bnd (ln_loop i_table (tl (tokens path)) cur entry token rem) (\<lambda>(cur, token, rem).
          if rem \<noteq> [] then exitp ENOENT
          else case (if token \<noteq> None then token else name) of
                 None \<Rightarrow> faultp
               | Some name \<Rightarrow> create_dir_entry cur link_inode name file_type))))"

section \<open>File contents\<close>

text \<open>\<open>fread(buf, 1, n, src)\<close>: the bytes read, none at the end of the file.\<close>

definition fread :: "nat \<Rightarrow> (ext2, byte list) prog" where
  "fread n = bnd (peek src) (\<lambda>bs. thn (upd (\<lambda>s. s\<lparr>src := drop n bs\<rparr>)) (ret (take n bs)))"

definition count_block :: "nat \<Rightarrow> (ext2, unit) prog" where
  "count_block inode = rmw32 (i_blocks inode) (\<lambda>x. NUM_DISK_BLKS x (of_nat EXT2_BLOCK_SIZE))"

text \<open>The loop over the direct blocks; the result is \<open>block_ptr_index\<close>.\<close>

primrec copy_direct :: "nat \<Rightarrow> nat \<Rightarrow> nat \<Rightarrow> (ext2, nat) prog" where
  "copy_direct inode n 0 = ret n"
| "copy_direct inode n (Suc left) = bnd (fread EXT2_BLOCK_SIZE) (\<lambda>buf.
     if buf = [] then ret n
     else bnd allocate_block (\<lambda>block_num.
       thn (st32 (i_block inode n) block_num)
      (thn (count_block inode)
      (thn (st_bytes (block_start block_num) buf)
      (thn (rmw32 (i_size inode) (\<lambda>x. x + of_nat (length buf)))
           (copy_direct inode (Suc n) left))))))"

text \<open>The \<open>do\<close> loop over the words of the indirect block, with the bytes already read.\<close>

primrec copy_indirect :: "nat \<Rightarrow> nat \<Rightarrow> nat \<Rightarrow> byte list \<Rightarrow> (ext2, unit) prog" where
  "copy_indirect inode pos 0 buf = ret ()"
| "copy_indirect inode pos (Suc left) buf =
     bnd allocate_block (\<lambda>direct_block_num.
     thn (st32 pos direct_block_num)
    (thn (count_block inode)
    (thn (st_bytes (block_start direct_block_num) buf)
    (thn (rmw32 (i_size inode) (\<lambda>x. x + of_nat (length buf)))
    (if left = 0 then ret ()
     else bnd (fread EXT2_BLOCK_SIZE) (\<lambda>buf'.
       if buf' = [] then ret () else copy_indirect inode (pos + 4) left buf'))))))"

definition copy_sourcefile_data :: "nat \<Rightarrow> (ext2, unit) prog" where
  "copy_sourcefile_data inode =
     bnd (copy_direct inode 0 12) (\<lambda>n.
     bnd (fread EXT2_BLOCK_SIZE) (\<lambda>buf.
     if buf = [] then ret ()
     else bnd allocate_block (\<lambda>indirect_block_num.
       thn (st32 (i_block inode n) indirect_block_num)
      (thn (count_block inode)
           (copy_indirect inode (block_start indirect_block_num) max_indirect_blocks buf)))))"

definition copy_symlink_path :: "nat \<Rightarrow> cstring \<Rightarrow> (ext2, unit) prog" where
  "copy_symlink_path dir_entry path =
     bnd (ld32 (de_inode dir_entry)) (\<lambda>i. bnd (get_inode i) (\<lambda>inode.
     bnd allocate_block (\<lambda>block_num.
     thn (st_bytes (block_start block_num) path)
    (thn (st32 (i_block inode 0) block_num)
    (thn (st32 (i_size inode) (of_nat (length path)))
         (count_block inode))))))"

text \<open>
  The native file system: \<open>is_reg\<close> is \<open>S_ISREG\<close> of the mode \<open>stat\<close> leaves (indeterminate when it
  fails), \<open>contents\<close> what \<open>fopen\<close> opens.
\<close>

definition open_file :: "(cstring \<Rightarrow> bool) \<Rightarrow> (cstring \<Rightarrow> byte list option) \<Rightarrow> cstring \<Rightarrow> (ext2, unit) prog" where
  "open_file is_reg contents path =
    (if \<not> is_reg path then exitp ENOENT
     else case contents path of
            None \<Rightarrow> exitp ENOENT
          | Some bs \<Rightarrow> upd (\<lambda>s. s\<lparr>src := bs\<rparr>))"

end
