(* ===== verification/Entries.thy ===== *)
theory Entries
  imports Recount Paths
begin

text \<open>
  Directories as lists of records.  The records of a block are found by following \<open>rec_len\<close> from its
  start to its end; the entries of a directory are those of its blocks up to the first zero pointer.
  \<open>dir_ok\<close>: every chain ends where its block does and every name lies in its record.
\<close>

section \<open>Records\<close>

definition rec_len_at :: "memory \<Rightarrow> nat \<Rightarrow> nat" where
  "rec_len_at m p = unat (get_le 2 m (de_rec_len p) :: 16 word)"

definition inode_of :: "memory \<Rightarrow> nat \<Rightarrow> 32 word" where
  "inode_of m p = get_le 4 m (de_inode p)"

definition name_at :: "memory \<Rightarrow> nat \<Rightarrow> cstring" where
  "name_at m p = get_bytes m (de_name p) (unat (m (de_name_len p)))"

function records :: "memory \<Rightarrow> nat \<Rightarrow> nat \<Rightarrow> nat list option" where
  "records m pos stop =
    (if pos = stop then Some []
     else if stop < pos + rec_len_at m pos \<or> rec_len_at m pos < 8 + unat (m (de_name_len pos)) then None
     else map_option (Cons pos) (records m (pos + rec_len_at m pos) stop))"
  by auto
termination
  by (relation "measure (\<lambda>(m, pos, stop). stop - pos)") auto

declare records.simps [simp del]

definition block_records :: "memory \<Rightarrow> 32 word \<Rightarrow> nat list option" where
  "block_records m b = records m (block_start b) (block_start b + 1024)"

definition dir_blocks :: "memory \<Rightarrow> nat \<Rightarrow> 32 word list" where
  "dir_blocks m p = takeWhile (\<lambda>b. b \<noteq> 0) (map (\<lambda>n. get_le 4 m (i_block p n)) [0..<12])"

definition dir_ok :: "memory \<Rightarrow> nat \<Rightarrow> bool" where
  "dir_ok m p \<longleftrightarrow> p + 128 \<le> disk_size \<and>
     (\<forall>b \<in> set (dir_blocks m p). block_start b + 1024 \<le> disk_size \<and> block_records m b \<noteq> None)"

definition entries :: "memory \<Rightarrow> nat \<Rightarrow> nat list" where
  "entries m p = concat (map (\<lambda>b. the (block_records m b)) (dir_blocks m p))"

text \<open>The entry with a name: the first record in use that has it.\<close>

definition lookup :: "memory \<Rightarrow> nat \<Rightarrow> cstring \<Rightarrow> nat option" where
  "lookup m p name = find (\<lambda>e. inode_of m e \<noteq> 0 \<and> name_at m e = name) (entries m p)"

section \<open>Walks\<close>

text \<open>A walk whose body stops, with \<open>act\<close>, at the first record where \<open>P\<close> holds.\<close>

lemma walk_find:
  assumes "records (disk s) pos stop = Some ps" "stop \<le> disk_size"
    and "\<And>p. p \<in> set ps \<Longrightarrow> p + 8 \<le> stop \<Longrightarrow> p + 8 + unat (disk s (de_name_len p)) \<le> stop \<Longrightarrow>
      p + rec_len_at (disk s) p \<le> stop \<Longrightarrow>
      body p () s = (if P p then bnd (act p) (\<lambda>x. ret (Inr x)) s else (Ok (Inl (p + rec_len_at (disk s) p, ())), s))"
  shows "walk (\<lambda>pos. pos \<noteq> stop) body pos () s = (case find P ps of
    None \<Rightarrow> (Ok (Inl ()), s) | Some p \<Rightarrow> bnd (act p) (\<lambda>x. ret (Inr x)) s)"
  using assms
proof (induction "disk s" pos stop arbitrary: ps rule: records.induct)
  case (1 pos stop)
  show ?case
  proof (cases "pos = stop")
    case True
    with 1(2) show ?thesis
      by (simp add: records.simps [of _ stop stop] walk.simps)
  next
    case False
    let ?next = "pos + rec_len_at (disk s) pos"
    from False 1(2) obtain qs where fits: "?next \<le> stop" "8 + unat (disk s (de_name_len pos)) \<le> rec_len_at (disk s) pos"
        and qs: "records (disk s) ?next stop = Some qs" "ps = pos # qs"
      by (subst (asm) records.simps) (auto split: if_splits)
    have body: "body pos () s = (if P pos then bnd (act pos) (\<lambda>x. ret (Inr x)) s else (Ok (Inl (?next, ())), s))"
      by (rule 1(4)) (use fits qs in simp_all)
    have IH: "walk (\<lambda>pos. pos \<noteq> stop) body ?next () s = (case find P qs of
        None \<Rightarrow> (Ok (Inl ()), s) | Some p \<Rightarrow> bnd (act p) (\<lambda>x. ret (Inr x)) s)"
      by (rule 1(1)) (use False fits qs 1(3,4) in simp_all)
    have pos: "pos < disk_size" "0 < rec_len_at (disk s) pos"
      using fits 1(3) by simp_all
    show ?thesis
    proof (cases "P pos")
      case True
      have "(case bnd (act pos) (\<lambda>x. ret (Inr x)) s of (r, t) \<Rightarrow> (case r of
          Ok (Inr x) \<Rightarrow> (Ok (Inr x), t) | Ok (Inl (pos', v')) \<Rightarrow> f pos' v' t
        | Exit c \<Rightarrow> (Exit c, t) | Fault \<Rightarrow> (Fault, t) | Diverge \<Rightarrow> (Diverge, t))) = bnd (act pos) (\<lambda>x. ret (Inr x)) s"
        for f
        by (simp add: bnd_def prog split: prod.splits outcome.splits)
      with True False pos body qs(2) show ?thesis
        by (subst walk.simps) simp
    next
      case P: False
      with False pos body qs(2) IH show ?thesis
        by (subst walk.simps) simp
    qed
  qed
qed

lemma walk_block_find:
  assumes "block_records (disk s) b = Some ps" "block_start b + 1024 \<le> disk_size"
    and "\<And>p. p \<in> set ps \<Longrightarrow> p + 8 \<le> disk_size \<Longrightarrow> p + 8 + unat (disk s (de_name_len p)) \<le> disk_size \<Longrightarrow>
      p + rec_len_at (disk s) p \<le> disk_size \<Longrightarrow>
      body p () s = (if P p then bnd (act p) (\<lambda>x. ret (Inr x)) s else (Ok (Inl (p + rec_len_at (disk s) p, ())), s))"
  shows "walk_block (\<noteq>) (\<lambda>_. body) (\<lambda>_. ()) b s = (case find P ps of
    None \<Rightarrow> (Ok None, s) | Some p \<Rightarrow> bnd (act p) (\<lambda>x. ret (Some x)) s)"
proof -
  have "walk (\<lambda>pos. pos \<noteq> block_start b + 1024) body (block_start b) () s = (case find P ps of
      None \<Rightarrow> (Ok (Inl ()), s) | Some p \<Rightarrow> bnd (act p) (\<lambda>x. ret (Inr x)) s)"
    by (rule walk_find) (use assms in \<open>auto simp: block_records_def\<close>)
  then show ?thesis
    by (auto simp: walk_block_def Let_def block_end_def EXT2_BLOCK_SIZE_def bnd_def prog returned_def
        split: option.splits prod.splits outcome.splits)
qed

text \<open>A loop over the blocks whose body stops, with \<open>act\<close>, at the first record where \<open>P\<close> holds.\<close>

lemma block_loop_find:
  assumes "dir_ok (disk s) p"
    and "\<And>b. b \<in> set (dir_blocks (disk s) p) \<Longrightarrow> body b s = (case find P (the (block_records (disk s) b)) of
      None \<Rightarrow> (Ok None, s) | Some e \<Rightarrow> bnd (act e) (\<lambda>x. ret (Some x)) s)"
  shows "block_loop p body [0..<12] s = (case find P (entries (disk s) p) of
    None \<Rightarrow> (Ok (Inl (length (dir_blocks (disk s) p))), s) | Some e \<Rightarrow> bnd (act e) (\<lambda>x. ret (Inr x)) s)"
proof -
  let ?blocks = "\<lambda>i. takeWhile (\<lambda>b. b \<noteq> 0) (map (\<lambda>n. get_le 4 (disk s) (i_block p n)) [i..<12]) :: 32 word list"
  have "block_loop p body [i..<12] s = (case find P (concat (map (\<lambda>b. the (block_records (disk s) b)) (?blocks i))) of
      None \<Rightarrow> (Ok (Inl (i + length (?blocks i))), s) | Some e \<Rightarrow> bnd (act e) (\<lambda>x. ret (Inr x)) s)"
    if "i \<le> 12" "\<forall>b \<in> set (?blocks i). body b s = (case find P (the (block_records (disk s) b)) of
      None \<Rightarrow> (Ok None, s) | Some e \<Rightarrow> bnd (act e) (\<lambda>x. ret (Some x)) s)" for i
    using that
  proof (induction "12 - i" arbitrary: i)
    case 0
    then show ?case by (simp add: prog)
  next
    case (Suc k)
    then have i: "i < 12" by simp
    then have upt: "[i..<12] = i # [Suc i..<12]"
      by (simp add: upt_conv_Cons)
    let ?b = "get_le 4 (disk s) (i_block p i) :: 32 word"
    have range: "i_block p i + 4 \<le> disk_size"
      using assms(1) i by (simp add: dir_ok_def inode_fields)
    show ?case
    proof (cases "?b = 0")
      case True
      with range show ?thesis by (simp add: upt prog)
    next
      case False
      have IH: "block_loop p body [Suc i..<12] s = (case find P (concat (map (\<lambda>b. the (block_records (disk s) b)) (?blocks (Suc i)))) of
          None \<Rightarrow> (Ok (Inl (Suc i + length (?blocks (Suc i)))), s) | Some e \<Rightarrow> bnd (act e) (\<lambda>x. ret (Inr x)) s)"
        by (rule Suc.hyps) (use Suc.hyps(2) Suc.prems False i upt in simp_all)
      have "body ?b s = (case find P (the (block_records (disk s) ?b)) of
          None \<Rightarrow> (Ok None, s) | Some e \<Rightarrow> bnd (act e) (\<lambda>x. ret (Some x)) s)"
        using Suc.prems(2) False upt by simp
      with range False IH show ?thesis
        by (auto simp: upt prog bnd_def find_append split: option.splits prod.splits outcome.splits)
    qed
  qed
  from this [of 0, unfolded add_0] assms(2) show ?thesis
    unfolding dir_blocks_def entries_def by simp
qed

section \<open>The search for an entry\<close>

lemma strncmp_eq_run:
  "a + length name \<le> disk_size \<Longrightarrow> strncmp_eq name a s = (Ok (get_bytes (disk s) a (length name) = name), s)"
proof (induction name arbitrary: a)
  case Nil
  then show ?case by (simp add: prog get_bytes_def)
next
  case (Cons c cs)
  have "get_bytes (disk s) a (length (c # cs)) = disk s a # get_bytes (disk s) (Suc a) (length cs)"
    by (simp add: get_bytes_def upt_conv_Cons del: upt_Suc)
  with Cons show ?case
    by (auto simp: prog)
qed

lemma entry_named_run:
  assumes "p + 8 + unat (disk s (de_name_len p)) \<le> disk_size"
  shows "entry_named name p s = (Ok (name_at (disk s) p = name), s)"
proof (cases "length name = unat (disk s (de_name_len p))")
  case True
  with assms show ?thesis
    by (simp add: entry_named_def prog strncmp_eq_run name_at_def entry_fields)
next
  case False
  then have "name_at (disk s) p \<noteq> name"
    by (metis length_get_bytes name_at_def)
  with False assms show ?thesis
    by (simp add: entry_named_def prog entry_fields)
qed

lemma find_entry_body_run:
  assumes "p + 8 + unat (disk s (de_name_len p)) \<le> disk_size"
  shows "find_entry_body name p () s = (if inode_of (disk s) p \<noteq> 0 \<and> name_at (disk s) p = name
    then bnd (ret p) (\<lambda>x. ret (Inr x)) s else (Ok (Inl (p + rec_len_at (disk s) p, ())), s))"
  using assms entry_named_run [OF assms, of name]
  by (simp add: find_entry_body_def prog bnd_run inode_of_def rec_len_at_def entry_fields)

lemma find_entry_run:
  assumes "dir_ok (disk s) p"
  shows "find_entry p (Some name) s =
    (if length name \<le> 255 then (Ok (lookup (disk s) p name), s) else (Exit 1, s))"
proof -
  let ?P = "\<lambda>e. inode_of (disk s) e \<noteq> 0 \<and> name_at (disk s) e = name"
  have "walk_block (\<noteq>) (\<lambda>_. find_entry_body name) (\<lambda>_. ()) b s = (case find ?P (the (block_records (disk s) b)) of
      None \<Rightarrow> (Ok None, s) | Some e \<Rightarrow> bnd (ret e) (\<lambda>x. ret (Some x)) s)"
    if "b \<in> set (dir_blocks (disk s) p)" for b
    by (rule walk_block_find) (use assms that in \<open>auto simp: dir_ok_def find_entry_body_run\<close>)
  then have "block_loop p (walk_block (\<noteq>) (\<lambda>_. find_entry_body name) (\<lambda>_. ())) [0..<12] s =
      (case find ?P (entries (disk s) p) of
        None \<Rightarrow> (Ok (Inl (length (dir_blocks (disk s) p))), s) | Some e \<Rightarrow> bnd (ret e) (\<lambda>x. ret (Inr x)) s)"
    by (intro block_loop_find assms)
  then show ?thesis
    by (cases "find ?P (entries (disk s) p)")
      (simp_all add: find_entry_def get_name_len_def prog bnd_run lookup_def EXT2_NAME_LEN_def)
qed

lemma find_entry_in_inode_run:
  assumes "dir_ok (disk s) (inode_at (ino_tab (disk s)) n)"
  shows "find_entry_in_inode n (Some name) s = (if length name \<le> 255
    then (Ok (lookup (disk s) (inode_at (ino_tab (disk s)) n) name), s) else (Exit 1, s))"
  using find_entry_run [OF assms] by (simp add: find_entry_in_inode_def prog)

text \<open>
  On a directory whose records tile its blocks, the search for a name returns the first record
  in use with exactly that name, in the order of the blocks and of the records in them, and null if
  there is none; it changes nothing, and never reads outside the image.  A name of more than 255
  bytes ends the program.
\<close>

theorem find_entry_first_match:
  fixes s :: ext2 and n :: "32 word" and name :: cstring
  defines "m \<equiv> disk s"
  defines "p \<equiv> inode_at (ino_tab m) n"
  assumes "dir_ok m p"
  shows "case find_entry_in_inode n (Some name) s of
      (Ok None, t) \<Rightarrow> t = s \<and> length name \<le> 255 \<and> (\<forall>e \<in> set (entries m p). inode_of m e \<noteq> 0 \<longrightarrow> name_at m e \<noteq> name)
    | (Ok (Some e), t) \<Rightarrow> t = s \<and> length name \<le> 255 \<and> inode_of m e \<noteq> 0 \<and> name_at m e = name \<and>
        (\<exists>before after. entries m p = before @ e # after \<and>
          (\<forall>e' \<in> set before. inode_of m e' \<noteq> 0 \<longrightarrow> name_at m e' \<noteq> name))
    | (Exit c, t) \<Rightarrow> t = s \<and> c = 1 \<and> 255 < length name
    | _ \<Rightarrow> False"
proof (cases "length name \<le> 255")
  case False
  then show ?thesis
    using find_entry_in_inode_run assms by simp
next
  case True
  then have run: "find_entry_in_inode n (Some name) s = (Ok (lookup m p name), s)"
    using find_entry_in_inode_run assms by simp
  show ?thesis
  proof (cases "lookup m p name")
    case None
    then have "\<forall>e \<in> set (entries m p). inode_of m e \<noteq> 0 \<longrightarrow> name_at m e \<noteq> name"
      by (auto simp: lookup_def find_None_iff)
    with None run True show ?thesis by simp
  next
    case (Some e)
    then obtain i where i: "i < length (entries m p)" "inode_of m e \<noteq> 0" "name_at m e = name" "e = entries m p ! i"
        "\<forall>j < i. inode_of m (entries m p ! j) \<noteq> 0 \<longrightarrow> name_at m (entries m p ! j) \<noteq> name"
      by (auto simp: lookup_def find_Some_iff)
    have "entries m p = take i (entries m p) @ e # drop (Suc i) (entries m p)"
      using i(1,4) by (simp add: id_take_nth_drop)
    moreover have "\<forall>e' \<in> set (take i (entries m p)). inode_of m e' \<noteq> 0 \<longrightarrow> name_at m e' \<noteq> name"
    proof
      fix e' assume "e' \<in> set (take i (entries m p))"
      then obtain j where "j < i" "e' = entries m p ! j"
        by (auto simp: in_set_conv_nth)
      with i(5) show "inode_of m e' \<noteq> 0 \<longrightarrow> name_at m e' \<noteq> name" by simp
    qed
    ultimately show ?thesis
      using run Some True i by auto
  qed
qed

lemma small_dir:
  "inode_at 5120 2 = 5248" "dir_blocks small_image 5248 = [9]" "block_records small_image 9 = Some [9216, 9228]"
  "entries small_image 5248 = [9216, 9228]"
proof -
  show "inode_at 5120 2 = 5248"
    by (simp add: inode_at_def INDEX_def inode_size_def)
  show blocks: "dir_blocks small_image 5248 = [9]"
    by (simp add: dir_blocks_def inode_fields upt_conv_Cons get_le_small small_image_def)
  have le2: "get_le 2 m a = ucast (m a) OR push_bit 8 (ucast (m (Suc a)))" for m a
    by (simp add: numeral_2_eq_2)
  show recs: "block_records small_image 9 = Some [9216, 9228]"
    by (simp add: block_records_def block_start_def EXT2_BLOCK_SIZE_def records.simps rec_len_at_def entry_fields
        le2 small_image_def)
  show "entries small_image 5248 = [9216, 9228]"
    using recs by (simp add: entries_def blocks)
qed

lemma small_dir_ok: "dir_ok small_image 5248"
  by (simp add: dir_ok_def small_dir block_start_def EXT2_BLOCK_SIZE_def)

lemma small_self: "inode_of small_image 9216 = 2" "name_at small_image 9216 = str ''.''"
  by (simp_all add: inode_of_def name_at_def entry_fields get_le_small small_image_def get_bytes_def str_def)

lemma find_entry_first_match_witness:
  "\<exists>e t. find_entry_in_inode 2 (Some (str ''.'')) \<lparr>disk = small_image, now = 0, src = []\<rparr> = (Ok (Some e), t) \<and>
     name_at small_image e = str ''.''"
  using find_entry_first_match [of "\<lparr>disk = small_image, now = 0, src = []\<rparr>" 2 "str ''.''"] small_dir_ok small_self
  by (auto simp: small_dir small_layout str_def split: prod.splits outcome.splits option.splits)

end
