(* ===== verification/Dirs.thy ===== *)
theory Dirs
  imports Entries
begin

text \<open>
  Changing one record of a directory.  A directory is seen as a map from names to inode number and
  file type; a change inside the bytes of one record changes the map at the names of that record.
\<close>

section \<open>Chains of records\<close>

lemma records_Some_Cons:
  "records m pos stop = Some ps \<Longrightarrow> pos \<noteq> stop \<Longrightarrow> pos + rec_len_at m pos \<le> stop \<and>
    8 + unat (m (de_name_len pos)) \<le> rec_len_at m pos \<and>
    (\<exists>qs. ps = pos # qs \<and> records m (pos + rec_len_at m pos) stop = Some qs)"
  by (subst (asm) records.simps) (auto split: if_splits)

lemma records_step:
  "pos + rec_len_at m pos \<le> stop \<Longrightarrow> 8 + unat (m (de_name_len pos)) \<le> rec_len_at m pos \<Longrightarrow>
    records m (pos + rec_len_at m pos) stop = Some qs \<Longrightarrow> records m pos stop = Some (pos # qs)"
  by (subst records.simps) auto

lemma records_one:
  "pos + rec_len_at m pos = stop \<Longrightarrow> 8 + unat (m (de_name_len pos)) \<le> rec_len_at m pos \<Longrightarrow>
    records m pos stop = Some [pos]"
  by (rule records_step) (auto simp: records.simps [of m stop stop])

lemma records_refl: "records m pos pos = Some ps \<longleftrightarrow> ps = []"
  by (subst records.simps) auto

lemma records_le: "records m pos stop = Some ps \<Longrightarrow> pos \<le> stop"
  by (cases "pos = stop") (auto dest: records_Some_Cons)

lemma records_range:
  assumes "records m pos stop = Some ps" "e \<in> set ps"
  shows "pos \<le> e \<and> e + rec_len_at m e \<le> stop \<and> 8 + unat (m (de_name_len e)) \<le> rec_len_at m e"
  using assms
proof (induction m pos stop arbitrary: ps rule: records.induct)
  case (1 m pos stop)
  show ?case
  proof (cases "pos = stop")
    case True
    with 1(2,3) show ?thesis by (simp add: records_refl)
  next
    case False
    then obtain qs where fits: "pos + rec_len_at m pos \<le> stop" "8 + unat (m (de_name_len pos)) \<le> rec_len_at m pos"
        and qs: "ps = pos # qs" "records m (pos + rec_len_at m pos) stop = Some qs"
      using records_Some_Cons [OF 1(2)] by auto
    show ?thesis
    proof (cases "e = pos")
      case False
      with 1(3) qs(1) have "e \<in> set qs" by simp
      moreover have "\<not> (stop < pos + rec_len_at m pos \<or> rec_len_at m pos < 8 + unat (m (de_name_len pos)))"
        using fits by simp
      ultimately have "pos + rec_len_at m pos \<le> e \<and> e + rec_len_at m e \<le> stop \<and> 8 + unat (m (de_name_len e)) \<le> rec_len_at m e"
        using 1(1) [OF \<open>pos \<noteq> stop\<close> _ qs(2)] by blast
      then show ?thesis by simp
    qed (use fits in simp)
  qed
qed

lemma records_append:
  assumes "records m pos mid = Some ps" "records m mid stop = Some qs"
  shows "records m pos stop = Some (ps @ qs)"
  using assms
proof (induction m pos mid arbitrary: ps rule: records.induct)
  case (1 m pos mid)
  show ?case
  proof (cases "pos = mid")
    case True
    with 1(2,3) show ?thesis by (simp add: records_refl)
  next
    case False
    then obtain rs where fits: "pos + rec_len_at m pos \<le> mid" "8 + unat (m (de_name_len pos)) \<le> rec_len_at m pos"
        and rs: "ps = pos # rs" "records m (pos + rec_len_at m pos) mid = Some rs"
      using records_Some_Cons [OF 1(2)] by auto
    have "records m (pos + rec_len_at m pos) stop = Some (rs @ qs)"
      by (rule 1(1)) (use False fits rs 1(3) in simp_all)
    then have "records m pos stop = Some (pos # rs @ qs)"
      by (rule records_step [rotated 2]) (use fits records_le [OF 1(3)] in simp_all)
    with rs show ?thesis by simp
  qed
qed

lemma records_split:
  assumes "records m pos stop = Some (ps @ q # qs)"
  shows "records m pos q = Some ps" "records m (q + rec_len_at m q) stop = Some qs"
proof -
  have "records m pos q = Some ps \<and> records m (q + rec_len_at m q) stop = Some qs"
    using assms
  proof (induction ps arbitrary: pos)
    case Nil
    then have "pos \<noteq> stop" by (auto simp: records_refl)
    with records_Some_Cons [OF Nil] show ?case by (auto simp: records_refl)
  next
    case (Cons x xs)
    have "pos \<noteq> stop" using Cons.prems by (auto simp: records_refl)
    with records_Some_Cons [OF Cons.prems]
    have x: "x = pos" "8 + unat (m (de_name_len pos)) \<le> rec_len_at m pos"
        "records m (pos + rec_len_at m pos) stop = Some (xs @ q # qs)" by auto
    note IH = Cons.IH [OF x(3)]
    then have "pos + rec_len_at m pos \<le> q"
      using records_le by blast
    with IH x show ?case
      using records_step [of pos m q xs] by simp
  qed
  then show "records m pos q = Some ps" "records m (q + rec_len_at m q) stop = Some qs" by simp_all
qed

text \<open>Two records of a block do not overlap.\<close>

lemma records_apart:
  assumes "records m pos stop = Some ps" "r \<in> set ps" "e \<in> set ps" "r \<noteq> e"
  shows "r + rec_len_at m r \<le> e \<or> e + rec_len_at m e \<le> r"
proof -
  obtain xs ys where split: "ps = xs @ r # ys"
    using assms(2) by (auto dest: split_list)
  note parts = records_split [OF assms(1) [unfolded split]]
  consider "e \<in> set xs" | "e \<in> set ys"
    using assms(3,4) split by auto
  then show ?thesis
    using records_range [OF parts(1), of e] records_range [OF parts(2), of e] by cases auto
qed

text \<open>What a record says depends on its bytes only.\<close>

definition same_on :: "nat \<Rightarrow> nat \<Rightarrow> memory \<Rightarrow> memory \<Rightarrow> bool" where
  "same_on a b m m' \<longleftrightarrow> (\<forall>x. a \<le> x \<longrightarrow> x < b \<longrightarrow> m' x = m x)"

lemma same_on_sub: "same_on a b m m' \<Longrightarrow> a \<le> c \<Longrightarrow> d \<le> b \<Longrightarrow> same_on c d m m'"
  by (simp add: same_on_def)

lemma same_on_get: "same_on a b m m' \<Longrightarrow> a \<le> x \<Longrightarrow> x + n \<le> b \<Longrightarrow> get_le n m' x = get_le n m x"
  by (rule get_le_cong) (simp add: same_on_def)

definition same_record :: "memory \<Rightarrow> memory \<Rightarrow> nat \<Rightarrow> bool" where
  "same_record m m' e \<longleftrightarrow> inode_of m' e = inode_of m e \<and> name_at m' e = name_at m e \<and>
     m' (de_file_type e) = m (de_file_type e)"

lemma same_record:
  assumes "same_on e (e + rec_len_at m e) m m'" "8 + unat (m (de_name_len e)) \<le> rec_len_at m e"
  shows "same_record m m' e" "rec_len_at m' e = rec_len_at m e" "m' (de_name_len e) = m (de_name_len e)"
proof -
  have len: "m' (de_name_len e) = m (de_name_len e)" "m' (de_file_type e) = m (de_file_type e)"
    using assms by (simp_all add: same_on_def entry_fields)
  have "inode_of m' e = inode_of m e"
    unfolding inode_of_def by (rule same_on_get [OF assms(1)]) (use assms(2) in \<open>simp_all add: entry_fields\<close>)
  moreover have "name_at m' e = name_at m e"
    using assms unfolding name_at_def len get_bytes_def by (auto simp: same_on_def entry_fields)
  ultimately show "same_record m m' e"
    using len by (simp add: same_record_def)
  have "get_le 2 m' (de_rec_len e) = (get_le 2 m (de_rec_len e) :: 16 word)"
    by (rule same_on_get [OF assms(1)]) (use assms(2) in \<open>simp_all add: entry_fields\<close>)
  then show "rec_len_at m' e = rec_len_at m e" "m' (de_name_len e) = m (de_name_len e)"
    using len by (simp_all add: rec_len_at_def)
qed

lemma records_same:
  assumes "records m pos stop = Some ps" "same_on pos stop m m'"
  shows "records m' pos stop = Some ps \<and> (\<forall>e \<in> set ps. same_record m m' e)"
  using assms
proof (induction m pos stop arbitrary: ps rule: records.induct)
  case (1 m pos stop)
  show ?case
  proof (cases "pos = stop")
    case True
    with 1(2) show ?thesis by (simp add: records_refl)
  next
    case False
    then obtain qs where fits: "pos + rec_len_at m pos \<le> stop" "8 + unat (m (de_name_len pos)) \<le> rec_len_at m pos"
        and qs: "ps = pos # qs" "records m (pos + rec_len_at m pos) stop = Some qs"
      using records_Some_Cons [OF 1(2)] by auto
    have "same_on pos (pos + rec_len_at m pos) m m'"
      using 1(3) fits by (auto intro: same_on_sub)
    note here = same_record [OF this fits(2)]
    have "records m' (pos + rec_len_at m pos) stop = Some qs \<and> (\<forall>e \<in> set qs. same_record m m' e)"
      by (rule 1(1)) (use False fits qs 1(3) in \<open>auto intro: same_on_sub\<close>)
    with here fits qs(1) show ?thesis
      using records_step [of pos m' stop qs] by simp
  qed
qed

text \<open>Replacing the record \<open>q\<close> by records in its place.\<close>

lemma records_replace:
  assumes "records m pos stop = Some (ps @ q # qs)" "same_on pos q m m'" "same_on (q + rec_len_at m q) stop m m'"
    and "records m' q (q + rec_len_at m q) = Some rs"
  shows "records m' pos stop = Some (ps @ rs @ qs)" "\<forall>e \<in> set ps \<union> set qs. same_record m m' e"
proof -
  note split = records_split [OF assms(1)]
  have pre: "records m' pos q = Some ps" "\<forall>e \<in> set ps. same_record m m' e"
    using records_same [OF split(1) assms(2)] by auto
  have post: "records m' (q + rec_len_at m q) stop = Some qs" "\<forall>e \<in> set qs. same_record m m' e"
    using records_same [OF split(2) assms(3)] by auto
  show "records m' pos stop = Some (ps @ rs @ qs)"
    by (rule records_append [OF pre(1) records_append [OF assms(4) post(1)]])
  show "\<forall>e \<in> set ps \<union> set qs. same_record m m' e"
    using pre(2) post(2) by auto
qed

section \<open>Directories\<close>

type_synonym item = "cstring \<times> 32 word \<times> byte"

definition item_at :: "memory \<Rightarrow> nat \<Rightarrow> item" where
  "item_at m e = (name_at m e, inode_of m e, m (de_file_type e))"

definition listing :: "memory \<Rightarrow> nat list \<Rightarrow> item list" where
  "listing m es = map (item_at m) (filter (\<lambda>e. inode_of m e \<noteq> 0) es)"

definition dir_map :: "memory \<Rightarrow> nat \<Rightarrow> cstring \<rightharpoonup> 32 word \<times> byte" where
  "dir_map m p = map_of (listing m (entries m p))"

lemma listing_append [simp]: "listing m (xs @ ys) = listing m xs @ listing m ys"
  by (simp add: listing_def)

lemma listing_Cons: "listing m (e # es) = (if inode_of m e \<noteq> 0 then [item_at m e] else []) @ listing m es"
  by (simp add: listing_def)

lemma listing_Nil [simp]: "listing m [] = []"
  by (simp add: listing_def)

lemma listing_same: "\<forall>e \<in> set es. same_record m m' e \<Longrightarrow> listing m' es = listing m es"
  by (induction es) (auto simp: listing_Cons item_at_def same_record_def)

lemma map_of_listing_find:
  "map_of (listing m es) name = map_option (\<lambda>e. (inode_of m e, m (de_file_type e)))
     (find (\<lambda>e. inode_of m e \<noteq> 0 \<and> name_at m e = name) es)"
  by (induction es) (auto simp: listing_Cons item_at_def)

lemma dir_map_lookup:
  "dir_map m p name = map_option (\<lambda>e. (inode_of m e, m (de_file_type e))) (lookup m p name)"
  by (simp add: dir_map_def lookup_def map_of_listing_find)

text \<open>
  A directory whose inode is in use, with distinct data blocks that are in use, and no pointer
  behind the first zero one.
\<close>

definition dir_sound :: "memory \<Rightarrow> nat \<Rightarrow> bool" where
  "dir_sound m p \<longleftrightarrow> dir_ok m p \<and> distinct (dir_blocks m p) \<and>
     (\<forall>b \<in> set (dir_blocks m p). block_ok m b \<and> slot_of b \<notin> fst (free_space m)) \<and>
     (\<forall>n < 12. length (dir_blocks m p) \<le> n \<longrightarrow> get_le 4 m (i_block p n) = (0 :: 32 word)) \<and>
     (\<exists>j < n_inodes m. j \<notin> snd (free_space m) \<and> p = ino_tab m + 128 * j)"

lemma num_of_slot:
  assumes "1 \<le> sint b"
  shows "b = of_nat (slot_of b + 1)"
proof -
  have "of_int (sint b) = (of_int (int (slot_of b + 1)) :: 32 word)"
    using assms by (simp add: slot_of_def)
  then show ?thesis by simp
qed

lemma block_ok_start:
  assumes "block_ok m b"
  shows "block_start b = 1024 * (slot_of b + 1)" "slot_of b < 127" "b = of_nat (slot_of b + 1)"
proof -
  show num: "b = of_nat (slot_of b + 1)"
    using assms by (intro num_of_slot) (simp add: block_ok_def)
  show "slot_of b < 127"
    using assms by (simp add: block_ok_def data_block_def)
  then show "block_start b = 1024 * (slot_of b + 1)"
    using block_start_num num by metis
qed

text \<open>Different blocks do not overlap.\<close>

lemma block_disjoint:
  assumes "block_ok m b" "block_ok m c" "block_start b \<le> x" "x < block_start b + 1024"
    "block_start c \<le> x" "x < block_start c + 1024"
  shows "c = b"
proof -
  have "slot_of c = slot_of b"
    using assms(3-6) block_ok_start(1) [OF assms(1)] block_ok_start(1) [OF assms(2)] by simp
  then show ?thesis
    using block_ok_start(3) [OF assms(1)] block_ok_start(3) [OF assms(2)] by metis
qed

text \<open>The address \<open>x\<close> lies in a block of the directory.\<close>

definition in_blocks :: "memory \<Rightarrow> nat \<Rightarrow> nat \<Rightarrow> bool" where
  "in_blocks m p x \<longleftrightarrow> (\<exists>b \<in> set (dir_blocks m p). block_start b \<le> x \<and> x < block_start b + 1024)"

definition keeps_dir :: "nat \<Rightarrow> nat \<Rightarrow> nat \<Rightarrow> memory \<Rightarrow> memory \<Rightarrow> bool" where
  "keeps_dir p q r m m' \<longleftrightarrow> same_on (p + 40) (p + 88) m m' \<and>
     (\<forall>x. in_blocks m p x \<longrightarrow> x < q \<or> r \<le> x \<longrightarrow> m' x = m x)"

lemma dir_blocks_same: "same_on (p + 40) (p + 88) m m' \<Longrightarrow> dir_blocks m' p = dir_blocks m p"
proof -
  assume same: "same_on (p + 40) (p + 88) m m'"
  have "map (\<lambda>n. get_le 4 m' (i_block p n)) [0..<12] = (map (\<lambda>n. get_le 4 m (i_block p n)) [0..<12] :: 32 word list)"
    by (intro map_cong refl same_on_get [OF same]) (auto simp: inode_fields)
  then show ?thesis by (simp only: dir_blocks_def)
qed

text \<open>The records \<open>os\<close> between \<open>a\<close> and \<open>z\<close> in a block of a directory are replaced by \<open>rs\<close>.\<close>

lemma dir_replace_part:
  assumes "dir_sound m p" "b \<in> set (dir_blocks m p)" "records m (block_start b) a = Some ps" "records m a z = Some os"
    and "records m z (block_start b + 1024) = Some qs" "keeps_dir p a z m m'" "records m' a z = Some rs"
  shows "dir_ok m' p" "dir_blocks m' p = dir_blocks m p"
    "\<exists>A C. entries m p = A @ ps @ os @ qs @ C \<and> entries m' p = A @ ps @ rs @ qs @ C \<and>
       (\<forall>e \<in> set A \<union> set ps \<union> set qs \<union> set C. same_record m m' e)"
proof -
  have sound: "dir_ok m p" "distinct (dir_blocks m p)" "\<And>b. b \<in> set (dir_blocks m p) \<Longrightarrow> block_ok m b"
    using assms(1) by (auto simp: dir_sound_def)
  have same: "m' x = m x" if "b \<in> set (dir_blocks m p)" "block_start b \<le> x" "x < block_start b + 1024" "x < a \<or> z \<le> x" for b x
    using assms(6) that by (auto simp: keeps_dir_def in_blocks_def)
  have chain: "\<exists>xs. block_records m b = Some xs" if "b \<in> set (dir_blocks m p)" for b
    using sound(1) that by (auto simp: dir_ok_def)
  show blocks: "dir_blocks m' p = dir_blocks m p"
    using assms(6) by (intro dir_blocks_same) (simp add: keeps_dir_def)
  have range: "block_start b \<le> a" "a \<le> z" "z \<le> block_start b + 1024"
    using assms(3-5) by (auto dest: records_le)
  have xs: "block_records m b = Some (ps @ os @ qs)"
    unfolding block_records_def by (rule records_append [OF assms(3) records_append [OF assms(4,5)]])
  have pre: "records m' (block_start b) a = Some ps \<and> (\<forall>e \<in> set ps. same_record m m' e)"
    by (rule records_same [OF assms(3)]) (use same [OF assms(2)] range in \<open>simp add: same_on_def\<close>)
  have post: "records m' z (block_start b + 1024) = Some qs \<and> (\<forall>e \<in> set qs. same_record m m' e)"
    by (rule records_same [OF assms(5)]) (use same [OF assms(2)] range in \<open>simp add: same_on_def\<close>)
  have here: "block_records m' b = Some (ps @ rs @ qs)" "\<forall>e \<in> set ps \<union> set qs. same_record m m' e"
    using records_append [OF conjunct1 [OF pre] records_append [OF assms(7) conjunct1 [OF post]]] pre post
    by (auto simp: block_records_def)
  have there: "block_records m' c = block_records m c \<and> (\<forall>e \<in> set (the (block_records m c)). same_record m m' e)"
    if c: "c \<in> set (dir_blocks m p)" "c \<noteq> b" for c
  proof -
    have "slot_of c \<noteq> slot_of b"
      using block_ok_start(3) [OF sound(3) [OF c(1)]] block_ok_start(3) [OF sound(3) [OF assms(2)]] c(2) by metis
    then have "block_start c + 1024 \<le> block_start b \<or> block_start b + 1024 \<le> block_start c"
      using block_ok_start(1) [OF sound(3) [OF c(1)]] block_ok_start(1) [OF sound(3) [OF assms(2)]] by auto
    then have "x < a \<or> z \<le> x" if "block_start c \<le> x" "x < block_start c + 1024" for x
      using range that by auto
    then have region: "same_on (block_start c) (block_start c + 1024) m m'"
      using same [OF c(1)] by (simp add: same_on_def)
    obtain zs where "records m (block_start c) (block_start c + 1024) = Some zs"
      using chain [OF c(1)] by (auto simp: block_records_def)
    with records_same [OF this region] show ?thesis
      by (simp add: block_records_def)
  qed
  have "block_records m' c \<noteq> None" if "c \<in> set (dir_blocks m p)" for c
    using that here(1) there [of c] chain [of c] by (cases "c = b") auto
  with sound(1) blocks show "dir_ok m' p"
    by (simp add: dir_ok_def)
  obtain bs cs where bc: "dir_blocks m p = bs @ b # cs"
    using assms(2) by (auto dest: split_list)
  then have others: "c \<in> set (dir_blocks m p) \<and> c \<noteq> b" if "c \<in> set bs \<union> set cs" for c
    using sound(2) that by auto
  let ?cat = "\<lambda>m bs. concat (map (\<lambda>b. the (block_records m b)) bs)"
  have cat: "?cat m' bs = ?cat m bs" "?cat m' cs = ?cat m cs"
    using there others by (intro arg_cong [of _ _ concat] map_cong; simp)+
  have "entries m p = ?cat m bs @ ps @ os @ qs @ ?cat m cs" "entries m' p = ?cat m bs @ ps @ rs @ qs @ ?cat m cs"
    using bc xs here(1) cat by (simp_all add: entries_def blocks)
  moreover have "\<forall>e \<in> set (?cat m bs) \<union> set ps \<union> set qs \<union> set (?cat m cs). same_record m m' e"
    using here(2) there others by fastforce
  ultimately show "\<exists>A C. entries m p = A @ ps @ os @ qs @ C \<and> entries m' p = A @ ps @ rs @ qs @ C \<and>
      (\<forall>e \<in> set A \<union> set ps \<union> set qs \<union> set C. same_record m m' e)"
    by blast
qed

text \<open>Where a record lies in its directory.\<close>

lemma entry_block:
  assumes "dir_ok m p" "q \<in> set (entries m p)"
  obtains b ps qs where "b \<in> set (dir_blocks m p)" "block_records m b = Some (ps @ q # qs)"
    "records m (block_start b) q = Some ps" "records m q (q + rec_len_at m q) = Some [q]"
    "records m (q + rec_len_at m q) (block_start b + 1024) = Some qs"
proof -
  obtain b where b: "b \<in> set (dir_blocks m p)" "q \<in> set (the (block_records m b))"
    using assms(2) by (auto simp: entries_def)
  then obtain ps qs where pq: "block_records m b = Some (ps @ q # qs)"
    using assms(1) by (fastforce simp: dir_ok_def dest: split_list)
  note split = records_split [OF pq [unfolded block_records_def]]
  have "8 + unat (m (de_name_len q)) \<le> rec_len_at m q"
    using records_range [OF pq [unfolded block_records_def], of q] by simp
  then have "records m q (q + rec_len_at m q) = Some [q]"
    by (intro records_one) simp_all
  with b pq split that show thesis by blast
qed

lemma dir_replace:
  assumes "dir_sound m p" "q \<in> set (entries m p)" "keeps_dir p q (q + rec_len_at m q) m m'"
    and "records m' q (q + rec_len_at m q) = Some rs"
  shows "dir_ok m' p" "dir_blocks m' p = dir_blocks m p"
    "\<exists>A C. entries m p = A @ q # C \<and> entries m' p = A @ rs @ C \<and> (\<forall>e \<in> set A \<union> set C. same_record m m' e)"
proof -
  have "dir_ok m p" using assms(1) by (simp add: dir_sound_def)
  then obtain b ps qs where b: "b \<in> set (dir_blocks m p)" "records m (block_start b) q = Some ps"
      "records m q (q + rec_len_at m q) = Some [q]" "records m (q + rec_len_at m q) (block_start b + 1024) = Some qs"
    using entry_block [OF _ assms(2)] by metis
  note part = dir_replace_part [OF assms(1) b assms(3,4)]
  show "dir_ok m' p" "dir_blocks m' p = dir_blocks m p"
    by (fact part)+
  obtain A C where "entries m p = A @ ps @ [q] @ qs @ C" "entries m' p = A @ ps @ rs @ qs @ C"
      "\<forall>e \<in> set A \<union> set ps \<union> set qs \<union> set C. same_record m m' e"
    using part(3) by blast
  then show "\<exists>A C. entries m p = A @ q # C \<and> entries m' p = A @ rs @ C \<and> (\<forall>e \<in> set A \<union> set C. same_record m m' e)"
    by (intro exI [of _ "A @ ps"] exI [of _ "qs @ C"]) auto
qed

end
