(* ===== verification/Create.thy ===== *)
theory Create
  imports Dirs
begin

text \<open>
  \<open>create_dir_entry\<close> as an insertion into the map of a directory.
\<close>

section \<open>Record lengths\<close>

definition pad :: "nat \<Rightarrow> nat" where
  "pad n = 4 * ((n + 3) div 4)"

lemma pad_bounds: "n \<le> pad n" "pad n < n + 4" "4 dvd pad n"
  by (simp_all add: pad_def)

lemma get_padded_rec_len: "get_padded_rec_len (int n) = int (pad n)"
proof -
  have "int n sdiv 4 = int (n div 4)" "int n smod 4 = int (n mod 4)"
    by (cases n; simp add: signed_divide_int_def signed_modulo_int_def zdiv_int zmod_int)+
  moreover have "n mod 4 = 0 \<longrightarrow> pad n = n" "n mod 4 \<noteq> 0 \<longrightarrow> pad n = 4 * (n div 4 + 1)"
    by (auto simp: pad_def) presburger+
  ultimately show ?thesis
    by (auto simp: get_padded_rec_len_def Let_def)
qed

definition actual_len :: "memory \<Rightarrow> nat \<Rightarrow> nat" where
  "actual_len m q = pad (8 + unat (m (de_name_len q)))"

lemma actual_len_run:
  "q + 8 \<le> disk_size \<Longrightarrow> bnd (get_actual_dir_entry_len q) f s = f (int (actual_len (disk s) q)) s"
proof -
  have "get_padded_rec_len (8 + uint w) = int (pad (8 + unat w))" for w :: byte
    using get_padded_rec_len [of "8 + unat w"] by simp
  moreover assume "q + 8 \<le> disk_size"
  ultimately show ?thesis
    by (simp add: get_actual_dir_entry_len_def prog actual_len_def entry_fields)
qed

section \<open>Filling in an entry\<close>

definition entry_put :: "nat \<Rightarrow> 32 word \<Rightarrow> 16 word \<Rightarrow> byte \<Rightarrow> cstring \<Rightarrow> memory \<Rightarrow> memory" where
  "entry_put e ino l ft name m = put_bytes (de_name e) name ((put_le 2 (de_rec_len e) l (put_le 4 (de_inode e) ino m))
     (de_name_len e := of_nat (length name), de_file_type e := ft))"

definition link_put :: "32 word \<Rightarrow> memory \<Rightarrow> memory" where
  "link_put ino m = (let a = i_links_count (inode_at (ino_tab m) ino) in put_le 2 a (get_le 2 m a + 1 :: 16 word) m)"

text \<open>The inode an entry gets: the one to link, or for 0 the first free one.\<close>

definition new_ino :: "memory \<Rightarrow> 32 word \<Rightarrow> 32 word" where
  "new_ino m link = (if link = 0 then of_nat (Min (snd (free_space m)) + 1) else link)"

definition inode_linked :: "32 word \<Rightarrow> byte \<Rightarrow> 32 word \<Rightarrow> memory \<Rightarrow> memory" where
  "inode_linked link ft time m = link_put (new_ino m link)
     (if link = 0 then inode_taken ft time m (Min (snd (free_space m))) else m)"

definition link_ok :: "memory \<Rightarrow> 32 word \<Rightarrow> bool" where
  "link_ok m link \<longleftrightarrow> link = 0 \<or> inode_ok m link"

definition no_inode :: "memory \<Rightarrow> 32 word \<Rightarrow> bool" where
  "no_inode m link \<longleftrightarrow> link = 0 \<and> snd (free_space m) = {}"

lemma inode_at_slot: "1 \<le> sint n \<Longrightarrow> inode_at t n = t + 128 * slot_of n"
proof -
  assume n: "1 \<le> sint n"
  have "slot_of n < 2 ^ 31"
    using sint_lt [of n] n by (simp add: slot_of_def)
  then show "inode_at t n = t + 128 * slot_of n"
    using inode_at_num [of "slot_of n" t] num_of_slot [OF n] by simp
qed

lemma free_ino_num:
  assumes "fs_ok m" "k \<in> snd (free_space m)"
  shows "slot_of (of_nat (k + 1)) = k" "inode_ok m (of_nat (k + 1))" "of_nat (k + 1) \<noteq> (0 :: 32 word)"
proof -
  have k: "k < n_inodes m" "k < 1024"
    using free_inode_bound [OF assms] by auto
  then have s: "slot_of (of_nat (k + 1)) = k \<and> 1 \<le> sint (of_nat (k + 1) :: 32 word)"
    by (intro slot_of_num) simp
  with k show "slot_of (of_nat (k + 1)) = k" "inode_ok m (of_nat (k + 1))"
    by (simp_all add: inode_ok_def)
  show "of_nat (k + 1) \<noteq> (0 :: 32 word)"
    using s by auto
qed

lemma new_ino:
  assumes "fs_ok m" "\<not> no_inode m link" "link_ok m link"
  shows "inode_ok m (new_ino m link)" "new_ino m link \<noteq> 0" "link = 0 \<Longrightarrow> Min (snd (free_space m)) \<in> snd (free_space m)"
proof -
  show min: "link = 0 \<Longrightarrow> Min (snd (free_space m)) \<in> snd (free_space m)"
    using assms(2) by (auto simp: no_inode_def free_space_def intro: Min_in)
  show "inode_ok m (new_ino m link)" "new_ino m link \<noteq> 0"
    using assms free_ino_num [OF assms(1) min] by (auto simp: new_ino_def link_ok_def inode_ok_def)
qed

lemma init_dir_entry_run:
  assumes "sound (disk s)" "e + 8 + length name \<le> disk_size" "link_ok (disk s) link"
  shows "init_dir_entry e link l (length name) ft name s = (if no_inode (disk s) link then (Exit ENOMEM, s)
    else (Ok (), s\<lparr>disk := entry_put e (new_ino (disk s) link) l ft name (inode_linked link ft (now s) (disk s))\<rparr>))"
proof (cases "no_inode (disk s) link")
  case True
  note fs = soundD(1) [OF assms(1)]
  from True show ?thesis
    using allocate_inode_run [OF fs, of ft]
    by (simp add: init_dir_entry_def no_inode_def bnd_def)
next
  case False
  note fs = soundD(1) [OF assms(1)]
  let ?m = "disk s"
  let ?ino = "new_ino ?m link"
  note ino = new_ino [OF fs False assms(3)]
  have at: "inode_at (ino_tab ?m) ?ino + 128 \<le> 131072"
    using inode_okD [OF fs ino(1)] fs_okD(6) [OF fs] by (simp add: inode_at_slot)
  let ?m1 = "if link = 0 then inode_taken ft (now s) ?m (Min (snd (free_space ?m))) else ?m"
  have "(if link = 0 then allocate_inode ft else ret link) s = (Ok ?ino, s\<lparr>disk := ?m1\<rparr>)"
    using allocate_inode_run [OF fs, of ft] False
    by (auto simp: no_inode_def new_ino_def Let_def prog)
  moreover have "ino_tab ?m1 = ino_tab ?m"
    using inode_taken(2) [OF assms(1) ino(3)] by (simp add: same_layout_def)
  ultimately show ?thesis
    using at assms(2) False
    by (cases "link = 0")
      (simp_all add: init_dir_entry_def bnd_run prog inode_linked_def link_put_def Let_def entry_put_def inode_fields
        entry_fields new_ino_def)
qed

lemma inode_taken_other:
  assumes "fs_ok m" "k < n_inodes m" "3072 \<le> x" "x < ino_map m \<or> ino_map m + n_inodes m \<le> x"
    and "x < ino_tab m + 128 * k \<or> ino_tab m + 128 * k + 128 \<le> x"
  shows "inode_taken ft time m k x = m x"
proof -
  have "inode_taken ft time m k x = inode_put m k True x"
    using assms(5) by (auto simp: inode_taken_def Let_def put_bytes_apply put_le_outside)
  also have "\<dots> = put_bit (ino_map m) k True m x"
    by (rule put_counted_read(4)) (use fs_okD(3) [OF assms(1)] assms(3) in \<open>simp_all add: ext2_fields\<close>)
  also have "\<dots> = m x"
    by (rule put_bit_other) (use assms(2,4) in auto)
  finally show ?thesis .
qed

lemma link_put_other:
  "1 \<le> sint ino \<Longrightarrow> x < ino_tab m + 128 * slot_of ino + 26 \<or> ino_tab m + 128 * slot_of ino + 28 \<le> x \<Longrightarrow> link_put ino m x = m x"
  by (auto simp: link_put_def Let_def inode_at_slot inode_fields put_le_outside)

lemma slot_region:
  assumes "fs_ok m" "j < n_inodes m"
  shows "3072 \<le> ino_tab m + 128 * j" "apart (ino_tab m + 128 * j) 128 (blk_map m) (n_blocks m)"
    "apart (ino_tab m + 128 * j) 128 (ino_map m) (n_inodes m)"
proof -
  have "128 * j + 128 \<le> 128 * n_inodes m"
    using assms(2) by simp
  then show "3072 \<le> ino_tab m + 128 * j" "apart (ino_tab m + 128 * j) 128 (blk_map m) (n_blocks m)"
    "apart (ino_tab m + 128 * j) 128 (ino_map m) (n_inodes m)"
    using fs_okD(5,8,9) [OF assms(1)] by (auto simp: apart_def)
qed

lemma link_put:
  assumes "sound m" "inode_ok m ino"
  shows "sound (link_put ino m)" "same_layout m (link_put ino m)" "free_space (link_put ino m) = free_space m"
proof -
  note fs = soundD(1) [OF assms(1)]
  note ino = inode_okD [OF fs assms(2)]
  have "link_put ino m x = m x"
    if "x < ino_tab m + 128 * slot_of ino \<or> ino_tab m + 128 * slot_of ino + 128 \<le> x" for x
    by (rule link_put_other [OF ino(1)]) (use that in auto)
  note kept_sound [OF assms(1) this slot_region [OF fs ino(2)]]
  then show "sound (link_put ino m)" "same_layout m (link_put ino m)" "free_space (link_put ino m) = free_space m"
    by simp_all
qed

definition inodes_left :: "32 word \<Rightarrow> memory \<Rightarrow> nat set" where
  "inodes_left link m = (let I = snd (free_space m) in if link = 0 then I - {Min I} else I)"

lemma inode_linked:
  assumes "sound m" "\<not> no_inode m link" "link_ok m link"
  shows "sound (inode_linked link ft time m)" "same_layout m (inode_linked link ft time m)"
    "free_space (inode_linked link ft time m) = (fst (free_space m), inodes_left link m)"
    "3072 \<le> x \<Longrightarrow> x < ino_map m \<or> ino_map m + n_inodes m \<le> x \<Longrightarrow> x < ino_tab m \<or> ino_tab m + 128 * n_inodes m \<le> x \<Longrightarrow>
      inode_linked link ft time m x = m x"
    "j < n_inodes m \<Longrightarrow> j \<notin> snd (free_space m) \<Longrightarrow>
      same_on (ino_tab m + 128 * j + 40) (ino_tab m + 128 * j + 128) m (inode_linked link ft time m)"
proof -
  let ?k = "Min (snd (free_space m))" and ?ino = "new_ino m link"
  let ?m1 = "if link = 0 then inode_taken ft time m ?k else m"
  note fs = soundD(1) [OF assms(1)]
  note D = fs_okD [OF fs]
  have ino: "inode_ok m ?ino" "link = 0 \<Longrightarrow> ?k \<in> snd (free_space m)"
    by (rule new_ino [OF fs assms(2,3)])+
  have m1: "sound ?m1" "same_layout m ?m1" "free_space ?m1 = (fst (free_space m), inodes_left link m)"
    using inode_taken [OF assms(1), of ?k] ino(2) assms(1) by (auto simp: inodes_left_def Let_def)
  have ok1: "inode_ok ?m1 ?ino"
    using ino(1) m1(2) by (simp add: inode_ok_def same_layout_def)
  note put = link_put [OF m1(1) ok1]
  show "sound (inode_linked link ft time m)" "same_layout m (inode_linked link ft time m)"
    "free_space (inode_linked link ft time m) = (fst (free_space m), inodes_left link m)"
    unfolding inode_linked_def using put(1,3) m1(3) same_layout_trans [OF m1(2) put(2)] by simp_all
  have tab1: "ino_tab ?m1 = ino_tab m"
    using m1(2) by (simp add: same_layout_def)
  have k: "?k < n_inodes m" "link = 0 \<Longrightarrow> ?k \<in> snd (free_space m)" if "link = 0"
    using free_inode_bound [OF fs ino(2) [OF that]] ino(2) by auto
  have slot: "1 \<le> sint ?ino" "slot_of ?ino < n_inodes m"
    using inode_okD [OF fs ino(1)] by auto
  show "inode_linked link ft time m x = m x" if "3072 \<le> x" "x < ino_map m \<or> ino_map m + n_inodes m \<le> x"
    "x < ino_tab m \<or> ino_tab m + 128 * n_inodes m \<le> x" for x
  proof -
    have "?m1 x = m x"
      using inode_taken_other [OF fs k(1) that(1,2)] k(1) that(3) by auto
    moreover have "link_put ?ino ?m1 x = ?m1 x"
      by (rule link_put_other) (use slot that(3) in \<open>auto simp: tab1\<close>)
    ultimately show ?thesis by (simp add: inode_linked_def)
  qed
  show "same_on (ino_tab m + 128 * j + 40) (ino_tab m + 128 * j + 128) m (inode_linked link ft time m)"
    if j: "j < n_inodes m" "j \<notin> snd (free_space m)" for j
    unfolding same_on_def
  proof (intro allI impI)
    fix x assume x: "ino_tab m + 128 * j + 40 \<le> x" "x < ino_tab m + 128 * j + 128"
    have "inode_taken ft time m ?k x = m x" if "link = 0"
    proof (rule inode_taken_other [OF fs k(1) [OF that]])
      have "j \<noteq> ?k" using j(2) ino(2) that by auto
      then show "x < ino_tab m + 128 * ?k \<or> ino_tab m + 128 * ?k + 128 \<le> x"
        using x by auto
      have "x < ino_tab m + 128 * n_inodes m"
        using x j(1) by simp
      then show "3072 \<le> x" "x < ino_map m \<or> ino_map m + n_inodes m \<le> x"
        using D(3,5,9) x by (auto simp: apart_def)
    qed
    then have "?m1 x = m x" by simp
    moreover have "link_put ?ino ?m1 x = ?m1 x"
      by (rule link_put_other [OF slot(1)]) (use x in \<open>unfold tab1, cases "slot_of ?ino \<le> j"; simp\<close>)
    ultimately show "inode_linked link ft time m x = m x"
      by (simp add: inode_linked_def)
  qed
qed

lemma entry_put_other:
  "x < e \<or> e + 8 + length name \<le> x \<Longrightarrow> entry_put e ino l ft name m x = m x"
  by (auto simp: entry_put_def put_bytes_apply put_le_outside entry_fields)

lemma entry_put_read:
  assumes "length name \<le> 255"
  shows "inode_of (entry_put e ino l ft name m) e = ino" "rec_len_at (entry_put e ino l ft name m) e = unat l"
    "name_at (entry_put e ino l ft name m) e = name" "entry_put e ino l ft name m (de_file_type e) = ft"
    "unat (entry_put e ino l ft name m (de_name_len e)) = length name"
proof -
  let ?m = "entry_put e ino l ft name m"
  have le: "get_le n (m'(e + 6 := u, e + 7 := v)) a = (get_le n m' a :: 'w::len word)" if "a + n \<le> e + 6" for m' u v n a
    by (rule get_le_cong) (use that in auto)
  show len: "unat (?m (de_name_len e)) = length name"
    using assms by (simp add: entry_put_def put_bytes_apply entry_fields unat_of_nat take_bit_nat_eq_self)
  show "inode_of ?m e = ino"
    by (simp add: inode_of_def entry_put_def entry_fields get_le_put_bytes_other le get_put_le get_put_le_other)
  show "rec_len_at ?m e = unat l"
    by (simp add: rec_len_at_def entry_put_def entry_fields get_le_put_bytes_other le get_put_le)
  show "name_at ?m e = name"
    unfolding name_at_def len by (simp add: entry_put_def entry_fields)
  show "?m (de_file_type e) = ft"
    by (simp add: entry_put_def put_bytes_apply entry_fields)
qed

section \<open>Finding room\<close>

definition fits :: "memory \<Rightarrow> cstring \<Rightarrow> nat \<Rightarrow> bool" where
  "fits m name q \<longleftrightarrow>
     pad (8 + length name) + (if inode_of m q = 0 then 0 else actual_len m q) \<le> rec_len_at m q"

definition shrunk :: "memory \<Rightarrow> nat \<Rightarrow> memory" where
  "shrunk m q = put_le 2 (de_rec_len q) (of_nat (actual_len m q) :: 16 word) m"

definition create_act :: "memory \<Rightarrow> 32 word \<Rightarrow> cstring \<Rightarrow> byte \<Rightarrow> nat \<Rightarrow> (ext2, nat) prog" where
  "create_act m link name ft q =
    (if inode_of m q = 0
     then thn (init_dir_entry q link (of_nat (rec_len_at m q)) (length name) ft name) (ret q)
     else let e = q + actual_len m q
       in thn (upd (\<lambda>s. s\<lparr>disk := shrunk m q\<rparr>))
         (thn (init_dir_entry e link (of_nat (rec_len_at m q - actual_len m q)) (length name) ft name) (ret e)))"

lemma create_body_run:
  assumes "q + 8 \<le> disk_size"
  shows "create_body link name ft q () s = (if fits (disk s) name q
    then bnd (create_act (disk s) link name ft q) (\<lambda>x. ret (Inr x)) s
    else (Ok (Inl (q + rec_len_at (disk s) q, ())), s))"
proof -
  let ?m = "disk s"
  have need: "get_padded_rec_len (int dir_entry_size + int (length name)) = int (pad (8 + length name))"
    using get_padded_rec_len [of "8 + length name"] by (simp add: dir_entry_size_def)
  have len: "uint (get_le 2 ?m (q + 4) :: 16 word) = int (rec_len_at ?m q)"
      "unat (get_le 2 ?m (q + 4) :: 16 word) = rec_len_at ?m q"
      "of_nat (rec_len_at ?m q) = (get_le 2 ?m (q + 4) :: 16 word)"
    by (simp_all add: rec_len_at_def entry_fields)
  have [simp]: "bnd (ret x) f = f x" for x :: 'x and f :: "'x \<Rightarrow> ('s, 'y) prog"
    by (simp add: fun_eq_iff prog)
  have ret: "ret x = Pair (Ok x)" for x :: 'x
    by (simp add: fun_eq_iff prog)
  have room: "int (pad (8 + length name)) \<le> int (rec_len_at ?m q) - int (actual_len ?m q) \<longleftrightarrow>
      pad (8 + length name) + actual_len ?m q \<le> rec_len_at ?m q"
    by linarith
  show ?thesis
  proof (cases "inode_of ?m q = 0")
    case True
    then have "get_le 4 ?m q = (0 :: 32 word)"
      by (simp add: inode_of_def entry_fields)
    with True assms show ?thesis
      unfolding create_body_def Let_def need
      by (simp add: prog len create_act_def fits_def entry_fields) (simp add: ret)
  next
    case False
    then have "get_le 4 ?m q \<noteq> (0 :: 32 word)"
      by (simp add: inode_of_def entry_fields)
    moreover have "of_int (int (q + rec_len_at ?m q) - int (q + actual_len ?m q)) =
        (of_nat (rec_len_at ?m q - actual_len ?m q) :: 16 word)" if "actual_len ?m q \<le> rec_len_at ?m q"
      using that by (simp add: of_nat_diff)
    ultimately show ?thesis
      using False assms
      unfolding create_body_def Let_def need
      by (simp add: prog len actual_len_run room create_act_def Let_def fits_def entry_fields shrunk_def) (simp add: ret)
  qed
qed

section \<open>Inserting an entry\<close>

text \<open>The bytes of a data block are no metadata.\<close>

lemma block_region:
  assumes "block_ok m b"
  shows "3072 \<le> block_start b" "apart (block_start b) 1024 (blk_map m) (n_blocks m)"
    "apart (block_start b) 1024 (ino_map m) (n_inodes m)" "apart (block_start b) 1024 (ino_tab m) (128 * n_inodes m)"
    "block_start b + 1024 \<le> 131072"
  using assms block_ok_start [OF assms] by (auto simp: block_ok_def data_block_def)

lemma entry_region:
  assumes "dir_sound m p" "q \<in> set (entries m p)"
  shows "\<exists>b \<in> set (dir_blocks m p). block_ok m b \<and> block_start b \<le> q \<and> q + rec_len_at m q \<le> block_start b + 1024 \<and>
    8 + unat (m (de_name_len q)) \<le> rec_len_at m q"
proof -
  obtain b where b: "b \<in> set (dir_blocks m p)" "q \<in> set (the (block_records m b))"
    using assms(2) by (auto simp: entries_def)
  moreover have "block_ok m b" "block_records m b \<noteq> None"
    using assms(1) b(1) by (auto simp: dir_sound_def dir_ok_def)
  ultimately show ?thesis
    using records_range [of m "block_start b" "block_start b + 1024" _ q]
    by (intro bexI [of _ b]) (auto simp: block_records_def)
qed

lemma shrunk:
  assumes "sound m" "dir_sound m p" "q \<in> set (entries m p)"
  shows "sound (shrunk m q)" "same_layout m (shrunk m q)" "free_space (shrunk m q) = free_space m"
    "x < q + 4 \<or> q + 6 \<le> x \<Longrightarrow> shrunk m q x = m x"
proof -
  obtain b where b: "block_ok m b" "block_start b \<le> q" "q + 8 \<le> block_start b + 1024"
    using entry_region [OF assms(2,3)] by auto
  show other: "shrunk m q x = m x" if "x < q + 4 \<or> q + 6 \<le> x" for x
    using that by (auto simp: shrunk_def put_le_outside entry_fields)
  have "shrunk m q x = m x" if "x < block_start b \<or> block_start b + 1024 \<le> x" for x
    by (rule other) (use that b in auto)
  from kept_sound [OF assms(1) this block_region(1-3) [OF b(1)]]
  show "sound (shrunk m q)" "same_layout m (shrunk m q)" "free_space (shrunk m q) = free_space m"
    by simp_all
qed

definition place :: "memory \<Rightarrow> nat \<Rightarrow> nat" where
  "place m q = (if inode_of m q = 0 then q else q + actual_len m q)"

definition cleared :: "memory \<Rightarrow> nat \<Rightarrow> memory" where
  "cleared m q = (if inode_of m q = 0 then m else shrunk m q)"

definition inserted :: "32 word \<Rightarrow> cstring \<Rightarrow> byte \<Rightarrow> 32 word \<Rightarrow> memory \<Rightarrow> nat \<Rightarrow> memory" where
  "inserted link name ft time m q = entry_put (place m q) (new_ino m link)
     (of_nat (q + rec_len_at m q - place m q)) ft name (inode_linked link ft time (cleared m q))"

lemma cleared:
  assumes "sound m" "dir_sound m p" "q \<in> set (entries m p)"
  shows "sound (cleared m q)" "same_layout m (cleared m q)" "free_space (cleared m q) = free_space m"
    "x < q + 4 \<or> q + 6 \<le> x \<Longrightarrow> cleared m q x = m x"
  using shrunk [OF assms] assms(1) by (auto simp: cleared_def)

lemma fits_place:
  "fits m name q \<Longrightarrow> q \<le> place m q \<and> place m q + 8 + length name \<le> q + rec_len_at m q"
  using pad_bounds(1) [of "8 + length name"] by (auto simp: fits_def place_def)

lemma create_act_run:
  fixes s :: ext2
  defines "m \<equiv> disk s"
  assumes "sound m" "dir_sound m p" "q \<in> set (entries m p)" "fits m name q" "link_ok m link"
  shows "create_act m link name ft q s = (if no_inode m link then (Exit ENOMEM, s\<lparr>disk := cleared m q\<rparr>)
    else (Ok (place m q), s\<lparr>disk := inserted link name ft (now s) m q\<rparr>))"
proof -
  note clr = cleared [OF assms(2-4)]
  have "q + rec_len_at m q \<le> disk_size"
    using entry_region [OF assms(3,4)] block_region(5) by fastforce
  then have range: "place m q + 8 + length name \<le> disk_size"
    using fits_place [OF assms(5)] by simp
  have ok: "link_ok (cleared m q) link"
    using assms(6) clr(2) by (simp add: link_ok_def inode_ok_def same_layout_def)
  have same: "no_inode (cleared m q) link = no_inode m link" "new_ino (cleared m q) link = new_ino m link"
    using clr(3) by (simp_all add: no_inode_def new_ino_def)
  have "init_dir_entry (place m q) link l (length name) ft name (s\<lparr>disk := cleared m q\<rparr>) =
      (if no_inode m link then (Exit ENOMEM, s\<lparr>disk := cleared m q\<rparr>)
       else (Ok (), s\<lparr>disk := entry_put (place m q) (new_ino m link) l ft name (inode_linked link ft (now s) (cleared m q))\<rparr>))" for l
    using init_dir_entry_run [of "s\<lparr>disk := cleared m q\<rparr>" "place m q" name link l ft] clr(1) range ok same by simp
  then show ?thesis
    by (auto simp: create_act_def Let_def place_def cleared_def inserted_def m_def prog bnd_def)
qed

text \<open>Bytes outside the metadata: no part of the counters, the bitmaps or the inode table.\<close>

definition data_byte :: "memory \<Rightarrow> nat \<Rightarrow> bool" where
  "data_byte m x \<longleftrightarrow> 3072 \<le> x \<and> (x < blk_map m \<or> blk_map m + n_blocks m \<le> x) \<and>
     (x < ino_map m \<or> ino_map m + n_inodes m \<le> x) \<and> (x < ino_tab m \<or> ino_tab m + 128 * n_inodes m \<le> x)"

lemma block_data_byte: "block_ok m b \<Longrightarrow> block_start b \<le> x \<Longrightarrow> x < block_start b + 1024 \<Longrightarrow> data_byte m x"
  using block_region [of m b] by (auto simp: data_byte_def apart_def)

lemma in_blocks_data_byte: "dir_sound m p \<Longrightarrow> in_blocks m p x \<Longrightarrow> data_byte m x"
  by (auto simp: dir_sound_def in_blocks_def intro: block_data_byte)

lemma data_byte_layout: "same_layout m m' \<Longrightarrow> data_byte m' x = data_byte m x"
  by (simp add: data_byte_def same_layout_def)

lemma slot_no_data:
  "fs_ok m \<Longrightarrow> j < n_inodes m \<Longrightarrow> ino_tab m + 128 * j \<le> x \<Longrightarrow> x < ino_tab m + 128 * j + 128 \<Longrightarrow> \<not> data_byte m x"
  by (auto simp: data_byte_def)

text \<open>The memory before the entry is filled in.\<close>

definition prepared :: "32 word \<Rightarrow> byte \<Rightarrow> 32 word \<Rightarrow> memory \<Rightarrow> nat \<Rightarrow> memory" where
  "prepared link ft time m q = inode_linked link ft time (cleared m q)"

lemma prepared:
  fixes ft :: byte and time :: "32 word" and x :: nat
  assumes "sound m" "dir_sound m p" "q \<in> set (entries m p)" "link_ok m link" "\<not> no_inode m link"
  defines "m1 \<equiv> prepared link ft time m q"
  shows "sound m1" "same_layout m m1" "free_space m1 = (fst (free_space m), inodes_left link m)"
    "data_byte m x \<Longrightarrow> m1 x = cleared m q x" "p + 40 \<le> x \<Longrightarrow> x < p + 88 \<Longrightarrow> m1 x = m x"
proof -
  let ?m0 = "cleared m q"
  note clr = cleared [OF assms(1-3)]
  have same: "\<not> no_inode ?m0 link" "link_ok ?m0 link" "inodes_left link ?m0 = inodes_left link m"
    using assms(4,5) clr(2,3) by (simp_all add: no_inode_def link_ok_def inode_ok_def same_layout_def inodes_left_def)
  note linked = inode_linked [OF clr(1) same(1,2), where ft = ft and time = time, unfolded same(3) clr(3)]
  have m1: "m1 = inode_linked link ft time ?m0"
    by (simp add: m1_def prepared_def)
  show "sound m1" "free_space m1 = (fst (free_space m), inodes_left link m)"
    using linked(1,3) by (simp_all add: m1)
  show "same_layout m m1"
    using clr(2) linked(2) by (simp add: m1 same_layout_def)
  show "m1 x = ?m0 x" if "data_byte m x"
    unfolding m1 by (rule linked(4)) (use that clr(2) in \<open>auto simp: data_byte_def same_layout_def\<close>)
  obtain j where j: "j < n_inodes m" "j \<notin> snd (free_space m)" "p = ino_tab m + 128 * j"
    using assms(2) by (auto simp: dir_sound_def)
  show "m1 x = m x" if x: "p + 40 \<le> x" "x < p + 88"
  proof -
    have "same_on (ino_tab m + 128 * j + 40) (ino_tab m + 128 * j + 128) ?m0 m1"
      using linked(5) [of j] j(1,2) clr(2,3) by (simp add: m1 same_layout_def)
    then have "m1 x = ?m0 x"
      using x j(3) by (simp add: same_on_def)
    also have "\<dots> = m x"
    proof (rule clr(4), rule ccontr)
      assume near: "\<not> (x < q + 4 \<or> q + 6 \<le> x)"
      obtain b where "block_ok m b" "block_start b \<le> q" "q + 8 \<le> block_start b + 1024"
        using entry_region [OF assms(2,3)] by auto
      then have "data_byte m x"
        using near by (auto intro!: block_data_byte)
      then show False
        using slot_no_data [OF soundD(1) [OF assms(1)] j(1), of x] x j(3) by auto
    qed
    finally show ?thesis .
  qed
qed

lemma inserted_outside:
  "x < place m q \<or> place m q + 8 + length name \<le> x \<Longrightarrow> inserted link name ft time m q x = prepared link ft time m q x"
  by (simp add: inserted_def prepared_def entry_put_other)

lemma inserted_frame:
  fixes ft :: byte and time :: "32 word" and x :: nat
  assumes "sound m" "dir_sound m p" "q \<in> set (entries m p)" "link_ok m link" "\<not> no_inode m link"
    and "fits m name q"
  defines "m' \<equiv> inserted link name ft time m q" and "r \<equiv> q + rec_len_at m q"
  shows "sound m'" "same_layout m m'" "free_space m' = (fst (free_space m), inodes_left link m)"
    "data_byte m x \<Longrightarrow> x < q \<or> r \<le> x \<Longrightarrow> m' x = m x" "keeps_dir p q r m m'"
proof -
  let ?m1 = "prepared link ft time m q"
  note prep = prepared [OF assms(1-5), where ft = ft and time = time]
  obtain b where b: "block_ok m b" "block_start b \<le> q" "r \<le> block_start b + 1024" "q + 8 \<le> r"
    using entry_region [OF assms(2,3)] r_def by auto
  have e: "q \<le> place m q" "place m q + 8 + length name \<le> r"
    using fits_place [OF assms(6)] r_def by simp_all
  have outside: "m' x = ?m1 x" if "x < block_start b \<or> block_start b + 1024 \<le> x" for x
    unfolding m'_def by (rule inserted_outside) (use that e b in auto)
  have b1: "block_ok ?m1 b"
    using b(1) prep(2) by (simp add: block_ok_def same_layout_def data_block_def)
  note kept = kept_sound [OF prep(1) outside block_region(1-3) [OF b1]]
  show "sound m'" by (rule kept(1))
  show "same_layout m m'" by (rule same_layout_trans [OF prep(2) kept(2)])
  show "free_space m' = (fst (free_space m), inodes_left link m)"
    using kept(3) prep(3) by simp
  have data: "m' x = m x" if "data_byte m x" "x < q \<or> r \<le> x" for x
    using inserted_outside [of x m q name link ft time] prep(4) [OF that(1)] cleared(4) [OF assms(1-3), of x] that(2) e b(4)
    by (auto simp: m'_def)
  then show "data_byte m x \<Longrightarrow> x < q \<or> r \<le> x \<Longrightarrow> m' x = m x" .
  have "m' x = m x" if x: "p + 40 \<le> x" "x < p + 88" for x
  proof -
    obtain j where "j < n_inodes m" "p = ino_tab m + 128 * j"
      using assms(2) by (auto simp: dir_sound_def)
    then have "\<not> data_byte m x"
      using slot_no_data [OF soundD(1) [OF assms(1)], of j x] x by auto
    then have "x < block_start b \<or> block_start b + 1024 \<le> x"
      using block_data_byte [OF b(1), of x] by linarith
    from outside [OF this] prep(5) [OF x] show ?thesis by simp
  qed
  then show "keeps_dir p q r m m'"
    using data in_blocks_data_byte [OF assms(2)] by (simp add: keeps_dir_def same_on_def)
qed

text \<open>The record in front of the new entry.\<close>

lemma inserted_head:
  fixes ft :: byte and time :: "32 word"
  assumes "sound m" "dir_sound m p" "q \<in> set (entries m p)" "link_ok m link" "\<not> no_inode m link"
    and "fits m name q" "inode_of m q \<noteq> 0"
  defines "m' \<equiv> inserted link name ft time m q"
  shows "same_record m m' q" "rec_len_at m' q = actual_len m q" "m' (de_name_len q) = m (de_name_len q)"
proof -
  obtain b where b: "block_ok m b" "block_start b \<le> q" "q + rec_len_at m q \<le> block_start b + 1024"
    using entry_region [OF assms(2,3)] by auto
  have e: "place m q = q + actual_len m q" "cleared m q = shrunk m q" "place m q \<le> q + rec_len_at m q"
    using assms(7) fits_place [OF assms(6)] by (simp_all add: place_def cleared_def)
  have actual: "8 + unat (m (de_name_len q)) \<le> actual_len m q" "actual_len m q < 2 ^ 16"
    using pad_bounds [of "8 + unat (m (de_name_len q))"] unsigned_less [of "m (de_name_len q)", where 'a = nat]
    by (simp_all add: actual_len_def)
  have head: "m' x = shrunk m q x" if "q \<le> x" "x < place m q" for x
    using inserted_outside [of x m q] prepared(4) [OF assms(1-5) block_data_byte [OF b(1)], of x] that e b
    by (simp add: m'_def)
  have "get_le 2 m' (de_rec_len q) = (get_le 2 (shrunk m q) (de_rec_len q) :: 16 word)"
    by (intro get_le_cong head) (use actual e(1) in \<open>auto simp: entry_fields\<close>)
  then show "rec_len_at m' q = actual_len m q"
    using actual(2) by (simp add: rec_len_at_def shrunk_def get_put_le unat_of_nat take_bit_nat_eq_self)
  have agree: "m' x = m x" if "q \<le> x" "x < place m q" "x < q + 4 \<or> q + 6 \<le> x" for x
    using head [OF that(1,2)] shrunk(4) [OF assms(1-3) that(3)] by simp
  show nl: "m' (de_name_len q) = m (de_name_len q)"
    by (rule agree; use actual e(1) in \<open>simp add: entry_fields\<close>)
  have "m' (de_file_type q) = m (de_file_type q)"
    by (rule agree; use actual e(1) in \<open>simp add: entry_fields\<close>)
  moreover have "get_le 4 m' q = (get_le 4 m q :: 32 word)"
    by (intro get_le_cong agree) (use actual e(1) in auto)
  moreover have "name_at m' q = name_at m q"
    unfolding name_at_def nl get_bytes_def
    by (intro map_cong refl agree) (use actual e(1) in \<open>auto simp: entry_fields\<close>)
  ultimately show "same_record m m' q"
    by (simp add: same_record_def inode_of_def entry_fields)
qed

lemma inserted_records:
  fixes ft :: byte and time :: "32 word"
  assumes "sound m" "dir_sound m p" "q \<in> set (entries m p)" "link_ok m link" "\<not> no_inode m link"
    and "fits m name q" "length name \<le> 255"
  defines "m' \<equiv> inserted link name ft time m q"
  shows "records m' q (q + rec_len_at m q) = Some (if inode_of m q = 0 then [q] else [q, place m q])"
    "item_at m' (place m q) = (name, new_ino m link, ft)"
proof -
  let ?e = "place m q" and ?r = "q + rec_len_at m q"
  have e: "q \<le> ?e" "?e + 8 + length name \<le> ?r"
    using fits_place [OF assms(6)] by simp_all
  have "?r - ?e < 2 ^ 16"
    using e unsigned_less [of "get_le 2 m (de_rec_len q) :: 16 word", where 'a = nat] by (simp add: rec_len_at_def)
  then have len: "unat (of_nat (?r - ?e) :: 16 word) = ?r - ?e"
    by (simp add: unat_of_nat take_bit_nat_eq_self)
  note read = entry_put_read [OF assms(7), of ?e "new_ino m link" "of_nat (?r - ?e)" ft "prepared link ft time m q"]
  have new: "inode_of m' ?e = new_ino m link" "rec_len_at m' ?e = ?r - ?e" "name_at m' ?e = name"
      "m' (de_file_type ?e) = ft" "unat (m' (de_name_len ?e)) = length name"
    using read len unfolding m'_def inserted_def prepared_def by simp_all
  then show "item_at m' ?e = (name, new_ino m link, ft)"
    by (simp add: item_at_def)
  have tail: "records m' ?e ?r = Some [?e]"
    by (rule records_one) (use new e in simp_all)
  show "records m' q ?r = Some (if inode_of m q = 0 then [q] else [q, ?e])"
  proof (cases "inode_of m q = 0")
    case False
    note head = inserted_head [OF assms(1-6) False, where ft = ft and time = time, folded m'_def]
    have "?e = q + actual_len m q" "8 + unat (m (de_name_len q)) \<le> actual_len m q"
      using False pad_bounds(1) by (simp_all add: place_def actual_len_def)
    then have "records m' q ?r = Some (q # [?e])"
      by (intro records_step) (use head(2,3) e tail in simp_all)
    with False show ?thesis by simp
  qed (use tail in \<open>simp add: place_def\<close>)
qed

lemma map_of_insert:
  assumes "map_of (xs @ ys) k = None"
  shows "map_of (xs @ (k, v) # ys) = (map_of (xs @ ys))(k \<mapsto> v)"
proof
  fix x
  show "map_of (xs @ (k, v) # ys) x = ((map_of (xs @ ys))(k \<mapsto> v)) x"
    using assms by (cases "map_of xs x") (auto simp: map_add_def split: option.splits)
qed

lemma dir_sound_kept:
  assumes "dir_sound m p" "dir_ok m' p" "same_on (p + 40) (p + 88) m m'" "same_layout m m'"
    and "fst (free_space m') = fst (free_space m)" "snd (free_space m') \<subseteq> snd (free_space m)"
  shows "dir_sound m' p"
proof -
  have blocks: "dir_blocks m' p = dir_blocks m p"
    by (rule dir_blocks_same [OF assms(3)])
  have "get_le 4 m' (i_block p n) = (get_le 4 m (i_block p n) :: 32 word)" if "n < 12" for n
    by (rule same_on_get [OF assms(3)]) (use that in \<open>auto simp: inode_fields\<close>)
  moreover have "block_ok m' b = block_ok m b" for b
    using assms(4) by (simp add: block_ok_def same_layout_def data_block_def)
  ultimately show ?thesis
    using assms(1,2,4,5,6) blocks by (auto simp: dir_sound_def same_layout_def)
qed

lemma inodes_left_sub: "inodes_left link m \<subseteq> snd (free_space m)"
  by (auto simp: inodes_left_def Let_def)

lemma inserted_dir:
  fixes ft :: byte and time :: "32 word"
  assumes "sound m" "dir_sound m p" "q \<in> set (entries m p)" "link_ok m link" "\<not> no_inode m link"
    and "fits m name q" "length name \<le> 255" "dir_map m p name = None"
  defines "m' \<equiv> inserted link name ft time m q"
  shows "dir_sound m' p" "dir_map m' p = (dir_map m p)(name \<mapsto> (new_ino m link, ft))"
proof -
  note frame = inserted_frame [OF assms(1-6), where ft = ft and time = time, folded m'_def]
  note recs = inserted_records [OF assms(1-7), where ft = ft and time = time, folded m'_def]
  note new = dir_replace [OF assms(2,3) frame(5) recs(1)]
  show "dir_sound m' p"
    by (rule dir_sound_kept [OF assms(2) new(1)]) (use frame inodes_left_sub in \<open>auto simp: keeps_dir_def\<close>)
  obtain A C where AC: "entries m p = A @ q # C" "\<forall>e \<in> set A \<union> set C. same_record m m' e"
      "entries m' p = A @ (if inode_of m q = 0 then [q] else [q, place m q]) @ C"
    using new(3) by auto
  have "listing m' A = listing m A" "listing m' C = listing m C"
    by (rule listing_same; use AC(2) in simp)+
  moreover have "inode_of m' (place m q) \<noteq> 0"
    using recs(2) new_ino(2) [OF soundD(1) [OF assms(1)] assms(5,4)] by (simp add: item_at_def)
  moreover have "listing m' [q] = listing m [q]" if "inode_of m q \<noteq> 0"
    using inserted_head(1) [OF assms(1-6) that, where ft = ft and time = time, folded m'_def]
    by (intro listing_same) simp
  moreover have "place m q = q" if "inode_of m q = 0"
    using that by (simp add: place_def)
  ultimately have "listing m' (entries m' p) =
      (listing m A @ listing m [q]) @ (name, new_ino m link, ft) # listing m C"
    using recs(2) by (auto simp: AC(3) listing_Cons [of _ _ "[]"] listing_Cons [of _ _ "[_]"] listing_Cons [of _ _ C]
        listing_Cons [of _ _ "_ # C"])
  moreover have "listing m (entries m p) = (listing m A @ listing m [q]) @ listing m C"
    using listing_append [of m "[q]" C] by (simp add: AC(1))
  ultimately show "dir_map m' p = (dir_map m p)(name \<mapsto> (new_ino m link, ft))"
    using assms(8) unfolding dir_map_def by (simp only: map_of_insert)
qed

section \<open>The loop over the blocks\<close>

lemma create_loop_run:
  fixes s :: ext2
  defines "m \<equiv> disk s"
  assumes "sound m" "dir_sound m p" "link_ok m link"
  shows "block_loop p (walk_block (\<noteq>) (\<lambda>_. create_body link name ft) (\<lambda>_. ())) [0..<12] s =
    (case find (fits m name) (entries m p) of
       None \<Rightarrow> (Ok (Inl (length (dir_blocks m p))), s)
     | Some q \<Rightarrow> if no_inode m link then (Exit ENOMEM, s\<lparr>disk := cleared m q\<rparr>)
         else (Ok (Inr (place m q)), s\<lparr>disk := inserted link name ft (now s) m q\<rparr>))"
proof -
  have ok: "dir_ok m p"
    using assms(3) by (simp add: dir_sound_def)
  have "walk_block (\<noteq>) (\<lambda>_. create_body link name ft) (\<lambda>_. ()) b s = (case find (fits m name) (the (block_records m b)) of
      None \<Rightarrow> (Ok None, s) | Some e \<Rightarrow> bnd (create_act m link name ft e) (\<lambda>x. ret (Some x)) s)"
    if "b \<in> set (dir_blocks m p)" for b
    unfolding m_def
    by (rule walk_block_find) (use ok that in \<open>auto simp: dir_ok_def m_def create_body_run\<close>)
  then have loop: "block_loop p (walk_block (\<noteq>) (\<lambda>_. create_body link name ft) (\<lambda>_. ())) [0..<12] s =
      (case find (fits m name) (entries m p) of None \<Rightarrow> (Ok (Inl (length (dir_blocks m p))), s)
        | Some e \<Rightarrow> bnd (create_act m link name ft e) (\<lambda>x. ret (Inr x)) s)"
    unfolding m_def by (intro block_loop_find) (use ok in \<open>simp_all add: m_def\<close>)
  show ?thesis
  proof (cases "find (fits m name) (entries m p)")
    case (Some q)
    then have "q \<in> set (entries m p)" "fits m name q"
      by (auto simp: find_Some_iff)
    then show ?thesis
      using create_act_run [of s p q name link ft] assms loop Some by (simp add: bnd_def prog)
  qed (simp add: loop)
qed

end
