(* ===== verification/Append.thy ===== *)
theory Append
  imports Create
begin

text \<open>
  \<open>create_dir_entry\<close> when no record of the directory has room: a new block; and the whole function.
\<close>

section \<open>A new block\<close>

definition fresh :: "memory \<Rightarrow> nat" where
  "fresh m = Min (fst (free_space m))"

definition grown :: "memory \<Rightarrow> nat \<Rightarrow> memory" where
  "grown m p = (let n = length (dir_blocks m p);
     m2 = put_le 4 (i_block p n) (of_nat (fresh m + 1) :: 32 word) (block_taken m (fresh m));
     m3 = put_le 4 (i_size p) (get_le 4 m2 (i_size p) + 1024 :: 32 word) m2
   in put_le 4 (i_blocks p) (NUM_DISK_BLKS (get_le 4 m3 (i_blocks p)) 1024) m3)"

lemma fresh_block:
  assumes "fs_ok m" "fst (free_space m) \<noteq> {}"
  shows "fresh m \<in> fst (free_space m)" "block_ok m (of_nat (fresh m + 1))" "slot_of (of_nat (fresh m + 1)) = fresh m"
    "block_start (of_nat (fresh m + 1)) = 1024 * (fresh m + 1)" "fresh m < 127" "of_nat (fresh m + 1) \<noteq> (0 :: 32 word)"
proof -
  show k: "fresh m \<in> fst (free_space m)"
    using assms(2) by (auto simp: fresh_def free_space_def intro: Min_in)
  note bound = free_block_bound [OF assms(1) k]
  have num: "slot_of (of_nat (fresh m + 1)) = fresh m \<and> 1 \<le> sint (of_nat (fresh m + 1) :: 32 word)"
    by (rule slot_of_num) (use bound in simp)
  then show "block_ok m (of_nat (fresh m + 1))" "slot_of (of_nat (fresh m + 1)) = fresh m"
    using bound by (simp_all add: block_ok_def)
  show "of_nat (fresh m + 1) \<noteq> (0 :: 32 word)"
    using num by auto
  show "fresh m < 127"
    using bound by simp
  then show "block_start (of_nat (fresh m + 1)) = 1024 * (fresh m + 1)"
    by (rule block_start_num)
qed

lemma block_taken_other:
  assumes "fs_ok m" "k < 8 * n_blocks m" "3072 \<le> x" "x < blk_map m \<or> blk_map m + n_blocks m \<le> x"
    and "x < 1024 * (k + 1) \<or> 1024 * (k + 1) + 1024 \<le> x"
  shows "block_taken m k x = m x"
proof -
  have "block_taken m k x = block_put m k True x"
    using assms(5) by (auto simp: block_taken_def put_bytes_apply)
  also have "\<dots> = put_bit (blk_map m) k True m x"
    by (rule put_counted_read(4)) (use fs_okD(1) [OF assms(1)] assms(3) in \<open>simp_all add: ext2_fields\<close>)
  also have "\<dots> = m x"
    by (rule put_bit_other) (use assms(2,4) in auto)
  finally show ?thesis .
qed

lemma grown:
  assumes "sound m" "dir_sound m p" "fst (free_space m) \<noteq> {}" "length (dir_blocks m p) < 12"
  defines "k \<equiv> fresh m"
  shows "sound (grown m p)" "same_layout m (grown m p)"
    "free_space (grown m p) = (fst (free_space m) - {k}, snd (free_space m))"
    "data_byte m x \<Longrightarrow> x < 1024 * (k + 1) \<or> 1024 * (k + 1) + 1024 \<le> x \<Longrightarrow> grown m p x = m x"
    "n < 12 \<Longrightarrow> get_le 4 (grown m p) (i_block p n) =
      (if n = length (dir_blocks m p) then of_nat (k + 1) else get_le 4 m (i_block p n) :: 32 word)"
proof -
  let ?m1 = "block_taken m k"
  note fs = soundD(1) [OF assms(1)]
  have k: "k \<in> fst (free_space m)" "data_block m k" "k < 8 * n_blocks m"
    using fresh_block(1) [OF fs assms(3)] free_block_bound [OF fs] by (auto simp: k_def)
  obtain j where j: "j < n_inodes m" "p = ino_tab m + 128 * j"
    using assms(2) by (auto simp: dir_sound_def)
  note taken = block_taken [OF assms(1) k(1)]
  have slot: "j < n_inodes ?m1"
    using j(1) taken(2) by (simp add: same_layout_def)
  note region = slot_region [OF soundD(1) [OF taken(1)] slot]
  have out: "grown m p x = ?m1 x" if "x < p + 4 \<or> p + 88 \<le> x" for x
    using that assms(4) by (auto simp: grown_def Let_def put_le_outside inode_fields k_def)
  have near: "grown m p x = ?m1 x" if "x < ino_tab ?m1 + 128 * j \<or> ino_tab ?m1 + 128 * j + 128 \<le> x" for x
    by (rule out) (use that taken(2) j(2) in \<open>auto simp: same_layout_def\<close>)
  have kept: "sound (grown m p)" "same_layout ?m1 (grown m p)" "free_space (grown m p) = free_space ?m1"
    by (rule kept_sound [OF taken(1) near region], assumption)+
  show "sound (grown m p)" "free_space (grown m p) = (fst (free_space m) - {k}, snd (free_space m))"
    using kept(1,3) taken(3) by simp_all
  show "same_layout m (grown m p)"
    by (rule same_layout_trans [OF taken(2) kept(2)])
  show "grown m p x = m x" if "data_byte m x" "x < 1024 * (k + 1) \<or> 1024 * (k + 1) + 1024 \<le> x"
  proof -
    have "x < p \<or> p + 128 \<le> x"
      using slot_no_data [OF fs j(1), of x] that(1) j(2) by linarith
    then have "grown m p x = ?m1 x"
      by (intro out) auto
    also have "\<dots> = m x"
      by (rule block_taken_other [OF fs k(3)]) (use that in \<open>auto simp: data_byte_def\<close>)
    finally show ?thesis .
  qed
  have table: "?m1 x = m x" if "p \<le> x" "x < p + 128" for x
  proof (rule block_taken_other [OF fs k(3)])
    have bounds: "ino_tab m \<le> x" "x < ino_tab m + 128 * n_inodes m"
      using that j by auto
    then show "3072 \<le> x" "x < blk_map m \<or> blk_map m + n_blocks m \<le> x"
        "x < 1024 * (k + 1) \<or> 1024 * (k + 1) + 1024 \<le> x"
      using fs_okD(1,5,8) [OF fs] k(2) by (auto simp: apart_def data_block_def)
  qed
  show "get_le 4 (grown m p) (i_block p n) =
      (if n = length (dir_blocks m p) then of_nat (k + 1) else get_le 4 m (i_block p n) :: 32 word)" if "n < 12"
  proof -
    have "get_le 4 ?m1 (i_block p n) = (get_le 4 m (i_block p n) :: 32 word)"
      by (rule get_le_cong, rule table) (use that in \<open>auto simp: inode_fields\<close>)
    then show ?thesis
      by (cases n "length (dir_blocks m p)" rule: linorder_cases)
        (simp_all add: grown_def Let_def inode_fields get_put_le get_put_le_other k_def)
  qed
qed

lemma dir_blocks_append:
  assumes "length (dir_blocks m p) < 12" "b \<noteq> 0"
    and "\<And>n. n < 12 \<Longrightarrow> get_le 4 m' (i_block p n) =
      (if n = length (dir_blocks m p) then b else get_le 4 m (i_block p n) :: 32 word)"
    and "\<And>n. n < 12 \<Longrightarrow> length (dir_blocks m p) \<le> n \<Longrightarrow> get_le 4 m (i_block p n) = (0 :: 32 word)"
  shows "dir_blocks m' p = dir_blocks m p @ [b]"
proof -
  let ?L = "length (dir_blocks m p)"
  let ?old = "\<lambda>n. get_le 4 m (i_block p n) :: 32 word" and ?new = "\<lambda>n. get_le 4 m' (i_block p n) :: 32 word"
  have upt: "[0..<12] = [0..<?L] @ ?L # [Suc ?L..<12]"
    using assms(1) upt_add_eq_append [of 0 ?L "12 - ?L"] by (simp add: upt_conv_Cons)
  have "dir_blocks m p = take ?L (map ?old [0..<12])"
    unfolding dir_blocks_def by (rule takeWhile_eq_take)
  then have old: "dir_blocks m p = map ?old [0..<?L]"
    using assms(1) by (simp add: take_map)
  have "map ?new [0..<?L] = map ?old [0..<?L]"
    using assms(1,3) by (intro map_cong) auto
  then have "map ?new [0..<?L] = dir_blocks m p"
    using old by (rule trans [OF _ sym])
  moreover have "?new ?L = b"
    using assms(1,3) by simp
  ultimately have new: "map ?new [0..<12] = dir_blocks m p @ b # map ?new [Suc ?L..<12]"
    by (simp add: upt del: upt_Suc)
  have "takeWhile (\<lambda>b. b \<noteq> 0) (map ?new [Suc ?L..<12]) = []"
    using assms(1,3,4) by (cases "Suc ?L < 12") (simp_all add: upt_conv_Cons)
  moreover have "takeWhile (\<lambda>b. b \<noteq> 0) (dir_blocks m p @ ys) = dir_blocks m p @ takeWhile (\<lambda>b. b \<noteq> 0) ys" for ys
    by (rule takeWhile_append2) (auto simp: dir_blocks_def dest: set_takeWhileD)
  ultimately show ?thesis
    unfolding dir_blocks_def [of m'] new using assms(2) by simp
qed

definition appended :: "32 word \<Rightarrow> cstring \<Rightarrow> byte \<Rightarrow> 32 word \<Rightarrow> memory \<Rightarrow> nat \<Rightarrow> memory" where
  "appended link name ft time m p = entry_put (1024 * (fresh m + 1)) (new_ino m link) 1024 ft name
     (inode_linked link ft time (grown m p))"

lemma appended:
  fixes ft :: byte and time :: "32 word" and x n :: nat
  assumes "sound m" "dir_sound m p" "link_ok m link" "\<not> no_inode m link" "length name \<le> 255"
    and "fst (free_space m) \<noteq> {}" "length (dir_blocks m p) < 12"
  defines "m' \<equiv> appended link name ft time m p"
  shows "sound m'" "same_layout m m'" "free_space m' = (fst (free_space m) - {fresh m}, inodes_left link m)"
    "data_byte m x \<Longrightarrow> x < 1024 * (fresh m + 1) \<or> 1024 * (fresh m + 1) + 1024 \<le> x \<Longrightarrow> m' x = m x"
    "n < 12 \<Longrightarrow> get_le 4 m' (i_block p n) =
      (if n = length (dir_blocks m p) then of_nat (fresh m + 1) else get_le 4 m (i_block p n) :: 32 word)"
    "records m' (1024 * (fresh m + 1)) (1024 * (fresh m + 1) + 1024) = Some [1024 * (fresh m + 1)]"
    "item_at m' (1024 * (fresh m + 1)) = (name, new_ino m link, ft)"
proof -
  let ?e = "1024 * (fresh m + 1)" and ?g = "grown m p"
  let ?m1 = "inode_linked link ft time ?g"
  note fs = soundD(1) [OF assms(1)]
  note block = fresh_block [OF fs assms(6)]
  note g = grown [OF assms(1,2,6,7)]
  have same: "\<not> no_inode ?g link" "link_ok ?g link" "inodes_left link ?g = inodes_left link m"
    using assms(3,4) g(2,3) by (simp_all add: no_inode_def link_ok_def inode_ok_def same_layout_def inodes_left_def)
  note linked = inode_linked [OF g(1) same(1,2), where ft = ft and time = time, unfolded same(3) g(3)]
  have layout1: "same_layout m ?m1"
    by (rule same_layout_trans [OF g(2) linked(2)])
  have b1: "block_ok ?m1 (of_nat (fresh m + 1))"
    using block(2) layout1 by (simp add: block_ok_def same_layout_def data_block_def)
  have out: "m' x = ?m1 x" if "x < ?e \<or> ?e + 1024 \<le> x" for x
    using that assms(5) by (auto simp: m'_def appended_def entry_put_other)
  have kept: "sound m'" "same_layout ?m1 m'" "free_space m' = free_space ?m1"
    by (rule kept_sound [OF linked(1) out block_region(1-3) [OF b1, unfolded block(4)]], assumption)+
  show "sound m'" "free_space m' = (fst (free_space m) - {fresh m}, inodes_left link m)"
    using kept linked(3) by simp_all
  show "same_layout m m'"
    by (rule same_layout_trans [OF layout1 kept(2)])
  show "m' x = m x" if "data_byte m x" "x < ?e \<or> ?e + 1024 \<le> x"
  proof -
    have "?m1 x = ?g x"
      by (rule linked(4)) (use that(1) g(2) in \<open>auto simp: data_byte_def same_layout_def\<close>)
    with out [OF that(2)] g(4) [OF that] show ?thesis by simp
  qed
  obtain j where j: "j < n_inodes m" "j \<notin> snd (free_space m)" "p = ino_tab m + 128 * j"
    using assms(2) by (auto simp: dir_sound_def)
  show "get_le 4 m' (i_block p n) =
      (if n = length (dir_blocks m p) then of_nat (fresh m + 1) else get_le 4 m (i_block p n) :: 32 word)" if n: "n < 12"
  proof -
    have "m' x = ?g x" if x: "p + 40 \<le> x" "x < p + 88" for x
    proof -
      have "\<not> data_byte m x"
        using slot_no_data [OF fs j(1), of x] x j(3) by auto
      then have "m' x = ?m1 x"
        using out [of x] block_data_byte [OF block(2), of x] block(4) by fastforce
      moreover have "same_on (ino_tab m + 128 * j + 40) (ino_tab m + 128 * j + 128) ?g ?m1"
        using linked(5) [of j] j(1,2) g(2,3) by (simp add: same_layout_def)
      ultimately show ?thesis
        using x j(3) by (simp add: same_on_def)
    qed
    then have "get_le 4 m' (i_block p n) = (get_le 4 ?g (i_block p n) :: 32 word)"
      by (intro get_le_cong) (use n in \<open>auto simp: inode_fields\<close>)
    with g(5) [OF n] show ?thesis by simp
  qed
  note read = entry_put_read [OF assms(5), of ?e "new_ino m link" 1024 ft ?m1, folded appended_def, folded m'_def]
  from read show "item_at m' ?e = (name, new_ino m link, ft)"
    by (simp add: item_at_def)
  show "records m' ?e (?e + 1024) = Some [?e]"
    by (rule records_one) (use read assms(5) in simp_all)
qed

lemma appended_dir:
  fixes ft :: byte and time :: "32 word"
  assumes "sound m" "dir_sound m p" "link_ok m link" "\<not> no_inode m link" "length name \<le> 255"
    and "fst (free_space m) \<noteq> {}" "length (dir_blocks m p) < 12" "dir_map m p name = None"
  defines "m' \<equiv> appended link name ft time m p"
  shows "dir_sound m' p" "dir_map m' p = (dir_map m p)(name \<mapsto> (new_ino m link, ft))"
proof -
  let ?e = "1024 * (fresh m + 1)" and ?b = "of_nat (fresh m + 1) :: 32 word"
  note fs = soundD(1) [OF assms(1)]
  note block = fresh_block [OF fs assms(6)]
  note new = appended [OF assms(1-7), where ft = ft and time = time, folded m'_def]
  have dir: "dir_ok m p" "distinct (dir_blocks m p)" "\<And>b. b \<in> set (dir_blocks m p) \<Longrightarrow> block_ok m b"
      "\<And>b. b \<in> set (dir_blocks m p) \<Longrightarrow> slot_of b \<notin> fst (free_space m)"
      "\<And>n. n < 12 \<Longrightarrow> length (dir_blocks m p) \<le> n \<Longrightarrow> get_le 4 m (i_block p n) = (0 :: 32 word)"
    using assms(2) by (auto simp: dir_sound_def)
  have blocks: "dir_blocks m' p = dir_blocks m p @ [?b]"
    by (rule dir_blocks_append [OF assms(7) block(6) new(5) dir(5)])
  have here: "block_records m' ?b = Some [?e]"
    using new(6) block(4) by (simp add: block_records_def)
  have there: "block_records m' b = block_records m b \<and> (\<forall>e \<in> set (the (block_records m b)). same_record m m' e)"
    if b: "b \<in> set (dir_blocks m p)" for b
  proof -
    have "slot_of b \<noteq> fresh m"
      using dir(4) [OF b] block(1) by auto
    then have "block_start b + 1024 \<le> ?e \<or> ?e + 1024 \<le> block_start b"
      using block_ok_start(1) [OF dir(3) [OF b]] by auto
    then have "same_on (block_start b) (block_start b + 1024) m m'"
      unfolding same_on_def using block_data_byte [OF dir(3) [OF b]] new(4) by fastforce
    moreover obtain xs where "records m (block_start b) (block_start b + 1024) = Some xs"
      using dir(1) b by (auto simp: dir_ok_def block_records_def)
    ultimately show ?thesis
      using records_same [of m _ _ xs m'] by (simp add: block_records_def)
  qed
  have "concat (map (\<lambda>b. the (block_records m' b)) (dir_blocks m p)) = entries m p"
    unfolding entries_def using there by (intro arg_cong [of _ _ concat] map_cong) simp_all
  then have entries: "entries m' p = entries m p @ [?e]"
    using here by (simp add: entries_def [of m'] blocks)
  have same: "listing m' (entries m p) = listing m (entries m p)"
    by (rule listing_same) (use there in \<open>auto simp: entries_def\<close>)
  have "inode_of m' ?e \<noteq> 0"
    using new(7) new_ino(2) [OF fs assms(4,3)] by (simp add: item_at_def)
  then have "listing m' (entries m' p) = listing m (entries m p) @ [(name, new_ino m link, ft)]"
    using same new(7) by (simp add: entries listing_Cons)
  then show "dir_map m' p = (dir_map m p)(name \<mapsto> (new_ino m link, ft))"
    using assms(8) map_of_insert [of "listing m (entries m p)" "[]" name] by (simp add: dir_map_def)
  have "dir_ok m' p"
    using dir(1) blocks here there block(4,5) by (auto simp: dir_ok_def)
  moreover have "block_ok m' b = block_ok m b" for b
    using new(2) by (simp add: block_ok_def same_layout_def data_block_def)
  moreover have "?b \<notin> set (dir_blocks m p)"
    using dir(4) [of ?b] block(1,3) by auto
  moreover have "\<exists>j < n_inodes m'. j \<notin> snd (free_space m') \<and> p = ino_tab m' + 128 * j"
    using assms(2) new(2,3) inodes_left_sub [of link m] by (fastforce simp: dir_sound_def same_layout_def)
  moreover have "get_le 4 m' (i_block p n) = (0 :: 32 word)" if "n < 12" "length (dir_blocks m' p) \<le> n" for n
    using new(5) [OF that(1)] dir(5) [OF that(1)] that(2) by (simp add: blocks)
  ultimately show "dir_sound m' p"
    using dir(2,3,4) block(2,3) new(3) unfolding dir_sound_def blocks by auto
qed

section \<open>The whole function\<close>

lemma append_run:
  fixes s :: ext2
  defines "m \<equiv> disk s"
  assumes "sound m" "dir_sound m p" "link_ok m link" "length name \<le> 255" "length (dir_blocks m p) < 12"
  shows "bnd allocate_block (\<lambda>block_num.
       thn (st32 (i_block p (length (dir_blocks m p))) block_num)
      (thn (rmw32 (i_size p) (\<lambda>x. x + of_nat EXT2_BLOCK_SIZE))
      (thn (rmw32 (i_blocks p) (\<lambda>x. NUM_DISK_BLKS x (of_nat EXT2_BLOCK_SIZE)))
      (let entry = block_start block_num; rec_len = EXT2_BLOCK_SIZE
       in thn (init_dir_entry entry link (of_nat rec_len) (length name) ft name) (ret entry))))) s =
    (if fst (free_space m) = {} then (Exit ENOMEM, s)
     else if no_inode m link then (Exit ENOMEM, s\<lparr>disk := grown m p\<rparr>)
     else (Ok (1024 * (fresh m + 1)), s\<lparr>disk := appended link name ft (now s) m p\<rparr>))"
proof (cases "fst (free_space m) = {}")
  case True
  then show ?thesis
    using allocate_block_run [of s] soundD(1) [OF assms(2)] by (simp add: m_def bnd_def)
next
  case False
  note fs = soundD(1) [OF assms(2)]
  note block = fresh_block [OF fs False]
  note g = grown [OF assms(2,3) False assms(6)]
  have alloc: "allocate_block s = (Ok (of_nat (fresh m + 1)), s\<lparr>disk := block_taken m (fresh m)\<rparr>)"
    using allocate_block_run [of s] fs False by (simp add: m_def fresh_def Let_def)
  have same: "no_inode (grown m p) link = no_inode m link" "link_ok (grown m p) link"
      "new_ino (grown m p) link = new_ino m link"
    using assms(4) g(2,3) by (simp_all add: no_inode_def link_ok_def inode_ok_def same_layout_def new_ino_def)
  have init: "init_dir_entry (1024 * (fresh m + 1)) link 1024 (length name) ft name (s\<lparr>disk := grown m p\<rparr>) =
      (if no_inode m link then (Exit ENOMEM, s\<lparr>disk := grown m p\<rparr>)
       else (Ok (), s\<lparr>disk := appended link name ft (now s) m p\<rparr>))"
    using init_dir_entry_run [of "s\<lparr>disk := grown m p\<rparr>" "1024 * (fresh m + 1)" name link 1024 ft] g(1) same
      assms(5) block(5)
    by (simp add: appended_def)
  have "p + 128 \<le> disk_size"
    using assms(3) by (simp add: dir_sound_def dir_ok_def)
  then have "bnd allocate_block f s = bnd (init_dir_entry (1024 * (fresh m + 1)) link 1024 (length name) ft name)
      (\<lambda>_. ret (1024 * (fresh m + 1))) (s\<lparr>disk := grown m p\<rparr>)"
    if "f = (\<lambda>block_num.
       thn (st32 (i_block p (length (dir_blocks m p))) block_num)
      (thn (rmw32 (i_size p) (\<lambda>x. x + of_nat EXT2_BLOCK_SIZE))
      (thn (rmw32 (i_blocks p) (\<lambda>x. NUM_DISK_BLKS x (of_nat EXT2_BLOCK_SIZE)))
      (let entry = block_start block_num; rec_len = EXT2_BLOCK_SIZE
       in thn (init_dir_entry entry link (of_nat rec_len) (length name) ft name) (ret entry)))))" for f
    using alloc assms(6) block(4) unfolding that
    by (simp add: bnd_run prog grown_def Let_def inode_fields EXT2_BLOCK_SIZE_def)
  note run = this [OF refl]
  show ?thesis
    unfolding run unfolding bnd_def init using False by (simp add: prog)
qed

lemma create_dir_entry_run:
  fixes s :: ext2
  defines "m \<equiv> disk s"
  assumes "sound m" "dir_sound m p" "link_ok m link"
  shows "create_dir_entry p link name ft s =
    (if 255 < length name then (Exit 1, s)
     else if dir_map m p name \<noteq> None then (Exit EEXIST, s)
     else case find (fits m name) (entries m p) of
       Some q \<Rightarrow> if no_inode m link then (Exit ENOMEM, s\<lparr>disk := cleared m q\<rparr>)
         else (Ok (place m q), s\<lparr>disk := inserted link name ft (now s) m q\<rparr>)
     | None \<Rightarrow> if length (dir_blocks m p) = 12 \<or> fst (free_space m) = {} then (Exit ENOMEM, s)
         else if no_inode m link then (Exit ENOMEM, s\<lparr>disk := grown m p\<rparr>)
         else (Ok (1024 * (fresh m + 1)), s\<lparr>disk := appended link name ft (now s) m p\<rparr>))"
proof -
  have ok: "dir_ok m p"
    using assms(3) by (simp add: dir_sound_def)
  note found = find_entry_run [of s p name, folded m_def, OF ok]
  have names: "dir_map m p name = None \<longleftrightarrow> lookup m p name = None"
    by (simp add: dir_map_lookup)
  have most: "length (dir_blocks m p) \<le> 12"
    unfolding dir_blocks_def by (rule order_trans [OF length_takeWhile_le]) simp
  note create = create_dir_entry_def get_name_len_def bnd_def prog EXT2_NAME_LEN_def
  show ?thesis
  proof (cases "length name \<le> 255 \<and> lookup m p name = None")
    case False
    with found names show ?thesis by (auto simp: create)
  next
    case True
    note loop = create_loop_run [of s p link name ft, folded m_def, OF assms(2-4)]
    show ?thesis
    proof (cases "find (fits m name) (entries m p) = None \<and> length (dir_blocks m p) < 12")
      case False
      with found True names loop most show ?thesis
        by (auto simp: create split: option.splits)
    next
      case grow: True
      then have "create_dir_entry p link name ft s = bnd allocate_block (\<lambda>block_num.
           thn (st32 (i_block p (length (dir_blocks m p))) block_num)
          (thn (rmw32 (i_size p) (\<lambda>x. x + of_nat EXT2_BLOCK_SIZE))
          (thn (rmw32 (i_blocks p) (\<lambda>x. NUM_DISK_BLKS x (of_nat EXT2_BLOCK_SIZE)))
          (let entry = block_start block_num; rec_len = EXT2_BLOCK_SIZE
           in thn (init_dir_entry entry link (of_nat rec_len) (length name) ft name) (ret entry))))) s"
        using found True loop
        by (simp add: create_dir_entry_def get_name_len_def bnd_run prog EXT2_NAME_LEN_def)
      then show ?thesis
        using append_run [of s p link name ft, folded m_def, OF assms(2-4)] True grow names by simp
    qed
  qed
qed

text \<open>Neither way of making the entry touches the data of others.\<close>

lemma inserted_data:
  fixes ft :: byte and time :: "32 word"
  assumes "sound m" "dir_sound m p" "q \<in> set (entries m p)" "link_ok m link" "\<not> no_inode m link" "fits m name q"
    and "data_byte m x" "\<not> in_blocks (inserted link name ft time m q) p x"
  shows "inserted link name ft time m q x = m x"
proof -
  let ?m' = "inserted link name ft time m q"
  note frame = inserted_frame [OF assms(1-6), where ft = ft and time = time]
  have "dir_blocks ?m' p = dir_blocks m p"
    by (rule dir_blocks_same) (use frame(5) in \<open>simp add: keeps_dir_def\<close>)
  with entry_region [OF assms(2,3)] assms(8) have "x < q \<or> q + rec_len_at m q \<le> x"
    by (fastforce simp: in_blocks_def)
  then show ?thesis
    by (rule frame(4) [OF assms(7)])
qed

lemma appended_data:
  fixes ft :: byte and time :: "32 word"
  assumes "sound m" "dir_sound m p" "link_ok m link" "\<not> no_inode m link" "length name \<le> 255"
    and "fst (free_space m) \<noteq> {}" "length (dir_blocks m p) < 12"
    and "data_byte m x" "\<not> in_blocks (appended link name ft time m p) p x"
  shows "appended link name ft time m p x = m x"
proof -
  let ?m' = "appended link name ft time m p"
  note eff = appended [OF assms(1-7), where ft = ft and time = time]
  note block = fresh_block [OF soundD(1) [OF assms(1)] assms(6)]
  have zero: "get_le 4 m (i_block p n) = (0 :: 32 word)" if "n < 12" "length (dir_blocks m p) \<le> n" for n
    using assms(2) that by (simp add: dir_sound_def)
  have "dir_blocks ?m' p = dir_blocks m p @ [of_nat (fresh m + 1)]"
    by (rule dir_blocks_append [OF assms(7) block(6) eff(5) zero])
  then have "of_nat (fresh m + 1) \<in> set (dir_blocks ?m' p)"
    by simp
  then have "x < 1024 * (fresh m + 1) \<or> 1024 * (fresh m + 1) + 1024 \<le> x"
    using assms(9) block(4) by (fastforce simp: in_blocks_def)
  then show ?thesis
    by (rule eff(4) [OF assms(8)])
qed

text \<open>
  C31: On a sound image, creating an entry in a directory fills in the first record with room for
  it, taking over an unused one or splitting a used one, or else the first record of a new block.
  If the function returns, the name was not in the directory before, the directory now maps it to
  the linked inode (the first free one when none is given) with the given type and every other name
  as before, the tiling of the blocks, the layout and the counters are sound again, and no byte of
  a file or of another directory has changed.  Otherwise it ends the program: with 1 for a name that
  is too long, with \<open>EEXIST\<close> if the name exists, each without a change, and with \<open>ENOMEM\<close> exactly
  when inodes or blocks run out.
\<close>

theorem create_dir_entry_inserts:
  fixes s :: ext2
  defines "m \<equiv> disk s"
  assumes "sound m" "dir_sound m p" "link_ok m link"
  shows "case create_dir_entry p link name ft s of
      (Ok e, t) \<Rightarrow> dir_map m p name = None \<and> sound (disk t) \<and> dir_sound (disk t) p \<and>
        dir_map (disk t) p = (dir_map m p)(name \<mapsto> (new_ino m link, ft)) \<and>
        snd (free_space (disk t)) = inodes_left link m \<and>
        (\<forall>x. data_byte m x \<longrightarrow> \<not> in_blocks (disk t) p x \<longrightarrow> disk t x = m x)
    | (Exit c, t) \<Rightarrow> c = 1 \<and> 255 < length name \<and> t = s \<or>
        c = EEXIST \<and> dir_map m p name \<noteq> None \<and> t = s \<or>
        c = ENOMEM \<and> dir_map m p name = None \<and> (no_inode m link \<or>
          (\<forall>q \<in> set (entries m p). \<not> fits m name q) \<and> (fst (free_space m) = {} \<or> length (dir_blocks m p) = 12))
    | _ \<Rightarrow> False"
proof -
  note run = create_dir_entry_run [of s p link name ft, folded m_def, OF assms(2-4)]
  have most: "length (dir_blocks m p) \<le> 12"
    unfolding dir_blocks_def by (rule order_trans [OF length_takeWhile_le]) simp
  show ?thesis
  proof (cases "length name \<le> 255 \<and> dir_map m p name = None \<and> \<not> no_inode m link")
    case False
    then consider "255 < length name" | "length name \<le> 255" "dir_map m p name \<noteq> None"
      | "length name \<le> 255" "dir_map m p name = None" "no_inode m link" by force
    then show ?thesis
    proof cases
      case 3
      with run show ?thesis by (cases "find (fits m name) (entries m p)") simp_all
    qed (use run in simp_all)
  next
    case True
    then have t: "length name \<le> 255" "dir_map m p name = None" "\<not> no_inode m link" by simp_all
    show ?thesis
    proof (cases "find (fits m name) (entries m p)")
      case (Some q)
      then have q: "q \<in> set (entries m p)" "fits m name q"
        by (auto simp: find_Some_iff)
      note hyps = assms(2,3) q(1) assms(4) t(3) q(2)
      show ?thesis
        using run t Some inserted_frame(1,3) [OF hyps, where ft = ft and time = "now s"]
          inserted_dir [OF hyps t(1,2), where ft = ft and time = "now s"]
          inserted_data [OF hyps, where ft = ft and time = "now s"]
        by simp
    next
      case None
      show ?thesis
      proof (cases "length (dir_blocks m p) = 12 \<or> fst (free_space m) = {}")
        case False
        then have room: "fst (free_space m) \<noteq> {}" "length (dir_blocks m p) < 12"
          using most by simp_all
        note hyps = assms(2-4) t(3,1) room
        show ?thesis
          using run t None False appended(1,3) [OF hyps, where ft = ft and time = "now s"]
            appended_dir [OF hyps t(2), where ft = ft and time = "now s"]
            appended_data [OF hyps, where ft = ft and time = "now s"]
          by simp
      qed (use run t None in \<open>auto simp: find_None_iff\<close>)
    qed
  qed
qed

lemma small_dir_sound: "dir_sound small_image 5248"
proof -
  have "slot_of 9 = 8" "1 \<le> sint (9 :: 32 word)"
    by code_simp+
  then have "block_ok small_image 9" "slot_of 9 \<notin> fst (free_space small_image)"
    by (simp_all add: block_ok_def data_block_def small_layout apart_def small_space)
  moreover have "get_le 4 small_image (i_block 5248 n) = (0 :: 32 word)" if "n < 12" "1 \<le> n" for n
    using that by (subst get_le_small) (auto simp: inode_fields small_image_def)
  ultimately show ?thesis
    using small_dir_ok by (simp add: dir_sound_def small_dir small_layout small_space)
qed

lemma small_parent: "inode_of small_image 9228 = 2" "name_at small_image 9228 = str ''..''"
    "rec_len_at small_image 9228 = 1012" "actual_len small_image 9228 = 12"
proof -
  have le2: "get_le 2 m a = ucast (m a) OR push_bit 8 (ucast (m (Suc a)))" for m a
    by (simp add: numeral_2_eq_2)
  show "inode_of small_image 9228 = 2" "rec_len_at small_image 9228 = 1012" "actual_len small_image 9228 = 12"
    by (simp_all add: inode_of_def rec_len_at_def actual_len_def pad_def entry_fields get_le_small le2 small_image_def)
  have "get_bytes small_image 9236 2 = [small_image 9236, small_image 9237]"
    by (simp add: get_bytes_def upt_conv_Cons)
  then show "name_at small_image 9228 = str ''..''"
    by (simp add: name_at_def entry_fields small_image_def str_def)
qed

lemma create_dir_entry_inserts_witness:
  "\<exists>e t. create_dir_entry 5248 0 (str ''a'') EXT2_FT_DIR \<lparr>disk = small_image, now = 7, src = []\<rparr> = (Ok e, t) \<and>
     dir_map (disk t) 5248 (str ''a'') = Some (1, EXT2_FT_DIR)"
proof -
  let ?s = "\<lparr>disk = small_image, now = 7, src = []\<rparr>"
  have "dir_map small_image 5248 (str ''a'') = None"
    by (simp add: dir_map_def small_dir listing_Cons item_at_def small_self small_parent str_def)
  moreover have "fits small_image (str ''a'') 9228"
    by (simp add: fits_def small_parent pad_def str_def)
  moreover have "9228 \<in> set (entries small_image 5248)"
    by (simp add: small_dir)
  moreover have "new_ino small_image 0 = 1" "\<not> no_inode small_image 0" "link_ok small_image 0"
    by (simp_all add: new_ino_def no_inode_def link_ok_def small_space)
  ultimately show ?thesis
    using create_dir_entry_inserts [of ?s 5248 0 "str ''a''" EXT2_FT_DIR] small_sound small_dir_sound
    by (cases "create_dir_entry 5248 0 (str ''a'') EXT2_FT_DIR ?s") (auto simp: str_def split: outcome.splits)
qed

end
