(* ===== verification/Tools.thy ===== *)
theory Tools
  imports Paths
begin

text \<open>
  The programs \<open>ext2_mkdir\<close>, \<open>ext2_cp\<close>, \<open>ext2_ln\<close>, \<open>ext2_rm\<close> and \<open>ext2_restore\<close> of Assignment 4.
  Their \<open>main\<close> functions get the argument strings; \<open>mmap_ok\<close> is whether the image could be mapped.
  A returned number is the exit status.  Messages are not modelled.
\<close>

definition read_disk_image :: "bool \<Rightarrow> (ext2, unit) prog" where
  "read_disk_image mmap_ok = (if mmap_ok then ret () else exitp 1)"

section \<open>Making a directory\<close>

definition make_directory :: "nat \<Rightarrow> 32 word \<Rightarrow> nat \<Rightarrow> cstring \<Rightarrow> (ext2, int) prog" where
  "make_directory i_table parent_num parent token =
     bnd (create_dir_entry parent 0 token EXT2_FT_DIR) (\<lambda>new_entry.
     thn (rmw16 bg_used_dirs_count (\<lambda>n. n + 1))
    (bnd (ld32 (de_inode new_entry)) (\<lambda>new_num.
     let new_inode = inode_at i_table new_num
     in bnd (create_dir_entry new_inode new_num (str ''.'') EXT2_FT_DIR) (\<lambda>_.
        bnd (create_dir_entry new_inode parent_num (str ''..'') EXT2_FT_DIR) (\<lambda>_.
        ret 0)))))"

primrec mkdir_loop :: "nat \<Rightarrow> cstring list \<Rightarrow> 32 word \<Rightarrow> nat \<Rightarrow> nat option \<Rightarrow> cstring \<Rightarrow> (ext2, int) prog" where
  "mkdir_loop i_table [] num dir entry token =
    (case entry of
       None \<Rightarrow> make_directory i_table num dir token
     | Some e \<Rightarrow> ret EEXIST)"
| "mkdir_loop i_table (t # ts) num dir entry token =
    (case entry of
       None \<Rightarrow> ret ENOENT
     | Some e \<Rightarrow> bnd (ld8 (de_file_type e)) (\<lambda>ft.
         if ft \<noteq> EXT2_FT_DIR then ret ENOENT
         else bnd (ld32 (de_inode e)) (\<lambda>i.
           let dir = inode_at i_table i
           in bnd (find_entry dir (Some t)) (\<lambda>entry. mkdir_loop i_table ts i dir entry t))))"

definition mkdir_main :: "bool \<Rightarrow> cstring list \<Rightarrow> (ext2, int) prog" where
  "mkdir_main mmap_ok argv =
    (if length argv \<noteq> 3 then exitp 1
     else if argv ! 2 = [SLASH] then ret EEXIST
     else thn (read_disk_image mmap_ok)
       (if \<not> IS_PATH_ABSOLUTE (argv ! 2) then ret ENOENT
        else bnd get_inode_table (\<lambda>i_table.
          let dir = root_inode i_table; ts = tokens (argv ! 2)
          in bnd (find_entry dir (next_token ts)) (\<lambda>entry.
             case ts of
               [] \<Rightarrow> ret ENOENT
             | t # ts \<Rightarrow> mkdir_loop i_table ts (of_nat (EXT2_ROOT_INO_IDX + 1)) dir entry t))))"

section \<open>Copying and linking\<close>

definition cp_main :: "bool \<Rightarrow> (cstring \<Rightarrow> bool) \<Rightarrow> (cstring \<Rightarrow> byte list option) \<Rightarrow> cstring list \<Rightarrow>
    (ext2, int) prog" where
  "cp_main mmap_ok is_reg contents argv =
    (if length argv \<noteq> 4 then exitp 1
     else thn (read_disk_image mmap_ok)
         (thn (open_file is_reg contents (argv ! 2))
         (bnd (cp_create_target_file (argv ! 3) (get_file_name (argv ! 2))) (\<lambda>copied_file.
          bnd (ld32 (de_inode copied_file)) (\<lambda>i. bnd (get_inode i) (\<lambda>inode.
          thn (copy_sourcefile_data inode) (ret 0)))))))"

text \<open>\<open>strncpy\<close> from the disk: the bytes before the first zero, at most \<open>n\<close> of them.\<close>

primrec strncpy_from :: "nat \<Rightarrow> nat \<Rightarrow> (ext2, cstring) prog" where
  "strncpy_from 0 a = ret []"
| "strncpy_from (Suc n) a = bnd (ld8 a) (\<lambda>b. if b = 0 then ret []
     else bnd (strncpy_from n (Suc a)) (\<lambda>bs. ret (b # bs)))"

definition ln_link :: "byte \<Rightarrow> cstring \<Rightarrow> cstring \<Rightarrow> (ext2, int) prog" where
  "ln_link target_file_type source_path link_path =
     bnd (find_dir_entry source_path) (\<lambda>src_dir_entry.
     case src_dir_entry of
       None \<Rightarrow> ret ENOENT
     | Some e \<Rightarrow> bnd (ld8 (de_file_type e)) (\<lambda>ft.
         if ft = EXT2_FT_DIR \<and> target_file_type \<noteq> EXT2_FT_SYMLINK then ret EISDIR
         else bnd (ld8 (de_name_len e)) (\<lambda>n.
           bnd (strncpy_from (unat n + 1) (de_name e)) (\<lambda>bs.
           let src_file_name = take (unat n) bs
           in if target_file_type = EXT2_FT_SYMLINK then
                bnd (ln_create_target_file link_path (Some src_file_name) 0 target_file_type) (\<lambda>link.
                thn (copy_symlink_path link source_path) (ret 0))
              else
                bnd (ld32 (de_inode e)) (\<lambda>i.
                bnd (ln_create_target_file link_path (Some src_file_name) i target_file_type) (\<lambda>_.
                ret 0))))))"

definition ln_main :: "bool \<Rightarrow> cstring list \<Rightarrow> (ext2, int) prog" where
  "ln_main mmap_ok argv =
    (if length argv < 4 \<or> length argv > 5 then exitp 1
     else if length argv = 5 then
       thn (need (argv ! 2 \<noteq> []))
      (if argv ! 2 = [] \<or> tl (argv ! 2) = [] \<or> hd (tl (argv ! 2)) \<noteq> of_char (CHR ''s'') then exitp 1
       else thn (read_disk_image mmap_ok) (ln_link EXT2_FT_SYMLINK (argv ! 3) (argv ! 4)))
     else thn (read_disk_image mmap_ok) (ln_link EXT2_FT_REG_FILE (argv ! 2) (argv ! 3)))"

section \<open>Removing a file\<close>

text \<open>The loop of \<open>find_container_directory\<close> of ext2_rm.c.\<close>

primrec rm_container_loop :: "cstring list \<Rightarrow> nat \<Rightarrow> nat option \<Rightarrow> (ext2, nat) prog" where
  "rm_container_loop [] container entry = (if entry = None then exitp ENOENT else ret container)"
| "rm_container_loop (t # ts) container entry =
    (case entry of
       None \<Rightarrow> exitp ENOENT
     | Some e \<Rightarrow> bnd (ld8 (de_file_type e)) (\<lambda>ft.
         if ft \<noteq> EXT2_FT_DIR then exitp ENOENT
         else bnd (ld32 (de_inode e)) (\<lambda>i.
           bnd (find_entry_in_inode i (Some t)) (\<lambda>entry. rm_container_loop ts e entry))))"

definition rm_find_container_directory :: "cstring \<Rightarrow> (ext2, nat) prog" where
  "rm_find_container_directory file_path =
     bnd (find_entry_in_inode (of_nat (EXT2_ROOT_INO_IDX + 1)) (Some (str ''.''))) (\<lambda>container_dir.
     case container_dir of
       None \<Rightarrow> faultp
     | Some container \<Rightarrow>
         bnd (ld32 (de_inode container)) (\<lambda>i.
         bnd (find_entry_in_inode i (next_token (tokens file_path))) (\<lambda>entry.
         case tokens file_path of
           [] \<Rightarrow> ret container
         | t # ts \<Rightarrow> rm_container_loop ts container entry)))"

text \<open>\<open>prev\<close> is \<open>prev_entry\<close>; the loop returns the exit status.\<close>

definition delete_body :: "cstring \<Rightarrow> nat \<Rightarrow> nat \<Rightarrow> nat option \<Rightarrow> (ext2, (nat \<times> nat option) + int) prog" where
  "delete_body name blk_end pos prev =
     bnd (ld32 (de_inode pos)) (\<lambda>i.
     if i \<noteq> 0 then
       bnd (entry_named name pos) (\<lambda>found.
       if found then
         bnd (ld8 (de_file_type pos)) (\<lambda>ft.
         if ft = EXT2_FT_DIR then ret (Inr EISDIR)
         else thn (unlink_inode i)
             (thn (case prev of
                     None \<Rightarrow> st32 (de_inode pos) 0
                   | Some p \<Rightarrow> bnd (ld16 (de_rec_len pos)) (\<lambda>l. rmw16 (de_rec_len p) (\<lambda>x. x + l)))
                  (ret (Inr 0))))
       else bnd (ld16 (de_rec_len pos)) (\<lambda>l. ret (Inl (pos + unat l, Some pos))))
     else bnd (ld16 (de_rec_len pos)) (\<lambda>l.
       if l > 0 then ret (Inl (pos + unat l, Some pos)) else ret (Inl (blk_end, Some pos))))"

definition delete_file_entry :: "32 word \<Rightarrow> cstring \<Rightarrow> (ext2, int) prog" where
  "delete_file_entry dir_inode_num name =
     bnd (get_inode dir_inode_num) (\<lambda>dir_inode.
     bnd (get_name_len name) (\<lambda>_.
     bnd (block_loop dir_inode (walk_block (\<noteq>) (delete_body name) (\<lambda>_. None)) [0..<12]) (\<lambda>r.
     ret (case r of Inl _ \<Rightarrow> ENOENT | Inr status \<Rightarrow> status))))"

definition rm_main :: "bool \<Rightarrow> cstring list \<Rightarrow> (ext2, int) prog" where
  "rm_main mmap_ok argv =
    (if length argv \<noteq> 3 then exitp 1
     else thn (read_disk_image mmap_ok)
       (if \<not> IS_PATH_ABSOLUTE (argv ! 2) then ret ENOENT
        else bnd (rm_find_container_directory (argv ! 2)) (\<lambda>container_dir.
          if last (argv ! 2) = SLASH then ret EISDIR
          else bnd (ld32 (de_inode container_dir)) (\<lambda>i.
            delete_file_entry i (case get_file_name (argv ! 2) of None \<Rightarrow> str ''.'' | Some n \<Rightarrow> n)))))"

section \<open>Restoring a file\<close>

text \<open>The loop of \<open>find_container_directory\<close> of ext2_restore.c: the last token need not exist.\<close>

primrec restore_container_loop :: "cstring list \<Rightarrow> nat \<Rightarrow> nat option \<Rightarrow> (ext2, nat) prog" where
  "restore_container_loop [] container entry = ret container"
| "restore_container_loop (t # ts) container entry =
    (case entry of
       None \<Rightarrow> exitp ENOENT
     | Some e \<Rightarrow> bnd (ld8 (de_file_type e)) (\<lambda>ft.
         if ft \<noteq> EXT2_FT_DIR then exitp ENOENT
         else bnd (ld32 (de_inode e)) (\<lambda>i.
           bnd (find_entry_in_inode i (Some t)) (\<lambda>entry. restore_container_loop ts e entry))))"

definition restore_find_container_directory :: "cstring \<Rightarrow> (ext2, nat) prog" where
  "restore_find_container_directory file_path =
    (if \<not> IS_PATH_ABSOLUTE file_path then exitp ENOENT
     else bnd (find_entry_in_inode (of_nat (EXT2_ROOT_INO_IDX + 1)) (Some (str ''.''))) (\<lambda>container_dir.
       case container_dir of
         None \<Rightarrow> faultp
       | Some container \<Rightarrow>
           bnd (ld32 (de_inode container)) (\<lambda>i.
           bnd (find_entry_in_inode i (next_token (tokens file_path))) (\<lambda>entry.
           case tokens file_path of
             [] \<Rightarrow> ret container
           | t # ts \<Rightarrow> restore_container_loop ts container entry))))"

definition is_inode_and_data_blocks_free :: "32 word \<Rightarrow> (ext2, bool) prog" where
  "is_inode_and_data_blocks_free inode_num =
     bnd (is_inode_in_use inode_num) (\<lambda>used.
     if used then ret False
     else bnd (get_inode inode_num) (\<lambda>inode.
       bnd (block_loop inode (\<lambda>b. bnd (is_block_in_use b) (\<lambda>u. ret (if u then Some () else None))) [0..<12]) (\<lambda>r.
       case r of
         Inr _ \<Rightarrow> ret False
       | Inl n \<Rightarrow>
           if n < 12 then ret True
           else bnd (ld32 (i_block inode 12)) (\<lambda>indirect_block_num.
             if indirect_block_num \<noteq> 0 then
               bnd (is_block_in_use indirect_block_num) (\<lambda>u.
               if u then ret False
               else bnd (for_indirect indirect_block_num is_block_in_use) (\<lambda>leave. ret (\<not> leave)))
             else ret True))))"

definition reclaim_inode_and_data_blocks :: "32 word \<Rightarrow> (ext2, int) prog" where
  "reclaim_inode_and_data_blocks inode_num =
     bnd (is_inode_and_data_blocks_free inode_num) (\<lambda>free.
     if \<not> free then ret ENOENT
     else bnd (get_inode inode_num) (\<lambda>inode.
       thn (set_inode_in_use inode_num)
      (thn (st16 (i_links_count inode) 1)
      (thn (st32 (i_dtime inode) 0)
      (bnd (block_loop inode (\<lambda>b. thn (set_block_in_use b) (ret (None :: unit option))) [0..<12]) (\<lambda>r.
       if (case r of Inl n \<Rightarrow> n < 12 | Inr _ \<Rightarrow> False) then ret 0
       else bnd (ld32 (i_block inode 12)) (\<lambda>indirect_block_num.
         if indirect_block_num \<noteq> 0 then
           thn (set_block_in_use indirect_block_num)
          (bnd (for_indirect indirect_block_num (\<lambda>d. thn (set_block_in_use d) (ret False))) (\<lambda>_. ret 0))
         else ret 0)))))))"

definition unhide_deleted_entry :: "nat \<Rightarrow> nat \<Rightarrow> (ext2, unit) prog" where
  "unhide_deleted_entry entry prev_entry =
    (let distance = int entry - int prev_entry
     in bnd (ld16 (de_rec_len prev_entry)) (\<lambda>l.
        thn (st16 (de_rec_len entry) (of_int (uint l - distance)))
            (st16 (de_rec_len prev_entry) (of_int distance))))"

text \<open>The body of the inner loop of \<open>restore_file\<close>, over the gap behind \<open>last_valid\<close>.\<close>

definition gap_body :: "cstring \<Rightarrow> nat \<Rightarrow> nat \<Rightarrow> nat \<Rightarrow> (ext2, nat + int) prog" where
  "gap_body name last_valid gap_end pos =
    (let go = (\<lambda>p. ret (Inl p)) in
     bnd (ld32 (de_inode pos)) (\<lambda>i.
     if i = 0 then
       bnd (ld8 (de_name_len pos)) (\<lambda>n.
       if n = 0 then
         bnd (ld16 (de_rec_len pos)) (\<lambda>l. if l = 0 then go gap_end else go (pos + unat l))
       else bnd (get_actual_dir_entry_len pos) (\<lambda>l. go (pos + nat l)))
     else
       bnd (entry_named name pos) (\<lambda>found.
       if found then
         bnd (ld8 (de_file_type pos)) (\<lambda>ft.
         if ft = EXT2_FT_DIR then ret (Inr EISDIR)
         else bnd (reclaim_inode_and_data_blocks i) (\<lambda>result.
           if result = 0 then thn (unhide_deleted_entry pos last_valid) (ret (Inr result))
           else ret (Inr result)))
       else bnd (get_actual_dir_entry_len pos) (\<lambda>l. go (pos + nat l)))))"

text \<open>
  The inner loop as a whole, from \<open>pos\<close>: \<open>Inr\<close> is a return from the function, \<open>Inl\<close> the position at
  which the gap ends.
\<close>

function gap_loop :: "cstring \<Rightarrow> nat \<Rightarrow> nat \<Rightarrow> nat \<Rightarrow> (ext2, nat + int) prog" where
  "gap_loop name last_valid gap_end pos s =
    (if \<not> pos < gap_end then (Ok (Inl pos), s)
     else if \<not> pos < disk_size then (Fault, s)
     else bnd (gap_body name last_valid gap_end pos) (\<lambda>r.
       case r of
         Inr x \<Rightarrow> ret (Inr x)
       | Inl pos' \<Rightarrow> if pos' \<le> pos then divergep else gap_loop name last_valid gap_end pos') s)"
  by pat_completeness auto
termination
  by (relation "measure (\<lambda>(name, last_valid, gap_end, pos, s). disk_size - pos)") auto

declare gap_loop.simps [simp del]

text \<open>The outer loop, with \<open>last_valid_entry\<close> as its second variable.\<close>

definition restore_body :: "cstring \<Rightarrow> nat \<Rightarrow> nat \<Rightarrow> (ext2, (nat \<times> nat) + int) prog" where
  "restore_body name pos last_valid =
     bnd (get_actual_dir_entry_len last_valid) (\<lambda>actual_len.
     bnd (ld16 (de_rec_len last_valid)) (\<lambda>rec_len.
     let gap_start = pos + nat actual_len; gap_end = pos + unat rec_len
     in bnd (gap_loop name last_valid gap_end gap_start) (\<lambda>r.
        case r of
          Inr status \<Rightarrow> ret (Inr status)
        | Inl pos' \<Rightarrow> bnd (ld16 (de_rec_len last_valid)) (\<lambda>l. ret (Inl (pos', last_valid + unat l))))))"

definition restore_file :: "32 word \<Rightarrow> cstring \<Rightarrow> (ext2, int) prog" where
  "restore_file dir_inode_num name =
     bnd (get_inode dir_inode_num) (\<lambda>dir_inode.
     bnd (get_name_len name) (\<lambda>_.
     bnd (find_entry dir_inode (Some name)) (\<lambda>found.
     if found \<noteq> None then ret EEXIST
     else bnd (block_loop dir_inode (walk_block (<) (\<lambda>_. restore_body name) (\<lambda>start. start)) [0..<12]) (\<lambda>r.
     ret (case r of Inl _ \<Rightarrow> ENOENT | Inr status \<Rightarrow> status)))))"

definition restore_main :: "bool \<Rightarrow> cstring list \<Rightarrow> (ext2, int) prog" where
  "restore_main mmap_ok argv =
    (if length argv \<noteq> 3 then exitp 1
     else thn (read_disk_image mmap_ok)
       (bnd (restore_find_container_directory (argv ! 2)) (\<lambda>container_dir.
        if last (argv ! 2) = SLASH then ret EISDIR
        else bnd (ld32 (de_inode container_dir)) (\<lambda>i.
          restore_file i (case get_file_name (argv ! 2) of None \<Rightarrow> str ''.'' | Some n \<Rightarrow> n)))))"

end
