(* ===== verification/Files.thy ===== *)
theory Files
  imports Append Tools
begin

text \<open>
  Releasing and reclaiming the blocks of a file: \<open>unlink_inode\<close> of \<open>ext2_rm\<close> and
  \<open>reclaim_inode_and_data_blocks\<close> of \<open>ext2_restore\<close>.  Both run through the same blocks and change
  nothing but their bits, the counters and two fields of the inode.
\<close>

section \<open>Marking many blocks\<close>

primrec marked :: "bool \<Rightarrow> 32 word list \<Rightarrow> memory \<Rightarrow> memory" where
  "marked v [] m = m"
| "marked v (b # bs) m = marked v bs (block_put m (slot_of b) v)"

definition slots :: "32 word list \<Rightarrow> nat set" where
  "slots bs = slot_of ` set bs"

text \<open>Different blocks of the disk that are all free (\<open>v\<close>) or all in use.\<close>

definition markable :: "bool \<Rightarrow> memory \<Rightarrow> 32 word list \<Rightarrow> bool" where
  "markable v m bs \<longleftrightarrow> distinct (map slot_of bs) \<and>
     (\<forall>b \<in> set bs. block_ok m b \<and> (slot_of b \<in> fst (free_space m) \<longleftrightarrow> v))"

definition flip_all :: "bool \<Rightarrow> nat set \<Rightarrow> nat set \<Rightarrow> nat set" where
  "flip_all v S A = (if v then A - S else A \<union> S)"

lemma block_put_other:
  "fs_ok m \<Longrightarrow> k < 8 * n_blocks m \<Longrightarrow> 3072 \<le> x \<Longrightarrow> x < blk_map m \<or> blk_map m + n_blocks m \<le> x \<Longrightarrow> block_put m k v x = m x"
  using fs_okD(1) [of m]
  by (subst put_counted_read(4)) (auto simp: ext2_fields intro!: put_bit_other)

lemma put_counted_low:
  "3072 \<le> b \<Longrightarrow> x < 3072 \<Longrightarrow> x < gd \<or> gd + 2 \<le> x \<Longrightarrow> x < sb \<or> sb + 4 \<le> x \<Longrightarrow> put_counted gd sb b k v m x = m x"
  by (auto simp: put_counted_def Let_def put_le_outside intro!: put_bit_other)

text \<open>Bytes that no change of a block's bit reaches.\<close>

definition no_block_byte :: "memory \<Rightarrow> nat \<Rightarrow> bool" where
  "no_block_byte m x \<longleftrightarrow> \<not> counter_byte x \<and> (x < blk_map m \<or> blk_map m + n_blocks m \<le> x)"

lemma block_put_step:
  assumes "sound m" "markable v m (b # bs)"
  shows "sound (block_put m (slot_of b) v)" "same_layout m (block_put m (slot_of b) v)"
    "free_space (block_put m (slot_of b) v) = (flip (slot_of b) v (fst (free_space m)), snd (free_space m))"
    "markable v (block_put m (slot_of b) v) bs" "no_block_byte m x \<Longrightarrow> block_put m (slot_of b) v x = m x"
proof -
  have b: "block_ok m b" "slot_of b \<in> fst (free_space m) \<longleftrightarrow> v" "slot_of b \<notin> slots bs"
    using assms(2) by (auto simp: markable_def slots_def)
  note ok = block_okD [OF soundD(1) [OF assms(1)] b(1)]
  note put = block_put [OF assms(1) b(2) ok(3,2)]
  show "sound (block_put m (slot_of b) v)" "same_layout m (block_put m (slot_of b) v)"
    "free_space (block_put m (slot_of b) v) = (flip (slot_of b) v (fst (free_space m)), snd (free_space m))"
    by (fact put)+
  have "block_ok (block_put m (slot_of b) v) c = block_ok m c" for c
    using put(2) by (simp add: block_ok_def same_layout_def data_block_def)
  moreover have "slot_of c \<noteq> slot_of b" if "c \<in> set bs" for c
    using b(3) imageI [OF that, of slot_of] by (auto simp: slots_def)
  ultimately show "markable v (block_put m (slot_of b) v) bs"
    using assms(2) put(3) by (auto simp: markable_def flip_def)
  show "block_put m (slot_of b) v x = m x" if "no_block_byte m x"
  proof (cases "3072 \<le> x")
    case True
    then show ?thesis
      using that by (intro block_put_other soundD(1) [OF assms(1)] ok(2)) (simp_all add: no_block_byte_def)
  next
    case False
    then show ?thesis
      using that fs_okD(1) [OF soundD(1) [OF assms(1)]]
      by (intro put_counted_low) (auto simp: no_block_byte_def counter_byte_def ext2_fields)
  qed
qed

lemma flip_all_Cons: "flip_all v (slots bs) (flip (slot_of b) v A) = flip_all v (slots (b # bs)) A"
  by (auto simp: flip_all_def flip_def slots_def)

lemma marked:
  assumes "sound m" "markable v m bs"
  shows "sound (marked v bs m)" "same_layout m (marked v bs m)"
    "free_space (marked v bs m) = (flip_all v (slots bs) (fst (free_space m)), snd (free_space m))"
    "no_block_byte m x \<Longrightarrow> marked v bs m x = m x"
proof -
  have "sound (marked v bs m) \<and> same_layout m (marked v bs m) \<and>
      free_space (marked v bs m) = (flip_all v (slots bs) (fst (free_space m)), snd (free_space m)) \<and>
      (no_block_byte m x \<longrightarrow> marked v bs m x = m x)"
    using assms
  proof (induction bs arbitrary: m)
    case Nil
    then show ?case by (simp add: flip_all_def slots_def)
  next
    case (Cons b bs)
    note step = block_put_step [OF Cons.prems]
    note rest = Cons.IH [OF step(1,4)]
    have "no_block_byte (block_put m (slot_of b) v) x = no_block_byte m x"
      using step(2) by (simp add: no_block_byte_def same_layout_def)
    then show ?case
      using rest step(2,3,5) same_layout_trans [OF step(2)] by (simp add: flip_all_Cons)
  qed
  then show "sound (marked v bs m)" "same_layout m (marked v bs m)"
    "free_space (marked v bs m) = (flip_all v (slots bs) (fst (free_space m)), snd (free_space m))"
    "no_block_byte m x \<Longrightarrow> marked v bs m x = m x" by simp_all
qed

lemma marked_append: "marked v (xs @ ys) m = marked v ys (marked v xs m)"
  by (induction xs arbitrary: m) simp_all

lemma markable_append:
  "sound m \<Longrightarrow> markable v m (xs @ ys) \<Longrightarrow> markable v m xs \<and> markable v (marked v xs m) ys"
proof (induction xs arbitrary: m)
  case Nil
  then show ?case by (simp add: markable_def)
next
  case (Cons x xs)
  have step: "markable v m (x # (xs @ ys))"
    using Cons.prems(2) by simp
  note rest = Cons.IH [OF block_put_step(1,4) [OF Cons.prems(1) step]]
  moreover have "markable v m (x # xs)"
    using Cons.prems(2) by (auto simp: markable_def)
  ultimately show ?case by simp
qed

text \<open>The two operations that mark one block.\<close>

definition marks :: "bool \<Rightarrow> (32 word \<Rightarrow> (ext2, unit) prog) \<Rightarrow> bool" where
  "marks v act \<longleftrightarrow> (\<forall>s b. sound (disk s) \<longrightarrow> markable v (disk s) [b] \<longrightarrow>
     act b s = (Ok (), s\<lparr>disk := block_put (disk s) (slot_of b) v\<rparr>))"

lemma marks_free: "marks False free_block"
  using free_block_run by (auto simp: marks_def markable_def sound_def)

lemma marks_use: "marks True set_block_in_use"
  using set_block_in_use_run by (auto simp: marks_def markable_def sound_def)

lemma markable_one: "markable v m (b # bs) \<Longrightarrow> markable v m [b]"
  by (simp add: markable_def)

section \<open>The loops over the blocks of a file\<close>

text \<open>The direct blocks from the \<open>i\<close>th on, and the blocks listed behind \<open>pos\<close> after \<open>d\<close>.\<close>

definition direct_from :: "memory \<Rightarrow> nat \<Rightarrow> nat \<Rightarrow> 32 word list" where
  "direct_from m p i = takeWhile (\<lambda>b. b \<noteq> 0) (map (\<lambda>n. get_le 4 m (i_block p n)) [i..<12])"

lemma direct_from_0: "direct_from m p 0 = dir_blocks m p"
  by (simp add: direct_from_def dir_blocks_def)

lemma direct_from_step:
  "i < 12 \<Longrightarrow> direct_from m p i = (let b = get_le 4 m (i_block p i) in if b = 0 then [] else b # direct_from m p (Suc i))"
  by (simp add: direct_from_def upt_conv_Cons Let_def del: upt_Suc)

primrec listed :: "nat \<Rightarrow> memory \<Rightarrow> nat \<Rightarrow> 32 word \<Rightarrow> 32 word list" where
  "listed 0 m pos d = []"
| "listed (Suc left) m pos d = (if d = 0 then [] else d # listed left m (pos + 4) (get_le 4 m pos))"

definition indirect_words :: "memory \<Rightarrow> 32 word \<Rightarrow> 32 word list" where
  "indirect_words m b = listed 256 m (block_start b + 4) (get_le 4 m (block_start b))"

lemma same_words:
  "(\<And>x. a \<le> x \<Longrightarrow> x < a + 4 \<Longrightarrow> no_block_byte m x) \<Longrightarrow> sound m \<Longrightarrow> markable v m (b # bs) \<Longrightarrow>
    get_le 4 (block_put m (slot_of b) v) a = get_le 4 m a"
  by (intro get_le_cong block_put_step(5)) auto

lemma slot_byte:
  assumes "fs_ok m" "j < n_inodes m" "ino_tab m + 128 * j \<le> x" "x < ino_tab m + 128 * j + 128"
  shows "no_block_byte m x"
proof -
  have "x < ino_tab m + 128 * n_inodes m"
    using assms(2,4) by simp
  then show ?thesis
    using fs_okD(5,8) [OF assms(1)] assms(3) by (auto simp: no_block_byte_def counter_byte_def apart_def)
qed

lemma data_no_block_byte: "data_byte m x \<Longrightarrow> no_block_byte m x"
  by (auto simp: data_byte_def no_block_byte_def counter_byte_def)

lemma block_loop_marks:
  assumes "marks v act" "sound (disk s)" "j < n_inodes (disk s)" "p = ino_tab (disk s) + 128 * j" "i \<le> 12"
    and "markable v (disk s) (direct_from (disk s) p i)"
  shows "block_loop p (\<lambda>b. bnd (act b) (\<lambda>_. ret (None :: unit option))) [i..<12] s =
    (Ok (Inl (i + length (direct_from (disk s) p i))), s\<lparr>disk := marked v (direct_from (disk s) p i) (disk s)\<rparr>)"
  using assms(2-)
proof (induction "12 - i" arbitrary: i s)
  case 0
  then show ?case by (simp add: direct_from_def prog)
next
  case (Suc k)
  let ?m = "disk s" and ?b = "get_le 4 (disk s) (i_block p i) :: 32 word"
  have i: "i < 12" using Suc.hyps(2) by simp
  have upt: "[i..<12] = i # [Suc i..<12]"
    using i by (simp add: upt_conv_Cons)
  have "128 * j + 128 \<le> 128 * n_inodes ?m"
    using Suc.prems(2) by simp
  then have range: "i_block p i + 4 \<le> disk_size"
    using fs_okD(6) [OF soundD(1) [OF Suc.prems(1)]] Suc.prems(3) i by (simp add: inode_fields)
  show ?case
  proof (cases "?b = 0")
    case True
    with range show ?thesis
      by (simp add: upt prog direct_from_step [OF i] Let_def del: upt_Suc)
  next
    case False
    let ?rest = "direct_from ?m p (Suc i)" and ?m' = "block_put ?m (slot_of ?b) v"
    let ?s = "s\<lparr>disk := ?m'\<rparr>"
    have list: "direct_from ?m p i = ?b # ?rest"
      using False by (simp add: direct_from_step [OF i] Let_def)
    have mark: "markable v ?m (?b # ?rest)"
      using Suc.prems(5) list by simp
    note step = block_put_step [OF Suc.prems(1) mark]
    have "get_le 4 ?m' (i_block p n) = (get_le 4 ?m (i_block p n) :: 32 word)" if "n < 12" for n
      by (rule same_words [OF _ Suc.prems(1) mark], rule slot_byte [OF soundD(1) [OF Suc.prems(1)] Suc.prems(2)])
        (use that Suc.prems(3) in \<open>auto simp: inode_fields\<close>)
    then have same: "direct_from ?m' p (Suc i) = ?rest"
      unfolding direct_from_def by (intro arg_cong [of _ _ "takeWhile _"] map_cong) auto
    have "act ?b s = (Ok (), ?s)"
      using assms(1) Suc.prems(1) markable_one [OF mark] by (simp add: marks_def)
    moreover have "block_loop p (\<lambda>b. bnd (act b) (\<lambda>_. ret (None :: unit option))) [Suc i..<12] ?s =
        (Ok (Inl (Suc i + length ?rest)), ?s\<lparr>disk := marked v ?rest ?m'\<rparr>)"
      using Suc.hyps(1) [of "Suc i" ?s] Suc.hyps(2) step Suc.prems(2,3) i same
      by (simp add: same_layout_def)
    ultimately show ?thesis
      using False range by (simp add: upt prog list bnd_run del: upt_Suc)
  qed
qed

lemma indirect_loop_marks:
  assumes "\<And>b t. sound (disk t) \<Longrightarrow> markable v (disk t) [b] \<Longrightarrow>
      body b t = (Ok False, t\<lparr>disk := block_put (disk t) (slot_of b) v\<rparr>)"
    and "sound (disk s)" "markable v (disk s) (listed left (disk s) pos d)"
    and "\<And>x. pos \<le> x \<Longrightarrow> x < pos + 4 * length (listed left (disk s) pos d) \<Longrightarrow> no_block_byte (disk s) x"
    and "pos + 4 * length (listed left (disk s) pos d) \<le> disk_size"
  shows "indirect_loop left pos d body s =
    (Ok False, s\<lparr>disk := marked v (listed left (disk s) pos d) (disk s)\<rparr>)"
  using assms(2-)
proof (induction left arbitrary: pos d s)
  case 0
  then show ?case by (simp add: prog)
next
  case (Suc left)
  show ?case
  proof (cases "d = 0")
    case True
    then show ?thesis by (simp add: prog)
  next
    case False
    let ?m = "disk s" and ?m' = "block_put (disk s) (slot_of d) v"
    let ?s = "s\<lparr>disk := ?m'\<rparr>"
    let ?next = "get_le 4 ?m pos :: 32 word"
    let ?rest = "listed left ?m (pos + 4) ?next"
    have list: "listed (Suc left) ?m pos d = d # ?rest"
      using False by simp
    have mark: "markable v ?m (d # ?rest)"
      using Suc.prems(2) list by simp
    note step = block_put_step [OF Suc.prems(1) mark]
    have words: "get_le 4 ?m' a = (get_le 4 ?m a :: 32 word)" if "pos \<le> a" "a + 4 \<le> pos + 4 * length (d # ?rest)" for a
      by (rule same_words [OF _ Suc.prems(1) mark], rule Suc.prems(3)) (use that list in auto)
    have "listed k ?m' a w = listed k ?m a w" if "pos \<le> a" "a + 4 * length (listed k ?m a w) \<le> pos + 4 * length (d # ?rest)" for k a w
      using that
    proof (induction k arbitrary: a w)
      case (Suc k)
      then show ?case using words [of a] by (cases "w = 0") auto
    qed simp
    then have same: "listed left ?m' (pos + 4) ?next = ?rest"
      by simp
    have next_word: "get_le 4 ?m' pos = ?next"
      by (rule words) simp_all
    have "body d s = (Ok False, ?s)"
      by (rule assms(1) [OF Suc.prems(1) markable_one [OF mark]])
    moreover have "indirect_loop left (pos + 4) ?next body ?s =
        (Ok False, ?s\<lparr>disk := marked v ?rest ?m'\<rparr>)"
    proof -
      have "no_block_byte ?m' x" if "pos + 4 \<le> x" "x < pos + 4 + 4 * length ?rest" for x
        using Suc.prems(3) [of x] that step(2) list by (simp add: no_block_byte_def same_layout_def)
      then show ?thesis
        using Suc.IH [of ?s "pos + 4" ?next] step Suc.prems(4) list same by simp
    qed
    ultimately show ?thesis
      using False Suc.prems(4) next_word list by (simp add: prog bnd_run)
  qed
qed

lemma markable_length: "markable v m bs \<Longrightarrow> length bs \<le> 127"
proof -
  assume "markable v m bs"
  then have "distinct (map slot_of bs)" "set (map slot_of bs) \<subseteq> {..<127}"
    by (auto simp: markable_def dest: block_ok_start(2))
  then show "length bs \<le> 127"
    using card_mono [of "{..<127}" "set (map slot_of bs)"] distinct_card [of "map slot_of bs"] by simp
qed

text \<open>The words of an indirect block that is itself a data block.\<close>

lemma for_indirect_marks:
  assumes "\<And>b t. sound (disk t) \<Longrightarrow> markable v (disk t) [b] \<Longrightarrow>
      body b t = (Ok False, t\<lparr>disk := block_put (disk t) (slot_of b) v\<rparr>)"
    and "sound (disk s)" "block_ok (disk s) b" "markable v (disk s) (indirect_words (disk s) b)"
  shows "for_indirect b body s = (Ok False, s\<lparr>disk := marked v (indirect_words (disk s) b) (disk s)\<rparr>)"
proof -
  let ?pos = "block_start b"
  let ?ws = "listed 256 (disk s) (?pos + 4) (get_le 4 (disk s) ?pos)"
  have len: "4 * length ?ws \<le> 508"
    using markable_length [OF assms(4)] by (simp add: indirect_words_def)
  have last: "?pos + 1024 \<le> 131072"
    by (rule block_region(5) [OF assms(3)])
  have "indirect_loop 256 (?pos + 4) (get_le 4 (disk s) ?pos) body s =
      (Ok False, s\<lparr>disk := marked v ?ws (disk s)\<rparr>)"
  proof (rule indirect_loop_marks [OF assms(1,2)])
    show "markable v (disk s) ?ws"
      using assms(4) by (simp add: indirect_words_def)
    show "no_block_byte (disk s) x" if "?pos + 4 \<le> x" "x < ?pos + 4 + 4 * length ?ws" for x
      using that len by (intro data_no_block_byte block_data_byte [OF assms(3)]) simp_all
    show "?pos + 4 + 4 * length ?ws \<le> disk_size"
      using len last by simp
  qed
  with last show ?thesis
    by (simp add: for_indirect_def Let_def prog max_indirect_blocks_def EXT2_BLOCK_SIZE_def indirect_words_def)
qed

text \<open>The blocks of a file, in the order in which they are released.\<close>

definition indirect_of :: "memory \<Rightarrow> nat \<Rightarrow> 32 word" where
  "indirect_of m p = get_le 4 m (i_block p (length (dir_blocks m p)))"

definition file_blocks :: "memory \<Rightarrow> nat \<Rightarrow> 32 word list" where
  "file_blocks m p = dir_blocks m p @ (if indirect_of m p = 0 then []
     else indirect_words m (indirect_of m p) @ [indirect_of m p])"

lemma marked_block_ok: "sound m \<Longrightarrow> markable v m bs \<Longrightarrow> block_ok (marked v bs m) b = block_ok m b"
  using marked(2) [of m v bs] by (simp add: block_ok_def same_layout_def data_block_def)

lemma no_block_byte_layout: "same_layout m m' \<Longrightarrow> no_block_byte m' x = no_block_byte m x"
  by (simp add: no_block_byte_def same_layout_def)

text \<open>Words in bytes that marking does not reach.\<close>

lemma marked_word:
  assumes "sound m" "markable v m bs" "\<And>x. a \<le> x \<Longrightarrow> x < a + n \<Longrightarrow> no_block_byte m x"
  shows "get_le n (marked v bs m) a = get_le n m a"
  by (rule get_le_cong, rule marked(4) [OF assms(1,2)], rule assms(3)) simp_all

lemma listed_same:
  assumes "\<And>x. pos \<le> x \<Longrightarrow> x < pos + 4 * length (listed left m pos d) \<Longrightarrow> m' x = m x"
  shows "listed left m' pos d = listed left m pos d"
  using assms
proof (induction left arbitrary: pos d)
  case (Suc left)
  show ?case
  proof (cases "d = 0")
    case False
    have "get_le 4 m' pos = (get_le 4 m pos :: 32 word)"
      by (rule get_le_cong) (use Suc.prems False in simp)
    moreover have "listed left m' (pos + 4) (get_le 4 m pos) = listed left m (pos + 4) (get_le 4 m pos)"
      by (rule Suc.IH) (use Suc.prems False in simp)
    ultimately show ?thesis using False by simp
  qed simp
qed simp

lemma indirect_words_same:
  assumes "block_ok m b" "length (indirect_words m b) \<le> 127"
    and "\<And>x. block_start b \<le> x \<Longrightarrow> x < block_start b + 1024 \<Longrightarrow> m' x = m x"
  shows "indirect_words m' b = indirect_words m b"
proof -
  have "get_le 4 m' (block_start b) = (get_le 4 m (block_start b) :: 32 word)"
    by (rule get_le_cong) (simp add: assms(3))
  moreover have "listed 256 m' (block_start b + 4) (get_le 4 m (block_start b)) =
      listed 256 m (block_start b + 4) (get_le 4 m (block_start b))"
    by (rule listed_same, rule assms(3)) (use assms(2) in \<open>simp_all add: indirect_words_def\<close>)
  ultimately show ?thesis by (simp add: indirect_words_def)
qed

section \<open>Images with the same free space\<close>

lemma get_le_inj:
  assumes "get_le n m' a = (get_le n m a :: 'w::len word)" "8 * n \<le> LENGTH('w)" "a \<le> x" "x < a + n"
  shows "m' x = m x"
proof -
  have "put_le n a (get_le n m a :: 'w word) m' = m'"
    by (rule put_le_same) (use assms(1,2) in simp_all)
  moreover have "put_le n a (get_le n m a :: 'w word) m = m"
    by (rule put_le_same) (use assms(2) in simp_all)
  moreover have "put_le n a w m' x = put_le n a w m x" for w :: "'w word"
    using put_le_inside [of "x - a" n a w] assms(3,4) by simp
  ultimately show ?thesis by metis
qed

lemma bitmap_bytes:
  assumes "free_bits m' b n = free_bits m b n" "b \<le> x" "x < b + n"
  shows "m' x = m x"
proof (rule bit_word_eqI)
  fix i assume i: "i < LENGTH(8)"
  let ?k = "8 * (x - b) + i"
  have "?k < 8 * n" "b + ?k div 8 = x" "?k mod 8 = i"
    using assms(2,3) i by auto
  moreover have "?k \<in> free_bits m' b n \<longleftrightarrow> ?k \<in> free_bits m b n"
    by (simp add: assms(1))
  ultimately show "bit (m' x) i \<longleftrightarrow> bit (m x) i"
    by (simp add: free_bits_def bit_used_def)
qed

lemma counter_bytes:
  assumes "counters_ok m" "counters_ok m'" "free_space m' = free_space m" "counter_byte x"
  shows "m' x = m x"
proof -
  have words: "get_le 4 m' 1036 = (get_le 4 m 1036 :: 32 word)" "get_le 4 m' 1040 = (get_le 4 m 1040 :: 32 word)"
      "get_le 2 m' 2060 = (get_le 2 m 2060 :: 16 word)" "get_le 2 m' 2062 = (get_le 2 m 2062 :: 16 word)"
    using assms(1-3) by (simp_all add: counters_counted counted_def ext2_fields)
  show ?thesis
    using assms(4) get_le_inj [OF words(1), of x] get_le_inj [OF words(2), of x] get_le_inj [OF words(3), of x]
      get_le_inj [OF words(4), of x]
    by (cases "x < 1040"; cases "x < 2062"; auto simp: counter_byte_def)
qed

text \<open>A byte that is neither part of a counter nor of a bitmap.\<close>

definition plain_byte :: "memory \<Rightarrow> nat \<Rightarrow> bool" where
  "plain_byte m x \<longleftrightarrow> no_block_byte m x \<and> (x < ino_map m \<or> ino_map m + n_inodes m \<le> x)"

text \<open>The free space and the plain bytes determine a sound image.\<close>

lemma sound_image_eq:
  assumes "sound m" "sound m'" "same_layout m m'" "free_space m' = free_space m"
    and "\<And>x. plain_byte m x \<Longrightarrow> m' x = m x"
  shows "m' = m"
proof
  fix x
  have bits: "free_bits m' (blk_map m) (n_blocks m) = free_bits m (blk_map m) (n_blocks m)"
      "free_bits m' (ino_map m) (n_inodes m) = free_bits m (ino_map m) (n_inodes m)"
    using assms(3,4) by (simp_all add: free_space_def same_layout_def)
  consider "plain_byte m x" | "counter_byte x" | "blk_map m \<le> x" "x < blk_map m + n_blocks m"
    | "ino_map m \<le> x" "x < ino_map m + n_inodes m"
    by (force simp: plain_byte_def no_block_byte_def)
  then show "m' x = m x"
  proof cases
    case 2
    then show ?thesis
      by (rule counter_bytes [OF soundD(2) [OF assms(1)] soundD(2) [OF assms(2)] assms(4)])
  qed (use assms(5) bitmap_bytes [OF bits(1)] bitmap_bytes [OF bits(2)] in auto)
qed

lemma block_ok_layout: "same_layout m m' \<Longrightarrow> block_ok m' b = block_ok m b"
  by (simp add: block_ok_def same_layout_def data_block_def)

text \<open>The place of an inode in the table.\<close>

lemma inode_slot:
  assumes "fs_ok m" "inode_ok m i"
  shows "inode_at (ino_tab m) i = ino_tab m + 128 * slot_of i" "slot_of i < n_inodes m"
    "inode_at (ino_tab m) i + 128 \<le> 131072" "3072 \<le> inode_at (ino_tab m) i"
proof -
  show slot: "slot_of i < n_inodes m" and at: "inode_at (ino_tab m) i = ino_tab m + 128 * slot_of i"
    using assms(2) inode_at_slot [of i] by (simp_all add: inode_ok_def)
  have "128 * slot_of i + 128 \<le> 128 * n_inodes m"
    using slot by simp
  then show "inode_at (ino_tab m) i + 128 \<le> 131072" "3072 \<le> inode_at (ino_tab m) i"
    using fs_okD(5,6) [OF assms(1)] at by simp_all
qed

section \<open>Unlinking and reclaiming\<close>

text \<open>
  The three loops with the order in which \<open>free_data_blocks\<close> and \<open>reclaim_inode_and_data_blocks\<close> use
  them: direct blocks first; the indirect block last or before the words it holds.
\<close>

definition file_sound :: "bool \<Rightarrow> memory \<Rightarrow> nat \<Rightarrow> bool" where
  "file_sound v m p \<longleftrightarrow> markable v m (file_blocks m p) \<and> (\<exists>j < n_inodes m. p = ino_tab m + 128 * j)"

lemma indirect_zero: "length (dir_blocks m p) < 12 \<Longrightarrow> indirect_of m p = 0"
proof -
  let ?w = "\<lambda>n. get_le 4 m (i_block p n) :: 32 word"
  assume short: "length (dir_blocks m p) < 12"
  then have "\<not> ?w (length (dir_blocks m p)) \<noteq> 0"
    using nth_length_takeWhile [of "\<lambda>b. b \<noteq> 0" "map ?w [0..<12]"] by (simp add: dir_blocks_def)
  then show ?thesis by (simp add: indirect_of_def)
qed

text \<open>The pointers of a file survive changes outside its inode's pointers and the data.\<close>

lemma file_blocks_same_at:
  assumes "sound m" "file_sound v m p" "same_layout m m'"
    and "\<And>x. p + 40 \<le> x \<Longrightarrow> x < p + 92 \<Longrightarrow> m' x = m x" "\<And>x. indirect_of m p \<noteq> 0 \<Longrightarrow> block_start (indirect_of m p) \<le> x \<Longrightarrow> x < block_start (indirect_of m p) + 1024 \<Longrightarrow> m' x = m x"
  shows "dir_blocks m' p = dir_blocks m p" "indirect_of m' p = indirect_of m p"
    "indirect_of m p \<noteq> 0 \<Longrightarrow> indirect_words m' (indirect_of m p) = indirect_words m (indirect_of m p)"
    "file_blocks m' p = file_blocks m p"
proof -
  show dir: "dir_blocks m' p = dir_blocks m p"
    by (rule dir_blocks_same) (use assms(4) in \<open>simp add: same_on_def\<close>)
  have "length (dir_blocks m p) \<le> 12"
    unfolding dir_blocks_def by (rule order_trans [OF length_takeWhile_le]) simp
  then show ind: "indirect_of m' p = indirect_of m p"
    unfolding indirect_of_def dir by (intro get_le_cong assms(4)) (auto simp: inode_fields)
  show words: "indirect_words m' (indirect_of m p) = indirect_words m (indirect_of m p)" if "indirect_of m p \<noteq> 0"
  proof (rule indirect_words_same)
    show ok: "block_ok m (indirect_of m p)"
      using assms(2) that by (simp add: file_sound_def markable_def file_blocks_def)
    have "markable v m (indirect_words m (indirect_of m p))"
      using assms(2) that by (auto simp: file_sound_def markable_def file_blocks_def)
    then show "length (indirect_words m (indirect_of m p)) \<le> 127"
      by (rule markable_length)
    show "m' x = m x" if "block_start (indirect_of m p) \<le> x" "x < block_start (indirect_of m p) + 1024" for x
      by (rule assms(5) [OF \<open>indirect_of m p \<noteq> 0\<close> that])
  qed
  show "file_blocks m' p = file_blocks m p"
    using words by (simp add: file_blocks_def dir ind)
qed

lemma file_blocks_same:
  assumes "sound m" "file_sound v m p" "same_layout m m'"
    and "\<And>x. p + 40 \<le> x \<Longrightarrow> x < p + 92 \<Longrightarrow> m' x = m x" "\<And>x. data_byte m x \<Longrightarrow> m' x = m x"
  shows "dir_blocks m' p = dir_blocks m p" "indirect_of m' p = indirect_of m p"
    "indirect_of m p \<noteq> 0 \<Longrightarrow> indirect_words m' (indirect_of m p) = indirect_words m (indirect_of m p)"
    "file_blocks m' p = file_blocks m p"
proof -
  have "m' x = m x" if "indirect_of m p \<noteq> 0" "block_start (indirect_of m p) \<le> x" "x < block_start (indirect_of m p) + 1024" for x
  proof -
    have "block_ok m (indirect_of m p)"
      using assms(2) that(1) by (simp add: file_sound_def markable_def file_blocks_def)
    then show ?thesis
      using that(2,3) by (intro assms(5) block_data_byte)
  qed
  note same = file_blocks_same_at [OF assms(1-4) this]
  show "dir_blocks m' p = dir_blocks m p" "indirect_of m' p = indirect_of m p"
    "indirect_of m p \<noteq> 0 \<Longrightarrow> indirect_words m' (indirect_of m p) = indirect_words m (indirect_of m p)"
    "file_blocks m' p = file_blocks m p"
    by (rule same; assumption?)+
qed

lemma file_range:
  assumes "sound m" "file_sound v m p" "n \<le> 12"
  shows "i_block p n + 4 \<le> 131072"
proof -
  obtain j where "j < n_inodes m" "p = ino_tab m + 128 * j"
    using assms(2) by (auto simp: file_sound_def)
  moreover from this have "128 * j + 128 \<le> 128 * n_inodes m"
    by simp
  ultimately show ?thesis
    using fs_okD(6) [OF soundD(1) [OF assms(1)]] assms(3) by (simp add: inode_fields)
qed

lemma marked_file_same:
  assumes "sound m" "file_sound v m p" "markable v m bs"
  defines "m' \<equiv> marked v bs m"
  shows "dir_blocks m' p = dir_blocks m p" "indirect_of m' p = indirect_of m p"
    "indirect_of m p \<noteq> 0 \<Longrightarrow> indirect_words m' (indirect_of m p) = indirect_words m (indirect_of m p)"
    "n \<le> 12 \<Longrightarrow> get_le 4 m' (i_block p n) = (get_le 4 m (i_block p n) :: 32 word)"
proof -
  obtain j where j: "j < n_inodes m" "p = ino_tab m + 128 * j"
    using assms(2) by (auto simp: file_sound_def)
  note mark = marked [OF assms(1,3), folded m'_def]
  have ptr: "m' x = m x" if "p + 40 \<le> x" "x < p + 92" for x
    by (rule mark(4) [OF slot_byte [OF soundD(1) [OF assms(1)] j(1)]]) (use that j in auto)
  have data: "m' x = m x" if "data_byte m x" for x
    by (rule mark(4) [OF data_no_block_byte [OF that]])
  note file_blocks_same [OF assms(1,2) mark(2) ptr data]
  then show "dir_blocks m' p = dir_blocks m p" "indirect_of m' p = indirect_of m p"
    "indirect_of m p \<noteq> 0 \<Longrightarrow> indirect_words m' (indirect_of m p) = indirect_words m (indirect_of m p)" by simp_all
  show "n \<le> 12 \<Longrightarrow> get_le 4 m' (i_block p n) = (get_le 4 m (i_block p n) :: 32 word)"
    by (rule get_le_cong, rule ptr) (auto simp: inode_fields)
qed

lemma free_data_blocks_run:
  assumes "sound (disk s)" "file_sound False (disk s) p"
  shows "free_data_blocks p s = (Ok (), s\<lparr>disk := marked False (file_blocks (disk s) p) (disk s)\<rparr>)"
proof -
  let ?m = "disk s"
  let ?ds = "dir_blocks ?m p" and ?b = "indirect_of ?m p"
  let ?ws = "indirect_words ?m ?b" and ?m1 = "marked False (dir_blocks (disk s) p) (disk s)"
  obtain j where j: "j < n_inodes ?m" "p = ino_tab ?m + 128 * j"
    using assms(2) by (auto simp: file_sound_def)
  have all: "markable False ?m (?ds @ (if ?b = 0 then [] else ?ws @ [?b]))"
    using assms(2) by (simp add: file_sound_def file_blocks_def)
  note parts = markable_append [OF assms(1) all]
  have ds: "markable False ?m ?ds" and m1: "sound ?m1"
    using parts marked(1) [OF assms(1)] by auto
  note same = marked_file_same [OF assms ds]
  have direct: "block_loop p (\<lambda>b. bnd (free_block b) (\<lambda>_. ret (None :: unit option))) [0..<12] s =
      (Ok (Inl (length ?ds)), s\<lparr>disk := ?m1\<rparr>)"
    using block_loop_marks [OF marks_free assms(1) j, of 0] ds by (simp add: direct_from_0)
  have most: "length ?ds \<le> 12"
    unfolding dir_blocks_def by (rule order_trans [OF length_takeWhile_le]) simp
  have word: "get_le 4 ?m1 (i_block p (length ?ds)) = ?b"
    using same(4) [OF most] by (simp add: indirect_of_def)
  note range = file_range [OF assms most]
  show ?thesis
  proof (cases "?b = 0")
    case True
    with direct word range show ?thesis
      by (simp add: free_data_blocks_def bnd_run prog file_blocks_def)
  next
    case False
    have tail: "markable False ?m1 (?ws @ [?b])"
      using parts False by simp
    note parts1 = markable_append [OF m1 tail]
    let ?m2 = "marked False ?ws ?m1"
    have "for_indirect ?b (\<lambda>d. thn (free_block d) (ret False)) (s\<lparr>disk := ?m1\<rparr>) = (Ok False, s\<lparr>disk := ?m2\<rparr>)"
    proof -
      have "thn (free_block b) (ret False) t = (Ok False, t\<lparr>disk := block_put (disk t) (slot_of b) False\<rparr>)"
        if "sound (disk t)" "markable False (disk t) [b]" for b t
        using marks_free that by (simp add: marks_def prog bnd_run)
      moreover have "block_ok ?m1 ?b" "markable False ?m1 (indirect_words ?m1 ?b)"
        using tail parts1 same(3) [OF False] by (simp_all add: markable_def)
      ultimately show ?thesis
        using for_indirect_marks [of False "\<lambda>d. thn (free_block d) (ret False)" "s\<lparr>disk := ?m1\<rparr>" ?b] m1 same(3) [OF False]
        by simp
    qed
    moreover have "free_block ?b (s\<lparr>disk := ?m2\<rparr>) = (Ok (), s\<lparr>disk := block_put ?m2 (slot_of ?b) False\<rparr>)"
      using marks_free parts1 marked(1) [OF m1] by (simp add: marks_def)
    ultimately show ?thesis
      using direct word range False by (simp add: free_data_blocks_def bnd_run prog file_blocks_def marked_append)
  qed
qed

text \<open>The two fields of the inode, with their new values.\<close>

definition touched :: "nat \<Rightarrow> 16 word \<Rightarrow> 32 word \<Rightarrow> memory \<Rightarrow> memory" where
  "touched p links dtime m = put_le 4 (i_dtime p) dtime (put_le 2 (i_links_count p) links m)"

lemma touched_other:
  "x < p + 20 \<or> p + 28 \<le> x \<Longrightarrow> touched p links dtime m x = m x"
  "p + 24 \<le> x \<Longrightarrow> x < p + 26 \<Longrightarrow> touched p links dtime m x = m x"
  by (auto simp: touched_def inode_fields put_le_outside)

lemma touched_fields:
  "get_le 2 (touched p links dtime m) (i_links_count p) = links" "get_le 4 (touched p links dtime m) (i_dtime p) = dtime"
  by (simp_all add: touched_def inode_fields get_put_le get_put_le_other)

lemma touched:
  assumes "sound m" "j < n_inodes m" "p = ino_tab m + 128 * j"
  shows "sound (touched p links dtime m)" "same_layout m (touched p links dtime m)"
    "free_space (touched p links dtime m) = free_space m"
proof -
  have near: "touched p links dtime m x = m x" if "x < ino_tab m + 128 * j \<or> ino_tab m + 128 * j + 128 \<le> x" for x
    using that by (intro touched_other(1)) (auto simp: assms(3))
  show "sound (touched p links dtime m)" "same_layout m (touched p links dtime m)"
    "free_space (touched p links dtime m) = free_space m"
    by (rule kept_sound [OF assms(1) near slot_region [OF soundD(1) [OF assms(1)] assms(2)]], assumption)+
qed

lemma touched_file_sound:
  assumes "sound m" "file_sound v m p"
  shows "file_sound v (touched p links dtime m) p" "file_blocks (touched p links dtime m) p = file_blocks m p"
proof -
  obtain j where j: "j < n_inodes m" "p = ino_tab m + 128 * j"
    using assms(2) by (auto simp: file_sound_def)
  note t = touched [OF assms(1) j]
  have data: "touched p links dtime m x = m x" if "data_byte m x" for x
    using slot_no_data [OF soundD(1) [OF assms(1)] j(1), of x] that j(2) by (intro touched_other(1)) linarith
  have "touched p links dtime m x = m x" if "p + 40 \<le> x" for x
    using that by (intro touched_other(1)) simp
  then show same: "file_blocks (touched p links dtime m) p = file_blocks m p"
    by (intro file_blocks_same(4) [OF assms t(2) _ data]) simp_all
  have "block_ok (touched p links dtime m) b = block_ok m b" for b
    using t(2) by (simp add: block_ok_def same_layout_def data_block_def)
  moreover have "\<exists>j < n_inodes (touched p links dtime m). p = ino_tab (touched p links dtime m) + 128 * j"
    using j t(2) by (auto simp: same_layout_def)
  ultimately show "file_sound v (touched p links dtime m) p"
    using assms(2) t(3) unfolding file_sound_def same markable_def by simp
qed

text \<open>A file with one link is released.\<close>

definition unlinked :: "32 word \<Rightarrow> 32 word \<Rightarrow> memory \<Rightarrow> memory" where
  "unlinked i time m = (let p = inode_at (ino_tab m) i; m1 = touched p 0 time m; m2 = marked False (file_blocks m p) m1
     in inode_put m2 (slot_of i) False)"

lemma unlink_inode_run:
  fixes s :: ext2 and i :: "32 word"
  defines "m \<equiv> disk s"
  defines "p \<equiv> inode_at (ino_tab m) i"
  assumes "sound m" "inode_ok m i" "file_sound False m p"
    and "get_le 2 m (i_links_count p) = (1 :: 16 word)"
  shows "unlink_inode i s = (Ok (), s\<lparr>disk := unlinked i (now s) m\<rparr>)"
proof -
  note i = inode_okD [OF soundD(1) [OF assms(3)] assms(4)]
  have p: "p = ino_tab m + 128 * slot_of i"
    using i(1) by (simp add: p_def inode_at_slot)
  let ?m1 = "touched p 0 (now s) m"
  note t = touched [OF assms(3) i(2) p]
  note keep = touched_file_sound [OF assms(3,5)]
  have range: "p + 44 \<le> 131072"
    using file_range [OF assms(3,5), of 0] by (simp add: inode_fields)
  have free: "free_data_blocks p (s\<lparr>disk := ?m1\<rparr>) = (Ok (), s\<lparr>disk := marked False (file_blocks m p) ?m1\<rparr>)"
    using free_data_blocks_run [of "s\<lparr>disk := ?m1\<rparr>" p] t(1) keep by simp
  let ?m2 = "marked False (file_blocks m p) ?m1"
  have mark: "markable False ?m1 (file_blocks m p)"
    using keep by (simp add: file_sound_def)
  note two = marked [OF t(1) mark]
  have "inode_ok ?m2 i"
    using assms(4) t(2) two(2) by (simp add: inode_ok_def same_layout_def)
  then have last: "free_inode i (s\<lparr>disk := ?m2\<rparr>) = (Ok (), s\<lparr>disk := inode_put ?m2 (slot_of i) False\<rparr>)"
    using free_inode_run [of "s\<lparr>disk := ?m2\<rparr>" i] two(1) by (simp add: sound_def)
  show ?thesis
    using free last range assms(6)
    unfolding m_def p_def
    by (simp add: unlink_inode_def prog bnd_run inode_fields get_put_le unlinked_def Let_def touched_def)
qed

lemma inode_put_other:
  assumes "fs_ok m" "k < n_inodes m" "plain_byte m x"
  shows "inode_put m k v x = m x"
proof (cases "3072 \<le> x")
  case True
  then have "inode_put m k v x = put_bit (ino_map m) k v m x"
    using fs_okD(3) [OF assms(1)] by (intro put_counted_read(4)) (simp_all add: ext2_fields)
  also have "\<dots> = m x"
    by (rule put_bit_other) (use assms(2,3) in \<open>auto simp: plain_byte_def\<close>)
  finally show ?thesis .
next
  case False
  then show ?thesis
    using assms(3) fs_okD(3) [OF assms(1)]
    by (intro put_counted_low) (auto simp: plain_byte_def no_block_byte_def counter_byte_def ext2_fields)
qed

lemma plain_byte_layout: "same_layout m m' \<Longrightarrow> plain_byte m' x = plain_byte m x"
  by (simp add: plain_byte_def no_block_byte_def same_layout_def)

text \<open>The bytes of the inode that unlinking changes.\<close>

definition field_byte :: "nat \<Rightarrow> nat \<Rightarrow> bool" where
  "field_byte p x \<longleftrightarrow> p + 20 \<le> x \<and> x < p + 24 \<or> p + 26 \<le> x \<and> x < p + 28"

lemma touched_no_field: "\<not> field_byte p x \<Longrightarrow> touched p links dtime m x = m x"
  by (auto simp: field_byte_def touched_def inode_fields put_le_outside)

lemma data_byte_plain: "data_byte m x \<Longrightarrow> plain_byte m x"
  using data_no_block_byte [of m x] by (simp add: plain_byte_def data_byte_def)

lemma slot_plain_byte:
  assumes "fs_ok m" "j < n_inodes m" "ino_tab m + 128 * j \<le> x" "x < ino_tab m + 128 * j + 128"
  shows "plain_byte m x"
proof -
  have "x < ino_tab m + 128 * n_inodes m"
    using assms(2,4) by simp
  then show ?thesis
    using slot_byte [OF assms] fs_okD(9) [OF assms(1)] assms(3) by (auto simp: plain_byte_def apart_def)
qed

lemma unlinked:
  fixes i time :: "32 word" and m :: memory
  defines "p \<equiv> inode_at (ino_tab m) i"
  assumes "sound m" "inode_ok m i" "slot_of i \<notin> snd (free_space m)" "file_sound False m p"
  defines "m' \<equiv> unlinked i time m"
  shows "sound m'" "same_layout m m'"
    "free_space m' = (fst (free_space m) \<union> slots (file_blocks m p), insert (slot_of i) (snd (free_space m)))"
    "plain_byte m x \<Longrightarrow> \<not> field_byte p x \<Longrightarrow> m' x = m x"
    "get_le 2 m' (i_links_count p) = (0 :: 16 word)" "get_le 4 m' (i_dtime p) = time"
proof -
  note fs = soundD(1) [OF assms(2)]
  note i = inode_okD [OF fs assms(3)]
  have p: "p = ino_tab m + 128 * slot_of i"
    using i(1) by (simp add: p_def inode_at_slot)
  let ?m1 = "touched p 0 time m" and ?bs = "file_blocks m p"
  let ?m2 = "marked False ?bs ?m1"
  have m': "m' = inode_put ?m2 (slot_of i) False"
    by (simp add: m'_def unlinked_def p_def Let_def)
  note t = touched [OF assms(2) i(2) p]
  note keep = touched_file_sound [OF assms(2,5)]
  have mark: "markable False ?m1 ?bs"
    using keep by (simp add: file_sound_def)
  note two = marked [OF t(1) mark]
  have layout2: "same_layout m ?m2"
    by (rule same_layout_trans [OF t(2) two(2)])
  have "slot_of i < n_inodes ?m2" "slot_of i \<notin> snd (free_space ?m2)"
    using i(2) layout2 two(3) t(3) assms(4) by (simp_all add: same_layout_def)
  note put = inode_put [OF two(1), of "slot_of i" False] and i2 = this
  show "sound m'"
    unfolding m' using put(1) i2 by simp
  show layout: "same_layout m m'"
    unfolding m' using put(2) i2 same_layout_trans [OF layout2] by simp
  show "free_space m' = (fst (free_space m) \<union> slots ?bs, insert (slot_of i) (snd (free_space m)))"
    unfolding m' using put(3) i2 two(3) t(3) by (simp add: flip_def flip_all_def)
  have same: "m' x = ?m1 x" if "plain_byte m x" for x
  proof -
    have "m' x = ?m2 x"
      unfolding m' by (rule inode_put_other [OF soundD(1) [OF two(1)] i2(1)])
        (use that plain_byte_layout [OF layout2] in simp)
    also have "\<dots> = ?m1 x"
      by (rule two(4)) (use that no_block_byte_layout [OF t(2)] in \<open>simp add: plain_byte_def\<close>)
    finally show ?thesis .
  qed
  then show "plain_byte m x \<Longrightarrow> \<not> field_byte p x \<Longrightarrow> m' x = m x"
    by (simp add: touched_no_field)
  have words: "get_le 2 m' (p + 26) = (get_le 2 ?m1 (p + 26) :: 16 word)"
      "get_le 4 m' (p + 20) = (get_le 4 ?m1 (p + 20) :: 32 word)"
    by (rule get_le_cong, rule same, rule slot_plain_byte [OF fs i(2)]; simp add: p)+
  show "get_le 2 m' (i_links_count p) = (0 :: 16 word)" "get_le 4 m' (i_dtime p) = time"
    using words touched_fields [of p 0 time m] by (simp_all add: inode_fields)
qed

text \<open>
  Removing the last link of a file on a sound image always returns; it frees exactly the inode
  and the blocks of the file, the direct ones, the indirect block and those it lists, sets the link
  count to 0 and the time of deletion to now, and keeps every counter equal to the number of free
  bits.  No other byte changes: the data, the pointers of the inode and every other inode stay.
\<close>

theorem unlink_inode_frees:
  fixes s :: ext2 and i :: "32 word"
  defines "m \<equiv> disk s"
  defines "p \<equiv> inode_at (ino_tab m) i"
  assumes "sound m" "inode_ok m i" "slot_of i \<notin> snd (free_space m)" "file_sound False m p"
    and "get_le 2 m (i_links_count p) = (1 :: 16 word)"
  shows "\<exists>t. unlink_inode i s = (Ok (), t) \<and> sound (disk t) \<and>
    free_space (disk t) = (fst (free_space m) \<union> slots (file_blocks m p), insert (slot_of i) (snd (free_space m))) \<and>
    get_le 2 (disk t) (i_links_count p) = (0 :: 16 word) \<and> get_le 4 (disk t) (i_dtime p) = now s \<and>
    (\<forall>x. plain_byte m x \<longrightarrow> \<not> field_byte p x \<longrightarrow> disk t x = m x)"
proof -
  have run: "unlink_inode i s = (Ok (), s\<lparr>disk := unlinked i (now s) m\<rparr>)"
    unfolding m_def by (rule unlink_inode_run) (use assms in \<open>simp_all add: m_def p_def\<close>)
  note effect = unlinked [OF assms(3-5), folded p_def, OF assms(6), where time = "now s"]
  show ?thesis
    unfolding run using effect by (intro exI [of _ "s\<lparr>disk := unlinked i (now s) m\<rparr>"]) simp
qed

section \<open>Reclaiming a file\<close>

lemma block_loop_pure:
  assumes "sound (disk s)" "file_sound v (disk s) p" "i \<le> 12"
    and "\<And>b. b \<in> set (direct_from (disk s) p i) \<Longrightarrow> body b s = (Ok None, s)"
  shows "block_loop p body [i..<12] s = (Ok (Inl (i + length (direct_from (disk s) p i))), s)"
  using assms(3,4)
proof (induction "12 - i" arbitrary: i)
  case 0
  then show ?case by (simp add: direct_from_def prog)
next
  case (Suc k)
  have i: "i < 12" using Suc.hyps(2) by simp
  have upt: "[i..<12] = i # [Suc i..<12]"
    using i by (simp add: upt_conv_Cons)
  note range = file_range [OF assms(1,2), of i]
  show ?case
    using Suc.hyps(1) [of "Suc i"] Suc.hyps(2) Suc.prems(2) i range
    by (simp add: upt prog bnd_run direct_from_step [OF i] Let_def del: upt_Suc split: if_splits)
qed

lemma indirect_loop_pure:
  assumes "\<And>b. b \<in> set (listed left (disk s) pos d) \<Longrightarrow> body b s = (Ok False, s)"
    and "pos + 4 * length (listed left (disk s) pos d) \<le> disk_size"
  shows "indirect_loop left pos d body s = (Ok False, s)"
  using assms by (induction left arbitrary: pos d) (auto simp: prog bnd_run split: if_splits)

lemma for_indirect_pure:
  assumes "block_ok (disk s) b" "length (indirect_words (disk s) b) \<le> 127"
    and "\<And>c. c \<in> set (indirect_words (disk s) b) \<Longrightarrow> body c s = (Ok False, s)"
  shows "for_indirect b body s = (Ok False, s)"
proof -
  have last: "block_start b + 1024 \<le> 131072"
    by (rule block_region(5) [OF assms(1)])
  have "indirect_loop 256 (block_start b + 4) (get_le 4 (disk s) (block_start b)) body s = (Ok False, s)"
    by (rule indirect_loop_pure) (use assms(2,3) last in \<open>auto simp: indirect_words_def\<close>)
  with last show ?thesis
    by (simp add: for_indirect_def Let_def prog max_indirect_blocks_def EXT2_BLOCK_SIZE_def)
qed

lemma all_free_run:
  fixes s :: ext2 and i :: "32 word"
  defines "m \<equiv> disk s"
  defines "p \<equiv> inode_at (ino_tab m) i"
  assumes "sound m" "inode_ok m i" "slot_of i \<in> snd (free_space m)" "file_sound True m p"
  shows "is_inode_and_data_blocks_free i s = (Ok True, s)"
proof -
  note fs = soundD(1) [OF assms(3)]
  let ?ds = "dir_blocks m p" and ?b = "indirect_of m p"
  have mark: "markable True m (file_blocks m p)"
    using assms(6) by (simp add: file_sound_def)
  have free: "is_block_in_use b s = (Ok False, s)" if "b \<in> set (file_blocks m p)" for b
    using in_use_run(1) [of s b] fs mark that by (simp add: m_def markable_def)
  have "is_inode_in_use i s = (Ok False, s)"
    using in_use_run(2) [of s i] fs assms(4,5) by (simp add: m_def)
  moreover have "block_loop p (\<lambda>b. bnd (is_block_in_use b) (\<lambda>u. ret (if u then Some () else None))) [0..<12] s =
      (Ok (Inl (length ?ds)), s)"
  proof -
    have "bnd (is_block_in_use b) (\<lambda>u. ret (if u then Some () else None)) s = (Ok None, s)" if "b \<in> set ?ds" for b
      using free [of b] that by (simp add: bnd_def prog file_blocks_def)
    then show ?thesis
      using assms(3,6) by (intro block_loop_pure [of s True p 0, unfolded direct_from_0 add_0, folded m_def]) simp_all
  qed
  moreover have most: "length ?ds \<le> 12"
    unfolding dir_blocks_def by (rule order_trans [OF length_takeWhile_le]) simp
  moreover have "is_block_in_use ?b s = (Ok False, s) \<and> for_indirect ?b is_block_in_use s = (Ok False, s)"
    if "?b \<noteq> 0"
  proof -
    have sub: "set (indirect_words m ?b) \<subseteq> set (file_blocks m p)" "?b \<in> set (file_blocks m p)"
      using that by (auto simp: file_blocks_def)
    have "markable True m (indirect_words m ?b)" "block_ok m ?b"
      using mark that by (auto simp: file_blocks_def markable_def)
    then have "for_indirect ?b is_block_in_use s = (Ok False, s)"
      using sub(1) markable_length by (intro for_indirect_pure) (auto simp: m_def intro!: free [unfolded m_def])
    with free [OF sub(2)] show ?thesis by simp
  qed
  moreover have "get_le 4 m (i_block p (length ?ds)) = ?b"
    by (simp add: indirect_of_def)
  ultimately show ?thesis
    using file_range [OF assms(3,6), of 12]
    by (cases "length ?ds < 12")
      (simp_all add: is_inode_and_data_blocks_free_def prog bnd_run bnd_run_bool m_def p_def)
qed

definition reclaimed :: "32 word \<Rightarrow> memory \<Rightarrow> memory" where
  "reclaimed i m = (let p = inode_at (ino_tab m) i; b = indirect_of m p
     in marked True (dir_blocks m p @ (if b = 0 then [] else b # indirect_words m b))
       (touched p 1 0 (inode_put m (slot_of i) True)))"

lemma markable_swap: "markable v m (xs @ ys @ [b]) = markable v m (xs @ b # ys)"
  by (auto simp: markable_def)

lemma inode_put_file_sound:
  assumes "sound m" "file_sound v m p" "k \<in> snd (free_space m) \<longleftrightarrow> u" "k < n_inodes m"
  defines "m' \<equiv> inode_put m k u"
  shows "file_sound v m' p" "dir_blocks m' p = dir_blocks m p" "indirect_of m' p = indirect_of m p"
    "indirect_of m p \<noteq> 0 \<Longrightarrow> indirect_words m' (indirect_of m p) = indirect_words m (indirect_of m p)"
proof -
  obtain j where j: "j < n_inodes m" "p = ino_tab m + 128 * j"
    using assms(2) by (auto simp: file_sound_def)
  note put = inode_put [OF assms(1,3,4), folded m'_def]
  note fs = soundD(1) [OF assms(1)]
  have plain: "m' x = m x" if "plain_byte m x" for x
    unfolding m'_def by (rule inode_put_other [OF fs assms(4) that])
  have ptr: "m' x = m x" if "p + 40 \<le> x" "x < p + 92" for x
    by (rule plain, rule slot_plain_byte [OF fs j(1)]) (use that j in auto)
  have data: "m' x = m x" if "data_byte m x" for x
    by (rule plain) (use that data_no_block_byte [OF that] in \<open>simp add: plain_byte_def data_byte_def\<close>)
  note same = file_blocks_same [OF assms(1,2) put(2) ptr data]
  from same show "dir_blocks m' p = dir_blocks m p" "indirect_of m' p = indirect_of m p"
    "indirect_of m p \<noteq> 0 \<Longrightarrow> indirect_words m' (indirect_of m p) = indirect_words m (indirect_of m p)" by simp_all
  have "block_ok m' b = block_ok m b" for b
    using put(2) by (simp add: block_ok_def same_layout_def data_block_def)
  moreover have "\<exists>j < n_inodes m'. p = ino_tab m' + 128 * j"
    using j put(2) by (auto simp: same_layout_def)
  moreover have "file_blocks m' p = file_blocks m p"
    by (rule same(4)) 
  ultimately show "file_sound v m' p"
    using assms(2) put(3) unfolding file_sound_def markable_def by simp
qed

text \<open>The indirect block and the blocks it lists, in the order of \<open>reclaim_inode_and_data_blocks\<close>.\<close>

lemma reclaim_indirect_run:
  fixes s :: ext2
  defines "m \<equiv> disk s"
  assumes "sound m" "markable True m (b # indirect_words m b)"
  shows "bnd (set_block_in_use b) (\<lambda>_. for_indirect b (\<lambda>d. thn (set_block_in_use d) (ret False))) s =
    (Ok False, s\<lparr>disk := marked True (b # indirect_words m b) m\<rparr>)"
proof -
  let ?m2 = "block_put m (slot_of b) True"
  note step = block_put_step [OF assms(2,3)]
  have ok: "block_ok m b" "block_ok ?m2 b"
    using assms(3) step(2) by (simp_all add: markable_def block_ok_def same_layout_def data_block_def)
  have "length (indirect_words m b) \<le> 127"
    using markable_length [OF step(4)] by simp
  then have "indirect_words ?m2 b = indirect_words m b"
    by (rule indirect_words_same [OF ok(1)])
      (rule step(5) [OF data_no_block_byte [OF block_data_byte [OF ok(1)]]])
  moreover have "thn (set_block_in_use b) (ret False) t = (Ok False, t\<lparr>disk := block_put (disk t) (slot_of b) True\<rparr>)"
    if "sound (disk t)" "markable True (disk t) [b]" for b t
    using marks_use that by (simp add: marks_def prog bnd_run)
  ultimately have "for_indirect b (\<lambda>d. thn (set_block_in_use d) (ret False)) (s\<lparr>disk := ?m2\<rparr>) =
      (Ok False, s\<lparr>disk := marked True (indirect_words m b) ?m2\<rparr>)"
    using for_indirect_marks [of True "\<lambda>d. thn (set_block_in_use d) (ret False)" "s\<lparr>disk := ?m2\<rparr>" b] step(1,4) ok(2)
    by simp
  moreover have "set_block_in_use b s = (Ok (), s\<lparr>disk := ?m2\<rparr>)"
    using marks_use assms(2) markable_one [OF assms(3)] by (simp add: marks_def m_def)
  ultimately show ?thesis
    by (simp add: bnd_run)
qed

text \<open>The loops of \<open>reclaim_inode_and_data_blocks\<close>, behind the fields of the inode.\<close>

lemma reclaim_loops_run:
  assumes "sound (disk s)" "file_sound True (disk s) p"
  defines "m \<equiv> disk s" and "b \<equiv> indirect_of (disk s) p"
  shows "bnd (block_loop p (\<lambda>b. thn (set_block_in_use b) (ret (None :: unit option))) [0..<12]) (\<lambda>r.
       if (case r of Inl n \<Rightarrow> n < 12 | Inr _ \<Rightarrow> False) then ret (0 :: int)
       else bnd (ld32 (i_block p 12)) (\<lambda>indirect_block_num.
         if indirect_block_num \<noteq> 0 then
           thn (set_block_in_use indirect_block_num)
          (bnd (for_indirect indirect_block_num (\<lambda>d. thn (set_block_in_use d) (ret False))) (\<lambda>_. ret 0))
         else ret 0)) s =
    (Ok 0, s\<lparr>disk := marked True (dir_blocks m p @ (if b = 0 then [] else b # indirect_words m b)) m\<rparr>)"
proof -
  let ?ds = "dir_blocks m p" and ?ws = "indirect_words m b"
  let ?m1 = "marked True ?ds m"
  obtain j where j: "j < n_inodes m" "p = ino_tab m + 128 * j"
    using assms(2) by (auto simp: file_sound_def m_def)
  have sm: "sound m" "file_sound True m p"
    using assms(1,2) by (simp_all add: m_def)
  have all: "markable True m (?ds @ (if b = 0 then [] else b # ?ws))"
    using assms(2) markable_swap [of True m ?ds ?ws b]
    by (simp add: file_sound_def file_blocks_def m_def b_def split: if_splits)
  note parts = markable_append [OF sm(1) all]
  have ds: "markable True m ?ds" and m1: "sound ?m1"
    using parts marked(1) [OF sm(1)] by auto
  note same = marked_file_same [OF sm ds]
  have direct: "block_loop p (\<lambda>b. thn (set_block_in_use b) (ret (None :: unit option))) [0..<12] s =
      (Ok (Inl (length ?ds)), s\<lparr>disk := ?m1\<rparr>)"
    unfolding thn_def using block_loop_marks [OF marks_use assms(1), of j p 0] j ds by (simp add: direct_from_0 m_def)
  have most: "length ?ds \<le> 12"
    unfolding dir_blocks_def by (rule order_trans [OF length_takeWhile_le]) simp
  note range = file_range [OF sm, of 12]
  consider "length ?ds < 12" | "length ?ds = 12" "b = 0" | "length ?ds = 12" "b \<noteq> 0"
    using most by linarith
  then show ?thesis
  proof cases
    case 1
    with direct show ?thesis
      using indirect_zero [of m p] by (simp add: bnd_run prog b_def m_def)
  next
    case 2
    with direct range same(4) [of 12] show ?thesis
      by (simp add: bnd_run prog indirect_of_def b_def m_def)
  next
    case 3
    have word: "get_le 4 ?m1 (i_block p 12) = b"
      using same(4) [of 12] 3 by (simp add: indirect_of_def b_def m_def)
    have words: "indirect_words ?m1 b = ?ws"
      using same(3) 3 by (simp add: b_def m_def)
    have "bnd (set_block_in_use b) (\<lambda>_. for_indirect b (\<lambda>d. thn (set_block_in_use d) (ret False))) (s\<lparr>disk := ?m1\<rparr>) =
        (Ok False, s\<lparr>disk := marked True (b # ?ws) ?m1\<rparr>)"
      using reclaim_indirect_run [of "s\<lparr>disk := ?m1\<rparr>" b] m1 parts 3 by (simp add: words del: marked.simps)
    then have "bnd (set_block_in_use b) (\<lambda>_. bnd (for_indirect b (\<lambda>d. thn (set_block_in_use d) (ret False))) (\<lambda>_. ret (0 :: int)))
        (s\<lparr>disk := ?m1\<rparr>) = (Ok 0, s\<lparr>disk := marked True (b # ?ws) ?m1\<rparr>)"
      unfolding bnd_assoc [symmetric] by (rule trans [OF bnd_run]) (simp add: prog)
    with direct word range 3 show ?thesis
      by (simp add: bnd_run prog marked_append)
  qed
qed

lemma reclaim_run:
  fixes s :: ext2 and i :: "32 word"
  defines "m \<equiv> disk s"
  defines "p \<equiv> inode_at (ino_tab m) i"
  assumes "sound m" "inode_ok m i" "slot_of i \<in> snd (free_space m)" "file_sound True m p"
  shows "reclaim_inode_and_data_blocks i s = (Ok 0, s\<lparr>disk := reclaimed i m\<rparr>)"
proof -
  note fs = soundD(1) [OF assms(3)]
  note i = inode_okD [OF fs assms(4)]
  have p: "p = ino_tab m + 128 * slot_of i"
    using i(1) by (simp add: p_def inode_at_slot)
  have free: "is_inode_and_data_blocks_free i s = (Ok True, s)"
    using all_free_run [of s i] assms(3-6) by (simp add: m_def p_def)
  let ?m0 = "inode_put m (slot_of i) True" and ?m1 = "touched p 1 0 (inode_put m (slot_of i) True)"
  note put = inode_put [OF assms(3), of "slot_of i" True, unfolded eq_True, OF assms(5) i(2)]
  note keep = inode_put_file_sound [OF assms(3,6), of "slot_of i" True, unfolded eq_True, OF assms(5) i(2)]
  have slot0: "slot_of i < n_inodes ?m0" "p = ino_tab ?m0 + 128 * slot_of i"
    using i(2) p put(2) by (simp_all add: same_layout_def)
  note t = touched [OF put(1) slot0] and t_file = touched_file_sound [OF put(1) keep(1)]
  have use_i: "set_inode_in_use i s = (Ok (), s\<lparr>disk := ?m0\<rparr>)"
    using set_inode_in_use_run [of s i] fs assms(4,5) by (simp add: m_def)
  have data: "touched p 1 0 ?m0 x = ?m0 x" if "data_byte ?m0 x" for x
    using slot_no_data [OF soundD(1) [OF put(1)] slot0(1), of x] that slot0(2) by (intro touched_other(1)) linarith
  have "touched p 1 0 ?m0 x = ?m0 x" if "p + 40 \<le> x" for x
    using that by (intro touched_other(1)) simp
  then have same: "dir_blocks ?m1 p = dir_blocks m p" "indirect_of ?m1 p = indirect_of m p"
      "indirect_of m p \<noteq> 0 \<Longrightarrow> indirect_words ?m1 (indirect_of m p) = indirect_words m (indirect_of m p)"
    using file_blocks_same(1-3) [OF put(1) keep(1) t(2) _ data] keep(2-4) by simp_all
  have "p + 44 \<le> 131072"
    using file_range [OF assms(3,6), of 0] by (simp add: inode_fields)
  then show ?thesis
    using free use_i reclaim_loops_run [of "s\<lparr>disk := ?m1\<rparr>" p] t(1) t_file(1) same
    unfolding m_def p_def
    by (simp add: reclaim_inode_and_data_blocks_def bnd_run bnd_run_bool prog inode_fields touched_def reclaimed_def Let_def)
qed

lemma reclaimed:
  fixes i :: "32 word" and m :: memory
  defines "p \<equiv> inode_at (ino_tab m) i"
  assumes "sound m" "inode_ok m i" "slot_of i \<in> snd (free_space m)" "file_sound True m p"
  defines "m' \<equiv> reclaimed i m"
  shows "sound m'" "same_layout m m'"
    "free_space m' = (fst (free_space m) - slots (file_blocks m p), snd (free_space m) - {slot_of i})"
    "plain_byte m x \<Longrightarrow> \<not> field_byte p x \<Longrightarrow> m' x = m x"
    "get_le 2 m' (i_links_count p) = (1 :: 16 word)" "get_le 4 m' (i_dtime p) = (0 :: 32 word)"
proof -
  note fs = soundD(1) [OF assms(2)]
  note i = inode_okD [OF fs assms(3)]
  have p: "p = ino_tab m + 128 * slot_of i"
    using i(1) by (simp add: p_def inode_at_slot)
  let ?b = "indirect_of m p"
  let ?bs = "dir_blocks m p @ (if ?b = 0 then [] else ?b # indirect_words m ?b)"
  let ?m0 = "inode_put m (slot_of i) True" and ?m1 = "touched p 1 0 (inode_put m (slot_of i) True)"
  have m': "m' = marked True ?bs ?m1"
    by (simp add: m'_def reclaimed_def p_def Let_def)
  note put = inode_put [OF assms(2), of "slot_of i" True, unfolded eq_True, OF assms(4) i(2)]
  have slot0: "slot_of i < n_inodes ?m0" "p = ino_tab ?m0 + 128 * slot_of i"
    using i(2) p put(2) by (simp_all add: same_layout_def)
  note t = touched [OF put(1) slot0, where links = 1 and dtime = 0]
  have layout1: "same_layout m ?m1"
    by (rule same_layout_trans [OF put(2) t(2)])
  have "markable True m ?bs"
    using assms(5) markable_swap [of True m "dir_blocks m p" "indirect_words m ?b" ?b]
    by (simp add: file_sound_def file_blocks_def split: if_splits)
  then have mark: "markable True ?m1 ?bs"
    using layout1 t(3) put(3) by (simp add: markable_def block_ok_def same_layout_def data_block_def)
  note two = marked [OF t(1) mark]
  show "sound m'" unfolding m' by (rule two(1))
  show "same_layout m m'"
    unfolding m' by (rule same_layout_trans [OF layout1 two(2)])
  have "slots ?bs = slots (file_blocks m p)"
    by (auto simp: slots_def file_blocks_def)
  then show "free_space m' = (fst (free_space m) - slots (file_blocks m p), snd (free_space m) - {slot_of i})"
    unfolding m' two(3) using t(3) put(3) by (simp add: flip_def flip_all_def)
  have same: "m' x = ?m1 x" if "plain_byte m x" for x
    unfolding m' by (rule two(4)) (use that no_block_byte_layout [OF layout1] in \<open>simp add: plain_byte_def\<close>)
  show "m' x = m x" if "plain_byte m x" "\<not> field_byte p x"
    using same [OF that(1)] touched_no_field [OF that(2)] inode_put_other [OF fs i(2) that(1)] by simp
  have "get_le 2 m' (p + 26) = (get_le 2 ?m1 (p + 26) :: 16 word)" "get_le 4 m' (p + 20) = (get_le 4 ?m1 (p + 20) :: 32 word)"
    by (rule get_le_cong, rule same, rule slot_plain_byte [OF fs i(2)]; simp add: p)+
  then show "get_le 2 m' (i_links_count p) = (1 :: 16 word)" "get_le 4 m' (i_dtime p) = (0 :: 32 word)"
    using touched_fields [of p 1 0 ?m0] by (simp_all add: inode_fields)
qed

text \<open>An unlinked file can be reclaimed.\<close>

lemma unlinked_file:
  fixes i time :: "32 word" and m :: memory
  defines "p \<equiv> inode_at (ino_tab m) i"
  assumes "sound m" "inode_ok m i" "slot_of i \<notin> snd (free_space m)" "file_sound False m p"
  defines "m' \<equiv> unlinked i time m"
  shows "file_sound True m' p" "file_blocks m' p = file_blocks m p"
proof -
  obtain j where j: "j < n_inodes m" "p = ino_tab m + 128 * j"
    using assms(5) by (auto simp: file_sound_def)
  note fs = soundD(1) [OF assms(2)]
  note gone = unlinked [OF assms(2-4), where time = time, folded p_def m'_def, OF assms(5)]
  have ptr: "m' x = m x" if "p + 40 \<le> x" "x < p + 92" for x
    by (rule gone(4) [OF slot_plain_byte [OF fs j(1)]]) (use that j in \<open>auto simp: field_byte_def\<close>)
  have data: "m' x = m x" if "data_byte m x" for x
  proof (rule gone(4))
    show "plain_byte m x"
      using that data_no_block_byte [OF that] by (simp add: plain_byte_def data_byte_def)
    show "\<not> field_byte p x"
      using slot_no_data [OF fs j(1), of x] that j(2) by (auto simp: field_byte_def)
  qed
  show same: "file_blocks m' p = file_blocks m p"
    by (rule file_blocks_same(4) [OF assms(2,5) gone(2) ptr data])
  have "block_ok m' b = block_ok m b" for b
    using gone(2) by (simp add: block_ok_def same_layout_def data_block_def)
  moreover have "\<exists>j < n_inodes m'. p = ino_tab m' + 128 * j"
    using j gone(2) by (auto simp: same_layout_def)
  ultimately show "file_sound True m' p"
    using assms(5) gone(3) unfolding file_sound_def same markable_def by (auto simp: slots_def)
qed

text \<open>
  Reclaiming the inode of a file whose last link has just been removed restores the image byte for
  byte.
\<close>

lemma reclaim_undoes_unlink:
  fixes s :: ext2 and i :: "32 word"
  defines "m \<equiv> disk s"
  defines "p \<equiv> inode_at (ino_tab m) i"
  assumes "sound m" "inode_ok m i" "slot_of i \<notin> snd (free_space m)" "file_sound False m p"
    and "get_le 2 m (i_links_count p) = (1 :: 16 word)" "get_le 4 m (i_dtime p) = (0 :: 32 word)"
  shows "bnd (unlink_inode i) (\<lambda>_. reclaim_inode_and_data_blocks i) s = (Ok 0, s)"
proof -
  let ?m' = "unlinked i (now s) m"
  note gone = unlinked [OF assms(3-5), folded p_def, OF assms(6), where time = "now s"]
  note left = unlinked_file [OF assms(3-5), folded p_def, OF assms(6), where time = "now s"]
  have ok: "inode_ok ?m' i" "inode_at (ino_tab ?m') i = p" "slot_of i \<in> snd (free_space ?m')"
    using assms(4) gone(2,3) by (simp_all add: inode_ok_def same_layout_def p_def)
  note again = reclaimed [OF gone(1) ok(1,3), unfolded ok(2), OF left(1)]
  have "reclaimed i ?m' = m"
  proof (rule sound_image_eq [OF assms(3) again(1)])
    show "same_layout m (reclaimed i ?m')"
      by (rule same_layout_trans [OF gone(2) again(2)])
    have "slots (file_blocks m p) \<inter> fst (free_space m) = {}"
      using assms(6) by (auto simp: file_sound_def markable_def slots_def)
    then show "free_space (reclaimed i ?m') = free_space m"
      using again(3) left(2) gone(3) assms(5) by (auto simp: prod_eq_iff)
    show "reclaimed i ?m' x = m x" if plain: "plain_byte m x" for x
    proof (cases "field_byte p x")
      case False
      then show ?thesis
        using again(4) [of x] gone(4) [OF plain] plain_byte_layout [OF gone(2)] plain by simp
    next
      case True
      have words: "get_le 2 (reclaimed i ?m') (i_links_count p) = (get_le 2 m (i_links_count p) :: 16 word)"
          "get_le 4 (reclaimed i ?m') (i_dtime p) = (get_le 4 m (i_dtime p) :: 32 word)"
        using again(5,6) assms(7,8) by simp_all
      then show ?thesis
        using True get_le_inj [OF words(1), of x] get_le_inj [OF words(2), of x]
        by (auto simp: field_byte_def inode_fields)
    qed
  qed
  moreover have "unlink_inode i s = (Ok (), s\<lparr>disk := ?m'\<rparr>)"
    unfolding m_def by (rule unlink_inode_run) (use assms in \<open>simp_all add: m_def p_def\<close>)
  moreover have "reclaim_inode_and_data_blocks i (s\<lparr>disk := ?m'\<rparr>) = (Ok 0, s\<lparr>disk := reclaimed i ?m'\<rparr>)"
    using reclaim_run [of "s\<lparr>disk := ?m'\<rparr>" i] gone(1) ok left(1) by simp
  ultimately show ?thesis
    by (simp add: bnd_run m_def)
qed

section \<open>Witnesses\<close>

text \<open>The small image with one link to inode 2.\<close>

definition one_link :: memory where
  "one_link = touched 5248 1 0 small_image"

lemma one_link:
  "sound one_link" "inode_at (ino_tab one_link) 2 = 5248" "inode_ok one_link 2" "slot_of 2 \<notin> snd (free_space one_link)"
  "file_sound False one_link 5248" "get_le 2 one_link (i_links_count 5248) = (1 :: 16 word)"
  "get_le 4 one_link (i_dtime 5248) = (0 :: 32 word)" "8 \<in> slots (file_blocks one_link 5248)"
proof -
  have two: "slot_of 2 = 1" "1 \<le> sint (2 :: 32 word)" and nine: "slot_of 9 = 8"
    by code_simp+
  have "indirect_of small_image 5248 = 0"
    by (rule indirect_zero) (simp add: small_dir)
  then have blocks: "file_blocks small_image 5248 = [9]"
    by (simp add: file_blocks_def small_dir)
  have "block_ok small_image 9" "slot_of 9 \<notin> fst (free_space small_image)"
    using small_dir_sound by (simp_all add: dir_sound_def small_dir)
  then have sound: "file_sound False small_image 5248"
    using blocks by (auto simp: file_sound_def markable_def small_layout intro!: exI [of _ 1])
  note t = touched [OF small_sound, of 1 5248 1 0, folded one_link_def]
  note file_t = touched_file_sound [OF small_sound sound, of 1 0, folded one_link_def]
  have layout: "same_layout small_image one_link" "free_space one_link = ({9}, {0})" "sound one_link"
    using t by (simp_all add: small_layout small_space)
  show "sound one_link" "inode_at (ino_tab one_link) 2 = 5248" "inode_ok one_link 2" "slot_of 2 \<notin> snd (free_space one_link)"
    "file_sound False one_link 5248" "8 \<in> slots (file_blocks one_link 5248)"
    using layout file_t two nine blocks small_dir(1)
    by (simp_all add: same_layout_def small_layout inode_ok_def slots_def)
  show "get_le 2 one_link (i_links_count 5248) = (1 :: 16 word)" "get_le 4 one_link (i_dtime 5248) = (0 :: 32 word)"
    by (simp_all add: one_link_def touched_fields)
qed

lemma unlink_inode_frees_witness:
  "\<exists>t. unlink_inode 2 \<lparr>disk = one_link, now = 5, src = []\<rparr> = (Ok (), t) \<and> 8 \<in> fst (free_space (disk t)) \<and>
     get_le 4 (disk t) (i_dtime 5248) = (5 :: 32 word)"
  using unlink_inode_frees [of "\<lparr>disk = one_link, now = 5, src = []\<rparr>" 2] one_link by auto

lemma reclaim_undoes_unlink_witness:
  "bnd (unlink_inode 2) (\<lambda>_. reclaim_inode_and_data_blocks 2) \<lparr>disk = one_link, now = 5, src = []\<rparr> =
     (Ok 0, \<lparr>disk = one_link, now = 5, src = []\<rparr>)"
  by (rule reclaim_undoes_unlink) (simp_all add: one_link)

end
