(* ===== verification/Repair.thy ===== *)
theory Repair
  imports Files
begin

text \<open>
  \<open>fix_data_block_allocation\<close> of \<open>ext2_checker\<close>: the blocks an inode points to are marked in use,
  and the result is by how many the free blocks have shrunk.
\<close>

section \<open>Marking the blocks of an inode\<close>

text \<open>The free blocks among \<open>bs\<close> are marked in use, one after the other.\<close>

primrec taken :: "32 word list \<Rightarrow> memory \<Rightarrow> memory" where
  "taken [] m = m"
| "taken (b # bs) m = taken bs (if slot_of b \<in> fst (free_space m) then block_put m (slot_of b) True else m)"

definition gain :: "memory \<Rightarrow> memory \<Rightarrow> int" where
  "gain m m' = int (card (fst (free_space m))) - int (card (fst (free_space m')))"

definition blocks_ok :: "memory \<Rightarrow> 32 word list \<Rightarrow> bool" where
  "blocks_ok m bs \<longleftrightarrow> (\<forall>b \<in> set bs. block_ok m b)"

lemma taken_one:
  assumes "sound m" "block_ok m b"
  shows "sound (taken [b] m)" "same_layout m (taken [b] m)"
    "free_space (taken [b] m) = (fst (free_space m) - {slot_of b}, snd (free_space m))"
    "no_block_byte m x \<Longrightarrow> taken [b] m x = m x"
proof -
  have all: "sound (taken [b] m) \<and> same_layout m (taken [b] m) \<and>
    free_space (taken [b] m) = (fst (free_space m) - {slot_of b}, snd (free_space m)) \<and>
    (no_block_byte m x \<longrightarrow> taken [b] m x = m x)"
  proof (cases "slot_of b \<in> fst (free_space m)")
    case True
    then have "markable True m [b]"
      using assms(2) by (simp add: markable_def)
    with True show ?thesis
      using block_put_step [of m True b "[]"] assms(1) by (simp add: flip_def)
  next
    case False
    then show ?thesis
      using assms(1) by (simp add: prod_eq_iff)
  qed
  then show "sound (taken [b] m)" "same_layout m (taken [b] m)"
    "free_space (taken [b] m) = (fst (free_space m) - {slot_of b}, snd (free_space m))"
    "no_block_byte m x \<Longrightarrow> taken [b] m x = m x" by simp_all
qed

lemma taken:
  assumes "sound m" "blocks_ok m bs"
  shows "sound (taken bs m)" "same_layout m (taken bs m)"
    "free_space (taken bs m) = (fst (free_space m) - slots bs, snd (free_space m))"
    "no_block_byte m x \<Longrightarrow> taken bs m x = m x"
proof -
  have "sound (taken bs m) \<and> same_layout m (taken bs m) \<and>
      free_space (taken bs m) = (fst (free_space m) - slots bs, snd (free_space m)) \<and>
      (no_block_byte m x \<longrightarrow> taken bs m x = m x)"
    using assms
  proof (induction bs arbitrary: m)
    case Nil
    then show ?case by (simp add: slots_def)
  next
    case (Cons b bs)
    have ok: "block_ok m b" "blocks_ok m bs"
      using Cons.prems(2) by (simp_all add: blocks_ok_def)
    note step = taken_one [OF Cons.prems(1) ok(1)]
    have "blocks_ok (taken [b] m) bs"
      using ok(2) step(2) by (simp add: blocks_ok_def block_ok_layout)
    note rest = Cons.IH [OF step(1) this]
    have "taken (b # bs) m = taken bs (taken [b] m)" by simp
    then show ?case
      using rest step(2-4) same_layout_trans [OF step(2)] no_block_byte_layout [OF step(2), of x]
      by (auto simp: slots_def simp del: taken.simps)
  qed
  then show "sound (taken bs m)" "same_layout m (taken bs m)"
    "free_space (taken bs m) = (fst (free_space m) - slots bs, snd (free_space m))"
    "no_block_byte m x \<Longrightarrow> taken bs m x = m x" by simp_all
qed

lemma taken_append: "taken (xs @ ys) m = taken ys (taken xs m)"
  by (induction xs arbitrary: m) simp_all

lemma finite_free_space [simp]: "finite (fst (free_space m))"
  by (simp add: free_space_def)

lemma gain_taken:
  assumes "sound m" "blocks_ok m bs"
  shows "0 \<le> gain m (taken bs m)" "gain m (taken bs m) = 0 \<longleftrightarrow> slots bs \<inter> fst (free_space m) = {}"
proof -
  let ?F = "fst (free_space m)"
  have F: "fst (free_space (taken bs m)) = ?F - slots bs"
    by (simp add: taken(3) [OF assms])
  have le: "card (?F - slots bs) \<le> card ?F"
    by (rule card_mono) auto
  then show "0 \<le> gain m (taken bs m)"
    by (simp add: gain_def F)
  have "card (?F - slots bs) = card ?F \<longleftrightarrow> ?F - slots bs = ?F"
    using card_subset_eq [of ?F "?F - slots bs"] by auto
  then show "gain m (taken bs m) = 0 \<longleftrightarrow> slots bs \<inter> ?F = {}"
    by (auto simp: gain_def F)
qed

lemma fix_block_run:
  assumes "sound (disk s)" "block_ok (disk s) b"
  shows "fix_block b k s = (Ok (k + gain (disk s) (taken [b] (disk s))), s\<lparr>disk := taken [b] (disk s)\<rparr>)"
proof -
  let ?F = "fst (free_space (disk s))"
  note fs = soundD(1) [OF assms(1)]
  have "gain (disk s) (taken [b] (disk s)) = (if slot_of b \<in> ?F then 1 else 0)"
  proof (cases "slot_of b \<in> ?F")
    case True
    then have "card ?F = Suc (card (?F - {slot_of b}))"
      by (intro card.remove) simp_all
    with True show ?thesis
      by (simp only: gain_def taken_one(3) [OF assms] fst_conv) simp
  next
    case False
    then show ?thesis
      by (simp add: gain_def)
  qed
  then show ?thesis
    using in_use_run(1) [OF fs assms(2)] set_block_in_use_run [OF fs assms(2)]
    by (cases "slot_of b \<in> ?F") (simp_all add: fix_block_def bnd_run bnd_run_bool prog)
qed

lemma gain_trans: "gain m m' + gain m' m'' = gain m m''"
  by (simp add: gain_def)

text \<open>The words at \<open>a\<close>, without the zero ones.\<close>

definition numbers :: "memory \<Rightarrow> nat \<Rightarrow> nat \<Rightarrow> 32 word list" where
  "numbers m a n = filter (\<lambda>b. b \<noteq> 0) (map (\<lambda>i. get_le 4 m (a + 4 * i)) [0..<n])"

lemma numbers_Suc:
  "numbers m a (Suc n) = (if get_le 4 m a = (0 :: 32 word) then [] else [get_le 4 m a]) @ numbers m (a + 4) n"
proof -
  have "map (\<lambda>i. get_le 4 m (a + 4 * i)) [0..<Suc n] =
      (get_le 4 m a # map (\<lambda>i. get_le 4 m (a + 4 + 4 * i)) [0..<n] :: 32 word list)"
    by (rule nth_equalityI) (auto simp: nth_Cons' algebra_simps simp del: upt_Suc)
  then show ?thesis by (simp add: numbers_def)
qed

lemma numbers_same: "same_on a (a + 4 * n) m m' \<Longrightarrow> numbers m' a n = numbers m a n"
  unfolding numbers_def by (intro arg_cong [of _ _ "filter _"] map_cong refl same_on_get) auto

lemma numbers_taken:
  assumes "sound m" "blocks_ok m bs" "\<And>x. a \<le> x \<Longrightarrow> x < a + 4 * n \<Longrightarrow> no_block_byte m x"
  shows "numbers (taken bs m) a n = numbers m a n"
  by (rule numbers_same) (use taken(4) [OF assms(1,2)] assms(3) in \<open>simp add: same_on_def\<close>)

text \<open>One step of the two loops: the word at \<open>a\<close> is marked unless it is zero.\<close>

definition first_number :: "memory \<Rightarrow> nat \<Rightarrow> 32 word list" where
  "first_number m a = numbers m a 1"

lemma first_number:
  "numbers m a (Suc n) = first_number m a @ numbers m (a + 4) n"
  "first_number m a = (if get_le 4 m a = (0 :: 32 word) then [] else [get_le 4 m a])"
  by (simp_all only: first_number_def numbers_Suc One_nat_def) (simp_all add: numbers_def)

lemma fix_word_run:
  assumes "sound (disk s)" "blocks_ok (disk s) (first_number (disk s) a)"
  shows "bnd (if get_le 4 (disk s) a \<noteq> (0 :: 32 word) then fix_block (get_le 4 (disk s) a) k else ret k) f s =
    (let m' = taken (first_number (disk s) a) (disk s) in f (k + gain (disk s) m') (s\<lparr>disk := m'\<rparr>))"
  using fix_block_run [OF assms(1), of "get_le 4 (disk s) a" k] assms(2)
  by (simp add: first_number(2) blocks_ok_def prog bnd_run Let_def gain_def del: taken.simps(2))

lemma blocks_ok_append: "blocks_ok m (xs @ ys) \<longleftrightarrow> blocks_ok m xs \<and> blocks_ok m ys"
  by (auto simp: blocks_ok_def)

lemma blocks_ok_layout: "same_layout m m' \<Longrightarrow> blocks_ok m' bs = blocks_ok m bs"
  by (simp add: blocks_ok_def block_ok_layout)

lemma numbers_step:
  assumes "sound m" "blocks_ok m (numbers m a (Suc n))" "\<And>x. a + 4 \<le> x \<Longrightarrow> x < a + 4 + 4 * n \<Longrightarrow> no_block_byte m x"
  defines "m' \<equiv> taken (first_number m a) m"
  shows "blocks_ok m (first_number m a)" "sound m'" "same_layout m m'" "numbers m' (a + 4) n = numbers m (a + 4) n"
    "blocks_ok m' (numbers m' (a + 4) n)" "taken (numbers m a (Suc n)) m = taken (numbers m (a + 4) n) m'"
proof -
  have ok: "blocks_ok m (first_number m a)" "blocks_ok m (numbers m (a + 4) n)"
    using assms(2) by (simp_all add: first_number(1) blocks_ok_append)
  note step = taken [OF assms(1) ok(1), folded m'_def]
  show "blocks_ok m (first_number m a)" "sound m'" "same_layout m m'"
    by (fact ok(1) step)+
  show same: "numbers m' (a + 4) n = numbers m (a + 4) n"
    unfolding m'_def by (rule numbers_taken [OF assms(1) ok(1) assms(3)])
  show "blocks_ok m' (numbers m' (a + 4) n)"
    using ok(2) by (simp add: same blocks_ok_layout [OF step(2)])
  show "taken (numbers m a (Suc n)) m = taken (numbers m (a + 4) n) m'"
    by (simp add: first_number(1) taken_append m'_def)
qed

lemma fix_direct_run:
  assumes "sound (disk s)" "blocks_ok (disk s) (numbers (disk s) (i_block p j) n)" "i_block p j + 4 * n \<le> disk_size"
    and "\<And>x. i_block p j \<le> x \<Longrightarrow> x < i_block p j + 4 * n \<Longrightarrow> no_block_byte (disk s) x"
  shows "foldM [j..<j + n] (\<lambda>n k. bnd (ld32 (i_block p n)) (\<lambda>b. if b \<noteq> 0 then fix_block b k else ret k)) k s =
    (let m' = taken (numbers (disk s) (i_block p j) n) (disk s) in (Ok (k + gain (disk s) m'), s\<lparr>disk := m'\<rparr>))"
  using assms
proof (induction n arbitrary: j k s)
  case 0
  then show ?case by (simp add: prog numbers_def gain_def)
next
  case (Suc n)
  let ?m = "disk s" and ?a = "i_block p j"
  let ?m' = "taken (first_number ?m ?a) ?m"
  have step_index: "i_block p (Suc j) = ?a + 4"
    by (simp add: inode_fields)
  note step = numbers_step [OF Suc.prems(1,2), OF Suc.prems(4), simplified]
  have upt: "[j..<j + Suc n] = j # [Suc j..<Suc j + n]"
    by (simp add: upt_conv_Cons del: upt_Suc)
  have "foldM [Suc j..<Suc j + n] (\<lambda>n k. bnd (ld32 (i_block p n)) (\<lambda>b. if b \<noteq> 0 then fix_block b k else ret k))
      (k + gain ?m ?m') (s\<lparr>disk := ?m'\<rparr>) =
    (let m'' = taken (numbers ?m' (?a + 4) n) ?m' in (Ok (k + gain ?m ?m' + gain ?m' m''), s\<lparr>disk := m''\<rparr>))"
    using Suc.IH [of "s\<lparr>disk := ?m'\<rparr>" "Suc j" "k + gain ?m ?m'"] step Suc.prems(3,4) step_index
    by (simp add: no_block_byte_layout)
  moreover have "bnd (bnd (ld32 ?a) (\<lambda>b. if b \<noteq> 0 then fix_block b k else ret k)) f s =
      f (k + gain ?m ?m') (s\<lparr>disk := ?m'\<rparr>)" for f :: "int \<Rightarrow> (ext2, int) prog"
    using Suc.prems(3) fix_word_run [OF Suc.prems(1) step(1), of k f]
    by (simp add: bnd_assoc bnd_ld Let_def split del: if_split)
  ultimately show ?case
    using gain_trans [of ?m ?m' "taken (numbers ?m (?a + 4) n) ?m'"] step(4,6)
    unfolding upt foldM.simps by (simp add: Let_def del: upt_Suc)
qed

lemma fix_indirect_run:
  assumes "sound (disk s)" "blocks_ok (disk s) (numbers (disk s) a n)" "a + 4 * n + 4 \<le> disk_size"
    and "\<And>x. a \<le> x \<Longrightarrow> x < a + 4 * n + 4 \<Longrightarrow> no_block_byte (disk s) x"
  shows "fix_indirect n (a + 4) (get_le 4 (disk s) a) k s =
    (let m' = taken (numbers (disk s) a n) (disk s) in (Ok (k + gain (disk s) m'), s\<lparr>disk := m'\<rparr>))"
  using assms
proof (induction n arbitrary: a k s)
  case 0
  then show ?case by (simp add: prog numbers_def gain_def)
next
  case (Suc n)
  let ?m = "disk s"
  let ?m' = "taken (first_number ?m a) ?m"
  note step = numbers_step [OF Suc.prems(1,2), OF Suc.prems(4), simplified]
  have word: "get_le 4 ?m' (a + 4) = (get_le 4 ?m (a + 4) :: 32 word)"
    by (rule get_le_cong, rule taken(4) [OF Suc.prems(1) step(1)], rule Suc.prems(4)) simp_all
  have "fix_indirect n (a + 4 + 4) (get_le 4 ?m' (a + 4)) (k + gain ?m ?m') (s\<lparr>disk := ?m'\<rparr>) =
    (let m'' = taken (numbers ?m' (a + 4) n) ?m' in (Ok (k + gain ?m ?m' + gain ?m' m''), s\<lparr>disk := m''\<rparr>))"
    using Suc.IH [of "s\<lparr>disk := ?m'\<rparr>" "a + 4" "k + gain ?m ?m'"] step Suc.prems(3,4)
    by (simp add: no_block_byte_layout)
  with Suc.prems(3) step(4,6) word show ?case
    using gain_trans [of ?m ?m' "taken (numbers ?m (a + 4) n) ?m'"] 
    by (simp add: prog fix_word_run [OF Suc.prems(1) step(1)] Let_def del: bnd_if split del: if_split)
qed

text \<open>
  The blocks an inode points to, as the checker reads them: every direct pointer, the indirect block
  and the first 255 of its 256 words.
\<close>

definition pointed :: "memory \<Rightarrow> nat \<Rightarrow> 32 word list" where
  "pointed m p = numbers m (i_block p 0) 12 @ (let b = get_le 4 m (i_block p 12) in
     if b = 0 then [] else b # numbers m (block_start b) 255)"

lemma fix_data_run:
  assumes "sound (disk s)" "inode_ok (disk s) i"
    and "blocks_ok (disk s) (pointed (disk s) (inode_at (ino_tab (disk s)) i))"
  shows "fix_data_block_allocation i s =
    (let m' = taken (pointed (disk s) (inode_at (ino_tab (disk s)) i)) (disk s)
     in (Ok (gain (disk s) m'), s\<lparr>disk := m'\<rparr>))"
proof -
  let ?m = "disk s" and ?p = "inode_at (ino_tab (disk s)) i"
  let ?ds = "numbers ?m (i_block ?p 0) 12" and ?b = "get_le 4 ?m (i_block ?p 12) :: 32 word"
  let ?m1 = "taken ?ds ?m"
  note fs = soundD(1) [OF assms(1)]
  note at = inode_slot [OF fs assms(2)]
  have ds: "blocks_ok ?m ?ds"
    using assms(3) by (simp add: pointed_def blocks_ok_append)
  have spared: "no_block_byte ?m x" if "?p \<le> x" "x < ?p + 128" for x
    by (rule slot_byte [OF fs at(2)]) (use that at(1) in simp_all)
  have direct: "foldM [0..<12] (\<lambda>n k. bnd (ld32 (i_block ?p n)) (\<lambda>b. if b \<noteq> 0 then fix_block b k else ret k)) 0 s =
      (Ok (gain ?m ?m1), s\<lparr>disk := ?m1\<rparr>)"
    using fix_direct_run [OF assms(1), of ?p 0 12 0] ds at(3) spared by (simp add: Let_def inode_fields)
  then have direct_bnd: "bnd (foldM [0..<12] (\<lambda>n k. bnd (ld32 (i_block ?p n)) (\<lambda>b. if b \<noteq> 0 then fix_block b k else ret k)) 0) f s =
      f (gain ?m ?m1) (s\<lparr>disk := ?m1\<rparr>)" for f :: "int \<Rightarrow> (ext2, int) prog"
    by (simp only: bnd_def [of _ f] prod.case outcome.case)
  note one = taken [OF assms(1) ds]
  have word: "get_le 4 ?m1 (i_block ?p 12) = ?b"
    by (rule get_le_cong, rule one(4), rule spared) (auto simp: inode_fields)
  have range: "i_block ?p 12 + 4 \<le> disk_size"
    using at(3) by (simp add: inode_fields)
  show ?thesis
  proof (cases "?b = 0")
    case True
    then show ?thesis
      using word range
      by (simp only: fix_data_block_allocation_def get_inode_run direct_bnd) (simp add: prog pointed_def Let_def)
  next
    case False
    let ?m2 = "taken [?b] ?m1" and ?a = "block_start ?b"
    let ?ws = "numbers ?m ?a 255"
    have b: "block_ok ?m ?b" "blocks_ok ?m ?ws"
      using assms(3) False by (simp_all add: pointed_def Let_def blocks_ok_def)
    have b1: "block_ok ?m1 ?b" "blocks_ok ?m1 ?ws"
      using b block_ok_layout [OF one(2)] blocks_ok_layout [OF one(2)] by simp_all
    have data: "no_block_byte ?m x" if "?a \<le> x" "x < ?a + 1024" for x
      by (rule data_no_block_byte [OF block_data_byte [OF b(1) that]])
    have ws1: "numbers ?m1 ?a 255 = ?ws"
      by (rule numbers_taken [OF assms(1) ds]) (use data in simp)
    have data1: "no_block_byte ?m1 x" if "?a \<le> x" "x < ?a + 1024" for x
      using data [OF that] no_block_byte_layout [OF one(2)] by simp
    note two = taken_one [OF one(1) b1(1)]
    have same: "no_block_byte ?m2 x = no_block_byte ?m1 x" for x
      by (rule no_block_byte_layout [OF two(2)])
    have ws2: "numbers ?m2 ?a 255 = ?ws"
      unfolding ws1 [symmetric]
      by (rule numbers_same) (use two(4) data1 in \<open>simp add: same_on_def del: taken.simps\<close>)
    have b2: "blocks_ok ?m2 ?ws"
      using b1(2) blocks_ok_layout [OF two(2)] by simp
    have "fix_indirect 255 (?a + 4) (get_le 4 ?m2 ?a) (gain ?m ?m1 + gain ?m1 ?m2) (s\<lparr>disk := ?m2\<rparr>) =
        (let m' = taken ?ws ?m2 in (Ok (gain ?m ?m1 + gain ?m1 ?m2 + gain ?m2 m'), s\<lparr>disk := m'\<rparr>))"
      using fix_indirect_run [of "s\<lparr>disk := ?m2\<rparr>" ?a 255 "gain ?m ?m1 + gain ?m1 ?m2"]
        two(1) b2 ws2 same data1 block_region(5) [OF b(1)] by (simp del: taken.simps)
    then have "fix_indirect 255 (?a + 4) (get_le 4 ?m2 ?a) (gain ?m ?m1 + gain ?m1 ?m2) (s\<lparr>disk := ?m2\<rparr>) =
        (let m' = taken ?ws ?m2 in (Ok (gain ?m m'), s\<lparr>disk := m'\<rparr>))"
      by (simp only: gain_trans)
    moreover have "fix_block ?b (gain ?m ?m1) (s\<lparr>disk := ?m1\<rparr>) =
        (Ok (gain ?m ?m1 + gain ?m1 ?m2), s\<lparr>disk := ?m2\<rparr>)"
      using fix_block_run [of "s\<lparr>disk := ?m1\<rparr>" ?b "gain ?m ?m1"] one(1) b1(1) by simp
    moreover have "taken (pointed ?m ?p) ?m = taken ?ws ?m2"
      using False by (simp add: pointed_def Let_def taken_append)
    ultimately show ?thesis
      using word range False block_region(5) [OF b(1)]
      by (simp only: fix_data_block_allocation_def get_inode_run direct_bnd)
        (simp add: prog bnd_run Let_def max_indirect_blocks_def EXT2_BLOCK_SIZE_def del: taken.simps)
  qed
qed

end
