(* ===== verification/Mend.thy ===== *)
theory Mend
  imports Repair
begin

text \<open>
  What the repairs of directory entries in \<open>ext2_checker\<close> keep.  \<open>mends\<close> relates two images of which
  the second has been repaired at some of the entries \<open>E\<close>: it keeps everything the walk over the
  tree reads, and never undoes a repair.
\<close>

section \<open>Entries and their inodes\<close>

definition ptr :: "memory \<Rightarrow> nat \<Rightarrow> nat" where
  "ptr m e = inode_at (ino_tab m) (inode_of m e)"

definition expected_type :: "memory \<Rightarrow> nat \<Rightarrow> byte" where
  "expected_type m e = dir_entry_file_type (get_le 2 m (i_mode (ptr m e)))"

text \<open>An entry with which the checker finds no fault.\<close>

definition entry_ok :: "memory \<Rightarrow> nat \<Rightarrow> bool" where
  "entry_ok m e \<longleftrightarrow> m (de_file_type e) = expected_type m e \<and> slot_of (inode_of m e) \<notin> snd (free_space m) \<and>
     get_le 4 m (i_dtime (ptr m e)) = (0 :: 32 word) \<and> slots (pointed m (ptr m e)) \<inter> fst (free_space m) = {}"

text \<open>The blocks of the directories among the entries \<open>E\<close>.\<close>

definition dir_area :: "memory \<Rightarrow> nat set \<Rightarrow> 32 word set" where
  "dir_area m E = (\<Union>e \<in> E. if expected_type m e = EXT2_FT_DIR then set (dir_blocks m (ptr m e)) else {})"

definition block_list :: "memory \<Rightarrow> 32 word \<Rightarrow> nat list" where
  "block_list m b = the (block_records m b)"

text \<open>
  The entries \<open>E\<close> lie in the blocks of their directories; their inodes exist, and point to blocks of
  the disk; the blocks of the directories are tiled by records, and none is an indirect block.
\<close>

definition checkable :: "memory \<Rightarrow> nat set \<Rightarrow> bool" where
  "checkable m E \<longleftrightarrow>
     (\<forall>e \<in> E. (\<exists>b \<in> dir_area m E. e \<in> set (block_list m b)) \<and> m (de_name_len e) \<noteq> 0 \<and> inode_ok m (inode_of m e) \<and>
        blocks_ok m (pointed m (ptr m e)) \<and> get_le 4 m (i_block (ptr m e) 12) \<notin> dir_area m E) \<and>
     (\<forall>b \<in> dir_area m E. block_ok m b \<and> block_records m b \<noteq> None)"

definition dtime_byte :: "memory \<Rightarrow> nat \<Rightarrow> bool" where
  "dtime_byte m x \<longleftrightarrow> (\<exists>j < n_inodes m. i_dtime (ino_tab m + 128 * j) \<le> x \<and> x < i_dtime (ino_tab m + 128 * j) + 4)"

definition mends :: "nat set \<Rightarrow> memory \<Rightarrow> memory \<Rightarrow> bool" where
  "mends E m m' \<longleftrightarrow> sound m' \<and> same_layout m m' \<and>
     fst (free_space m') \<subseteq> fst (free_space m) \<and> snd (free_space m') \<subseteq> snd (free_space m) \<and>
     (\<forall>x. plain_byte m x \<longrightarrow> x \<notin> de_file_type ` E \<longrightarrow> \<not> dtime_byte m x \<longrightarrow> m' x = m x) \<and>
     (\<forall>e \<in> E. m' (de_file_type e) \<in> {m (de_file_type e), expected_type m e}) \<and>
     (\<forall>j < n_inodes m. get_le 4 m' (i_dtime (ino_tab m + 128 * j)) \<in>
        {get_le 4 m (i_dtime (ino_tab m + 128 * j)), 0 :: 32 word})"

lemma checkableD:
  assumes "checkable m E"
  shows "e \<in> E \<Longrightarrow> \<exists>b \<in> dir_area m E. e \<in> set (block_list m b)"
    "e \<in> E \<Longrightarrow> m (de_name_len e) \<noteq> 0" "e \<in> E \<Longrightarrow> inode_ok m (inode_of m e)" "e \<in> E \<Longrightarrow> blocks_ok m (pointed m (ptr m e))"
    "e \<in> E \<Longrightarrow> get_le 4 m (i_block (ptr m e) 12) \<notin> dir_area m E"
    "b \<in> dir_area m E \<Longrightarrow> block_ok m b" "b \<in> dir_area m E \<Longrightarrow> block_records m b = Some (block_list m b)"
  using assms by (auto simp: checkable_def block_list_def)

lemma mendsD:
  assumes "mends E m m'"
  shows "sound m'" "same_layout m m'" "fst (free_space m') \<subseteq> fst (free_space m)" "snd (free_space m') \<subseteq> snd (free_space m)"
    "\<And>x. plain_byte m x \<Longrightarrow> x \<notin> de_file_type ` E \<Longrightarrow> \<not> dtime_byte m x \<Longrightarrow> m' x = m x"
    "\<And>e. e \<in> E \<Longrightarrow> m' (de_file_type e) = m (de_file_type e) \<or> m' (de_file_type e) = expected_type m e"
    "\<And>j. j < n_inodes m \<Longrightarrow> get_le 4 m' (i_dtime (ino_tab m + 128 * j)) = (get_le 4 m (i_dtime (ino_tab m + 128 * j)) :: 32 word) \<or>
      get_le 4 m' (i_dtime (ino_tab m + 128 * j)) = (0 :: 32 word)"
  using assms unfolding mends_def by blast+

lemma mends_refl: "sound m \<Longrightarrow> mends E m m"
  by (simp add: mends_def)

section \<open>What is kept\<close>

lemma block_record_range:
  assumes "checkable m E" "b \<in> dir_area m E" "r \<in> set (block_list m b)"
  shows "block_start b \<le> r" "r + rec_len_at m r \<le> block_start b + 1024" "8 + unat (m (de_name_len r)) \<le> rec_len_at m r"
  using records_range [OF checkableD(7) [OF assms(1,2), unfolded block_records_def] assms(3)] by simp_all

text \<open>A type byte is no other byte of a record and lies in no block but those of directories.\<close>

lemma type_byte_place:
  assumes "checkable m E" "x \<in> de_file_type ` E"
  shows "\<exists>b \<in> dir_area m E. \<exists>e \<in> set (block_list m b). x = de_file_type e \<and> block_start b \<le> x \<and> x < block_start b + 1024"
proof -
  obtain e where e: "e \<in> E" "x = de_file_type e"
    using assms(2) by auto
  obtain b where b: "b \<in> dir_area m E" "e \<in> set (block_list m b)"
    using checkableD(1) [OF assms(1) e(1)] by auto
  then show ?thesis
    using block_record_range [OF assms(1) b] e(2) by (intro bexI [of _ b] bexI [of _ e]) (auto simp: entry_fields)
qed

lemma no_type_byte:
  assumes "checkable m E" "b \<in> dir_area m E" "r \<in> set (block_list m b)" "r \<le> x" "x < r + rec_len_at m r" "x \<noteq> de_file_type r"
  shows "x \<notin> de_file_type ` E"
proof
  assume "x \<in> de_file_type ` E"
  then obtain c e where c: "c \<in> dir_area m E" "e \<in> set (block_list m c)" "x = de_file_type e"
      "block_start c \<le> x" "x < block_start c + 1024"
    using type_byte_place [OF assms(1)] by blast
  note range = block_record_range [OF assms(1-3)]
  have "c = b"
    by (rule block_disjoint [OF checkableD(6) [OF assms(1,2)] checkableD(6) [OF assms(1) c(1)]])
      (use range assms(4,5) c(4,5) in auto)
  then have "r + rec_len_at m r \<le> e \<or> e + rec_len_at m e \<le> r"
    using records_apart [OF checkableD(7) [OF assms(1,2), unfolded block_records_def] assms(3), of e] c(2,3) assms(6) by auto
  moreover have "8 \<le> rec_len_at m e"
    using block_record_range(3) [OF assms(1) c(1,2)] by simp
  ultimately show False
    using assms(4,5) c(3) by (auto simp: entry_fields)
qed

lemma data_plain: "data_byte m x \<Longrightarrow> plain_byte m x \<and> \<not> dtime_byte m x"
proof -
  assume data: "data_byte m x"
  have "plain_byte m x"
    using data data_no_block_byte [OF data] by (auto simp: plain_byte_def data_byte_def)
  moreover have "\<not> dtime_byte m x"
  proof
    assume "dtime_byte m x"
    then obtain j where j: "j < n_inodes m" "ino_tab m + 128 * j + 20 \<le> x" "x < ino_tab m + 128 * j + 24"
      by (auto simp: dtime_byte_def inode_fields)
    then have "128 * j + 128 \<le> 128 * n_inodes m" by simp
    then show False
      using data j by (auto simp: data_byte_def)
  qed
  ultimately show ?thesis by simp
qed

lemma mends_data:
  assumes "mends E m m'" "data_byte m x" "x \<notin> de_file_type ` E"
  shows "m' x = m x"
  using mendsD(5) [OF assms(1)] assms(3) data_plain [OF assms(2)] by blast

text \<open>The bytes of a record but its type.\<close>

lemma mends_record:
  assumes "checkable m E" "mends E m m'" "b \<in> dir_area m E" "r \<in> set (block_list m b)"
  shows "\<And>x. r \<le> x \<Longrightarrow> x < r + rec_len_at m r \<Longrightarrow> x \<noteq> de_file_type r \<Longrightarrow> m' x = m x"
    "inode_of m' r = inode_of m r" "rec_len_at m' r = rec_len_at m r" "m' (de_name_len r) = m (de_name_len r)"
proof -
  note range = block_record_range [OF assms(1,3,4)]
  show same: "m' x = m x" if "r \<le> x" "x < r + rec_len_at m r" "x \<noteq> de_file_type r" for x
    by (rule mends_data [OF assms(2)], rule block_data_byte [OF checkableD(6) [OF assms(1,3)]])
      (use range that no_type_byte [OF assms(1,3,4) that] in auto)
  show "inode_of m' r = inode_of m r"
    unfolding inode_of_def by (rule get_le_cong, rule same) (use range in \<open>auto simp: entry_fields\<close>)
  show "rec_len_at m' r = rec_len_at m r"
    unfolding rec_len_at_def by (intro arg_cong [of _ _ unat] get_le_cong same) (use range in \<open>auto simp: entry_fields\<close>)
  show "m' (de_name_len r) = m (de_name_len r)"
    by (rule same) (use range in \<open>auto simp: entry_fields\<close>)
qed

lemma records_cong:
  assumes "records m pos stop = Some ps"
    and "\<And>r. r \<in> set ps \<Longrightarrow> rec_len_at m' r = rec_len_at m r \<and> m' (de_name_len r) = m (de_name_len r)"
  shows "records m' pos stop = Some ps"
  using assms
proof (induction m pos stop arbitrary: ps rule: records.induct)
  case (1 m pos stop)
  show ?case
  proof (cases "pos = stop")
    case True
    with 1(2) show ?thesis by (simp add: records_refl)
  next
    case False
    then obtain qs where fits: "pos + rec_len_at m pos \<le> stop" "8 + unat (m (de_name_len pos)) \<le> rec_len_at m pos"
        and qs: "ps = pos # qs" "records m (pos + rec_len_at m pos) stop = Some qs"
      using records_Some_Cons [OF 1(2)] by auto
    have "records m' (pos + rec_len_at m pos) stop = Some qs"
      by (rule 1(1)) (use False fits qs 1(3) in simp_all)
    then show ?thesis
      using records_step [of pos m' stop qs] 1(3) [of pos] fits qs(1) by simp
  qed
qed

lemma mends_block:
  assumes "checkable m E" "mends E m m'" "b \<in> dir_area m E"
  shows "block_records m' b = block_records m b" "block_list m' b = block_list m b"
proof -
  show "block_records m' b = block_records m b"
    using records_cong [OF checkableD(7) [OF assms(1,3), unfolded block_records_def], of m']
      mends_record(3,4) [OF assms] checkableD(7) [OF assms(1,3)] by (simp add: block_records_def)
  then show "block_list m' b = block_list m b"
    by (simp add: block_list_def)
qed

lemma mends_inode:
  assumes "checkable m E" "fs_ok m" "mends E m m'" "inode_ok m i"
    and "inode_at (ino_tab m) i \<le> x" "x < inode_at (ino_tab m) i + 128"
    and "x < i_dtime (inode_at (ino_tab m) i) \<or> i_dtime (inode_at (ino_tab m) i) + 4 \<le> x"
  shows "m' x = m x"
proof -
  note fs = assms(2)
  note at = inode_slot [OF fs assms(4)]
  have slot: "ino_tab m + 128 * slot_of i \<le> x" "x < ino_tab m + 128 * slot_of i + 128"
    using assms(5,6) at(1) by simp_all
  have "plain_byte m x"
    by (rule slot_plain_byte [OF fs at(2) slot])
  moreover have "x \<notin> de_file_type ` E"
  proof
    assume "x \<in> de_file_type ` E"
    then obtain b where b: "b \<in> dir_area m E" "block_start b \<le> x" "x < block_start b + 1024"
      using type_byte_place [OF assms(1)] by blast
    have "data_byte m x"
      by (rule block_data_byte [OF checkableD(6) [OF assms(1) b(1)] b(2,3)])
    then show False
      using slot_no_data [OF fs at(2) slot] by simp
  qed
  moreover have "\<not> dtime_byte m x"
  proof
    assume "dtime_byte m x"
    then obtain j where "ino_tab m + 128 * j + 20 \<le> x" "x < ino_tab m + 128 * j + 24"
      by (auto simp: dtime_byte_def inode_fields)
    moreover from this have "j = slot_of i"
      using slot by simp
    ultimately show False
      using assms(7) at(1) by (simp add: inode_fields)
  qed
  ultimately show ?thesis
    by (rule mendsD(5) [OF assms(3)])
qed

text \<open>The indirect block of an inode.\<close>

lemma mends_indirect:
  fixes b :: "32 word"
  assumes "checkable m E" "fs_ok m" "mends E m m'" "e \<in> E" "b = get_le 4 m (i_block (ptr m e) 12)" "b \<noteq> 0"
    and x: "block_start b \<le> x" "x < block_start b + 1024"
  shows "m' x = m x"
proof -
  have ok: "block_ok m b"
    using checkableD(4) [OF assms(1,4)] assms(5,6) by (simp add: pointed_def Let_def blocks_ok_def)
  have "x \<notin> de_file_type ` E"
  proof
    assume "x \<in> de_file_type ` E"
    then obtain c where c: "c \<in> dir_area m E" "block_start c \<le> x" "x < block_start c + 1024"
      using type_byte_place [OF assms(1)] by blast
    then have "c = b"
      using x by (intro block_disjoint [OF ok checkableD(6) [OF assms(1) c(1)]]) simp_all
    then show False
      using c(1) checkableD(5) [OF assms(1,4)] assms(5) by simp
  qed
  moreover have "data_byte m x"
    by (rule block_data_byte [OF ok x])
  ultimately show ?thesis
    by (intro mends_data [OF assms(3)])
qed

lemma mends_entry:
  assumes "checkable m E" "fs_ok m" "mends E m m'" "e \<in> E"
  shows "inode_of m' e = inode_of m e" "ptr m' e = ptr m e" "expected_type m' e = expected_type m e"
    "dir_blocks m' (ptr m e) = dir_blocks m (ptr m e)" "pointed m' (ptr m e) = pointed m (ptr m e)"
    "get_le 4 m' (i_block (ptr m e) 12) = (get_le 4 m (i_block (ptr m e) 12) :: 32 word)"
    "m' (de_name_len e) = m (de_name_len e)" "m' (de_name e) = m (de_name e)" "name_at m' e = name_at m e"
proof -
  let ?p = "ptr m e"
  obtain b where b: "b \<in> dir_area m E" "e \<in> set (block_list m b)"
    using checkableD(1) [OF assms(1,4)] by blast
  note rec = mends_record [OF assms(1,3) b]
  have "0 < unat (m (de_name_len e))"
    using checkableD(2) [OF assms(1,4)] by (simp add: unat_gt_0)
  then have "9 \<le> rec_len_at m e"
    using block_record_range(3) [OF assms(1) b] by simp
  then show "m' (de_name e) = m (de_name e)"
    by (intro rec(1)) (auto simp: entry_fields)
  show ino: "inode_of m' e = inode_of m e" and len: "m' (de_name_len e) = m (de_name_len e)"
    by (fact rec)+
  have "get_bytes m' (de_name e) (unat (m (de_name_len e))) = get_bytes m (de_name e) (unat (m (de_name_len e)))"
    by (rule get_bytes_cong, rule rec(1)) (use block_record_range(3) [OF assms(1) b] in \<open>auto simp: entry_fields\<close>)
  then show "name_at m' e = name_at m e"
    by (simp add: name_at_def len)
  show ptr: "ptr m' e = ?p"
    using ino mendsD(2) [OF assms(3)] by (simp add: ptr_def same_layout_def)
  have same: "m' x = m x" if "?p \<le> x" "x < ?p + 128" "x < ?p + 20 \<or> ?p + 24 \<le> x" for x
    by (rule mends_inode [OF assms(1-3) checkableD(3) [OF assms(1,4)]])
      (use that in \<open>auto simp: ptr_def inode_fields\<close>)
  have "get_le 2 m' (i_mode ?p) = (get_le 2 m (i_mode ?p) :: 16 word)"
    by (intro get_le_cong same) (auto simp: inode_fields)
  then show "expected_type m' e = expected_type m e"
    by (simp add: expected_type_def ptr)
  show "dir_blocks m' ?p = dir_blocks m ?p"
    by (rule dir_blocks_same) (use same in \<open>simp add: same_on_def\<close>)
  show ind: "get_le 4 m' (i_block ?p 12) = (get_le 4 m (i_block ?p 12) :: 32 word)"
    by (intro get_le_cong same) (auto simp: inode_fields)
  have direct: "numbers m' (i_block ?p 0) 12 = numbers m (i_block ?p 0) 12"
    by (rule numbers_same) (use same in \<open>simp add: same_on_def inode_fields\<close>)
  have "numbers m' (block_start b) 255 = numbers m (block_start b) 255"
    if "b = get_le 4 m (i_block ?p 12)" "b \<noteq> 0" for b :: "32 word"
    by (rule numbers_same, unfold same_on_def, intro allI impI)
      (use mends_indirect [OF assms _ _ _ _] that in auto)
  then show "pointed m' ?p = pointed m ?p"
    by (simp add: pointed_def direct ind Let_def)
qed

lemma mends_area:
  assumes "checkable m E" "fs_ok m" "mends E m m'" "D \<subseteq> E"
  shows "dir_area m' D = dir_area m D"
  unfolding dir_area_def
  by (intro SUP_cong refl) (use mends_entry [OF assms(1-3)] assms(4) in auto)

lemma mends_checkable:
  assumes "checkable m E" "fs_ok m" "mends E m m'"
  shows "checkable m' E"
proof -
  have layout: "same_layout m m'"
    using assms(3) by (simp add: mends_def)
  have ok: "inode_ok m' i = inode_ok m i" "blocks_ok m' bs = blocks_ok m bs" "block_ok m' b = block_ok m b" for i bs b
    using layout blocks_ok_layout [OF layout] block_ok_layout [OF layout]
    by (simp_all add: inode_ok_def same_layout_def)
  note area = mends_area [OF assms subset_refl]
  have entry: "(\<exists>b \<in> dir_area m E. e \<in> set (block_list m' b)) \<and> m' (de_name_len e) \<noteq> 0 \<and> inode_ok m (inode_of m' e) \<and>
      blocks_ok m (pointed m' (ptr m' e)) \<and> get_le 4 m' (i_block (ptr m' e) 12) \<notin> dir_area m E" if e: "e \<in> E" for e
  proof -
    obtain b where b: "b \<in> dir_area m E" "e \<in> set (block_list m b)"
      using checkableD(1) [OF assms(1) e] by blast
    then have "\<exists>b \<in> dir_area m E. e \<in> set (block_list m' b)"
      using mends_block(2) [OF assms(1,3)] by auto
    then show ?thesis
      using mends_entry [OF assms e] checkableD(2-5) [OF assms(1) e] by (simp only: not_False_eq_True simp_thms)
  qed
  have "block_ok m b \<and> block_records m' b \<noteq> None" if "b \<in> dir_area m E" for b
    using mends_block(1) [OF assms(1,3) that] checkableD(6,7) [OF assms(1) that] by simp
  with entry show ?thesis
    unfolding checkable_def area ok by blast
qed

lemma mends_trans:
  assumes "checkable m E" "fs_ok m" "mends E m m'" "mends E m' m''"
  shows "mends E m m''"
proof -
  have layout: "same_layout m m'"
    using assms(3) by (simp add: mends_def)
  then have same: "plain_byte m' x = plain_byte m x" "dtime_byte m' x = dtime_byte m x" "n_inodes m' = n_inodes m"
      "ino_tab m' = ino_tab m" for x
    using plain_byte_layout [OF layout] by (simp_all add: dtime_byte_def same_layout_def)
  note first = mendsD [OF assms(3)] and second = mendsD [OF assms(4), unfolded same]
  show ?thesis
    unfolding mends_def
  proof (intro conjI ballI allI impI)
    show "sound m''" "same_layout m m''"
      using second(1) same_layout_trans [OF first(2) second(2)] by blast+
    show "fst (free_space m'') \<subseteq> fst (free_space m)" "snd (free_space m'') \<subseteq> snd (free_space m)"
      using first(3,4) second(3,4) by blast+
    show "m'' x = m x" if "plain_byte m x" "x \<notin> de_file_type ` E" "\<not> dtime_byte m x" for x
      using first(5) [OF that] second(5) [OF that] by simp
    show "m'' (de_file_type e) \<in> {m (de_file_type e), expected_type m e}" if e: "e \<in> E" for e
      using first(6) [OF e] second(6) [OF e] mends_entry(3) [OF assms(1-3) e] by auto
    show "get_le 4 m'' (i_dtime (ino_tab m + 128 * j)) \<in> {get_le 4 m (i_dtime (ino_tab m + 128 * j)), 0 :: 32 word}"
      if j: "j < n_inodes m" for j
      using first(7) [OF j] second(7) [OF j] by auto
  qed
qed

lemma mends_entry_ok:
  assumes "checkable m E" "fs_ok m" "mends E m m'" "e \<in> E" "entry_ok m e"
  shows "entry_ok m' e"
proof -
  note same = mends_entry [OF assms(1-4)]
  have at: "ptr m e = ino_tab m + 128 * slot_of (inode_of m e)" "slot_of (inode_of m e) < n_inodes m"
    using inode_slot [OF assms(2) checkableD(3) [OF assms(1,4)]] by (simp_all add: ptr_def)
  note kept = mendsD [OF assms(3)]
  note ok = assms(5) [unfolded entry_ok_def]
  have "get_le 4 m' (i_dtime (ptr m e)) = (0 :: 32 word)" "m' (de_file_type e) = expected_type m e"
    using kept(6) [OF assms(4)] kept(7) [OF at(2)] ok at(1) by auto
  then show ?thesis
    unfolding entry_ok_def same using ok kept(3,4) same(5) by (simp only: same(2)) blast
qed

end
