(* ===== verification/Consistency.thy ===== *)
theory Consistency
  imports Mend
begin

text \<open>
  \<open>ext2_checker\<close> as a whole: it visits the entries of the directory tree, repairs each, and adds up
  the repairs.  The repairs are ordered (locale \<open>repair_order\<close>): a later one keeps what an earlier
  one has established, so that the total is 0 exactly when there was nothing to repair.
\<close>

section \<open>Sequences of repairs\<close>

text \<open>
  \<open>passes good le Q f\<close>: from a good image, \<open>f\<close> adds to its argument a number that is 0 if and only
  if \<open>Q\<close> held already, and then changes nothing; it leaves a later image in which \<open>Q\<close> holds.
\<close>

definition passes :: "(memory \<Rightarrow> bool) \<Rightarrow> (memory \<Rightarrow> memory \<Rightarrow> bool) \<Rightarrow> (memory \<Rightarrow> bool) \<Rightarrow>
    (int \<Rightarrow> (ext2, int) prog) \<Rightarrow> bool" where
  "passes good le Q f \<longleftrightarrow> (\<forall>s k. good (disk s) \<longrightarrow> (\<exists>n t. f k s = (Ok (k + n), t) \<and> 0 \<le> n \<and> le (disk s) (disk t) \<and>
     (n = 0 \<longleftrightarrow> Q (disk s)) \<and> (n = 0 \<longrightarrow> t = s) \<and> Q (disk t)))"

definition stable :: "(memory \<Rightarrow> bool) \<Rightarrow> (memory \<Rightarrow> memory \<Rightarrow> bool) \<Rightarrow> (memory \<Rightarrow> bool) \<Rightarrow> bool" where
  "stable good le Q \<longleftrightarrow> (\<forall>m m'. good m \<longrightarrow> le m m' \<longrightarrow> Q m \<longrightarrow> Q m')"

definition adds :: "(ext2, int) prog \<Rightarrow> int \<Rightarrow> (ext2, int) prog" where
  "adds f k = bnd f (\<lambda>n. ret (k + n))"

lemma passesE:
  assumes "passes good le Q f" "good (disk s)"
  obtains n t where "f k s = (Ok (k + n), t)" "0 \<le> n" "le (disk s) (disk t)" "n = 0 \<longleftrightarrow> Q (disk s)"
    "n = 0 \<Longrightarrow> t = s" "Q (disk t)"
  using assms unfolding passes_def by blast

lemma passes_cong:
  assumes "passes good le Q f" "\<And>s k. good (disk s) \<Longrightarrow> f' k s = f k s" "\<And>m. good m \<Longrightarrow> Q' m \<longleftrightarrow> Q m"
    and "\<And>m m'. good m \<Longrightarrow> le m m' \<Longrightarrow> good m'"
  shows "passes good le Q' f'"
  unfolding passes_def
proof (intro allI impI)
  fix s :: ext2 and k :: int assume s: "good (disk s)"
  obtain n t where "f k s = (Ok (k + n), t)" "0 \<le> n" "le (disk s) (disk t)" "n = 0 \<longleftrightarrow> Q (disk s)"
      "n = 0 \<Longrightarrow> t = s" "Q (disk t)"
    using passesE [OF assms(1) s] by blast
  then show "\<exists>n t. f' k s = (Ok (k + n), t) \<and> 0 \<le> n \<and> le (disk s) (disk t) \<and> (n = 0 \<longleftrightarrow> Q' (disk s)) \<and>
      (n = 0 \<longrightarrow> t = s) \<and> Q' (disk t)"
    using s assms(2-4) by (intro exI [of _ n] exI [of _ t]) auto
qed

lemma passes_adds:
  assumes "\<And>s. good (disk s) \<Longrightarrow> \<exists>n t. f s = (Ok n, t) \<and> 0 \<le> n \<and> le (disk s) (disk t) \<and>
    (n = 0 \<longleftrightarrow> Q (disk s)) \<and> (n = 0 \<longrightarrow> t = s) \<and> Q (disk t)"
  shows "passes good le Q (adds f)"
  unfolding passes_def
proof (intro allI impI)
  fix s :: ext2 and k :: int assume "good (disk s)"
  from assms [OF this] obtain n t where "f s = (Ok n, t)" "0 \<le> n \<and> le (disk s) (disk t) \<and>
      (n = 0 \<longleftrightarrow> Q (disk s)) \<and> (n = 0 \<longrightarrow> t = s) \<and> Q (disk t)" by blast
  then show "\<exists>n t. adds f k s = (Ok (k + n), t) \<and> 0 \<le> n \<and> le (disk s) (disk t) \<and> (n = 0 \<longleftrightarrow> Q (disk s)) \<and>
      (n = 0 \<longrightarrow> t = s) \<and> Q (disk t)"
    by (intro exI [of _ n] exI [of _ t]) (simp add: adds_def bnd_def ret_def)
qed

locale repair_order =
  fixes good :: "memory \<Rightarrow> bool" and le :: "memory \<Rightarrow> memory \<Rightarrow> bool"
  assumes refl: "good m \<Longrightarrow> le m m"
    and trans: "good m \<Longrightarrow> le m m' \<Longrightarrow> le m' m'' \<Longrightarrow> le m m''"
    and keeps: "good m \<Longrightarrow> le m m' \<Longrightarrow> good m'"
begin

lemma skip: "passes good le (\<lambda>_. True) ret"
  by (auto simp: passes_def ret_def intro: refl exI [of _ 0])

lemma seq:
  assumes "stable good le Q" "passes good le Q f" "passes (\<lambda>m. good m \<and> Q m) le R g"
  shows "passes good le (\<lambda>m. Q m \<and> R m) (\<lambda>k. bnd (f k) g)"
  unfolding passes_def
proof (intro allI impI)
  fix s :: ext2 and k :: int assume s: "good (disk s)"
  obtain n t where f: "f k s = (Ok (k + n), t)" "0 \<le> n" "le (disk s) (disk t)" "n = 0 \<longleftrightarrow> Q (disk s)"
      "n = 0 \<Longrightarrow> t = s" "Q (disk t)"
    using passesE [OF assms(2) s] by blast
  have t: "good (disk t)" by (rule keeps [OF s f(3)])
  obtain n' u where g: "g (k + n) t = (Ok (k + n + n'), u)" "0 \<le> n'" "le (disk t) (disk u)" "n' = 0 \<longleftrightarrow> R (disk t)"
      "n' = 0 \<Longrightarrow> u = t" "R (disk u)"
    using passesE [OF assms(3), of t] t f(6) by blast
  have "n + n' = 0 \<longleftrightarrow> Q (disk s) \<and> R (disk s)"
    using f(2,4,5) g(2,4) by (cases "n = 0") auto
  moreover have "u = s" if "n + n' = 0"
  proof -
    have "n = 0" "n' = 0" using that f(2) g(2) by simp_all
    then show ?thesis using f(5) g(5) by simp
  qed
  moreover have "Q (disk u)"
    using assms(1) t g(3) f(6) by (auto simp: stable_def)
  ultimately show "\<exists>n u. bnd (f k) g s = (Ok (k + n), u) \<and> 0 \<le> n \<and> le (disk s) (disk u) \<and>
      (n = 0 \<longleftrightarrow> Q (disk s) \<and> R (disk s)) \<and> (n = 0 \<longrightarrow> u = s) \<and> Q (disk u) \<and> R (disk u)"
    using f(1,2) g(1,2,6) trans [OF s f(3) g(3)]
    by (intro exI [of _ "n + n'"] exI [of _ u]) (simp add: bnd_def add.assoc)
qed

lemma seq_any:
  "stable good le Q \<Longrightarrow> passes good le Q f \<Longrightarrow> passes good le R g \<Longrightarrow> passes good le (\<lambda>m. Q m \<and> R m) (\<lambda>k. bnd (f k) g)"
  by (rule seq) (auto simp: passes_def)

lemma stable_all: "(\<And>x. x \<in> A \<Longrightarrow> stable good le (Q x)) \<Longrightarrow> stable good le (\<lambda>m. \<forall>x \<in> A. Q x m)"
  by (auto simp: stable_def)

end

text \<open>The order of the repairs of the entries \<open>E\<close> of the image \<open>m\<close>.\<close>

definition mending :: "memory \<Rightarrow> nat set \<Rightarrow> memory \<Rightarrow> bool" where
  "mending m E m' \<longleftrightarrow> fs_ok m \<and> checkable m E \<and> mends E m m'"

lemma mendingD:
  assumes "mending m E m'"
  shows "sound m'" "fs_ok m'" "checkable m' E" "fs_ok m" "checkable m E" "mends E m m'" "same_layout m m'"
  using assms mendsD(1,2) [of E m m'] mends_checkable [of m E m'] soundD(1) by (auto simp: mending_def)

interpretation mend: repair_order "mending m E" "mends E" for m E
  by unfold_locales
    (auto simp: mending_def intro: mends_refl mends_trans dest: mendsD(1)
      intro: mends_trans [OF mends_checkable [of m E] soundD(1)])

section \<open>The repairs of one entry\<close>

text \<open>The four faults of an entry; \<open>entry_ok\<close> is their absence.\<close>

definition typed :: "nat \<Rightarrow> memory \<Rightarrow> bool" where
  "typed e m \<longleftrightarrow> m (de_file_type e) = expected_type m e"

definition counted_in :: "nat \<Rightarrow> memory \<Rightarrow> bool" where
  "counted_in e m \<longleftrightarrow> slot_of (inode_of m e) \<notin> snd (free_space m)"

definition alive :: "nat \<Rightarrow> memory \<Rightarrow> bool" where
  "alive e m \<longleftrightarrow> get_le 4 m (i_dtime (ptr m e)) = (0 :: 32 word)"

definition marked_in :: "nat \<Rightarrow> memory \<Rightarrow> bool" where
  "marked_in e m \<longleftrightarrow> slots (pointed m (ptr m e)) \<inter> fst (free_space m) = {}"

lemmas fault_defs = typed_def counted_in_def alive_def marked_in_def

lemma entry_ok_faults: "entry_ok m e \<longleftrightarrow> ((typed e m \<and> counted_in e m) \<and> alive e m) \<and> marked_in e m"
  by (auto simp: entry_ok_def fault_defs)

lemma ptr_slot:
  assumes "fs_ok m" "checkable m E" "e \<in> E"
  shows "ptr m e = ino_tab m + 128 * slot_of (inode_of m e)" "slot_of (inode_of m e) < n_inodes m"
    "ptr m e + 128 \<le> 131072" "3072 \<le> ptr m e"
  using inode_slot [OF assms(1) checkableD(3) [OF assms(2,3)]] by (simp_all add: ptr_def)

lemma entry_place:
  assumes "checkable m E" "e \<in> E"
  shows "\<exists>b. block_ok m b \<and> block_start b \<le> e \<and> e + 9 \<le> block_start b + 1024"
proof -
  obtain b where b: "b \<in> dir_area m E" "e \<in> set (block_list m b)"
    using checkableD(1) [OF assms] by blast
  have "0 < unat (m (de_name_len e))"
    using checkableD(2) [OF assms] by (simp add: unat_gt_0)
  then show ?thesis
    using block_record_range [OF assms(1) b] checkableD(6) [OF assms(1) b(1)] by (intro exI [of _ b]) auto
qed

lemma entry_bytes:
  assumes "checkable m E" "e \<in> E"
  shows "e + 9 \<le> 131072" "e \<le> x \<Longrightarrow> x < e + 9 \<Longrightarrow> data_byte m x"
proof -
  obtain b where b: "block_ok m b" "block_start b \<le> e" "e + 9 \<le> block_start b + 1024"
    using entry_place [OF assms] by blast
  show "e + 9 \<le> 131072"
    using b block_region(5) [OF b(1)] by simp
  show "e \<le> x \<Longrightarrow> x < e + 9 \<Longrightarrow> data_byte m x"
    by (rule block_data_byte [OF b(1)]) (use b in simp_all)
qed

lemma mends_typed:
  assumes "sound m" "checkable m E" "e \<in> E"
  shows "mends E m (m(de_file_type e := expected_type m e))" (is "mends E m ?m")
proof -
  obtain b where b: "block_ok m b" "block_start b \<le> e" "e + 9 \<le> block_start b + 1024"
    using entry_place [OF assms(2,3)] by blast
  note region = block_region [OF b(1)]
  have kept: "sound ?m \<and> same_layout m ?m \<and> free_space ?m = free_space m"
    by (intro conjI; rule kept_sound [OF assms(1), of "de_file_type e" 1])
      (use region b in \<open>auto simp: apart_def entry_fields\<close>)
  have data: "data_byte m (de_file_type e)"
    by (rule entry_bytes(2) [OF assms(2,3)]) (simp_all add: entry_fields)
  have "get_le 4 ?m (i_dtime (ino_tab m + 128 * j)) = (get_le 4 m (i_dtime (ino_tab m + 128 * j)) :: 32 word)"
    if j: "j < n_inodes m" for j
    by (rule get_le_cong) (use slot_no_data [OF soundD(1) [OF assms(1)] j] data in \<open>auto simp: inode_fields\<close>)
  with kept assms(3) show ?thesis
    by (simp add: mends_def de_file_type_def)
qed

lemma mends_counted:
  assumes "sound m" "checkable m E" "k < n_inodes m" "k \<in> snd (free_space m)"
  shows "mends E m (inode_put m k True)" (is "mends E m ?m")
proof -
  note fs = soundD(1) [OF assms(1)]
  have put: "sound ?m \<and> same_layout m ?m \<and> free_space ?m = (fst (free_space m), snd (free_space m) - {k})"
    using inode_put [OF assms(1), of k True] assms(3,4) by (simp add: flip_def)
  have same: "?m x = m x" if "plain_byte m x" for x
    by (rule inode_put_other [OF fs assms(3) that])
  have "?m (de_file_type e) = m (de_file_type e)" if "e \<in> E" for e
    by (rule same, rule data_plain [THEN conjunct1], rule entry_bytes(2) [OF assms(2) that]) (simp_all add: entry_fields)
  moreover have "get_le 4 ?m (i_dtime (ino_tab m + 128 * j)) = (get_le 4 m (i_dtime (ino_tab m + 128 * j)) :: 32 word)"
    if "j < n_inodes m" for j
    by (rule get_le_cong, rule same, rule slot_plain_byte [OF fs that]) (auto simp: inode_fields)
  ultimately show ?thesis
    using put same by (auto simp: mends_def)
qed

lemma mends_alive:
  assumes "sound m" "checkable m E" "k < n_inodes m"
  defines "a \<equiv> i_dtime (ino_tab m + 128 * k)"
  shows "mends E m (put_le 4 a (0 :: 32 word) m)" (is "mends E m ?m")
proof -
  note fs = soundD(1) [OF assms(1)]
  have "128 * k + 128 \<le> 128 * n_inodes m" using assms(3) by simp
  then have region: "3072 \<le> a" "apart a 4 (blk_map m) (n_blocks m)" "apart a 4 (ino_map m) (n_inodes m)"
    using fs_okD(5,8,9) [OF fs] by (auto simp: a_def inode_fields apart_def)
  have same: "?m x = m x" if "x < a \<or> a + 4 \<le> x" for x
    using that by (rule put_le_outside)
  have kept: "sound ?m" "same_layout m ?m" "free_space ?m = free_space m"
    by (rule kept_sound [OF assms(1) _ region], erule same)+
  have dtime: "dtime_byte m x" if "a \<le> x" "x < a + 4" for x
    using that assms(3) by (auto simp: dtime_byte_def a_def)
  have "?m (de_file_type e) = m (de_file_type e)" if "e \<in> E" for e
  proof -
    have "data_byte m (de_file_type e)"
      by (rule entry_bytes(2) [OF assms(2) that]) (simp_all add: entry_fields)
    then show ?thesis
      using data_plain [of m "de_file_type e"] dtime [of "de_file_type e"] by (intro same) (meson not_le)
  qed
  moreover have "get_le 4 ?m (i_dtime (ino_tab m + 128 * j)) \<in> {get_le 4 m (i_dtime (ino_tab m + 128 * j)), 0 :: 32 word}" for j
  proof (cases "j = k")
    case True
    then show ?thesis by (simp add: a_def get_put_le)
  next
    case False
    then have "128 * j + 128 \<le> 128 * k \<or> 128 * k + 128 \<le> 128 * j" by linarith
    then show ?thesis
      by (subst get_put_le_other) (auto simp: a_def inode_fields)
  qed
  moreover have "?m x = m x" if "\<not> dtime_byte m x" for x
    using that dtime [of x] by (intro same) (meson not_le)
  ultimately show ?thesis
    unfolding mends_def kept(3) using kept(1,2) by blast
qed

lemma mends_taken:
  assumes "sound m" "checkable m E" "blocks_ok m bs"
  shows "mends E m (taken bs m)"
proof -
  note fs = soundD(1) [OF assms(1)]
  note t = taken [OF assms(1,3)]
  have "taken bs m (de_file_type e) = m (de_file_type e)" if "e \<in> E" for e
    by (rule t(4), rule data_no_block_byte, rule entry_bytes(2) [OF assms(2) that]) (simp_all add: entry_fields)
  moreover have "get_le 4 (taken bs m) (i_dtime (ino_tab m + 128 * j)) = (get_le 4 m (i_dtime (ino_tab m + 128 * j)) :: 32 word)"
    if "j < n_inodes m" for j
    by (rule get_le_cong, rule t(4), rule slot_byte [OF fs that]) (auto simp: inode_fields)
  ultimately show ?thesis
    using t by (auto simp: mends_def plain_byte_def)
qed

text \<open>A fault once repaired stays repaired.\<close>

lemma stable_faults:
  assumes "e \<in> E"
  shows "stable (mending m0 E) (mends E) (typed e)" "stable (mending m0 E) (mends E) (counted_in e)"
    "stable (mending m0 E) (mends E) (alive e)" "stable (mending m0 E) (mends E) (marked_in e)"
proof -
  have "typed e m' = typed e m' \<and> (typed e m \<longrightarrow> typed e m') \<and> (counted_in e m \<longrightarrow> counted_in e m') \<and>
      (alive e m \<longrightarrow> alive e m') \<and> (marked_in e m \<longrightarrow> marked_in e m')"
    if le: "mending m0 E m" "mends E m m'" for m m'
  proof -
    note good = mendingD [OF le(1)]
    note same = mends_entry [OF good(3,2) le(2) assms] and kept = mendsD [OF le(2)]
    have "m' (de_file_type e) = m (de_file_type e) \<or> m' (de_file_type e) = expected_type m e"
      by (rule kept(6) [OF assms])
    moreover have "get_le 4 m' (i_dtime (ptr m e)) = (get_le 4 m (i_dtime (ptr m e)) :: 32 word) \<or>
        get_le 4 m' (i_dtime (ptr m e)) = (0 :: 32 word)"
      using kept(7) [OF ptr_slot(2) [OF good(2,3) assms]] ptr_slot(1) [OF good(2,3) assms] by simp
    ultimately show ?thesis
      unfolding fault_defs same(2) same(1,3,5) using kept(3,4) by auto
  qed
  then show "stable (mending m0 E) (mends E) (typed e)" "stable (mending m0 E) (mends E) (counted_in e)"
    "stable (mending m0 E) (mends E) (alive e)" "stable (mending m0 E) (mends E) (marked_in e)"
    by (auto simp: stable_def)
qed

lemma stable_conj: "stable G le P \<Longrightarrow> stable G le Q \<Longrightarrow> stable G le (\<lambda>m. P m \<and> Q m)"
  by (auto simp: stable_def)

lemma fix_type_passes:
  assumes "e \<in> E"
  shows "passes (mending m0 E) (mends E) (typed e) (adds (fix_file_type_mismatch e))"
proof (rule passes_adds)
  fix s :: ext2 assume "mending m0 E (disk s)"
  note good = mendingD [OF this]
  let ?m = "disk s"
  note at = ptr_slot [OF good(2,3) assms]
  have run: "fix_file_type_mismatch e s = (if typed e ?m then (Ok 0, s)
      else (Ok 1, s\<lparr>disk := ?m(de_file_type e := expected_type ?m e)\<rparr>))"
    using at(3) entry_bytes(1) [OF good(3) assms]
    by (simp add: fix_file_type_mismatch_def prog Let_def typed_def expected_type_def ptr_def inode_of_def entry_fields inode_fields)
  note le = mends_typed [OF good(1,3) assms]
  have "typed e (?m(de_file_type e := expected_type ?m e))"
    using mends_entry(3) [OF good(3,2) le assms] by (simp add: typed_def)
  with run le mends_refl [OF good(1)]
  show "\<exists>n t. fix_file_type_mismatch e s = (Ok n, t) \<and> 0 \<le> n \<and> mends E ?m (disk t) \<and> (n = 0) = typed e ?m \<and>
      (n = 0 \<longrightarrow> t = s) \<and> typed e (disk t)"
    by (cases "typed e ?m") auto
qed

lemma fix_allocation_passes:
  assumes "e \<in> E" "\<And>m. mending m0 E m \<Longrightarrow> inode_of m e = i"
  shows "passes (mending m0 E) (mends E) (counted_in e) (adds (fix_inode_allocation_inconsistency i))"
proof (rule passes_adds)
  fix s :: ext2 assume m: "mending m0 E (disk s)"
  note good = mendingD [OF m]
  let ?m = "disk s" and ?k = "slot_of i"
  let ?m' = "inode_put ?m ?k True"
  have i: "inode_of ?m e = i" by (rule assms(2) [OF m])
  have ok: "inode_ok ?m i" "?k < n_inodes ?m"
    using checkableD(3) [OF good(3) assms(1)] ptr_slot(2) [OF good(2,3) assms(1)] i by simp_all
  have run: "fix_inode_allocation_inconsistency i s = (if counted_in e ?m then (Ok 0, s) else (Ok 1, s\<lparr>disk := ?m'\<rparr>))"
    using in_use_run(2) [OF good(2) ok(1)] set_inode_in_use_run [OF good(2) ok(1)]
    by (auto simp: fix_inode_allocation_inconsistency_def counted_in_def i prog bnd_run bnd_run_bool)
  show "\<exists>n t. fix_inode_allocation_inconsistency i s = (Ok n, t) \<and> 0 \<le> n \<and> mends E ?m (disk t) \<and>
      (n = 0) = counted_in e ?m \<and> (n = 0 \<longrightarrow> t = s) \<and> counted_in e (disk t)"
  proof (cases "counted_in e ?m")
    case True
    then show ?thesis using run mends_refl [OF good(1)] by simp
  next
    case False
    then have free: "?k \<in> snd (free_space ?m)" by (simp add: counted_in_def i)
    note le = mends_counted [OF good(1,3) ok(2) free]
    have "counted_in e ?m'"
      using inode_put(3) [OF good(1), of ?k True] free ok(2) mends_entry(1) [OF good(3,2) le assms(1)]
      by (simp add: counted_in_def i flip_def)
    with False run le show ?thesis by simp
  qed
qed

lemma fix_deletion_passes:
  assumes "e \<in> E" "\<And>m. mending m0 E m \<Longrightarrow> inode_of m e = i"
  shows "passes (mending m0 E) (mends E) (alive e) (adds (fix_inode_deletion_time i))"
proof (rule passes_adds)
  fix s :: ext2 assume m: "mending m0 E (disk s)"
  note good = mendingD [OF m]
  let ?m = "disk s"
  have p: "inode_at (ino_tab ?m) i = ptr ?m e" by (simp add: ptr_def assms(2) [OF m])
  note at = ptr_slot [OF good(2,3) assms(1)]
  let ?m' = "put_le 4 (i_dtime (ptr ?m e)) (0 :: 32 word) ?m"
  have run: "fix_inode_deletion_time i s = (if alive e ?m then (Ok 0, s) else (Ok 1, s\<lparr>disk := ?m'\<rparr>))"
    using at(3) by (simp add: fix_inode_deletion_time_def prog p alive_def inode_fields)
  have le: "mends E ?m ?m'"
    using mends_alive [OF good(1,3) at(2)] by (simp add: at(1))
  have "alive e ?m'"
    using mends_entry(2) [OF good(3,2) le assms(1)] by (simp add: alive_def get_put_le)
  with run le mends_refl [OF good(1)]
  show "\<exists>n t. fix_inode_deletion_time i s = (Ok n, t) \<and> 0 \<le> n \<and> mends E ?m (disk t) \<and> (n = 0) = alive e ?m \<and>
      (n = 0 \<longrightarrow> t = s) \<and> alive e (disk t)"
    by (cases "alive e ?m") auto
qed

lemma taken_none:
  "slots bs \<inter> fst (free_space m) = {} \<Longrightarrow> taken bs m = m"
  by (induction bs) (auto simp: slots_def)

lemma fix_blocks_passes:
  assumes "e \<in> E" "\<And>m. mending m0 E m \<Longrightarrow> inode_of m e = i"
  shows "passes (mending m0 E) (mends E) (marked_in e) (adds (fix_data_block_allocation i))"
proof (rule passes_adds)
  fix s :: ext2 assume m: "mending m0 E (disk s)"
  note good = mendingD [OF m]
  let ?m = "disk s"
  have i: "inode_of ?m e = i" by (rule assms(2) [OF m])
  let ?bs = "pointed ?m (ptr ?m e)"
  let ?m' = "taken ?bs ?m"
  have bs: "blocks_ok ?m ?bs"
    by (rule checkableD(4) [OF good(3) assms(1)])
  have run: "fix_data_block_allocation i s = (Ok (gain ?m ?m'), s\<lparr>disk := ?m'\<rparr>)"
    using fix_data_run [OF good(1), of i] checkableD(3) [OF good(3) assms(1)] bs i by (simp add: ptr_def Let_def)
  note le = mends_taken [OF good(1,3) bs] and gain = gain_taken [OF good(1) bs]
  have "marked_in e ?m'"
    using mends_entry(2,5) [OF good(3,2) le assms(1)] taken(3) [OF good(1) bs] by (auto simp: marked_in_def)
  with run le gain taken_none [of ?bs ?m]
  show "\<exists>n t. fix_data_block_allocation i s = (Ok n, t) \<and> 0 \<le> n \<and> mends E ?m (disk t) \<and> (n = 0) = marked_in e ?m \<and>
      (n = 0 \<longrightarrow> t = s) \<and> marked_in e (disk t)"
    by (intro exI [of _ "gain ?m ?m'"] exI [of _ "s\<lparr>disk := ?m'\<rparr>"]) (auto simp: marked_in_def)
qed

text \<open>The four repairs in the order of the code.\<close>

definition fix_faults :: "nat \<Rightarrow> 32 word \<Rightarrow> int \<Rightarrow> (ext2, int) prog" where
  "fix_faults e i k = bnd (bnd (bnd (adds (fix_file_type_mismatch e) k)
     (adds (fix_inode_allocation_inconsistency i))) (adds (fix_inode_deletion_time i))) (adds (fix_data_block_allocation i))"

lemma stable_entry_ok: "e \<in> E \<Longrightarrow> stable (mending m0 E) (mends E) (\<lambda>m. entry_ok m e)"
  unfolding entry_ok_faults by (intro stable_conj stable_faults)

lemma fix_faults_passes:
  assumes "e \<in> E" "\<And>m. mending m0 E m \<Longrightarrow> inode_of m e = i"
  shows "passes (mending m0 E) (mends E) (\<lambda>m. entry_ok m e) (fix_faults e i)"
  unfolding entry_ok_faults fix_faults_def [abs_def]
  by (intro mend.seq_any stable_conj stable_faults fix_type_passes fix_allocation_passes fix_deletion_passes
      fix_blocks_passes assms)

end
