(* ===== verification/Fsck.thy ===== *)
theory Fsck
  imports Consistency
begin

text \<open>
  The recursion of \<open>ext2_checker\<close> over the directory tree, and \<open>main\<close>.  \<open>visited\<close> is the list of the
  entries the checker comes to; the repairs keep it.
\<close>

section \<open>The entries that are visited\<close>

text \<open>
  Entries the recursion does not go beyond: those that are no directories, and below the root every
  one whose name begins with a dot.
\<close>

definition leaf :: "memory \<Rightarrow> bool \<Rightarrow> nat \<Rightarrow> bool" where
  "leaf m root e \<longleftrightarrow> expected_type m e \<noteq> EXT2_FT_DIR \<or> \<not> root \<and> m (de_name e) = 0x2E"

definition used :: "memory \<Rightarrow> nat \<Rightarrow> nat list" where
  "used m p = filter (\<lambda>e. inode_of m e \<noteq> 0) (entries m p)"

text \<open>\<open>None\<close> if the tree is deeper than \<open>d\<close>.\<close>

primrec visited :: "nat \<Rightarrow> memory \<Rightarrow> bool \<Rightarrow> nat \<Rightarrow> nat list option" where
  "visited 0 m root e = None"
| "visited (Suc d) m root e = (if leaf m root e then Some [e]
     else map_option (\<lambda>ess. e # concat ess) (those (map (visited d m False) (used m (ptr m e)))))"

lemma those_map:
  "those (map f xs) = Some ys \<longleftrightarrow> (\<forall>x \<in> set xs. f x \<noteq> None) \<and> ys = map (\<lambda>x. the (f x)) xs"
  by (induction xs arbitrary: ys) (auto split: option.splits)

lemma visited_head: "visited d m root e = Some es \<Longrightarrow> e \<in> set es"
  by (cases d) (auto split: if_splits)

lemma visited_inner:
  assumes "visited (Suc d) m root e = Some es" "\<not> leaf m root e"
  shows "es = e # concat (map (\<lambda>x. the (visited d m False x)) (used m (ptr m e)))"
    "x \<in> set (used m (ptr m e)) \<Longrightarrow> visited d m False x = Some (the (visited d m False x)) \<and> set (the (visited d m False x)) \<subseteq> set es"
  using assms by (auto simp: those_map)

lemma dir_area_blocks:
  "e \<in> E \<Longrightarrow> expected_type m e = EXT2_FT_DIR \<Longrightarrow> set (dir_blocks m (ptr m e)) \<subseteq> dir_area m E"
  by (force simp: dir_area_def)

lemma mends_used:
  assumes "checkable m E" "fs_ok m" "mends E m m'" "e \<in> E" "expected_type m e = EXT2_FT_DIR"
  shows "used m' (ptr m' e) = used m (ptr m e)"
proof -
  note same = mends_entry [OF assms(1-4)]
  note area = subsetD [OF dir_area_blocks [OF assms(4,5)]]
  have "map (\<lambda>b. the (block_records m' b)) (dir_blocks m (ptr m e)) = map (\<lambda>b. the (block_records m b)) (dir_blocks m (ptr m e))"
    by (intro map_cong refl) (use mends_block(1) [OF assms(1,3) area] in simp)
  then have "entries m' (ptr m e) = entries m (ptr m e)"
    by (simp only: entries_def same(4))
  moreover have "inode_of m' r = inode_of m r" if "r \<in> set (entries m (ptr m e))" for r
    using that mends_record(2) [OF assms(1,3) area] by (auto simp: entries_def block_list_def)
  ultimately show ?thesis
    by (simp add: used_def same(2) cong: filter_cong)
qed

lemma mends_visited:
  assumes "checkable m E" "fs_ok m" "mends E m m'"
  shows "visited d m root e = Some es \<Longrightarrow> set es \<subseteq> E \<Longrightarrow> visited d m' root e = Some es"
proof (induction d arbitrary: root e es)
  case (Suc d)
  have e: "e \<in> E"
    using visited_head [OF Suc.prems(1)] Suc.prems(2) by blast
  note same = mends_entry [OF assms e]
  have leaf: "leaf m' root e = leaf m root e"
    by (simp add: leaf_def same(3,8))
  show ?case
  proof (cases "leaf m root e")
    case True
    with Suc.prems(1) leaf show ?thesis by simp
  next
    case False
    note inner = visited_inner [OF Suc.prems(1) False]
    have "used m' (ptr m' e) = used m (ptr m e)"
      by (rule mends_used [OF assms e]) (use False in \<open>simp add: leaf_def\<close>)
    moreover have "visited d m' False x = visited d m False x" if "x \<in> set (used m (ptr m e))" for x
      using Suc.IH [of False x] inner(2) [OF that] Suc.prems(2) by auto
    ultimately show ?thesis
      using False leaf Suc.prems(1) by (simp cong: map_cong)
  qed
qed simp

section \<open>The loops\<close>

lemma mends_pointer:
  assumes "checkable m E" "fs_ok m" "mends E m m'" "e \<in> E" "n < 12"
  shows "get_le 4 m' (i_block (ptr m e) n) = (get_le 4 m (i_block (ptr m e) n) :: 32 word)"
  by (rule get_le_cong, rule mends_inode [OF assms(1-3) checkableD(3) [OF assms(1,4)]])
    (use assms(5) in \<open>auto simp: ptr_def inode_fields\<close>)

lemma passes_weaken: "passes G le Q f \<Longrightarrow> passes (\<lambda>m. G m \<and> P m) le Q f"
  by (auto simp: passes_def)

lemma stable_true [simp]: "stable G le (\<lambda>_. True)"
  by (simp add: stable_def)

text \<open>One record: it is repaired if it is in use.\<close>

definition entry_step :: "(nat \<Rightarrow> (ext2, int) prog) \<Rightarrow> nat \<Rightarrow> int \<Rightarrow> (ext2, (nat \<times> int) + unit) prog" where
  "entry_step fix pos k = bnd (ld32 (de_inode pos)) (\<lambda>j.
     bnd (if j \<noteq> 0 then adds (fix pos) k else ret k) (\<lambda>k.
     bnd (ld16 (de_rec_len pos)) (\<lambda>l. ret (Inl (pos + unat l, k)))))"

definition walk_sum :: "(nat \<Rightarrow> (ext2, int) prog) \<Rightarrow> nat \<Rightarrow> nat \<Rightarrow> int \<Rightarrow> (ext2, int) prog" where
  "walk_sum fix stop pos k = bnd (walk (\<lambda>pos. pos \<noteq> stop) (entry_step fix) pos k)
     (\<lambda>r. ret (case r of Inl k \<Rightarrow> k | Inr _ \<Rightarrow> 0))"

lemma sum_entries_walk: "sum_entries fix b k = walk_sum fix (block_start b + 1024) (block_start b) k"
  unfolding sum_entries_def walk_sum_def entry_step_def [abs_def] adds_def
  by (simp add: block_end_def EXT2_BLOCK_SIZE_def Let_def)

lemma walk_sum_stop: "walk_sum fix stop stop k s = (Ok k, s)"
  by (simp add: walk_sum_def bnd_def walk.simps ret_def)

lemma walk_sum_step:
  assumes "pos \<noteq> stop" "pos < disk_size" "entry_step fix pos k s = (Ok (Inl (next, k')), t)" "pos < next"
  shows "walk_sum fix stop pos k s = walk_sum fix stop next k' t"
  unfolding walk_sum_def bnd_def by (subst walk.simps) (use assms in simp)

lemma mending_refl: "checkable m E \<Longrightarrow> sound m \<Longrightarrow> mending m E m"
  using mends_refl soundD(1) by (auto simp: mending_def)

lemma walk_passes:
  assumes "fs_ok m" "checkable m E" "b \<in> dir_area m E" "records m pos (block_start b + 1024) = Some ps"
    and "set ps \<subseteq> set (block_list m b)"
    and "\<And>e. e \<in> set ps \<Longrightarrow> inode_of m e \<noteq> 0 \<Longrightarrow>
      passes (mending m E) (mends E) (Q e) (adds (fix e)) \<and> stable (mending m E) (mends E) (Q e)"
  shows "passes (mending m E) (mends E) (\<lambda>m'. \<forall>e \<in> set (filter (\<lambda>e. inode_of m e \<noteq> 0) ps). Q e m')
    (walk_sum fix (block_start b + 1024) pos)"
  using assms(4-)
proof (induction ps arbitrary: pos)
  case Nil
  then have "pos = block_start b + 1024"
    by (auto simp: records.simps split: if_splits)
  then show ?case
    by (intro passes_cong [OF mend.skip _ _ mend.keeps]) (simp_all add: walk_sum_stop ret_def)
next
  case (Cons q qs)
  let ?stop = "block_start b + 1024"
  have "pos \<noteq> ?stop"
    using Cons.prems(1) by (auto simp: records_refl)
  then have pos: "pos \<noteq> ?stop" "q = pos" "pos + rec_len_at m pos \<le> ?stop"
      "8 + unat (m (de_name_len pos)) \<le> rec_len_at m pos" "records m (pos + rec_len_at m pos) ?stop = Some qs"
    using records_Some_Cons [OF Cons.prems(1)] by auto
  have here: "pos \<in> set (block_list m b)"
    using Cons.prems(2) pos(2) by simp
  have range: "?stop \<le> 131072"
    by (rule block_region(5) [OF checkableD(6) [OF assms(2,3)]])
  let ?R = "\<lambda>m'. inode_of m pos \<noteq> 0 \<longrightarrow> Q pos m'"
  let ?step = "if inode_of m pos \<noteq> 0 then adds (fix pos) else ret"
  have step: "passes (mending m E) (mends E) ?R ?step" "stable (mending m E) (mends E) ?R"
    using Cons.prems(3) [of pos] pos(2) mend.skip by (auto simp: stable_def)
  have rest: "passes (mending m E) (mends E) (\<lambda>m'. \<forall>e \<in> set (filter (\<lambda>e. inode_of m e \<noteq> 0) qs). Q e m')
      (walk_sum fix ?stop (pos + rec_len_at m pos))"
    by (rule Cons.IH [OF pos(5)]) (use Cons.prems(2,3) in auto)
  show ?case
  proof (rule passes_cong [OF mend.seq_any [OF step(2,1) rest] _ _ mend.keeps])
    fix s :: ext2 and k :: int
    assume s: "mending m E (disk s)"
    obtain n t where run: "?step k s = (Ok (k + n), t)" "mends E (disk s) (disk t)"
      using passesE [OF step(1) s] by blast
    have t: "mending m E (disk t)"
      by (rule mend.keeps [OF s run(2)])
    have same: "inode_of (disk s) pos = inode_of m pos" "rec_len_at (disk t) pos = rec_len_at m pos"
      using mends_record(2,3) [OF assms(2) _ assms(3) here] mendingD(6) [OF s] mendingD(6) [OF t] by blast+
    have "entry_step fix pos k s = (Ok (Inl (pos + rec_len_at m pos, k + n)), t)"
      using run(1) same pos(3,4) range
      by (auto simp: entry_step_def prog inode_of_def rec_len_at_def entry_fields bnd_run
          split: if_splits)
    then show "walk_sum fix ?stop pos k s = bnd (?step k) (walk_sum fix ?stop (pos + rec_len_at m pos)) s"
      using pos(1,3,4) range run(1) by (subst walk_sum_step) (auto simp: bnd_def)
  qed (use pos(2) in auto)
qed

text \<open>The blocks of a directory.\<close>

lemma blocks_passes:
  assumes "fs_ok m" "checkable m E" "e \<in> E" "set ns \<subseteq> {..<12}"
  defines "ws \<equiv> \<lambda>ns. takeWhile (\<lambda>b. b \<noteq> 0) (map (\<lambda>n. get_le 4 m (i_block (ptr m e) n) :: 32 word) ns)"
  assumes "\<And>b. b \<in> set (ws ns) \<Longrightarrow> passes (mending m E) (mends E) (Q b) (body b) \<and> stable (mending m E) (mends E) (Q b)"
  shows "passes (mending m E) (mends E) (\<lambda>m'. \<forall>b \<in> set (ws ns). Q b m') (sum_blocks (ptr m e) body ns)"
  using assms(4,6)
proof (induction ns)
  case Nil
  show ?case
    by (rule passes_cong [OF mend.skip _ _ mend.keeps]) (simp_all add: ws_def)
next
  case (Cons n ns)
  let ?b = "get_le 4 m (i_block (ptr m e) n) :: 32 word"
  have read: "sum_blocks (ptr m e) body (n # ns) k s = (if ?b = 0 then ret k s else bnd (body ?b k) (sum_blocks (ptr m e) body ns) s)"
    if "mending m E (disk s)" for s :: ext2 and k
    using mends_pointer [OF assms(2,1) mendingD(6) [OF that] assms(3), of n] ptr_slot(3) [OF assms(1-3)] Cons.prems(1)
    by (simp add: prog inode_fields)
  show ?case
  proof (cases "?b = 0")
    case True
    show ?thesis
      by (rule passes_cong [OF mend.skip _ _ mend.keeps]) (simp_all add: True read ws_def del: sum_blocks.simps)
  next
    case False
    then have ws: "ws (n # ns) = ?b # ws ns" by (simp add: ws_def)
    have rest: "passes (mending m E) (mends E) (\<lambda>m'. \<forall>b \<in> set (ws ns). Q b m') (sum_blocks (ptr m e) body ns)"
      using Cons.IH Cons.prems ws by simp
    have first: "passes (mending m E) (mends E) (Q ?b) (body ?b)" "stable (mending m E) (mends E) (Q ?b)"
      using Cons.prems(2) ws by simp_all
    show ?thesis
      by (rule passes_cong [OF mend.seq_any [OF first(2,1) rest] _ _ mend.keeps]) (simp_all add: False read ws del: sum_blocks.simps)
  qed
qed

section \<open>The recursion\<close>

text \<open>What follows the repairs of an entry in \<open>fix_dir_entries_recursively\<close>.\<close>

definition descend :: "nat \<Rightarrow> bool \<Rightarrow> nat \<Rightarrow> (nat \<Rightarrow> (ext2, int) prog) \<Rightarrow> int \<Rightarrow> (ext2, int) prog" where
  "descend e root inode fix num_fixed = bnd (ld8 (de_file_type e)) (\<lambda>ft.
     if ft \<noteq> EXT2_FT_DIR then ret num_fixed
     else bnd (if root then ret False else names_self_or_parent e) (\<lambda>special.
       if special then ret num_fixed
       else sum_blocks inode (sum_entries fix) [0..<12] num_fixed))"

lemma fix_dir_entries_parts:
  assumes "e + 4 \<le> 131072" "inode_of (disk s) e = i"
  shows "fix_dir_entries_recursively (Suc d) e root s =
    bnd (fix_faults e i 0) (descend e root (inode_at (ino_tab (disk s)) i) (\<lambda>e. fix_dir_entries_recursively d e False)) s"
proof -
  have head: "bnd (ld32 (de_inode e)) (\<lambda>i. bnd (get_inode i) (g i)) s = g i (inode_at (ino_tab (disk s)) i) s"
    for g :: "32 word \<Rightarrow> nat \<Rightarrow> (ext2, int) prog"
    using assms by (simp add: prog inode_of_def entry_fields)
  show ?thesis
    unfolding fix_dir_entries_recursively.simps head fix_faults_def adds_def descend_def [abs_def]
    by (simp add: bnd_fun Let_def add.assoc split del: if_split)
qed

lemma names_run:
  assumes "e + 9 \<le> 131072"
  shows "names_self_or_parent e s = (Ok (disk s (de_name e) = 0x2E), s)"
  using assms by (simp add: names_self_or_parent_def str_def prog entry_fields)

lemma descend_run:
  assumes "e + 9 \<le> 131072" "entry_ok (disk s) e"
  shows "descend e root inode fix k s = (if leaf (disk s) root e then ret k s
    else sum_blocks inode (sum_entries fix) [0..<12] k s)"
  using assms by (simp add: descend_def prog bnd_run_bool names_run entry_ok_def leaf_def bnd_def entry_fields)

lemma block_entries:
  "set (used m p) = (\<Union>b \<in> set (dir_blocks m p). set (filter (\<lambda>e. inode_of m e \<noteq> 0) (block_list m b)))"
  by (auto simp: used_def entries_def block_list_def)

lemma descend_passes:
  assumes "fs_ok m" "checkable m E" "e \<in> E"
    and "\<And>x. x \<in> set (used m (ptr m e)) \<Longrightarrow> \<not> leaf m root e \<Longrightarrow> set (es x) \<subseteq> E \<and>
      passes (mending m E) (mends E) (\<lambda>m'. \<forall>y \<in> set (es x). entry_ok m' y) (adds (fix x))"
  shows "passes (\<lambda>m'. mending m E m' \<and> entry_ok m' e) (mends E)
    (\<lambda>m'. leaf m root e \<or> (\<forall>x \<in> set (used m (ptr m e)). \<forall>y \<in> set (es x). entry_ok m' y))
    (descend e root (ptr m e) fix)"
proof -
  have run: "descend e root (ptr m e) fix k s =
      (if leaf m root e then ret k s else sum_blocks (ptr m e) (sum_entries fix) [0..<12] k s)"
    if "mending m E (disk s) \<and> entry_ok (disk s) e" for s :: ext2 and k
  proof -
    have "mends E m (disk s)" using that mendingD(6) by blast
    note same = mends_entry [OF assms(2,1) this assms(3)]
    have "leaf (disk s) root e = leaf m root e"
      by (simp add: leaf_def same(3,8))
    then show ?thesis
      using descend_run [OF entry_bytes(1) [OF assms(2,3)]] that by simp
  qed
  have closed: "mending m E m'' \<and> entry_ok m'' e" if "mending m E m' \<and> entry_ok m' e" "mends E m' m''" for m' m''
    using that mend.keeps stable_entry_ok [OF assms(3), of m] by (auto simp: stable_def)
  show ?thesis
  proof (cases "leaf m root e")
    case True
    show ?thesis
      by (rule passes_cong [OF passes_weaken [OF mend.skip] _ _ closed]) (simp_all add: run True)
  next
    case False
    have ok: "stable (mending m E) (mends E) (\<lambda>m'. \<forall>y \<in> set (es x). entry_ok m' y)"
      if "x \<in> set (used m (ptr m e))" for x
      by (rule mend.stable_all, rule stable_entry_ok) (use assms(4) [OF that False] in blast)
    let ?Q = "\<lambda>b m'. \<forall>x \<in> set (filter (\<lambda>e. inode_of m e \<noteq> 0) (block_list m b)). \<forall>y \<in> set (es x). entry_ok m' y"
    have area: "set (dir_blocks m (ptr m e)) \<subseteq> dir_area m E"
      using False by (intro dir_area_blocks [OF assms(3)]) (simp add: leaf_def)
    have block: "passes (mending m E) (mends E) (?Q b) (sum_entries fix b) \<and> stable (mending m E) (mends E) (?Q b)"
      if b: "b \<in> set (dir_blocks m (ptr m e))" for b
    proof
      have here: "x \<in> set (used m (ptr m e))" if "x \<in> set (block_list m b)" "inode_of m x \<noteq> 0" for x
        using that b block_entries [of m "ptr m e"] by auto
      show "stable (mending m E) (mends E) (?Q b)"
        by (rule mend.stable_all) (use ok here in auto)
      have "passes (mending m E) (mends E) (?Q b) (walk_sum fix (block_start b + 1024) (block_start b))"
        by (rule walk_passes [OF assms(1,2) subsetD [OF area b]])
          (use checkableD(7) [OF assms(2) subsetD [OF area b]] ok here assms(4) False in \<open>auto simp: block_records_def\<close>)
      then show "passes (mending m E) (mends E) (?Q b) (sum_entries fix b)"
        by (simp only: sum_entries_walk [abs_def])
    qed
    have "passes (mending m E) (mends E) (\<lambda>m'. \<forall>b \<in> set (dir_blocks m (ptr m e)). ?Q b m')
        (sum_blocks (ptr m e) (sum_entries fix) [0..<12])"
      unfolding dir_blocks_def
      by (rule blocks_passes [OF assms(1-3)]) (use block in \<open>auto simp: dir_blocks_def\<close>)
    then show ?thesis
      by (rule passes_cong [OF passes_weaken _ _ closed]) (auto simp: run False block_entries)
  qed
qed

lemma tree_passes:
  assumes "fs_ok m" "checkable m E"
  shows "visited d m root e = Some es \<Longrightarrow> set es \<subseteq> E \<Longrightarrow>
    passes (mending m E) (mends E) (\<lambda>m'. \<forall>x \<in> set es. entry_ok m' x) (adds (fix_dir_entries_recursively d e root))"
proof (induction d arbitrary: root e es)
  case (Suc d)
  let ?fix = "\<lambda>x. fix_dir_entries_recursively d x False" and ?es = "\<lambda>x. the (visited d m False x)"
  let ?p = "ptr m e" and ?i = "inode_of m e"
  have e: "e \<in> E"
    using visited_head [OF Suc.prems(1)] Suc.prems(2) by blast
  have ino: "inode_of m' e = ?i" "ptr m' e = ?p" if "mending m E m'" for m'
    using mends_entry(1,2) [OF assms(2,1) mendingD(6) [OF that] e] by simp_all
  have children: "set (?es x) \<subseteq> E \<and> passes (mending m E) (mends E) (\<lambda>m'. \<forall>y \<in> set (?es x). entry_ok m' y) (adds (?fix x))"
    if "x \<in> set (used m ?p)" "\<not> leaf m root e" for x
    using visited_inner(2) [OF Suc.prems(1) that(2,1)] Suc.prems(2) by (auto intro: Suc.IH)
  have here: "passes (mending m E) (mends E) (\<lambda>m'. entry_ok m' e) (fix_faults e ?i)"
    by (rule fix_faults_passes [OF e ino(1)])
  have all: "(\<forall>x \<in> set es. entry_ok m' x) \<longleftrightarrow> entry_ok m' e \<and>
      (leaf m root e \<or> (\<forall>x \<in> set (used m ?p). \<forall>y \<in> set (?es x). entry_ok m' y))" for m'
  proof (cases "leaf m root e")
    case True
    then show ?thesis using Suc.prems(1) by auto
  next
    case False
    then show ?thesis using visited_inner(1) [OF Suc.prems(1) False] by auto
  qed
  have pass: "passes (mending m E) (mends E) (\<lambda>m'. \<forall>x \<in> set es. entry_ok m' x) (\<lambda>k. bnd (fix_faults e ?i k) (descend e root ?p ?fix))"
    unfolding all
    by (rule mend.seq [OF stable_entry_ok [OF e] here], rule descend_passes [OF assms e], rule children)
  show ?case
  proof (rule passes_adds)
    fix s :: ext2 assume s: "mending m E (disk s)"
    have "e + 4 \<le> 131072"
      using entry_bytes(1) [OF assms(2) e] by simp
    then have "fix_dir_entries_recursively (Suc d) e root s = bnd (fix_faults e ?i 0) (descend e root ?p ?fix) s"
      using fix_dir_entries_parts [of e s ?i d root] ino [OF s] by (simp only: ptr_def)
    moreover obtain n t where "bnd (fix_faults e ?i 0) (descend e root ?p ?fix) s = (Ok (0 + n), t)" "0 \<le> n"
        "mends E (disk s) (disk t)" "n = 0 \<longleftrightarrow> (\<forall>x \<in> set es. entry_ok (disk s) x)" "n = 0 \<Longrightarrow> t = s"
        "\<forall>x \<in> set es. entry_ok (disk t) x"
      using passesE [OF pass s, where k = 0] by blast
    ultimately show "\<exists>n t. fix_dir_entries_recursively (Suc d) e root s = (Ok n, t) \<and> 0 \<le> n \<and> mends E (disk s) (disk t) \<and>
        (n = 0) = (\<forall>x \<in> set es. entry_ok (disk s) x) \<and> (n = 0 \<longrightarrow> t = s) \<and> (\<forall>x \<in> set es. entry_ok (disk t) x)"
      by (intro exI [of _ n] exI [of _ t]) simp
  qed
qed simp

text \<open>The inode of the root directory, and its first entry.\<close>

definition root_ptr :: "memory \<Rightarrow> nat" where
  "root_ptr m = ino_tab m + 128"

definition root_entry :: "memory \<Rightarrow> nat" where
  "root_entry m = block_start (get_le 4 m (i_block (root_ptr m) 0))"

section \<open>The whole tree\<close>

text \<open>
  What a file system promises, without regard to what the checker looks at: every directory but
  \<open>.\<close> and \<open>..\<close> is descended into, and an indirect block has 256 words.
\<close>

definition self_or_parent :: "memory \<Rightarrow> nat \<Rightarrow> bool" where
  "self_or_parent m e \<longleftrightarrow> name_at m e = str ''.'' \<or> name_at m e = str ''..''"

primrec tree :: "nat \<Rightarrow> memory \<Rightarrow> bool \<Rightarrow> nat \<Rightarrow> nat list option" where
  "tree 0 m root e = None"
| "tree (Suc d) m root e = (if expected_type m e \<noteq> EXT2_FT_DIR \<or> \<not> root \<and> self_or_parent m e then Some [e]
     else map_option (\<lambda>ess. e # concat ess) (those (map (tree d m False) (used m (ptr m e)))))"

definition owned :: "memory \<Rightarrow> nat \<Rightarrow> 32 word list" where
  "owned m p = numbers m (i_block p 0) 12 @ (let b = get_le 4 m (i_block p 12) in
     if b = 0 then [] else b # numbers m (block_start b) 256)"

definition consistent :: "memory \<Rightarrow> nat \<Rightarrow> bool" where
  "consistent m e \<longleftrightarrow> m (de_file_type e) = expected_type m e \<and> slot_of (inode_of m e) \<notin> snd (free_space m) \<and>
     get_le 4 m (i_dtime (ptr m e)) = (0 :: 32 word) \<and> slots (owned m (ptr m e)) \<inter> fst (free_space m) = {}"

definition consistent_image :: "nat \<Rightarrow> memory \<Rightarrow> bool" where
  "consistent_image d m \<longleftrightarrow> counters_ok m \<and>
     (case tree d m True (root_entry m) of None \<Rightarrow> False | Some es \<Rightarrow> \<forall>e \<in> set es. consistent m e)"

text \<open>
  What the checker does not look at: the entries below a directory whose name begins with a dot, and
  the last word of an indirect block.
\<close>

definition hidden :: "memory \<Rightarrow> nat \<Rightarrow> bool" where
  "hidden m e \<longleftrightarrow> expected_type m e = EXT2_FT_DIR \<and> m (de_name e) = 0x2E \<and> \<not> self_or_parent m e"

definition last_word :: "memory \<Rightarrow> nat \<Rightarrow> bool" where
  "last_word m e \<longleftrightarrow> (let b = get_le 4 m (i_block (ptr m e) 12) :: 32 word in
     b \<noteq> 0 \<and> get_le 4 m (block_start b + 1020) \<noteq> (0 :: 32 word))"

definition skipped :: "memory \<Rightarrow> nat \<Rightarrow> bool" where
  "skipped m e \<longleftrightarrow> hidden m e \<or> last_word m e"

lemma self_or_parent_dot: "self_or_parent m e \<Longrightarrow> m (de_name e) = 0x2E"
  by (cases "unat (m (de_name_len e))")
    (auto simp: self_or_parent_def name_at_def get_bytes_def str_def upt_conv_Cons simp del: upt.simps)

lemma visited_tree:
  "visited d m root e = Some es \<Longrightarrow> \<forall>x \<in> set es. \<not> hidden m x \<Longrightarrow> tree d m root e = Some es"
proof (induction d arbitrary: root e es)
  case (Suc d)
  have "\<not> hidden m e"
    using visited_head [OF Suc.prems(1)] Suc.prems(2) by blast
  then have leaf: "expected_type m e \<noteq> EXT2_FT_DIR \<or> \<not> root \<and> self_or_parent m e \<longleftrightarrow> leaf m root e"
    using self_or_parent_dot [of m e] by (auto simp: leaf_def hidden_def)
  show ?case
  proof (cases "leaf m root e")
    case True
    with Suc.prems(1) leaf show ?thesis by simp
  next
    case False
    note inner = visited_inner [OF Suc.prems(1) False]
    have "tree d m False x = visited d m False x" if "x \<in> set (used m (ptr m e))" for x
    proof -
      from inner(2) [OF that] obtain ys where ys: "visited d m False x = Some ys" "set ys \<subseteq> set es" by blast
      then show ?thesis using Suc.IH [OF ys(1)] Suc.prems(2) by auto
    qed
    then have "map (tree d m False) (used m (ptr m e)) = map (visited d m False) (used m (ptr m e))"
      by simp
    then show ?thesis
      using False leaf Suc.prems(1) by (simp only: tree.simps visited.simps if_False)
  qed
qed simp

lemma owned_pointed: "\<not> last_word m e \<Longrightarrow> owned m (ptr m e) = pointed m (ptr m e)"
proof -
  have "numbers m a 256 = numbers m a 255" if "get_le 4 m (a + 1020) = (0 :: 32 word)" for a
    using that upt_Suc_append [of 0 255] by (simp add: numbers_def del: upt.simps upt_rec_numeral)
  then show "owned m (ptr m e) = pointed m (ptr m e)" if "\<not> last_word m e"
    using that by (auto simp: owned_def pointed_def last_word_def Let_def)
qed

lemma consistent_entry: "\<not> last_word m e \<Longrightarrow> consistent m e = entry_ok m e"
  by (simp add: consistent_def entry_ok_def owned_pointed)

lemma consistent_visited:
  assumes "visited d m True (root_entry m) = Some es" "\<forall>e \<in> set es. \<not> skipped m e"
  shows "consistent_image d m \<longleftrightarrow> counters_ok m \<and> (\<forall>e \<in> set es. entry_ok m e)"
  using visited_tree [OF assms(1)] assms(2) by (simp add: consistent_image_def skipped_def consistent_entry)

lemma mends_skipped:
  assumes "checkable m E" "fs_ok m" "mends E m m'" "e \<in> E"
  shows "skipped m' e = skipped m e"
proof -
  note same = mends_entry [OF assms]
  have "hidden m' e = hidden m e"
    by (simp add: hidden_def self_or_parent_def same(3,8,9))
  moreover have "get_le 4 m' (block_start b + 1020) = (get_le 4 m (block_start b + 1020) :: 32 word)"
    if "b = get_le 4 m (i_block (ptr m e) 12)" "b \<noteq> 0" for b :: "32 word"
    by (rule get_le_cong, rule mends_indirect [OF assms that]) simp_all
  ultimately show ?thesis
    by (auto simp: skipped_def last_word_def same(2,6) Let_def)
qed

section \<open>The whole check\<close>

lemma counters_mend:
  assumes "fs_ok m" "checkable m E" "\<And>x. \<not> counter_byte x \<Longrightarrow> m' x = m x" "counters_ok m'"
  shows "mends E m m'"
proof -
  note kept = counter_change [OF assms(1,3)]
  have plain: "m' x = m x" if "plain_byte m x" for x
    using that by (intro assms(3)) (simp add: plain_byte_def no_block_byte_def)
  have "m' (de_file_type e) = m (de_file_type e)" if "e \<in> E" for e
    by (rule plain, rule data_plain [THEN conjunct1], rule entry_bytes(2) [OF assms(2) that]) (simp_all add: entry_fields)
  moreover have "get_le 4 m' (i_dtime (ino_tab m + 128 * j)) = (get_le 4 m (i_dtime (ino_tab m + 128 * j)) :: 32 word)"
    if "j < n_inodes m" for j
    by (rule get_le_cong, rule plain, rule slot_plain_byte [OF assms(1) that]) (auto simp: inode_fields)
  ultimately show ?thesis
    using kept plain assms(4) by (simp add: mends_def sound_def)
qed

text \<open>The root directory.\<close>

definition root_is_dir :: "memory \<Rightarrow> bool" where
  "root_is_dir m \<longleftrightarrow> 2 \<le> n_inodes m \<and> FILE_TYPE (get_le 2 m (i_mode (root_ptr m))) = FILE_TYPE EXT2_S_IFDIR"

lemma root_ptr:
  assumes "root_is_dir m"
  shows "inode_ok m 2" "inode_at (ino_tab m) 2 = root_ptr m"
proof -
  have "slot_of 2 = 1" "1 \<le> sint (2 :: 32 word)" by code_simp+
  then show "inode_ok m 2" "inode_at (ino_tab m) 2 = root_ptr m"
    using assms inode_at_slot [of 2 "ino_tab m"] by (simp_all add: inode_ok_def root_is_dir_def root_ptr_def)
qed

lemma mends_root:
  assumes "checkable m E" "fs_ok m" "mends E m m'" "root_is_dir m"
  shows "root_is_dir m'" "root_entry m' = root_entry m"
proof -
  have layout: "root_ptr m' = root_ptr m" "n_inodes m' = n_inodes m"
    using mendsD(2) [OF assms(3)] by (simp_all add: root_ptr_def same_layout_def)
  have same: "m' x = m x" if "root_ptr m \<le> x" "x < root_ptr m + 128" "x < root_ptr m + 20 \<or> root_ptr m + 24 \<le> x" for x
    using mends_inode [OF assms(1-3) root_ptr(1) [OF assms(4)], unfolded root_ptr(2) [OF assms(4)], of x] that
    by (auto simp: inode_fields)
  have "get_le 2 m' (i_mode (root_ptr m)) = (get_le 2 m (i_mode (root_ptr m)) :: 16 word)"
      "get_le 4 m' (i_block (root_ptr m) 0) = (get_le 4 m (i_block (root_ptr m) 0) :: 32 word)"
    by (rule get_le_cong, rule same; simp add: inode_fields)+
  then show "root_is_dir m'" "root_entry m' = root_entry m"
    using assms(4) layout by (simp_all add: root_is_dir_def root_entry_def)
qed

lemma check_image_parts:
  assumes "fs_ok (disk s)" "root_is_dir (disk s)"
  shows "check_image depth s = bnd recount (\<lambda>k. adds (fix_dir_entries_recursively depth (root_entry (disk s)) True) k) s"
proof -
  let ?p = "ino_tab (disk s) + 128"
  have range: "?p + 128 \<le> 131072"
    using inode_slot(3) [OF assms(1) root_ptr(1) [OF assms(2)]] root_ptr(2) [OF assms(2)] by (simp add: root_ptr_def)
  have head: "bnd get_inode_table (\<lambda>t. let root = t + EXT2_ROOT_INO_IDX * inode_size in bnd (ld16 (i_mode root)) (\<lambda>m.
      bnd (if FILE_TYPE m \<noteq> FILE_TYPE EXT2_S_IFDIR then thn (st16 (i_mode root) (m OR EXT2_S_IFDIR)) (ret 1) else ret 0)
        (\<lambda>k. bnd (ld32 (i_block root 0)) (g k)))) s = g 0 (get_le 4 (disk s) (i_block ?p 0)) s"
    for g :: "int \<Rightarrow> 32 word \<Rightarrow> (ext2, int) prog"
    using range assms(2)
    by (simp add: prog Let_def EXT2_ROOT_INO_IDX_def inode_size_def inode_fields root_is_dir_def root_ptr_def)
  show ?thesis
    unfolding check_image_def head recount_def adds_def
    by (simp add: bnd_fun root_entry_def root_ptr_def add.assoc)
qed

lemma check_image_run:
  assumes "fs_ok (disk s)" "root_is_dir (disk s)" "visited depth (disk s) True (root_entry (disk s)) = Some es"
    and "checkable (disk s) (set es)"
  shows "\<exists>k t. check_image depth s = (Ok k, t) \<and> 0 \<le> k \<and> mends (set es) (disk s) (disk t) \<and>
    (k = 0 \<longleftrightarrow> counters_ok (disk s) \<and> (\<forall>e \<in> set es. entry_ok (disk s) e)) \<and> (k = 0 \<longrightarrow> t = s) \<and>
    (\<forall>e \<in> set es. entry_ok (disk t) e)"
proof -
  let ?m = "disk s" and ?E = "set es"
  let ?tree = "fix_dir_entries_recursively depth (root_entry ?m) True"
  obtain k u where u: "0 \<le> k" "recount s = (Ok k, u)" "k = 0 \<longleftrightarrow> counters_ok ?m" "k = 0 \<longrightarrow> u = s" "counters_ok (disk u)"
      "\<And>x. \<not> counter_byte x \<Longrightarrow> disk u x = ?m x"
    using recount_run [OF assms(1)] by blast
  have le: "mends ?E ?m (disk u)"
    by (rule counters_mend [OF assms(1,4) u(6,5)])
  then have good: "mending ?m ?E (disk u)"
    using assms(1,4) by (simp add: mending_def)
  obtain n t where t: "adds ?tree k u = (Ok (k + n), t)" "0 \<le> n" "mends ?E (disk u) (disk t)"
      "n = 0 \<longleftrightarrow> (\<forall>e \<in> ?E. entry_ok (disk u) e)" "n = 0 \<Longrightarrow> t = u" "\<forall>e \<in> ?E. entry_ok (disk t) e"
    using passesE [OF tree_passes [OF assms(1,4,3) subset_refl] good, where k = k] by blast
  have "check_image depth s = (Ok (k + n), t)"
    using check_image_parts [OF assms(1,2)] u(2) t(1) by (simp add: bnd_def)
  moreover have "k + n = 0 \<longleftrightarrow> k = 0 \<and> n = 0"
    using u(1) t(2) by linarith
  ultimately show ?thesis
    using u(1,3,4) t(2,4-6) mends_trans [OF assms(4,1) le t(3)] by auto
qed

text \<open>
  C39: On an image whose layout is sound, where the entries the checker visits (\<open>visited\<close>: it descends
  no deeper than \<open>depth\<close>, and below the root into no directory whose name begins with a dot) are well
  formed, the checker always returns.  It reports 0 if and only if the counters are right and every
  entry visited has the type of its inode, an inode that is in use and not deleted, and blocks that
  are in use, as far as the checker looks (not at the last of the 256 words of an indirect block); it
  then changes nothing.  Otherwise it leaves an image with the same entries in which all of this
  holds, and which differs from the old one in nothing but counters, bitmaps, types of entries and
  times of deletion; and a second run finds nothing to repair.  When nothing is skipped, that is no
  directory but \<open>.\<close> and \<open>..\<close> has a name that begins with a dot and no file uses the last word of its
  indirect block, then 0 means that the whole file system is consistent (\<open>consistent_image\<close>), and it
  always is after the check.
\<close>

theorem checker_fixed_point:
  fixes s :: ext2
  defines "m \<equiv> disk s"
  assumes "fs_ok m" "root_is_dir m" "visited depth m True (root_entry m) = Some es" "checkable m (set es)"
  shows "\<exists>k t. check_image depth s = (Ok k, t) \<and> 0 \<le> k \<and>
    (k = 0 \<longleftrightarrow> counters_ok m \<and> (\<forall>e \<in> set es. entry_ok m e)) \<and> (k = 0 \<longrightarrow> t = s) \<and>
    sound (disk t) \<and> visited depth (disk t) True (root_entry (disk t)) = Some es \<and> (\<forall>e \<in> set es. entry_ok (disk t) e) \<and>
    (\<forall>x. plain_byte m x \<longrightarrow> x \<notin> de_file_type ` set es \<longrightarrow> \<not> dtime_byte m x \<longrightarrow> disk t x = m x) \<and>
    check_image depth t = (Ok 0, t) \<and>
    ((\<forall>e \<in> set es. \<not> skipped m e) \<longrightarrow>
      (k = 0 \<longleftrightarrow> consistent_image depth m) \<and> consistent_image depth (disk t))"
proof -
  obtain k t where run: "check_image depth s = (Ok k, t)" "0 \<le> k" "mends (set es) m (disk t)"
      "k = 0 \<longleftrightarrow> counters_ok m \<and> (\<forall>e \<in> set es. entry_ok m e)" "k = 0 \<longrightarrow> t = s" "\<forall>e \<in> set es. entry_ok (disk t) e"
    using check_image_run [OF assms(2-5) [unfolded m_def]] unfolding m_def by blast
  note sound = mendsD(1) [OF run(3)] and root = mends_root [OF assms(5,2) run(3) assms(3)]
  have tree: "visited depth (disk t) True (root_entry (disk t)) = Some es"
    using mends_visited [OF assms(5,2) run(3) assms(4)] root(2) by simp
  have again: "check_image depth t = (Ok 0, t)"
    using check_image_run [OF soundD(1) [OF sound] root(1) tree mends_checkable [OF assms(5,2) run(3)]]
      soundD(2) [OF sound] run(6) by auto
  have whole: "(k = 0 \<longleftrightarrow> consistent_image depth m) \<and> consistent_image depth (disk t)" if "\<forall>e \<in> set es. \<not> skipped m e"
    using consistent_visited [OF assms(4) that] consistent_visited [OF tree] mends_skipped [OF assms(5,2) run(3)]
      that run(4,6) soundD(2) [OF sound] by simp
  show ?thesis
    by (intro exI [of _ k] exI [of _ t] conjI impI whole)
      (use run sound tree again mendsD(5) [OF run(3)] whole in simp_all)
qed

text \<open>
  The small image with a wrong counter, a wrong type of the entry \<open>.\<close> of the root and a time of
  deletion of the root.
\<close>

definition broken_image :: memory where
  "broken_image = small_image(1036 := 7, 9223 := 1, 5268 := 3)"

lemma broken_frame: "same_layout small_image broken_image" "free_space broken_image = ({9}, {0})" "fs_ok broken_image"
proof -
  show layout: "same_layout small_image broken_image"
    by (rule same_layoutI) (simp_all add: broken_image_def)
  have bits: "free_bits broken_image (blk_map small_image) (n_blocks small_image) = free_bits small_image (blk_map small_image) (n_blocks small_image)"
      "free_bits broken_image (ino_map small_image) (n_inodes small_image) = free_bits small_image (ino_map small_image) (n_inodes small_image)"
    by (rule free_bits_cong; simp add: small_layout broken_image_def)+
  then show "free_space broken_image = ({9}, {0})"
    using layout small_space by (simp add: free_space_def same_layout_def)
  show "fs_ok broken_image"
    by (rule fs_ok_shrink [OF soundD(1) [OF small_sound] layout])
      (use bits fs_okD(10,11) [OF soundD(1) [OF small_sound]] in simp_all)
qed

lemma broken_layout: "blk_map broken_image = 3072" "ino_map broken_image = 4096" "ino_tab broken_image = 5120"
    "n_blocks broken_image = 2" "n_inodes broken_image = 2"
  using broken_frame(1) by (simp_all add: same_layout_def small_layout)

lemma broken_root:
  "root_ptr broken_image = 5248" "get_le 2 broken_image (i_mode 5248) = (0x4000 :: 16 word)"
  "dir_blocks broken_image 5248 = [9]" "pointed broken_image 5248 = [9]" "block_records broken_image 9 = Some [9216, 9228]"
  "inode_of broken_image 9216 = 2" "inode_of broken_image 9228 = 2" "get_le 4 broken_image (i_block 5248 12) = (0 :: 32 word)"
  "get_le 4 broken_image (i_block 5248 0) = (9 :: 32 word)"
proof -
  have le2: "get_le 2 m a = ucast (m a) OR push_bit 8 (ucast (m (Suc a)))" for m a
    by (simp add: numeral_2_eq_2)
  show "root_ptr broken_image = 5248"
    by (simp add: root_ptr_def broken_layout)
  show "get_le 2 broken_image (i_mode 5248) = (0x4000 :: 16 word)"
    by (simp add: inode_fields le2 broken_image_def small_image_def)
  show "dir_blocks broken_image 5248 = [9]"
    by (simp add: dir_blocks_def inode_fields upt_conv_Cons get_le_small broken_image_def small_image_def)
  show last: "get_le 4 broken_image (i_block 5248 12) = (0 :: 32 word)"
    by (simp add: inode_fields get_le_small broken_image_def small_image_def)
  show "get_le 4 broken_image (i_block 5248 0) = (9 :: 32 word)"
    by (simp add: inode_fields get_le_small broken_image_def small_image_def)
  have "numbers broken_image (i_block 5248 0) 12 = [9]"
    by (simp add: numbers_def inode_fields upt_conv_Cons get_le_small broken_image_def small_image_def)
  then show "pointed broken_image 5248 = [9]"
    by (simp add: pointed_def last)
  show "block_records broken_image 9 = Some [9216, 9228]"
    by (simp add: block_records_def block_start_def EXT2_BLOCK_SIZE_def records.simps rec_len_at_def entry_fields
        le2 broken_image_def small_image_def)
  show "inode_of broken_image 9216 = 2" "inode_of broken_image 9228 = 2"
    by (simp_all add: inode_of_def entry_fields get_le_small broken_image_def small_image_def)
qed

lemma broken_entry:
  assumes "e \<in> {9216, 9228}"
  shows "ptr broken_image e = 5248" "expected_type broken_image e = EXT2_FT_DIR"
proof -
  show ptr: "ptr broken_image e = 5248"
    using assms small_dir(1) by (auto simp: ptr_def broken_layout broken_root)
  show "expected_type broken_image e = EXT2_FT_DIR"
    by (simp add: expected_type_def ptr broken_root dir_entry_file_type_def EXT2_S_IFDIR_def)
qed

lemma broken_image: "root_is_dir broken_image" "root_entry broken_image = 9216"
  "visited 2 broken_image True 9216 = Some [9216, 9216, 9228]" "checkable broken_image {9216, 9228}"
  "\<not> counters_ok broken_image"
proof -
  show "root_is_dir broken_image"
    by (simp add: root_is_dir_def broken_root broken_layout EXT2_S_IFDIR_def)
  show "root_entry broken_image = 9216"
    using broken_root(9) by (simp add: root_entry_def broken_root(1) block_start_def EXT2_BLOCK_SIZE_def)
  have dots: "broken_image 9224 = 0x2E" "broken_image 9236 = 0x2E" "broken_image 9222 = 1" "broken_image 9234 = 2"
    by (simp_all add: broken_image_def small_image_def)
  have used: "used broken_image 5248 = [9216, 9228]"
    by (simp add: used_def entries_def broken_root)
  show "visited 2 broken_image True 9216 = Some [9216, 9216, 9228]"
    by (simp add: numeral_2_eq_2 leaf_def broken_entry used dots entry_fields)
  have area: "dir_area broken_image {9216, 9228} = {9}"
    by (simp add: dir_area_def broken_entry broken_root)
  have nine: "block_ok broken_image 9" "inode_ok broken_image 2"
  proof -
    have "slot_of 9 = 8" "1 \<le> sint (9 :: 32 word)" "slot_of 2 = 1" "1 \<le> sint (2 :: 32 word)"
      by code_simp+
    then show "block_ok broken_image 9" "inode_ok broken_image 2"
      by (simp_all add: block_ok_def inode_ok_def data_block_def broken_layout apart_def)
  qed
  then show "checkable broken_image {9216, 9228}"
    by (simp add: checkable_def area broken_entry broken_root block_list_def blocks_ok_def dots entry_fields)
  have "get_le 4 broken_image s_free_blocks_count = (7 :: 32 word)"
    by (simp add: ext2_fields get_le_small broken_image_def small_image_def)
  then show "\<not> counters_ok broken_image"
    by (simp add: counters_counted counted_def broken_frame(2))
qed

lemma broken_plain: "e \<in> {9216, 9228} \<Longrightarrow> \<not> skipped broken_image e"
proof -
  have "name_at broken_image 9216 = str ''.''" "name_at broken_image 9228 = str ''..''"
    by (simp_all add: name_at_def get_bytes_def entry_fields str_def upt_conv_Cons broken_image_def small_image_def)
  then show "\<not> skipped broken_image e" if "e \<in> {9216, 9228}"
    using that by (auto simp: skipped_def hidden_def self_or_parent_def last_word_def broken_entry broken_root)
qed

lemma checker_fixed_point_witness:
  "\<exists>k t. check_image 2 \<lparr>disk = broken_image, now = 0, src = []\<rparr> = (Ok k, t) \<and> 0 < k \<and> sound (disk t) \<and>
     entry_ok (disk t) 9216 \<and> check_image 2 t = (Ok 0, t) \<and> consistent_image 2 (disk t)"
proof -
  have es: "set [9216, 9216, 9228] = {9216, 9228 :: nat}" by simp
  show ?thesis
    using checker_fixed_point [of "\<lparr>disk = broken_image, now = 0, src = []\<rparr>" 2 "[9216, 9216, 9228]",
      unfolded ext2.select_convs es] broken_image broken_frame(3) broken_plain
    by (metis insertI1 order_le_imp_less_or_eq)
qed

end
