(* ===== verification/Contents.thy ===== *)
theory Contents
  imports Files
begin

text \<open>
  The data of a file: \<open>copy_sourcefile_data\<close> stores exactly the bytes of the source, in freshly
  allocated blocks that the inode lists, directly or through its indirect block.
\<close>

section \<open>One block\<close>

text \<open>
  The step both loops repeat: a fresh block is noted at \<open>a\<close> and counted, and receives the bytes \<open>buf\<close>.
\<close>

definition stored :: "nat \<Rightarrow> nat \<Rightarrow> byte list \<Rightarrow> memory \<Rightarrow> memory" where
  "stored p a buf m = (let k = fresh m;
     m1 = put_le 4 a (of_nat (k + 1) :: 32 word) (block_taken m k);
     m2 = put_le 4 (i_blocks p) (NUM_DISK_BLKS (get_le 4 m1 (i_blocks p)) 1024) m1;
     m3 = put_bytes (1024 * (k + 1)) buf m2
   in put_le 4 (i_size p) (get_le 4 m3 (i_size p) + of_nat (length buf) :: 32 word) m3)"

text \<open>A place for pointers: apart from the bitmaps, the counted fields of the inode and every free block.\<close>

definition room :: "memory \<Rightarrow> nat \<Rightarrow> nat \<Rightarrow> nat \<Rightarrow> bool" where
  "room m p a n \<longleftrightarrow> 3072 \<le> a \<and> a + n \<le> 131072 \<and> apart a n (blk_map m) (n_blocks m) \<and> apart a n (ino_map m) (n_inodes m) \<and>
     apart a n (p + 4) 4 \<and> apart a n (p + 28) 4 \<and> (\<forall>k \<in> fst (free_space m). apart a n (1024 * (k + 1)) 1024)"

text \<open>A byte outside the counted fields of the inode and the blocks \<open>K\<close>.\<close>

definition beside :: "nat \<Rightarrow> nat set \<Rightarrow> nat \<Rightarrow> bool" where
  "beside p K x \<longleftrightarrow> (x < p + 4 \<or> p + 8 \<le> x) \<and> (x < p + 28 \<or> p + 32 \<le> x) \<and>
     (\<forall>k \<in> K. x < 1024 * (k + 1) \<or> 1024 * (k + 1) + 1024 \<le> x)"

text \<open>A write that keeps bitmaps and counters.\<close>

definition neutral :: "memory \<Rightarrow> memory \<Rightarrow> bool" where
  "neutral m m' \<longleftrightarrow> sound m' \<and> same_layout m m' \<and> free_space m' = free_space m"

lemma neutral_step:
  assumes "neutral m u" "\<And>x. x < a \<or> a + n \<le> x \<Longrightarrow> m' x = u x" "3072 \<le> a"
    and "apart a n (blk_map m) (n_blocks m)" "apart a n (ino_map m) (n_inodes m)"
  shows "neutral m m'"
proof -
  have u: "sound u" "same_layout m u" "free_space u = free_space m"
    using assms(1) by (simp_all add: neutral_def)
  have place: "apart a n (blk_map u) (n_blocks u)" "apart a n (ino_map u) (n_inodes u)"
    using assms(4,5) u(2) by (simp_all add: same_layout_def)
  have "sound m'" "same_layout u m'" "free_space m' = free_space u"
    by (rule kept_sound [OF u(1) assms(2,3) place], assumption)+
  then show ?thesis
    using u same_layout_trans [OF u(2)] by (simp add: neutral_def)
qed

definition slot_at :: "memory \<Rightarrow> nat \<Rightarrow> bool" where
  "slot_at m p \<longleftrightarrow> (\<exists>j < n_inodes m. p = ino_tab m + 128 * j)"

lemma slot_at_layout: "same_layout m m' \<Longrightarrow> slot_at m' p = slot_at m p"
  by (simp add: slot_at_def same_layout_def)

lemma slot_at_end: "fs_ok m \<Longrightarrow> slot_at m p \<Longrightarrow> p + 128 \<le> 131072"
proof -
  assume fs: "fs_ok m" and "slot_at m p"
  then obtain j where j: "j < n_inodes m" "p = ino_tab m + 128 * j"
    by (auto simp: slot_at_def)
  have "128 * j + 128 \<le> 128 * n_inodes m" using j(1) by simp
  then show ?thesis
    using fs_okD(6) [OF fs] j(2) by simp
qed

lemma room_split:
  assumes "room m p a (4 + n)"
  shows "room m p a 4" "room m p (a + 4) n"
  using assms by (auto simp: room_def apart_def)

lemma room_kept:
  "room m p a n \<Longrightarrow> same_layout m m' \<Longrightarrow> fst (free_space m') \<subseteq> fst (free_space m) \<Longrightarrow> room m' p a n"
  by (auto simp: room_def same_layout_def)

lemma block_taken_plain:
  assumes "sound m" "fst (free_space m) \<noteq> {}" "plain_byte m x"
    and "x < 1024 * (fresh m + 1) \<or> 1024 * (fresh m + 1) + 1024 \<le> x"
  shows "block_taken m (fresh m) x = m x"
proof -
  note fs = soundD(1) [OF assms(1)]
  have "markable True m [of_nat (fresh m + 1)]"
    using fresh_block [OF fs assms(2)] by (simp add: markable_def)
  from block_put_step(5) [OF assms(1) this, of x] have "block_put m (fresh m) True x = m x"
    using fresh_block(3) [OF fs assms(2)] assms(3) by (simp add: plain_byte_def)
  with assms(4) show ?thesis
    by (auto simp: block_taken_def put_bytes_apply)
qed

lemma stored:
  fixes buf :: "byte list" and x :: nat
  assumes "sound m" "slot_at m p" "fst (free_space m) \<noteq> {}" "room m p a 4" "length buf \<le> 1024"
  defines "m' \<equiv> stored p a buf m" and "k \<equiv> fresh m"
  shows "sound m'" "same_layout m m'" "free_space m' = (fst (free_space m) - {k}, snd (free_space m))"
    "get_le 4 m' a = (of_nat (k + 1) :: 32 word)"
    "get_bytes m' (1024 * (k + 1)) 1024 = buf @ replicate (1024 - length buf) 0"
    "get_le 4 m' (i_size p) = (get_le 4 m (i_size p) + of_nat (length buf) :: 32 word)"
    "get_le 4 m' (i_blocks p) = NUM_DISK_BLKS (get_le 4 m (i_blocks p)) 1024"
    "plain_byte m x \<Longrightarrow> x < a \<or> a + 4 \<le> x \<Longrightarrow> beside p {k} x \<Longrightarrow> m' x = m x"
proof -
  note fs = soundD(1) [OF assms(1)]
  let ?c = "1024 * (k + 1)"
  define m0 where "m0 = block_taken m k"
  define m1 where "m1 = put_le 4 a (of_nat (k + 1) :: 32 word) m0"
  define m2 where "m2 = put_le 4 (p + 28) (NUM_DISK_BLKS (get_le 4 m1 (p + 28)) 1024) m1"
  define m3 where "m3 = put_bytes ?c buf m2"
  have m': "m' = put_le 4 (p + 4) (get_le 4 m3 (p + 4) + of_nat (length buf) :: 32 word) m3"
    by (simp add: m'_def stored_def Let_def inode_fields m0_def m1_def m2_def m3_def k_def)
  have k: "k \<in> fst (free_space m)" "data_block m k" "k < 8 * n_blocks m"
    using fresh_block(1) [OF fs assms(3)] free_block_bound [OF fs] by (auto simp: k_def)
  obtain j where j: "j < n_inodes m" "p = ino_tab m + 128 * j"
    using assms(2) by (auto simp: slot_at_def)
  have "128 * j + 128 \<le> 128 * n_inodes m" using j(1) by simp
  then have slot: "3072 \<le> p" "p + 128 \<le> 131072" "apart p 128 (blk_map m) (n_blocks m)" "apart p 128 (ino_map m) (n_inodes m)" "apart p 128 ?c 1024"
    using fs_okD(5,6,8,9) [OF fs] k(2) j(2) by (auto simp: apart_def data_block_def)
  have a: "3072 \<le> a" "apart a 4 (blk_map m) (n_blocks m)" "apart a 4 (ino_map m) (n_inodes m)" "apart a 4 ?c 1024"
      "apart a 4 (p + 4) 4" "apart a 4 (p + 28) 4"
    using assms(4) k(1) by (auto simp: room_def)
  have c: "3072 \<le> ?c" "apart ?c 1024 (blk_map m) (n_blocks m)" "apart ?c 1024 (ino_map m) (n_inodes m)"
    using k(2) by (auto simp: data_block_def)
  note taken = block_taken [OF assms(1) k(1), folded m0_def]
  have layout0: "blk_map m0 = blk_map m" "ino_map m0 = ino_map m" "n_blocks m0 = n_blocks m" "n_inodes m0 = n_inodes m"
    using taken(2) by (simp_all add: same_layout_def)
  have o1: "m1 x = m0 x" if "x < a \<or> a + 4 \<le> x" for x
    unfolding m1_def using that by (rule put_le_outside)
  have o2: "m2 x = m1 x" if "x < p + 28 \<or> p + 28 + 4 \<le> x" for x
    unfolding m2_def using that by (rule put_le_outside)
  have o3: "m3 x = m2 x" if "x < ?c \<or> ?c + 1024 \<le> x" for x
    using that assms(5) by (auto simp: m3_def put_bytes_apply)
  have o4: "m' x = m3 x" if "x < p + 4 \<or> p + 4 + 4 \<le> x" for x
    unfolding m' using that by (rule put_le_outside)
  have "neutral m0 m0"
    using taken(1) by (simp add: neutral_def)
  then have "neutral m0 m1"
    by (rule neutral_step [where a = a and n = 4]) (use o1 a layout0 in simp_all)
  then have "neutral m0 m2"
    by (rule neutral_step [where a = "p + 28" and n = 4]) (use o2 slot layout0 in \<open>auto simp: apart_def\<close>)
  then have "neutral m0 m3"
    by (rule neutral_step [where a = ?c and n = 1024]) (use o3 c layout0 in simp_all)
  then have "neutral m0 m'"
    by (rule neutral_step [where a = "p + 4" and n = 4]) (use o4 slot layout0 in \<open>auto simp: apart_def\<close>)
  then show "sound m'" "same_layout m m'" "free_space m' = (fst (free_space m) - {k}, snd (free_space m))"
    using taken(3) same_layout_trans [OF taken(2)] by (simp_all add: neutral_def)
  have keep0: "m0 x = m x" if "plain_byte m x" "x < ?c \<or> ?c + 1024 \<le> x" for x
    unfolding m0_def k_def by (rule block_taken_plain [OF assms(1,3)]) (use that in \<open>simp_all add: k_def\<close>)
  show "plain_byte m x \<Longrightarrow> x < a \<or> a + 4 \<le> x \<Longrightarrow> beside p {k} x \<Longrightarrow> m' x = m x"
    using keep0 [of x] o1 [of x] o2 [of x] o3 [of x] o4 [of x] by (auto simp: beside_def)
  have "get_le 4 m' a = (get_le 4 m1 a :: 32 word)"
    by (rule get_le_cong) (use o2 o3 o4 a(4-6) in \<open>auto simp: apart_def\<close>)
  then show "get_le 4 m' a = (of_nat (k + 1) :: 32 word)"
    by (simp add: m1_def get_put_le)
  have data: "m' x = m3 x" "m2 x = m0 x" if "?c \<le> x" "x < ?c + 1024" for x
    using that o4 [of x] o2 [of x] o1 [of x] slot(5) a(4) by (auto simp: apart_def)
  have zero: "m0 x = 0" if "?c \<le> x" "x < ?c + 1024" for x
    using that by (simp add: m0_def block_taken_def put_bytes_apply)
  have content: "m' (?c + i) = (buf @ replicate (1024 - length buf) 0) ! i" if "i < 1024" for i
    using data(1) [of "?c + i"] data(2) [of "?c + i"] zero [of "?c + i"] that
    by (auto simp: m3_def put_bytes_apply nth_append)
  show "get_bytes m' ?c 1024 = buf @ replicate (1024 - length buf) 0"
    by (rule nth_equalityI) (use assms(5) content in \<open>simp_all add: get_bytes_def\<close>)
  have field: "get_le 4 m0 y = (get_le 4 m y :: 32 word)" if "p \<le> y" "y + 4 \<le> p + 128" for y
  proof (rule get_le_cong, rule keep0)
    fix x assume x: "y \<le> x" "x < y + 4"
    show "plain_byte m x"
      by (rule slot_plain_byte [OF fs j(1)]) (use x that j(2) in auto)
    show "x < ?c \<or> ?c + 1024 \<le> x"
      using x that slot(5) by (auto simp: apart_def)
  qed
  have "get_le 4 m3 (p + 4) = (get_le 4 m0 (p + 4) :: 32 word)"
    by (rule get_le_cong) (use o1 o2 o3 a(4-6) slot(5) in \<open>auto simp: apart_def\<close>)
  then show "get_le 4 m' (i_size p) = (get_le 4 m (i_size p) + of_nat (length buf) :: 32 word)"
    using field [of "p + 4"] by (simp add: m' get_put_le inode_fields)
  have "get_le 4 m' (p + 28) = (get_le 4 m2 (p + 28) :: 32 word)"
    by (rule get_le_cong) (use o3 o4 slot(5) in \<open>auto simp: apart_def\<close>)
  moreover have "get_le 4 m1 (p + 28) = (get_le 4 m0 (p + 28) :: 32 word)"
    by (rule get_le_cong) (use o1 a(6) in \<open>auto simp: apart_def\<close>)
  ultimately show "get_le 4 m' (i_blocks p) = NUM_DISK_BLKS (get_le 4 m (i_blocks p)) 1024"
    using field [of "p + 28"] by (simp add: m2_def get_put_le inode_fields)
qed

text \<open>The statements of both loops up to the next round.\<close>

lemma store_run:
  assumes "sound (disk s)" "slot_at (disk s) p" "a + 4 \<le> 131072" "length buf \<le> 1024"
  shows "bnd allocate_block (\<lambda>b. thn (st32 a b) (thn (count_block p) (thn (st_bytes (block_start b) buf)
      (thn (rmw32 (i_size p) (\<lambda>x. x + of_nat (length buf))) K)))) s =
    (if fst (free_space (disk s)) = {} then (Exit ENOMEM, s) else K (s\<lparr>disk := stored p a buf (disk s)\<rparr>))"
proof -
  note fs = soundD(1) [OF assms(1)]
  note p = slot_at_end [OF fs assms(2)]
  show ?thesis
  proof (cases "fst (free_space (disk s)) = {}")
    case True
    then show ?thesis
      using allocate_block_run [OF fs] by (simp add: bnd_def)
  next
    case False
    note k = fresh_block [OF fs False]
    have "1024 * (fresh (disk s) + 1) + 1024 \<le> 131072"
      using k(5) by simp
    then show ?thesis
      using allocate_block_run [OF fs] False p assms(3,4) k(4)
      by (simp add: bnd_run prog count_block_def inode_fields stored_def Let_def fresh_def EXT2_BLOCK_SIZE_def)
  qed
qed

section \<open>Consecutive blocks\<close>

primrec fill :: "nat \<Rightarrow> nat \<Rightarrow> byte list list \<Rightarrow> memory \<Rightarrow> memory" where
  "fill p a [] m = m"
| "fill p a (c # cs) m = fill p (a + 4) cs (stored p a c m)"

definition whole :: "byte list \<Rightarrow> byte list" where
  "whole c = c @ replicate (1024 - length c) 0"

definition add_block :: "32 word \<Rightarrow> 32 word" where
  "add_block n = NUM_DISK_BLKS n 1024"

text \<open>The blocks \<open>ks\<close> hold the pieces \<open>cs\<close> and are noted from \<open>a\<close> on; nothing else has changed.\<close>

definition filled :: "memory \<Rightarrow> nat \<Rightarrow> nat \<Rightarrow> byte list list \<Rightarrow> nat list \<Rightarrow> memory \<Rightarrow> bool" where
  "filled m p a cs ks m' \<longleftrightarrow> length ks = length cs \<and> distinct ks \<and> set ks \<subseteq> fst (free_space m) \<and>
     sound m' \<and> same_layout m m' \<and> free_space m' = (fst (free_space m) - set ks, snd (free_space m)) \<and>
     (\<forall>i < length cs. get_le 4 m' (a + 4 * i) = (of_nat (ks ! i + 1) :: 32 word) \<and>
        get_bytes m' (1024 * (ks ! i + 1)) 1024 = whole (cs ! i)) \<and>
     get_le 4 m' (i_size p) = (get_le 4 m (i_size p) + of_nat (length (concat cs)) :: 32 word) \<and>
     get_le 4 m' (i_blocks p) = (add_block ^^ length cs) (get_le 4 m (i_blocks p)) \<and>
     (\<forall>x. plain_byte m x \<longrightarrow> x < a \<or> a + 4 * length cs \<le> x \<longrightarrow> beside p (set ks) x \<longrightarrow> m' x = m x)"

lemma filledD:
  assumes "filled m p a cs ks m'"
  shows "length ks = length cs" "distinct ks" "set ks \<subseteq> fst (free_space m)" "sound m'" "same_layout m m'"
    "free_space m' = (fst (free_space m) - set ks, snd (free_space m))"
    "\<And>i. i < length cs \<Longrightarrow> get_le 4 m' (a + 4 * i) = (of_nat (ks ! i + 1) :: 32 word)"
    "\<And>i. i < length cs \<Longrightarrow> get_bytes m' (1024 * (ks ! i + 1)) 1024 = whole (cs ! i)"
    "get_le 4 m' (i_size p) = (get_le 4 m (i_size p) + of_nat (length (concat cs)) :: 32 word)"
    "get_le 4 m' (i_blocks p) = (add_block ^^ length cs) (get_le 4 m (i_blocks p))"
    "\<And>x. plain_byte m x \<Longrightarrow> x < a \<or> a + 4 * length cs \<le> x \<Longrightarrow> beside p (set ks) x \<Longrightarrow> m' x = m x"
  using assms unfolding filled_def by blast+

lemma fill_filled:
  assumes "sound m" "slot_at m p" "length cs \<le> card (fst (free_space m))" "room m p a (4 * length cs)"
    and "\<forall>c \<in> set cs. length c \<le> 1024"
  shows "\<exists>ks. filled m p a cs ks (fill p a cs m)"
  using assms
proof (induction cs arbitrary: a m)
  case Nil
  then show ?case by (intro exI [of _ "[]"]) (simp add: filled_def)
next
  case (Cons c cs)
  let ?F = "fst (free_space m)" and ?k = "fresh m" and ?m1 = "stored p a c m"
  have "room m p a (4 + 4 * length cs)" using Cons.prems(4) by simp
  note rooms = room_split [OF this]
  have F: "?F \<noteq> {}"
    using Cons.prems(3) by auto
  note fs = soundD(1) [OF Cons.prems(1)]
  have k: "?k \<in> ?F" "data_block m ?k"
    using fresh_block(1) [OF fs F] free_block_bound [OF fs] by auto
  have c: "length c \<le> 1024" using Cons.prems(5) by simp
  note st = stored [OF Cons.prems(1,2) F rooms(1) c]
  have fin: "finite ?F" by (simp add: free_space_def)
  obtain ks where ks: "filled ?m1 p (a + 4) cs ks (fill p (a + 4) cs ?m1)"
  proof (rule exE [OF Cons.IH])
    show "sound ?m1" "slot_at ?m1 p"
      using st(1) slot_at_layout [OF st(2)] Cons.prems(2) by simp_all
    show "length cs \<le> card (fst (free_space ?m1))"
      using Cons.prems(3) st(3) k(1) fin by (simp add: card_Diff_singleton)
    show "room ?m1 p (a + 4) (4 * length cs)"
      by (rule room_kept [OF rooms(2) st(2)]) (use st(3) in auto)
  qed (use Cons.prems(5) that in auto)
  let ?m' = "fill p (a + 4) cs ?m1"
  note D = filledD [OF ks]
  have sub: "set ks \<subseteq> ?F - {?k}"
    using D(3) st(3) by simp
  have later: "?m' x = ?m1 x" if "plain_byte m x" "x < a + 4 \<or> a + 4 + 4 * length cs \<le> x" "beside p (set ks) x" for x
    by (rule D(11)) (use that plain_byte_layout [OF st(2)] in auto)
  have "get_le 4 ?m' a = (get_le 4 ?m1 a :: 32 word)"
  proof (rule get_le_cong, rule later)
    fix x assume x: "a \<le> x" "x < a + 4"
    show "plain_byte m x" "beside p (set ks) x"
      using x Cons.prems(4) sub unfolding room_def plain_byte_def no_block_byte_def counter_byte_def beside_def apart_def
      by fastforce+
  qed simp
  moreover have "get_bytes ?m' (1024 * (?k + 1)) 1024 = get_bytes ?m1 (1024 * (?k + 1)) 1024"
    unfolding get_bytes_def
  proof (rule map_cong [OF refl], rule later)
    fix x assume x: "x \<in> set [1024 * (?k + 1)..<1024 * (?k + 1) + 1024]"
    then show "plain_byte m x"
      using block_data_byte [of m "of_nat (?k + 1)" x] fresh_block(2,4) [OF fs F] by (intro data_byte_plain) simp
    have "x < 1024 * (k + 1) \<or> 1024 * (k + 1) + 1024 \<le> x" if "k \<in> set ks" for k
    proof -
      have "k < ?k \<or> ?k < k" using that sub by auto
      then show ?thesis using x by auto
    qed
    moreover obtain j where j: "j < n_inodes m" "p = ino_tab m + 128 * j"
      using Cons.prems(2) by (auto simp: slot_at_def)
    moreover have "128 * j + 128 \<le> 128 * n_inodes m" using j(1) by simp
    ultimately show "beside p (set ks) x"
      using x k(2) by (auto simp: beside_def data_block_def apart_def)
    show "x < a + 4 \<or> a + 4 + 4 * length cs \<le> x"
      using x Cons.prems(4) k(1) by (fastforce simp: room_def apart_def)
  qed
  ultimately have first: "get_le 4 ?m' a = (of_nat (?k + 1) :: 32 word)" "get_bytes ?m' (1024 * (?k + 1)) 1024 = whole c"
    using st(4,5) by (simp_all add: whole_def)
  have "filled m p a (c # cs) (?k # ks) ?m'"
    unfolding filled_def
  proof (intro conjI allI impI)
    fix i assume i: "i < length (c # cs)"
    show "get_le 4 ?m' (a + 4 * i) = (of_nat ((?k # ks) ! i + 1) :: 32 word)"
      using first(1) D(7) [of "i - 1"] i by (cases i) (simp_all add: algebra_simps)
    show "get_bytes ?m' (1024 * ((?k # ks) ! i + 1)) 1024 = whole ((c # cs) ! i)"
      using first(2) D(8) [of "i - 1"] i by (cases i) simp_all
  next
    fix x
    assume x: "plain_byte m x" "x < a \<or> a + 4 * length (c # cs) \<le> x" "beside p (set (?k # ks)) x"
    then have "beside p (set ks) x" "beside p {?k} x"
      by (simp_all add: beside_def)
    with x show "?m' x = m x"
      using later [of x] st(8) [of x] by auto
  next
    show "get_le 4 ?m' (i_size p) = (get_le 4 m (i_size p) + of_nat (length (concat (c # cs))) :: 32 word)"
      using D(9) st(6) by simp
    show "get_le 4 ?m' (i_blocks p) = (add_block ^^ length (c # cs)) (get_le 4 m (i_blocks p))"
      using D(10) st(7) by (simp add: add_block_def funpow_swap1)
    show "same_layout m ?m'"
      by (rule same_layout_trans [OF st(2) D(5)])
    show "free_space ?m' = (?F - set (?k # ks), snd (free_space m))"
      using D(6) st(3) by auto
  qed (use D(1,2,4) sub k(1) in auto)
  then show ?case by auto
qed

section \<open>The loops\<close>

text \<open>The bytes that successive calls of \<open>fread\<close> return.\<close>

function chunks :: "byte list \<Rightarrow> byte list list" where
  "chunks bs = (if bs = [] then [] else take 1024 bs # chunks (drop 1024 bs))"
  by auto
termination by (relation "measure length") auto

declare chunks.simps [simp del]

lemma chunks_Nil [simp]: "chunks [] = []"
  by (simp add: chunks.simps)

lemma chunks_Cons: "bs \<noteq> [] \<Longrightarrow> chunks bs = take 1024 bs # chunks (drop 1024 bs)"
  by (subst chunks.simps) simp

lemma chunks_empty [simp]: "chunks bs = [] \<longleftrightarrow> bs = []"
  by (subst chunks.simps) simp

lemma concat_chunks [simp]: "concat (chunks bs) = bs"
  by (induction bs rule: chunks.induct) (subst chunks.simps, simp)

lemma chunks_short: "c \<in> set (chunks bs) \<Longrightarrow> length c \<le> 1024"
proof (induction bs rule: chunks.induct)
  case (1 bs)
  then show ?case by (cases "bs = []") (auto simp: chunks_Cons)
qed

text \<open>All pieces but the last are full.\<close>

lemma chunks_full: "Suc i < length (chunks bs) \<Longrightarrow> length (chunks bs ! i) = 1024"
proof (induction bs arbitrary: i rule: chunks.induct)
  case (1 bs)
  then have bs: "bs \<noteq> []" by auto
  have "1024 < length bs"
  proof (rule ccontr)
    assume "\<not> 1024 < length bs"
    then have "chunks (drop 1024 bs) = []" by simp
    with 1(2) bs show False by (simp add: chunks_Cons)
  qed
  with 1 bs show ?case by (cases i) (simp_all add: chunks_Cons)
qed

lemma fread_run [prog]:
  "fread n s = (Ok (take n (src s)), s\<lparr>src := drop n (src s)\<rparr>)"
  "bnd (fread n) f s = f (take n (src s)) (s\<lparr>src := drop n (src s)\<rparr>)"
  by (simp_all add: fread_def prog bnd_run)

text \<open>After one block the image is again as the loops need it.\<close>

lemma stored_ready:
  assumes "sound m" "slot_at m p" "fst (free_space m) \<noteq> {}" "room m p a (4 + n)" "length buf \<le> 1024"
  defines "m' \<equiv> stored p a buf m"
  shows "sound m'" "slot_at m' p" "room m' p (a + 4) n" "Suc (card (fst (free_space m'))) = card (fst (free_space m))"
proof -
  note rooms = room_split [OF assms(4)]
  note st = stored [OF assms(1-3) rooms(1) assms(5), folded m'_def]
  have fin: "finite (fst (free_space m))" by (simp add: free_space_def)
  show "sound m'" "slot_at m' p"
    using st(1) slot_at_layout [OF st(2)] assms(2) by simp_all
  show "room m' p (a + 4) n"
    by (rule room_kept [OF rooms(2) st(2)]) (use st(3) in auto)
  show "Suc (card (fst (free_space m'))) = card (fst (free_space m))"
    using st(3) fin fresh_block(1) [OF soundD(1) [OF assms(1)] assms(3)] by (simp add: card_Suc_Diff1 del: card_Diff_insert card_Diff_singleton)
qed

lemma copy_direct_run:
  assumes "sound (disk s)" "slot_at (disk s) p" "room (disk s) p (i_block p n) (4 * left)"
  shows "if length (take left (chunks (src s))) \<le> card (fst (free_space (disk s)))
    then copy_direct p n left s = (Ok (n + length (take left (chunks (src s)))),
      s\<lparr>disk := fill p (i_block p n) (take left (chunks (src s))) (disk s), src := drop (1024 * left) (src s)\<rparr>)
    else \<exists>t. copy_direct p n left s = (Exit ENOMEM, t)"
  using assms
proof (induction left arbitrary: n s)
  case 0
  then show ?case by (simp add: ret_def)
next
  case (Suc left)
  show ?case
  proof (cases "src s = []")
    case True
    then show ?thesis by (simp add: prog EXT2_BLOCK_SIZE_def)
  next
    case False
    let ?c = "take 1024 (src s)" and ?s1 = "s\<lparr>src := drop 1024 (src s)\<rparr>" and ?F = "fst (free_space (disk s))"
    let ?m1 = "stored p (i_block p n) ?c (disk s)"
    have cs: "take (Suc left) (chunks (src s)) = ?c # take left (chunks (drop 1024 (src s)))"
      using False by (simp add: chunks_Cons)
    have rooms: "room (disk s) p (i_block p n) (4 + 4 * left)"
      using Suc.prems(3) by simp
    have ptr: "i_block p n + 4 \<le> 131072" "i_block p (Suc n) = i_block p n + 4"
      using rooms by (simp_all add: room_def i_block_def)
    have run: "copy_direct p n (Suc left) s =
        (if ?F = {} then (Exit ENOMEM, ?s1) else copy_direct p (Suc n) left (?s1\<lparr>disk := ?m1\<rparr>))"
      using store_run [of ?s1 p "i_block p n" ?c "copy_direct p (Suc n) left"] Suc.prems(1,2) ptr(1) False
      by (simp add: prog EXT2_BLOCK_SIZE_def)
    show ?thesis
    proof (cases "?F = {}")
      case True
      with run cs show ?thesis by simp
    next
      case F: False
      have c: "length ?c \<le> 1024" by simp
      note next1 = stored_ready [OF Suc.prems(1,2) F rooms c]
      show ?thesis
        using Suc.IH [of "?s1\<lparr>disk := ?m1\<rparr>" "Suc n"] next1 run F cs ptr(2)
        by (simp add: add.commute [of _ "1024 * left"] split: if_splits)
    qed
  qed
qed

lemma copy_indirect_run:
  assumes "sound (disk s)" "slot_at (disk s) p" "room (disk s) p pos (4 * left)" "0 < left"
    and "length buf \<le> 1024"
  shows "if length (take left (buf # chunks (src s))) \<le> card (fst (free_space (disk s)))
    then \<exists>t. copy_indirect p pos left buf s = (Ok (), t) \<and>
      disk t = fill p pos (take left (buf # chunks (src s))) (disk s) \<and> now t = now s
    else \<exists>t. copy_indirect p pos left buf s = (Exit ENOMEM, t)"
  using assms
proof (induction left arbitrary: pos s buf)
  case (Suc left)
  let ?F = "fst (free_space (disk s))" and ?m1 = "stored p pos buf (disk s)"
  let ?next = "if left = 0 then ret () else bnd (fread EXT2_BLOCK_SIZE) (\<lambda>buf'.
       if buf' = [] then ret () else copy_indirect p (pos + 4) left buf')"
  have rooms: "room (disk s) p pos (4 + 4 * left)"
    using Suc.prems(3) by simp
  then have ptr: "pos + 4 \<le> 131072"
    by (simp add: room_def)
  have run: "copy_indirect p pos (Suc left) buf s =
      (if ?F = {} then (Exit ENOMEM, s) else ?next (s\<lparr>disk := ?m1\<rparr>))"
    unfolding copy_indirect.simps by (rule store_run) (use Suc.prems ptr in simp_all)
  show ?case
  proof (cases "?F = {}")
    case True
    with run show ?thesis by simp
  next
    case F: False
    note next1 = stored_ready [OF Suc.prems(1,2) F rooms Suc.prems(5)]
    consider "left = 0 \<or> src s = []" | "left \<noteq> 0" "src s \<noteq> []" by blast
    then show ?thesis
    proof cases
      case 1
      then have "\<exists>t. ?next (s\<lparr>disk := ?m1\<rparr>) = (Ok (), t) \<and> disk t = ?m1 \<and> now t = now s"
        by (auto simp: prog)
      then obtain t where "copy_indirect p pos (Suc left) buf s = (Ok (), t)" "disk t = ?m1" "now t = now s"
        using run F by (simp del: copy_indirect.simps) blast
      moreover have "take (Suc left) (buf # chunks (src s)) = [buf]"
        using 1 by auto
      moreover have "1 \<le> card ?F" using next1(4) by simp
      ultimately show ?thesis
        by (simp del: copy_indirect.simps take_Suc_Cons)
    next
      case 2
      let ?s2 = "s\<lparr>disk := ?m1, src := drop 1024 (src s)\<rparr>" and ?c = "take 1024 (src s)"
      have "?next (s\<lparr>disk := ?m1\<rparr>) = copy_indirect p (pos + 4) left ?c ?s2"
        using 2 by (simp add: prog EXT2_BLOCK_SIZE_def)
      with 2 run F next1 Suc.IH [of ?s2 "pos + 4" ?c] show ?thesis
        by (auto simp: chunks_Cons simp del: copy_indirect.simps split: if_splits)
    qed
  qed
qed simp

lemma store_ptr_run:
  assumes "sound (disk s)" "slot_at (disk s) p" "a + 4 \<le> 131072"
  shows "bnd allocate_block (\<lambda>b. thn (st32 a b) (thn (count_block p) (K b))) s =
    (if fst (free_space (disk s)) = {} then (Exit ENOMEM, s)
     else K (of_nat (fresh (disk s) + 1)) (s\<lparr>disk := stored p a [] (disk s)\<rparr>))"
proof -
  note fs = soundD(1) [OF assms(1)]
  have p: "p + 128 \<le> 131072"
    using slot_at_end [OF fs assms(2)] .
  show ?thesis
  proof (cases "fst (free_space (disk s)) = {}")
    case True
    then show ?thesis
      using allocate_block_run [OF fs] by (simp add: bnd_def)
  next
    case False
    have "allocate_block s = (Ok (of_nat (fresh (disk s) + 1)), s\<lparr>disk := block_taken (disk s) (fresh (disk s))\<rparr>)"
      using allocate_block_run [OF fs] False by (simp add: Let_def fresh_def)
    then show ?thesis
      using False p assms(3)
      by (simp add: bnd_run prog count_block_def inode_fields stored_def Let_def put_le_same EXT2_BLOCK_SIZE_def)
  qed
qed

lemma chunks_drop: "chunks (drop (1024 * n) bs) = drop n (chunks bs)"
proof (induction n arbitrary: bs)
  case (Suc n)
  have "chunks (drop (1024 * n) (drop 1024 bs)) = drop n (chunks (drop 1024 bs))"
    by (rule Suc)
  moreover have "drop (1024 * n) (drop 1024 bs) = drop (1024 * Suc n) bs"
    by (simp add: add.commute)
  ultimately show ?case by (cases "bs = []") (simp_all add: chunks_Cons)
qed simp

lemma inode_room:
  assumes "sound m" "slot_at m p" "n + k \<le> 22"
  shows "room m p (i_block p n) (4 * k)"
proof -
  note fs = soundD(1) [OF assms(1)]
  obtain j where j: "j < n_inodes m" "p = ino_tab m + 128 * j"
    using assms(2) by (auto simp: slot_at_def)
  have top: "128 * j + 128 \<le> 128 * n_inodes m" using j(1) by simp
  have "apart (i_block p n) (4 * k) (1024 * (f + 1)) 1024" if "f \<in> fst (free_space m)" for f
    using free_block_bound [OF fs that] j top assms(3) by (auto simp: data_block_def apart_def i_block_def)
  then show ?thesis
    using slot_region [OF fs j(1)] slot_at_end [OF fs assms(2)] j(2) assms(3) by (auto simp: room_def apart_def i_block_def)
qed

lemma few_free:
  assumes "fs_ok m"
  shows "card (fst (free_space m)) \<le> 127"
proof -
  have "fst (free_space m) \<subseteq> {..<127}"
    using free_block_bound [OF assms] by auto
  from card_mono [OF _ this] show ?thesis by simp
qed

text \<open>The number of blocks a file takes, and the image with its bytes.\<close>

definition needed :: "byte list \<Rightarrow> nat" where
  "needed bs = (let n = length (chunks bs) in if n \<le> 12 then n else Suc n)"

definition copied :: "nat \<Rightarrow> byte list \<Rightarrow> memory \<Rightarrow> memory" where
  "copied p bs m = (let cs = chunks bs; m1 = fill p (i_block p 0) (take 12 cs) m
     in if length cs \<le> 12 then m1
        else fill p (1024 * (fresh m1 + 1)) (drop 12 cs) (stored p (i_block p 12) [] m1))"

lemma copied_direct:
  assumes "sound m" "slot_at m p" "12 \<le> length (chunks bs)" "12 \<le> card (fst (free_space m))"
  defines "m1 \<equiv> fill p (i_block p 0) (take 12 (chunks bs)) m"
  shows "\<exists>ks. filled m p (i_block p 0) (take 12 (chunks bs)) ks m1" "sound m1" "slot_at m1 p"
    "card (fst (free_space m1)) = card (fst (free_space m)) - 12"
proof -
  let ?ds = "take 12 (chunks bs)"
  have len: "length ?ds = 12"
    using assms(3) by simp
  have "\<exists>ks. filled m p (i_block p 0) ?ds ks (fill p (i_block p 0) ?ds m)"
    by (rule fill_filled [OF assms(1,2)])
      (use len assms(4) inode_room [OF assms(1,2), of 0 12] chunks_short in \<open>auto dest: in_set_takeD\<close>)
  then obtain ks where ks: "filled m p (i_block p 0) ?ds ks m1"
    unfolding m1_def by blast
  then show "\<exists>ks. filled m p (i_block p 0) ?ds ks m1" by blast
  note D = filledD [OF ks]
  show s1: "sound m1" "slot_at m1 p"
    using D(4) slot_at_layout [OF D(5)] assms(2) by simp_all
  have fin: "finite (fst (free_space m))" by (simp add: free_space_def)
  have "card (set ks) = 12"
    using D(1,2) len distinct_card by fastforce
  then show "card (fst (free_space m1)) = card (fst (free_space m)) - 12"
    using D(3,6) fin card_Diff_subset [of "set ks"] by simp
qed

lemma copied_parts:
  assumes "sound m" "slot_at m p" "12 < length (chunks bs)" "12 < card (fst (free_space m))"
  defines "m1 \<equiv> fill p (i_block p 0) (take 12 (chunks bs)) m"
  defines "m2 \<equiv> stored p (i_block p 12) [] m1"
  shows "fst (free_space m1) \<noteq> {}" "room m1 p (i_block p 12) 4"
    "sound m2" "slot_at m2 p" "Suc (card (fst (free_space m2))) = card (fst (free_space m)) - 12"
    "room m2 p (1024 * (fresh m1 + 1)) 1024"
proof -
  have "12 \<le> length (chunks bs)" "12 \<le> card (fst (free_space m))"
    using assms(3,4) by simp_all
  note parts = copied_direct [OF assms(1,2) this, folded m1_def]
  note s1 = parts(2,3) and card1 = parts(4)
  have "card (fst (free_space m1)) \<noteq> 0"
    using assms(4) card1 by simp
  then show F1: "fst (free_space m1) \<noteq> {}"
    by auto
  show room1: "room m1 p (i_block p 12) 4"
    using inode_room [OF s1, of 12 1] by simp
  then have "room m1 p (i_block p 12) (4 + 0)" by simp
  note ready = stored_ready [OF s1 F1 this, of "[]", folded m2_def]
  note st = stored [OF s1 F1 room1, of "[]", folded m2_def]
  show s2: "sound m2" "slot_at m2 p" "Suc (card (fst (free_space m2))) = card (fst (free_space m)) - 12"
    using ready card1 by simp_all
  let ?k = "fresh m1"
  note fs1 = soundD(1) [OF s1(1)]
  have k: "?k \<in> fst (free_space m1)" "data_block m1 ?k"
    using fresh_block(1) [OF fs1 F1] free_block_bound [OF fs1] by auto
  obtain j where j: "j < n_inodes m1" "p = ino_tab m1 + 128 * j"
    using s1(2) by (auto simp: slot_at_def)
  have top: "128 * j + 128 \<le> 128 * n_inodes m1" using j(1) by simp
  have "apart (1024 * (?k + 1)) 1024 (1024 * (f + 1)) 1024" if "f \<in> fst (free_space m2)" for f
  proof -
    have "f < ?k \<or> ?k < f" using that st(3) by auto
    then show ?thesis by (auto simp: apart_def)
  qed
  moreover have "blk_map m2 = blk_map m1" "ino_map m2 = ino_map m1" "n_blocks m2 = n_blocks m1" "n_inodes m2 = n_inodes m1"
    using st(2) by (simp_all add: same_layout_def)
  ultimately show "room m2 p (1024 * (?k + 1)) 1024"
    using k(2) j(2) top by (auto simp: room_def data_block_def apart_def)
qed

lemma copy_run:
  assumes "sound (disk s)" "slot_at (disk s) p"
  shows "if needed (src s) \<le> card (fst (free_space (disk s)))
    then \<exists>t. copy_sourcefile_data p s = (Ok (), t) \<and> disk t = copied p (src s) (disk s) \<and> now t = now s
    else \<exists>t. copy_sourcefile_data p s = (Exit ENOMEM, t)"
proof -
  let ?bs = "src s" and ?F = "fst (free_space (disk s))"
  let ?cs = "chunks ?bs"
  let ?m1 = "fill p (i_block p 0) (take 12 ?cs) (disk s)"
  let ?s1 = "s\<lparr>disk := ?m1, src := drop 12288 ?bs\<rparr>" and ?n = "min (length ?cs) 12"
  have rest: "chunks (drop 12288 ?bs) = drop 12 ?cs"
    using chunks_drop [of 12 ?bs] by simp
  have direct: "if ?n \<le> card ?F then copy_direct p 0 12 s = (Ok ?n, ?s1) else \<exists>t. copy_direct p 0 12 s = (Exit ENOMEM, t)"
    using copy_direct_run [OF assms, of 0 12] inode_room [OF assms, of 0 12] by simp
  show ?thesis
  proof (cases "?n \<le> card ?F")
    case False
    then obtain t where "copy_direct p 0 12 s = (Exit ENOMEM, t)"
      using direct by auto
    then show ?thesis
      using False by (auto simp: copy_sourcefile_data_def bnd_def needed_def Let_def)
  next
    case True
    with direct have run1: "copy_direct p 0 12 s = (Ok ?n, ?s1)" by simp
    show ?thesis
    proof (cases "length ?cs \<le> 12")
      case True
      then have "drop 12288 ?bs = []"
        using rest by simp
      then show ?thesis
        using run1 True \<open>?n \<le> card ?F\<close>
        by (simp add: copy_sourcefile_data_def bnd_run prog EXT2_BLOCK_SIZE_def needed_def copied_def Let_def min_def)
    next
      case long: False
      then have more: "drop 12288 ?bs \<noteq> []"
        using rest by auto
      have len: "12 < length ?cs" "12 \<le> length ?cs" "12 \<le> card ?F"
        using long \<open>?n \<le> card ?F\<close> by simp_all
      note parts1 = copied_direct [OF assms len(2,3)]
      let ?s2 = "s\<lparr>disk := ?m1, src := drop 13312 ?bs\<rparr>" and ?m2 = "stored p (i_block p 12) [] ?m1"
      let ?buf = "take 1024 (drop 12288 ?bs)" and ?k = "fresh ?m1"
      let ?ind = "\<lambda>i. copy_indirect p (block_start i) 256 ?buf"
      have last: "i_block p 12 + 4 \<le> 131072"
        using slot_at_end [OF soundD(1) [OF assms(1)] assms(2)] by (simp add: i_block_def)
      have "copy_sourcefile_data p s =
          bnd allocate_block (\<lambda>b. thn (st32 (i_block p 12) b) (thn (count_block p) (?ind b))) ?s2"
        using run1 len more by (simp add: copy_sourcefile_data_def bnd_run prog EXT2_BLOCK_SIZE_def max_indirect_blocks_def min_def)
      also have "\<dots> = (if fst (free_space ?m1) = {} then (Exit ENOMEM, ?s2)
          else ?ind (of_nat (?k + 1)) (?s2\<lparr>disk := ?m2\<rparr>))"
        using store_ptr_run [of ?s2 p "i_block p 12" ?ind] parts1(2,3) last by simp
      finally have run: "copy_sourcefile_data p s = (if fst (free_space ?m1) = {} then (Exit ENOMEM, ?s2)
          else ?ind (of_nat (?k + 1)) (?s2\<lparr>disk := ?m2\<rparr>))" .
      have need: "needed ?bs = Suc (length ?cs)"
        using len by (simp add: needed_def Let_def)
      show ?thesis
      proof (cases "12 < card ?F")
        case False
        then have "fst (free_space ?m1) = {}"
          using parts1(4) by (simp add: free_space_def)
        with run False need len show ?thesis by simp
      next
        case True
        note parts = copied_parts [OF assms len(1) True]
        have start: "block_start (of_nat (?k + 1)) = 1024 * (?k + 1)"
          by (rule fresh_block(4) [OF soundD(1) [OF parts1(2)] parts(1)])
        have "?buf # chunks (drop 13312 ?bs) = drop 12 ?cs"
          using more rest by (simp add: chunks_Cons)
        moreover have "length (take 256 (drop 12 ?cs)) \<le> card (fst (free_space ?m2)) \<longleftrightarrow> needed ?bs \<le> card ?F"
          using parts(5) few_free [OF soundD(1) [OF assms(1)]] need len by auto
        moreover have "take 256 (drop 12 ?cs) = drop 12 ?cs" if "needed ?bs \<le> card ?F"
          using few_free [OF soundD(1) [OF assms(1)]] need that by simp
        ultimately show ?thesis
          using copy_indirect_run [of "?s2\<lparr>disk := ?m2\<rparr>" p "1024 * (?k + 1)" 256 ?buf] parts(3,4,6) run parts(1) start len
          by (auto simp: copied_def Let_def)
      qed
    qed
  qed
qed

section \<open>Reading back\<close>

definition blank :: "memory \<Rightarrow> nat \<Rightarrow> bool" where
  "blank m p \<longleftrightarrow> (\<forall>n \<le> 12. get_le 4 m (i_block p n) = (0 :: 32 word)) \<and>
     get_le 4 m (i_size p) = (0 :: 32 word) \<and> get_le 4 m (i_blocks p) = (0 :: 32 word)"

definition data_blocks :: "memory \<Rightarrow> nat \<Rightarrow> 32 word list" where
  "data_blocks m p = dir_blocks m p @ (if indirect_of m p = 0 then [] else indirect_words m (indirect_of m p))"

definition file_bytes :: "memory \<Rightarrow> nat \<Rightarrow> byte list" where
  "file_bytes m p = take (unat (get_le 4 m (i_size p) :: 32 word))
     (concat (map (\<lambda>b. get_bytes m (block_start b) 1024) (data_blocks m p)))"

definition num :: "nat \<Rightarrow> 32 word" where
  "num k = of_nat (k + 1)"

lemma num:
  "k < 127 \<Longrightarrow> num k \<noteq> 0" "k < 127 \<Longrightarrow> slot_of (num k) = k" "k < 127 \<Longrightarrow> block_start (num k) = 1024 * (k + 1)"
  using slot_of_num [of k] block_start_num [of k] by (auto simp: num_def)

lemma dir_blocks_words:
  assumes "length ws \<le> 12" "0 \<notin> set ws" "\<And>i. i < length ws \<Longrightarrow> get_le 4 m (i_block p i) = ws ! i"
    and "length ws < 12 \<Longrightarrow> get_le 4 m (i_block p (length ws)) = (0 :: 32 word)"
  shows "dir_blocks m p = ws"
proof -
  let ?w = "\<lambda>n. get_le 4 m (i_block p n) :: 32 word" and ?n = "length ws"
  have front: "map ?w [0..<?n] = ws"
    by (rule nth_equalityI) (use assms(3) in simp_all)
  have "[0..<12] = [0..<?n] @ [?n..<12]"
    using assms(1) upt_add_eq_append [of 0 ?n "12 - ?n"] by simp
  then have "map ?w [0..<12] = ws @ map ?w [?n..<12]"
    by (simp add: front del: upt_Suc)
  moreover have "takeWhile (\<lambda>b. b \<noteq> 0) (ws @ ys) = ws @ takeWhile (\<lambda>b. b \<noteq> 0) ys" for ys
    by (rule takeWhile_append2) (use assms(2) in auto)
  moreover have "takeWhile (\<lambda>b. b \<noteq> 0) (map ?w [?n..<12]) = []"
    using assms(1,4) by (cases "?n < 12") (simp_all add: upt_conv_Cons del: upt_Suc)
  ultimately show ?thesis by (simp add: dir_blocks_def del: upt_Suc)
qed

lemma listed_words:
  assumes "length ws < left" "0 \<notin> set ws" "\<And>i. i < length ws \<Longrightarrow> get_le 4 m (a + 4 * i) = ws ! i"
    and "get_le 4 m (a + 4 * length ws) = (0 :: 32 word)"
  shows "listed left m (a + 4) (get_le 4 m a) = ws"
  using assms
proof (induction ws arbitrary: a left)
  case Nil
  then show ?case by (cases left) simp_all
next
  case (Cons w ws)
  obtain l where l: "left = Suc l" using Cons.prems(1) by (cases left) auto
  have "listed l m (a + 4 + 4) (get_le 4 m (a + 4)) = ws"
  proof (rule Cons.IH)
    show "get_le 4 m (a + 4 + 4 * i) = ws ! i" if "i < length ws" for i
      using Cons.prems(3) [of "Suc i"] that by (simp add: algebra_simps)
    show "get_le 4 m (a + 4 + 4 * length ws) = (0 :: 32 word)"
      using Cons.prems(4) by (simp add: algebra_simps)
  qed (use Cons.prems l in auto)
  moreover have "get_le 4 m a = w" "w \<noteq> 0"
    using Cons.prems(2) Cons.prems(3) [of 0] by auto
  ultimately show ?case by (simp add: l)
qed

lemma take_whole: "take (length bs) (concat (map whole (chunks bs))) = bs"
proof (induction bs rule: chunks.induct)
  case (1 bs)
  show ?case
  proof (cases "length bs \<le> 1024")
    case True
    then show ?thesis by (cases "bs = []") (simp_all add: chunks_Cons whole_def)
  next
    case False
    then have "bs \<noteq> []" by auto
    with 1 have IH: "take (length bs - 1024) (concat (map whole (chunks (drop 1024 bs)))) = drop 1024 bs" by simp
    have "whole (take 1024 bs) = take 1024 bs"
      using False by (simp add: whole_def)
    then have "concat (map whole (chunks bs)) = take 1024 bs @ concat (map whole (chunks (drop 1024 bs)))"
      using \<open>bs \<noteq> []\<close> by (subst chunks_Cons) simp_all
    with False show ?thesis
      by (simp add: IH)
  qed
qed

lemma add_block:
  assumes "n < 2 ^ 20"
  shows "add_block (of_nat (2 * n)) = of_nat (2 * Suc n)"
proof -
  have num: "unat (of_nat k :: 32 word) = k" if "k < 2 ^ 31" for k
    using that by (simp add: unat_of_nat take_bit_nat_eq_self)
  have "add_block (of_nat (2 * n)) = of_nat (1024 * Suc n) div 512"
    by (simp add: add_block_def NUM_DISK_BLKS_def add.commute)
  moreover have "unat (of_nat (1024 * Suc n) div 512 :: 32 word) = 2 * Suc n"
  proof -
    have "1024 * Suc n < 2 ^ 31" using assms by simp
    then have "unat (of_nat (1024 * Suc n) div 512 :: 32 word) = 1024 * Suc n div unat (512 :: 32 word)"
      by (simp only: unat_div_distrib num)
    then show ?thesis by simp
  qed
  moreover have "unat (of_nat (2 * Suc n) :: 32 word) = 2 * Suc n"
    by (rule num) (use assms in simp)
  ultimately show ?thesis
    by (metis word_unat_eq_iff)
qed

lemma add_blocks: "n < 2 ^ 20 \<Longrightarrow> (add_block ^^ n) 0 = of_nat (2 * n)"
proof (induction n)
  case (Suc n)
  then have "(add_block ^^ n) 0 = of_nat (2 * n)" by simp
  then show ?case using add_block [of n] Suc.prems by (simp del: of_nat_mult)
qed simp

text \<open>The blocks \<open>qs\<close> hold the data of the file at \<open>p\<close> and \<open>ls\<close> is its indirect block, if any.\<close>

definition holds :: "memory \<Rightarrow> nat \<Rightarrow> byte list \<Rightarrow> nat list \<Rightarrow> nat list \<Rightarrow> memory \<Rightarrow> bool" where
  "holds m p bs qs ls m' \<longleftrightarrow> sound m' \<and> same_layout m m' \<and> distinct (qs @ ls) \<and> set (qs @ ls) \<subseteq> fst (free_space m) \<and>
     free_space m' = (fst (free_space m) - set (qs @ ls), snd (free_space m)) \<and>
     length qs = length (chunks bs) \<and> length (qs @ ls) = needed bs \<and>
     data_blocks m' p = map num qs \<and> file_blocks m' p = map num (qs @ ls) \<and>
     (\<forall>i < length qs. get_bytes m' (1024 * (qs ! i + 1)) 1024 = whole (chunks bs ! i)) \<and>
     get_le 4 m' (i_size p) = (of_nat (length bs) :: 32 word) \<and> get_le 4 m' (i_blocks p) = (add_block ^^ needed bs) 0 \<and>
     (\<forall>x. plain_byte m x \<longrightarrow> x < p + 40 \<or> p + 92 \<le> x \<longrightarrow> beside p (set (qs @ ls)) x \<longrightarrow> m' x = m x)"

text \<open>Where the bytes of data blocks and of the inode lie.\<close>

lemma block_place:
  assumes "fs_ok m" "slot_at m p" "data_block m k" "1024 * (k + 1) \<le> x" "x < 1024 * (k + 1) + 1024"
  shows "plain_byte m x" "x < p \<or> p + 128 \<le> x" "k \<notin> K \<Longrightarrow> beside p K x"
proof -
  obtain j where j: "j < n_inodes m" "p = ino_tab m + 128 * j"
    using assms(2) by (auto simp: slot_at_def)
  have top: "128 * j + 128 \<le> 128 * n_inodes m" using j(1) by simp
  show "plain_byte m x" "x < p \<or> p + 128 \<le> x"
    using assms(3-5) j(2) top by (auto simp: plain_byte_def no_block_byte_def counter_byte_def data_block_def apart_def)
  moreover have "x < 1024 * (f + 1) \<or> 1024 * (f + 1) + 1024 \<le> x" if "k \<notin> K" "f \<in> K" for f
  proof -
    have "f < k \<or> k < f" using that by (cases f k rule: linorder_cases) auto
    then show ?thesis using assms(4,5) by auto
  qed
  ultimately show "k \<notin> K \<Longrightarrow> beside p K x"
    by (auto simp: beside_def)
qed

lemma inode_place:
  assumes "fs_ok m" "slot_at m p" "K \<subseteq> Collect (data_block m)" "p \<le> x" "x < p + 128"
  shows "plain_byte m x" "p + 32 \<le> x \<Longrightarrow> beside p K x"
proof -
  obtain j where j: "j < n_inodes m" "p = ino_tab m + 128 * j"
    using assms(2) by (auto simp: slot_at_def)
  show "plain_byte m x"
    by (rule slot_plain_byte [OF assms(1) j(1)]) (use assms(4,5) j(2) in auto)
  have top: "128 * j + 128 \<le> 128 * n_inodes m" using j(1) by simp
  have "x < 1024 * (f + 1) \<or> 1024 * (f + 1) + 1024 \<le> x" if "f \<in> K" for f
  proof -
    have "data_block m f" using that assms(3) by blast
    then show ?thesis
      using assms(4,5) j(2) top by (auto simp: data_block_def apart_def)
  qed
  then show "p + 32 \<le> x \<Longrightarrow> beside p K x"
    by (auto simp: beside_def)
qed

lemma free_data: "fs_ok m \<Longrightarrow> fst (free_space m) \<subseteq> Collect (data_block m)"
  using free_block_bound by blast

lemma copied_short:
  assumes "sound m" "slot_at m p" "blank m p" "length (chunks bs) \<le> 12" "length (chunks bs) \<le> card (fst (free_space m))"
  shows "\<exists>qs. holds m p bs qs [] (copied p bs m)"
proof -
  let ?cs = "chunks bs" and ?m' = "copied p bs m"
  note fs = soundD(1) [OF assms(1)]
  have m': "?m' = fill p (i_block p 0) ?cs m"
    using assms(4) by (simp add: copied_def Let_def)
  have "\<exists>ks. filled m p (i_block p 0) ?cs ks (fill p (i_block p 0) ?cs m)"
    by (rule fill_filled [OF assms(1,2,5)]) (use assms(4) inode_room [OF assms(1,2), of 0 "length ?cs"] chunks_short in auto)
  then obtain qs where qs: "filled m p (i_block p 0) ?cs qs ?m'"
    unfolding m' by blast
  note D = filledD [OF qs]
  have data: "set qs \<subseteq> Collect (data_block m)"
    using D(3) free_data [OF fs] by blast
  then have small: "q < 127" if "q \<in> set qs" for q
    using that by (auto simp: data_block_def)
  have zero: "get_le 4 ?m' (i_block p n) = (0 :: 32 word)" if "length ?cs \<le> n" "n \<le> 12" for n
  proof -
    have "get_le 4 ?m' (i_block p n) = (get_le 4 m (i_block p n) :: 32 word)"
    proof (rule get_le_cong, rule D(11))
      fix x assume x: "i_block p n \<le> x" "x < i_block p n + 4"
      have "p \<le> x" "x < p + 128" "p + 32 \<le> x"
        using x that by (simp_all add: i_block_def)
      with inode_place [OF fs assms(2) data] show "plain_byte m x" "beside p (set qs) x" by blast+
      show "x < i_block p 0 \<or> i_block p 0 + 4 * length ?cs \<le> x"
        using x that by (simp add: i_block_def)
    qed
    then show ?thesis using assms(3) that by (simp add: blank_def)
  qed
  have "dir_blocks ?m' p = map num qs"
  proof (rule dir_blocks_words)
    show "0 \<notin> set (map num qs)"
      using num(1) small by fastforce
    show "get_le 4 ?m' (i_block p i) = map num qs ! i" if "i < length (map num qs)" for i
      using D(7) [of i] D(1) that by (simp add: i_block_def num_def)
  qed (use D(1) assms(4) zero in auto)
  moreover have "indirect_of ?m' p = 0"
    unfolding indirect_of_def using zero [of "length qs"] calculation D(1) assms(4) by simp
  ultimately have "data_blocks ?m' p = map num qs" "file_blocks ?m' p = map num qs"
    by (simp_all add: data_blocks_def file_blocks_def)
  moreover have "needed bs = length ?cs"
    using assms(4) by (simp add: needed_def)
  moreover have "?m' x = m x" if "plain_byte m x" "x < p + 40 \<or> p + 92 \<le> x" "beside p (set qs) x" for x
    by (rule D(11) [OF that(1) _ that(3)]) (use that(2) assms(4) in \<open>auto simp: i_block_def\<close>)
  ultimately have "holds m p bs qs [] ?m'"
    using D assms(3) unfolding holds_def by (simp add: blank_def)
  then show ?thesis by blast
qed

lemma room_less: "room m p a n \<Longrightarrow> k \<le> n \<Longrightarrow> room m p a k"
  by (auto simp: room_def apart_def)

lemma get_le_zero: "(\<And>x. a \<le> x \<Longrightarrow> x < a + n \<Longrightarrow> m x = 0) \<Longrightarrow> get_le n m a = 0"
  by (induction n arbitrary: a) auto

text \<open>
  A file with an indirect block: the first twelve pieces, the indirect block \<open>k\<close>, and the pieces noted in it.
\<close>

definition chained :: "memory \<Rightarrow> nat \<Rightarrow> byte list list \<Rightarrow> nat list \<Rightarrow> nat \<Rightarrow> nat list \<Rightarrow> memory \<Rightarrow> memory \<Rightarrow> memory \<Rightarrow> bool" where
  "chained m p cs ks k ls m1 m2 m' \<longleftrightarrow> sound m \<and> slot_at m p \<and> 12 < length cs \<and> length cs < 127 \<and>
     filled m p (i_block p 0) (take 12 cs) ks m1 \<and> filled m1 p (i_block p 12) [[]] [k] m2 \<and>
     filled m2 p (1024 * (k + 1)) (drop 12 cs) ls m'"

lemma copied_chained:
  assumes "sound m" "slot_at m p" "12 < length (chunks bs)" "needed bs \<le> card (fst (free_space m))"
  shows "\<exists>ks k ls m1 m2. chained m p (chunks bs) ks k ls m1 m2 (copied p bs m)"
proof -
  let ?cs = "chunks bs" and ?F = "fst (free_space m)"
  define m1 where "m1 = fill p (i_block p 0) (take 12 ?cs) m"
  define k where "k = fresh m1"
  define m2 where "m2 = stored p (i_block p 12) [] m1"
  have need: "needed bs = Suc (length ?cs)"
    using assms(3) by (simp add: needed_def Let_def)
  have len: "12 \<le> length ?cs" "12 \<le> card ?F" "12 < card ?F" "length ?cs < 127"
    using assms(3,4) need few_free [OF soundD(1) [OF assms(1)]] by simp_all
  note parts1 = copied_direct [OF assms(1,2) len(1,2), folded m1_def]
  note parts = copied_parts [OF assms(1-3) len(3), folded m1_def, folded m2_def k_def]
  have "length ([] :: byte list) \<le> 1024" by simp
  note st = stored [OF parts1(2,3) parts(1,2) this, folded m2_def k_def]
  have "k \<in> fst (free_space m1)"
    using fresh_block(1) [OF soundD(1) [OF parts1(2)] parts(1)] by (simp add: k_def)
  then have "filled m1 p (i_block p 12) [[]] [k] m2"
    using st by (simp add: filled_def whole_def add_block_def)
  moreover have "\<exists>ls. filled m2 p (1024 * (k + 1)) (drop 12 ?cs) ls (fill p (1024 * (k + 1)) (drop 12 ?cs) m2)"
    by (rule fill_filled [OF parts(3,4)])
      (use parts(5,6) need assms(4) len chunks_short in \<open>auto dest: in_set_dropD intro: room_less\<close>)
  moreover have "copied p bs m = fill p (1024 * (k + 1)) (drop 12 ?cs) m2"
    using assms(3) by (simp add: copied_def Let_def m2_def m1_def k_def)
  ultimately show ?thesis
    using parts1(1) assms(1-3) len(4) unfolding chained_def by metis
qed

lemma chainedD:
  assumes "chained m p cs ks k ls m1 m2 m'"
  shows "sound m" "fs_ok m" "slot_at m p" "12 < length cs" "length cs < 127" "length ks = 12" "length ls = length cs - 12"
    "set ks \<subseteq> fst (free_space m)" "k \<in> fst (free_space m) - set ks" "set ls \<subseteq> fst (free_space m) - set ks - {k}"
    "q \<in> set ks \<union> {k} \<union> set ls \<Longrightarrow> data_block m q \<and> q < 127"
    "filled m p (i_block p 0) (take 12 cs) ks m1" "filled m1 p (i_block p 12) [[]] [k] m2"
    "filled m2 p (1024 * (k + 1)) (drop 12 cs) ls m'" "same_layout m m1" "same_layout m m2" "same_layout m m'"
proof -
  show C: "sound m" "slot_at m p" "12 < length cs" "length cs < 127" "filled m p (i_block p 0) (take 12 cs) ks m1"
    "filled m1 p (i_block p 12) [[]] [k] m2" "filled m2 p (1024 * (k + 1)) (drop 12 cs) ls m'"
    using assms by (simp_all add: chained_def)
  then show fs: "fs_ok m" by (simp add: soundD)
  note D1 = filledD [OF C(5)] and D2 = filledD [OF C(6)] and D3 = filledD [OF C(7)]
  show "length ks = 12" "length ls = length cs - 12"
    using D1(1) D3(1) C(3) by simp_all
  show sets: "set ks \<subseteq> fst (free_space m)" "k \<in> fst (free_space m) - set ks" "set ls \<subseteq> fst (free_space m) - set ks - {k}"
    using D1(3,6) D2(3,6) D3(3) by auto
  show "data_block m q \<and> q < 127" if "q \<in> set ks \<union> {k} \<union> set ls"
    using that sets free_block_bound [OF fs, of q] by blast
  show "same_layout m m1" by (fact D1(5))
  show l2: "same_layout m m2"
    by (rule same_layout_trans [OF D1(5) D2(5)])
  show "same_layout m m'"
    by (rule same_layout_trans [OF l2 D3(5)])
qed

text \<open>What each of the three steps leaves alone.\<close>

lemma chained_other:
  assumes "chained m p cs ks k ls m1 m2 m'" "plain_byte m x"
  shows "x < p + 40 \<or> p + 88 \<le> x \<Longrightarrow> beside p (set ks) x \<Longrightarrow> m1 x = m x"
    "x < p + 88 \<or> p + 92 \<le> x \<Longrightarrow> beside p {k} x \<Longrightarrow> m2 x = m1 x"
    "x < 1024 * (k + 1) \<or> 1024 * (k + 1) + 4 * length (drop 12 cs) \<le> x \<Longrightarrow> beside p (set ls) x \<Longrightarrow> m' x = m2 x"
    "beside p {k} x \<Longrightarrow> x < 1024 * (k + 1) \<or> 1024 * (k + 1) + 4 * length (drop 12 cs) \<le> x"
proof -
  note C = chainedD [OF assms(1)]
  show "m1 x = m x" if "x < p + 40 \<or> p + 88 \<le> x" "beside p (set ks) x"
    by (rule filledD(11) [OF C(12) assms(2) _ that(2)]) (use that(1) C(4) in \<open>auto simp: i_block_def\<close>)
  show "m2 x = m1 x" if "x < p + 88 \<or> p + 92 \<le> x" "beside p {k} x"
    by (rule filledD(11) [OF C(13)]) (use that assms(2) plain_byte_layout [OF C(15)] in \<open>auto simp: i_block_def\<close>)
  show "m' x = m2 x" if "x < 1024 * (k + 1) \<or> 1024 * (k + 1) + 4 * length (drop 12 cs) \<le> x" "beside p (set ls) x"
    by (rule filledD(11) [OF C(14)]) (use that assms(2) plain_byte_layout [OF C(16)] in auto)
  show "beside p {k} x \<Longrightarrow> x < 1024 * (k + 1) \<or> 1024 * (k + 1) + 4 * length (drop 12 cs) \<le> x"
    using C(5) by (auto simp: beside_def)
qed

lemma chained_ptr:
  assumes "chained m p cs ks k ls m1 m2 m'" "i \<le> 12"
  shows "get_le 4 m' (i_block p i) = (if i = 12 then num k else num (ks ! i))"
proof -
  note C = chainedD [OF assms(1)] and other = chained_other [OF assms(1)]
  have inside: "plain_byte m x \<and> beside p {k} x \<and> beside p (set ls) x"
    if "i_block p i \<le> x" "x < i_block p i + 4" for x
  proof -
    have x: "p \<le> x" "x < p + 128" "p + 32 \<le> x"
      using that assms(2) by (simp_all add: i_block_def)
    have "{k} \<subseteq> Collect (data_block m)" "set ls \<subseteq> Collect (data_block m)"
      using C(11) by auto
    from inode_place [OF C(2,3) this(1) x(1,2)] inode_place [OF C(2,3) this(2) x(1,2)] x(3) show ?thesis by simp
  qed
  have last: "get_le 4 m' (i_block p i) = (get_le 4 m2 (i_block p i) :: 32 word)"
    by (rule get_le_cong, rule other(3)) (use inside other(4) in blast)+
  show ?thesis
  proof (cases "i = 12")
    case True
    then show ?thesis using last filledD(7) [OF C(13), of 0] by (simp add: num_def)
  next
    case False
    have "get_le 4 m2 (i_block p i) = (get_le 4 m1 (i_block p i) :: 32 word)"
      by (rule get_le_cong, rule other(2)) (use inside assms(2) False in \<open>auto simp: i_block_def\<close>)
    with last filledD(7) [OF C(12), of i] assms(2) False C(4) show ?thesis
      by (simp add: i_block_def num_def)
  qed
qed

lemma chained_dirs:
  assumes "chained m p cs ks k ls m1 m2 m'"
  shows "dir_blocks m' p = map num ks" "indirect_of m' p = num k" "num k \<noteq> 0" "block_start (num k) = 1024 * (k + 1)"
proof -
  note C = chainedD [OF assms] and ptr = chained_ptr [OF assms]
  show dirs: "dir_blocks m' p = map num ks"
    by (rule dir_blocks_words) (use C(6,11) ptr num(1) in \<open>fastforce+\<close>)
  show "indirect_of m' p = num k" "num k \<noteq> 0" "block_start (num k) = 1024 * (k + 1)"
    using ptr [of 12] num [of k] C(11) [of k] by (simp_all add: indirect_of_def dirs C(6))
qed

lemma chained_words:
  assumes "chained m p cs ks k ls m1 m2 m'"
  shows "indirect_words m' (num k) = map num ls"
proof -
  note C = chainedD [OF assms] and other = chained_other [OF assms]
  let ?c = "1024 * (k + 1)"
  have "get_le 4 m' (?c + 4 * length (map num ls)) = (0 :: 32 word)"
  proof (rule get_le_zero)
    fix x assume x: "?c + 4 * length (map num ls) \<le> x" "x < ?c + 4 * length (map num ls) + 4"
    then have here: "?c \<le> x" "x < ?c + 1024"
      using C(5,7) by simp_all
    have "data_block m k" "k \<notin> set ls"
      using C(10,11) by auto
    note place = block_place [OF C(2,3) this(1) here]
    have "m' x = m2 x"
      by (rule other(3) [OF place(1) _ place(3)]) (use x C(7) \<open>k \<notin> set ls\<close> in simp_all)
    also have "m2 x = get_bytes m2 ?c 1024 ! (x - ?c)"
      using here by (simp add: get_bytes_def)
    also have "\<dots> = 0"
      using filledD(8) [OF C(13), of 0] here by (simp add: whole_def)
    finally show "m' x = 0" .
  qed
  then show ?thesis
    unfolding indirect_words_def chained_dirs(4) [OF assms]
    by (intro listed_words) (use C(5,7,11) filledD(7) [OF C(14)] num(1) in \<open>fastforce simp: num_def\<close>)+
qed

lemma chained_content:
  assumes "chained m p cs ks k ls m1 m2 m'" "i < length cs"
  shows "get_bytes m' (1024 * ((ks @ ls) ! i + 1)) 1024 = whole (cs ! i)"
proof (cases "i < 12")
  case True
  note C = chainedD [OF assms(1)] and other = chained_other [OF assms(1)]
  let ?q = "ks ! i"
  have "?q \<in> set ks" using True C(6) by simp
  then have "data_block m ?q" "?q \<notin> {k}" "?q \<notin> set ls"
    using C(9-11) by auto
  note place = block_place [OF C(2,3) this(1)] and apart = this(2,3)
  have "m' x = m1 x" if x: "1024 * (?q + 1) \<le> x" "x < 1024 * (?q + 1) + 1024" for x
    using other(2-4) [OF place(1) [OF x]] place(2) [OF x] place(3) [OF x apart(1)] place(3) [OF x apart(2)] by auto
  then have "get_bytes m' (1024 * (?q + 1)) 1024 = get_bytes m1 (1024 * (?q + 1)) 1024"
    unfolding get_bytes_def by (intro map_cong) auto
  then show ?thesis
    using filledD(8) [OF C(12), of i] True assms(2) C(6) by (simp add: nth_append)
next
  case False
  note C = chainedD [OF assms(1)]
  show ?thesis
    using filledD(8) [OF C(14), of "i - 12"] False assms(2) C(6) by (simp add: nth_append)
qed

lemma chained_holds:
  assumes "chained m p (chunks bs) ks k ls m1 m2 m'" "blank m p"
  shows "holds m p bs (ks @ ls) [k] m'"
  unfolding holds_def
proof (intro conjI allI impI)
  note C = chainedD [OF assms(1)] and other = chained_other [OF assms(1)]
  note D1 = filledD [OF C(12)] and D2 = filledD [OF C(13)] and D3 = filledD [OF C(14)]
  let ?ds = "take 12 (chunks bs)" and ?es = "drop 12 (chunks bs)"
  have need: "needed bs = Suc (length (chunks bs))"
    using C(4) by (simp add: needed_def Let_def)
  have "length (concat ?ds) + length (concat ?es) = length (concat (?ds @ ?es))"
    by (simp only: concat_append length_append)
  then have "length (concat ?ds) + length (concat ?es) = length bs"
    by simp
  moreover have "get_le 4 m' (i_size p) = (of_nat (length (concat ?ds) + length (concat ?es)) :: 32 word)"
    using D1(9) D2(9) D3(9) assms(2) by (simp add: blank_def)
  ultimately show "get_le 4 m' (i_size p) = (of_nat (length bs) :: 32 word)"
    by simp
  have "get_le 4 m' (i_blocks p) = (add_block ^^ length ?es) (add_block ((add_block ^^ 12) 0))"
    using D1(10) D2(10) D3(10) assms(2) C(4) by (simp add: blank_def)
  also have "\<dots> = (add_block ^^ (length ?es + Suc 12)) 0"
    by (simp only: funpow_add funpow.simps o_apply)
  also have "length ?es + Suc 12 = needed bs"
    using need C(4) by simp
  finally show "get_le 4 m' (i_blocks p) = (add_block ^^ needed bs) 0" .
  show "sound m'" "same_layout m m'" by (fact D3(4), fact C(17))
  show "distinct ((ks @ ls) @ [k])" "set ((ks @ ls) @ [k]) \<subseteq> fst (free_space m)"
    using D1(2) D3(2) C(8-10) by auto
  show "free_space m' = (fst (free_space m) - set ((ks @ ls) @ [k]), snd (free_space m))"
    using D1(6) D2(6) D3(6) by auto
  show "length (ks @ ls) = length (chunks bs)" "length ((ks @ ls) @ [k]) = needed bs"
    using C(4,6,7) need by simp_all
  show "data_blocks m' p = map num (ks @ ls)" "file_blocks m' p = map num ((ks @ ls) @ [k])"
    using chained_dirs [OF assms(1)] chained_words [OF assms(1)] by (simp_all add: data_blocks_def file_blocks_def)
  show "get_bytes m' (1024 * ((ks @ ls) ! i + 1)) 1024 = whole (chunks bs ! i)" if "i < length (ks @ ls)" for i
    using chained_content [OF assms(1)] that C(4,6,7) by simp
  fix x assume x: "plain_byte m x" "x < p + 40 \<or> p + 92 \<le> x" "beside p (set ((ks @ ls) @ [k])) x"
  have "beside p (set ks) x" "beside p (set ls) x" "beside p {k} x"
    using x(3) by (auto simp: beside_def)
  then show "m' x = m x"
    using x(2) other [OF x(1)] by auto
qed

text \<open>What a file stored this way looks like.\<close>

definition stores :: "memory \<Rightarrow> nat \<Rightarrow> byte list \<Rightarrow> memory \<Rightarrow> bool" where
  "stores m p bs m' \<longleftrightarrow> sound m' \<and> same_layout m m' \<and> file_bytes m' p = bs \<and> file_sound False m' p \<and>
     get_le 4 m' (i_size p) = (of_nat (length bs) :: 32 word) \<and> get_le 4 m' (i_blocks p) = (of_nat (2 * needed bs) :: 32 word) \<and>
     slots (file_blocks m' p) \<subseteq> fst (free_space m) \<and> card (slots (file_blocks m' p)) = needed bs \<and>
     free_space m' = (fst (free_space m) - slots (file_blocks m' p), snd (free_space m)) \<and>
     (\<forall>x. plain_byte m x \<longrightarrow> x < p + 40 \<or> p + 92 \<le> x \<longrightarrow> beside p (slots (file_blocks m' p)) x \<longrightarrow> m' x = m x)"

lemma chunks_bound: "length bs \<le> 1024 * length (chunks bs)"
proof (induction bs rule: chunks.induct)
  case (1 bs)
  then show ?case by (cases "bs = []") (auto simp: chunks_Cons)
qed

lemma holds_stores:
  assumes "sound m" "slot_at m p" "holds m p bs qs ls m'"
  shows "stores m p bs m'"
proof -
  note fs = soundD(1) [OF assms(1)]
  note H = assms(3) [unfolded holds_def]
  have layout: "same_layout m m'" and sub: "set (qs @ ls) \<subseteq> fst (free_space m)"
    and len: "length qs = length (chunks bs)" "length (qs @ ls) = needed bs" and dis: "distinct (qs @ ls)"
    and fb: "file_blocks m' p = map num (qs @ ls)" and db: "data_blocks m' p = map num qs"
    and size: "get_le 4 m' (i_size p) = (of_nat (length bs) :: 32 word)"
    and space: "free_space m' = (fst (free_space m) - set (qs @ ls), snd (free_space m))"
    and content: "\<And>i. i < length qs \<Longrightarrow> get_bytes m' (1024 * (qs ! i + 1)) 1024 = whole (chunks bs ! i)"
    using H by blast+
  have small: "q < 127" if "q \<in> set (qs @ ls)" for q
    using free_block_bound [OF fs, of q] sub that by blast
  have slot: "slot_of (num q) = q" "block_start (num q) = 1024 * (q + 1)" if "q \<in> set (qs @ ls)" for q
    using num(2,3) small [OF that] by blast+
  have "map (slot_of \<circ> num) (qs @ ls) = map id (qs @ ls)"
    by (rule map_cong) (simp_all add: slot)
  then have slots: "map slot_of (file_blocks m' p) = qs @ ls"
    by (simp add: fb)
  then have set: "slots (file_blocks m' p) = set (qs @ ls)"
    unfolding slots_def set_map [symmetric] by (rule arg_cong)
  have few: "needed bs \<le> 127"
    using distinct_card [OF dis] len(2) card_mono [OF _ sub] few_free [OF fs] by (simp add: free_space_def)
  have "needed bs \<ge> length (chunks bs)"
    by (simp add: needed_def Let_def)
  then have "length bs < 2 ^ 32"
    using chunks_bound [of bs] few by simp
  then have "unat (of_nat (length bs) :: 32 word) = length bs"
    by (simp add: unat_of_nat take_bit_nat_eq_self)
  moreover have "map (\<lambda>b. get_bytes m' (block_start b) 1024) (data_blocks m' p) = map whole (chunks bs)"
    unfolding db using len(1) content slot(2) by (intro nth_equalityI) simp_all
  ultimately have bytes: "file_bytes m' p = bs"
    by (simp add: file_bytes_def size take_whole)
  have "block_ok m' (num q)" if "q \<in> set (qs @ ls)" for q
  proof -
    have "q \<in> fst (free_space m)" using that sub by blast
    then have "data_block m q" "q < 8 * n_blocks m"
      using free_block_bound [OF fs] by blast+
    moreover have "1 \<le> sint (num q)"
      using slot_of_num [of q] small [OF that] by (simp add: num_def)
    ultimately have "block_ok m (num q)"
      by (simp add: block_ok_def slot [OF that])
    then show ?thesis by (simp add: block_ok_layout [OF layout])
  qed
  then have "\<forall>b \<in> set (file_blocks m' p). block_ok m' b \<and> (slot_of b \<in> fst (free_space m') \<longleftrightarrow> False)"
    unfolding fb using slot space by auto
  then have "markable False m' (file_blocks m' p)"
    using slots dis by (simp add: markable_def)
  then have "file_sound False m' p"
    using slot_at_layout [OF layout] assms(2) by (simp add: file_sound_def slot_at_def)
  moreover have "get_le 4 m' (i_blocks p) = (of_nat (2 * needed bs) :: 32 word)"
    using H add_blocks [of "needed bs"] few by simp
  moreover have "card (set (qs @ ls)) = needed bs"
    using distinct_card [OF dis] len(2) by simp
  ultimately show ?thesis
    unfolding stores_def set using H bytes by blast
qed

lemma copied_stores:
  assumes "sound m" "slot_at m p" "blank m p" "needed bs \<le> card (fst (free_space m))"
  shows "stores m p bs (copied p bs m)"
proof (cases "length (chunks bs) \<le> 12")
  case True
  then have "length (chunks bs) \<le> card (fst (free_space m))"
    using assms(4) by (simp add: needed_def)
  from copied_short [OF assms(1-3) True this] show ?thesis
    using holds_stores [OF assms(1,2)] by blast
next
  case False
  then have "12 < length (chunks bs)" by simp
  from copied_chained [OF assms(1,2) this assms(4)] show ?thesis
    using holds_stores [OF assms(1,2)] chained_holds [OF _ assms(3)] by blast
qed

text \<open>
  C38: Copying a file into an empty inode always returns: with \<open>ENOMEM\<close> exactly when fewer blocks are
  free than the file needs, an indirect block behind the twelfth included.  Otherwise reading the
  file back through its direct pointers and its indirect block gives exactly the bytes of the
  source; its size and its count of disk sectors are right, its blocks are different and were free,
  the counters stay right, and no other byte of the image changes.
\<close>

theorem copy_stores_file:
  fixes s :: ext2
  defines "m \<equiv> disk s"
  assumes "sound m" "slot_at m p" "blank m p"
  shows "case copy_sourcefile_data p s of
      (Ok _, t) \<Rightarrow> needed (src s) \<le> card (fst (free_space m)) \<and> stores m p (src s) (disk t)
    | (Exit c, t) \<Rightarrow> c = ENOMEM \<and> card (fst (free_space m)) < needed (src s)
    | _ \<Rightarrow> False"
  using copy_run [of s p] copied_stores [of m p "src s"] assms(2-4) by (auto simp: m_def split: if_splits)

lemma small_blank: "slot_at small_image 5120" "blank small_image 5120"
proof -
  show "slot_at small_image 5120"
    by (auto simp: slot_at_def small_layout intro: exI [of _ 0])
  have "get_le 4 small_image (i_block 5120 n) = (0 :: 32 word)" if "n \<le> 12" for n
    by (rule get_le_zero) (use that in \<open>auto simp: inode_fields small_image_def\<close>)
  then show "blank small_image 5120"
    by (simp add: blank_def inode_fields get_le_zero small_image_def)
qed

lemma copy_stores_file_witness:
  "\<exists>t. copy_sourcefile_data 5120 \<lparr>disk = small_image, now = 0, src = str ''hi''\<rparr> = (Ok (), t) \<and>
     file_bytes (disk t) 5120 = str ''hi'' \<and> slots (file_blocks (disk t) 5120) \<subseteq> {9}"
proof -
  let ?s = "\<lparr>disk = small_image, now = 0, src = str ''hi''\<rparr>"
  have "needed (src ?s) = 1"
    by (simp add: needed_def chunks_Cons str_def)
  then show ?thesis
    using copy_stores_file [of ?s 5120] small_sound small_blank
    by (cases "copy_sourcefile_data 5120 ?s") (auto simp: small_space stores_def split: outcome.splits)
qed

end
