(* ===== verification/Resolve.thy ===== *)
theory Resolve
  imports Contents
begin

text \<open>
  Paths: the tokens of a path are its names, and the loops over them follow the directory maps of
  the image, whose abstract form is \<open>resolve\<close>.
\<close>

section \<open>Names and paths\<close>

definition proper :: "cstring \<Rightarrow> bool" where
  "proper t \<longleftrightarrow> t \<noteq> [] \<and> SLASH \<notin> set t \<and> 0 \<notin> set t \<and> length t \<le> 255"

text \<open>The path through the names \<open>ts\<close>, with a slash at its end if \<open>b\<close>.\<close>

definition path_of :: "cstring list \<Rightarrow> bool \<Rightarrow> cstring" where
  "path_of ts b = concat (map (\<lambda>t. SLASH # t) ts) @ (if b then [SLASH] else [])"

lemma path_of_simps [simp]:
  "path_of [] b = (if b then [SLASH] else [])" "path_of (t # ts) b = SLASH # t @ path_of ts b"
  by (simp_all add: path_of_def)

lemma path_of_start: "path_of ts b \<noteq> [] \<Longrightarrow> hd (path_of ts b) = SLASH"
  by (cases ts) auto

lemma path_of_last: "ts \<noteq> [] \<Longrightarrow> \<forall>t \<in> set ts. proper t \<Longrightarrow> last (path_of ts b) = SLASH \<longleftrightarrow> b"
proof -
  assume ts: "ts \<noteq> []" "\<forall>t \<in> set ts. proper t"
  then obtain us t where us: "ts = us @ [t]"
    by (metis append_butlast_last_id)
  have "path_of ts b = path_of us False @ SLASH # t @ (if b then [SLASH] else [])"
    by (simp add: us path_of_def)
  moreover have "t \<noteq> []" "SLASH \<notin> set t"
    using ts us by (auto simp: proper_def)
  moreover from this have "last t \<noteq> SLASH"
    using last_in_set [of t] by metis
  ultimately show ?thesis by simp
qed

lemma path_of_empty [simp]: "path_of ts b = [] \<longleftrightarrow> ts = [] \<and> \<not> b"
  by (cases ts) auto

lemma tokens_path: "\<forall>t \<in> set ts. proper t \<Longrightarrow> tokens (path_of ts b) = ts"
proof (induction ts)
  case Nil
  then show ?case by (simp add: tokens.simps)
next
  case (Cons t ts)
  let ?rest = "path_of ts b"
  have t: "t \<noteq> []" "\<forall>c \<in> set t. c \<noteq> SLASH"
    using Cons.prems by (auto simp: proper_def)
  have drop: "dropWhile (\<lambda>c. c = SLASH) (SLASH # t @ ?rest) = t @ ?rest"
    using t by (cases t) auto
  have "takeWhile (\<lambda>c. c \<noteq> SLASH) ?rest = []" "dropWhile (\<lambda>c. c \<noteq> SLASH) ?rest = ?rest"
    by (cases ts; simp)+
  then have "takeWhile (\<lambda>c. c \<noteq> SLASH) (t @ ?rest) = t" "dropWhile (\<lambda>c. c \<noteq> SLASH) (t @ ?rest) = ?rest"
    using t(2) by (simp_all add: takeWhile_append2 dropWhile_append2)
  moreover have "tokens ?rest = ts"
    using Cons by simp
  ultimately show ?case
    using t(1) unfolding path_of_simps(2) by (subst tokens.simps) (simp only: drop Let_def, simp)
qed

section \<open>Following a path\<close>

text \<open>The inode of the directory the names lead to.\<close>

primrec resolve :: "memory \<Rightarrow> nat \<Rightarrow> cstring list \<Rightarrow> nat option" where
  "resolve m p [] = Some p"
| "resolve m p (t # ts) = (case dir_map m p t of
     None \<Rightarrow> None
   | Some (i, ft) \<Rightarrow> if ft = EXT2_FT_DIR then resolve m (inode_at (ino_tab m) i) ts else None)"

text \<open>Every directory on the way is sound.\<close>

primrec sound_along :: "memory \<Rightarrow> nat \<Rightarrow> cstring list \<Rightarrow> bool" where
  "sound_along m p [] = dir_sound m p"
| "sound_along m p (t # ts) \<longleftrightarrow> dir_sound m p \<and>
     (\<forall>i. dir_map m p t = Some (i, EXT2_FT_DIR) \<longrightarrow> sound_along m (inode_at (ino_tab m) i) ts)"

lemma sound_along_start: "sound_along m p ts \<Longrightarrow> dir_sound m p"
  by (cases ts) auto

lemma sound_along_resolve: "sound_along m p ts \<Longrightarrow> resolve m p ts = Some q \<Longrightarrow> dir_sound m q"
  by (induction ts arbitrary: p) (auto split: option.splits prod.splits if_splits)

lemma sound_along_butlast: "sound_along m p ts \<Longrightarrow> sound_along m p (butlast ts)"
  by (induction ts arbitrary: p) (auto dest: sound_along_start)

lemma resolve_append: "resolve m p (ts @ us) = (case resolve m p ts of None \<Rightarrow> None | Some q \<Rightarrow> resolve m q us)"
  by (induction ts arbitrary: p) (auto split: option.splits prod.splits)

text \<open>The number of that inode.\<close>

primrec reach :: "memory \<Rightarrow> 32 word \<Rightarrow> cstring list \<Rightarrow> 32 word option" where
  "reach m i [] = Some i"
| "reach m i (t # ts) = (case dir_map m (inode_at (ino_tab m) i) t of
     None \<Rightarrow> None
   | Some (j, ft) \<Rightarrow> if ft = EXT2_FT_DIR then reach m j ts else None)"

lemma resolve_reach: "resolve m (inode_at (ino_tab m) i) ts = map_option (inode_at (ino_tab m)) (reach m i ts)"
  by (induction ts arbitrary: i) (auto split: option.splits)

lemma sound_along_reach:
  "sound_along m (inode_at (ino_tab m) i) ts \<Longrightarrow> reach m i ts = Some j \<Longrightarrow> dir_sound m (inode_at (ino_tab m) j)"
  using sound_along_resolve [of m "inode_at (ino_tab m) i" ts] by (simp add: resolve_reach)

lemma root_number: "root_inode t = inode_at t 2"
  by (simp add: root_inode_def inode_at_def INDEX_def EXT2_ROOT_INO_IDX_def)

text \<open>The search in a directory, in terms of its map.\<close>

lemma find_ok_run:
  assumes "dir_ok (disk s) p" "proper t"
  shows "bnd (find_entry p (Some t)) f s = f (lookup (disk s) p t) s"
  using find_entry_run [of s p t] assms by (simp add: bnd_run proper_def)

lemma find_run:
  assumes "dir_sound (disk s) p" "proper t"
  shows "bnd (find_entry p (Some t)) f s = f (lookup (disk s) p t) s"
  by (rule find_ok_run) (use assms in \<open>simp_all add: dir_sound_def\<close>)

lemma lookup_ok_cases [consumes 1, case_names none some]:
  assumes "dir_ok m p"
  obtains (none) "lookup m p t = None" "dir_map m p t = None"
  | (some) e where "lookup m p t = Some e" "dir_map m p t = Some (inode_of m e, m (de_file_type e))" "e + 8 \<le> 131072" "e \<in> set (entries m p)"
proof (cases "lookup m p t")
  case (Some e)
  then have e: "e \<in> set (entries m p)"
    by (auto simp: lookup_def find_Some_iff)
  then obtain b where b: "b \<in> set (dir_blocks m p)" "e \<in> set (the (block_records m b))"
    by (auto simp: entries_def)
  with assms have "block_records m b \<noteq> None" "block_start b + 1024 \<le> disk_size"
    by (auto simp: dir_ok_def)
  then have "e + 8 \<le> 131072"
    using records_range [of m "block_start b" "block_start b + 1024" _ e] b(2) by (fastforce simp: block_records_def)
  with Some e some show ?thesis by (simp add: dir_map_lookup)
qed (use none in \<open>simp add: dir_map_lookup\<close>)

lemma lookup_cases [consumes 1, case_names none some]:
  assumes "dir_sound m p"
  obtains (none) "lookup m p t = None" "dir_map m p t = None"
  | (some) e where "lookup m p t = Some e" "dir_map m p t = Some (inode_of m e, m (de_file_type e))" "e + 8 \<le> 131072" "e \<in> set (entries m p)"
proof -
  have "dir_ok m p" using assms by (simp add: dir_sound_def)
  then show ?thesis
    by (cases rule: lookup_ok_cases [where t = t]) (use none some in blast)+
qed

lemma entry_ld:
  assumes "e + 8 \<le> 131072"
  shows "bnd (ld8 (de_file_type e)) f s = f (disk s (de_file_type e)) s" "bnd (ld32 (de_inode e)) g s = g (inode_of (disk s) e) s"
  using assms by (simp_all add: bnd_ld inode_of_def entry_fields)

section \<open>The target of a copy\<close>

text \<open>Where a copy goes: the directory, and its name unless that is the name of the source.\<close>

definition target :: "memory \<Rightarrow> nat \<Rightarrow> cstring list \<Rightarrow> bool \<Rightarrow> int + nat \<times> cstring option" where
  "target m p ts b = (if ts = [] then Inr (p, None) else
     case resolve m p (butlast ts) of
       None \<Rightarrow> Inl ENOENT
     | Some d \<Rightarrow> (case dir_map m d (last ts) of
         None \<Rightarrow> if b then Inl ENOENT else Inr (d, Some (last ts))
       | Some (i, ft) \<Rightarrow> if ft = EXT2_FT_DIR then Inr (inode_at (ino_tab m) i, None)
           else if b then Inl ENOENT else Inl EEXIST))"

lemma target_one: "target m p [t] b = (case dir_map m p t of
    None \<Rightarrow> if b then Inl ENOENT else Inr (p, Some t)
  | Some (i, ft) \<Rightarrow> if ft = EXT2_FT_DIR then Inr (inode_at (ino_tab m) i, None) else if b then Inl ENOENT else Inl EEXIST)"
  by (auto simp: target_def split: option.splits prod.splits)

lemma target_step: "ts \<noteq> [] \<Longrightarrow> target m p (t # ts) b = (case dir_map m p t of
    None \<Rightarrow> Inl ENOENT
  | Some (i, ft) \<Rightarrow> if ft = EXT2_FT_DIR then target m (inode_at (ino_tab m) i) ts b else Inl ENOENT)"
  by (auto simp: target_def split: option.splits prod.splits)

lemma target_sound:
  assumes "sound_along m p ts" "target m p ts b = Inr (d, n)"
  shows "dir_sound m d"
proof (cases "ts = []")
  case False
  then obtain us t where ts: "ts = us @ [t]"
    by (metis append_butlast_last_id)
  obtain q where q: "resolve m p us = Some q"
    using assms(2) ts by (auto simp: target_def split: option.splits)
  have dir: "dir_sound m q"
    using sound_along_resolve [OF sound_along_butlast [OF assms(1)]] ts q by simp
  show ?thesis
  proof (cases n)
    case (Some name)
    then show ?thesis
      using assms(2) ts q dir by (auto simp: target_def split: option.splits prod.splits if_splits)
  next
    case None
    then obtain i where i: "dir_map m q t = Some (i, EXT2_FT_DIR)" "d = inode_at (ino_tab m) i"
      using assms(2) ts q by (auto simp: target_def split: option.splits prod.splits if_splits)
    then have "resolve m p ts = Some d"
      using ts q by (simp add: resolve_append)
    then show ?thesis
      by (rule sound_along_resolve [OF assms(1)])
  qed
qed (use assms in \<open>simp add: target_def\<close>)

text \<open>The loop of \<open>ln_create_target_file\<close> is that of \<open>cp_create_target_file\<close>.\<close>

lemma ln_loop_cp: "ln_loop i_table ts cur entry token rem = cp_loop i_table ts cur entry token rem"
proof (induction ts arbitrary: cur entry token rem)
  case Nil
  have "EXT2_FT_SYMLINK \<noteq> EXT2_FT_DIR" by (simp add: EXT2_FT_SYMLINK_def EXT2_FT_DIR_def)
  then show ?case by (auto simp: Let_def intro!: arg_cong [of _ _ "bnd _"] split: option.splits)
next
  case (Cons t ts)
  have "EXT2_FT_SYMLINK \<noteq> EXT2_FT_DIR" by (simp add: EXT2_FT_SYMLINK_def EXT2_FT_DIR_def)
  then show ?case by (auto simp: Let_def Cons intro!: arg_cong [of _ _ "bnd _"] split: option.splits)
qed

lemma cp_loop_run:
  fixes s :: ext2
  defines "m \<equiv> disk s"
  assumes "\<forall>t \<in> set (t # ts). proper t" "sound_along m p (t # ts)"
  shows "bnd (cp_loop (ino_tab m) ts p (lookup m p t) (Some t) (path_of ts b))
      (\<lambda>(cur, token, rem). if rem \<noteq> [] then exitp ENOENT else f cur token) s =
    (case target m p (t # ts) b of Inl c \<Rightarrow> (Exit c, s) | Inr (d, name) \<Rightarrow> f d name s)"
  using assms(2,3)
proof (induction ts arbitrary: p t)
  case Nil
  then have p: "dir_sound m p" by simp
  from p show ?case
  proof (cases rule: lookup_cases [where t = t])
    case none
    then show ?thesis by (simp add: target_one bnd_prims exitp_run m_def)
  next
    case (some e)
    note ld = entry_ld [OF some(3), where s = s]
    show ?thesis
      using some by (simp add: target_one bnd_fun ld bnd_prims exitp_run skip_slash_def Let_def m_def)
  qed
next
  case (Cons t' ts)
  then have p: "dir_sound m p" by simp
  from p show ?case
  proof (cases rule: lookup_cases [where t = t])
    case none
    then show ?thesis by (simp add: target_step bnd_prims exitp_run m_def)
  next
    case (some e)
    note ld = entry_ld [OF some(3), where s = s]
    show ?thesis
    proof (cases "m (de_file_type e) = EXT2_FT_DIR")
      case False
      with some show ?thesis
          by (simp add: target_step m_def skip_slash_def bnd_fun bnd_prims exitp_run ld Let_def)
    next
      case True
      let ?q = "inode_at (ino_tab (disk s)) (inode_of (disk s) e)"
      have along: "sound_along m ?q (t' # ts)"
        using Cons.prems(2) some True by (simp add: m_def)
      have dir: "dir_sound (disk s) ?q" "proper t'"
        using sound_along_start [OF along] Cons.prems(1) by (simp_all add: m_def)
      have IH: "bnd (cp_loop (ino_tab m) ts ?q (lookup m ?q t') (Some t') (path_of ts b))
          (\<lambda>(cur, token, rem). if rem \<noteq> [] then exitp ENOENT else f cur token) s =
        (case target m ?q (t' # ts) b of Inl c \<Rightarrow> (Exit c, s) | Inr (d, name) \<Rightarrow> f d name s)"
        by (rule Cons.IH) (use Cons.prems(1) along in simp_all)
      show ?thesis
          using some True IH
        by (simp add: target_step skip_slash_def bnd_fun ld find_run [OF dir] Let_def m_def)
    qed
  qed
qed

lemma cp_is_ln: "cp_create_target_file path name = ln_create_target_file path name 0 EXT2_FT_REG_FILE"
  by (simp add: cp_create_target_file_def ln_create_target_file_def ln_loop_cp)

lemma path_absolute: "path_of ts b \<noteq> [] \<Longrightarrow> IS_PATH_ABSOLUTE (path_of ts b)"
  using path_of_start [of ts b] unfolding IS_PATH_ABSOLUTE_def by blast

lemma ln_target_run:
  fixes s :: ext2
  defines "m \<equiv> disk s"
  defines "p \<equiv> root_inode (ino_tab m)"
  assumes "\<forall>t \<in> set ts. proper t" "sound_along m p ts" "path_of ts b \<noteq> []"
  shows "ln_create_target_file (path_of ts b) name link ft s = (case target m p ts b of
      Inl c \<Rightarrow> (Exit c, s)
    | Inr (d, n) \<Rightarrow> (case (if n \<noteq> None then n else name) of
        None \<Rightarrow> (Fault, s) | Some n' \<Rightarrow> create_dir_entry d link n' ft s))"
proof (cases ts)
  case Nil
  then have "b" using assms(5) by (cases b) simp_all
  with Nil show ?thesis
    using path_absolute [OF assms(5)]
    by (simp add: ln_create_target_file_def ln_loop_cp prog tokens_path [of "[]" True, simplified] next_token_def find_entry_def
        target_def p_def m_def split: option.splits)
next
  case (Cons t us)
  have toks: "tokens (path_of ts b) = t # us"
    using tokens_path [OF assms(3)] Cons by simp
  have p: "dir_sound (disk s) p" "proper t"
    using assms(3,4) Cons sound_along_start by (auto simp: m_def)
  let ?K = "\<lambda>cur token. case (if token \<noteq> None then token else name) of
      None \<Rightarrow> faultp | Some name \<Rightarrow> create_dir_entry cur link name ft"
  have "ln_create_target_file (path_of ts b) name link ft s = bnd (cp_loop (ino_tab m) us p (lookup m p t) (Some t) (path_of us b))
      (\<lambda>(cur, token, rem). if rem \<noteq> [] then exitp ENOENT else ?K cur token) s"
    using path_absolute [OF assms(5)] toks
    by (simp add: ln_create_target_file_def ln_loop_cp prog next_token_def find_run [OF p, unfolded p_def m_def] Cons p_def m_def Let_def)
  also have "\<dots> = (case target m p (t # us) b of Inl c \<Rightarrow> (Exit c, s) | Inr (d, n) \<Rightarrow> ?K d n s)"
    unfolding m_def by (rule cp_loop_run) (use assms(3,4) Cons in \<open>simp_all add: m_def\<close>)
  finally show ?thesis
    by (simp add: Cons faultp_run split: sum.splits option.splits)
qed

end
