(* ===== verification/Newfile.thy ===== *)
theory Newfile
  imports Resolve
begin

text \<open>
  What \<open>create_dir_entry\<close> leaves besides the directory map: the inode of the new entry and the bytes
  that do not change.
\<close>

section \<open>The inode\<close>

lemma linked_plain:
  assumes "sound m" "\<not> no_inode m link" "link_ok m link" "plain_byte m x"
  defines "r \<equiv> inode_at (ino_tab m) (new_ino m link)"
  assumes "if link = 0 then x < r \<or> r + 128 \<le> x else x < r + 26 \<or> r + 28 \<le> x"
  shows "inode_linked link ft time m x = m x"
proof -
  note fs = soundD(1) [OF assms(1)]
  note ino = new_ino [OF fs assms(2,3)]
  note slot = inode_okD(1,2) [OF fs ino(1)]
  have r: "r = ino_tab m + 128 * slot_of (new_ino m link)"
    using slot(1) by (simp add: r_def inode_at_slot)
  let ?k = "Min (snd (free_space m))"
  let ?m1 = "if link = 0 then inode_taken ft time m ?k else m"
  have "?m1 x = m x"
  proof (cases "link = 0")
    case True
    then have k: "slot_of (new_ino m link) = ?k" "?k < n_inodes m"
      using free_ino_num(1) [OF fs ino(3)] free_inode_bound [OF fs ino(3)] by (simp_all add: new_ino_def)
    have "inode_taken ft time m ?k x = inode_put m ?k True x"
      using assms(6) True r k(1) by (auto simp: inode_taken_def Let_def put_bytes_apply put_le_outside)
    with True inode_put_other [OF fs k(2) assms(4)] show ?thesis by simp
  qed simp
  moreover have "ino_tab ?m1 = ino_tab m"
    using inode_taken(2) [OF assms(1) ino(3)] by (simp add: same_layout_def)
  then have "link_put (new_ino m link) ?m1 x = ?m1 x"
    by (intro link_put_other [OF slot(1)]) (use assms(6) r in \<open>auto split: if_splits\<close>)
  ultimately show ?thesis
    by (simp add: inode_linked_def)
qed

lemma linked_count:
  assumes "sound m" "\<not> no_inode m link" "link_ok m link"
  defines "r \<equiv> inode_at (ino_tab m) (new_ino m link)"
  shows "link \<noteq> 0 \<Longrightarrow> get_le 2 (inode_linked link ft time m) (i_links_count r) = (get_le 2 m (i_links_count r) + 1 :: 16 word)"
    "link = 0 \<Longrightarrow> get_le 2 (inode_linked link ft time m) (i_links_count r) = (1 :: 16 word)"
    "link = 0 \<Longrightarrow> get_le 4 (inode_linked link ft time m) (i_dtime r) = (0 :: 32 word)"
    "link = 0 \<Longrightarrow> get_le 2 (inode_linked link ft time m) (i_mode r) = get_inode_mode ft"
    "link = 0 \<Longrightarrow> blank (inode_linked link ft time m) r"
proof -
  note fs = soundD(1) [OF assms(1)]
  note ino = new_ino [OF fs assms(2,3)]
  note slot = inode_okD(1,2) [OF fs ino(1)]
  show "link \<noteq> 0 \<Longrightarrow> get_le 2 (inode_linked link ft time m) (i_links_count r) = (get_le 2 m (i_links_count r) + 1 :: 16 word)"
    by (simp add: inode_linked_def link_put_def Let_def get_put_le r_def new_ino_def)
  assume link: "link = 0"
  let ?k = "Min (snd (free_space m))"
  let ?m1 = "inode_taken ft time m ?k"
  have k: "slot_of (new_ino m link) = ?k"
    using free_ino_num(1) [OF fs ino(3)] link by (simp add: new_ino_def)
  have r: "r = ino_tab m + 128 * ?k"
    using slot(1) k by (simp add: r_def inode_at_slot)
  have "ino_tab ?m1 = ino_tab m"
    using inode_taken(2) [OF assms(1) ino(3) [OF link]] by (simp add: same_layout_def)
  then have linked: "inode_linked link ft time m = put_le 2 (r + 26) (get_le 2 ?m1 (r + 26) + 1 :: 16 word) ?m1"
    using link by (simp add: inode_linked_def link_put_def Let_def r_def inode_fields)
  define z where "z = put_bytes r (replicate 128 0) (inode_put m ?k True)"
  have m1: "?m1 = put_le 4 (r + 16) time (put_le 4 (r + 8) time (put_le 4 (r + 12) time (put_le 2 r (get_le 2 z r OR get_inode_mode ft) z)))"
    by (simp add: inode_taken_def Let_def r z_def)
  have zero: "get_le n z a = 0" if "r \<le> a" "a + n \<le> r + 128" for n a
    by (rule get_le_zero) (use that in \<open>auto simp: z_def put_bytes_apply\<close>)
  note read = linked m1 get_put_le get_put_le_other zero inode_fields
  show "get_le 2 (inode_linked link ft time m) (i_links_count r) = (1 :: 16 word)"
    "get_le 4 (inode_linked link ft time m) (i_dtime r) = (0 :: 32 word)"
    "get_le 2 (inode_linked link ft time m) (i_mode r) = get_inode_mode ft"
    by (simp_all add: read)
  show "blank (inode_linked link ft time m) r"
    unfolding blank_def by (simp add: read)
qed

section \<open>The entry\<close>

definition touches :: "memory \<Rightarrow> 32 word \<Rightarrow> nat \<Rightarrow> nat \<Rightarrow> bool" where
  "touches m link r x \<longleftrightarrow> (if link = 0 then r \<le> x \<and> x < r + 128 else r + 26 \<le> x \<and> x < r + 28)"

text \<open>The link count of the inode at \<open>r\<close>, which is a new one if \<open>link\<close> is 0.\<close>

definition linked_ok :: "memory \<Rightarrow> 32 word \<Rightarrow> nat \<Rightarrow> memory \<Rightarrow> bool" where
  "linked_ok m link r m' \<longleftrightarrow> get_le 2 m' (i_links_count r) = (if link = 0 then 1 else get_le 2 m (i_links_count r) + 1 :: 16 word) \<and>
     (link = 0 \<longrightarrow> get_le 4 m' (i_dtime r) = (0 :: 32 word) \<and> blank m' r)"

lemma blank_cong:
  assumes "\<And>x. r + 4 \<le> x \<Longrightarrow> x < r + 92 \<Longrightarrow> m' x = m x"
  shows "blank m' r = blank m r"
proof -
  have "get_le 4 m' a = (get_le 4 m a :: 32 word)" if "r + 4 \<le> a" "a + 4 \<le> r + 92" for a
    by (rule get_le_cong, rule assms) (use that in auto)
  then show ?thesis by (simp add: blank_def inode_fields)
qed

lemma entry_made:
  fixes ino time :: "32 word" and l :: "16 word" and ft :: byte and x :: nat
  assumes "sound m" "\<not> no_inode m link" "link_ok m link" "block_ok m b" "block_start b \<le> e"
    and "e + 8 + length name \<le> block_start b + 1024"
  defines "m' \<equiv> entry_put e ino l ft name (inode_linked link ft time m)" and "r \<equiv> inode_at (ino_tab m) (new_ino m link)"
  shows "plain_byte m x \<Longrightarrow> x < block_start b \<or> block_start b + 1024 \<le> x \<Longrightarrow> \<not> touches m link r x \<Longrightarrow> m' x = m x"
    "linked_ok m link r m'"
proof -
  let ?m1 = "inode_linked link ft time m"
  note fs = soundD(1) [OF assms(1)]
  note ino = new_ino [OF fs assms(2,3)]
  note slot = inode_slot [OF fs ino(1), folded r_def]
  have same: "m' x = ?m1 x" if "x < block_start b \<or> block_start b + 1024 \<le> x" for x
    unfolding m'_def by (rule entry_put_other) (use that assms(5,6) in auto)
  show "m' x = m x" if "plain_byte m x" "x < block_start b \<or> block_start b + 1024 \<le> x" "\<not> touches m link r x"
    using same [OF that(2)] linked_plain [OF assms(1-3) that(1)] that(3) by (auto simp: touches_def r_def split: if_splits)
  have inside: "m' x = ?m1 x" if "r \<le> x" "x < r + 128" for x
  proof (rule same)
    have "\<not> data_byte m x"
      by (rule slot_no_data [OF fs slot(2)]) (use that slot(1) in auto)
    then show "x < block_start b \<or> block_start b + 1024 \<le> x"
      using block_data_byte [OF assms(4), of x] by linarith
  qed
  have words: "get_le 2 m' (i_links_count r) = (get_le 2 ?m1 (i_links_count r) :: 16 word)"
      "get_le 4 m' (i_dtime r) = (get_le 4 ?m1 (i_dtime r) :: 32 word)" "blank m' r = blank ?m1 r"
    by (rule get_le_cong, rule inside; simp add: inode_fields)+ (rule blank_cong, rule inside; simp)
  then show "linked_ok m link r m'"
    using linked_count [OF assms(1-3), folded r_def, where ft = ft and time = time] by (simp add: linked_ok_def)
qed

lemma grown_plain:
  assumes "sound m" "fst (free_space m) \<noteq> {}" "length (dir_blocks m p) < 12" "plain_byte m x"
    and "x < 1024 * (fresh m + 1) \<or> 1024 * (fresh m + 1) + 1024 \<le> x" "x < p + 4 \<or> p + 8 \<le> x" "x < p + 28 \<or> p + 32 \<le> x" "x < p + 40 \<or> p + 88 \<le> x"
  shows "grown m p x = m x"
proof -
  have "grown m p x = block_taken m (fresh m) x"
    using assms(3,6-8) by (auto simp: grown_def Let_def put_le_outside inode_fields)
  also have "\<dots> = m x"
    by (rule block_taken_plain [OF assms(1,2,4,5)])
  finally show ?thesis .
qed

text \<open>
  The effect of a successful \<open>create_dir_entry\<close>: which inode the entry has, what became of it, and
  which bytes are as they were.
\<close>

definition roomy :: "memory \<Rightarrow> nat \<Rightarrow> cstring \<Rightarrow> bool" where
  "roomy m p name \<longleftrightarrow> (\<exists>q \<in> set (entries m p). fits m name q)"

definition created :: "memory \<Rightarrow> nat \<Rightarrow> 32 word \<Rightarrow> cstring \<Rightarrow> nat \<Rightarrow> memory \<Rightarrow> bool" where
  "created m p link name e m' \<longleftrightarrow> (let i = new_ino m link; r = inode_at (ino_tab m) i in
     inode_of m' e = i \<and> 3072 \<le> e \<and> e + 8 \<le> 131072 \<and> inode_ok m i \<and> same_layout m m' \<and> linked_ok m link r m' \<and>
     (\<not> roomy m p name \<longrightarrow> fst (free_space m) \<noteq> {}) \<and>
     fst (free_space m') = (if roomy m p name then fst (free_space m) else fst (free_space m) - {fresh m}) \<and>
     dir_blocks m' p = dir_blocks m p @ (if roomy m p name then [] else [of_nat (fresh m + 1)]) \<and>
     (\<forall>x. plain_byte m x \<longrightarrow> \<not> in_blocks m' p x \<longrightarrow> \<not> touches m link r x \<longrightarrow> x < p + 4 \<or> p + 8 \<le> x \<longrightarrow>
        x < p + 28 \<or> p + 32 \<le> x \<longrightarrow> x < p + 40 \<or> p + 88 \<le> x \<longrightarrow> m' x = m x))"

lemma inserted_created:
  assumes "sound m" "dir_sound m p" "q \<in> set (entries m p)" "link_ok m link" "\<not> no_inode m link"
    and "fits m name q" "length name \<le> 255"
  shows "created m p link name (place m q) (inserted link name ft time m q)"
proof -
  let ?m' = "inserted link name ft time m q" and ?m0 = "cleared m q"
  let ?i = "new_ino m link" and ?e = "place m q"
  let ?r = "inode_at (ino_tab m) ?i"
  note frame = inserted_frame [OF assms(1-6), where ft = ft and time = time]
  note clr = cleared [OF assms(1-3)]
  obtain b where b: "b \<in> set (dir_blocks m p)" "block_ok m b" "block_start b \<le> q" "q + rec_len_at m q \<le> block_start b + 1024"
      "8 + unat (m (de_name_len q)) \<le> rec_len_at m q"
    using entry_region [OF assms(2,3)] by blast
  have fit: "block_start b \<le> ?e" "?e + 8 + length name \<le> block_start b + 1024"
    using fits_place [OF assms(6)] b(3,4) by simp_all
  have base: "\<not> no_inode ?m0 link" "link_ok ?m0 link" "new_ino ?m0 link = ?i" "ino_tab ?m0 = ino_tab m"
    using assms(4,5) clr(2,3) by (simp_all add: no_inode_def link_ok_def inode_ok_def same_layout_def new_ino_def)
  have okb: "block_ok ?m0 b"
    using b(2) block_ok_layout [OF clr(2)] by simp
  note made = entry_made [OF clr(1) base(1,2) okb fit, where ino = ?i and l = "of_nat (q + rec_len_at m q - ?e)" and ft = ft and time = time,
      folded inserted_def, unfolded base(3,4)]
  have clear: "?m0 x = m x" if "x < block_start b \<or> block_start b + 1024 \<le> x" for x
    by (rule clr(4)) (use that b(3-5) in linarith)
  note fs = soundD(1) [OF assms(1)]
  note ino = new_ino [OF fs assms(5,4)]
  note slot = inode_slot [OF fs ino(1)]
  have "get_le 2 ?m0 (i_links_count ?r) = (get_le 2 m (i_links_count ?r) :: 16 word)"
  proof (rule get_le_cong, rule clear)
    fix x assume x: "i_links_count ?r \<le> x" "x < i_links_count ?r + 2"
    have "\<not> data_byte m x"
      by (rule slot_no_data [OF fs slot(2)]) (use x slot(1) in \<open>auto simp: inode_fields\<close>)
    then show "x < block_start b \<or> block_start b + 1024 \<le> x"
      using block_data_byte [OF b(2), of x] by linarith
  qed
  then have "linked_ok m link ?r ?m'"
    using made(2) by (simp add: linked_ok_def)
  moreover have blocks: "dir_blocks ?m' p = dir_blocks m p"
    using frame(5) by (intro dir_blocks_same) (simp add: keeps_dir_def)
  moreover have "roomy m p name"
    using assms(3,6) by (auto simp: roomy_def)
  moreover have "?m' x = m x" if "plain_byte m x" "\<not> in_blocks ?m' p x" "\<not> touches m link ?r x" for x
  proof -
    from blocks have out: "x < block_start b \<or> block_start b + 1024 \<le> x"
      using that(2) b(1) unfolding in_blocks_def by (metis not_less)
    have "?m' x = ?m0 x"
      by (rule made(1) [OF _ out]) (use that(1,3) plain_byte_layout [OF clr(2)] in \<open>simp_all add: touches_def\<close>)
    with clear [OF out] show ?thesis by simp
  qed
  moreover have "inode_of ?m' ?e = ?i"
    using inserted_records(2) [OF assms, where ft = ft and time = time] by (simp add: item_at_def)
  moreover have "3072 \<le> ?e" "?e + 8 \<le> 131072"
    using fit block_region(1,5) [OF b(2)] by simp_all
  ultimately show ?thesis
    using frame(2,3) ino(1) by (simp add: created_def Let_def)
qed

lemma appended_created:
  assumes "sound m" "dir_sound m p" "link_ok m link" "\<not> no_inode m link" "length name \<le> 255"
    and "fst (free_space m) \<noteq> {}" "length (dir_blocks m p) < 12" "\<not> roomy m p name"
  shows "created m p link name (1024 * (fresh m + 1)) (appended link name ft time m p)"
proof -
  let ?m' = "appended link name ft time m p" and ?g = "grown m p" and ?e = "1024 * (fresh m + 1)"
  let ?i = "new_ino m link" and ?b = "of_nat (fresh m + 1) :: 32 word"
  let ?r = "inode_at (ino_tab m) ?i"
  note fs = soundD(1) [OF assms(1)]
  note block = fresh_block [OF fs assms(6)]
  note g = grown [OF assms(1,2,6,7)]
  note new = appended [OF assms(1-7), where ft = ft and time = time]
  have base: "\<not> no_inode ?g link" "link_ok ?g link" "new_ino ?g link = ?i" "ino_tab ?g = ino_tab m"
    using assms(3,4) g(2,3) by (simp_all add: no_inode_def link_ok_def inode_ok_def same_layout_def new_ino_def)
  have okb: "block_ok ?g ?b"
    using block(2) block_ok_layout [OF g(2)] by simp
  have fit: "block_start ?b \<le> ?e" "?e + 8 + length name \<le> block_start ?b + 1024"
    using assms(5) by (simp_all only: block(4))
  note made = entry_made [OF g(1) base(1,2) okb fit, where ino = ?i and l = 1024 and ft = ft and time = time,
      folded appended_def, unfolded base(3,4) block(4)]
  obtain j where j: "j < n_inodes m" "p = ino_tab m + 128 * j"
    using assms(2) by (auto simp: dir_sound_def)
  note ino = new_ino [OF fs assms(4,3)]
  note slot = inode_slot [OF fs ino(1)]
  have "get_le 2 ?g (i_links_count ?r) = (get_le 2 m (i_links_count ?r) :: 16 word)"
  proof (rule get_le_cong, rule grown_plain [OF assms(1,6,7)])
    fix x assume x: "i_links_count ?r \<le> x" "x < i_links_count ?r + 2"
    then have in_slot: "ino_tab m + 128 * slot_of ?i + 26 \<le> x" "x < ino_tab m + 128 * slot_of ?i + 28"
      using slot(1) by (simp_all add: inode_fields)
    show "plain_byte m x"
      by (rule slot_plain_byte [OF fs slot(2)]) (use in_slot in simp_all)
    have "\<not> data_byte m x"
      by (rule slot_no_data [OF fs slot(2)]) (use in_slot in simp_all)
    then show "x < ?e \<or> ?e + 1024 \<le> x"
      using block_data_byte [OF block(2), of x, unfolded block(4)] by linarith
    show "x < p + 4 \<or> p + 8 \<le> x" "x < p + 28 \<or> p + 32 \<le> x" "x < p + 40 \<or> p + 88 \<le> x"
      using in_slot j(2) by (cases j "slot_of ?i" rule: linorder_cases; simp)+
  qed
  then have "linked_ok m link ?r ?m'"
    using made(2) by (simp add: linked_ok_def)
  moreover have blocks: "dir_blocks ?m' p = dir_blocks m p @ [?b]"
    by (rule dir_blocks_append [OF assms(7) block(6) new(5)]) (use assms(2) in \<open>simp_all add: dir_sound_def\<close>)
  moreover have "?m' x = m x" if "plain_byte m x" "\<not> in_blocks ?m' p x" "\<not> touches m link ?r x"
    "x < p + 4 \<or> p + 8 \<le> x" "x < p + 28 \<or> p + 32 \<le> x" "x < p + 40 \<or> p + 88 \<le> x" for x
  proof -
    from blocks have "?b \<in> set (dir_blocks ?m' p)" by simp
    then have out: "x < ?e \<or> ?e + 1024 \<le> x"
      using that(2) block(4) by (fastforce simp: in_blocks_def)
    have "?m' x = ?g x"
      by (rule made(1) [OF _ out]) (use that(1,3) plain_byte_layout [OF g(2)] in \<open>simp_all add: touches_def\<close>)
    with grown_plain [OF assms(1,6,7) that(1) out that(4-6)] show ?thesis by simp
  qed
  moreover have "inode_of ?m' ?e = ?i"
    using new(7) by (simp add: item_at_def)
  moreover have "3072 \<le> ?e" "?e + 8 \<le> 131072"
    using block(5) block_region(1) [OF block(2)] block(4) by simp_all
  ultimately show ?thesis
    using new(2,3) ino(1) assms(6,8) by (auto simp: created_def Let_def)
qed

lemma create_effect:
  fixes s :: ext2
  defines "m \<equiv> disk s"
  assumes "sound m" "dir_sound m p" "link_ok m link"
  shows "case create_dir_entry p link name ft s of
      (Ok e, t) \<Rightarrow> length name \<le> 255 \<and> dir_map m p name = None \<and> \<not> no_inode m link \<and> sound (disk t) \<and> dir_sound (disk t) p \<and>
        dir_map (disk t) p = (dir_map m p)(name \<mapsto> (new_ino m link, ft)) \<and>
        snd (free_space (disk t)) = inodes_left link m \<and> created m p link name e (disk t) \<and> now t = now s \<and> src t = src s
    | (Exit c, t) \<Rightarrow> c = 1 \<and> 255 < length name \<and> t = s \<or>
        c = EEXIST \<and> dir_map m p name \<noteq> None \<and> t = s \<or>
        c = ENOMEM \<and> dir_map m p name = None \<and> (no_inode m link \<or>
          \<not> roomy m p name \<and> (fst (free_space m) = {} \<or> length (dir_blocks m p) = 12))
    | _ \<Rightarrow> False"
proof -
  note run = create_dir_entry_run [of s p link name ft, folded m_def, OF assms(2-4)]
  have most: "length (dir_blocks m p) \<le> 12"
    unfolding dir_blocks_def by (rule order_trans [OF length_takeWhile_le]) simp
  show ?thesis
  proof (cases "length name \<le> 255 \<and> dir_map m p name = None \<and> \<not> no_inode m link")
    case False
    then consider "255 < length name" | "length name \<le> 255" "dir_map m p name \<noteq> None"
      | "length name \<le> 255" "dir_map m p name = None" "no_inode m link" by force
    then show ?thesis
    proof cases
      case 3
      with run show ?thesis by (cases "find (fits m name) (entries m p)") simp_all
    qed (use run in simp_all)
  next
    case True
    then have t: "length name \<le> 255" "dir_map m p name = None" "\<not> no_inode m link" by simp_all
    show ?thesis
    proof (cases "find (fits m name) (entries m p)")
      case (Some q)
      then have q: "q \<in> set (entries m p)" "fits m name q"
        by (auto simp: find_Some_iff)
      note hyps = assms(2,3) q(1) assms(4) t(3) q(2)
      show ?thesis
        using run t Some inserted_frame(1,3) [OF hyps, where ft = ft and time = "now s"]
          inserted_dir [OF hyps t(1,2), where ft = ft and time = "now s"]
          inserted_created [OF hyps t(1), where ft = ft and time = "now s"]
        by simp
    next
      case None
      show ?thesis
      proof (cases "length (dir_blocks m p) = 12 \<or> fst (free_space m) = {}")
        case False
        then have room: "fst (free_space m) \<noteq> {}" "length (dir_blocks m p) < 12"
          using most by simp_all
        note hyps = assms(2-4) t(3,1) room
        have "\<not> roomy m p name"
          using None by (auto simp: roomy_def find_None_iff)
        note made = appended_created [OF hyps this, where ft = ft and time = "now s"]
        show ?thesis
          using run t None False appended(1,3) [OF hyps, where ft = ft and time = "now s"]
            appended_dir [OF hyps t(2), where ft = ft and time = "now s"]
            made
          by simp
      qed (use run t None in \<open>auto simp: find_None_iff roomy_def\<close>)
    qed
  qed
qed

section \<open>Other directories\<close>

text \<open>A directory depends on its block pointers and on the bytes of its blocks.\<close>

lemma dir_kept_map:
  assumes "dir_sound m p" "same_on (p + 40) (p + 88) m m'" "\<And>x. in_blocks m p x \<Longrightarrow> m' x = m x"
  shows "dir_ok m' p" "dir_map m' p = dir_map m p" "dir_blocks m' p = dir_blocks m p"
proof -
  show blocks: "dir_blocks m' p = dir_blocks m p"
    by (rule dir_blocks_same [OF assms(2)])
  have here: "block_records m' b = block_records m b \<and> (\<forall>e \<in> set (the (block_records m b)). same_record m m' e)"
    if b: "b \<in> set (dir_blocks m p)" for b
  proof -
    have "same_on (block_start b) (block_start b + 1024) m m'"
      unfolding same_on_def using assms(3) b by (auto simp: in_blocks_def)
    moreover obtain xs where "records m (block_start b) (block_start b + 1024) = Some xs"
      using assms(1) b by (auto simp: dir_sound_def dir_ok_def block_records_def)
    ultimately show ?thesis
      using records_same [of m _ _ xs m'] by (simp add: block_records_def)
  qed
  have "entries m' p = entries m p"
    unfolding entries_def blocks using here by (intro arg_cong [of _ _ concat] map_cong) simp_all
  moreover have "listing m' (entries m p) = listing m (entries m p)"
    by (rule listing_same) (use here in \<open>auto simp: entries_def\<close>)
  ultimately show "dir_map m' p = dir_map m p"
    by (simp add: dir_map_def)
  show "dir_ok m' p"
    using assms(1) here by (auto simp: dir_sound_def dir_ok_def blocks)
qed

lemma dir_kept:
  assumes "dir_sound m p" "same_layout m m'" "same_on (p + 40) (p + 88) m m'" "\<And>x. in_blocks m p x \<Longrightarrow> m' x = m x"
    and "fst (free_space m') \<subseteq> fst (free_space m)" "snd (free_space m') \<subseteq> snd (free_space m)"
  shows "dir_sound m' p" "dir_map m' p = dir_map m p" "dir_blocks m' p = dir_blocks m p"
proof -
  note kept = dir_kept_map [OF assms(1,3,4)]
  show "dir_map m' p = dir_map m p" and blocks: "dir_blocks m' p = dir_blocks m p"
    by (simp_all add: kept)
  have "get_le 4 m' (i_block p n) = (get_le 4 m (i_block p n) :: 32 word)" if "n < 12" for n
    by (rule same_on_get [OF assms(3)]) (use that in \<open>auto simp: inode_fields\<close>)
  moreover have "block_ok m' b = block_ok m b" for b
    by (rule block_ok_layout [OF assms(2)])
  ultimately show "dir_sound m' p"
    using assms(1,2,5,6) kept(1) unfolding dir_sound_def blocks same_layout_def by auto
qed

end
