(* ===== verification/Copying.thy ===== *)
theory Copying
  imports Newfile
begin

text \<open>
  \<open>ext2_cp\<close> as a whole: from the path of the target to the bytes of the new file.
\<close>

section \<open>A new inode\<close>

lemma dir_slot:
  assumes "dir_sound m q"
  obtains j where "j < n_inodes m" "j \<notin> snd (free_space m)" "q = ino_tab m + 128 * j"
  using assms by (auto simp: dir_sound_def)

lemma new_slot:
  assumes "sound m" "\<not> no_inode m link" "link_ok m link"
  defines "r \<equiv> inode_at (ino_tab m) (new_ino m link)"
  obtains k where "link = 0 \<Longrightarrow> k \<in> snd (free_space m)" "k < n_inodes m" "r = ino_tab m + 128 * k"
proof -
  note fs = soundD(1) [OF assms(1)]
  note ino = new_ino [OF fs assms(2,3)]
  note slot = inode_slot [OF fs ino(1)]
  have free: "slot_of (new_ino m link) \<in> snd (free_space m)" if "link = 0"
    using free_ino_num(1) [OF fs ino(3)] ino(3) that by (simp add: new_ino_def)
  show thesis
    by (rule that [OF free]) (use slot in \<open>simp_all add: r_def\<close>)
qed

text \<open>A directory apart from the one that got a new entry is as before.\<close>

lemma created_dir:
  assumes "sound m" "dir_sound m d" "\<not> no_inode m link" "created m d link name e m'" "snd (free_space m') \<subseteq> snd (free_space m)"
    and "dir_sound m q" "q \<noteq> d" "set (dir_blocks m q) \<inter> set (dir_blocks m d) = {}"
    and "link_ok m link"
  shows "dir_sound m' q" "dir_map m' q = dir_map m q" "dir_blocks m' q = dir_blocks m q"
proof -
  let ?r = "inode_at (ino_tab m) (new_ino m link)"
  note fs = soundD(1) [OF assms(1)]
  note C = assms(4) [unfolded created_def Let_def]
  have layout: "same_layout m m'" using C by blast
  obtain k where k: "link = 0 \<Longrightarrow> k \<in> snd (free_space m)" "k < n_inodes m" "?r = ino_tab m + 128 * k"
    using new_slot [OF assms(1,3,9)] by metis
  obtain j where j: "j < n_inodes m" "j \<notin> snd (free_space m)" "q = ino_tab m + 128 * j"
    using dir_slot [OF assms(6)] .
  obtain i where i: "i < n_inodes m" "d = ino_tab m + 128 * i"
    using dir_slot [OF assms(2)] .
  have jk: "link = 0 \<Longrightarrow> j \<noteq> k" and "j \<noteq> i"
    using k(1) j(2,3) i(2) assms(7) by auto
  have new: "slot_of b \<in> fst (free_space m)" if "b \<in> set (dir_blocks m' d)" "b \<notin> set (dir_blocks m d)" for b
  proof -
    have b: "b = of_nat (fresh m + 1)" "fst (free_space m) \<noteq> {}"
      using that C by (auto split: if_splits)
    then show ?thesis
      using fresh_block(1,3) [OF fs b(2)] by simp
  qed
  have okd: "block_ok m b" if "b \<in> set (dir_blocks m' d)" for b
  proof (cases "b \<in> set (dir_blocks m d)")
    case False
    then have b: "b = of_nat (fresh m + 1)" "fst (free_space m) \<noteq> {}"
      using that C by (auto split: if_splits)
    then show ?thesis
      using fresh_block(2) [OF fs b(2)] by simp
  qed (use assms(2) in \<open>simp add: dir_sound_def\<close>)
  have q: "block_ok m b" "slot_of b \<notin> fst (free_space m)" if "b \<in> set (dir_blocks m q)" for b
    using assms(6) that by (auto simp: dir_sound_def)
  have inode: "same_on (q + 40) (q + 88) m m'"
    unfolding same_on_def
  proof (intro allI impI)
    fix x assume x: "q + 40 \<le> x" "x < q + 88"
    have "\<not> data_byte m x"
      by (rule slot_no_data [OF fs j(1)]) (use x j(3) in auto)
    then have out: "\<not> in_blocks m' d x"
      using block_data_byte [OF okd] by (auto simp: in_blocks_def)
    have "plain_byte m x"
      by (rule slot_plain_byte [OF fs j(1)]) (use x j(3) in auto)
    moreover have "\<not> touches m link ?r x"
      using x j(3) k(3) jk by (cases j k rule: linorder_cases) (auto simp: touches_def)
    moreover have "x < d + 4 \<or> d + 8 \<le> x" "x < d + 28 \<or> d + 32 \<le> x" "x < d + 40 \<or> d + 88 \<le> x"
      using x j(3) i(2) \<open>j \<noteq> i\<close> by (cases j i rule: linorder_cases; simp)+
    ultimately show "m' x = m x"
      using C out by blast
  qed
  have data: "m' x = m x" if in_q: "in_blocks m q x" for x
  proof -
    obtain b where b: "b \<in> set (dir_blocks m q)" "block_start b \<le> x" "x < block_start b + 1024"
      using in_q by (auto simp: in_blocks_def)
    have byte: "data_byte m x"
      by (rule in_blocks_data_byte [OF assms(6) in_q])
    have "\<not> in_blocks m' d x"
    proof
      assume "in_blocks m' d x"
      then obtain c where c: "c \<in> set (dir_blocks m' d)" "block_start c \<le> x" "x < block_start c + 1024"
        by (auto simp: in_blocks_def)
      then have "c = b"
        using block_disjoint [OF q(1) [OF b(1)] okd [OF c(1)] b(2,3)] by blast
      then show False
        using assms(8) new [of b] q(2) [OF b(1)] b(1) c(1) by blast
    qed
    moreover have "\<not> touches m link ?r x"
      using slot_no_data [OF fs k(2), of x] byte k(3) by (auto simp: touches_def)
    moreover have "x < d + 4 \<or> d + 8 \<le> x" "x < d + 28 \<or> d + 32 \<le> x" "x < d + 40 \<or> d + 88 \<le> x"
      using slot_no_data [OF fs i(1), of x] byte i(2) by linarith+
    ultimately show ?thesis
      using C data_byte_plain [OF byte] by blast
  qed
  have "fst (free_space m') \<subseteq> fst (free_space m)"
    using C by auto
  from dir_kept [OF assms(6) layout inode data this assms(5)]
  show "dir_sound m' q" "dir_map m' q = dir_map m q" "dir_blocks m' q = dir_blocks m q"
    by simp_all
qed

text \<open>A directory does not change when a file is filled.\<close>

lemma stores_dir:
  assumes "sound m" "slot_at m p" "stores m p bs m'" "dir_sound m q" "p \<noteq> q"
  shows "dir_sound m' q" "dir_map m' q = dir_map m q" "dir_blocks m' q = dir_blocks m q"
proof -
  let ?K = "slots (file_blocks m' p)"
  note fs = soundD(1) [OF assms(1)]
  note S = assms(3) [unfolded stores_def]
  have S': "same_layout m m'" "?K \<subseteq> fst (free_space m)"
      "\<And>x. plain_byte m x \<Longrightarrow> x < p + 40 \<or> p + 92 \<le> x \<Longrightarrow> beside p ?K x \<Longrightarrow> m' x = m x"
    using S by blast+
  obtain k where k: "k < n_inodes m" "p = ino_tab m + 128 * k"
    using assms(2) by (auto simp: slot_at_def)
  obtain j where j: "j < n_inodes m" "j \<notin> snd (free_space m)" "q = ino_tab m + 128 * j"
    using dir_slot [OF assms(4)] .
  have "j \<noteq> k" using assms(5) j(3) k(2) by auto
  have free: "data_block m c" if "c \<in> ?K" for c
    using S'(2) free_block_bound [OF fs] that by blast
  have inode: "same_on (q + 40) (q + 88) m m'"
    unfolding same_on_def
  proof (intro allI impI, rule S'(3))
    fix x assume x: "q + 40 \<le> x" "x < q + 88"
    show "plain_byte m x"
      by (rule slot_plain_byte [OF fs j(1)]) (use x j(3) in auto)
    show "x < p + 40 \<or> p + 92 \<le> x"
      using x j(3) k(2) \<open>j \<noteq> k\<close> by (cases j k rule: linorder_cases) auto
    have "x < 1024 * (c + 1) \<or> 1024 * (c + 1) + 1024 \<le> x" if "c \<in> ?K" for c
      using free [OF that] slot_no_data [OF fs j(1), of x] x j(1,3) by (auto simp: data_block_def apart_def)
    then show "beside p ?K x"
      using x j(3) k(2) \<open>j \<noteq> k\<close> unfolding beside_def by (cases j k rule: linorder_cases) auto
  qed
  have data: "m' x = m x" if in_q: "in_blocks m q x" for x
  proof (rule S'(3))
    have byte: "data_byte m x"
      by (rule in_blocks_data_byte [OF assms(4) in_q])
    then show "plain_byte m x" by (rule data_byte_plain)
    have far: "x < p \<or> p + 128 \<le> x"
      using slot_no_data [OF fs k(1), of x] byte k(2) by linarith
    then show "x < p + 40 \<or> p + 92 \<le> x" by auto
    obtain b where b: "b \<in> set (dir_blocks m q)" "block_start b \<le> x" "x < block_start b + 1024"
      using in_q by (auto simp: in_blocks_def)
    then have q: "block_ok m b" "slot_of b \<notin> fst (free_space m)"
      using assms(4) by (auto simp: dir_sound_def)
    have "x < 1024 * (c + 1) \<or> 1024 * (c + 1) + 1024 \<le> x" if "c \<in> ?K" for c
    proof -
      have "c \<noteq> slot_of b" using q(2) S'(2) that by blast
      then show ?thesis
        using b(2,3) block_ok_start(1) [OF q(1)] by (cases c "slot_of b" rule: linorder_cases) auto
    qed
    then show "beside p ?K x"
      using far unfolding beside_def by auto
  qed
  have "fst (free_space m') \<subseteq> fst (free_space m)" "snd (free_space m') \<subseteq> snd (free_space m)"
    using S by auto
  from dir_kept [OF assms(4) S'(1) inode data this]
  show "dir_sound m' q" "dir_map m' q = dir_map m q" "dir_blocks m' q = dir_blocks m q"
    by simp_all
qed

section \<open>The whole program\<close>

text \<open>What a copy needs besides the blocks of the data, and what it makes of the image.\<close>

definition entry_cost :: "memory \<Rightarrow> nat \<Rightarrow> cstring \<Rightarrow> nat" where
  "entry_cost m d name = (if roomy m d name then 0 else 1)"

definition new_file :: "memory \<Rightarrow> nat \<Rightarrow> byte \<Rightarrow> cstring \<Rightarrow> byte list \<Rightarrow> memory \<Rightarrow> bool" where
  "new_file m d ft name bs m' \<longleftrightarrow> (let i = new_ino m 0; r = inode_at (ino_tab m) i in
     dir_map m d name = None \<and> dir_map m' d = (dir_map m d)(name \<mapsto> (i, ft)) \<and>
     sound m' \<and> same_layout m m' \<and> dir_sound m' d \<and> file_sound False m' r \<and> file_bytes m' r = bs \<and>
     get_le 4 m' (i_size r) = (of_nat (length bs) :: 32 word) \<and> get_le 2 m' (i_links_count r) = (1 :: 16 word) \<and>
     snd (free_space m') = inodes_left 0 m \<and>
     card (fst (free_space m)) = card (fst (free_space m')) + needed bs + entry_cost m d name \<and>
     (\<forall>q. dir_sound m q \<longrightarrow> q \<noteq> d \<longrightarrow> set (dir_blocks m q) \<inter> set (dir_blocks m d) = {} \<longrightarrow>
        dir_sound m' q \<and> dir_map m' q = dir_map m q))"

lemma created_file:
  assumes "sound m" "dir_sound m d" "\<not> no_inode m 0" "created m d 0 name e m1" "sound m1"
  defines "r \<equiv> inode_at (ino_tab m) (new_ino m 0)"
  shows "slot_at m1 r" "blank m1 r" "get_le 2 m1 (i_links_count r) = (1 :: 16 word)" "e + 8 \<le> 131072" "inode_of m1 e = new_ino m 0"
    "inode_at (ino_tab m1) (new_ino m 0) = r" "same_layout m m1" "card (fst (free_space m)) = card (fst (free_space m1)) + entry_cost m d name"
    "dir_sound m q \<Longrightarrow> r \<noteq> q"
proof -
  note C = assms(4) [unfolded created_def Let_def]
  obtain k where k: "k \<in> snd (free_space m)" "k < n_inodes m" "r = ino_tab m + 128 * k"
    unfolding r_def by (rule new_slot [OF assms(1,3)]) (simp_all add: link_ok_def)
  show layout: "same_layout m m1" and "e + 8 \<le> 131072" "inode_of m1 e = new_ino m 0"
    using C by blast+
  show "blank m1 r" "get_le 2 m1 (i_links_count r) = (1 :: 16 word)"
    using C by (simp_all add: linked_ok_def r_def)
  show "inode_at (ino_tab m1) (new_ino m 0) = r"
    using layout by (simp add: r_def same_layout_def)
  have "slot_at m r"
    using k(2,3) by (auto simp: slot_at_def)
  then show "slot_at m1 r"
    by (simp add: slot_at_layout [OF layout])
  show "r \<noteq> q" if "dir_sound m q"
    by (rule dir_slot [OF that]) (use k(1,3) in auto)
  have "finite (fst (free_space m))" by (simp add: free_space_def)
  moreover have "fresh m \<in> fst (free_space m)" if "\<not> roomy m d name"
    using fresh_block(1) [OF soundD(1) [OF assms(1)]] C that by blast
  ultimately show "card (fst (free_space m)) = card (fst (free_space m1)) + entry_cost m d name"
    using C card_Suc_Diff1 [of "fst (free_space m)" "fresh m"] by (simp add: entry_cost_def)
qed

lemma filled_file:
  assumes "sound m" "dir_sound m d" "\<not> no_inode m 0" "created m d 0 name e m1" "sound m1" "dir_sound m1 d"
    and "dir_map m d name = None" "dir_map m1 d = (dir_map m d)(name \<mapsto> (new_ino m 0, ft))"
    and "snd (free_space m1) = inodes_left 0 m" "stores m1 (inode_at (ino_tab m) (new_ino m 0)) bs m2"
  shows "new_file m d ft name bs m2"
proof -
  let ?i = "new_ino m 0"
  let ?r = "inode_at (ino_tab m) ?i"
  let ?K = "slots (file_blocks m2 ?r)"
  note made = created_file [OF assms(1-5)]
  note S = assms(10) [unfolded stores_def]
  note kept = stores_dir [OF assms(5) made(1) assms(10)]
  note fs1 = soundD(1) [OF assms(5)]
  have layout: "same_layout m m2"
    by (rule same_layout_trans [OF made(7)]) (use S in blast)
  have "?r \<noteq> d" by (rule made(9) [OF assms(2)])
  note d = kept [OF assms(6) this]
  have ok: "link_ok m 0" by (simp add: link_ok_def)
  have others: "dir_sound m2 q \<and> dir_map m2 q = dir_map m q"
    if q: "dir_sound m q" "q \<noteq> d" "set (dir_blocks m q) \<inter> set (dir_blocks m d) = {}" for q
  proof -
    have "snd (free_space m1) \<subseteq> snd (free_space m)"
      using inodes_left_sub [of 0 m] assms(9) by simp
    note same = created_dir [OF assms(1-4) this q ok]
    have "?r \<noteq> q" by (rule made(9) [OF q(1)])
    from kept [OF same(1) this] same(2) show ?thesis by simp
  qed
  obtain k where k: "k < n_inodes m1" "?r = ino_tab m1 + 128 * k"
    using made(1) by (auto simp: slot_at_def)
  have "get_le 2 m2 (i_links_count ?r) = (get_le 2 m1 (i_links_count ?r) :: 16 word)"
  proof (rule get_le_cong)
    fix x assume x: "i_links_count ?r \<le> x" "x < i_links_count ?r + 2"
    then have near: "?r + 26 \<le> x" "x < ?r + 28"
      by (simp_all add: inode_fields)
    have plain: "plain_byte m1 x"
      by (rule slot_plain_byte [OF fs1 k(1)]) (use near k(2) in simp_all)
    have "\<not> data_byte m1 x"
      by (rule slot_no_data [OF fs1 k(1)]) (use near k(2) in simp_all)
    moreover have "data_block m1 c" if "c \<in> ?K" for c
      using S free_block_bound [OF fs1] that by blast
    ultimately have "x < 1024 * (c + 1) \<or> 1024 * (c + 1) + 1024 \<le> x" if "c \<in> ?K" for c
      using that near k by (fastforce simp: data_block_def apart_def)
    then have "beside ?r ?K x"
      using near by (simp add: beside_def)
    then show "m2 x = m1 x"
      using S plain near by auto
  qed
  then have "get_le 2 m2 (i_links_count ?r) = (1 :: 16 word)"
    using made(3) by simp
  moreover have "card (fst (free_space m1)) = card (fst (free_space m2)) + needed bs"
  proof -
    have "finite (fst (free_space m1))" by (simp add: free_space_def)
    moreover have "?K \<subseteq> fst (free_space m1)" "card ?K = needed bs" "fst (free_space m2) = fst (free_space m1) - ?K"
      using S by auto
    ultimately show ?thesis
      using card_Diff_subset [of ?K "fst (free_space m1)"] card_mono [of "fst (free_space m1)" ?K] finite_subset by fastforce
  qed
  ultimately show ?thesis
    unfolding new_file_def Let_def using assms(7,8,9) d layout others made(8) S by auto
qed

lemma fill_new_run:
  fixes s :: ext2 and body :: "nat \<Rightarrow> (ext2, int) prog"
  defines "m \<equiv> disk s"
  defines "r \<equiv> inode_at (ino_tab m) (new_ino m 0)"
  assumes "sound m" "dir_sound m d"
    and body: "\<And>e t. e + 8 \<le> 131072 \<Longrightarrow> inode_at (ino_tab (disk t)) (inode_of (disk t) e) = r \<Longrightarrow> sound (disk t) \<Longrightarrow>
      slot_at (disk t) r \<Longrightarrow> blank (disk t) r \<Longrightarrow> src t = src s \<Longrightarrow>
      if needed bs \<le> card (fst (free_space (disk t))) then \<exists>u. body e t = (Ok 0, u) \<and> disk u = copied r bs (disk t)
      else \<exists>u. body e t = (Exit ENOMEM, u)"
  shows "case bnd (create_dir_entry d 0 name ft) body s of
      (Ok c, t) \<Rightarrow> c = 0 \<and> new_file m d ft name bs (disk t)
    | (Exit c, t) \<Rightarrow> c = 1 \<and> 255 < length name \<and> disk t = m \<or> c = EEXIST \<and> dir_map m d name \<noteq> None \<and> disk t = m \<or>
        c = ENOMEM \<and> dir_map m d name = None \<and> (snd (free_space m) = {} \<or> \<not> roomy m d name \<and> length (dir_blocks m d) = 12 \<or>
          card (fst (free_space m)) < needed bs + entry_cost m d name)
    | _ \<Rightarrow> False"
proof -
  have ok: "link_ok m 0" by (simp add: link_ok_def)
  note eff = create_effect [of s d 0 name ft, folded m_def, OF assms(3,4) ok]
  obtain res t where run: "create_dir_entry d 0 name ft s = (res, t)"
    by (cases "create_dir_entry d 0 name ft s")
  show ?thesis
  proof (cases res)
    case (Ok e)
    let ?m1 = "disk t"
    have facts: "\<not> no_inode m 0" "created m d 0 name e ?m1" "sound ?m1" "dir_sound ?m1 d" "dir_map m d name = None"
        "dir_map ?m1 d = (dir_map m d)(name \<mapsto> (new_ino m 0, ft))" "snd (free_space ?m1) = inodes_left 0 m" "src t = src s"
      using eff run Ok by simp_all
    note made = created_file [OF assms(3,4) facts(1-3), folded r_def]
    have at: "inode_at (ino_tab ?m1) (inode_of ?m1 e) = r"
      using made(5,6) by simp
    note fill = body [OF made(4) at facts(3) made(1,2) facts(8)]
    show ?thesis
    proof (cases "needed bs \<le> card (fst (free_space ?m1))")
      case True
      then obtain u where u: "body e t = (Ok 0, u)" "disk u = copied r bs ?m1"
        using fill by auto
      have "new_file m d ft name bs (disk u)"
        unfolding u(2) r_def
        by (rule filled_file [OF assms(3,4) facts(1-4,5-7) copied_stores [OF facts(3) made(1,2) True, unfolded r_def]])
      then show ?thesis
        by (simp add: bnd_def run Ok u(1))
    next
      case False
      then show ?thesis
        using fill facts(5) made(8) by (auto simp: bnd_def run Ok)
    qed
  next
    case (Exit c)
    have "card (fst (free_space m)) < needed bs + entry_cost m d name" if "\<not> roomy m d name" "fst (free_space m) = {}"
      using that by (simp add: entry_cost_def)
    then show ?thesis
      using eff run Exit by (auto simp: bnd_def no_inode_def m_def)
  qed (use eff run in simp_all)
qed

lemma copy_into_run:
  fixes s :: ext2
  defines "m \<equiv> disk s"
  assumes "sound m" "dir_sound m d"
  shows "case bnd (create_dir_entry d 0 name EXT2_FT_REG_FILE) (\<lambda>copied_file.
        bnd (ld32 (de_inode copied_file)) (\<lambda>i. bnd (get_inode i) (\<lambda>inode. thn (copy_sourcefile_data inode) (ret 0)))) s of
      (Ok c, t) \<Rightarrow> c = (0 :: int) \<and> new_file m d EXT2_FT_REG_FILE name (src s) (disk t)
    | (Exit c, t) \<Rightarrow> c = 1 \<and> 255 < length name \<and> disk t = m \<or> c = EEXIST \<and> dir_map m d name \<noteq> None \<and> disk t = m \<or>
        c = ENOMEM \<and> dir_map m d name = None \<and> (snd (free_space m) = {} \<or> \<not> roomy m d name \<and> length (dir_blocks m d) = 12 \<or>
          card (fst (free_space m)) < needed (src s) + entry_cost m d name)
    | _ \<Rightarrow> False"
  unfolding m_def
proof (rule fill_new_run)
  let ?r = "inode_at (ino_tab (disk s)) (new_ino (disk s) 0)"
  fix e and t :: ext2
  assume t: "e + 8 \<le> 131072" "inode_at (ino_tab (disk t)) (inode_of (disk t) e) = ?r" "sound (disk t)" "slot_at (disk t) ?r" "src t = src s"
  have step: "bnd (ld32 (de_inode e)) (\<lambda>i. bnd (get_inode i) (\<lambda>inode. thn (copy_sourcefile_data inode) (ret (0 :: int)))) t =
      bnd (copy_sourcefile_data ?r) (\<lambda>_. ret 0) t"
    by (simp only: entry_ld(2) [OF t(1)] get_inode_run t(2) thn_run)
  show "if needed (src s) \<le> card (fst (free_space (disk t)))
      then \<exists>u. bnd (ld32 (de_inode e)) (\<lambda>i. bnd (get_inode i) (\<lambda>inode. thn (copy_sourcefile_data inode) (ret 0))) t = (Ok (0 :: int), u) \<and>
        disk u = copied ?r (src s) (disk t)
      else \<exists>u. bnd (ld32 (de_inode e)) (\<lambda>i. bnd (get_inode i) (\<lambda>inode. thn (copy_sourcefile_data inode) (ret (0 :: int)))) t = (Exit ENOMEM, u)"
    unfolding step using copy_run [OF t(3,4)] t(5) by (auto simp: bnd_def ret_run split: if_splits)
qed (use assms in simp_all)

text \<open>
  C32: \<open>ext2_cp\<close> from its arguments to the bytes on the disk.  Let the absolute path of the target
  consist of the names \<open>ts\<close>, with a slash at its end or without.  The program returns 0 exactly when
  the path leads to a directory, which then gets a file with the name of the source, or when all but
  its last name do, and nothing fails: afterwards that directory maps the name to a fresh inode,
  whose blocks hold exactly the bytes of the source and whose link count is 1, the counters are
  right, the blocks used are those of the data and at most one more for the entry, and every
  other directory is as before.  Otherwise it ends with \<open>ENOENT\<close> or \<open>EEXIST\<close> as the path says, with 1
  for a name that is too long, with \<open>EEXIST\<close> for one that is taken, each without a change of the
  image, or with \<open>ENOMEM\<close> exactly when inodes, blocks or pointers of the directory run out.
\<close>

theorem cp_copies:
  fixes s :: ext2
  defines "m \<equiv> disk s"
  defines "p \<equiv> root_inode (ino_tab m)"
  assumes "sound m" "\<forall>t \<in> set ts. proper t" "sound_along m p ts" "path_of ts b \<noteq> []"
    and "is_reg source" "contents source = Some bs" "get_file_name source = Some base"
  shows "case cp_main True is_reg contents [tool, img, source, path_of ts b] s of
      (Ok c, t) \<Rightarrow> c = 0 \<and> (\<exists>d n. target m p ts b = Inr (d, n) \<and>
        new_file m d EXT2_FT_REG_FILE (case n of None \<Rightarrow> base | Some name \<Rightarrow> name) bs (disk t))
    | (Exit c, t) \<Rightarrow> (case target m p ts b of
        Inl c' \<Rightarrow> c = c' \<and> disk t = m
      | Inr (d, n) \<Rightarrow> let name = (case n of None \<Rightarrow> base | Some name \<Rightarrow> name) in
          c = 1 \<and> 255 < length name \<and> disk t = m \<or> c = EEXIST \<and> dir_map m d name \<noteq> None \<and> disk t = m \<or>
          c = ENOMEM \<and> dir_map m d name = None \<and> (snd (free_space m) = {} \<or>
            \<not> roomy m d name \<and> length (dir_blocks m d) = 12 \<or>
            card (fst (free_space m)) < needed bs + entry_cost m d name))
    | _ \<Rightarrow> False"
proof -
  let ?s = "s\<lparr>src := bs\<rparr>"
  let ?K = "\<lambda>copied_file. bnd (ld32 (de_inode copied_file)) (\<lambda>i. bnd (get_inode i) (\<lambda>inode.
      thn (copy_sourcefile_data inode) (ret (0 :: int))))"
  have run: "cp_main True is_reg contents [tool, img, source, path_of ts b] s =
      bnd (cp_create_target_file (path_of ts b) (Some base)) ?K ?s"
    using assms(7-9) by (simp add: cp_main_def read_disk_image_def open_file_def bnd_def prog)
  have goal: "cp_create_target_file (path_of ts b) (Some base) ?s = (case target m p ts b of
      Inl c \<Rightarrow> (Exit c, ?s)
    | Inr (d, n) \<Rightarrow> create_dir_entry d 0 (case n of None \<Rightarrow> base | Some name \<Rightarrow> name) EXT2_FT_REG_FILE ?s)"
    using ln_target_run [of ts ?s b "Some base" 0 EXT2_FT_REG_FILE] assms(4-6)
    by (auto simp: cp_is_ln m_def p_def split: sum.splits option.splits)
  show ?thesis
  proof (cases "target m p ts b")
    case (Inl c)
    then show ?thesis
      by (simp add: run goal bnd_def m_def)
  next
    case (Inr dn)
    obtain d n where dn: "dn = (d, n)" by (cases dn)
    define name where "name = (case n of None \<Rightarrow> base | Some name \<Rightarrow> name)"
    have dir: "dir_sound (disk ?s) d"
      using target_sound [OF assms(5) Inr [unfolded dn]] by (simp add: m_def)
    have created: "cp_create_target_file (path_of ts b) (Some base) ?s = create_dir_entry d 0 name EXT2_FT_REG_FILE ?s"
      by (simp add: goal Inr dn name_def)
    have "cp_main True is_reg contents [tool, img, source, path_of ts b] s =
        bnd (create_dir_entry d 0 name EXT2_FT_REG_FILE) ?K ?s"
      by (simp add: run created bnd_def)
    moreover have "sound (disk ?s)" "disk ?s = m" "src ?s = bs"
      using assms(3) by (simp_all add: m_def)
    ultimately show ?thesis
      using copy_into_run [OF _ dir, of name] Inr dn by (simp add: name_def Let_def split: prod.splits outcome.splits)
  qed
qed

lemma small_names:
  "proper (str ''b'')" "dir_map small_image 5248 (str ''b'') = None" "roomy small_image 5248 (str ''b'')"
  "new_ino small_image 0 = 1" "inode_at 5120 1 = 5120" "root_inode 5120 = 5248" "get_file_name (path_of [str ''b''] False) = Some (str ''b'')"
proof -
  show proper: "proper (str ''b'')"
    by (simp add: proper_def str_def SLASH_def)
  show "dir_map small_image 5248 (str ''b'') = None"
    by (simp add: dir_map_def small_dir listing_Cons item_at_def small_self small_parent str_def)
  show "roomy small_image 5248 (str ''b'')"
    by (auto simp: roomy_def small_dir fits_def small_parent pad_def str_def)
  show "new_ino small_image 0 = 1" "inode_at 5120 1 = 5120" "root_inode 5120 = 5248"
    by (simp_all add: new_ino_def small_space inode_at_def INDEX_def inode_size_def root_inode_def EXT2_ROOT_INO_IDX_def)
  show "get_file_name (path_of [str ''b''] False) = Some (str ''b'')"
    using tokens_path [of "[str ''b'']" False] proper by (simp add: get_file_name_def del: path_of_simps)
qed

lemma cp_copies_witness:
  "\<exists>t. cp_main True (\<lambda>_. True) (\<lambda>_. Some (str ''hi'')) [str ''ext2_cp'', str ''d.img'', str ''/b'', str ''/b'']
       \<lparr>disk = small_image, now = 7, src = []\<rparr> = (Ok 0, t) \<and>
     dir_map (disk t) 5248 (str ''b'') = Some (1, EXT2_FT_REG_FILE) \<and> file_bytes (disk t) 5120 = str ''hi'' \<and>
     snd (free_space (disk t)) = {} \<and> card (fst (free_space (disk t))) = 0"
proof -
  let ?s = "\<lparr>disk = small_image, now = 7, src = []\<rparr>" and ?bs = "str ''hi''" and ?b = "str ''b''"
  let ?cp = "cp_main True (\<lambda>_. True) (\<lambda>_. Some ?bs) [str ''ext2_cp'', str ''d.img'', path_of [?b] False, path_of [?b] False] ?s"
  have path: "path_of [?b] False = str ''/b''"
    by (simp add: str_def SLASH_def)
  have one: "needed ?bs = 1"
    by (simp add: needed_def chunks_Cons str_def)
  moreover have "target small_image 5248 [?b] False = Inr (5248, Some ?b)"
    by (simp add: target_one small_names)
  moreover have "length ?b = 1" by (simp add: str_def)
  moreover have "sound_along (disk ?s) (root_inode (ino_tab (disk ?s))) [?b]"
    by (simp add: small_dir_sound small_names small_layout)
  moreover have "path_of [?b] False \<noteq> []" by simp
  ultimately have "\<exists>t. ?cp = (Ok 0, t) \<and> new_file small_image 5248 EXT2_FT_REG_FILE ?b ?bs (disk t)"
    using cp_copies [of ?s "[?b]" False "\<lambda>_. True" "path_of [?b] False" "\<lambda>_. Some ?bs" ?bs ?b "str ''ext2_cp''" "str ''d.img''"]
      small_sound small_names
    by (cases ?cp) (auto simp: small_layout small_space entry_cost_def Let_def simp del: path_of_simps split: outcome.splits)
  then show ?thesis
    unfolding path by (auto simp: new_file_def Let_def small_names small_layout small_space entry_cost_def inodes_left_def one)
qed

end
