(* ===== verification/Mkdir.thy ===== *)
theory Mkdir
  imports Copying
begin

text \<open>
  \<open>ext2_mkdir\<close> as a whole: the new name in its directory, and the new directory with its two entries.
\<close>

section \<open>Counting a directory\<close>

definition dirs_counted :: "memory \<Rightarrow> memory" where
  "dirs_counted m = put_le 2 bg_used_dirs_count (get_le 2 m bg_used_dirs_count + 1 :: 16 word) m"

lemma dirs_counted:
  assumes "sound m"
  shows "sound (dirs_counted m)" "same_layout m (dirs_counted m)" "free_space (dirs_counted m) = free_space m"
    "3072 \<le> x \<Longrightarrow> dirs_counted m x = m x"
proof -
  let ?m = "dirs_counted m"
  have same: "?m x = m x" if "x < 2064 \<or> 2066 \<le> x" for x
    using that by (auto simp: dirs_counted_def put_le_outside ext2_fields)
  then show "3072 \<le> x \<Longrightarrow> ?m x = m x" by simp
  show layout: "same_layout m ?m"
    by (rule same_layoutI) (simp_all add: same)
  note D = fs_okD [OF soundD(1) [OF assms]]
  have bits: "free_bits ?m (blk_map m) (n_blocks m) = free_bits m (blk_map m) (n_blocks m)"
      "free_bits ?m (ino_map m) (n_inodes m) = free_bits m (ino_map m) (n_inodes m)"
    by (rule free_bits_cong, rule same, use D(1,3) in simp)+
  then show "free_space ?m = free_space m"
    using layout by (simp add: free_space_def same_layout_def)
  have "get_le 2 ?m a = (get_le 2 m a :: 16 word)" if "a = 2060 \<or> a = 2062" for a
    by (rule get_le_cong, rule same) (use that in auto)
  moreover have "get_le 4 ?m a = (get_le 4 m a :: 32 word)" if "a = 1036 \<or> a = 1040" for a
    by (rule get_le_cong, rule same) (use that in auto)
  ultimately have "counters_ok ?m"
    using soundD(2) [OF assms] \<open>free_space ?m = free_space m\<close> by (simp add: counters_counted counted_def ext2_fields)
  moreover have "fs_ok ?m"
    by (rule fs_ok_shrink [OF soundD(1) [OF assms] layout]) (use D bits in simp_all)
  ultimately show "sound ?m"
    by (simp add: sound_def)
qed

section \<open>An empty directory\<close>

lemma blank_dir:
  assumes "sound m" "slot_at m r" "blank m r" "(r - ino_tab m) div 128 \<notin> snd (free_space m)"
  shows "dir_blocks m r = []" "entries m r = []" "dir_sound m r" "dir_map m r = Map.empty"
proof -
  obtain j where j: "j < n_inodes m" "r = ino_tab m + 128 * j"
    using assms(2) by (auto simp: slot_at_def)
  have zero: "get_le 4 m (i_block r n) = (0 :: 32 word)" if "n < 12" for n
    using assms(3) that by (simp add: blank_def)
  show blocks: "dir_blocks m r = []"
    by (simp add: dir_blocks_def upt_conv_Cons zero)
  then show none: "entries m r = []"
    by (simp add: entries_def)
  then show "dir_map m r = Map.empty"
    by (simp add: dir_map_def)
  have "r + 128 \<le> disk_size"
    using slot_at_end [OF soundD(1) [OF assms(1)] assms(2)] by simp
  then show "dir_sound m r"
    using j assms(4) zero unfolding dir_sound_def dir_ok_def blocks by auto
qed

lemma dot_room:
  assumes "records m e (e + 1024) = Some [e]" "entries m r = [e]" "name_at m e = str ''.''"
  shows "roomy m r (str ''..'')"
proof -
  have "length (name_at m e) = unat (m (de_name_len e))"
    by (simp add: name_at_def)
  then have "unat (m (de_name_len e)) = 1"
    by (simp add: assms(3) str_def)
  then have len: "actual_len m e = 12"
    by (simp add: actual_len_def pad_def)
  have "records m (e + rec_len_at m e) (e + 1024) = Some []" "e + rec_len_at m e \<le> e + 1024"
    using records_Some_Cons [OF assms(1)] by auto
  then have "rec_len_at m e = 1024"
    using records_Some_Cons [of m "e + rec_len_at m e" "e + 1024" "[]"] by fastforce
  then have "fits m (str ''..'') e"
    using len by (simp add: fits_def pad_def str_def)
  then show ?thesis
    using assms(2) by (auto simp: roomy_def)
qed

section \<open>What the creation of an entry keeps\<close>

lemma dir_inode_ok:
  assumes "fs_ok m" "dir_sound m (inode_at (ino_tab m) i)"
  shows "inode_ok m i" "i \<noteq> 0"
proof -
  obtain j where j: "j < n_inodes m" "inode_at (ino_tab m) i = ino_tab m + 128 * j"
    using dir_slot [OF assms(2)] .
  then have "unat (i - 1) = j"
    by (simp add: inode_at_def INDEX_def inode_size_def)
  then have "i - 1 = of_nat j"
    by (metis unsigned_of_nat word_unat_eq_iff of_nat_unat ucast_id)
  then have i: "i = of_nat (j + 1)"
    by (simp add: diff_eq_eq)
  have "128 * j + 128 \<le> 128 * n_inodes m" using j(1) by simp
  then have "j < 1024"
    using fs_okD(6) [OF assms(1)] by simp
  then have "slot_of i = j \<and> 1 \<le> sint i"
    unfolding i by (intro slot_of_num) simp
  then show "inode_ok m i" "i \<noteq> 0"
    using j(1) by (auto simp: inode_ok_def)
qed

lemma created_blocks:
  assumes "sound m" "dir_sound m d" "created m d link name e m'" "b \<in> set (dir_blocks m' d)"
  shows "block_ok m b" "b \<notin> set (dir_blocks m d) \<Longrightarrow> slot_of b \<in> fst (free_space m)"
proof -
  note C = assms(3) [unfolded created_def Let_def]
  show "block_ok m b"
  proof (cases "b \<in> set (dir_blocks m d)")
    case False
    then have b: "b = of_nat (fresh m + 1)" "fst (free_space m) \<noteq> {}"
      using assms(4) C by (auto split: if_splits)
    then show ?thesis
      using fresh_block(2) [OF soundD(1) [OF assms(1)] b(2)] by simp
  qed (use assms(2) in \<open>simp add: dir_sound_def\<close>)
  assume "b \<notin> set (dir_blocks m d)"
  then have b: "b = of_nat (fresh m + 1)" "fst (free_space m) \<noteq> {}"
    using assms(4) C by (auto split: if_splits)
  then show "slot_of b \<in> fst (free_space m)"
    using fresh_block(1,3) [OF soundD(1) [OF assms(1)] b(2)] by simp
qed

lemma created_word:
  assumes "sound m" "dir_sound m d" "created m d link name e m'"
    and "\<And>x. a \<le> x \<Longrightarrow> x < a + n \<Longrightarrow> plain_byte m x \<and> \<not> data_byte m x \<and> \<not> touches m link (inode_at (ino_tab m) (new_ino m link)) x \<and>
      (x < d + 4 \<or> d + 8 \<le> x) \<and> (x < d + 28 \<or> d + 32 \<le> x) \<and> (x < d + 40 \<or> d + 88 \<le> x)"
  shows "get_le n m' a = (get_le n m a :: 'w::len word)"
proof (rule get_le_cong)
  fix x assume x: "a \<le> x" "x < a + n"
  note C = assms(3) [unfolded created_def Let_def]
  have "\<not> in_blocks m' d x"
    using block_data_byte [OF created_blocks(1) [OF assms(1-3)], of _ x] assms(4) [OF x] by (auto simp: in_blocks_def)
  then show "m' x = m x"
    using C assms(4) [OF x] by blast
qed

lemma created_links:
  assumes "sound m" "dir_sound m d" "created m d link name e m'" "\<not> no_inode m link" "link_ok m link"
    and "slot_at m q" "q \<noteq> inode_at (ino_tab m) (new_ino m link)"
  shows "get_le 2 m' (i_links_count q) = (get_le 2 m (i_links_count q) :: 16 word)"
proof (rule created_word [OF assms(1-3)])
  fix x assume x: "i_links_count q \<le> x" "x < i_links_count q + 2"
  note fs = soundD(1) [OF assms(1)]
  obtain j where j: "j < n_inodes m" "q = ino_tab m + 128 * j"
    using assms(6) by (auto simp: slot_at_def)
  obtain k where k: "k < n_inodes m" "inode_at (ino_tab m) (new_ino m link) = ino_tab m + 128 * k"
    using new_slot [OF assms(1,4,5)] by metis
  obtain i where i: "d = ino_tab m + 128 * i"
    using dir_slot [OF assms(2)] by metis
  have near: "q + 26 \<le> x" "x < q + 28"
    using x by (simp_all add: inode_fields)
  have "j \<noteq> k" using assms(7) j(2) k(2) by auto
  then have "\<not> touches m link (inode_at (ino_tab m) (new_ino m link)) x"
    unfolding k(2) using near j(2) by (cases j k rule: linorder_cases) (auto simp: touches_def)
  moreover have "(x < d + 4 \<or> d + 8 \<le> x) \<and> (x < d + 28 \<or> d + 32 \<le> x) \<and> (x < d + 40 \<or> d + 88 \<le> x)"
    using near j(2) i by (cases j i rule: linorder_cases) auto
  moreover have "plain_byte m x"
    by (rule slot_plain_byte [OF fs j(1)]) (use near j(2) in simp_all)
  moreover have "\<not> data_byte m x"
    by (rule slot_no_data [OF fs j(1)]) (use near j(2) in simp_all)
  ultimately show "plain_byte m x \<and> \<not> data_byte m x \<and> \<not> touches m link (inode_at (ino_tab m) (new_ino m link)) x \<and>
      (x < d + 4 \<or> d + 8 \<le> x) \<and> (x < d + 28 \<or> d + 32 \<le> x) \<and> (x < d + 40 \<or> d + 88 \<le> x)"
    by blast
qed

section \<open>The new directory\<close>

definition new_dir :: "memory \<Rightarrow> 32 word \<Rightarrow> cstring \<Rightarrow> memory \<Rightarrow> bool" where
  "new_dir m up name m' \<longleftrightarrow> (let d = inode_at (ino_tab m) up; i = new_ino m 0; r = inode_at (ino_tab m) i in
     dir_map m d name = None \<and> dir_map m' d = (dir_map m d)(name \<mapsto> (i, EXT2_FT_DIR)) \<and>
     dir_map m' r = [str ''.'' \<mapsto> (i, EXT2_FT_DIR), str ''..'' \<mapsto> (up, EXT2_FT_DIR)] \<and>
     sound m' \<and> same_layout m m' \<and> dir_sound m' d \<and> dir_sound m' r \<and>
     get_le 2 m' (i_links_count r) = (2 :: 16 word) \<and>
     get_le 2 m' (i_links_count d) = (get_le 2 m (i_links_count d) + 1 :: 16 word) \<and>
     get_le 2 m' bg_used_dirs_count = (get_le 2 m bg_used_dirs_count + 1 :: 16 word) \<and>
     snd (free_space m') = inodes_left 0 m \<and>
     card (fst (free_space m)) = card (fst (free_space m')) + 1 + entry_cost m d name \<and>
     (\<forall>q. dir_sound m q \<longrightarrow> q \<noteq> d \<longrightarrow> set (dir_blocks m q) \<inter> set (dir_blocks m d) = {} \<longrightarrow>
        dir_sound m' q \<and> dir_map m' q = dir_map m q))"

text \<open>The two entries of an empty directory \<open>r\<close> with number \<open>i\<close>.\<close>

definition dots :: "memory \<Rightarrow> 32 word \<Rightarrow> 32 word \<Rightarrow> memory \<Rightarrow> bool" where
  "dots m i up m' \<longleftrightarrow> (let d = inode_at (ino_tab m) up; r = inode_at (ino_tab m) i in
     sound m' \<and> same_layout m m' \<and> dir_sound m' r \<and>
     dir_map m' r = [str ''.'' \<mapsto> (i, EXT2_FT_DIR), str ''..'' \<mapsto> (up, EXT2_FT_DIR)] \<and>
     get_le 2 m' (i_links_count r) = (get_le 2 m (i_links_count r) + 1 :: 16 word) \<and>
     get_le 2 m' (i_links_count d) = (get_le 2 m (i_links_count d) + 1 :: 16 word) \<and>
     get_le 2 m' bg_used_dirs_count = (get_le 2 m bg_used_dirs_count :: 16 word) \<and>
     snd (free_space m') = snd (free_space m) \<and> card (fst (free_space m)) = card (fst (free_space m')) + 1 \<and>
     (\<forall>q. dir_sound m q \<longrightarrow> q \<noteq> r \<longrightarrow> dir_sound m' q \<and> dir_map m' q = dir_map m q))"

lemma created_dirs_count:
  assumes "sound m" "dir_sound m d" "created m d link name e m'" "\<not> no_inode m link" "link_ok m link"
  shows "get_le 2 m' bg_used_dirs_count = (get_le 2 m bg_used_dirs_count :: 16 word)"
proof (rule created_word [OF assms(1-3)])
  fix x assume x: "bg_used_dirs_count \<le> x" "x < bg_used_dirs_count + 2"
  note fs = soundD(1) [OF assms(1)]
  note D = fs_okD [OF fs]
  have low: "2064 \<le> x" "x < 2066"
    using x by (simp_all add: ext2_fields)
  have "3072 \<le> inode_at (ino_tab m) (new_ino m link)"
    using inode_slot(4) [OF fs new_ino(1) [OF fs assms(4,5)]] .
  moreover have "3072 \<le> d"
    by (rule dir_slot [OF assms(2)]) (use D(5) in simp)
  ultimately show "plain_byte m x \<and> \<not> data_byte m x \<and> \<not> touches m link (inode_at (ino_tab m) (new_ino m link)) x \<and>
      (x < d + 4 \<or> d + 8 \<le> x) \<and> (x < d + 28 \<or> d + 32 \<le> x) \<and> (x < d + 40 \<or> d + 88 \<le> x)"
    using low D(1,3) by (auto simp: plain_byte_def no_block_byte_def counter_byte_def data_byte_def touches_def split: if_splits)
qed

lemma dots_run:
  fixes s :: ext2 and i up :: "32 word"
  defines "m \<equiv> disk s"
  defines "r \<equiv> inode_at (ino_tab m) i" and "d \<equiv> inode_at (ino_tab m) up"
  assumes "sound m" "dir_sound m r" "dir_blocks m r = []" "dir_sound m d" "d \<noteq> r"
  shows "if fst (free_space m) = {}
    then create_dir_entry r i (str ''.'') EXT2_FT_DIR s = (Exit ENOMEM, s)
    else \<exists>e t e' u. create_dir_entry r i (str ''.'') EXT2_FT_DIR s = (Ok e, t) \<and>
      create_dir_entry r up (str ''..'') EXT2_FT_DIR t = (Ok e', u) \<and> dots m i up (disk u)"
proof -
  note fs = soundD(1) [OF assms(4)]
  have i: "inode_ok m i" "i \<noteq> 0" and up: "inode_ok m up" "up \<noteq> 0"
    using dir_inode_ok [OF fs] assms(5,7) by (simp_all add: r_def d_def)
  have oki: "link_ok m i" "\<not> no_inode m i" "new_ino m i = i" "inodes_left i m = snd (free_space m)"
    using i by (simp_all add: link_ok_def no_inode_def new_ino_def inodes_left_def)
  have none: "entries m r = []" "dir_map m r = Map.empty"
    using assms(6) by (simp_all add: entries_def dir_map_def)
  have short: "length (str ''.'') \<le> 255" by (simp add: str_def)
  note run = create_dir_entry_run [of s r i "str ''.''" EXT2_FT_DIR, folded m_def, OF assms(4,5) oki(1)]
  show ?thesis
  proof (cases "fst (free_space m) = {}")
    case True
    then show ?thesis
      using run none short by simp
  next
    case False
    let ?e = "1024 * (fresh m + 1)" and ?b = "of_nat (fresh m + 1) :: 32 word"
    define m1 where "m1 = appended i (str ''.'') EXT2_FT_DIR (now s) m r"
    have run1: "create_dir_entry r i (str ''.'') EXT2_FT_DIR s = (Ok ?e, s\<lparr>disk := m1\<rparr>)"
      using run none short False oki(2) assms(6) by (simp add: m1_def)
    have room: "length (dir_blocks m r) < 12" using assms(6) by simp
    note hyps = assms(4,5) oki(1,2) short False room
    note new = appended [OF hyps, where ft = EXT2_FT_DIR and time = "now s", folded m1_def]
    have name: "dir_map m r (str ''.'') = None" by (simp add: none)
    have tight: "\<not> roomy m r (str ''.'')" by (simp add: roomy_def none)
    note dir1 = appended_dir [OF hyps name, where ft = EXT2_FT_DIR and time = "now s", folded m1_def]
    note made = appended_created [OF hyps tight, where ft = EXT2_FT_DIR and time = "now s", folded m1_def]
    note C1 = made [unfolded created_def Let_def oki(3), folded r_def]
    note block = fresh_block [OF fs False]
    have blocks1: "dir_blocks m1 r = [?b]"
      using C1 tight assms(6) by simp
    have entries1: "entries m1 r = [?e]"
      using new(6) block(4) by (simp add: entries_def blocks1 block_records_def)
    have dotdot: "roomy m1 r (str ''..'')"
      by (rule dot_room [OF new(6) entries1]) (use new(7) in \<open>simp add: item_at_def\<close>)
    have others1: "dir_sound m1 q \<and> dir_map m1 q = dir_map m q \<and> set (dir_blocks m1 q) \<inter> set (dir_blocks m1 r) = {}"
      if q: "dir_sound m q" "q \<noteq> r" for q
    proof -
      have "snd (free_space m1) \<subseteq> snd (free_space m)" "set (dir_blocks m q) \<inter> set (dir_blocks m r) = {}"
        using new(3) oki(4) assms(6) by simp_all
      note same = created_dir [OF assms(4,5) oki(2) made this(1) q this(2) oki(1)]
      have "?b \<notin> set (dir_blocks m q)"
        using q(1) block(1,3) by (auto simp: dir_sound_def)
      with same show ?thesis by (simp add: blocks1)
    qed
    have layout1: "same_layout m m1" by (rule new(2))
    have okn: "link_ok m1 up" "\<not> no_inode m1 up" "new_ino m1 up = up" "inodes_left up m1 = snd (free_space m1)"
      using up layout1 by (simp_all add: link_ok_def no_inode_def new_ino_def inodes_left_def inode_ok_def same_layout_def)
    note eff = create_effect [of "s\<lparr>disk := m1\<rparr>" r up "str ''..''" EXT2_FT_DIR, simplified, OF new(1) dir1(1) okn(1)]
    have "dir_map m1 r (str ''..'') = None" "length (str ''..'') \<le> 255"
      using dir1(2) none by (simp_all add: str_def)
    then obtain e' u where run2: "create_dir_entry r up (str ''..'') EXT2_FT_DIR (s\<lparr>disk := m1\<rparr>) = (Ok e', u)"
      using eff okn(2) dotdot by (auto split: prod.splits outcome.splits)
    define m2 where "m2 = disk u"
    have facts: "sound m2" "dir_sound m2 r" "dir_map m2 r = (dir_map m1 r)(str ''..'' \<mapsto> (up, EXT2_FT_DIR))"
        "snd (free_space m2) = snd (free_space m1)" "created m1 r up (str ''..'') e' m2"
      using eff run2 okn(3,4) by (simp_all add: m2_def)
    note C2 = facts(5) [unfolded created_def Let_def okn(3)]
    have at1: "inode_at (ino_tab m1) up = d" "inode_at (ino_tab m1) i = r"
      using layout1 by (simp_all add: d_def r_def same_layout_def)
    have "dots m i up m2"
      unfolding dots_def Let_def d_def [symmetric] r_def [symmetric]
    proof (intro conjI allI impI)
      show "sound m2" "dir_sound m2 r" "snd (free_space m2) = snd (free_space m)"
        using facts new(3) oki(4) by simp_all
      show "same_layout m m2"
        by (rule same_layout_trans [OF layout1]) (use C2 in blast)
      show "dir_map m2 r = [str ''.'' \<mapsto> (i, EXT2_FT_DIR), str ''..'' \<mapsto> (up, EXT2_FT_DIR)]"
        using facts(3) dir1(2) none oki(3) by simp
      have slots: "slot_at m1 r" "slot_at m d"
        using dir1(1) assms(7) by (auto simp: dir_sound_def slot_at_def)
      show "get_le 2 m2 (i_links_count r) = (get_le 2 m (i_links_count r) + 1 :: 16 word)"
        using created_links [OF new(1) dir1(1) facts(5) okn(2,1) slots(1)] C1 i(2) assms(8) okn(3) at1 by (simp add: linked_ok_def)
      show "get_le 2 m2 (i_links_count d) = (get_le 2 m (i_links_count d) + 1 :: 16 word)"
        using created_links [OF assms(4,5) made oki(2,1) slots(2)] C2 up(2) assms(8) oki(3) at1 by (simp add: linked_ok_def r_def)
      show "get_le 2 m2 bg_used_dirs_count = (get_le 2 m bg_used_dirs_count :: 16 word)"
        using created_dirs_count [OF new(1) dir1(1) facts(5) okn(2,1)] created_dirs_count [OF assms(4,5) made oki(2,1)] by simp
      have "finite (fst (free_space m))" by (simp add: free_space_def)
      then have "card (fst (free_space m1)) + 1 = card (fst (free_space m))"
        using new(3) block(1) card_Suc_Diff1 [of "fst (free_space m)" "fresh m"] by simp
      then show "card (fst (free_space m)) = card (fst (free_space m2)) + 1"
        using C2 dotdot by simp
      show "dir_sound m2 q" "dir_map m2 q = dir_map m q" if q: "dir_sound m q" "q \<noteq> r" for q
      proof -
        note one = others1 [OF q]
        have "snd (free_space m2) \<subseteq> snd (free_space m1)" using facts(4) by simp
        from created_dir [OF new(1) dir1(1) okn(2) facts(5) this _ q(2) _ okn(1)] one
        show "dir_sound m2 q" "dir_map m2 q = dir_map m q" by simp_all
      qed
    qed
    then have "\<exists>e t e' u. create_dir_entry r i (str ''.'') EXT2_FT_DIR s = (Ok e, t) \<and>
        create_dir_entry r up (str ''..'') EXT2_FT_DIR t = (Ok e', u) \<and> dots m i up (disk u)"
      using run1 run2 unfolding m2_def by blast
    with False show ?thesis by simp
  qed
qed

text \<open>The image when the new entry is there and the directory is counted.\<close>

definition entered :: "memory \<Rightarrow> nat \<Rightarrow> cstring \<Rightarrow> nat \<Rightarrow> memory \<Rightarrow> bool" where
  "entered m d name e m1 \<longleftrightarrow> sound m \<and> dir_sound m d \<and> \<not> no_inode m 0 \<and> created m d 0 name e m1 \<and> sound m1 \<and> dir_sound m1 d \<and>
     dir_map m d name = None \<and> dir_map m1 d = (dir_map m d)(name \<mapsto> (new_ino m 0, EXT2_FT_DIR)) \<and>
     snd (free_space m1) = inodes_left 0 m"

lemma entered:
  assumes "entered m d name e m1"
  shows "sound m" "dir_sound m d" "\<not> no_inode m 0" "created m d 0 name e m1" "sound m1" "dir_sound m1 d" "dir_map m d name = None"
    "dir_map m1 d = (dir_map m d)(name \<mapsto> (new_ino m 0, EXT2_FT_DIR))" "snd (free_space m1) = inodes_left 0 m" "link_ok m 0"
  using assms by (simp_all add: entered_def link_ok_def)

lemma counted_kept:
  assumes "sound m" "dir_sound m q"
  shows "dir_sound (dirs_counted m) q" "dir_map (dirs_counted m) q = dir_map m q" "dir_blocks (dirs_counted m) q = dir_blocks m q"
proof -
  note dc = dirs_counted [OF assms(1)]
  have "3072 \<le> q"
    by (rule dir_slot [OF assms(2)]) (use fs_okD(5) [OF soundD(1) [OF assms(1)]] in simp)
  then have "same_on (q + 40) (q + 88) m (dirs_counted m)"
    by (simp add: same_on_def dc(4))
  from dir_kept [OF assms(2) dc(2) this]
  show "dir_sound (dirs_counted m) q" "dir_map (dirs_counted m) q = dir_map m q" "dir_blocks (dirs_counted m) q = dir_blocks m q"
    using in_blocks_data_byte [OF assms(2)] dc(3,4) by (simp_all add: data_byte_def)
qed

lemma entered_dir:
  fixes m m1 :: memory
  assumes "entered m d name e m1"
  defines "r \<equiv> inode_at (ino_tab m) (new_ino m 0)" and "m2 \<equiv> dirs_counted m1"
  shows "dir_sound m2 r" "dir_blocks m2 r = []" "inode_of m2 e = new_ino m 0" "e + 8 \<le> 131072" "r \<noteq> d" "3072 \<le> r" "3072 \<le> d"
proof -
  note E = entered [OF assms(1)]
  note fs = soundD(1) [OF E(1)]
  note made = created_file [OF E(1-5), folded r_def]
  have e: "3072 \<le> e" "e + 8 \<le> 131072"
    using E(4) by (simp_all add: created_def Let_def)
  then show "e + 8 \<le> 131072" by simp
  have "inode_of m2 e = inode_of m1 e"
    unfolding inode_of_def m2_def by (rule get_le_cong, rule dirs_counted(4) [OF E(5)]) (use e in \<open>simp add: entry_fields\<close>)
  then show "inode_of m2 e = new_ino m 0" using made(5) by simp
  have slot: "r = ino_tab m + 128 * Min (snd (free_space m))"
    using inode_slot(1) [OF fs new_ino(1) [OF fs E(3,10)]] free_ino_num(1) [OF fs new_ino(3) [OF fs E(3,10)]]
    by (simp add: new_ino_def r_def)
  moreover have "ino_tab m1 = ino_tab m"
    using made(7) by (simp add: same_layout_def)
  ultimately have "(r - ino_tab m1) div 128 \<notin> snd (free_space m1)"
    using E(9) by (simp add: inodes_left_def Let_def)
  note empty = blank_dir [OF E(5) made(1,2) this]
  show "dir_sound m2 r" "dir_blocks m2 r = []"
    using counted_kept [OF E(5) empty(3)] empty(1) by (simp_all add: m2_def)
  show "r \<noteq> d" by (rule made(9) [OF E(2)])
  show "3072 \<le> r" using slot fs_okD(5) [OF fs] by simp
  show "3072 \<le> d" by (rule dir_slot [OF E(2)]) (use fs_okD(5) [OF fs] in simp)
qed

lemma entered_new_dir:
  fixes up :: "32 word"
  assumes "entered m (inode_at (ino_tab m) up) name e m1" "dots (dirs_counted m1) (new_ino m 0) up m3"
  shows "new_dir m up name m3"
proof -
  let ?d = "inode_at (ino_tab m) up" and ?i = "new_ino m 0" and ?m2 = "dirs_counted m1"
  let ?r = "inode_at (ino_tab m) ?i"
  note E = entered [OF assms(1)] and A = entered_dir [OF assms(1)]
  note made = created_file [OF E(1-5)] and dc = dirs_counted [OF E(5)] and d = counted_kept [OF E(5,6)]
  have layout: "same_layout m ?m2" by (rule same_layout_trans [OF made(7) dc(2)])
  then have tab: "ino_tab ?m2 = ino_tab m" by (simp add: same_layout_def)
  note D = assms(2) [unfolded dots_def Let_def tab]
  have low: "get_le 2 ?m2 a = (get_le 2 m1 a :: 16 word)" if "3072 \<le> a" for a
    by (rule get_le_cong, rule dc(4)) (use that in simp)
  have "get_le 2 ?m2 bg_used_dirs_count = (get_le 2 m1 bg_used_dirs_count + 1 :: 16 word)"
    by (simp add: dirs_counted_def get_put_le)
  then have used: "get_le 2 m3 bg_used_dirs_count = (get_le 2 m bg_used_dirs_count + 1 :: 16 word)"
    using D created_dirs_count [OF E(1,2,4,3,10)] by simp
  have "slot_at m ?d"
    using E(2) by (auto simp: dir_sound_def slot_at_def)
  from created_links [OF E(1,2,4,3,10) this] A(5)
  have links: "get_le 2 m3 (i_links_count ?d) = (get_le 2 m (i_links_count ?d) + 1 :: 16 word)" "get_le 2 m3 (i_links_count ?r) = (2 :: 16 word)"
    using D low [of "i_links_count ?d"] low [of "i_links_count ?r"] A(6,7) made(3) by (simp_all add: inode_fields)
  have others: "dir_sound m3 q \<and> dir_map m3 q = dir_map m q"
    if q: "dir_sound m q" "q \<noteq> ?d" "set (dir_blocks m q) \<inter> set (dir_blocks m ?d) = {}" for q
  proof -
    have "snd (free_space m1) \<subseteq> snd (free_space m)"
      using inodes_left_sub [of 0 m] E(9) by simp
    note same = created_dir [OF E(1-4) this q E(10)]
    have "?r \<noteq> q" by (rule made(9) [OF q(1)])
    with counted_kept [OF E(5) same(1)] same(2) D show ?thesis by simp
  qed
  have "?d \<noteq> ?r" "same_layout m m3"
    using A(5) D same_layout_trans [OF layout] by auto
  with D d E(7-9) dc(3) made(8) used links others show ?thesis
    unfolding new_dir_def Let_def by simp
qed

lemma make_directory_run:
  fixes s :: ext2 and up :: "32 word"
  defines "m \<equiv> disk s"
  defines "d \<equiv> inode_at (ino_tab m) up"
  assumes "sound m" "dir_sound m d"
  shows "case make_directory (ino_tab m) up d name s of
      (Ok c, t) \<Rightarrow> c = 0 \<and> new_dir m up name (disk t)
    | (Exit c, t) \<Rightarrow> c = 1 \<and> 255 < length name \<and> disk t = m \<or> c = EEXIST \<and> dir_map m d name \<noteq> None \<and> disk t = m \<or>
        c = ENOMEM \<and> dir_map m d name = None \<and> (snd (free_space m) = {} \<or> \<not> roomy m d name \<and> length (dir_blocks m d) = 12 \<or>
          card (fst (free_space m)) < 1 + entry_cost m d name)
    | _ \<Rightarrow> False"
proof -
  have ok: "link_ok m 0" by (simp add: link_ok_def)
  note eff = create_effect [of s d 0 name EXT2_FT_DIR, folded m_def, OF assms(3,4) ok]
  obtain res t where first: "create_dir_entry d 0 name EXT2_FT_DIR s = (res, t)"
    by (cases "create_dir_entry d 0 name EXT2_FT_DIR s")
  show ?thesis
  proof (cases res)
    case (Ok e)
    let ?i = "new_ino m 0" and ?m2 = "dirs_counted (disk t)"
    let ?r = "inode_at (ino_tab m) ?i" and ?s1 = "t\<lparr>disk := ?m2\<rparr>"
    have start: "entered m d name e (disk t)"
      using eff first Ok assms(3,4) by (simp add: entered_def)
    note E = entered [OF start] and A = entered_dir [OF start]
    note made = created_file [OF E(1-5)] and dc = dirs_counted [OF E(5)] and d = counted_kept [OF E(5,6)]
    have tab: "ino_tab ?m2 = ino_tab m"
      using same_layout_trans [OF made(7) dc(2)] by (simp add: same_layout_def)
    have run: "bnd (create_dir_entry d 0 name EXT2_FT_DIR) f s = f e t" for f :: "nat \<Rightarrow> (ext2, int) prog"
      by (simp add: bnd_def first Ok)
    have count: "thn (rmw16 bg_used_dirs_count (\<lambda>n. n + 1)) k t = k ?s1" for k :: "(ext2, int) prog"
      by (simp add: prog dirs_counted_def ext2_fields)
    have "bnd (ld32 (de_inode e)) g ?s1 = g ?i ?s1" for g :: "32 word \<Rightarrow> (ext2, int) prog"
      using entry_ld(2) [OF A(4), of g ?s1] A(3) by simp
    then have step: "make_directory (ino_tab m) up d name s =
        bnd (create_dir_entry ?r ?i (str ''.'') EXT2_FT_DIR) (\<lambda>_. bnd (create_dir_entry ?r up (str ''..'') EXT2_FT_DIR) (\<lambda>_. ret 0)) ?s1"
      unfolding make_directory_def run count by (simp only: Let_def)
    note two = dots_run [of ?s1 ?i up, simplified, unfolded tab, folded d_def, OF dc(1) A(1,2) d(1) A(5) [symmetric]]
    show ?thesis
    proof (cases "fst (free_space ?m2) = {}")
      case True
      then show ?thesis
        using two made(8) dc(3) E(7) unfolding step by (simp add: bnd_def tab)
    next
      case False
      then obtain e1 t1 e2 u where run: "create_dir_entry ?r ?i (str ''.'') EXT2_FT_DIR ?s1 = (Ok e1, t1)"
          "create_dir_entry ?r up (str ''..'') EXT2_FT_DIR t1 = (Ok e2, u)" "dots ?m2 ?i up (disk u)"
        using two by (auto simp: tab)
      then show ?thesis
        using entered_new_dir [OF start [unfolded d_def] run(3)] unfolding step by (simp add: bnd_def prog)
    qed
  next
    case (Exit c)
    have "card (fst (free_space m)) < 1 + entry_cost m d name" if "\<not> roomy m d name" "fst (free_space m) = {}"
      using that by (simp add: entry_cost_def)
    then show ?thesis
      using eff first Exit by (auto simp: make_directory_def bnd_def no_inode_def m_def)
  qed (use eff first in simp_all)
qed

section \<open>The whole program\<close>

lemma mkdir_loop_run:
  fixes s :: ext2
  defines "m \<equiv> disk s"
  assumes "\<forall>t \<in> set (t # ts). proper t" "sound_along m (inode_at (ino_tab m) i) (t # ts)"
  shows "mkdir_loop (ino_tab m) ts i (inode_at (ino_tab m) i) (lookup m (inode_at (ino_tab m) i) t) t s =
    (case reach m i (butlast (t # ts)) of
       None \<Rightarrow> (Ok ENOENT, s)
     | Some up \<Rightarrow> let d = inode_at (ino_tab m) up in
         if dir_map m d (last (t # ts)) \<noteq> None then (Ok EEXIST, s) else make_directory (ino_tab m) up d (last (t # ts)) s)"
  using assms(2,3)
proof (induction ts arbitrary: i t)
  case Nil
  then have "dir_sound m (inode_at (ino_tab m) i)" by simp
  then show ?case
    by (cases rule: lookup_cases [where t = t]) (simp_all add: ret_run)
next
  case (Cons t' ts)
  then have p: "dir_sound m (inode_at (ino_tab m) i)" by simp
  from p show ?case
  proof (cases rule: lookup_cases [where t = t])
    case none
    then show ?thesis by (simp add: ret_run)
  next
    case (some e)
    note ld = entry_ld [OF some(3), where s = s]
    show ?thesis
    proof (cases "m (de_file_type e) = EXT2_FT_DIR")
      case False
      with some show ?thesis
        by (simp add: m_def ld ret_run)
    next
      case True
      let ?j = "inode_of (disk s) e"
      let ?q = "inode_at (ino_tab (disk s)) ?j"
      have along: "sound_along m ?q (t' # ts)"
        using Cons.prems(2) some True by (simp add: m_def)
      have dir: "dir_sound (disk s) ?q" "proper t'"
        using sound_along_start [OF along] Cons.prems(1) by (simp_all add: m_def)
      have IH: "mkdir_loop (ino_tab m) ts ?j ?q (lookup m ?q t') t' s = (case reach m ?j (butlast (t' # ts)) of
          None \<Rightarrow> (Ok ENOENT, s)
        | Some up \<Rightarrow> let d = inode_at (ino_tab m) up in
            if dir_map m d (last (t' # ts)) \<noteq> None then (Ok EEXIST, s) else make_directory (ino_tab m) up d (last (t' # ts)) s)"
        using Cons.IH [of t' ?j] Cons.prems(1) along by (simp add: m_def)
      have ends: "butlast (t # t' # ts) = t # butlast (t' # ts)" "last (t # t' # ts) = last (t' # ts)"
        by simp_all
      show ?thesis
        unfolding ends using some True IH by (simp add: ld find_run [OF dir] Let_def m_def del: butlast.simps last.simps)
    qed
  qed
qed

text \<open>
  C33: \<open>ext2_mkdir\<close> from its arguments to the image.  Let the absolute path consist of the names \<open>ts\<close>.
  The program returns \<open>ENOENT\<close> if the names before the last lead to no directory and \<open>EEXIST\<close> if the
  last one is taken, both without a change.  Otherwise it returns 0: the last name is then a
  directory with a fresh inode and two links, whose only entries are \<open>.\<close> for itself and \<open>..\<close> for the
  directory above, which gets one more link; the count of directories grows by one, exactly one
  inode and one block are used, and one more block if the directory above has no room, and every
  other directory is as before.  The only exit is \<open>ENOMEM\<close>, exactly when inodes, blocks or pointers
  run out.
\<close>

theorem mkdir_creates:
  fixes s :: ext2
  defines "m \<equiv> disk s"
  assumes "sound m" "\<forall>t \<in> set ts. proper t" "sound_along m (root_inode (ino_tab m)) ts" "ts \<noteq> []"
  shows "case mkdir_main True [tool, img, path_of ts b] s of
      (Ok c, t) \<Rightarrow> (case reach m 2 (butlast ts) of
        None \<Rightarrow> c = ENOENT \<and> t = s
      | Some up \<Rightarrow> if dir_map m (inode_at (ino_tab m) up) (last ts) \<noteq> None then c = EEXIST \<and> t = s
          else c = 0 \<and> new_dir m up (last ts) (disk t))
    | (Exit c, t) \<Rightarrow> c = ENOMEM \<and> (\<exists>up. reach m 2 (butlast ts) = Some up \<and> (let d = inode_at (ino_tab m) up; name = last ts in
        dir_map m d name = None \<and> (snd (free_space m) = {} \<or> \<not> roomy m d name \<and> length (dir_blocks m d) = 12 \<or>
          card (fst (free_space m)) < 1 + entry_cost m d name)))
    | _ \<Rightarrow> False"
proof -
  let ?root = "inode_at (ino_tab m) 2"
  obtain t us where ts: "ts = t # us"
    using assms(5) by (cases ts) auto
  have toks: "tokens (path_of ts b) = t # us"
    using tokens_path [OF assms(3)] ts by simp
  have along: "sound_along m ?root ts"
    using assms(4) by (simp add: root_number)
  have root: "dir_sound (disk s) ?root" "proper t"
    using assms(3) along ts sound_along_start by (auto simp: m_def)
  have path: "path_of ts b \<noteq> [SLASH]" "path_of ts b \<noteq> []"
    using assms(3) ts by (auto simp: proper_def)
  have run: "mkdir_main True [tool, img, path_of ts b] s = mkdir_loop (ino_tab m) us 2 ?root (lookup m ?root t) t s"
    using path path_absolute [OF path(2)] toks
    by (simp add: mkdir_main_def read_disk_image_def prog next_token_def root_number find_run [OF root, unfolded m_def] m_def
        Let_def EXT2_ROOT_INO_IDX_def)
  have loop: "mkdir_loop (ino_tab m) us 2 ?root (lookup m ?root t) t s = (case reach m 2 (butlast ts) of
       None \<Rightarrow> (Ok ENOENT, s)
     | Some up \<Rightarrow> let d = inode_at (ino_tab m) up in
         if dir_map m d (last ts) \<noteq> None then (Ok EEXIST, s) else make_directory (ino_tab m) up d (last ts) s)"
    unfolding m_def ts by (rule mkdir_loop_run) (use assms(3) along in \<open>simp_all add: ts m_def\<close>)
  show ?thesis
  proof (cases "reach m 2 (butlast ts)")
    case None
    then show ?thesis by (simp add: run loop)
  next
    case (Some up)
    have d: "dir_sound m (inode_at (ino_tab m) up)"
      by (rule sound_along_reach [OF sound_along_butlast [OF along] Some])
    have "length (last ts) \<le> 255"
      using assms(3,5) by (simp add: proper_def)
    with make_directory_run [of s up "last ts", folded m_def, OF assms(2) d] show ?thesis
      by (cases "dir_map m (inode_at (ino_tab m) up) (last ts) = None") (auto simp: run loop Some Let_def split: outcome.splits)
  qed
qed

lemma mkdir_creates_witness:
  "\<exists>t. mkdir_main True [str ''ext2_mkdir'', str ''d.img'', str ''/b''] \<lparr>disk = small_image, now = 7, src = []\<rparr> = (Ok 0, t) \<and>
     dir_map (disk t) 5248 (str ''b'') = Some (1, EXT2_FT_DIR) \<and>
     dir_map (disk t) 5120 = [str ''.'' \<mapsto> (1, EXT2_FT_DIR), str ''..'' \<mapsto> (2, EXT2_FT_DIR)]"
proof -
  let ?s = "\<lparr>disk = small_image, now = 7, src = []\<rparr>" and ?b = "str ''b''"
  let ?mkdir = "mkdir_main True [str ''ext2_mkdir'', str ''d.img'', path_of [?b] False] ?s"
  have path: "path_of [?b] False = str ''/b''"
    by (simp add: str_def SLASH_def)
  have root: "inode_at 5120 2 = 5248"
    using small_names(6) by (simp add: root_number)
  have "sound_along (disk ?s) (root_inode (ino_tab (disk ?s))) [?b]"
    by (simp add: small_dir_sound small_names small_layout)
  then have "\<exists>t. ?mkdir = (Ok 0, t) \<and> new_dir small_image 2 ?b (disk t)"
    using mkdir_creates [of ?s "[?b]" "str ''ext2_mkdir''" "str ''d.img''" False] small_sound small_names
    by (cases ?mkdir) (auto simp: small_layout small_space root entry_cost_def Let_def simp del: path_of_simps split: outcome.splits)
  then show ?thesis
    unfolding path by (auto simp: new_dir_def Let_def small_names small_layout root)
qed

end
