(* ===== verification/Remove.thy ===== *)
theory Remove
  imports Files
begin

text \<open>
  \<open>delete_file_entry\<close> of \<open>ext2_rm\<close>: the entry disappears from the listing of its directory, and its
  inode loses a link.
\<close>

section \<open>Walking to a record\<close>

text \<open>
  A walk over the records \<open>ps\<close>, at none of which its body stops; \<open>nxt\<close> is the local variable after
  a record, and \<open>V\<close> what is known of it.
\<close>

lemma walk_skip:
  assumes "records (disk s) pos mid = Some ps" "mid \<le> stop" "stop \<le> disk_size" "\<And>x. x < stop \<Longrightarrow> go x" "V pos v"
    and "\<And>e v. e \<in> set ps \<Longrightarrow> V e v \<Longrightarrow> 8 + unat (disk s (de_name_len e)) \<le> rec_len_at (disk s) e \<Longrightarrow>
      e + rec_len_at (disk s) e \<le> mid \<Longrightarrow>
      body e v s = (Ok (Inl (e + rec_len_at (disk s) e, nxt e)), s) \<and> V (e + rec_len_at (disk s) e) (nxt e)"
  shows "walk go body pos v s = walk go body mid (if ps = [] then v else nxt (last ps)) s \<and>
    V mid (if ps = [] then v else nxt (last ps))"
  using assms
proof (induction "disk s" pos mid arbitrary: ps v rule: records.induct)
  case (1 pos mid)
  show ?case
  proof (cases "pos = mid")
    case True
    with 1 show ?thesis by (simp add: records_refl)
  next
    case False
    let ?next = "pos + rec_len_at (disk s) pos"
    obtain qs where fits: "?next \<le> mid" "8 + unat (disk s (de_name_len pos)) \<le> rec_len_at (disk s) pos"
        and qs: "ps = pos # qs" "records (disk s) ?next mid = Some qs"
      using records_Some_Cons [OF 1(2) False] by auto
    have step: "body pos v s = (Ok (Inl (?next, nxt pos)), s)" "V ?next (nxt pos)"
      using 1(7) [of pos v] 1(6) fits qs(1) by simp_all
    have IH: "walk go body ?next (nxt pos) s = walk go body mid (if qs = [] then nxt pos else nxt (last qs)) s \<and>
        V mid (if qs = [] then nxt pos else nxt (last qs))"
      by (rule 1(1)) (use False fits qs step(2) 1(3-5,7) in simp_all)
    have "go pos" "pos < disk_size"
      using 1(3-5) fits by simp_all
    with IH step(1) fits qs(1) show ?thesis
      by (subst walk.simps) auto
  qed
qed

text \<open>The record before \<open>e\<close> in its block.\<close>

definition prev_rec :: "memory \<Rightarrow> nat \<Rightarrow> nat option" where
  "prev_rec m e = (let b = 1024 * (e div 1024) in
     case takeWhile (\<lambda>x. x \<noteq> e) (the (records m b (b + 1024))) of [] \<Rightarrow> None | r # rs \<Rightarrow> Some (last (r # rs)))"

lemma prev_rec:
  assumes "block_ok m b" "block_records m b = Some (ps @ q # qs)"
  shows "prev_rec m q = (if ps = [] then None else Some (last ps))"
proof -
  note chain = assms(2) [unfolded block_records_def]
  have q: "block_start b \<le> q" "q < block_start b + 1024"
    using records_range [OF chain, of q] by auto
  then have b: "1024 * (q div 1024) = block_start b"
    using block_ok_start(1) [OF assms(1)] div_nat_eqI [of 1024 "slot_of b + 1" q] by auto
  have "e < q" if "e \<in> set ps" for e
    using records_range [OF records_split(1) [OF chain] that] by auto
  then have "takeWhile (\<lambda>x. x \<noteq> q) (ps @ q # qs) = ps"
    by (subst takeWhile_append2) auto
  then show ?thesis
    using chain by (simp add: prev_rec_def b split: list.splits)
qed

section \<open>The run of \<open>delete_file_entry\<close>\<close>

text \<open>What happens at the entry found.\<close>

definition remove_act :: "memory \<Rightarrow> nat \<Rightarrow> (ext2, int) prog" where
  "remove_act m q = (if m (de_file_type q) = EXT2_FT_DIR then ret EISDIR
     else thn (unlink_inode (inode_of m q))
         (thn (case prev_rec m q of
                 None \<Rightarrow> st32 (de_inode q) 0
               | Some r \<Rightarrow> bnd (ld16 (de_rec_len q)) (\<lambda>l. rmw16 (de_rec_len r) (\<lambda>x. x + l)))
              (ret 0)))"

lemma delete_body_skip:
  assumes "8 + unat (disk s (de_name_len e)) \<le> rec_len_at (disk s) e" "e + rec_len_at (disk s) e \<le> disk_size"
    and "\<not> (inode_of (disk s) e \<noteq> 0 \<and> name_at (disk s) e = name)"
  shows "delete_body name blk_end e prev s = (Ok (Inl (e + rec_len_at (disk s) e, Some e)), s)"
proof -
  have "0 < rec_len_at (disk s) e" using assms(1) by simp
  then have "(0 :: 16 word) < get_le 2 (disk s) (de_rec_len e)"
    by (simp add: rec_len_at_def word_neq_0_conv [symmetric] unat_gt_0)
  then show ?thesis
    using assms entry_named_run [of e s name]
    by (auto simp: delete_body_def prog bnd_run_bool inode_of_def rec_len_at_def entry_fields)
qed

lemma delete_body_stop:
  assumes "8 + unat (disk s (de_name_len q)) \<le> rec_len_at (disk s) q" "q + rec_len_at (disk s) q \<le> disk_size"
    and "inode_of (disk s) q \<noteq> 0" "name_at (disk s) q = name"
  shows "delete_body name blk_end q (prev_rec (disk s) q) s = bnd (remove_act (disk s) q) (\<lambda>x. ret (Inr x)) s"
proof -
  have "entry_named name q s = (Ok True, s)"
    using entry_named_run [of q s name] assms by simp
  then show ?thesis
    using assms by (simp add: delete_body_def remove_act_def prog bnd_fun bnd_run_bool inode_of_def entry_fields
        del: ret_run)
qed

lemma find_split:
  "find P xs = Some q \<Longrightarrow> \<exists>ps qs. xs = ps @ q # qs \<and> P q \<and> (\<forall>e \<in> set ps. \<not> P e)"
proof (induction xs)
  case (Cons x xs)
  show ?case
  proof (cases "P x")
    case True
    with Cons.prems show ?thesis by (intro exI [of _ "[]"] exI [of _ xs]) auto
  next
    case False
    with Cons obtain ps qs where "xs = ps @ q # qs \<and> P q \<and> (\<forall>e \<in> set ps. \<not> P e)" by auto
    with False show ?thesis by (intro exI [of _ "x # ps"] exI [of _ qs]) auto
  qed
qed simp

lemma delete_block_run:
  fixes s :: ext2 and name :: cstring
  defines "P \<equiv> \<lambda>e. inode_of (disk s) e \<noteq> 0 \<and> name_at (disk s) e = name"
  assumes "block_ok (disk s) b" "block_records (disk s) b = Some xs"
  shows "walk_block (\<noteq>) (delete_body name) (\<lambda>_. None) b s = (case find P xs of
    None \<Rightarrow> (Ok None, s) | Some q \<Rightarrow> bnd (remove_act (disk s) q) (\<lambda>x. ret (Some x)) s)"
proof -
  let ?stop = "block_start b + 1024"
  let ?walk = "walk (\<lambda>pos. pos \<noteq> ?stop) (delete_body name ?stop)"
  note chain = assms(3) [unfolded block_records_def]
  have stop: "?stop \<le> disk_size"
    using block_region(5) [OF assms(2)] by simp
  have skip: "?walk (block_start b) None s = ?walk mid (if ps = [] then None else Some (last ps)) s"
    if "records (disk s) (block_start b) mid = Some ps" "mid \<le> ?stop" "\<forall>e \<in> set ps. \<not> P e" for mid ps
    using walk_skip [OF that(1,2) stop, where V = "\<lambda>_ _. True" and nxt = Some and body = "delete_body name ?stop"
        and go = "\<lambda>pos. pos \<noteq> ?stop" and v = None] that(2,3) stop
    by (simp add: delete_body_skip P_def)
  have "?walk (block_start b) None s = (case find P xs of
      None \<Rightarrow> (Ok (Inl (if xs = [] then None else Some (last xs))), s)
    | Some q \<Rightarrow> bnd (remove_act (disk s) q) (\<lambda>x. ret (Inr x)) s)"
  proof (cases "find P xs")
    case None
    then have "\<forall>e \<in> set xs. \<not> P e"
      by (auto simp: find_None_iff)
    with skip [OF chain] None show ?thesis
      by (simp add: walk.simps [of _ _ ?stop])
  next
    case (Some q)
    then obtain ps qs where split: "xs = ps @ q # qs" "P q" "\<forall>e \<in> set ps. \<not> P e"
      using find_split by metis
    note parts = records_split [OF chain [unfolded split(1)]]
    have q: "8 + unat (disk s (de_name_len q)) \<le> rec_len_at (disk s) q" "q + rec_len_at (disk s) q \<le> ?stop"
      using records_range [OF chain, of q] split(1) by auto
    have prev: "(if ps = [] then None else Some (last ps)) = prev_rec (disk s) q"
      using prev_rec [OF assms(2), of ps q qs] assms(3) split(1) by simp
    have body: "delete_body name ?stop q (prev_rec (disk s) q) s = bnd (remove_act (disk s) q) (\<lambda>x. ret (Inr x)) s"
      by (rule delete_body_stop) (use q stop split(2) in \<open>simp_all add: P_def\<close>)
    have "(case bnd (remove_act (disk s) q) (\<lambda>x. ret (Inr x)) s of (r, t) \<Rightarrow> (case r of
          Ok (Inr x) \<Rightarrow> (Ok (Inr x), t) | Ok (Inl (pos', v')) \<Rightarrow> f pos' v' t
        | Exit c \<Rightarrow> (Exit c, t) | Fault \<Rightarrow> (Fault, t) | Diverge \<Rightarrow> (Diverge, t))) =
        bnd (remove_act (disk s) q) (\<lambda>x. ret (Inr x)) s" for f
      by (simp add: bnd_def prog split: prod.splits outcome.splits)
    then have "?walk q (prev_rec (disk s) q) s = bnd (remove_act (disk s) q) (\<lambda>x. ret (Inr x)) s"
      using q stop body by (subst walk.simps) simp
    with skip [OF parts(1) _ split(3)] q prev Some show ?thesis by simp
  qed
  then show ?thesis
    by (auto simp: walk_block_def Let_def block_end_def EXT2_BLOCK_SIZE_def bnd_def prog returned_def
        split: option.splits prod.splits outcome.splits)
qed

lemma delete_run:
  fixes s :: ext2 and d :: "32 word"
  defines "p \<equiv> inode_at (ino_tab (disk s)) d"
  assumes "dir_sound (disk s) p"
  shows "delete_file_entry d name s = (if 255 < length name then (Exit 1, s)
    else case lookup (disk s) p name of None \<Rightarrow> (Ok ENOENT, s) | Some q \<Rightarrow> remove_act (disk s) q s)"
proof -
  have ok: "dir_ok (disk s) p" "\<And>b. b \<in> set (dir_blocks (disk s) p) \<Longrightarrow> block_ok (disk s) b"
    using assms(2) by (auto simp: dir_sound_def)
  let ?P = "\<lambda>e. inode_of (disk s) e \<noteq> 0 \<and> name_at (disk s) e = name"
  have "block_loop p (walk_block (\<noteq>) (delete_body name) (\<lambda>_. None)) [0..<12] s =
      (case find ?P (entries (disk s) p) of
        None \<Rightarrow> (Ok (Inl (length (dir_blocks (disk s) p))), s)
      | Some e \<Rightarrow> bnd (remove_act (disk s) e) (\<lambda>x. ret (Inr x)) s)"
  proof (rule block_loop_find [OF ok(1)])
    fix b assume b: "b \<in> set (dir_blocks (disk s) p)"
    then have "block_records (disk s) b = Some (the (block_records (disk s) b))"
      using ok(1) by (auto simp: dir_ok_def)
    with b show "walk_block (\<noteq>) (delete_body name) (\<lambda>_. None) b s = (case find ?P (the (block_records (disk s) b)) of
        None \<Rightarrow> (Ok None, s) | Some e \<Rightarrow> bnd (remove_act (disk s) e) (\<lambda>x. ret (Some x)) s)"
      by (intro delete_block_run ok(2))
  qed
  then show ?thesis
    by (cases "find ?P (entries (disk s) p)")
      (auto simp: delete_file_entry_def get_name_len_def EXT2_NAME_LEN_def prog lookup_def bnd_def p_def
        split: prod.splits outcome.splits)
qed

section \<open>Removing a link\<close>

text \<open>A file in use with at least one link.\<close>

definition file_ok :: "memory \<Rightarrow> 32 word \<Rightarrow> bool" where
  "file_ok m i \<longleftrightarrow> inode_ok m i \<and> slot_of i \<notin> snd (free_space m) \<and> file_sound False m (inode_at (ino_tab m) i) \<and>
     get_le 2 m (i_links_count (inode_at (ino_tab m) i)) \<noteq> (0 :: 16 word)"

definition links_at :: "memory \<Rightarrow> 32 word \<Rightarrow> 16 word" where
  "links_at m i = get_le 2 m (i_links_count (inode_at (ino_tab m) i))"

definition dropped :: "32 word \<Rightarrow> 32 word \<Rightarrow> memory \<Rightarrow> memory" where
  "dropped i time m = (if links_at m i = 1 then unlinked i time m
     else put_le 2 (i_links_count (inode_at (ino_tab m) i)) (links_at m i - 1) m)"

text \<open>The free space after a link to the file is gone.\<close>

definition space_without :: "memory \<Rightarrow> 32 word \<Rightarrow> free_space" where
  "space_without m i = (if links_at m i = 1
     then (fst (free_space m) \<union> slots (file_blocks m (inode_at (ino_tab m) i)), insert (slot_of i) (snd (free_space m)))
     else free_space m)"

lemma file_region:
  assumes "sound m" "file_ok m i"
  shows "inode_at (ino_tab m) i = ino_tab m + 128 * slot_of i" "slot_of i < n_inodes m" "inode_at (ino_tab m) i + 128 \<le> 131072"
  using inode_slot [OF soundD(1) [OF assms(1)], of i] assms(2) by (simp_all add: file_ok_def)

lemma dropped_run:
  assumes "sound (disk s)" "file_ok (disk s) i"
  shows "unlink_inode i s = (Ok (), s\<lparr>disk := dropped i (now s) (disk s)\<rparr>)"
proof (cases "links_at (disk s) i = 1")
  case True
  then show ?thesis
    using unlink_inode_run [of s i] assms by (simp add: file_ok_def links_at_def dropped_def)
next
  case False
  then have "links_at (disk s) i - 1 \<noteq> 0" by simp
  moreover have "links_at (disk s) i \<noteq> 0"
    using assms(2) by (simp add: file_ok_def links_at_def)
  ultimately show ?thesis
    using False file_region(3) [OF assms]
    by (simp add: unlink_inode_def prog get_put_le links_at_def dropped_def inode_fields)
qed

lemma dropped:
  assumes "sound m" "file_ok m i"
  shows "sound (dropped i time m)" "same_layout m (dropped i time m)" "free_space (dropped i time m) = space_without m i"
    "\<And>x. plain_byte m x \<Longrightarrow> \<not> field_byte (inode_at (ino_tab m) i) x \<Longrightarrow> dropped i time m x = m x"
proof -
  let ?p = "inode_at (ino_tab m) i"
  have held: "inode_ok m i" "slot_of i \<notin> snd (free_space m)" "file_sound False m ?p"
    using assms(2) by (simp_all add: file_ok_def)
  note gone = unlinked [OF assms(1) held, where time = time]
  note region = file_region [OF assms]
  have "128 * slot_of i + 128 \<le> 128 * n_inodes m" using region(2) by simp
  then have place: "3072 \<le> ?p + 26" "apart (?p + 26) 2 (blk_map m) (n_blocks m)" "apart (?p + 26) 2 (ino_map m) (n_inodes m)"
    using fs_okD(5,8,9) [OF soundD(1) [OF assms(1)]] region(1) by (auto simp: apart_def)
  have same: "put_le 2 (?p + 26) w m x = m x" if "x < ?p + 26 \<or> ?p + 26 + 2 \<le> x" for x and w :: "16 word"
    using that by (rule put_le_outside)
  have kept: "sound (put_le 2 (?p + 26) w m)" "same_layout m (put_le 2 (?p + 26) w m)"
      "free_space (put_le 2 (?p + 26) w m) = free_space m" for w :: "16 word"
    by (rule kept_sound [OF assms(1) _ place], erule same)+
  show "sound (dropped i time m)" "same_layout m (dropped i time m)" "free_space (dropped i time m) = space_without m i"
    using gone(1-3) kept by (auto simp: dropped_def space_without_def inode_fields)
  show "dropped i time m x = m x" if "plain_byte m x" "\<not> field_byte ?p x" for x
    using gone(4) [OF that] same [of x] that(2) by (auto simp: dropped_def inode_fields field_byte_def)
qed

text \<open>The link count goes down by one; with the last link the time of deletion is set.\<close>

definition dtime_after :: "memory \<Rightarrow> 32 word \<Rightarrow> 32 word \<Rightarrow> 32 word" where
  "dtime_after m i time = (if links_at m i = 1 then time else get_le 4 m (i_dtime (inode_at (ino_tab m) i)))"

lemma dropped_fields:
  assumes "sound m" "file_ok m i"
  shows "get_le 2 (dropped i time m) (i_links_count (inode_at (ino_tab m) i)) = links_at m i - 1"
    "get_le 4 (dropped i time m) (i_dtime (inode_at (ino_tab m) i)) = dtime_after m i time"
proof -
  have held: "inode_ok m i" "slot_of i \<notin> snd (free_space m)" "file_sound False m (inode_at (ino_tab m) i)"
    using assms(2) by (simp_all add: file_ok_def)
  note gone = unlinked(5,6) [OF assms(1) held, where time = time]
  show "get_le 2 (dropped i time m) (i_links_count (inode_at (ino_tab m) i)) = links_at m i - 1"
    "get_le 4 (dropped i time m) (i_dtime (inode_at (ino_tab m) i)) = dtime_after m i time"
    using gone by (simp_all add: dropped_def dtime_after_def get_put_le get_put_le_other inode_fields)
qed

text \<open>Data and the block pointers of any inode do not change.\<close>

lemma field_place:
  assumes "sound m" "file_ok m i"
  shows "data_byte m x \<Longrightarrow> \<not> field_byte (inode_at (ino_tab m) i) x"
    "ino_tab m + 128 * j + 40 \<le> x \<Longrightarrow> x < ino_tab m + 128 * j + 128 \<Longrightarrow> \<not> field_byte (inode_at (ino_tab m) i) x"
proof -
  note region = file_region [OF assms]
  show "data_byte m x \<Longrightarrow> \<not> field_byte (inode_at (ino_tab m) i) x"
    using slot_no_data [OF soundD(1) [OF assms(1)] region(2), of x] region(1) by (auto simp: field_byte_def)
  assume x: "ino_tab m + 128 * j + 40 \<le> x" "x < ino_tab m + 128 * j + 128"
  show "\<not> field_byte (inode_at (ino_tab m) i) x"
  proof
    assume "field_byte (inode_at (ino_tab m) i) x"
    then have "ino_tab m + 128 * slot_of i + 20 \<le> x" "x < ino_tab m + 128 * slot_of i + 28"
      using region(1) by (auto simp: field_byte_def)
    with x have "j = slot_of i" by linarith
    with x show False
      using \<open>x < ino_tab m + 128 * slot_of i + 28\<close> by simp
  qed
qed

lemma dropped_data:
  assumes "sound m" "file_ok m i"
  shows "data_byte m x \<Longrightarrow> dropped i time m x = m x"
    "j < n_inodes m \<Longrightarrow> ino_tab m + 128 * j + 40 \<le> x \<Longrightarrow> x < ino_tab m + 128 * j + 128 \<Longrightarrow> dropped i time m x = m x"
  using dropped(4) [OF assms] field_place [OF assms] data_byte_plain slot_plain_byte [OF soundD(1) [OF assms(1)], of j x]
  by simp_all

section \<open>The directory without the entry\<close>

definition hidden :: "memory \<Rightarrow> nat \<Rightarrow> memory \<Rightarrow> memory" where
  "hidden m q u = (case prev_rec m q of
     None \<Rightarrow> put_le 4 (de_inode q) (0 :: 32 word) u
   | Some r \<Rightarrow> put_le 2 (de_rec_len r) (get_le 2 u (de_rec_len r) + get_le 2 u (de_rec_len q) :: 16 word) u)"

text \<open>The bytes of the record that is changed, and where it lies.\<close>

lemma entry_neighbour:
  assumes "dir_sound m p" "q \<in> set (entries m p)"
  obtains (first) b qs where "b \<in> set (dir_blocks m p)" "block_ok m b" "prev_rec m q = None" "q = block_start b"
      "records m q (q + rec_len_at m q) = Some [q]" "records m (q + rec_len_at m q) (block_start b + 1024) = Some qs"
  | (later) b r ps qs where "b \<in> set (dir_blocks m p)" "block_ok m b" "prev_rec m q = Some r" "r + rec_len_at m r = q"
      "records m (block_start b) r = Some ps" "records m r q = Some [r]" "records m q (q + rec_len_at m q) = Some [q]"
      "records m (q + rec_len_at m q) (block_start b + 1024) = Some qs" "8 + unat (m (de_name_len r)) \<le> rec_len_at m r"
proof -
  have ok: "dir_ok m p" using assms(1) by (simp add: dir_sound_def)
  obtain b ps qs where b: "b \<in> set (dir_blocks m p)" "block_records m b = Some (ps @ q # qs)"
      "records m (block_start b) q = Some ps" "records m q (q + rec_len_at m q) = Some [q]"
      "records m (q + rec_len_at m q) (block_start b + 1024) = Some qs"
    using entry_block [OF ok assms(2)] by metis
  have blk: "block_ok m b" using assms(1) b(1) by (simp add: dir_sound_def)
  note prev = prev_rec [OF blk b(2)]
  show thesis
  proof (cases ps rule: rev_cases)
    case Nil
    then have "q = block_start b"
      using b(3) by (auto simp: records.simps split: if_splits)
    with first b blk prev Nil show thesis by simp
  next
    case (snoc rs r)
    note split = records_split [OF b(3) [unfolded snoc]]
    have "r + rec_len_at m r = q"
      using split(2) by (auto simp: records.simps split: if_splits)
    moreover have "8 + unat (m (de_name_len r)) \<le> rec_len_at m r"
      using records_range [OF b(3), of r] snoc by simp
    moreover from calculation have "records m r q = Some [r]"
      by (intro records_one) simp_all
    ultimately show thesis
      using later [OF b(1) blk _ _ split(1) _ b(4,5)] prev snoc by simp
  qed
qed

lemma distinct_records: "records m pos stop = Some ps \<Longrightarrow> distinct ps"
proof (induction ps arbitrary: pos)
  case (Cons q qs)
  have "pos \<noteq> stop" using Cons.prems by (auto simp: records_refl)
  then have step: "q = pos" "8 \<le> rec_len_at m pos" "records m (pos + rec_len_at m pos) stop = Some qs"
    using records_Some_Cons [OF Cons.prems] by auto
  then have "e \<noteq> q" if "e \<in> set qs" for e
    using records_range [OF step(3) that] by auto
  then show ?case using Cons.IH [OF step(3)] by auto
qed simp

lemma distinct_entries:
  assumes "dir_sound m p"
  shows "distinct (entries m p)"
proof -
  have "distinct (concat (map (\<lambda>b. the (block_records m b)) bs))"
    if "distinct bs" "set bs \<subseteq> set (dir_blocks m p)" for bs
    using that
  proof (induction bs)
    case (Cons b bs)
    have ok: "block_ok m c \<and> records m (block_start c) (block_start c + 1024) = Some (the (block_records m c))"
      if "c \<in> set (b # bs)" for c
    proof -
      have "c \<in> set (dir_blocks m p)" using that Cons.prems(2) by auto
      then show ?thesis
        using assms by (auto simp: dir_sound_def dir_ok_def block_records_def)
    qed
    have "e \<notin> set (the (block_records m c))" if c: "c \<in> set bs" and e: "e \<in> set (the (block_records m b))" for c e
    proof
      assume e': "e \<in> set (the (block_records m c))"
      have blocks: "block_ok m b" "block_ok m c" "records m (block_start b) (block_start b + 1024) = Some (the (block_records m b))"
          "records m (block_start c) (block_start c + 1024) = Some (the (block_records m c))"
        using ok [of b] ok [of c] c by simp_all
      have "slot_of c = slot_of b"
        using records_range [OF blocks(3) e] records_range [OF blocks(4) e'] block_ok_start(1) [OF blocks(1)]
          block_ok_start(1) [OF blocks(2)] by simp
      then have "c = b"
        using block_ok_start(3) [OF blocks(1)] block_ok_start(3) [OF blocks(2)] by metis
      then show False using c Cons.prems(1) by simp
    qed
    moreover have "distinct (the (block_records m b))"
      using ok [of b] distinct_records by auto
    ultimately show ?case using Cons by auto
  qed simp
  from this [OF _ subset_refl] assms show ?thesis
    by (simp add: dir_sound_def entries_def)
qed

text \<open>
  An image \<open>u\<close> with the same directory as \<open>m\<close>, and the place of the only word that hiding changes.
\<close>

definition same_dir :: "memory \<Rightarrow> nat \<Rightarrow> memory \<Rightarrow> bool" where
  "same_dir m p u \<longleftrightarrow> same_layout m u \<and> same_on (p + 40) (p + 88) m u \<and> (\<forall>x. data_byte m x \<longrightarrow> u x = m x)"

lemma block_write:
  assumes "sound u" "block_ok u b" "block_start b \<le> a" "a + n \<le> block_start b + 1024" "\<And>x. x < a \<or> a + n \<le> x \<Longrightarrow> m' x = u x"
  shows "sound m'" "same_layout u m'" "free_space m' = free_space u"
proof -
  note region = block_region [OF assms(2)]
  have place: "3072 \<le> a" "apart a n (blk_map u) (n_blocks u)" "apart a n (ino_map u) (n_inodes u)"
    using region assms(3,4) by (auto simp: apart_def)
  show "sound m'" "same_layout u m'" "free_space m' = free_space u"
    by (rule kept_sound [OF assms(1) _ place], erule assms(5))+
qed

lemma write_keeps_dir:
  assumes "fs_ok m" "dir_sound m p" "same_dir m p u" "b \<in> set (dir_blocks m p)" "block_start b \<le> c" "c + k \<le> block_start b + 1024"
    and "\<And>x. x < c \<or> c + k \<le> x \<Longrightarrow> m' x = u x" "a \<le> c" "c + k \<le> z"
  shows "keeps_dir p a z m m'"
proof -
  obtain j where j: "j < n_inodes m" "p = ino_tab m + 128 * j"
    using assms(2) by (auto simp: dir_sound_def)
  have b: "block_ok m b"
    using assms(2,4) by (simp add: dir_sound_def)
  have ptr: "m' x = m x" if x: "p + 40 \<le> x" "x < p + 88" for x
  proof -
    have "\<not> data_byte m x"
      by (rule slot_no_data [OF assms(1) j(1)]) (use x j(2) in auto)
    then have "\<not> (c \<le> x \<and> x < c + k)"
      using block_data_byte [OF b, of x] assms(5,6) by auto
    then have "m' x = u x"
      by (intro assms(7)) auto
    with x assms(3) show ?thesis by (simp add: same_dir_def same_on_def)
  qed
  moreover have "m' x = m x" if x: "in_blocks m p x" "x < a \<or> z \<le> x" for x
  proof -
    have "m' x = u x"
      by (rule assms(7)) (use x(2) assms(8,9) in auto)
    with in_blocks_data_byte [OF assms(2) x(1)] assms(3) show ?thesis by (simp add: same_dir_def)
  qed
  ultimately show ?thesis
    by (simp add: keeps_dir_def same_on_def)
qed

lemma same_item:
  assumes "\<And>x. r \<le> x \<Longrightarrow> x < r + 8 + unat (m (de_name_len r)) \<Longrightarrow> x < r + 4 \<or> r + 6 \<le> x \<Longrightarrow> m' x = m x"
  shows "same_record m m' r" "m' (de_name_len r) = m (de_name_len r)"
proof -
  show len: "m' (de_name_len r) = m (de_name_len r)"
    by (rule assms) (auto simp: entry_fields)
  have "get_le 4 m' r = (get_le 4 m r :: 32 word)"
    by (rule get_le_cong, rule assms) auto
  moreover have "get_bytes m' (r + 8) (unat (m (r + 6))) = get_bytes m (r + 8) (unat (m (r + 6)))"
    unfolding get_bytes_def by (rule map_cong [OF refl], rule assms) (auto simp: entry_fields)
  moreover have "m' (r + 7) = m (r + 7)"
    by (rule assms) (auto simp: entry_fields)
  ultimately show "same_record m m' r"
    using len by (simp add: same_record_def inode_of_def name_at_def entry_fields)
qed

lemma hidden:
  assumes "sound m" "dir_sound m p" "q \<in> set (entries m p)" "sound u" "same_dir m p u"
  defines "m' \<equiv> hidden m q u"
  shows "sound m'" "same_layout m m'" "free_space m' = free_space u" "dir_ok m' p" "dir_blocks m' p = dir_blocks m p"
    "\<And>x. \<not> in_blocks m p x \<Longrightarrow> m' x = u x"
    "\<exists>X Y. entries m p = X @ q # Y \<and> listing m' (entries m' p) = listing m X @ listing m Y"
    "prev_rec m q = Some r \<Longrightarrow> \<exists>X Y. entries m p = X @ r # q # Y \<and> entries m' p = X @ r # Y \<and>
       rec_len_at m' r = rec_len_at m r + rec_len_at m q"
proof -
  note fs = soundD(1) [OF assms(1)]
  have layout: "same_layout m u" and data: "\<And>x. data_byte m x \<Longrightarrow> u x = m x"
    using assms(5) by (simp_all add: same_dir_def)
  have all: "sound m' \<and> same_layout m m' \<and> free_space m' = free_space u \<and> dir_ok m' p \<and> dir_blocks m' p = dir_blocks m p \<and>
    (\<forall>x. \<not> in_blocks m p x \<longrightarrow> m' x = u x) \<and>
    (\<exists>X Y. entries m p = X @ q # Y \<and> listing m' (entries m' p) = listing m X @ listing m Y) \<and>
    (\<forall>r. prev_rec m q = Some r \<longrightarrow> (\<exists>X Y. entries m p = X @ r # q # Y \<and> entries m' p = X @ r # Y \<and>
       rec_len_at m' r = rec_len_at m r + rec_len_at m q))"
  proof (rule entry_neighbour [OF assms(2,3)])
    fix b qs
    assume b: "b \<in> set (dir_blocks m p)" "block_ok m b" and prev: "prev_rec m q = None" "q = block_start b"
      and chain: "records m q (q + rec_len_at m q) = Some [q]" "records m (q + rec_len_at m q) (block_start b + 1024) = Some qs"
    have m': "m' = put_le 4 q (0 :: 32 word) u"
      by (simp add: m'_def hidden_def prev(1) entry_fields)
    have fits: "8 + unat (m (de_name_len q)) \<le> rec_len_at m q" "q + rec_len_at m q \<le> block_start b + 1024"
      using records_range [OF chain(1), of q] records_le [OF chain(2)] by simp_all
    have other: "m' x = u x" if "x < q \<or> q + 4 \<le> x" for x
      unfolding m' using that by (rule put_le_outside)
    have okb: "block_ok u b"
      using b(2) block_ok_layout [OF layout] by simp
    have kept: "sound m'" "same_layout u m'" "free_space m' = free_space u"
      by (rule block_write [OF assms(4) okb, of q 4]; use prev(2) fits other in simp)+
    have here: "m' x = m x" if "q + 4 \<le> x" "x < q + rec_len_at m q" for x
      using other [of x] data [OF block_data_byte [OF b(2), of x]] that fits(2) prev(2) by simp
    have len: "rec_len_at m' q = rec_len_at m q"
      unfolding rec_len_at_def by (intro arg_cong [of _ _ unat] get_le_cong here) (use fits in \<open>auto simp: entry_fields\<close>)
    have "m' (de_name_len q) = m (de_name_len q)"
      by (rule here) (use fits in \<open>auto simp: entry_fields\<close>)
    then have new: "records m' q (q + rec_len_at m q) = Some [q]"
      using len fits(1) by (intro records_one) simp_all
    have zero: "inode_of m' q = 0"
      by (simp add: inode_of_def m' entry_fields get_put_le)
    have keeps: "keeps_dir p q (q + rec_len_at m q) m m'"
      by (rule write_keeps_dir [OF fs assms(2,5) b(1) _ _ other]) (use fits prev(2) in auto)
    have head: "records m (block_start b) q = Some []"
      by (simp add: records_refl prev(2))
    note part = dir_replace_part [OF assms(2) b(1) head chain keeps new]
    obtain A C where AC: "entries m p = A @ q # qs @ C" "entries m' p = A @ q # qs @ C"
        "\<forall>e \<in> set A \<union> set qs \<union> set C. same_record m m' e"
      using part(3) by auto
    have "listing m' (entries m' p) = listing m A @ listing m (qs @ C)"
      using AC(3) zero listing_same [of A m m'] listing_same [of "qs @ C" m m'] by (simp add: AC(2) listing_Cons [of _ q])
    then have "\<exists>X Y. entries m p = X @ q # Y \<and> listing m' (entries m' p) = listing m X @ listing m Y"
      using AC(1) by blast
    moreover have "m' x = u x" if "\<not> in_blocks m p x" for x
      using that b(1) fits prev(2) by (intro other) (auto simp: in_blocks_def)
    ultimately show ?thesis
      using kept same_layout_trans [OF layout] part(1,2) prev(1) by simp
  next
    fix b r ps qs
    assume b: "b \<in> set (dir_blocks m p)" "block_ok m b" and prev: "prev_rec m q = Some r" "r + rec_len_at m r = q"
      and chain: "records m (block_start b) r = Some ps" "records m r q = Some [r]"
        "records m q (q + rec_len_at m q) = Some [q]" "records m (q + rec_len_at m q) (block_start b + 1024) = Some qs"
      and small: "8 + unat (m (de_name_len r)) \<le> rec_len_at m r"
    let ?z = "q + rec_len_at m q"
    let ?w = "get_le 2 u (de_rec_len r) + get_le 2 u (de_rec_len q) :: 16 word"
    have m': "m' = put_le 2 (de_rec_len r) ?w u"
      by (simp add: m'_def hidden_def prev)
    have fits: "block_start b \<le> r" "?z \<le> block_start b + 1024" "8 \<le> rec_len_at m q"
      using records_le [OF chain(1)] records_le [OF chain(4)] records_range [OF chain(3), of q] by simp_all
    have other: "m' x = u x" if "x < r + 4 \<or> r + 4 + 2 \<le> x" for x
      unfolding m' using that by (intro put_le_outside) (simp add: entry_fields)
    have okb: "block_ok u b"
      using b(2) block_ok_layout [OF layout] by simp
    have kept: "sound m'" "same_layout u m'" "free_space m' = free_space u"
      by (rule block_write [OF assms(4) okb, of "r + 4" 2]; use prev(2) fits small other in simp)+
    have block: "u x = m x" if "block_start b \<le> x" "x < block_start b + 1024" for x
      by (rule data [OF block_data_byte [OF b(2) that]])
    have words: "get_le 2 u (de_rec_len r) = (get_le 2 m (de_rec_len r) :: 16 word)"
        "get_le 2 u (de_rec_len q) = (get_le 2 m (de_rec_len q) :: 16 word)"
      by (rule get_le_cong, rule block; use fits prev(2) small in \<open>simp add: entry_fields\<close>)+
    have "rec_len_at m r + rec_len_at m q < 2 ^ 16"
      using fits prev(2) by simp
    then have len: "rec_len_at m' r = rec_len_at m r + rec_len_at m q"
      by (simp add: rec_len_at_def m' get_put_le words unat_word_ariths)
    have here: "m' x = m x" if "r \<le> x" "x < q" "x < r + 4 \<or> r + 6 \<le> x" for x
      using other [of x] block [of x] that fits by auto
    have "x < q" if "x < r + 8 + unat (m (de_name_len r))" for x
      using that small prev(2) by simp
    note item = same_item [of r m m', OF here, OF _ this]
    have new: "records m' r ?z = Some [r]"
      using len item(2) small prev(2) by (intro records_one) simp_all
    have keeps: "keeps_dir p r ?z m m'"
      by (rule write_keeps_dir [OF fs assms(2,5) b(1), where c = "r + 4" and k = 2]) (use fits prev(2) small other in auto)
    have old: "records m r ?z = Some [r, q]"
      using records_append [OF chain(2,3)] by simp
    note part = dir_replace_part [OF assms(2) b(1) chain(1) old chain(4) keeps new]
    obtain A C where AC: "entries m p = A @ ps @ r # q # qs @ C" "entries m' p = A @ ps @ r # qs @ C"
        "\<forall>e \<in> set A \<union> set ps \<union> set qs \<union> set C. same_record m m' e"
      using part(3) by auto
    have "listing m' (entries m' p) = listing m (A @ ps @ [r]) @ listing m (qs @ C)"
      using AC(3) listing_same [of "A @ ps @ [r]" m m'] listing_same [of "qs @ C" m m'] item(1)
      by (simp add: AC(2) listing_Cons [of _ r])
    then have "\<exists>X Y. entries m p = X @ q # Y \<and> listing m' (entries m' p) = listing m X @ listing m Y"
      using AC(1) by (intro exI [of _ "A @ ps @ [r]"] exI [of _ "qs @ C"]) simp
    moreover have "m' x = u x" if "\<not> in_blocks m p x" for x
      using that b(1) fits prev(2) by (intro other) (auto simp: in_blocks_def)
    moreover have "\<forall>r'. prev_rec m q = Some r' \<longrightarrow> (\<exists>X Y. entries m p = X @ r' # q # Y \<and> entries m' p = X @ r' # Y \<and>
        rec_len_at m' r' = rec_len_at m r' + rec_len_at m q)"
      using AC(1,2) prev(1) len by (intro allI impI exI [of _ "A @ ps"] exI [of _ "qs @ C"]) simp
    ultimately show ?thesis
      using kept same_layout_trans [OF layout] part(1,2) by blast
  qed
  then show "sound m'" "same_layout m m'" "free_space m' = free_space u" "dir_ok m' p" "dir_blocks m' p = dir_blocks m p"
    "\<And>x. \<not> in_blocks m p x \<Longrightarrow> m' x = u x"
    "\<exists>X Y. entries m p = X @ q # Y \<and> listing m' (entries m' p) = listing m X @ listing m Y"
    "prev_rec m q = Some r \<Longrightarrow> \<exists>X Y. entries m p = X @ r # q # Y \<and> entries m' p = X @ r # Y \<and>
       rec_len_at m' r = rec_len_at m r + rec_len_at m q" by blast+
qed

section \<open>Removing a file\<close>

definition removed :: "memory \<Rightarrow> 32 word \<Rightarrow> nat \<Rightarrow> memory" where
  "removed m time q = hidden m q (dropped (inode_of m q) time m)"

lemma dropped_same_dir:
  assumes "sound m" "dir_sound m p" "file_ok m i"
  shows "same_dir m p (dropped i time m)"
proof -
  obtain j where j: "j < n_inodes m" "p = ino_tab m + 128 * j"
    using assms(2) by (auto simp: dir_sound_def)
  show ?thesis
    using dropped(2) [OF assms(1,3)] dropped_data [OF assms(1,3)] j by (simp add: same_dir_def same_on_def)
qed

lemma remove_act_run:
  fixes s :: ext2
  defines "m \<equiv> disk s"
  assumes "sound m" "dir_sound m p" "q \<in> set (entries m p)" "m (de_file_type q) \<noteq> EXT2_FT_DIR" "file_ok m (inode_of m q)"
  shows "remove_act m q s = (Ok 0, s\<lparr>disk := removed m (now s) q\<rparr>)"
proof -
  have "de_inode q + 4 \<le> disk_size \<and> de_rec_len q + 2 \<le> disk_size \<and>
      (\<forall>r. prev_rec m q = Some r \<longrightarrow> de_rec_len r + 2 \<le> disk_size)"
  proof (rule entry_neighbour [OF assms(3,4)])
    fix b qs
    assume "block_ok m b" "prev_rec m q = None" "records m q (q + rec_len_at m q) = Some [q]"
      "records m (q + rec_len_at m q) (block_start b + 1024) = Some qs"
    then show ?thesis
      using block_region(5) [of m b] records_range [of m q "q + rec_len_at m q" "[q]" q]
        records_le [of m "q + rec_len_at m q" "block_start b + 1024" qs]
      by (simp add: entry_fields)
  next
    fix b r ps qs
    assume "block_ok m b" "prev_rec m q = Some r" "r + rec_len_at m r = q" "records m q (q + rec_len_at m q) = Some [q]"
      "records m (q + rec_len_at m q) (block_start b + 1024) = Some qs" "8 + unat (m (de_name_len r)) \<le> rec_len_at m r"
    then show ?thesis
      using block_region(5) [of m b] records_range [of m q "q + rec_len_at m q" "[q]" q]
        records_le [of m "q + rec_len_at m q" "block_start b + 1024" qs]
      by (simp add: entry_fields)
  qed
  moreover have "unlink_inode (inode_of m q) s = (Ok (), s\<lparr>disk := dropped (inode_of m q) (now s) m\<rparr>)"
    using dropped_run [of s "inode_of m q"] assms(2,6) by (simp add: m_def)
  ultimately show ?thesis
    using assms(5) by (simp add: remove_act_def prog bnd_run removed_def hidden_def split: option.splits)
qed

lemma lookup_split:
  assumes "dir_sound m p" "lookup m p name = Some q" "entries m p = X @ q # Y"
  shows "inode_of m q \<noteq> 0" "name_at m q = name" "item_at m q \<notin> set (listing m X)"
proof -
  obtain ps qs where split: "entries m p = ps @ q # qs" "inode_of m q \<noteq> 0 \<and> name_at m q = name"
      "\<forall>e \<in> set ps. \<not> (inode_of m e \<noteq> 0 \<and> name_at m e = name)"
    using find_split [OF assms(2) [unfolded lookup_def]] by blast
  have "distinct (entries m p)"
    by (rule distinct_entries [OF assms(1)])
  then have "X = ps"
    using assms(3) split(1) append_Cons_eq_iff [of q X Y ps qs] by simp
  with split show "inode_of m q \<noteq> 0" "name_at m q = name" "item_at m q \<notin> set (listing m X)"
    by (auto simp: listing_def item_at_def)
qed

lemma removed:
  fixes m :: memory and time :: "32 word"
  assumes "sound m" "dir_sound m p" "lookup m p name = Some q" "file_ok m (inode_of m q)"
  defines "m' \<equiv> removed m time q" and "i \<equiv> inode_of m q"
  shows "sound m'" "same_layout m m'" "free_space m' = space_without m i" "dir_ok m' p" "dir_blocks m' p = dir_blocks m p"
    "listing m' (entries m' p) = remove1 (item_at m q) (listing m (entries m p))"
    "\<And>x. plain_byte m x \<Longrightarrow> \<not> in_blocks m p x \<Longrightarrow> \<not> field_byte (inode_at (ino_tab m) i) x \<Longrightarrow> m' x = m x"
proof -
  have q: "q \<in> set (entries m p)"
    using assms(3) by (auto simp: lookup_def find_Some_iff)
  note gone = dropped [OF assms(1,4), where time = time]
  note hid = hidden [OF assms(1,2) q gone(1) dropped_same_dir [OF assms(1,2,4)], folded removed_def m'_def]
  show "sound m'" "same_layout m m'" "free_space m' = space_without m i" "dir_ok m' p" "dir_blocks m' p = dir_blocks m p"
    using hid(1-5) gone(3) by (simp_all add: i_def)
  show "\<And>x. plain_byte m x \<Longrightarrow> \<not> in_blocks m p x \<Longrightarrow> \<not> field_byte (inode_at (ino_tab m) i) x \<Longrightarrow> m' x = m x"
    using hid(6) gone(4) by (simp add: i_def)
  obtain X Y where XY: "entries m p = X @ q # Y" "listing m' (entries m' p) = listing m X @ listing m Y"
    using hid(7) by blast
  note item = lookup_split [OF assms(2,3) XY(1)]
  show "listing m' (entries m' p) = remove1 (item_at m q) (listing m (entries m p))"
    using item by (simp add: XY listing_Cons remove1_append)
qed

lemma removed_fields:
  fixes m :: memory and time :: "32 word"
  assumes "sound m" "dir_sound m p" "lookup m p name = Some q" "file_ok m (inode_of m q)"
  defines "m' \<equiv> removed m time q" and "r \<equiv> inode_at (ino_tab m) (inode_of m q)"
  shows "get_le 2 m' (i_links_count r) = links_at m (inode_of m q) - 1"
    "get_le 4 m' (i_dtime r) = dtime_after m (inode_of m q) time"
proof -
  have q: "q \<in> set (entries m p)"
    using assms(3) by (auto simp: lookup_def find_Some_iff)
  note gone = dropped [OF assms(1,4), where time = time]
  note hid = hidden [OF assms(1,2) q gone(1) dropped_same_dir [OF assms(1,2,4)], folded removed_def m'_def]
  note region = file_region [OF assms(1,4)]
  have same: "m' x = dropped (inode_of m q) time m x" if "r \<le> x" "x < r + 128" for x
  proof (rule hid(6))
    show "\<not> in_blocks m p x"
      using in_blocks_data_byte [OF assms(2), of x] slot_no_data [OF soundD(1) [OF assms(1)] region(2), of x] that region(1)
      by (auto simp: r_def)
  qed
  have "get_le 2 m' (i_links_count r) = (get_le 2 (dropped (inode_of m q) time m) (i_links_count r) :: 16 word)"
      "get_le 4 m' (i_dtime r) = (get_le 4 (dropped (inode_of m q) time m) (i_dtime r) :: 32 word)"
    by (rule get_le_cong, rule same; simp add: inode_fields)+
  then show "get_le 2 m' (i_links_count r) = links_at m (inode_of m q) - 1"
    "get_le 4 m' (i_dtime r) = dtime_after m (inode_of m q) time"
    using dropped_fields [OF assms(1,4), where time = time] by (simp_all add: r_def)
qed

text \<open>
  Removing a file by name from a sound directory always returns.  Without an entry of that name,
  or when it is a directory, nothing changes and the error is reported; otherwise exactly this one
  entry disappears from the listing of the directory, the inode and its blocks are freed if this
  was the last link, the image stays sound, and no byte outside the blocks of the directory changes
  but the counters, the bitmaps, the link count of the inode, which goes down by one, and its time
  of deletion, which is set when the last link goes.
\<close>

theorem delete_file_entry_removes:
  fixes s :: ext2 and d :: "32 word" and name :: cstring
  defines "m \<equiv> disk s"
  defines "p \<equiv> inode_at (ino_tab m) d"
  assumes "sound m" "dir_sound m p"
    and "\<And>q. lookup m p name = Some q \<Longrightarrow> m (de_file_type q) \<noteq> EXT2_FT_DIR \<Longrightarrow> file_ok m (inode_of m q)"
  shows "case delete_file_entry d name s of
      (Ok c, t) \<Rightarrow> length name \<le> 255 \<and> (case lookup m p name of
          None \<Rightarrow> c = ENOENT \<and> t = s
        | Some q \<Rightarrow> if m (de_file_type q) = EXT2_FT_DIR then c = EISDIR \<and> t = s
            else c = 0 \<and> sound (disk t) \<and> dir_ok (disk t) p \<and>
              listing (disk t) (entries (disk t) p) = remove1 (item_at m q) (listing m (entries m p)) \<and>
              free_space (disk t) = space_without m (inode_of m q) \<and>
              get_le 2 (disk t) (i_links_count (inode_at (ino_tab m) (inode_of m q))) = links_at m (inode_of m q) - 1 \<and>
              get_le 4 (disk t) (i_dtime (inode_at (ino_tab m) (inode_of m q))) = dtime_after m (inode_of m q) (now s) \<and>
              (\<forall>x. plain_byte m x \<longrightarrow> \<not> in_blocks m p x \<longrightarrow> \<not> field_byte (inode_at (ino_tab m) (inode_of m q)) x \<longrightarrow>
                 disk t x = m x))
    | (Exit c, t) \<Rightarrow> c = 1 \<and> t = s \<and> 255 < length name
    | _ \<Rightarrow> False"
proof -
  have run: "delete_file_entry d name s = (if 255 < length name then (Exit 1, s)
      else case lookup m p name of None \<Rightarrow> (Ok ENOENT, s) | Some q \<Rightarrow> remove_act m q s)"
    unfolding m_def p_def by (rule delete_run) (use assms(4) in \<open>simp add: m_def p_def\<close>)
  show ?thesis
  proof (cases "lookup m p name")
    case None
    with run show ?thesis by simp
  next
    case (Some q)
    then have q: "q \<in> set (entries m p)"
      by (auto simp: lookup_def find_Some_iff)
    show ?thesis
    proof (cases "m (de_file_type q) = EXT2_FT_DIR")
      case True
      with run Some show ?thesis by (simp add: remove_act_def prog)
    next
      case False
      note ok = assms(5) [OF Some False]
      have "remove_act m q s = (Ok 0, s\<lparr>disk := removed m (now s) q\<rparr>)"
        using remove_act_run [of s p q] assms(3,4) q False ok by (simp add: m_def)
      with run Some False removed [OF assms(3,4) Some ok, where time = "now s"]
        removed_fields [OF assms(3,4) Some ok, where time = "now s"] show ?thesis
        by simp
    qed
  qed
qed

text \<open>
  The small image with a file \<open>a\<close> in the root: inode 1 with one link and the data block 10, nothing
  left free.
\<close>

definition file_image :: memory where
  "file_image = small_image(9232 := 12, 9233 := 0, 9240 := 1, 9244 := 0xE8, 9245 := 3, 9246 := 1, 9247 := 1, 9248 := 0x61,
     5121 := 0x80, 5146 := 1, 5160 := 10, 4096 := 0xFF, 3073 := 0xFF, 1036 := 0, 1040 := 0, 2060 := 0, 2062 := 0)"

lemma file_image_sound: "same_layout small_image file_image" "free_space file_image = ({}, {})" "sound file_image"
proof -
  show layout: "same_layout small_image file_image"
    by (rule same_layoutI) (simp_all add: file_image_def)
  have upt: "[0..<16] = [0,1,2,3,4,5,6,7,8,9,10,11,12,13,14,15]"
    by code_simp+
  have "list_all (bit_used file_image 3072) [0..<16]" "list_all (bit_used file_image 4096) [0..<16]"
    by (simp_all add: upt bit_used_def file_image_def small_image_def)
  then have bits: "free_bits file_image 3072 2 = {}" "free_bits file_image 4096 2 = {}"
    by (auto simp: free_bits_def list_all_iff simp del: upt_rec_numeral)
  then show "free_space file_image = ({}, {})"
    using layout by (simp add: free_space_def same_layout_def small_layout)
  have "fs_ok file_image"
    by (rule fs_ok_shrink [OF soundD(1) [OF small_sound] layout]) (use bits in \<open>simp_all add: small_layout\<close>)
  moreover have "counters_ok file_image"
    using layout bits
    by (simp add: counters_ok_def same_layout_def small_layout ext2_fields get_le_small file_image_def small_image_def)
  ultimately show "sound file_image"
    by (simp add: sound_def)
qed

lemma file_layout: "blk_map file_image = 3072" "ino_map file_image = 4096" "ino_tab file_image = 5120"
    "n_blocks file_image = 2" "n_inodes file_image = 2"
  using file_image_sound(1) by (simp_all add: same_layout_def small_layout)

lemma file_dir:
  "dir_blocks file_image 5248 = [9]" "block_records file_image 9 = Some [9216, 9228, 9240]"
  "entries file_image 5248 = [9216, 9228, 9240]" "dir_blocks file_image 5120 = [10]"
proof -
  show blocks: "dir_blocks file_image 5248 = [9]" "dir_blocks file_image 5120 = [10]"
    by (simp_all add: dir_blocks_def inode_fields upt_conv_Cons get_le_small file_image_def small_image_def)
  have le2: "get_le 2 m a = ucast (m a) OR push_bit 8 (ucast (m (Suc a)))" for m a
    by (simp add: numeral_2_eq_2)
  show recs: "block_records file_image 9 = Some [9216, 9228, 9240]"
    by (simp add: block_records_def block_start_def EXT2_BLOCK_SIZE_def records.simps rec_len_at_def entry_fields
        le2 file_image_def small_image_def)
  show "entries file_image 5248 = [9216, 9228, 9240]"
    using recs by (simp add: entries_def blocks)
qed

lemma file_records:
  "inode_of file_image 9216 = 2" "inode_of file_image 9228 = 2" "inode_of file_image 9240 = 1"
  "name_at file_image 9216 = str ''.''" "name_at file_image 9228 = str ''..''" "name_at file_image 9240 = str ''a''"
  "rec_len_at file_image 9216 = 12" "rec_len_at file_image 9228 = 12" "rec_len_at file_image 9240 = 1000"
proof -
  have le2: "get_le 2 m a = ucast (m a) OR push_bit 8 (ucast (m (Suc a)))" for m a
    by (simp add: numeral_2_eq_2)
  show "inode_of file_image 9216 = 2" "inode_of file_image 9228 = 2" "inode_of file_image 9240 = 1"
    by (simp_all add: inode_of_def entry_fields get_le_small file_image_def small_image_def)
  show "rec_len_at file_image 9216 = 12" "rec_len_at file_image 9228 = 12" "rec_len_at file_image 9240 = 1000"
    by (simp_all add: rec_len_at_def entry_fields le2 file_image_def small_image_def)
  have "get_bytes file_image 9236 2 = [file_image 9236, file_image 9237]"
    by (simp add: get_bytes_def upt_conv_Cons)
  then show "name_at file_image 9216 = str ''.''" "name_at file_image 9228 = str ''..''" "name_at file_image 9240 = str ''a''"
    by (simp_all add: name_at_def get_bytes_def entry_fields file_image_def small_image_def str_def)
qed

lemma file_image_ok:
  "dir_sound file_image 5248" "lookup file_image 5248 (str ''a'') = Some 9240" "file_image (de_file_type 9240) \<noteq> EXT2_FT_DIR"
  "file_ok file_image 1" "links_at file_image 1 = 1" "file_blocks file_image 5120 = [10]" "inode_at 5120 1 = 5120" "slot_of 1 = 0"
proof -
  have slots: "slot_of 9 = 8" "1 \<le> sint (9 :: 32 word)" "slot_of 10 = 9" "1 \<le> sint (10 :: 32 word)"
    "slot_of 1 = 0" "1 \<le> sint (1 :: 32 word)"
    by code_simp+
  then have blocks: "block_ok file_image 9" "block_ok file_image 10" "inode_ok file_image 1"
    by (simp_all add: block_ok_def inode_ok_def data_block_def file_layout apart_def)
  have "get_le 4 file_image (i_block 5248 n) = (0 :: 32 word)" if "n < 12" "1 \<le> n" for n
    using that by (subst get_le_small) (auto simp: inode_fields file_image_def small_image_def)
  then show "dir_sound file_image 5248"
    using blocks
    by (simp add: dir_sound_def dir_ok_def file_dir file_layout file_image_sound(2) block_start_def EXT2_BLOCK_SIZE_def)
  show at: "inode_at 5120 1 = 5120" "slot_of 1 = 0"
    using slots by (simp_all add: inode_at_slot)
  have "indirect_of file_image 5120 = 0"
    by (rule indirect_zero) (simp add: file_dir)
  then show fb: "file_blocks file_image 5120 = [10]"
    by (simp add: file_blocks_def file_dir)
  have "get_le 2 file_image 5146 = (1 :: 16 word)"
    by (simp add: get_le_small file_image_def small_image_def)
  then show links: "links_at file_image 1 = 1"
    by (simp add: links_at_def file_layout at inode_fields)
  have "file_sound False file_image 5120"
    using blocks fb by (auto simp: file_sound_def markable_def file_layout file_image_sound(2) intro!: exI [of _ 0])
  then show "file_ok file_image 1"
    using blocks links by (simp add: file_ok_def links_at_def file_layout at file_image_sound(2))
  show "lookup file_image 5248 (str ''a'') = Some 9240"
    by (simp add: lookup_def file_dir file_records str_def)
  show "file_image (de_file_type 9240) \<noteq> EXT2_FT_DIR"
    by (simp add: entry_fields EXT2_FT_DIR_def file_image_def)
qed

lemma delete_file_entry_removes_witness:
  "\<exists>t. delete_file_entry 2 (str ''a'') \<lparr>disk = file_image, now = 7, src = []\<rparr> = (Ok 0, t) \<and> sound (disk t) \<and>
     listing (disk t) (entries (disk t) 5248) = remove1 (item_at file_image 9240) (listing file_image [9216, 9228, 9240]) \<and>
     free_space (disk t) = ({9}, {0})"
proof -
  let ?s = "\<lparr>disk = file_image, now = 7, src = []\<rparr>"
  have "slot_of 10 = 9"
    by code_simp
  then have "space_without file_image 1 = ({9}, {0})"
    using file_image_ok by (simp add: space_without_def file_layout file_image_sound(2) slots_def)
  then show ?thesis
    using delete_file_entry_removes [of ?s 2 "str ''a''"] file_image_sound(3) file_image_ok small_dir(1)
    by (cases "delete_file_entry 2 (str ''a'') ?s")
      (auto simp: file_layout file_dir file_records str_def split: outcome.splits)
qed

end
