(* ===== verification/Restore.thy ===== *)
theory Restore
  imports Remove
begin

text \<open>
  \<open>restore_file\<close> of \<open>ext2_restore\<close> as the inverse of \<open>delete_file_entry\<close> of \<open>ext2_rm\<close>: the gap behind
  the record before the deleted one still holds it.
\<close>

section \<open>Gaps\<close>

text \<open>
  A record without a gap, or with a gap that begins with a zero record: the search skips it.
\<close>

definition quiet :: "memory \<Rightarrow> nat \<Rightarrow> bool" where
  "quiet m e \<longleftrightarrow> actual_len m e = rec_len_at m e \<or>
     actual_len m e + 8 \<le> rec_len_at m e \<and> inode_of m (e + actual_len m e) = 0 \<and>
     m (de_name_len (e + actual_len m e)) = 0 \<and> rec_len_at m (e + actual_len m e) = 0"

lemma gap_loop_end: "gap_loop name last_valid stop stop s = (Ok (Inl stop), s)"
  by (simp add: gap_loop.simps)

lemma restore_body_quiet:
  assumes "8 + unat (disk s (de_name_len e)) \<le> rec_len_at (disk s) e" "e + rec_len_at (disk s) e \<le> disk_size" "quiet (disk s) e"
  shows "restore_body name e e s = (Ok (Inl (e + rec_len_at (disk s) e, e + rec_len_at (disk s) e)), s)"
proof -
  let ?m = "disk s"
  let ?g = "e + actual_len ?m e" and ?z = "e + rec_len_at ?m e"
  have "gap_loop name e ?z ?g s = (Ok (Inl ?z), s)"
  proof (cases "actual_len ?m e = rec_len_at ?m e")
    case True
    then show ?thesis by (simp add: gap_loop_end)
  next
    case False
    then have gap: "?g + 8 \<le> ?z" "inode_of ?m ?g = 0" "?m (de_name_len ?g) = 0" "rec_len_at ?m ?g = 0"
      using assms(3) by (simp_all add: quiet_def)
    then have "get_le 2 ?m (de_rec_len ?g) = (0 :: 16 word)"
      by (simp add: rec_len_at_def unat_eq_0)
    then have "gap_body name e ?z ?g s = (Ok (Inl ?z), s)"
      using gap assms(2) by (simp add: gap_body_def prog Let_def inode_of_def entry_fields)
    then show ?thesis
      using gap(1) assms(2) by (subst gap_loop.simps) (simp add: bnd_run gap_loop_end)
  qed
  moreover have "bnd (get_actual_dir_entry_len e) f s = f (int (actual_len ?m e)) s" for f :: "int \<Rightarrow> (ext2, (nat \<times> nat) + int) prog"
    by (rule actual_len_run) (use assms in simp)
  ultimately show ?thesis
    using assms by (simp add: restore_body_def prog Let_def bnd_run rec_len_at_def entry_fields)
qed

text \<open>The deleted record \<open>q\<close> right behind the name of \<open>r\<close> is the one that is looked for.\<close>

definition restore_act :: "32 word \<Rightarrow> nat \<Rightarrow> nat \<Rightarrow> (ext2, int) prog" where
  "restore_act i q r = bnd (reclaim_inode_and_data_blocks i) (\<lambda>result.
     if result = 0 then thn (unhide_deleted_entry q r) (ret result) else ret result)"

lemma restore_act_run:
  "bnd (restore_act i q r) (\<lambda>x. ret (Inr x)) = bnd (reclaim_inode_and_data_blocks i) (\<lambda>result.
     if result = 0 then thn (unhide_deleted_entry q r) (ret (Inr result)) else ret (Inr result))"
  unfolding restore_act_def bnd_fun by (rule arg_cong [of _ _ "bnd _"], rule ext) (simp add: bnd_fun)

definition found_at :: "memory \<Rightarrow> cstring \<Rightarrow> nat \<Rightarrow> nat \<Rightarrow> bool" where
  "found_at m name q r \<longleftrightarrow> r + actual_len m r = q \<and> q + 8 + unat (m (de_name_len q)) \<le> r + rec_len_at m r \<and>
     inode_of m q \<noteq> 0 \<and> name_at m q = name \<and> m (de_file_type q) \<noteq> EXT2_FT_DIR"

lemma bnd_mapped: "m s = bnd m' (\<lambda>x. ret (g x)) s \<Longrightarrow> bnd m f s = bnd m' (\<lambda>x. f (g x)) s"
  unfolding bnd_def by (cases "m' s"; cases "fst (m' s)") (simp_all add: ret_def)

lemma restore_body_found:
  assumes "found_at (disk s) name q r" "8 + unat (disk s (de_name_len r)) \<le> rec_len_at (disk s) r" "r + rec_len_at (disk s) r \<le> disk_size"
  shows "restore_body name r r s = bnd (restore_act (inode_of (disk s) q) q r) (\<lambda>x. ret (Inr x)) s"
proof -
  let ?m = "disk s"
  let ?z = "r + rec_len_at ?m r"
  have q: "q + 8 + unat (?m (de_name_len q)) \<le> disk_size" "q < ?z"
    using assms by (auto simp: found_at_def)
  have named: "entry_named name q s = (Ok True, s)"
    using entry_named_run [OF q(1), of name] assms(1) by (simp add: found_at_def)
  have body: "gap_body name r ?z q s = bnd (restore_act (inode_of ?m q) q r) (\<lambda>x. ret (Inr x)) s"
    unfolding restore_act_run
    using assms(1) named q(1)
    by (simp add: gap_body_def found_at_def bnd_ld bnd_run_bool Let_def inode_of_def entry_fields)
  have "bnd (gap_body name r ?z q) f s = bnd (restore_act (inode_of ?m q) q r) (\<lambda>x. f (Inr x)) s"
    for f :: "nat + int \<Rightarrow> (ext2, nat + int) prog"
    by (rule bnd_mapped [where g = Inr]) (rule body)
  then have loop: "gap_loop name r ?z q s = bnd (restore_act (inode_of ?m q) q r) (\<lambda>x. ret (Inr x)) s"
    using q by (subst gap_loop.simps) simp
  have "bnd (gap_loop name r ?z q) f s = bnd (restore_act (inode_of ?m q) q r) (\<lambda>x. f (Inr x)) s"
    for f :: "nat + int \<Rightarrow> (ext2, (nat \<times> nat) + int) prog"
    by (rule bnd_mapped [where g = Inr]) (rule loop)
  moreover have "bnd (get_actual_dir_entry_len r) f s = f (int (actual_len ?m r)) s" for f :: "int \<Rightarrow> (ext2, (nat \<times> nat) + int) prog"
    by (rule actual_len_run) (use assms in simp)
  ultimately show ?thesis
    using assms
    by (simp add: restore_body_def found_at_def bnd_ld Let_def rec_len_at_def entry_fields)
qed

section \<open>The run of \<open>restore_file\<close>\<close>

lemma restore_block_run:
  fixes s :: ext2
  assumes "block_ok (disk s) b" "block_records (disk s) b = Some xs"
    and "\<And>e. e \<in> set xs \<Longrightarrow> e \<noteq> r \<Longrightarrow> quiet (disk s) e" "found_at (disk s) name q r"
  shows "walk_block (<) (\<lambda>_. restore_body name) (\<lambda>start. start) b s = (case find (\<lambda>e. e = r) xs of
    None \<Rightarrow> (Ok None, s) | Some e \<Rightarrow> bnd (restore_act (inode_of (disk s) q) q e) (\<lambda>x. ret (Some x)) s)"
proof -
  let ?start = "block_start b"
  let ?stop = "?start + 1024"
  let ?walk = "walk (\<lambda>pos. pos < ?stop) (restore_body name)"
  note chain = assms(2) [unfolded block_records_def]
  have stop: "?stop \<le> disk_size"
    using block_region(5) [OF assms(1)] by simp
  have skip: "?walk ?start ?start s = ?walk mid mid s"
    if "records (disk s) ?start mid = Some ps" "mid \<le> ?stop" "\<forall>e \<in> set ps. e \<noteq> r \<and> e \<in> set xs" for mid ps
    using walk_skip [OF that(1,2) stop, where V = "\<lambda>e v. v = e" and nxt = "\<lambda>e. e + rec_len_at (disk s) e"
        and body = "restore_body name" and go = "\<lambda>pos. pos < ?stop" and v = ?start] that(2,3) stop assms(3)
    by (auto simp: restore_body_quiet)
  have "?walk ?start ?start s = (case find (\<lambda>e. e = r) xs of
      None \<Rightarrow> (Ok (Inl ?stop), s)
    | Some e \<Rightarrow> bnd (restore_act (inode_of (disk s) q) q e) (\<lambda>x. ret (Inr x)) s)"
  proof (cases "find (\<lambda>e. e = r) xs")
    case None
    then have "\<forall>e \<in> set xs. e \<noteq> r"
      by (auto simp: find_None_iff)
    with skip [OF chain] None show ?thesis
      by (simp add: walk.simps [of _ _ ?stop])
  next
    case (Some e)
    then obtain ps qs where split: "xs = ps @ r # qs" "e = r" "\<forall>e \<in> set ps. e \<noteq> r"
      using find_split [OF Some] by blast
    note parts = records_split [OF chain [unfolded split(1)]]
    have fits: "8 + unat (disk s (de_name_len r)) \<le> rec_len_at (disk s) r" "r + rec_len_at (disk s) r \<le> ?stop"
      using records_range [OF chain, of r] split(1) by auto
    have body: "restore_body name r r s = bnd (restore_act (inode_of (disk s) q) q r) (\<lambda>x. ret (Inr x)) s"
      by (rule restore_body_found [OF assms(4)]) (use fits stop in simp_all)
    have "(case bnd (restore_act i q r) (\<lambda>x. ret (Inr x)) s of (r, t) \<Rightarrow> (case r of
          Ok (Inr x) \<Rightarrow> (Ok (Inr x), t) | Ok (Inl (pos', v')) \<Rightarrow> f pos' v' t
        | Exit c \<Rightarrow> (Exit c, t) | Fault \<Rightarrow> (Fault, t) | Diverge \<Rightarrow> (Diverge, t))) =
        bnd (restore_act i q r) (\<lambda>x. ret (Inr x)) s" for f i
      by (simp add: bnd_def prog split: prod.splits outcome.splits)
    then have "?walk r r s = bnd (restore_act (inode_of (disk s) q) q r) (\<lambda>x. ret (Inr x)) s"
      using fits stop body by (subst walk.simps) simp
    with skip [OF parts(1)] fits split Some show ?thesis by simp
  qed
  then show ?thesis
    by (auto simp: walk_block_def Let_def block_end_def EXT2_BLOCK_SIZE_def bnd_def prog returned_def
        split: option.splits prod.splits outcome.splits)
qed

lemma restore_run:
  fixes s :: ext2 and d :: "32 word" and name :: cstring
  defines "p \<equiv> inode_at (ino_tab (disk s)) d"
  assumes "dir_ok (disk s) p" "\<And>b. b \<in> set (dir_blocks (disk s) p) \<Longrightarrow> block_ok (disk s) b"
    and "lookup (disk s) p name = None" "length name \<le> 255" "r \<in> set (entries (disk s) p)"
    and "\<And>e. e \<in> set (entries (disk s) p) \<Longrightarrow> e \<noteq> r \<Longrightarrow> quiet (disk s) e" "found_at (disk s) name q r"
  shows "restore_file d name s = restore_act (inode_of (disk s) q) q r s"
proof -
  let ?act = "restore_act (inode_of (disk s) q) q"
  have find: "find (\<lambda>e. e = r) (entries (disk s) p) = Some r"
  proof (cases "find (\<lambda>e. e = r) (entries (disk s) p)")
    case None
    then show ?thesis using assms(6) by (auto simp: find_None_iff)
  next
    case (Some e)
    then show ?thesis by (auto simp: find_Some_iff)
  qed
  have "block_loop p (walk_block (<) (\<lambda>_. restore_body name) (\<lambda>start. start)) [0..<12] s =
      (case find (\<lambda>e. e = r) (entries (disk s) p) of
        None \<Rightarrow> (Ok (Inl (length (dir_blocks (disk s) p))), s) | Some e \<Rightarrow> bnd (?act e) (\<lambda>x. ret (Inr x)) s)"
  proof (rule block_loop_find [OF assms(2)])
    fix b assume b: "b \<in> set (dir_blocks (disk s) p)"
    then have chain: "block_records (disk s) b = Some (the (block_records (disk s) b))"
      using assms(2) by (auto simp: dir_ok_def)
    have "e \<in> set (entries (disk s) p)" if "e \<in> set (the (block_records (disk s) b))" for e
      using that b by (auto simp: entries_def)
    then show "walk_block (<) (\<lambda>_. restore_body name) (\<lambda>start. start) b s =
        (case find (\<lambda>e. e = r) (the (block_records (disk s) b)) of
          None \<Rightarrow> (Ok None, s) | Some e \<Rightarrow> bnd (?act e) (\<lambda>x. ret (Some x)) s)"
      using assms(3) [OF b] assms(7,8) by (intro restore_block_run [OF _ chain]) auto
  qed
  then show ?thesis
    using assms(2,4,5) find find_entry_run [of s p name]
    by (simp add: restore_file_def get_name_len_def EXT2_NAME_LEN_def prog bnd_run p_def)
      (simp add: bnd_def prog split: prod.splits outcome.splits)
qed

section \<open>Restoring what was removed\<close>

text \<open>
  The entry \<open>q\<close> of a file with one link, right behind the record \<open>r\<close> without a gap; no other entry has
  its name, no other gap of the directory hides a record, and the file owns no block of the directory.
\<close>

definition restorable :: "memory \<Rightarrow> nat \<Rightarrow> cstring \<Rightarrow> nat \<Rightarrow> nat \<Rightarrow> bool" where
  "restorable m p name q r \<longleftrightarrow> lookup m p name = Some q \<and> m (de_file_type q) \<noteq> EXT2_FT_DIR \<and>
     prev_rec m q = Some r \<and> actual_len m r = rec_len_at m r \<and>
     (\<forall>e \<in> set (entries m p). e \<noteq> q \<longrightarrow> quiet m e \<and> \<not> (inode_of m e \<noteq> 0 \<and> name_at m e = name)) \<and>
     file_ok m (inode_of m q) \<and> links_at m (inode_of m q) = 1 \<and>
     get_le 4 m (i_dtime (inode_at (ino_tab m) (inode_of m q))) = (0 :: 32 word) \<and>
     set (file_blocks m (inode_at (ino_tab m) (inode_of m q))) \<inter> set (dir_blocks m p) = {}"

lemma restorableD:
  assumes "restorable m p name q r"
  shows "lookup m p name = Some q" "m (de_file_type q) \<noteq> EXT2_FT_DIR" "prev_rec m q = Some r" "actual_len m r = rec_len_at m r"
    "\<And>e. e \<in> set (entries m p) \<Longrightarrow> e \<noteq> q \<Longrightarrow> quiet m e \<and> \<not> (inode_of m e \<noteq> 0 \<and> name_at m e = name)"
    "file_ok m (inode_of m q)" "links_at m (inode_of m q) = 1"
    "get_le 4 m (i_dtime (inode_at (ino_tab m) (inode_of m q))) = (0 :: 32 word)"
    "set (file_blocks m (inode_at (ino_tab m) (inode_of m q))) \<inter> set (dir_blocks m p) = {}"
  using assms by (simp_all add: restorable_def)

lemma entries_apart:
  assumes "dir_sound m p" "e \<in> set (entries m p)" "r \<in> set (entries m p)" "e \<noteq> r"
  shows "e + rec_len_at m e \<le> r \<or> r + rec_len_at m r \<le> e"
proof -
  have chain: "block_ok m b \<and> records m (block_start b) (block_start b + 1024) = Some (the (block_records m b))"
    if "b \<in> set (dir_blocks m p)" for b
    using assms(1) that by (auto simp: dir_sound_def dir_ok_def block_records_def)
  obtain b c where b: "b \<in> set (dir_blocks m p)" "e \<in> set (the (block_records m b))"
      and c: "c \<in> set (dir_blocks m p)" "r \<in> set (the (block_records m c))"
    using assms(2,3) by (auto simp: entries_def)
  show ?thesis
  proof (cases "b = c")
    case True
    then show ?thesis
      using records_apart [of m "block_start b" "block_start b + 1024" _ e r] chain [OF b(1)] b(2) c(2) assms(4) by auto
  next
    case False
    have range: "block_start b \<le> e" "e + rec_len_at m e \<le> block_start b + 1024"
        "block_start c \<le> r" "r + rec_len_at m r \<le> block_start c + 1024"
      using records_range [OF conjunct2 [OF chain [OF b(1)]] b(2)] records_range [OF conjunct2 [OF chain [OF c(1)]] c(2)] by simp_all
    have "slot_of b \<noteq> slot_of c"
      using False block_ok_start(3) [of m b] block_ok_start(3) [of m c] chain [OF b(1)] chain [OF c(1)] by metis
    then show ?thesis
      using range block_ok_start(1) [of m b] block_ok_start(1) [of m c] chain [OF b(1)] chain [OF c(1)] by auto
  qed
qed

lemma restorable_place:
  assumes "dir_sound m p" "restorable m p name q r"
  shows "q \<in> set (entries m p)" "r + rec_len_at m r = q"
proof -
  note D = restorableD [OF assms(2)]
  show q: "q \<in> set (entries m p)"
    using D(1) by (auto simp: lookup_def find_Some_iff)
  show "r + rec_len_at m r = q"
    by (rule entry_neighbour [OF assms(1) q]) (use D(3) in simp_all)
qed

text \<open>The image after the removal, byte by byte.\<close>

lemma removed_bytes:
  fixes m :: memory and time :: "32 word"
  assumes "sound m" "dir_sound m p" "restorable m p name q r"
  defines "m1 \<equiv> removed m time q" and "u \<equiv> unlinked (inode_of m q) time m"
  shows "x < r + 4 \<or> r + 6 \<le> x \<Longrightarrow> m1 x = u x"
    "data_byte m x \<Longrightarrow> x < r + 4 \<or> r + 6 \<le> x \<Longrightarrow> m1 x = m x"
    "rec_len_at m1 r = rec_len_at m r + rec_len_at m q"
    "\<exists>X Y. entries m p = X @ r # q # Y \<and> entries m1 p = X @ r # Y"
proof -
  note D = restorableD [OF assms(3)]
  note q = restorable_place(1) [OF assms(2,3)]
  have u: "u = dropped (inode_of m q) time m"
    using D(7) by (simp add: u_def dropped_def)
  note gone = dropped [OF assms(1) D(6), where time = time]
  note hid = hidden [OF assms(1,2) q gone(1) dropped_same_dir [OF assms(1,2) D(6)], folded removed_def m1_def]
  show same: "m1 x = u x" if "x < r + 4 \<or> r + 6 \<le> x" for x
    using that put_le_outside [of x "r + 4" 2] by (auto simp: m1_def removed_def hidden_def D(3) u entry_fields)
  show "m1 x = m x" if "data_byte m x" "x < r + 4 \<or> r + 6 \<le> x" for x
    using same [OF that(2)] dropped_data(1) [OF assms(1) D(6) that(1)] by (simp add: u)
  show "rec_len_at m1 r = rec_len_at m r + rec_len_at m q" "\<exists>X Y. entries m p = X @ r # q # Y \<and> entries m1 p = X @ r # Y"
    using hid(8) [OF D(3)] by blast+
qed

text \<open>Every other record is as it was, and the deleted one is found.\<close>

lemma removed_records:
  fixes m :: memory and time :: "32 word"
  assumes "sound m" "dir_sound m p" "restorable m p name q r"
  defines "m1 \<equiv> removed m time q"
  shows "r \<in> set (entries m1 p)" "\<And>e. e \<in> set (entries m1 p) \<Longrightarrow> e \<noteq> r \<Longrightarrow> quiet m1 e"
    "lookup m1 p name = None" "found_at m1 name q r" "inode_of m1 q = inode_of m q"
proof -
  note D = restorableD [OF assms(3)]
  note bytes = removed_bytes [OF assms(1-3), where time = time, folded m1_def]
  obtain X Y where XY: "entries m p = X @ r # q # Y" "entries m1 p = X @ r # Y"
    using bytes(4) by blast
  have distinct: "distinct (X @ r # q # Y)"
    using distinct_entries [OF assms(2)] XY(1) by simp
  show r: "r \<in> set (entries m1 p)"
    by (simp add: XY)
  have old: "e \<in> set (entries m p) \<and> e \<noteq> q" if "e \<in> set (entries m1 p)" for e
    using that distinct by (auto simp: XY)
  have rec: "8 + unat (m (de_name_len e)) \<le> rec_len_at m e" "e \<le> x \<Longrightarrow> x < e + rec_len_at m e \<Longrightarrow> data_byte m x"
    if e: "e \<in> set (entries m p)" for e x
  proof -
    obtain b where b: "block_ok m b" "block_start b \<le> e" "e + rec_len_at m e \<le> block_start b + 1024"
        "8 + unat (m (de_name_len e)) \<le> rec_len_at m e"
      using entry_region [OF assms(2) e] by blast
    show "8 + unat (m (de_name_len e)) \<le> rec_len_at m e" by (fact b)
    show "e \<le> x \<Longrightarrow> x < e + rec_len_at m e \<Longrightarrow> data_byte m x"
      by (rule block_data_byte [OF b(1)]) (use b in simp_all)
  qed
  have r_old: "r \<in> set (entries m p)" and q_old: "q \<in> set (entries m p)"
    by (simp_all add: XY)
  have r_rec: "8 \<le> rec_len_at m r"
    using rec(1) [OF r_old] by simp
  have whole: "m1 x = m x" if "e \<in> set (entries m p)" "e \<noteq> r" "e \<le> x" "x < e + rec_len_at m e" for e x
    by (rule bytes(2) [OF rec(2) [OF that(1,3,4)]])
      (use entries_apart [OF assms(2) that(1) r_old that(2)] that(3,4) r_rec in auto)
  have same: "same_record m m1 e \<and> m1 (de_name_len e) = m (de_name_len e)" if e: "e \<in> set (entries m p)" for e
  proof -
    have kept: "m1 x = m x" if x: "e \<le> x" "x < e + 8 + unat (m (de_name_len e))" "x < e + 4 \<or> e + 6 \<le> x" for x
    proof (cases "e = r")
      case True
      then show ?thesis
        using x rec(1) [OF e] by (intro bytes(2) rec(2) [OF e]) simp_all
    next
      case False
      then show ?thesis
        using x rec(1) [OF e] by (intro whole [OF e]) simp_all
    qed
    show ?thesis
      by (rule conjI; rule same_item [of e m m1]; rule kept; assumption)
  qed
  show "inode_of m1 q = inode_of m q"
    using same [OF q_old] by (simp add: same_record_def)
  show "quiet m1 e" if e: "e \<in> set (entries m1 p)" "e \<noteq> r" for e
  proof -
    note e_old = old [OF e(1)]
    have here: "m1 x = m x" if "e \<le> x" "x < e + rec_len_at m e" for x
      using whole e_old e(2) that by blast
    have len: "actual_len m1 e = actual_len m e"
      using same e_old by (simp add: actual_len_def)
    have "8 \<le> rec_len_at m e"
      using rec(1) e_old by fastforce
    then have rl: "rec_len_at m1 e = rec_len_at m e"
      unfolding rec_len_at_def
      by (intro arg_cong [of _ _ unat] get_le_cong here [unfolded rec_len_at_def]) (auto simp: entry_fields)
    let ?g = "e + actual_len m e"
    have "inode_of m1 ?g = inode_of m ?g \<and> m1 (de_name_len ?g) = m (de_name_len ?g) \<and> rec_len_at m1 ?g = rec_len_at m ?g"
      if gap: "actual_len m e + 8 \<le> rec_len_at m e"
    proof -
      have near: "m1 x = m x" if "?g \<le> x" "x < ?g + 8" for x
        by (rule here) (use that gap in auto)
      have "get_le 4 m1 ?g = (get_le 4 m ?g :: 32 word)" "get_le 2 m1 (?g + 4) = (get_le 2 m (?g + 4) :: 16 word)"
          "m1 (?g + 6) = m (?g + 6)"
        by (rule get_le_cong, rule near; simp)+ (rule near; simp)
      then show ?thesis
        by (simp add: inode_of_def rec_len_at_def entry_fields)
    qed
    then show ?thesis
      using D(5) [of e] e_old by (auto simp: quiet_def len rl)
  qed
  have "\<not> (inode_of m1 e \<noteq> 0 \<and> name_at m1 e = name)" if "e \<in> set (entries m1 p)" for e
    using D(5) [of e] old [OF that] same by (auto simp: same_record_def)
  then show "lookup m1 p name = None"
    by (auto simp: lookup_def find_None_iff)
  have item: "inode_of m q \<noteq> 0" "name_at m q = name"
    using D(1) by (auto simp: lookup_def find_Some_iff)
  have "actual_len m1 r = rec_len_at m r"
    using same [OF r_old] D(4) by (simp add: actual_len_def)
  then show "found_at m1 name q r"
    using same [OF q_old] rec(1) [OF q_old] bytes(3) restorable_place(2) [OF assms(2,3)] item D(2) by (auto simp: found_at_def same_record_def)
qed

text \<open>The file can be reclaimed.\<close>

lemma removed_file:
  fixes m :: memory and time :: "32 word" and q :: nat
  assumes "sound m" "dir_sound m p" "restorable m p name q r"
  defines "m1 \<equiv> removed m time q" and "f \<equiv> inode_at (ino_tab m) (inode_of m q)"
  shows "file_sound True m1 f" "file_blocks m1 f = file_blocks m f"
proof -
  note D = restorableD [OF assms(3)]
  let ?i = "inode_of m q"
  let ?u = "unlinked ?i time m"
  have held: "inode_ok m ?i" "slot_of ?i \<notin> snd (free_space m)" "file_sound False m f"
    using D(6) by (simp_all add: file_ok_def f_def)
  note gone = unlinked [OF assms(1) held(1,2), folded f_def, OF held(3), where time = time]
  note file_u = unlinked_file [OF assms(1) held(1,2), folded f_def, OF held(3), where time = time]
  note m1 = removed [OF assms(1,2) D(1,6), where time = time, folded m1_def]
  note bytes = removed_bytes [OF assms(1-3), where time = time, folded m1_def]
  have layout: "same_layout ?u m1"
    using gone(2) m1(2) by (simp add: same_layout_def)
  have space: "free_space m1 = free_space ?u"
    using gone(3) m1(3) D(7) by (simp add: space_without_def f_def)
  obtain b where b: "b \<in> set (dir_blocks m p)" "block_ok m b" "block_start b \<le> r" "r + rec_len_at m r \<le> block_start b + 1024"
      "8 \<le> rec_len_at m r"
  proof -
    obtain X Y where "entries m p = X @ r # q # Y" using bytes(4) by blast
    then have "r \<in> set (entries m p)" by simp
    from entry_region [OF assms(2) this] that show thesis by auto
  qed
  obtain j where j: "j < n_inodes m" "f = ino_tab m + 128 * j"
    using held(3) by (auto simp: file_sound_def)
  have ptr: "m1 x = ?u x" if x: "f + 40 \<le> x" "x < f + 92" for x
  proof -
    have "\<not> data_byte m x"
      by (rule slot_no_data [OF soundD(1) [OF assms(1)] j(1)]) (use x j(2) in auto)
    with block_data_byte [OF b(2), of x] have "\<not> (block_start b \<le> x \<and> x < block_start b + 1024)"
      by blast
    then have "x < r + 4 \<or> r + 6 \<le> x"
      using b(3-5) by linarith
    then show ?thesis by (rule bytes(1))
  qed
  have words: "m1 x = ?u x"
    if x: "indirect_of ?u f \<noteq> 0" "block_start (indirect_of ?u f) \<le> x" "x < block_start (indirect_of ?u f) + 1024" for x
  proof -
    let ?c = "indirect_of ?u f"
    have "?c \<in> set (file_blocks ?u f)"
      using x(1) by (simp add: file_blocks_def)
    then have c: "?c \<in> set (file_blocks m f)"
      by (simp add: file_u(2))
    then have ok: "block_ok m ?c"
      using held(3) by (auto simp: file_sound_def markable_def)
    have "?c \<noteq> b"
      using c D(9) b(1) by (auto simp: f_def)
    then have "\<not> (block_start b \<le> x \<and> x < block_start b + 1024)"
      using block_disjoint [OF b(2) ok] x(2,3) by blast
    then have "x < r + 4 \<or> r + 6 \<le> x"
      using b(3-5) by linarith
    then show ?thesis by (rule bytes(1))
  qed
  have same: "file_blocks m1 f = file_blocks ?u f"
    by (rule file_blocks_same_at(4) [OF gone(1) file_u(1) layout]) (fact ptr, fact words)
  then show "file_blocks m1 f = file_blocks m f"
    by (rule trans [OF _ file_u(2)])
  have "block_ok m1 c = block_ok ?u c" for c
    by (rule block_ok_layout [OF layout])
  moreover have "\<exists>j < n_inodes m1. f = ino_tab m1 + 128 * j"
    using j m1(2) by (auto simp: same_layout_def)
  ultimately show "file_sound True m1 f"
    using file_u(1) space unfolding file_sound_def markable_def same by simp
qed

text \<open>The two record lengths as they were, and with them the image.\<close>

definition unhidden :: "nat \<Rightarrow> nat \<Rightarrow> memory \<Rightarrow> memory" where
  "unhidden q r m = (let distance = int q - int r; l = get_le 2 m (de_rec_len r) :: 16 word
     in put_le 2 (de_rec_len r) (of_int distance :: 16 word) (put_le 2 (de_rec_len q) (of_int (uint l - distance) :: 16 word) m))"

lemma unhide_run:
  "q + 6 \<le> disk_size \<Longrightarrow> r + 6 \<le> disk_size \<Longrightarrow>
    unhide_deleted_entry q r s = (Ok (), s\<lparr>disk := unhidden q r (disk s)\<rparr>)"
  by (simp add: unhide_deleted_entry_def unhidden_def prog Let_def entry_fields)

lemma restored:
  fixes m :: memory and time :: "32 word"
  assumes "sound m" "dir_sound m p" "restorable m p name q r"
  shows "unhidden q r (reclaimed (inode_of m q) (removed m time q)) = m"
proof -
  note D = restorableD [OF assms(3)]
  let ?i = "inode_of m q" and ?m1 = "removed m time q"
  let ?f = "inode_at (ino_tab m) ?i"
  let ?m2 = "reclaimed ?i ?m1"
  let ?m3 = "unhidden q r ?m2"
  note fs = soundD(1) [OF assms(1)]
  have held: "inode_ok m ?i" "slot_of ?i \<notin> snd (free_space m)" "file_sound False m ?f"
    using D(6) by (simp_all add: file_ok_def)
  note m1 = removed [OF assms(1,2) D(1,6), where time = time]
  note bytes = removed_bytes [OF assms(1-3), where time = time]
  note file_m1 = removed_file [OF assms(1-3), where time = time]
  note place = restorable_place [OF assms(2,3)]
  have at: "inode_at (ino_tab ?m1) ?i = ?f"
    using m1(2) by (simp add: same_layout_def)
  have ok1: "inode_ok ?m1 ?i" "slot_of ?i \<in> snd (free_space ?m1)"
    using held(1) m1(2,3) D(7) by (simp_all add: inode_ok_def same_layout_def space_without_def)
  note m2 = reclaimed [OF m1(1) ok1, unfolded at, OF file_m1(1)]
  have layout2: "same_layout m ?m2"
    by (rule same_layout_trans [OF m1(2) m2(2)])
  obtain b where b: "b \<in> set (dir_blocks m p)" "block_ok m b" "block_start b \<le> r" "q + rec_len_at m q \<le> block_start b + 1024"
      "8 \<le> rec_len_at m r" "8 \<le> rec_len_at m q"
  proof (rule entry_neighbour [OF assms(2) place(1)])
    fix b r' ps qs
    assume b: "b \<in> set (dir_blocks m p)" "block_ok m b" "prev_rec m q = Some r'" "8 + unat (m (de_name_len r')) \<le> rec_len_at m r'"
      and chain: "records m (block_start b) r' = Some ps" "records m q (q + rec_len_at m q) = Some [q]"
        "records m (q + rec_len_at m q) (block_start b + 1024) = Some qs"
    show thesis
      by (rule that [OF b(1,2)])
        (use b(3,4) D(3) records_le [OF chain(1)] records_range [OF chain(2), of q] records_le [OF chain(3)] in simp_all)
  qed (use D(3) in simp)
  let ?l = "get_le 2 ?m2 (de_rec_len r) :: 16 word"
  define n where "n = put_le 2 (q + 4) (of_int (uint ?l - (int q - int r)) :: 16 word) ?m2"
  have m3: "?m3 = put_le 2 (r + 4) (of_int (int q - int r) :: 16 word) n"
    by (simp add: unhidden_def n_def Let_def entry_fields)
  have n_other: "n x = ?m2 x" if "x < q + 4 \<or> q + 4 + 2 \<le> x" for x
    unfolding n_def using that by (rule put_le_outside)
  have m3_other: "?m3 x = n x" if "x < r + 4 \<or> r + 4 + 2 \<le> x" for x
    unfolding m3 using that by (rule put_le_outside)
  have okb: "block_ok ?m2 b"
    using b(2) block_ok_layout [OF layout2] by simp
  have kept_n: "sound n" "same_layout ?m2 n" "free_space n = free_space ?m2"
    by (rule block_write [OF m2(1) okb, of "q + 4" 2]; use b place(2) n_other in simp)+
  have okb_n: "block_ok n b"
    using okb block_ok_layout [OF kept_n(2)] by simp
  have kept: "sound ?m3" "same_layout n ?m3" "free_space ?m3 = free_space n"
    by (rule block_write [OF kept_n(1) okb_n, of "r + 4" 2]; use b place(2) m3_other in simp)+
  show ?thesis
  proof (rule sound_image_eq [OF assms(1) kept(1)])
    show "same_layout m ?m3"
      by (rule same_layout_trans [OF same_layout_trans [OF layout2 kept_n(2)] kept(2)])
    have "slots (file_blocks m ?f) \<inter> fst (free_space m) = {}"
      using held(3) by (auto simp: file_sound_def markable_def slots_def)
    then show "free_space ?m3 = free_space m"
      using kept(3) kept_n(3) m2(3) file_m1(2) m1(3) held(2) D(7) by (auto simp: space_without_def prod_eq_iff)
    have plain1: "plain_byte ?m1 x" if "plain_byte m x" for x
      using that plain_byte_layout [OF m1(2)] by simp
    have data2: "?m2 x = ?m1 x" if "data_byte m x" for x
      by (rule m2(4) [OF plain1 [OF data_byte_plain [OF that]]]) (rule field_place(1) [OF assms(1) D(6) that])
    have near: "?m2 x = ?m1 x" if "r \<le> x" "x < q + rec_len_at m q" for x
      by (rule data2, rule block_data_byte [OF b(2)]) (use that b(3,4) in simp_all)
    have len: "unat (get_le 2 m (r + 4) :: 16 word) = q - r" "unat ?l = rec_len_at m r + rec_len_at m q"
    proof -
      have "get_le 2 ?m2 (r + 4) = (get_le 2 ?m1 (r + 4) :: 16 word)"
        by (rule get_le_cong, rule near) (use b(5,6) place(2) in simp_all)
      then show "unat ?l = rec_len_at m r + rec_len_at m q"
        using bytes(3) by (simp add: rec_len_at_def entry_fields)
      show "unat (get_le 2 m (r + 4) :: 16 word) = q - r"
        using place(2) by (simp add: rec_len_at_def entry_fields)
    qed
    have "uint ?l - (int q - int r) = int (rec_len_at m q)"
      using len(2) place(2) by (simp add: uint_nat)
    then have new_q: "of_int (uint ?l - (int q - int r)) = (get_le 2 m (q + 4) :: 16 word)"
      by (simp add: rec_len_at_def entry_fields)
    have "int q - int r = int (unat (get_le 2 m (r + 4) :: 16 word))"
      using len(1) place(2) by simp
    then have word_r: "get_le 2 ?m3 (r + 4) = (get_le 2 m (r + 4) :: 16 word)"
      by (simp add: m3 get_put_le)
    have "get_le 2 ?m3 (q + 4) = (get_le 2 n (q + 4) :: 16 word)"
      by (rule get_le_cong, rule m3_other) (use place(2) b(5) in simp)
    then have word_q: "get_le 2 ?m3 (q + 4) = (get_le 2 m (q + 4) :: 16 word)"
      unfolding n_def new_q by (simp add: get_put_le)
    have words: "get_le 2 ?m3 (?f + 26) = (get_le 2 m (?f + 26) :: 16 word)"
        "get_le 4 ?m3 (?f + 20) = (get_le 4 m (?f + 20) :: 32 word)"
    proof -
      have same: "?m3 x = ?m2 x" if "field_byte ?f x" for x
      proof -
        have "\<not> data_byte m x"
          using that field_place(1) [OF assms(1) D(6)] by blast
        with block_data_byte [OF b(2), of x] have "\<not> (block_start b \<le> x \<and> x < block_start b + 1024)"
          by blast
        then have "x < r + 4 \<or> r + 4 + 2 \<le> x" "x < q + 4 \<or> q + 4 + 2 \<le> x"
          using b(3-6) place(2) by linarith+
        then show ?thesis using m3_other n_other by simp
      qed
      have "get_le 2 ?m3 (?f + 26) = (get_le 2 ?m2 (?f + 26) :: 16 word)"
          "get_le 4 ?m3 (?f + 20) = (get_le 4 ?m2 (?f + 20) :: 32 word)"
        by (rule get_le_cong, rule same; simp add: field_byte_def)+
      then show "get_le 2 ?m3 (?f + 26) = (get_le 2 m (?f + 26) :: 16 word)"
          "get_le 4 ?m3 (?f + 20) = (get_le 4 m (?f + 20) :: 32 word)"
        using m2(5,6) D(7,8) by (simp_all add: links_at_def inode_fields)
    qed
    show "?m3 x = m x" if plain: "plain_byte m x" for x
    proof -
      consider "r + 4 \<le> x" "x < r + 4 + 2" | "q + 4 \<le> x" "x < q + 4 + 2" | "field_byte ?f x"
        | "x < r + 4 \<or> r + 4 + 2 \<le> x" "x < q + 4 \<or> q + 4 + 2 \<le> x" "\<not> field_byte ?f x"
        by linarith
      then show ?thesis
      proof cases
        case 1
        then show ?thesis by (intro get_le_inj [OF word_r]) simp_all
      next
        case 2
        then show ?thesis by (intro get_le_inj [OF word_q]) simp_all
      next
        case 3
        then show ?thesis
          using get_le_inj [OF words(1), of x] get_le_inj [OF words(2), of x] by (auto simp: field_byte_def)
      next
        case 4
        have "?m3 x = ?m2 x"
          using m3_other n_other 4 by simp
        also have "\<dots> = ?m1 x"
          by (rule m2(4) [OF plain1 [OF plain]]) (use 4 in simp)
        also have "\<dots> = unlinked ?i time m x"
          by (rule bytes(1)) (use 4 in linarith)
        also have "\<dots> = m x"
          by (rule unlinked(4) [OF assms(1) held plain]) (use 4 in simp)
        finally show ?thesis .
      qed
    qed
  qed
qed

lemma delete_removed:
  fixes s :: ext2 and d :: "32 word" and name :: cstring
  defines "m \<equiv> disk s"
  assumes "sound m" "dir_sound m (inode_at (ino_tab m) d)" "restorable m (inode_at (ino_tab m) d) name q r"
  shows "delete_file_entry d name s = (Ok 0, s\<lparr>disk := removed m (now s) q\<rparr>)" "length name \<le> 255"
proof -
  note D = restorableD [OF assms(4)]
  have q: "q \<in> set (entries m (inode_at (ino_tab m) d))" "name_at m q = name"
    using D(1) by (auto simp: lookup_def find_Some_iff)
  then show short: "length name \<le> 255"
    using unsigned_less [of "m (de_name_len q)", where 'a = nat] by (auto simp: name_at_def get_bytes_def)
  have "delete_file_entry d name s = remove_act m q s"
    using delete_run [of s d name] assms(3) short D(1) by (simp add: m_def)
  also have "\<dots> = (Ok 0, s\<lparr>disk := removed m (now s) q\<rparr>)"
    using remove_act_run [of s _ q] assms(2,3) q(1) D(2,6) by (simp add: m_def)
  finally show "delete_file_entry d name s = (Ok 0, s\<lparr>disk := removed m (now s) q\<rparr>)" .
qed

text \<open>
  Restoring a file right after it was removed brings back the image byte for byte, when its
  record lay behind one without a gap and no other gap of the directory hides a record: the two
  record lengths, the inode with its link count and time of deletion, both bitmaps and all counters.
\<close>

theorem restore_undoes_delete:
  fixes s :: ext2 and d :: "32 word" and name :: cstring
  defines "m \<equiv> disk s"
  defines "p \<equiv> inode_at (ino_tab m) d"
  assumes "sound m" "dir_sound m p" "restorable m p name q r"
  shows "restore_file d name (s\<lparr>disk := removed m (now s) q\<rparr>) = (Ok 0, s)"
proof -
  note D = restorableD [OF assms(5)]
  let ?i = "inode_of m q" and ?m1 = "removed m (now s) q"
  let ?s1 = "s\<lparr>disk := ?m1\<rparr>"
  note short = delete_removed(2) [of s d name q r, folded m_def, folded p_def, OF assms(3-5)]
  have q: "q \<in> set (entries m p)"
    using D(1) by (auto simp: lookup_def find_Some_iff)
  note m1 = removed [OF assms(3,4) D(1,6), where time = "now s"]
  note recs = removed_records [OF assms(3-5), where time = "now s"]
  note held = removed_file [OF assms(3-5), where time = "now s"]
  have at: "inode_at (ino_tab ?m1) j = inode_at (ino_tab m) j" for j
    using m1(2) by (simp add: same_layout_def)
  have "block_ok ?m1 b" if "b \<in> set (dir_blocks ?m1 p)" for b
    using that assms(4) m1(5) block_ok_layout [OF m1(2)] by (simp add: dir_sound_def)
  then have "restore_file d name ?s1 = restore_act ?i q r ?s1"
    using restore_run [of ?s1 d name r q] m1(4) recs short by (simp add: at p_def)
  moreover have "reclaim_inode_and_data_blocks ?i ?s1 = (Ok 0, ?s1\<lparr>disk := reclaimed ?i ?m1\<rparr>)"
    using reclaim_run [of ?s1 ?i] m1(1-3) held(1) D(6,7)
    by (simp add: at inode_ok_def same_layout_def space_without_def file_ok_def)
  moreover have "q + 6 \<le> disk_size"
    using entry_region [OF assms(4) q] block_region(5) [of m] by fastforce
  moreover from this have "r + 6 \<le> disk_size"
    using restorable_place(2) [OF assms(4,5)] by simp
  ultimately show ?thesis
    using restored [OF assms(3-5), where time = "now s"]
    by (simp add: restore_act_def bnd_run prog unhide_run m_def)
qed

lemma file_restorable: "restorable file_image 5248 (str ''a'') 9240 9228"
proof -
  note ok = file_image_ok
  have "prev_rec file_image 9240 = Some 9228"
    using prev_rec [of file_image 9 "[9216, 9228]" 9240 "[]"] ok(1) file_dir(2) by (simp add: dir_sound_def file_dir(1))
  moreover have len: "actual_len file_image 9216 = 12" "actual_len file_image 9228 = 12"
    by (simp_all add: actual_len_def pad_def entry_fields file_image_def small_image_def)
  moreover have "quiet file_image e \<and> name_at file_image e \<noteq> str ''a''" if "e \<in> {9216, 9228}" for e
    using that len by (auto simp: quiet_def file_records str_def)
  moreover have "get_le 4 file_image 5140 = (0 :: 32 word)"
    by (simp add: get_le_small file_image_def small_image_def)
  moreover have "str ''.'' \<noteq> str ''a''" "str ''..'' \<noteq> str ''a''"
    by (simp_all add: str_def)
  ultimately show ?thesis
    using ok by (auto simp: restorable_def file_records file_dir file_layout inode_fields)
qed

end
