(* ===== verification/Removal.thy ===== *)
theory Removal
  imports Resolve Restore Newfile
begin

text \<open>
  \<open>ext2_rm\<close> and \<open>ext2_restore\<close> as whole programs: their own walks along the path, which go from entry
  to entry, and what they leave of the image.
\<close>

section \<open>Walking along the path\<close>

text \<open>The directories on the way to the last name can be searched.\<close>

primrec ok_along :: "memory \<Rightarrow> 32 word \<Rightarrow> cstring list \<Rightarrow> bool" where
  "ok_along m i [] = True"
| "ok_along m i (t # ts) \<longleftrightarrow> dir_ok m (inode_at (ino_tab m) i) \<and>
     (\<forall>j. dir_map m (inode_at (ino_tab m) i) t = Some (j, EXT2_FT_DIR) \<longrightarrow> ok_along m j ts)"

lemma sound_ok_along: "sound_along m (inode_at (ino_tab m) i) ts \<Longrightarrow> ok_along m i ts"
  by (induction ts arbitrary: i) (auto simp: dir_sound_def)

lemma find_in_run:
  assumes "dir_ok (disk s) (inode_at (ino_tab (disk s)) i)" "proper t"
  shows "bnd (find_entry_in_inode i (Some t)) f s = f (lookup (disk s) (inode_at (ino_tab (disk s)) i) t) s"
  using find_entry_in_inode_run [of s i t] assms by (simp add: bnd_run proper_def)

lemma rm_loop_run:
  fixes s :: ext2
  defines "m \<equiv> disk s"
  assumes "\<forall>t \<in> set (t # ts). proper t" "ok_along m i (t # ts)" "inode_of m c = i" "c + 8 \<le> 131072"
  shows "bnd (rm_container_loop ts c (lookup m (inode_at (ino_tab m) i) t)) (\<lambda>c. if B then g else bnd (ld32 (de_inode c)) f) s =
    (case reach m i (butlast (t # ts)) of
       None \<Rightarrow> (Exit ENOENT, s)
     | Some up \<Rightarrow> if dir_map m (inode_at (ino_tab m) up) (last (t # ts)) = None then (Exit ENOENT, s) else if B then g s else f up s)"
  using assms(2-5)
proof (induction ts arbitrary: i t c)
  case Nil
  note ld = entry_ld [OF Nil(4), where s = s]
  from Nil have "dir_ok m (inode_at (ino_tab m) i)" by simp
  then show ?case
    by (cases rule: lookup_ok_cases [where t = t]) (use Nil(3) in \<open>simp_all add: bnd_prims ld m_def\<close>)
next
  case (Cons t' ts)
  then have p: "dir_ok m (inode_at (ino_tab m) i)" by simp
  from p show ?case
  proof (cases rule: lookup_ok_cases [where t = t])
    case none
    then show ?thesis by (simp add: bnd_prims)
  next
    case (some e)
    note ld = entry_ld [OF some(3), where s = s]
    show ?thesis
    proof (cases "m (de_file_type e) = EXT2_FT_DIR")
      case False
      with some show ?thesis
        by (simp add: m_def bnd_fun ld bnd_prims)
    next
      case True
      have along: "ok_along m (inode_of m e) (t' # ts)"
        using Cons.prems(2) some True by simp
      then have dir: "dir_ok (disk s) (inode_at (ino_tab (disk s)) (inode_of (disk s) e))" "proper t'"
        using Cons.prems(1) by (simp_all add: m_def)
      have proper: "\<forall>t \<in> set (t' # ts). proper t"
        using Cons.prems(1) by simp
      note IH = Cons.IH [OF proper along refl some(3)]
      have ends: "butlast (t # t' # ts) = t # butlast (t' # ts)" "last (t # t' # ts) = last (t' # ts)"
        by simp_all
      show ?thesis
        unfolding ends using some True IH
        by (simp add: bnd_fun ld find_in_run [OF dir] m_def del: butlast.simps last.simps)
    qed
  qed
qed

lemma restore_loop_run:
  fixes s :: ext2
  defines "m \<equiv> disk s"
  assumes "\<forall>t \<in> set (t # ts). proper t" "ok_along m i (t # ts)" "inode_of m c = i" "c + 8 \<le> 131072"
  shows "bnd (restore_container_loop ts c (lookup m (inode_at (ino_tab m) i) t)) (\<lambda>c. if B then g else bnd (ld32 (de_inode c)) f) s =
    (case reach m i (butlast (t # ts)) of None \<Rightarrow> (Exit ENOENT, s) | Some up \<Rightarrow> if B then g s else f up s)"
  using assms(2-5)
proof (induction ts arbitrary: i t c)
  case Nil
  note ld = entry_ld [OF Nil(4), where s = s]
  from Nil show ?case by (simp add: bnd_prims ld m_def)
next
  case (Cons t' ts)
  then have p: "dir_ok m (inode_at (ino_tab m) i)" by simp
  from p show ?case
  proof (cases rule: lookup_ok_cases [where t = t])
    case none
    then show ?thesis by (simp add: bnd_prims)
  next
    case (some e)
    note ld = entry_ld [OF some(3), where s = s]
    show ?thesis
    proof (cases "m (de_file_type e) = EXT2_FT_DIR")
      case False
      with some show ?thesis
        by (simp add: m_def bnd_fun ld bnd_prims)
    next
      case True
      have along: "ok_along m (inode_of m e) (t' # ts)"
        using Cons.prems(2) some True by simp
      then have dir: "dir_ok (disk s) (inode_at (ino_tab (disk s)) (inode_of (disk s) e))" "proper t'"
        using Cons.prems(1) by (simp_all add: m_def)
      have proper: "\<forall>t \<in> set (t' # ts). proper t"
        using Cons.prems(1) by simp
      note IH = Cons.IH [OF proper along refl some(3)]
      have ends: "butlast (t # t' # ts) = t # butlast (t' # ts)"
        by simp
      show ?thesis
        unfolding ends using some True IH
        by (simp add: bnd_fun ld find_in_run [OF dir] m_def del: butlast.simps)
    qed
  qed
qed

text \<open>Both programs begin with the entry \<open>.\<close> of the root.\<close>

definition rooted :: "memory \<Rightarrow> bool" where
  "rooted m \<longleftrightarrow> dir_map m (inode_at (ino_tab m) 2) (str ''.'') = Some (2, EXT2_FT_DIR)"

lemma root_entry:
  assumes "rooted m" "dir_ok m (inode_at (ino_tab m) 2)"
  obtains c where "lookup m (inode_at (ino_tab m) 2) (str ''.'') = Some c" "inode_of m c = 2" "c + 8 \<le> 131072"
  using assms(2)
  by (cases rule: lookup_ok_cases [where t = "str ''.''"]) (use assms(1) that in \<open>auto simp: rooted_def\<close>)

lemma proper_dot: "proper (str ''.'')"
  by (simp add: proper_def str_def SLASH_def)

lemma rm_main_run:
  fixes s :: ext2
  defines "m \<equiv> disk s"
  assumes "\<forall>t \<in> set ts. proper t" "ts \<noteq> []" "ok_along m 2 ts" "rooted m"
  shows "rm_main True [tool, img, path_of ts b] s = (case reach m 2 (butlast ts) of
      None \<Rightarrow> (Exit ENOENT, s)
    | Some up \<Rightarrow> if dir_map m (inode_at (ino_tab m) up) (last ts) = None then (Exit ENOENT, s)
        else if b then (Ok EISDIR, s) else delete_file_entry up (last ts) s)"
proof -
  obtain t us where ts: "ts = t # us"
    using assms(3) by (cases ts) auto
  have toks: "tokens (path_of ts b) = t # us"
    using tokens_path [OF assms(2)] ts by simp
  have root: "dir_ok (disk s) (inode_at (ino_tab (disk s)) 2)" "proper t"
    using assms(2,4) ts by (simp_all add: m_def)
  obtain c where c: "lookup m (inode_at (ino_tab m) 2) (str ''.'') = Some c" "inode_of m c = 2" "c + 8 \<le> 131072"
    using root_entry [OF assms(5)] root(1) by (auto simp: m_def)
  note ld = entry_ld(2) [OF c(3), where s = s]
  have path: "path_of ts b \<noteq> []" and third: "[tool, img, path_of ts b] ! 2 = path_of ts b" using ts by simp_all
  have name: "get_file_name (path_of ts b) = Some (last ts)"
    unfolding get_file_name_def toks by (simp add: ts)
  let ?f = "\<lambda>i. delete_file_entry i (last ts)"
  have run: "rm_main True [tool, img, path_of ts b] s =
      bnd (rm_container_loop us c (lookup m (inode_at (ino_tab m) 2) t)) (\<lambda>c. if b then ret EISDIR else bnd (ld32 (de_inode c)) ?f) s"
    using path_absolute [OF path] toks c(1,2)
    unfolding rm_main_def rm_find_container_directory_def third name option.case path_of_last [OF assms(3,2)]
    by (simp add: read_disk_image_def prog EXT2_ROOT_INO_IDX_def next_token_def bnd_fun
        find_in_run [OF root(1) proper_dot] find_in_run [OF root] ld m_def del: bnd_ld)
  also have "\<dots> = (case reach m 2 (butlast ts) of None \<Rightarrow> (Exit ENOENT, s)
      | Some up \<Rightarrow> if dir_map m (inode_at (ino_tab m) up) (last ts) = None then (Exit ENOENT, s) else if b then ret EISDIR s else ?f up s)"
    unfolding m_def ts by (rule rm_loop_run) (use assms(2,4) c(2,3) in \<open>simp_all add: ts m_def\<close>)
  finally show ?thesis unfolding ret_run .
qed

lemma restore_main_run:
  fixes s :: ext2
  defines "m \<equiv> disk s"
  assumes "\<forall>t \<in> set ts. proper t" "ts \<noteq> []" "ok_along m 2 ts" "rooted m"
  shows "restore_main True [tool, img, path_of ts b] s = (case reach m 2 (butlast ts) of
      None \<Rightarrow> (Exit ENOENT, s) | Some up \<Rightarrow> if b then (Ok EISDIR, s) else restore_file up (last ts) s)"
proof -
  obtain t us where ts: "ts = t # us"
    using assms(3) by (cases ts) auto
  have toks: "tokens (path_of ts b) = t # us"
    using tokens_path [OF assms(2)] ts by simp
  have root: "dir_ok (disk s) (inode_at (ino_tab (disk s)) 2)" "proper t"
    using assms(2,4) ts by (simp_all add: m_def)
  obtain c where c: "lookup m (inode_at (ino_tab m) 2) (str ''.'') = Some c" "inode_of m c = 2" "c + 8 \<le> 131072"
    using root_entry [OF assms(5)] root(1) by (auto simp: m_def)
  note ld = entry_ld(2) [OF c(3), where s = s]
  have path: "path_of ts b \<noteq> []" and third: "[tool, img, path_of ts b] ! 2 = path_of ts b" using ts by simp_all
  have name: "get_file_name (path_of ts b) = Some (last ts)"
    unfolding get_file_name_def toks by (simp add: ts)
  let ?f = "\<lambda>i. restore_file i (last ts)"
  have run: "restore_main True [tool, img, path_of ts b] s =
      bnd (restore_container_loop us c (lookup m (inode_at (ino_tab m) 2) t)) (\<lambda>c. if b then ret EISDIR else bnd (ld32 (de_inode c)) ?f) s"
    using path_absolute [OF path] toks c(1,2)
    unfolding restore_main_def restore_find_container_directory_def third name option.case path_of_last [OF assms(3,2)]
    by (simp add: read_disk_image_def prog EXT2_ROOT_INO_IDX_def next_token_def bnd_fun
        find_in_run [OF root(1) proper_dot] find_in_run [OF root] ld m_def del: bnd_ld)
  also have "\<dots> = (case reach m 2 (butlast ts) of None \<Rightarrow> (Exit ENOENT, s) | Some up \<Rightarrow> if b then ret EISDIR s else ?f up s)"
    unfolding m_def ts by (rule restore_loop_run) (use assms(2,4) c(2,3) in \<open>simp_all add: ts m_def\<close>)
  finally show ?thesis unfolding ret_run .
qed

section \<open>Removing by path\<close>

text \<open>
  C34: \<open>ext2_rm\<close> from its arguments to the image.  Let the absolute path consist of the names \<open>ts\<close>.  If
  they do not lead to an entry the program exits with \<open>ENOENT\<close>; if the entry is a directory, or the
  path ends with a slash, it returns \<open>EISDIR\<close>, each without a change.  Otherwise it returns 0:
  exactly this entry disappears from the listing of its directory, the inode and its blocks are
  freed if this was the last link, the image stays sound, and no byte outside the blocks of the
  directory changes but the counters, the bitmaps, the link count of the inode, which goes down by
  one, and its time of deletion, which becomes the current time when the last link goes and stays
  as it is otherwise.
\<close>

theorem rm_removes:
  fixes s :: ext2
  defines "m \<equiv> disk s"
  assumes "sound m" "\<forall>t \<in> set ts. proper t" "ts \<noteq> []" "sound_along m (root_inode (ino_tab m)) ts" "rooted m"
    and "\<And>up q. reach m 2 (butlast ts) = Some up \<Longrightarrow> lookup m (inode_at (ino_tab m) up) (last ts) = Some q \<Longrightarrow>
      m (de_file_type q) \<noteq> EXT2_FT_DIR \<Longrightarrow> file_ok m (inode_of m q)"
  shows "case rm_main True [tool, img, path_of ts b] s of
      (Ok c, t) \<Rightarrow> \<exists>up q. reach m 2 (butlast ts) = Some up \<and> (let p = inode_at (ino_tab m) up in
        lookup m p (last ts) = Some q \<and> (if b \<or> m (de_file_type q) = EXT2_FT_DIR then c = EISDIR \<and> t = s
          else c = 0 \<and> sound (disk t) \<and> dir_ok (disk t) p \<and>
            listing (disk t) (entries (disk t) p) = remove1 (item_at m q) (listing m (entries m p)) \<and>
            free_space (disk t) = space_without m (inode_of m q) \<and>
            get_le 2 (disk t) (i_links_count (inode_at (ino_tab m) (inode_of m q))) = links_at m (inode_of m q) - 1 \<and>
            get_le 4 (disk t) (i_dtime (inode_at (ino_tab m) (inode_of m q))) = dtime_after m (inode_of m q) (now s) \<and>
            (\<forall>x. plain_byte m x \<longrightarrow> \<not> in_blocks m p x \<longrightarrow> \<not> field_byte (inode_at (ino_tab m) (inode_of m q)) x \<longrightarrow>
               disk t x = m x)))
    | (Exit c, t) \<Rightarrow> c = ENOENT \<and> t = s \<and> (case reach m 2 (butlast ts) of
        None \<Rightarrow> True | Some up \<Rightarrow> dir_map m (inode_at (ino_tab m) up) (last ts) = None)
    | _ \<Rightarrow> False"
proof -
  have along: "sound_along m (inode_at (ino_tab m) 2) ts"
    using assms(5) by (simp add: root_number)
  note run = rm_main_run [of ts s tool img b, folded m_def, OF assms(3,4) sound_ok_along [OF along] assms(6)]
  show ?thesis
  proof (cases "reach m 2 (butlast ts)")
    case None
    then show ?thesis by (simp add: run)
  next
    case (Some up)
    let ?p = "inode_at (ino_tab m) up"
    have d: "dir_sound m ?p"
      by (rule sound_along_reach [OF sound_along_butlast [OF along] Some])
    show ?thesis
    proof (cases "lookup m ?p (last ts)")
      case None
      then show ?thesis by (simp add: run Some dir_map_lookup)
    next
      case q: (Some q)
      have "length (last ts) \<le> 255"
        using assms(3,4) by (simp add: proper_def)
      moreover note delete_file_entry_removes [of s up "last ts", folded m_def, OF assms(2) d assms(7) [OF Some]]
      ultimately show ?thesis
        by (auto simp: run Some q dir_map_lookup Let_def split: outcome.splits prod.splits)
    qed
  qed
qed

section \<open>Restoring by path\<close>

text \<open>The directories on the way share no block with the directory \<open>p\<close>.\<close>

primrec clear_of :: "memory \<Rightarrow> nat \<Rightarrow> 32 word \<Rightarrow> cstring list \<Rightarrow> bool" where
  "clear_of m p i [] = True"
| "clear_of m p i (t # ts) \<longleftrightarrow> (inode_at (ino_tab m) i \<noteq> p \<longrightarrow>
       set (dir_blocks m (inode_at (ino_tab m) i)) \<inter> set (dir_blocks m p) = {}) \<and>
     (\<forall>j. dir_map m (inode_at (ino_tab m) i) t = Some (j, EXT2_FT_DIR) \<longrightarrow> clear_of m p j ts)"

lemma removed_other:
  assumes "sound m" "dir_sound m p" "restorable m p name q r" "dir_sound m d" "set (dir_blocks m d) \<inter> set (dir_blocks m p) = {}"
  shows "dir_ok (removed m time q) d" "dir_map (removed m time q) d = dir_map m d"
proof -
  note R = restorableD [OF assms(3)]
  note fs = soundD(1) [OF assms(1)]
  note gone = removed [OF assms(1,2) R(1,6), where time = time]
  let ?i = "inode_of m q"
  have ok: "block_ok m b" if "b \<in> set (dir_blocks m p) \<union> set (dir_blocks m d)" for b
    using assms(2,4) that by (auto simp: dir_sound_def)
  obtain j where j: "j < n_inodes m" "d = ino_tab m + 128 * j"
    using assms(4) by (auto simp: dir_sound_def)
  have "inode_ok m ?i" using R(6) by (simp add: file_ok_def)
  note slot = inode_slot [OF fs this]
  have "same_on (d + 40) (d + 88) m (removed m time q)"
    unfolding same_on_def
  proof (intro allI impI, rule gone(7))
    fix x assume x: "d + 40 \<le> x" "x < d + 88"
    show "plain_byte m x"
      by (rule slot_plain_byte [OF fs j(1)]) (use x j(2) in simp_all)
    have "\<not> data_byte m x"
      by (rule slot_no_data [OF fs j(1)]) (use x j(2) in simp_all)
    then show "\<not> in_blocks m p x"
      using in_blocks_data_byte [OF assms(2)] by blast
    show "\<not> field_byte (inode_at (ino_tab m) ?i) x"
      unfolding slot(1) using x j(2) by (cases j "slot_of ?i" rule: linorder_cases) (auto simp: field_byte_def)
  qed
  moreover have "removed m time q x = m x" if x: "in_blocks m d x" for x
  proof (rule gone(7))
    have data: "data_byte m x" by (rule in_blocks_data_byte [OF assms(4) x])
    then show "plain_byte m x" by (rule data_byte_plain)
    show "\<not> field_byte (inode_at (ino_tab m) ?i) x"
      using slot_no_data [OF fs slot(2), of x] data slot(1) by (auto simp: field_byte_def)
    obtain b where b: "b \<in> set (dir_blocks m d)" "block_start b \<le> x" "x < block_start b + 1024"
      using x by (auto simp: in_blocks_def)
    show "\<not> in_blocks m p x"
    proof
      assume "in_blocks m p x"
      then obtain c where c: "c \<in> set (dir_blocks m p)" "block_start c \<le> x" "x < block_start c + 1024"
        by (auto simp: in_blocks_def)
      then have "c = b"
        using block_disjoint [OF ok ok b(2,3)] b(1) by blast
      with b(1) c(1) assms(5) show False by blast
    qed
  qed
  ultimately show "dir_ok (removed m time q) d" "dir_map (removed m time q) d = dir_map m d"
    using dir_kept_map [OF assms(4)] by blast+
qed

lemma map_of_remove1:
  "fst x \<noteq> k \<Longrightarrow> map_of (remove1 x xs) k = map_of xs k"
  by (induction xs) auto

lemma removed_subdirs:
  assumes "sound m" "dir_sound m p" "restorable m p name q r"
  shows "dir_map (removed m time q) p t = Some (j, EXT2_FT_DIR) \<longleftrightarrow> dir_map m p t = Some (j, EXT2_FT_DIR)"
proof -
  note R = restorableD [OF assms(3)]
  note gone = removed [OF assms(1,2) R(1,6), where time = time]
  have q: "q \<in> set (entries m p)" "inode_of m q \<noteq> 0" "name_at m q = name"
    using R(1) by (auto simp: lookup_def find_Some_iff)
  show ?thesis
  proof (cases "t = name")
    case False
    then show ?thesis
      using map_of_remove1 [of "item_at m q" t] q(3) by (simp add: dir_map_def gone(6) item_at_def)
  next
    case True
    have only: "x = item_at m q" if x: "x \<in> set (listing m (entries m p))" "fst x = name" for x
    proof -
      obtain e where e: "x = item_at m e" "e \<in> set (entries m p)" "inode_of m e \<noteq> 0" "name_at m e = name"
        using x by (auto simp: listing_def item_at_def)
      then have "e = q" using R(5) [of e] by blast
      with e(1) show ?thesis by simp
    qed
    have here: "dir_map m p name = Some (inode_of m q, m (de_file_type q))"
      by (simp add: dir_map_lookup R(1))
    have "k \<noteq> EXT2_FT_DIR" if "dir_map (removed m time q) p name = Some (i, k)" for i k
    proof -
      have "(name, i, k) \<in> set (remove1 (item_at m q) (listing m (entries m p)))"
        using that map_of_SomeD by (fastforce simp: dir_map_def gone(6))
      then have "(name, i, k) = item_at m q"
        using only [of "(name, i, k)"] set_remove1_subset by fastforce
      then show ?thesis
        using R(2) by (simp add: item_at_def)
    qed
    with here R(2) show ?thesis
      unfolding True by auto
  qed
qed

lemma reach_step:
  "reach m i (t # ts) = Some k \<longleftrightarrow> (\<exists>j. dir_map m (inode_at (ino_tab m) i) t = Some (j, EXT2_FT_DIR) \<and> reach m j ts = Some k)"
  by (auto split: option.splits)

lemma removed_along:
  assumes "sound m" "dir_sound m p" "restorable m p name q r"
    and "sound_along m (inode_at (ino_tab m) i) ts" "clear_of m p i ts"
  shows "ok_along (removed m time q) i ts" "us = butlast ts \<or> us = ts \<Longrightarrow> reach (removed m time q) i us = Some k \<longleftrightarrow> reach m i us = Some k"
proof -
  let ?m = "removed m time q"
  note R = restorableD [OF assms(3)]
  note gone = removed [OF assms(1,2) R(1,6), where time = time]
  have tab: "ino_tab ?m = ino_tab m"
    using gone(2) by (simp add: same_layout_def)
  have dirs: "dir_ok ?m d \<and> (\<forall>t j. dir_map ?m d t = Some (j, EXT2_FT_DIR) \<longleftrightarrow> dir_map m d t = Some (j, EXT2_FT_DIR))"
    if "dir_sound m d" "d \<noteq> p \<longrightarrow> set (dir_blocks m d) \<inter> set (dir_blocks m p) = {}" for d
    using that removed_subdirs [OF assms(1-3)] gone(4) removed_other [OF assms(1-3)] by (cases "d = p") simp_all
  have "ok_along ?m i ts \<and> (\<forall>us k. us = butlast ts \<or> us = ts \<longrightarrow> (reach ?m i us = Some k \<longleftrightarrow> reach m i us = Some k))"
    using assms(4,5)
  proof (induction ts arbitrary: i)
    case (Cons t ts)
    have here: "dir_ok ?m (inode_at (ino_tab m) i) \<and> (\<forall>t j. dir_map ?m (inode_at (ino_tab m) i) t = Some (j, EXT2_FT_DIR) \<longleftrightarrow>
        dir_map m (inode_at (ino_tab m) i) t = Some (j, EXT2_FT_DIR))"
      by (rule dirs) (use Cons.prems in simp_all)
    have IH: "ok_along ?m j ts \<and> (\<forall>us k. us = butlast ts \<or> us = ts \<longrightarrow> (reach ?m j us = Some k \<longleftrightarrow> reach m j us = Some k))"
      if "dir_map m (inode_at (ino_tab m) i) t = Some (j, EXT2_FT_DIR)" for j
      by (rule Cons.IH) (use Cons.prems that in simp_all)
    have "reach ?m i (t # us) = Some k \<longleftrightarrow> reach m i (t # us) = Some k" if "us = butlast ts \<or> us = ts" for us k
      unfolding reach_step tab using here IH that by blast
    moreover have "butlast (t # ts) = (if ts = [] then [] else t # butlast ts)" by simp
    ultimately show ?case
      using here IH by (auto simp: tab simp del: reach.simps(2))
  qed simp
  then show "ok_along ?m i ts" "us = butlast ts \<or> us = ts \<Longrightarrow> reach ?m i us = Some k \<longleftrightarrow> reach m i us = Some k"
    by blast+
qed

text \<open>
  C35: A removed file can be restored without a trace when its record lies right behind another one of
  the same block (not first in its block), that one leaves no gap before it, no other gap of the
  directory hides a record, no other entry in use has its name, the file has one link and is not marked
  as deleted, shares no block with the directories on the path, and the root has itself as its entry
  \<open>.\<close>.  Then running \<open>ext2_rm\<close> and \<open>ext2_restore\<close> on the same path ends with 0 and brings back the
  image byte for byte: the two record lengths, the inode with its link count and time of deletion,
  both bitmaps and all counters.
\<close>

theorem restore_undoes_rm:
  fixes s :: ext2
  defines "m \<equiv> disk s"
  assumes "sound m" "\<forall>t \<in> set ts. proper t" "ts \<noteq> []" "sound_along m (root_inode (ino_tab m)) ts" "rooted m"
    and "reach m 2 (butlast ts) = Some up" "restorable m (inode_at (ino_tab m) up) (last ts) q r"
    and "clear_of m (inode_at (ino_tab m) up) 2 ts"
  shows "bnd (rm_main True [tool, img, path_of ts False])
      (\<lambda>c. if c = 0 then restore_main True [tool', img, path_of ts False] else ret c) s = (Ok 0, s)"
proof -
  let ?p = "inode_at (ino_tab m) up" and ?m1 = "removed m (now s) q"
  have along: "sound_along m (inode_at (ino_tab m) 2) ts"
    using assms(5) by (simp add: root_number)
  have d: "dir_sound m ?p"
    by (rule sound_along_reach [OF sound_along_butlast [OF along] assms(7)])
  note R = restorableD [OF assms(8)]
  note gone = removed [OF assms(2) d R(1,6), where time = "now s"]
  note kept = removed_along [OF assms(2) d assms(8) along assms(9), where time = "now s"]
  have tab: "ino_tab ?m1 = ino_tab m"
    using gone(2) by (simp add: same_layout_def)
  have "rm_main True [tool, img, path_of ts False] s = delete_file_entry up (last ts) s"
    using rm_main_run [of ts s tool img False, folded m_def, OF assms(3,4) sound_ok_along [OF along] assms(6)] assms(7) R(1)
    by (simp add: dir_map_lookup)
  also have "\<dots> = (Ok 0, s\<lparr>disk := ?m1\<rparr>)"
    using delete_removed(1) [of s up "last ts" q r] assms(2,8) d by (simp add: m_def)
  finally have rm: "rm_main True [tool, img, path_of ts False] s = (Ok 0, s\<lparr>disk := ?m1\<rparr>)" .
  have "rooted ?m1"
  proof -
    have root: "dir_map m (inode_at (ino_tab m) 2) (str ''.'') = Some (2, EXT2_FT_DIR)"
      using assms(6) by (simp add: rooted_def)
    have "sound_along m (inode_at (ino_tab m) 2) [str ''.'']"
      using sound_along_start [OF along] root by simp
    moreover have "clear_of m ?p 2 [str ''.'']"
      using assms(4,9) root by (cases ts) simp_all
    moreover have "reach m 2 [str ''.''] = Some 2"
      using root by simp
    ultimately have "reach ?m1 2 [str ''.''] = Some 2"
      using removed_along(2) [OF assms(2) d assms(8), where us = "[str ''.'']"] by blast
    then show ?thesis
      by (auto simp: reach_step rooted_def simp del: reach.simps(2))
  qed
  moreover have "reach ?m1 2 (butlast ts) = Some up"
    using kept(2) [of "butlast ts" up] assms(7) by simp
  ultimately have "restore_main True [tool', img, path_of ts False] (s\<lparr>disk := ?m1\<rparr>) = restore_file up (last ts) (s\<lparr>disk := ?m1\<rparr>)"
    using restore_main_run [of ts "s\<lparr>disk := ?m1\<rparr>" tool' img False] assms(3,4) kept(1) by simp
  also have "\<dots> = (Ok 0, s)"
    using restore_undoes_delete [of s up "last ts" q r] assms(2,8) d by (simp add: m_def)
  finally show ?thesis
    using rm by (simp add: bnd_run)
qed

lemma file_path:
  "proper (str ''a'')" "inode_at 5120 2 = 5248" "rooted file_image" "sound_along file_image 5248 [str ''a'']"
  "clear_of file_image 5248 2 [str ''a'']" "dir_map file_image 5248 (str ''a'') \<noteq> Some (j, EXT2_FT_DIR)"
proof -
  show "proper (str ''a'')"
    by (simp add: proper_def str_def SLASH_def)
  show at: "inode_at 5120 2 = 5248"
    by (rule small_dir(1))
  have self: "file_image (de_file_type 9216) = EXT2_FT_DIR"
    by (simp add: entry_fields EXT2_FT_DIR_def file_image_def small_image_def)
  show "rooted file_image"
    by (simp add: rooted_def dir_map_def listing_Cons item_at_def file_dir file_records file_layout at self str_def)
  show none: "dir_map file_image 5248 (str ''a'') \<noteq> Some (j, EXT2_FT_DIR)" for j
    using file_image_ok by (simp add: dir_map_lookup)
  then show "sound_along file_image 5248 [str ''a'']" "clear_of file_image 5248 2 [str ''a'']"
    using file_image_ok(1) by (simp_all add: at file_layout)
qed

lemma rm_removes_witness:
  "\<exists>t. rm_main True [str ''ext2_rm'', str ''d.img'', str ''/a''] \<lparr>disk = file_image, now = 7, src = []\<rparr> = (Ok 0, t) \<and> sound (disk t) \<and>
     listing (disk t) (entries (disk t) 5248) = remove1 (item_at file_image 9240) (listing file_image [9216, 9228, 9240]) \<and>
     free_space (disk t) = ({9}, {0})"
proof -
  let ?s = "\<lparr>disk = file_image, now = 7, src = []\<rparr>"
  let ?rm = "rm_main True [str ''ext2_rm'', str ''d.img'', path_of [str ''a''] False] ?s"
  have path: "path_of [str ''a''] False = str ''/a''"
    by (simp add: str_def SLASH_def)
  have "slot_of 10 = 9"
    by code_simp
  then have "space_without file_image 1 = ({9}, {0})"
    using file_image_ok by (simp add: space_without_def file_layout file_image_sound(2) slots_def)
  then have "\<exists>t. ?rm = (Ok 0, t) \<and> sound (disk t) \<and>
     listing (disk t) (entries (disk t) 5248) = remove1 (item_at file_image 9240) (listing file_image [9216, 9228, 9240]) \<and>
     free_space (disk t) = ({9}, {0})"
    using rm_removes [where s = ?s and ts = "[str ''a'']" and tool = "str ''ext2_rm''" and img = "str ''d.img''" and b = False] file_path file_image_sound(3) file_image_ok
    by (cases ?rm) (auto simp: file_layout file_dir file_records root_number dir_map_lookup Let_def simp del: path_of_simps split: outcome.splits)
  then show ?thesis unfolding path .
qed

lemma restore_undoes_rm_witness:
  "bnd (rm_main True [str ''ext2_rm'', str ''d.img'', str ''/a''])
      (\<lambda>c. if c = 0 then restore_main True [str ''ext2_restore'', str ''d.img'', str ''/a''] else ret c)
      \<lparr>disk = file_image, now = 7, src = []\<rparr> = (Ok 0, \<lparr>disk = file_image, now = 7, src = []\<rparr>)"
proof -
  let ?s = "\<lparr>disk = file_image, now = 7, src = []\<rparr>"
  have path: "path_of [str ''a''] False = str ''/a''"
    by (simp add: str_def SLASH_def)
  show ?thesis
    using restore_undoes_rm [of ?s "[str ''a'']" 2 9240 9228 "str ''ext2_rm''" "str ''d.img''" "str ''ext2_restore''", unfolded path]
      file_path file_image_sound(3) file_restorable
    by (simp add: file_layout root_number del: sound_along.simps clear_of.simps)
qed

end
