(* ===== verification/Linking.thy ===== *)
theory Linking
  imports Mkdir Removal
begin

text \<open>
  \<open>ext2_ln\<close> as a whole: the look-up of the source, the target of the link, and the new name of the
  same inode.
\<close>

section \<open>The source\<close>

lemma terminator_run:
  assumes "e + 8 \<le> 131072"
  shows "bnd (path_terminator_valid path (Some e)) f s =
    f (\<not> (disk s (de_file_type e) \<noteq> EXT2_FT_DIR \<and> path \<noteq> [] \<and> last path = SLASH)) s"
  by (simp add: path_terminator_valid_def bnd_fun entry_ld [OF assms])

lemma find_path_run:
  fixes s :: ext2
  defines "m \<equiv> disk s"
  assumes "\<forall>t \<in> set (t # ts). proper t" "ok_along m i (t # ts)" "inode_of m c = i" "c + 8 \<le> 131072"
  shows "bnd (find_path_loop (ino_tab m) path ts (Some c) t) f s =
    (case reach m i (butlast (t # ts)) of
       None \<Rightarrow> (Exit ENOENT, s)
     | Some up \<Rightarrow> (case lookup m (inode_at (ino_tab m) up) (last (t # ts)) of
         None \<Rightarrow> (Exit ENOENT, s)
       | Some e \<Rightarrow> if m (de_file_type e) \<noteq> EXT2_FT_DIR \<and> path \<noteq> [] \<and> last path = SLASH then (Exit ENOENT, s) else f (Some e) s))"
  using assms(2-5)
proof (induction ts arbitrary: i t c)
  case Nil
  note ld = entry_ld(2) [OF Nil(4), where s = s]
  have dir: "dir_ok (disk s) (inode_at (ino_tab (disk s)) i)" "proper t"
    using Nil by (simp_all add: m_def)
  from dir(1) show ?case
  proof (cases rule: lookup_ok_cases [where t = t])
    case none
    then show ?thesis
      using Nil(3) by (simp add: m_def bnd_fun ld find_ok_run [OF dir] bnd_prims)
  next
    case (some e)
    then show ?thesis
      using Nil(3) by (simp add: m_def bnd_fun ld find_ok_run [OF dir] terminator_run bnd_prims)
  qed
next
  case (Cons t' ts)
  note ld = entry_ld(2) [OF Cons.prems(4), where s = s]
  have dir: "dir_ok (disk s) (inode_at (ino_tab (disk s)) i)" "proper t"
    using Cons.prems by (simp_all add: m_def)
  from dir(1) show ?case
  proof (cases rule: lookup_ok_cases [where t = t])
    case none
    then show ?thesis
      using Cons.prems(3) by (simp add: m_def bnd_fun ld find_ok_run [OF dir] bnd_prims)
  next
    case (some e)
    note ft = entry_ld(1) [OF some(3), where s = s]
    show ?thesis
    proof (cases "m (de_file_type e) = EXT2_FT_DIR")
      case False
      with some Cons.prems(3) show ?thesis
        by (simp add: m_def bnd_fun ld ft find_ok_run [OF dir] bnd_prims)
    next
      case True
      have along: "ok_along m (inode_of m e) (t' # ts)"
        using Cons.prems(2) some True by (simp add: m_def)
      have proper: "\<forall>t \<in> set (t' # ts). proper t"
        using Cons.prems(1) by simp
      note IH = Cons.IH [OF proper along refl some(3)]
      have ends: "butlast (t # t' # ts) = t # butlast (t' # ts)" "last (t # t' # ts) = last (t' # ts)"
        by simp_all
      have "EXT2_FT_SYMLINK \<noteq> EXT2_FT_DIR" by (simp add: EXT2_FT_SYMLINK_def EXT2_FT_DIR_def)
      then show ?thesis
        unfolding ends using some True IH Cons.prems(3)
        by (simp add: m_def bnd_fun ld ft find_ok_run [OF dir] del: butlast.simps last.simps)
    qed
  qed
qed

lemma find_dir_entry_run:
  fixes s :: ext2
  defines "m \<equiv> disk s"
  assumes "\<forall>t \<in> set ts. proper t" "ts \<noteq> []" "ok_along m 2 ts" "rooted m"
  shows "bnd (find_dir_entry (path_of ts b)) f s = (case reach m 2 (butlast ts) of
      None \<Rightarrow> (Exit ENOENT, s)
    | Some up \<Rightarrow> (case lookup m (inode_at (ino_tab m) up) (last ts) of
        None \<Rightarrow> (Exit ENOENT, s)
      | Some e \<Rightarrow> if m (de_file_type e) \<noteq> EXT2_FT_DIR \<and> b then (Exit ENOENT, s) else f (Some e) s))"
proof -
  obtain t us where ts: "ts = t # us"
    using assms(3) by (cases ts) auto
  have toks: "tokens (path_of ts b) = t # us"
    using tokens_path [OF assms(2)] ts by simp
  have root: "dir_ok (disk s) (inode_at (ino_tab (disk s)) 2)"
    using assms(4) ts by (simp add: m_def)
  obtain c where c: "lookup m (inode_at (ino_tab m) 2) (str ''.'') = Some c" "inode_of m c = 2" "c + 8 \<le> 131072"
    using root_entry [OF assms(5)] root by (auto simp: m_def)
  have path: "path_of ts b \<noteq> []" using ts by simp
  have "bnd (find_dir_entry (path_of ts b)) f s = bnd (find_path_loop (ino_tab m) (path_of ts b) us (Some c) t) f s"
    using path_absolute [OF path] toks c(1)
    by (simp add: find_dir_entry_def prog bnd_fun root_number find_ok_run [OF root proper_dot] m_def)
  also have "\<dots> = (case reach m 2 (butlast ts) of
      None \<Rightarrow> (Exit ENOENT, s)
    | Some up \<Rightarrow> (case lookup m (inode_at (ino_tab m) up) (last ts) of
        None \<Rightarrow> (Exit ENOENT, s)
      | Some e \<Rightarrow> if m (de_file_type e) \<noteq> EXT2_FT_DIR \<and> path_of ts b \<noteq> [] \<and> last (path_of ts b) = SLASH
          then (Exit ENOENT, s) else f (Some e) s))"
    unfolding m_def ts by (rule find_path_run) (use assms(2,4) c(2,3) in \<open>simp_all add: ts m_def\<close>)
  finally have run: "bnd (find_dir_entry (path_of ts b)) f s = \<dots>" .
  have "path_of ts b \<noteq> [] \<and> last (path_of ts b) = SLASH \<longleftrightarrow> b"
    using path path_of_last [OF assms(3,2)] by blast
  then show ?thesis
    using run by (simp only:)
qed

text \<open>The copy of its name.\<close>

lemma strncpy_run:
  "a + n \<le> 131072 \<Longrightarrow> bnd (strncpy_from n a) f s = f (takeWhile (\<lambda>b. b \<noteq> 0) (get_bytes (disk s) a n)) s"
proof (induction n arbitrary: a f)
  case 0
  then show ?case by (simp add: bnd_prims get_bytes_def)
next
  case (Suc n)
  have "get_bytes (disk s) a (Suc n) = disk s a # get_bytes (disk s) (Suc a) n"
    by (simp add: get_bytes_def upt_conv_Cons map_Suc_upt [symmetric] del: upt_Suc)
  moreover have "bnd (ld8 a) g s = g (disk s a) s" for g :: "byte \<Rightarrow> (ext2, 'a) prog"
    using Suc.prems by (simp add: bnd_ld)
  ultimately show ?case
    using Suc.prems by (simp add: bnd_fun bnd_prims Suc.IH)
qed

lemma name_copy_run:
  assumes "e + 9 + unat (disk s (de_name_len e)) \<le> 131072" "0 \<notin> set (name_at (disk s) e)"
  shows "bnd (ld8 (de_name_len e)) (\<lambda>n. bnd (strncpy_from (unat n + 1) (de_name e)) (\<lambda>bs. f (take (unat n) bs))) s = f (name_at (disk s) e) s"
proof -
  let ?n = "unat (disk s (de_name_len e))"
  have "bnd (ld8 (de_name_len e)) g s = g (disk s (de_name_len e)) s" for g :: "byte \<Rightarrow> (ext2, 'a) prog"
    using assms(1) by (simp add: bnd_ld entry_fields)
  moreover have "get_bytes (disk s) (de_name e) (?n + 1) = name_at (disk s) e @ [disk s (de_name e + ?n)]"
    by (simp add: get_bytes_def name_at_def)
  moreover have "takeWhile (\<lambda>b. b \<noteq> 0) (name_at (disk s) e @ ys) = name_at (disk s) e @ takeWhile (\<lambda>b. b \<noteq> 0) ys" for ys
    by (rule takeWhile_append2) (use assms(2) in metis)
  moreover have "length (name_at (disk s) e) = ?n"
    by (simp add: name_at_def)
  ultimately show ?thesis
    using assms(1) by (simp add: strncpy_run entry_fields del: strncpy_from.simps)
qed

section \<open>The link\<close>

lemma created_data:
  assumes "sound m" "dir_sound m d" "created m d link name e m'" "\<not> no_inode m link" "link_ok m link"
    and "data_byte m x" "\<not> in_blocks m' d x"
  shows "m' x = m x"
proof -
  note fs = soundD(1) [OF assms(1)]
  obtain k where k: "k < n_inodes m" "inode_at (ino_tab m) (new_ino m link) = ino_tab m + 128 * k"
    using new_slot [OF assms(1,4,5)] by metis
  obtain j where j: "j < n_inodes m" "d = ino_tab m + 128 * j"
    using dir_slot [OF assms(2)] by metis
  have far: "x < d \<or> d + 128 \<le> x" "x < ino_tab m + 128 * k \<or> ino_tab m + 128 * k + 128 \<le> x"
    using slot_no_data [OF fs j(1), of x] slot_no_data [OF fs k(1), of x] assms(6) j(2) by linarith+
  then have "\<not> touches m link (inode_at (ino_tab m) (new_ino m link)) x"
    unfolding k(2) by (auto simp: touches_def)
  moreover have "x < d + 4 \<or> d + 8 \<le> x" "x < d + 28 \<or> d + 32 \<le> x" "x < d + 40 \<or> d + 88 \<le> x"
    using far(1) by auto
  ultimately show ?thesis
    using assms(3) data_byte_plain [OF assms(6)] assms(7) unfolding created_def Let_def by blast
qed

definition new_link :: "memory \<Rightarrow> nat \<Rightarrow> cstring \<Rightarrow> 32 word \<Rightarrow> memory \<Rightarrow> bool" where
  "new_link m d name i m' \<longleftrightarrow> (let r = inode_at (ino_tab m) i in
     dir_map m d name = None \<and> dir_map m' d = (dir_map m d)(name \<mapsto> (i, EXT2_FT_REG_FILE)) \<and>
     sound m' \<and> same_layout m m' \<and> dir_sound m' d \<and>
     get_le 2 m' (i_links_count r) = (get_le 2 m (i_links_count r) + 1 :: 16 word) \<and>
     snd (free_space m') = snd (free_space m) \<and> card (fst (free_space m)) = card (fst (free_space m')) + entry_cost m d name \<and>
     (\<forall>x. data_byte m x \<longrightarrow> \<not> in_blocks m' d x \<longrightarrow> m' x = m x) \<and>
     (\<forall>q. dir_sound m q \<longrightarrow> q \<noteq> d \<longrightarrow> set (dir_blocks m q) \<inter> set (dir_blocks m d) = {} \<longrightarrow>
        dir_sound m' q \<and> dir_map m' q = dir_map m q))"

lemma target_name:
  assumes "target m p ts b = Inr (d, Some n)" "\<forall>t \<in> set ts. proper t"
  shows "proper n"
  using assms by (auto simp: target_def split: if_splits option.splits prod.splits)

lemma created_cost:
  assumes "sound m" "created m d link name e m'"
  shows "card (fst (free_space m)) = card (fst (free_space m')) + entry_cost m d name"
proof -
  note C = assms(2) [unfolded created_def Let_def]
  have "finite (fst (free_space m))" by (simp add: free_space_def)
  moreover have "fresh m \<in> fst (free_space m)" if "\<not> roomy m d name"
    using fresh_block(1) [OF soundD(1) [OF assms(1)]] C that by blast
  ultimately show ?thesis
    using C card_Suc_Diff1 [of "fst (free_space m)" "fresh m"] by (simp add: entry_cost_def)
qed

lemma link_run:
  fixes s :: ext2 and i :: "32 word"
  defines "m \<equiv> disk s"
  assumes "sound m" "dir_sound m d" "inode_ok m i" "i \<noteq> 0" "length name \<le> 255"
  shows "case create_dir_entry d i name EXT2_FT_REG_FILE s of
      (Ok e, t) \<Rightarrow> new_link m d name i (disk t)
    | (Exit c, t) \<Rightarrow> c = EEXIST \<and> dir_map m d name \<noteq> None \<and> disk t = m \<or>
        c = ENOMEM \<and> dir_map m d name = None \<and> \<not> roomy m d name \<and> (fst (free_space m) = {} \<or> length (dir_blocks m d) = 12)
    | _ \<Rightarrow> False"
proof -
  have ok: "link_ok m i" "\<not> no_inode m i" "new_ino m i = i" "inodes_left i m = snd (free_space m)"
    using assms(4,5) by (simp_all add: link_ok_def no_inode_def new_ino_def inodes_left_def)
  note eff = create_effect [of s d i name EXT2_FT_REG_FILE, folded m_def, OF assms(2,3) ok(1)]
  obtain res t where run: "create_dir_entry d i name EXT2_FT_REG_FILE s = (res, t)"
    by (cases "create_dir_entry d i name EXT2_FT_REG_FILE s")
  show ?thesis
  proof (cases res)
    case (Ok e)
    have made: "created m d i name e (disk t)" and snd: "snd (free_space (disk t)) = snd (free_space m)"
      using eff run Ok ok(4) by simp_all
    note C = made [unfolded created_def Let_def ok(3)]
    have sub: "snd (free_space (disk t)) \<subseteq> snd (free_space m)" using snd by simp
    have "dir_sound (disk t) q \<and> dir_map (disk t) q = dir_map m q"
      if "dir_sound m q" "q \<noteq> d" "set (dir_blocks m q) \<inter> set (dir_blocks m d) = {}" for q
      using created_dir [OF assms(2,3) ok(2) made sub that ok(1)] by simp
    moreover have "disk t x = m x" if "data_byte m x" "\<not> in_blocks (disk t) d x" for x
      by (rule created_data [OF assms(2,3) made ok(2,1) that])
    moreover have "same_layout m (disk t)"
      "get_le 2 (disk t) (i_links_count (inode_at (ino_tab m) i)) = (get_le 2 m (i_links_count (inode_at (ino_tab m) i)) + 1 :: 16 word)"
      using C assms(5) by (simp_all add: linked_ok_def)
    ultimately have "new_link m d name i (disk t)"
      using eff run Ok ok(3) snd created_cost [OF assms(2) made] unfolding new_link_def Let_def by simp
    then show ?thesis
      by (simp add: run Ok)
  qed (use eff run ok(2) assms(6) in \<open>auto simp: m_def\<close>)
qed

text \<open>What the program does with the entry of the source.\<close>

definition hard_link :: "cstring \<Rightarrow> nat \<Rightarrow> (ext2, int) prog" where
  "hard_link path e = bnd (ld8 (de_file_type e)) (\<lambda>ft.
     if ft = EXT2_FT_DIR then ret EISDIR
     else bnd (ld8 (de_name_len e)) (\<lambda>n. bnd (strncpy_from (unat n + 1) (de_name e)) (\<lambda>bs.
       (\<lambda>name. bnd (ld32 (de_inode e)) (\<lambda>i. bnd (ln_create_target_file path (Some name) i EXT2_FT_REG_FILE) (\<lambda>_. ret 0)))
         (take (unat n) bs))))"

lemma ln_link_hard:
  "ln_link EXT2_FT_REG_FILE source path = bnd (find_dir_entry source) (\<lambda>r. case r of None \<Rightarrow> ret ENOENT | Some e \<Rightarrow> hard_link path e)"
proof -
  have types: "(EXT2_FT_REG_FILE = EXT2_FT_SYMLINK) = False"
    by (simp add: EXT2_FT_SYMLINK_def EXT2_FT_REG_FILE_def)
  show ?thesis
    unfolding ln_link_def hard_link_def Let_def types simp_thms if_False by (rule TrueI)
qed

lemma hard_link_run:
  fixes s :: ext2
  defines "m \<equiv> disk s"
  defines "p \<equiv> root_inode (ino_tab m)"
  assumes "dir_ok m q" "lookup m q base = Some e" "proper base" "e + 9 + length base \<le> 131072"
    and "\<forall>t \<in> set ts. proper t" "path_of ts b \<noteq> []" "sound_along m p ts"
  shows "hard_link (path_of ts b) e s = (if m (de_file_type e) = EXT2_FT_DIR then (Ok EISDIR, s) else case target m p ts b of
      Inl c \<Rightarrow> (Exit c, s)
    | Inr (d, n) \<Rightarrow> bnd (create_dir_entry d (inode_of m e) (case n of None \<Rightarrow> base | Some name \<Rightarrow> name) EXT2_FT_REG_FILE) (\<lambda>_. ret 0) s)"
proof -
  have name: "name_at (disk s) e = base"
    using assms(4) by (auto simp: lookup_def find_Some_iff m_def)
  then have "length base = unat (disk s (de_name_len e))"
    by (auto simp: name_at_def)
  then have place: "e + 9 + unat (disk s (de_name_len e)) \<le> 131072" "e + 8 \<le> 131072"
    using assms(6) by simp_all
  note ft = entry_ld(1) [OF place(2), where s = s] and ld = entry_ld(2) [OF place(2), where s = s]
  have "0 \<notin> set (name_at (disk s) e)"
    using assms(5) name by (simp add: proper_def)
  note copy = name_copy_run [OF place(1) this, where f = "\<lambda>name. bnd (ld32 (de_inode e)) (\<lambda>i.
      bnd (ln_create_target_file (path_of ts b) (Some name) i EXT2_FT_REG_FILE) (\<lambda>_. ret (0 :: int)))"]
  have "hard_link (path_of ts b) e s = (if m (de_file_type e) = EXT2_FT_DIR then (Ok EISDIR, s)
      else bnd (ln_create_target_file (path_of ts b) (Some base) (inode_of m e) EXT2_FT_REG_FILE) (\<lambda>_. ret 0) s)"
    unfolding hard_link_def ft by (simp only: copy name ld m_def ret_run if_distribR split: if_split)
  then show ?thesis
    using ln_target_run [of ts s b "Some base" "inode_of m e" EXT2_FT_REG_FILE] assms(7-9)
    by (auto simp: bnd_def m_def p_def split: sum.splits option.splits)
qed

text \<open>
  C36: \<open>ext2_ln\<close> without \<open>-s\<close>, from its arguments to the image.  Let the paths of the source and of the
  link consist of the names \<open>ss\<close> and \<open>ts\<close>.  Without an entry for the source the program ends with
  \<open>ENOENT\<close>, and for a directory with \<open>EISDIR\<close>.  Otherwise the link goes where the second path says, as
  for a copy: on success the directory there maps the name to the inode of the source, which has one
  link more, no data of a file changes and every other directory is as before; the errors are
  \<open>ENOENT\<close> and \<open>EEXIST\<close> as the path says, each without a change, and \<open>ENOMEM\<close> exactly when the
  directory has no room and cannot grow.
\<close>

theorem ln_links:
  fixes s :: ext2
  defines "m \<equiv> disk s"
  defines "p \<equiv> root_inode (ino_tab m)"
  assumes "sound m" "\<forall>t \<in> set (ss @ ts). proper t" "ss \<noteq> []" "path_of ts b \<noteq> []"
    and "sound_along m p ss" "sound_along m p ts" "rooted m"
    and "\<And>up e. reach m 2 (butlast ss) = Some up \<Longrightarrow> lookup m (inode_at (ino_tab m) up) (last ss) = Some e \<Longrightarrow>
      inode_ok m (inode_of m e) \<and> e + 9 + length (last ss) \<le> 131072"
  shows "case ln_main True [tool, img, path_of ss a, path_of ts b] s of
      (Ok c, t) \<Rightarrow> \<exists>up e. reach m 2 (butlast ss) = Some up \<and> lookup m (inode_at (ino_tab m) up) (last ss) = Some e \<and>
        (if m (de_file_type e) = EXT2_FT_DIR then c = EISDIR \<and> t = s
         else c = 0 \<and> \<not> a \<and> (\<exists>d n. target m p ts b = Inr (d, n) \<and>
           new_link m d (case n of None \<Rightarrow> last ss | Some name \<Rightarrow> name) (inode_of m e) (disk t)))
    | (Exit c, t) \<Rightarrow> (case reach m 2 (butlast ss) of
        None \<Rightarrow> c = ENOENT \<and> t = s
      | Some up \<Rightarrow> (case lookup m (inode_at (ino_tab m) up) (last ss) of
          None \<Rightarrow> c = ENOENT \<and> t = s
        | Some e \<Rightarrow> m (de_file_type e) \<noteq> EXT2_FT_DIR \<and> (if a then c = ENOENT \<and> t = s else
            case target m p ts b of
              Inl c' \<Rightarrow> c = c' \<and> t = s
            | Inr (d, n) \<Rightarrow> let name = (case n of None \<Rightarrow> last ss | Some name \<Rightarrow> name) in
                c = EEXIST \<and> dir_map m d name \<noteq> None \<and> disk t = m \<or>
                c = ENOMEM \<and> dir_map m d name = None \<and> \<not> roomy m d name \<and>
                  (fst (free_space m) = {} \<or> length (dir_blocks m d) = 12))))
    | _ \<Rightarrow> False"
proof -
  have along: "sound_along m (inode_at (ino_tab m) 2) ss"
    using assms(7) by (simp add: p_def root_number)
  have names: "\<forall>t \<in> set ss. proper t" "\<forall>t \<in> set ts. proper t"
    using assms(4) by auto
  have base: "proper (last ss)" using names(1) assms(5) by simp
  let ?K = "\<lambda>r. case r of None \<Rightarrow> ret ENOENT | Some e \<Rightarrow> hard_link (path_of ts b) e"
  have run: "ln_main True [tool, img, path_of ss a, path_of ts b] s = (case reach m 2 (butlast ss) of
      None \<Rightarrow> (Exit ENOENT, s)
    | Some up \<Rightarrow> (case lookup m (inode_at (ino_tab m) up) (last ss) of
        None \<Rightarrow> (Exit ENOENT, s)
      | Some e \<Rightarrow> if m (de_file_type e) \<noteq> EXT2_FT_DIR \<and> a then (Exit ENOENT, s) else hard_link (path_of ts b) e s))"
    using find_dir_entry_run [of ss s a ?K, folded m_def, OF names(1) assms(5) sound_ok_along [OF along] assms(9), unfolded option.case]
    by (simp add: ln_main_def read_disk_image_def ln_link_hard prog)
  show ?thesis
  proof (cases "reach m 2 (butlast ss)")
    case up: (Some up)
    let ?q = "inode_at (ino_tab m) up"
    have q: "dir_sound m ?q"
      by (rule sound_along_reach [OF sound_along_butlast [OF along] up])
    show ?thesis
    proof (cases "lookup m ?q (last ss)")
      case some: (Some e)
      let ?i = "inode_of m e"
      note e = assms(10) [OF up some]
      have i: "inode_ok m ?i" "?i \<noteq> 0"
        using e some by (auto simp: lookup_def find_Some_iff)
      have "dir_ok m ?q" using q by (simp add: dir_sound_def)
      note hard = hard_link_run [of s, folded m_def, folded p_def, OF this some base _ names(2) assms(6,8)]
      show ?thesis
      proof (cases "m (de_file_type e) = EXT2_FT_DIR \<or> a \<or> (\<exists>c. target m p ts b = Inl c)")
        case True
        then show ?thesis
          using hard e by (auto simp: run up some)
      next
        case False
        then obtain d n where dn: "target m p ts b = Inr (d, n)"
          by (cases "target m p ts b") auto
        let ?name = "case n of None \<Rightarrow> last ss | Some name \<Rightarrow> name"
        have "length ?name \<le> 255"
          using target_name [of m p ts b d] dn names(2) base by (cases n) (auto simp: proper_def)
        note link = link_run [of s d ?i, folded m_def, OF assms(3) target_sound [OF assms(8) dn] i this]
        have "ln_main True [tool, img, path_of ss a, path_of ts b] s =
            bnd (create_dir_entry d ?i ?name EXT2_FT_REG_FILE) (\<lambda>_. ret 0) s"
          unfolding run using up some False hard e dn by simp
        then show ?thesis
          using link False up some dn
          by (cases "create_dir_entry d ?i ?name EXT2_FT_REG_FILE s") (auto simp: bnd_def prog Let_def split: outcome.splits)
      qed
    qed (simp add: run up)
  qed (simp add: run)
qed

lemma ln_links_witness:
  "\<exists>t. ln_main True [str ''ext2_ln'', str ''d.img'', str ''/a'', str ''/b''] \<lparr>disk = file_image, now = 7, src = []\<rparr> = (Ok 0, t) \<and>
     dir_map (disk t) 5248 (str ''b'') = Some (1, EXT2_FT_REG_FILE) \<and> get_le 2 (disk t) (i_links_count 5120) = (2 :: 16 word)"
proof -
  let ?s = "\<lparr>disk = file_image, now = 7, src = []\<rparr>" and ?a = "str ''a''" and ?b = "str ''b''"
  let ?ln = "ln_main True [str ''ext2_ln'', str ''d.img'', path_of [?a] False, path_of [?b] False] ?s"
  have path: "path_of [?a] False = str ''/a''" "path_of [?b] False = str ''/b''"
    by (simp_all add: str_def SLASH_def)
  have free: "dir_map file_image 5248 ?b = None"
    by (simp add: dir_map_def listing_Cons item_at_def file_dir file_records str_def)
  have "actual_len file_image 9240 = 12"
    by (simp add: actual_len_def pad_def entry_fields file_image_def small_image_def)
  then have room: "roomy file_image 5248 ?b"
    by (auto simp: roomy_def file_dir fits_def file_records pad_def str_def)
  have "sound_along file_image 5248 [?b]"
    using file_image_ok(1) free by simp
  moreover have "inode_ok file_image 1"
    using file_image_ok by (simp add: file_ok_def)
  moreover have "length ?a = 1" by (simp add: str_def)
  moreover have "target file_image 5248 [?b] False = Inr (5248, Some ?b)"
    by (simp add: target_one free)
  ultimately have "\<exists>t. ?ln = (Ok 0, t) \<and> new_link file_image 5248 ?b 1 (disk t)"
    using ln_links [where s = ?s and ss = "[?a]" and ts = "[?b]" and a = False and b = False and tool = "str ''ext2_ln''" and img = "str ''d.img''"]
      file_path file_image_sound(3) file_image_ok small_names(1,6) free room
    by (cases ?ln) (auto simp: file_layout file_records Let_def simp del: path_of_simps sound_along.simps split: outcome.splits)
  then show ?thesis
    unfolding path using file_image_ok(5,7) by (auto simp: new_link_def Let_def file_layout links_at_def)
qed

end
