(* ===== verification/Symlink.thy ===== *)
theory Symlink
  imports Linking
begin

text \<open>
  \<open>ext2_ln -s\<close> as a whole: a symbolic link is a new inode whose only block holds the path of the source.
\<close>

section \<open>Storing the path\<close>

lemma put_le_value: "a \<le> x \<Longrightarrow> x < a + n \<Longrightarrow> put_le n a w m x = put_le n a w m' x"
  using put_le_inside [of "x - a" n a w m] put_le_inside [of "x - a" n a w m'] by simp

lemma put_bytes_outside: "x < a \<or> a + length bs \<le> x \<Longrightarrow> put_bytes a bs m x = m x"
  by (auto simp: put_bytes_apply)

text \<open>The writes of \<open>copy_symlink_path\<close> come in another order than those of one block of a file.\<close>

lemma symlink_stored:
  fixes path :: cstring and m :: memory and p :: nat
  defines "k \<equiv> fresh m"
  defines "m2 \<equiv> put_le 4 (i_block p 0) (of_nat (k + 1) :: 32 word) (put_bytes (1024 * (k + 1)) path (block_taken m k))"
  defines "m3 \<equiv> put_le 4 (i_size p) (of_nat (length path) :: 32 word) m2"
  assumes "sound m" "slot_at m p" "blank m p" "fst (free_space m) \<noteq> {}" "length path \<le> 1024"
  shows "put_le 4 (i_blocks p) (NUM_DISK_BLKS (get_le 4 m3 (i_blocks p)) 1024) m3 = stored p (i_block p 0) path m"
proof -
  let ?c = "1024 * (k + 1)" and ?B = "block_taken m k" and ?b = "of_nat (k + 1) :: 32 word"
  let ?v = "NUM_DISK_BLKS (get_le 4 ?B (p + 28)) 1024" and ?l = "of_nat (length path) :: 32 word"
  note fs = soundD(1) [OF assms(4)]
  have k: "data_block m k"
    using fresh_block(1) [OF fs assms(7)] free_block_bound [OF fs] by (auto simp: k_def)
  obtain j where j: "j < n_inodes m" "p = ino_tab m + 128 * j"
    using assms(5) by (auto simp: slot_at_def)
  have far: "p + 128 \<le> ?c \<or> ?c + 1024 \<le> p"
    using k j by (auto simp: data_block_def apart_def)
  have "get_le 4 ?B (p + 4) = (get_le 4 m (p + 4) :: 32 word)"
  proof (rule get_le_cong)
    fix x assume x: "p + 4 \<le> x" "x < p + 4 + 4"
    show "?B x = m x"
      unfolding k_def
    proof (rule block_taken_plain [OF assms(4,7)])
      show "plain_byte m x"
        by (rule slot_plain_byte [OF fs j(1)]) (use x j(2) in simp_all)
    qed (use x far in \<open>auto simp: k_def\<close>)
  qed
  then have empty: "get_le 4 ?B (p + 4) = (0 :: 32 word)"
    using assms(6) by (simp add: blank_def inode_fields)
  have blocks: "get_le 4 m3 (p + 28) = (get_le 4 ?B (p + 28) :: 32 word)"
    unfolding m3_def m2_def
    by (rule get_le_cong) (use far assms(8) in \<open>auto simp: put_le_outside put_bytes_apply inode_fields\<close>)
  define m1 where "m1 = put_le 4 (p + 40) ?b ?B"
  have same: "get_le 4 m1 (p + 28) = (get_le 4 ?B (p + 28) :: 32 word)"
    unfolding m1_def by (rule get_le_cong) (auto simp: put_le_outside)
  have "get_le 4 (put_bytes ?c path (put_le 4 (p + 28) ?v m1)) (p + 4) = (get_le 4 ?B (p + 4) :: 32 word)"
    unfolding m1_def by (rule get_le_cong) (use far assms(8) in \<open>auto simp: put_le_outside put_bytes_apply\<close>)
  then have stored: "stored p (i_block p 0) path m = put_le 4 (p + 4) ?l (put_bytes ?c path (put_le 4 (p + 28) ?v m1))"
    using empty same by (simp add: stored_def Let_def inode_fields m1_def k_def)
  have "put_le 4 (p + 28) ?v m3 x = put_le 4 (p + 4) ?l (put_bytes ?c path (put_le 4 (p + 28) ?v m1)) x" for x
  proof -
    consider "p + 4 \<le> x" "x < p + 8" | "p + 28 \<le> x" "x < p + 32" | "p + 40 \<le> x" "x < p + 44" | "?c \<le> x" "x < ?c + 1024"
      | "x < p + 4 \<or> p + 8 \<le> x" "x < p + 28 \<or> p + 32 \<le> x" "x < p + 40 \<or> p + 44 \<le> x" "x < ?c \<or> ?c + 1024 \<le> x"
      by linarith
    then show ?thesis
    proof cases
      case 1
      then show ?thesis
        using put_le_value [of "p + 4" x 4 ?l m2] by (simp add: put_le_outside m3_def inode_fields)
    next
      case 2
      then have "x < ?c \<or> ?c + length path \<le> x"
        using far assms(8) by linarith
      then have "put_bytes ?c path (put_le 4 (p + 28) ?v m1) x = put_le 4 (p + 28) ?v m1 x"
        by (rule put_bytes_outside)
      then show ?thesis
        using 2 put_le_value [of "p + 28" x 4 ?v m1 m3] by (simp add: put_le_outside)
    next
      case 3
      then have "x < ?c \<or> ?c + length path \<le> x"
        using far assms(8) by linarith
      then have "put_bytes ?c path (put_le 4 (p + 28) ?v m1) x = put_le 4 (p + 28) ?v m1 x"
        by (rule put_bytes_outside)
      then show ?thesis
        using 3 put_le_value [of "p + 40" x 4 ?b ?B "put_bytes ?c path ?B"] by (simp add: put_le_outside m1_def m3_def m2_def inode_fields)
    next
      case 4
      then have "x < p \<or> p + 128 \<le> x" using far by linarith
      then have out: "x < p + 4 \<or> p + 4 + 4 \<le> x" "x < p + 28 \<or> p + 28 + 4 \<le> x" "x < p + 40 \<or> p + 40 + 4 \<le> x"
        by linarith+
      show ?thesis
        by (simp only: m3_def m2_def m1_def inode_fields put_le_outside [OF out(1)] put_le_outside [OF out(2)] put_bytes_apply
            put_le_outside [OF out(3)] mult_0_right add_0_right)
    next
      case 5
      then have out: "x < p + 4 \<or> p + 4 + 4 \<le> x" "x < p + 28 \<or> p + 28 + 4 \<le> x" "x < p + 40 \<or> p + 40 + 4 \<le> x"
        by linarith+
      show ?thesis
        by (simp only: m3_def m2_def m1_def inode_fields put_le_outside [OF out(1)] put_le_outside [OF out(2)] put_bytes_apply
            put_le_outside [OF out(3)] mult_0_right add_0_right)
    qed
  qed
  then have "put_le 4 (p + 28) ?v m3 = stored p (i_block p 0) path m"
    unfolding stored by (rule ext)
  then show ?thesis
    by (simp add: inode_fields blocks)
qed

lemma copy_symlink_run:
  fixes s :: ext2
  defines "m \<equiv> disk s"
  assumes "sound m" "slot_at m r" "blank m r" "path \<noteq> []" "length path \<le> 1024"
    and "e + 8 \<le> 131072" "inode_at (ino_tab m) (inode_of m e) = r"
  shows "copy_symlink_path e path s = (if needed path \<le> card (fst (free_space m))
    then (Ok (), s\<lparr>disk := copied r path m\<rparr>) else (Exit ENOMEM, s))"
proof -
  note fs = soundD(1) [OF assms(2)]
  let ?k = "fresh m"
  have chunks: "chunks path = [path]"
    using assms(5,6) by (simp add: chunks_Cons)
  have finite: "finite (fst (free_space m))" by (simp add: free_space_def)
  have step: "copy_symlink_path e path s = bnd allocate_block (\<lambda>block_num.
     thn (st_bytes (block_start block_num) path)
    (thn (st32 (i_block r 0) block_num)
    (thn (st32 (i_size r) (of_nat (length path)))
         (count_block r)))) s"
    using assms(8) by (simp add: copy_symlink_path_def entry_ld(2) [OF assms(7), where s = s] get_inode_run m_def)
  show ?thesis
  proof (cases "fst (free_space m) = {}")
    case True
    then show ?thesis
      using allocate_block_run [of s] fs unfolding step by (simp add: bnd_def m_def needed_def chunks)
  next
    case False
    note block = fresh_block [OF fs False]
    have "needed path \<le> card (fst (free_space m))"
      using False finite by (simp add: needed_def chunks Suc_le_eq card_gt_0_iff)
    moreover have "allocate_block s = (Ok (of_nat (?k + 1)), s\<lparr>disk := block_taken m ?k\<rparr>)"
      using allocate_block_run [of s] fs False by (simp add: m_def fresh_def Let_def)
    moreover have "r + 128 \<le> 131072"
      by (rule slot_at_end [OF fs assms(3)])
    moreover have "1024 * (?k + 1) + length path \<le> 131072"
      using block(5) assms(6) by simp
    moreover have "copied r path m = stored r (i_block r 0) path m"
      by (simp add: copied_def chunks)
    ultimately show ?thesis
      unfolding step using block(4) symlink_stored [OF assms(2-4) False assms(6)]
      by (simp add: bnd_run prog count_block_def inode_fields EXT2_BLOCK_SIZE_def)
  qed
qed

section \<open>The whole program\<close>

definition soft_link :: "cstring \<Rightarrow> cstring \<Rightarrow> nat \<Rightarrow> (ext2, int) prog" where
  "soft_link source path e = bnd (ld8 (de_file_type e)) (\<lambda>ft.
     bnd (ld8 (de_name_len e)) (\<lambda>n. bnd (strncpy_from (unat n + 1) (de_name e)) (\<lambda>bs.
       (\<lambda>name. bnd (ln_create_target_file path (Some name) 0 EXT2_FT_SYMLINK) (\<lambda>link. thn (copy_symlink_path link source) (ret 0)))
         (take (unat n) bs))))"

lemma ln_link_soft:
  "ln_link EXT2_FT_SYMLINK source path = bnd (find_dir_entry source) (\<lambda>r. case r of None \<Rightarrow> ret ENOENT | Some e \<Rightarrow> soft_link source path e)"
  unfolding ln_link_def soft_link_def Let_def simp_thms if_True if_False by (rule TrueI)

lemma soft_link_run:
  fixes s :: ext2
  defines "m \<equiv> disk s"
  defines "p \<equiv> root_inode (ino_tab m)"
  assumes "lookup m q base = Some e" "proper base" "e + 9 + length base \<le> 131072"
    and "\<forall>t \<in> set ts. proper t" "path_of ts b \<noteq> []" "sound_along m p ts"
  shows "soft_link source (path_of ts b) e s = (case target m p ts b of
      Inl c \<Rightarrow> (Exit c, s)
    | Inr (d, n) \<Rightarrow> bnd (create_dir_entry d 0 (case n of None \<Rightarrow> base | Some name \<Rightarrow> name) EXT2_FT_SYMLINK)
        (\<lambda>link. thn (copy_symlink_path link source) (ret 0)) s)"
proof -
  have name: "name_at (disk s) e = base"
    using assms(3) by (auto simp: lookup_def find_Some_iff m_def)
  then have "length base = unat (disk s (de_name_len e))"
    by (auto simp: name_at_def)
  then have place: "e + 9 + unat (disk s (de_name_len e)) \<le> 131072" "e + 8 \<le> 131072"
    using assms(5) by simp_all
  have "0 \<notin> set (name_at (disk s) e)"
    using assms(4) name by (simp add: proper_def)
  note copy = name_copy_run [OF place(1) this, where f = "\<lambda>name. bnd (ln_create_target_file (path_of ts b) (Some name) 0 EXT2_FT_SYMLINK)
      (\<lambda>link. thn (copy_symlink_path link source) (ret (0 :: int)))"]
  have "soft_link source (path_of ts b) e s = bnd (ln_create_target_file (path_of ts b) (Some base) 0 EXT2_FT_SYMLINK)
      (\<lambda>link. thn (copy_symlink_path link source) (ret 0)) s"
    unfolding soft_link_def entry_ld(1) [OF place(2)] copy name by (rule refl)
  then show ?thesis
    using ln_target_run [of ts s b "Some base" 0 EXT2_FT_SYMLINK] assms(6-8)
    by (auto simp: bnd_def m_def p_def split: sum.splits option.splits)
qed

text \<open>
  C37: \<open>ext2_ln -s\<close> from its arguments to the image, for a source path of at most 1024 bytes.  Without an
  entry for the source the program ends with \<open>ENOENT\<close>.  Otherwise, where the second path says, the
  directory gets a new name of type symbolic link for a fresh inode with one link, which holds
  exactly the bytes of the source path; the counters are right, one block is used and one more if
  the directory grows, and every other directory is as before.  The errors are those of a copy.
\<close>

theorem symlink_created:
  fixes s :: ext2
  defines "m \<equiv> disk s"
  defines "p \<equiv> root_inode (ino_tab m)"
  assumes "sound m" "\<forall>t \<in> set (ss @ ts). proper t" "ss \<noteq> []" "path_of ts b \<noteq> []" "length (path_of ss a) \<le> 1024"
    and "sound_along m p ss" "sound_along m p ts" "rooted m"
    and "\<And>up e. reach m 2 (butlast ss) = Some up \<Longrightarrow> lookup m (inode_at (ino_tab m) up) (last ss) = Some e \<Longrightarrow>
      e + 9 + length (last ss) \<le> 131072"
  shows "case ln_main True [tool, img, str ''-s'', path_of ss a, path_of ts b] s of
      (Ok c, t) \<Rightarrow> c = 0 \<and> (\<exists>up e d n. reach m 2 (butlast ss) = Some up \<and> lookup m (inode_at (ino_tab m) up) (last ss) = Some e \<and>
        target m p ts b = Inr (d, n) \<and>
        new_file m d EXT2_FT_SYMLINK (case n of None \<Rightarrow> last ss | Some name \<Rightarrow> name) (path_of ss a) (disk t))
    | (Exit c, t) \<Rightarrow> (case reach m 2 (butlast ss) of
        None \<Rightarrow> c = ENOENT \<and> t = s
      | Some up \<Rightarrow> (case lookup m (inode_at (ino_tab m) up) (last ss) of
          None \<Rightarrow> c = ENOENT \<and> t = s
        | Some e \<Rightarrow> if a \<and> m (de_file_type e) \<noteq> EXT2_FT_DIR then c = ENOENT \<and> t = s else
            case target m p ts b of
              Inl c' \<Rightarrow> c = c' \<and> t = s
            | Inr (d, n) \<Rightarrow> let name = (case n of None \<Rightarrow> last ss | Some name \<Rightarrow> name) in
                c = EEXIST \<and> dir_map m d name \<noteq> None \<and> disk t = m \<or>
                c = ENOMEM \<and> dir_map m d name = None \<and> (snd (free_space m) = {} \<or> \<not> roomy m d name \<and> length (dir_blocks m d) = 12 \<or>
                  card (fst (free_space m)) < 1 + entry_cost m d name)))
    | _ \<Rightarrow> False"
proof -
  let ?path = "path_of ss a"
  have along: "sound_along m (inode_at (ino_tab m) 2) ss"
    using assms(8) by (simp add: p_def root_number)
  have names: "\<forall>t \<in> set ss. proper t" "\<forall>t \<in> set ts. proper t"
    using assms(4) by auto
  have base: "proper (last ss)" using names(1) assms(5) by simp
  have path: "?path \<noteq> []" using assms(5) by simp
  then have one: "needed ?path = 1"
    using assms(7) by (simp add: needed_def chunks_Cons)
  let ?body = "\<lambda>link. thn (copy_symlink_path link ?path) (ret (0 :: int))"
  let ?K = "\<lambda>r. case r of None \<Rightarrow> ret ENOENT | Some e \<Rightarrow> soft_link ?path (path_of ts b) e"
  have run: "ln_main True [tool, img, str ''-s'', ?path, path_of ts b] s = (case reach m 2 (butlast ss) of
      None \<Rightarrow> (Exit ENOENT, s)
    | Some up \<Rightarrow> (case lookup m (inode_at (ino_tab m) up) (last ss) of
        None \<Rightarrow> (Exit ENOENT, s)
      | Some e \<Rightarrow> if m (de_file_type e) \<noteq> EXT2_FT_DIR \<and> a then (Exit ENOENT, s) else soft_link ?path (path_of ts b) e s))"
    using find_dir_entry_run [of ss s a ?K, folded m_def, OF names(1) assms(5) sound_ok_along [OF along] assms(10), unfolded option.case]
    by (simp add: ln_main_def read_disk_image_def ln_link_soft prog str_def)
  show ?thesis
  proof (cases "reach m 2 (butlast ss)")
    case up: (Some up)
    let ?q = "inode_at (ino_tab m) up"
    show ?thesis
    proof (cases "lookup m ?q (last ss)")
      case some: (Some e)
      note soft = soft_link_run [of s, folded m_def, folded p_def, OF some base assms(11) [OF up some] names(2) assms(6,9)]
      show ?thesis
      proof (cases "m (de_file_type e) \<noteq> EXT2_FT_DIR \<and> a \<or> (\<exists>c. target m p ts b = Inl c)")
        case True
        then show ?thesis
          using soft by (auto simp: run up some)
      next
        case False
        then obtain d n where dn: "target m p ts b = Inr (d, n)"
          by (cases "target m p ts b") auto
        let ?name = "case n of None \<Rightarrow> last ss | Some name \<Rightarrow> name"
        have short: "length ?name \<le> 255"
          using target_name [of m p ts b d] dn names(2) base by (cases n) (auto simp: proper_def)
        have "if needed ?path \<le> card (fst (free_space (disk t))) then \<exists>u. ?body e t = (Ok 0, u) \<and> disk u = copied r ?path (disk t)
            else \<exists>u. ?body e t = (Exit ENOMEM, u)"
          if "e + 8 \<le> 131072" "inode_at (ino_tab (disk t)) (inode_of (disk t) e) = r" "sound (disk t)" "slot_at (disk t) r" "blank (disk t) r"
          for e and t :: ext2 and r
          using copy_symlink_run [OF that(3-5) path assms(7) that(1,2)] by (simp add: bnd_run prog bnd_def)
        note fill = fill_new_run [where s = s and d = d and bs = ?path and body = ?body and name = ?name and ft = EXT2_FT_SYMLINK, folded m_def, OF assms(3) target_sound [OF assms(9) dn] this]
        have "\<not> (m (de_file_type e) \<noteq> EXT2_FT_DIR \<and> a)" using False by blast
        then have "ln_main True [tool, img, str ''-s'', ?path, path_of ts b] s = soft_link ?path (path_of ts b) e s"
          by (simp only: run up some option.case if_False)
        also have "\<dots> = bnd (create_dir_entry d 0 ?name EXT2_FT_SYMLINK) ?body s"
          using soft dn by simp
        finally have "ln_main True [tool, img, str ''-s'', ?path, path_of ts b] s = bnd (create_dir_entry d 0 ?name EXT2_FT_SYMLINK) ?body s" .
        then show ?thesis
          using fill False up some dn short one
          by (cases "bnd (create_dir_entry d 0 ?name EXT2_FT_SYMLINK) ?body s") (auto simp: Let_def split: outcome.splits)
      qed
    qed (simp add: run up)
  qed (simp add: run)
qed

lemma symlink_created_witness:
  "\<exists>t. ln_main True [str ''ext2_ln'', str ''d.img'', str ''-s'', str ''/.'', str ''/b''] \<lparr>disk = small_image, now = 7, src = []\<rparr> = (Ok 0, t) \<and>
     dir_map (disk t) 5248 (str ''b'') = Some (1, EXT2_FT_SYMLINK) \<and> file_bytes (disk t) 5120 = str ''/.''"
proof -
  let ?s = "\<lparr>disk = small_image, now = 7, src = []\<rparr>" and ?a = "str ''.''" and ?b = "str ''b''"
  let ?ln = "ln_main True [str ''ext2_ln'', str ''d.img'', str ''-s'', path_of [?a] False, path_of [?b] False] ?s"
  have path: "path_of [?a] False = str ''/.''" "path_of [?b] False = str ''/b''"
    by (simp_all add: str_def SLASH_def)
  have dot: "proper ?a" "length ?a = 1"
    by (simp_all add: proper_def str_def SLASH_def)
  have "small_image (de_file_type 9216) = EXT2_FT_DIR"
    by (simp add: entry_fields EXT2_FT_DIR_def small_image_def)
  then have self: "dir_map small_image 5248 ?a = Some (2, EXT2_FT_DIR)"
    by (simp add: dir_map_def small_dir listing_Cons item_at_def small_self small_parent)
  have root: "inode_at 5120 2 = 5248"
    by (rule small_dir(1))
  have entry: "lookup small_image 5248 ?a = Some 9216"
    by (simp add: lookup_def small_dir small_self)
  have one: "needed (path_of [?a] False) = 1" "length (path_of [?a] False) \<le> 1024"
    by (simp_all add: path needed_def chunks_Cons str_def)
  have "rooted small_image"
    by (simp add: rooted_def small_layout root self)
  moreover have "sound_along small_image 5248 [?b]" "sound_along small_image 5248 [?a]"
    by (simp_all add: small_dir_sound small_names small_layout self root)
  moreover have "target small_image 5248 [?b] False = Inr (5248, Some ?b)"
    by (simp add: target_one small_names)
  ultimately have "\<exists>t. ?ln = (Ok 0, t) \<and> new_file small_image 5248 EXT2_FT_SYMLINK ?b (path_of [?a] False) (disk t)"
    using symlink_created [where s = ?s and ss = "[?a]" and ts = "[?b]" and a = False and b = False and tool = "str ''ext2_ln''" and img = "str ''d.img''"]
      small_sound small_names dot one entry
    by (cases ?ln) (auto simp: small_layout small_space root entry_cost_def Let_def simp del: path_of_simps sound_along.simps split: outcome.splits)
  then show ?thesis
    unfolding path by (auto simp: new_file_def Let_def small_names small_layout)
qed

end
