(* ===== verification/Spec2Isabelle.thy ===== *)
theory Spec2Isabelle
  imports Interceptor Sim Crossroads Fsck Symlink
begin

text \<open>
  \<^bold>\<open>Verification of the CSC369 operating systems assignments.\<close>

  The repository holds four independent C programs; each is modelled by a group of theories that
  share the theories \<open>Prelude\<close>, \<open>Bytes\<close> and \<open>Allocator\<close>.  A C function is a \<open>prog\<close>: a function of
  the state that gives an outcome (a value, an exit of the process, a fault, or a call that never
  returns) and the new state.  Faults stand for what C leaves undefined and for accesses outside
  an array, a table or the disk.  All definitions can be evaluated.

  \<^bold>\<open>Assignment 1, the system call interceptor\<close> (interceptor.c, interceptor.h): theory \<open>Interceptor\<close>.
  The record \<open>kmod\<close> is the state of the module (\<open>table\<close>, the saved handlers, the two spin locks) and
  of the kernel it touches (\<open>sys_call_table\<close>, its protection, the log).  \<open>my_syscall\<close> is composed of
  the checks \<open>my_syscall_context\<close>, \<open>start_checks\<close>, \<open>stop_checks\<close> and the commands \<open>do_intercept\<close>,
  \<open>do_release\<close>, \<open>do_start\<close>, \<open>do_stop\<close>.  Shown: an invariant of every reachable state, totality and
  error behaviour of \<open>my_syscall\<close>, transparency of \<open>interceptor\<close> and \<open>my_exit_group\<close>, round trips of
  the commands, and that unloading restores the table.  Each call runs to completion; the
  interleaving of two calls is not modelled.  The kernel (\<open>kenv\<close>) is a parameter.

  \<^bold>\<open>Assignment 2, the intersection\<close> (cars.c, traffic.c, traffic.h).  \<open>Route\<close>: directions and
  \<open>compute_path\<close>, whose switches fall through.  \<open>Lane\<close>: cars, lanes and the circular buffer, an
  instance of the locale \<open>bounded_queue\<close>.  \<open>Schedule\<close>: \<open>init_intersection\<close>, \<open>parse_schedule\<close> with
  \<open>fscanf\<close>, and a printer for schedules.  \<open>Traffic\<close>: \<open>car_arrive\<close>, \<open>car_cross\<close> and \<open>main\<close> as nine
  threads with program counters, mutexes and condition variables; a step is \<open>moves\<close>, and \<open>steps\<close>
  adds spurious wakeups.  \<open>TrafficInv\<close>: the invariant of all reachable states, one clause per aspect
  and one preservation lemma per clause and thread.  \<open>Crossroads\<close>: mutual exclusion, absence of
  deadlock in every reachable state, termination with the bound 26 n + 165 for n cars and two more
  steps for every spurious wakeup (the measure \<open>work\<close>), the final state and the exit status.

  \<^bold>\<open>Assignment 3, the paging simulator\<close> (sim.c, pagetable.c, swap.c and the five algorithms).
  \<open>Bitmap\<close>: the bitmap of the swap file, an instance of the locale \<open>slot_allocator\<close>.  \<open>VmState\<close>: the
  state of the simulator (page tables, coremap, physical memory, swap file, counters, and the
  variables of the algorithms).  \<open>Swap\<close>: the swap file.  \<open>Replacement\<close>: the locale \<open>replacement\<close>,
  the contract the page tables rely on; \<open>Fifo_Rand\<close>, \<open>Clock\<close>, \<open>Lru\<close> and \<open>Opt\<close> model the algorithms,
  prove what each evicts, and provide the contract.  \<open>PageTable\<close>: \<open>find_physpage\<close> and
  \<open>allocate_frame\<close>; \<open>PageInv\<close>: the invariant of memory, and the effect of an access, once for every
  algorithm inside the locale.  \<open>Lru\<close> shows that the linked list picks the least recently used frame
  at every one of any sequence of references and evictions.  \<open>Report\<close>: the printed page directory, which
  leaves out a run of invalid entries at its end.  \<open>Sim\<close>: \<open>access_mem\<close>, the trace
  parser and \<open>main\<close>; the simulated memory refines a flat memory for every algorithm, and every run
  within its resources ends normally.  The locales are interpreted on the five algorithms.

  \<^bold>\<open>Assignment 4, the ext2 tools\<close> (ext2.h, ext2_utils.c and six programs).  \<open>Disk\<close>: the mapped image
  as a byte-addressed memory, the structures of ext2.h as offsets, and the two loops the code uses
  everywhere, over the blocks of an inode (\<open>block_loop\<close>) and the records of a block (\<open>walk\<close>); a walk
  that meets a record of length zero never returns.  \<open>Resource\<close>: the two bitmaps, an instance of
  \<open>slot_allocator\<close>.  \<open>Inodes\<close>: allocation and release of inodes and blocks.  \<open>Directory\<close>: the search
  and the creation of entries.  \<open>Paths\<close>: \<open>strtok\<close>, path look-up, and the data of copies and links.
  \<open>Tools\<close>: ext2_mkdir, ext2_cp, ext2_ln, ext2_rm, ext2_restore.  \<open>Checker\<close>: ext2_checker, whose
  recursion over the tree is bounded by a depth.  Where the code does not compile (a cast behind
  \<open>->\<close>, \<open>get_group_descriptor\<close>) the model takes its evident meaning.

  The proofs for Assignment 4 stand on two predicates.  An image is \<open>sound\<close> (\<open>Counters\<close>) when its
  bitmaps and its inode table lie apart inside the image, every free bit is a block or an inode that
  may be handed out, and the four counters are the numbers of zero bits; the bitmaps are then two
  sets of free numbers (\<open>free_space\<close>).  A directory is \<open>dir_sound\<close> (\<open>Dirs\<close>) when its blocks are
  distinct data blocks in use, each tiled by its records.  \<open>Counters\<close> and \<open>Recount\<close> show that
  allocation, release and the first repairs of the checker act on the two sets and the counters and
  on nothing else.  \<open>Entries\<close> gives the list of records that the loops visit and the search for a
  name; \<open>Dirs\<close>, \<open>Create\<close> and \<open>Append\<close> show what the creation of an entry does to that list, in a gap,
  in a record out of use, or in a new block, and \<open>Newfile\<close> what it does to the inode and to all other
  bytes (\<open>created\<close>).  \<open>Contents\<close>: \<open>copy_sourcefile_data\<close> stores exactly the bytes of the source, through
  direct pointers and an indirect block.  \<open>Files\<close>: the blocks of a file (\<open>file_blocks\<close>), and the
  release and the reclaiming of all of them with their inode.  \<open>Remove\<close> and \<open>Restore\<close> follow ext2_rm
  and ext2_restore over a whole directory: removal deletes one entry from the listing, and
  restoring gives the image back byte for byte.

  Paths are lists of names (\<open>Resolve\<close>: \<open>path_of\<close> builds the string that the code tokenises, \<open>reach\<close> the
  inode it leads to, \<open>target\<close> the directory and the name of a new file).  On them stand the theorems on
  the programs as wholes, from the arguments to the image and the exit status: \<open>Copying\<close> for ext2_cp,
  \<open>Mkdir\<close> for ext2_mkdir, \<open>Removal\<close> for ext2_rm and for ext2_restore after it, \<open>Linking\<close> for ext2_ln and
  \<open>Symlink\<close> for ext2_ln -s.  They assume a sound image whose directories along the paths are
  sound; those on ext2_rm and ext2_ln that the root has itself as its entry \<open>.\<close> (\<open>rooted\<close>), and
  the one on ext2_restore that the removed file can be recovered (\<open>restorable\<close>: one link, and a record
  before it without a gap) and that the directories on the way share no block with its own (\<open>clear_of\<close>).
  The link targets are read back with \<open>file_bytes\<close>; nothing in the programs follows a symbolic link.

  \<open>Repair\<close> and \<open>Mend\<close> give the effect of each repair
  of the checker on one entry; \<open>Consistency\<close> has the locale \<open>repair_order\<close> (repairs that keep what
  earlier ones established, so that a pass over a list leaves nothing to a second pass) and its
  interpretation on the four repairs of an entry; \<open>Fsck\<close> turns the walk over the tree into such a pass.
  The entries the checker visits (\<open>visited\<close>) are not the whole tree: it descends into no directory whose
  name begins with a dot, and does not read the last word of an indirect block.  \<open>tree\<close>, \<open>owned\<close> and
  \<open>consistent_image\<close> say what a consistent file system is without these limits, and the theorem gives it
  where nothing is \<open>skipped\<close>.  The
  theorem on the checker takes a depth at which its recursion ends as a hypothesis, since a cyclic
  tree makes the C code recurse without end.

  \<^bold>\<open>Not modelled\<close>: the test drivers of Assignment 1, messages and prompts (the output of Assignments
  2 and 3 is modelled where a test reads it), failure of \<open>malloc\<close> and \<open>pthread_create\<close>, overflow of
  the counters of cars (Assignment 2) and of accesses (Assignment 3, after 2^31 of them), and the native file system, \<open>getopt\<close>, \<open>random\<close> and the kernel, which are
  parameters.
\<close>

end
